(* ===== verification/Prelude.thy ===== *)
theory Prelude
  imports Main "HOL-Library.Word" "HOL-Library.Monad_Syntax" "HOL-Library.Multiset"
begin

text \<open>
  What every other theory of the development shares: names for the machine integers of the
  Rust source, the reading of a host panic, small pieces of the Rust standard library
  (\<open>Vec::swap_remove\<close>, \<open>Iterator::rposition\<close>, \<open>u32::ilog2\<close>, checked and saturating
  arithmetic) and the collections of lemmas the component proofs use.

  A host panic (a failed \<open>assert!\<close>, \<open>unwrap\<close> of \<open>None\<close>, an index out of range) is the
  value \<open>None\<close> of the outer \<open>option\<close> type of an operation.  A failure that the source
  returns as a value (\<open>Result\<close>, an errno, a null pointer) stays a value inside it.
  Unsigned arithmetic wraps, which is what the release profile of the crate does.
\<close>

unbundle bit_operations_syntax

section \<open>Machine integers\<close>

type_synonym u8 = "8 word"
type_synonym u16 = "16 word"
type_synonym u32 = "32 word"
type_synonym u64 = "64 word"
type_synonym i32 = "32 word"
type_synonym i64 = "64 word"
type_synonym vaddr = u32
type_synonym thread_id = nat

abbreviation u32_max :: u32 where "u32_max \<equiv> - 1"

named_theorems panic_simps \<open>unfolding of the panic monad\<close>
named_theorems word_nat \<open>transfer of word facts to natural numbers\<close>

section \<open>Panics\<close>

definition expect :: "bool \<Rightarrow> unit option" where
  "expect b = (if b then Some () else None)"

lemma expect_simps [simp, panic_simps]:
  "expect True = Some ()" "expect False = None"
  by (simp_all add: expect_def)

lemma bind_expect_Some [simp]:
  "(expect b \<bind> f) = Some r \<longleftrightarrow> b \<and> f () = Some r"
  by (cases b) simp_all

lemma bind_expect_None:
  "(expect b \<bind> f) = None \<longleftrightarrow> (b \<longrightarrow> f () = None)"
  by (cases b) simp_all

lemma bind_expect_if [panic_simps]:
  "(expect b \<bind> f) = (if b then f () else None)"
  by (cases b) simp_all

section \<open>Words as natural numbers\<close>

lemma unat_lt_u32 [simp]: "unat (x :: u32) < 4294967296"
  using unsigned_less [of x] by simp

lemma unat_le_u32 [simp]: "unat (x :: u32) \<le> 4294967295"
  using unat_lt_u32 [of x] by linarith

lemma u32_eq_iff: "(x :: u32) = y \<longleftrightarrow> unat x = unat y"
  by (simp add: word_eq_iff_unsigned)

lemma unat_plus_u32 [word_nat]:
  "unat x + unat y < 4294967296 \<Longrightarrow> unat (x + y :: u32) = unat x + unat y"
  by (simp add: unat_word_ariths)

lemma unat_minus_u32 [word_nat]:
  "unat y \<le> unat x \<Longrightarrow> unat (x - y :: u32) = unat x - unat y"
  by (simp add: unat_sub word_le_nat_alt)

lemma unat_minus_one_u32 [word_nat]:
  "x \<noteq> 0 \<Longrightarrow> unat (x - 1 :: u32) = unat x - 1"
  by (simp add: unat_minus_one)

lemma unat_gt_0_u32: "(x :: u32) \<noteq> 0 \<Longrightarrow> 0 < unat x"
  by (simp add: unat_gt_0)

section \<open>Pieces of the Rust standard library\<close>

text \<open>\<open>u32::ilog2\<close>: the position of the highest set bit.\<close>

fun ilog2_nat :: "nat \<Rightarrow> nat" where
  "ilog2_nat n = (if n \<le> 1 then 0 else Suc (ilog2_nat (n div 2)))"

declare ilog2_nat.simps [simp del]

lemma ilog2_nat_bounds:
  "0 < n \<Longrightarrow> 2 ^ ilog2_nat n \<le> n \<and> n < 2 ^ Suc (ilog2_nat n)"
proof (induction n rule: ilog2_nat.induct)
  case (1 n)
  show ?case
  proof (cases "n \<le> 1")
    case True
    with 1 show ?thesis by (simp add: ilog2_nat.simps [of n])
  next
    case False
    with 1 have "2 ^ ilog2_nat (n div 2) \<le> n div 2 \<and> n div 2 < 2 ^ Suc (ilog2_nat (n div 2))"
      by simp
    with False show ?thesis by (simp add: ilog2_nat.simps [of n]) linarith
  qed
qed

lemma ilog2_nat_less: "n < 2 ^ k \<Longrightarrow> 0 < k \<Longrightarrow> ilog2_nat n < k"
proof (cases "n = 0")
  case True
  then show "0 < k \<Longrightarrow> ilog2_nat n < k" by (simp add: ilog2_nat.simps)
next
  case False
  assume n: "n < 2 ^ k"
  from False have "2 ^ ilog2_nat n \<le> n" using ilog2_nat_bounds [of n] by simp
  with n have "(2::nat) ^ ilog2_nat n < 2 ^ k" by linarith
  then show ?thesis by simp
qed

lemma ilog2_nat_mono: "0 < m \<Longrightarrow> m \<le> n \<Longrightarrow> ilog2_nat m \<le> ilog2_nat n"
proof (rule ccontr)
  assume m: "0 < m" "m \<le> n" and "\<not> ilog2_nat m \<le> ilog2_nat n"
  then have "Suc (ilog2_nat n) \<le> ilog2_nat m" by simp
  then have "(2::nat) ^ Suc (ilog2_nat n) \<le> 2 ^ ilog2_nat m"
    by (rule power_increasing) simp
  with ilog2_nat_bounds [of m] ilog2_nat_bounds [of n] m show False by linarith
qed

text \<open>\<open>Vec::swap_remove\<close>: the last element takes the place of the removed one.\<close>

definition swap_remove :: "nat \<Rightarrow> 'a list \<Rightarrow> ('a \<times> 'a list) option" where
  "swap_remove i xs =
     (if i < length xs then Some (xs ! i, butlast (xs[i := last xs])) else None)"

lemma mset_swap_remove:
  assumes "swap_remove i xs = Some (x, ys)"
  shows "mset xs = add_mset x (mset ys)"
proof -
  from assms have i: "i < length xs" and x: "x = xs ! i" and ys: "ys = butlast (xs[i := last xs])"
    by (auto simp: swap_remove_def split: if_splits)
  from i obtain zs z where xs: "xs = zs @ [z]" by (cases xs rule: rev_cases) auto
  show ?thesis
  proof (cases "i = length zs")
    case True
    with xs x ys show ?thesis by simp
  next
    case False
    with i xs have i': "i < length zs" by simp
    with xs ys have ys': "ys = zs[i := z]" by (simp add: list_update_append butlast_append)
    from i' have "mset (zs[i := z]) = add_mset z (mset zs - {#zs ! i#})"
      by (rule mset_update)
    with i' xs x ys' show ?thesis by (simp add: nth_append)
  qed
qed

lemma swap_remove_index: "i < length xs \<Longrightarrow> \<exists>ys. swap_remove i xs = Some (xs ! i, ys)"
  by (simp add: swap_remove_def)

text \<open>\<open>Iterator::rposition\<close> on a vector: the last index whose element satisfies the test.\<close>

definition rposition :: "('a \<Rightarrow> bool) \<Rightarrow> 'a list \<Rightarrow> nat option" where
  "rposition P xs = find (\<lambda>i. P (xs ! i)) (rev [0..<length xs])"

lemma rposition_Some:
  assumes "rposition P xs = Some i"
  shows "i < length xs" and "P (xs ! i)"
proof -
  from assms obtain j where j: "j < length (rev [0..<length xs])"
    and i: "i = rev [0..<length xs] ! j" and P: "P (xs ! (rev [0..<length xs] ! j))"
    unfolding rposition_def find_Some_iff by blast
  from j i have "i \<in> set (rev [0..<length xs])" by (metis nth_mem)
  then show "i < length xs" by simp
  from P i show "P (xs ! i)" by simp
qed

lemma rposition_None: "rposition P xs = None \<longleftrightarrow> (\<forall>x \<in> set xs. \<not> P x)"
  unfolding rposition_def find_None_iff set_rev set_upt by (metis atLeastLessThan_iff in_set_conv_nth le0)

text \<open>\<open>u32::checked_add\<close>.\<close>

definition checked_add_u32 :: "u32 \<Rightarrow> u32 \<Rightarrow> u32 option" where
  "checked_add_u32 a b = (if unat a + unat b < 2 ^ 32 then Some (a + b) else None)"

section \<open>Loops\<close>

text \<open>\<open>for i in lo..hi { body }\<close> over a state.\<close>

definition for_range :: "nat \<Rightarrow> nat \<Rightarrow> (nat \<Rightarrow> 's \<Rightarrow> 's) \<Rightarrow> 's \<Rightarrow> 's" where
  "for_range lo hi body s = fold body [lo..<hi] s"

lemma for_range_empty [simp]: "hi \<le> lo \<Longrightarrow> for_range lo hi body s = s"
  by (simp add: for_range_def)

lemma for_range_step: "lo < hi \<Longrightarrow> for_range lo hi body s = for_range (Suc lo) hi body (body lo s)"
  by (simp add: for_range_def upt_conv_Cons)

lemma unat_succ_less: "(i :: u32) < n \<Longrightarrow> unat (i + 1) = unat i + 1"
proof -
  assume "i < n"
  then have "unat i + 1 < 4294967296"
    using unat_lt_u32 [of n] unfolding word_less_nat_alt by linarith
  then show ?thesis using unat_plus_u32 [of i 1] by simp
qed

end
