(* ===== verification/BTree.thy ===== *)
theory BTree
  imports Prelude
begin

text \<open>
  The ordered map of the Rust standard library (\<open>BTreeMap\<close>), as far as the source uses it:
  an association list strictly sorted by key.  The interface is the locale \<open>ordered_map\<close>;
  what the chunk bookkeeping needs of it (an entry just below a bound, a range scan backwards)
  is proved inside the locale and reaches the allocator through the interpretation \<open>bt\<close>.
\<close>

type_synonym ('k, 'v) btree = "('k \<times> 'v) list"

definition bt_inv :: "('k::linorder, 'v) btree \<Rightarrow> bool" where
  "bt_inv m \<longleftrightarrow> sorted_wrt (<) (map fst m)"

definition bt_get :: "('k, 'v) btree \<Rightarrow> 'k \<Rightarrow> 'v option" where
  "bt_get m k = map_of m k"

fun bt_insert :: "'k::linorder \<Rightarrow> 'v \<Rightarrow> ('k, 'v) btree \<Rightarrow> ('k, 'v) btree" where
  "bt_insert k v [] = [(k, v)]"
| "bt_insert k v ((k', v') # m) =
     (if k < k' then (k, v) # (k', v') # m
      else if k = k' then (k, v) # m
      else (k', v') # bt_insert k v m)"

fun bt_remove :: "'k::linorder \<Rightarrow> ('k, 'v) btree \<Rightarrow> ('k, 'v) btree" where
  "bt_remove k [] = []"
| "bt_remove k ((k', v') # m) = (if k = k' then m else (k', v') # bt_remove k m)"

text \<open>\<open>range(..end).next_back()\<close>: the entry with the greatest key below the bound.\<close>

definition bt_last_below :: "'k::linorder \<Rightarrow> ('k, 'v) btree \<Rightarrow> ('k \<times> 'v) option" where
  "bt_last_below k m =
     (let es = filter (\<lambda>e. fst e < k) m in if es = [] then None else Some (last es))"

section \<open>The interface\<close>

locale ordered_map =
  fixes get :: "'m \<Rightarrow> 'k::linorder \<Rightarrow> 'v option"
    and ins :: "'k \<Rightarrow> 'v \<Rightarrow> 'm \<Rightarrow> 'm"
    and del :: "'k \<Rightarrow> 'm \<Rightarrow> 'm"
    and last_below :: "'k \<Rightarrow> 'm \<Rightarrow> ('k \<times> 'v) option"
    and entries :: "'m \<Rightarrow> ('k \<times> 'v) list"
    and inv :: "'m \<Rightarrow> bool"
  assumes get_ins: "inv m \<Longrightarrow> get (ins k v m) = (get m)(k \<mapsto> v)"
    and get_del: "inv m \<Longrightarrow> get (del k m) = (get m)(k := None)"
    and inv_ins: "inv m \<Longrightarrow> inv (ins k v m)"
    and inv_del: "inv m \<Longrightarrow> inv (del k m)"
    and get_entries: "inv m \<Longrightarrow> get m k = Some v \<longleftrightarrow> (k, v) \<in> set (entries m)"
    and sorted_entries: "inv m \<Longrightarrow> sorted_wrt (<) (map fst (entries m))"
    and last_below_Some: "inv m \<Longrightarrow> last_below b m = Some (k, v) \<Longrightarrow>
          get m k = Some v \<and> k < b \<and> (\<forall>k'. get m k' \<noteq> None \<and> k' < b \<longrightarrow> k' \<le> k)"
    and last_below_None: "inv m \<Longrightarrow> last_below b m = None \<Longrightarrow> get m k \<noteq> None \<Longrightarrow> b \<le> k"
begin

lemma distinct_entries: "inv m \<Longrightarrow> distinct (entries m)"
  using sorted_entries [of m] by (metis distinct_map strict_sorted_iff)

lemma set_entries_ins:
  assumes "inv m" and "get m k = None"
  shows "set (entries (ins k v m)) = insert (k, v) (set (entries m))"
proof -
  have "(k', v') \<in> set (entries (ins k v m)) \<longleftrightarrow> (k', v') \<in> insert (k, v) (set (entries m))" for k' v'
    using assms by (auto simp: get_entries [symmetric] inv_ins get_ins)
  then show ?thesis by auto
qed

lemma set_entries_del:
  assumes "inv m" and "get m k = Some v"
  shows "set (entries (del k m)) = set (entries m) - {(k, v)}"
proof -
  have "(k', v') \<in> set (entries (del k m)) \<longleftrightarrow> (k', v') \<in> set (entries m) - {(k, v)}" for k' v'
    using assms by (auto simp: get_entries [symmetric] inv_del get_del)
  then show ?thesis by auto
qed

lemma mset_entries_ins:
  assumes "inv m" and "get m k = None"
  shows "mset (entries (ins k v m)) = add_mset (k, v) (mset (entries m))"
proof -
  have "(k, v) \<notin> set (entries m)" using assms get_entries by (metis option.distinct(1))
  with assms have "mset_set (set (entries (ins k v m))) =
      add_mset (k, v) (mset_set (set (entries m)))"
    by (simp add: set_entries_ins)
  with assms show ?thesis by (simp add: mset_set_set distinct_entries inv_ins)
qed

lemma mset_entries_del:
  assumes "inv m" and "get m k = Some v"
  shows "mset (entries m) = add_mset (k, v) (mset (entries (del k m)))"
proof -
  have "(k, v) \<in> set (entries m)" using assms get_entries by blast
  then have "mset_set (set (entries m)) =
      add_mset (k, v) (mset_set (set (entries m) - {(k, v)}))"
    by (simp add: mset_set.remove)
  with assms show ?thesis
    by (simp add: mset_set_set distinct_entries inv_del set_entries_del [symmetric])
qed

end

section \<open>The sorted association list provides it\<close>

lemma bt_inv_Nil [simp]: "bt_inv []"
  by (simp add: bt_inv_def)

lemma bt_inv_Cons [simp]:
  "bt_inv ((k, v) # m) \<longleftrightarrow> (\<forall>e \<in> set m. k < fst e) \<and> bt_inv m"
  by (auto simp: bt_inv_def)

lemma bt_get_ins: "bt_get (bt_insert k v m) = (bt_get m)(k \<mapsto> v)"
  by (induction k v m rule: bt_insert.induct) (auto simp: bt_get_def)

lemma bt_get_below: "\<forall>e \<in> set m. (k::'k::linorder) < fst e \<Longrightarrow> bt_get m k = None"
  by (induction m) (auto simp: bt_get_def)

lemma bt_get_del: "bt_inv m \<Longrightarrow> bt_get (bt_remove k m) = (bt_get m)(k := None)"
proof (induction k m rule: bt_remove.induct)
  case (2 k k' v' m)
  then show ?case
    using bt_get_below [of m k'] by (auto simp: bt_get_def fun_eq_iff)
qed (simp add: bt_get_def fun_eq_iff)

lemma set_bt_insert: "set (bt_insert k v m) \<subseteq> insert (k, v) (set m)"
  by (induction k v m rule: bt_insert.induct) auto

lemma set_bt_remove: "set (bt_remove k m) \<subseteq> set m"
  by (induction k m rule: bt_remove.induct) auto

lemma bt_inv_ins: "bt_inv m \<Longrightarrow> bt_inv (bt_insert k v m)"
proof (induction k v m rule: bt_insert.induct)
  case (2 k v k' v' m)
  then show ?case using set_bt_insert [of k v m] by force
qed simp

lemma bt_inv_del: "bt_inv m \<Longrightarrow> bt_inv (bt_remove k m)"
proof (induction k m rule: bt_remove.induct)
  case (2 k k' v' m)
  then show ?case using set_bt_remove [of k m] by auto
qed simp

lemma bt_get_entries: "bt_inv m \<Longrightarrow> bt_get m k = Some v \<longleftrightarrow> (k, v) \<in> set m"
  unfolding bt_get_def bt_inv_def by (intro map_of_eq_Some_iff) (simp add: strict_sorted_iff)

lemma sorted_le_last:
  "sorted_wrt (<) (map fst es) \<Longrightarrow> e \<in> set es \<Longrightarrow> fst e \<le> fst (last es :: 'k::linorder \<times> 'v)"
proof (induction es)
  case (Cons x es)
  then show ?case by (cases "es = []") (auto dest: less_imp_le)
qed simp

lemma bt_last_below_Some:
  assumes inv: "bt_inv m" and last: "bt_last_below b m = Some (k, v)"
  shows "bt_get m k = Some v \<and> k < b \<and> (\<forall>k'. bt_get m k' \<noteq> None \<and> k' < b \<longrightarrow> k' \<le> k)"
proof -
  let ?es = "filter (\<lambda>e. fst e < b) m"
  from last have ne: "?es \<noteq> []" and kv: "last ?es = (k, v)"
    by (auto simp: bt_last_below_def Let_def split: if_splits)
  have sorted: "sorted_wrt (<) (map fst ?es)"
    using inv by (auto simp: bt_inv_def sorted_wrt_map intro: sorted_wrt_filter)
  have "(k, v) \<in> set ?es" using ne kv last_in_set [of ?es] by simp
  then have "bt_get m k = Some v" and "k < b" using inv by (auto simp: bt_get_entries)
  moreover have "k' \<le> k" if "bt_get m k' \<noteq> None" "k' < b" for k'
  proof -
    from that inv obtain v' where "(k', v') \<in> set ?es" by (auto simp: bt_get_entries)
    from sorted_le_last [OF sorted this] kv show ?thesis by simp
  qed
  ultimately show ?thesis by blast
qed

lemma bt_last_below_None:
  assumes "bt_inv m" and "bt_last_below b m = None" and "bt_get m k \<noteq> None"
  shows "b \<le> k"
proof -
  from assms obtain v where "(k, v) \<in> set m" by (auto simp: bt_get_entries)
  with assms(2) show ?thesis
    by (force simp: bt_last_below_def Let_def filter_empty_conv split: if_splits)
qed

interpretation bt: ordered_map bt_get bt_insert bt_remove bt_last_below "\<lambda>m. m" bt_inv
proof
  show "bt_inv m \<Longrightarrow> sorted_wrt (<) (map fst m)" for m :: "('a::linorder, 'b) btree"
    by (simp add: bt_inv_def)
qed (simp_all add: bt_get_ins bt_get_del bt_inv_ins bt_inv_del bt_get_entries
       bt_last_below_Some bt_last_below_None)

end
