(* ===== verification/Allocator.thy ===== *)
theory Allocator
  imports BTree
begin

text \<open>
  The guest heap allocator (\<open>src/mem/allocator.rs\<close>): chunks, the map of chunks by base
  address, the free list bucketed by the logarithm of the size, and the allocator over both.
  Logging is left out.  An operation returns \<open>None\<close> where the host would panic.
\<close>

section \<open>Constants\<close>

definition MIN_CHUNK_SIZE :: u32 where "MIN_CHUNK_SIZE = 16"
definition PAGE_SIZE :: u32 where "PAGE_SIZE = 4096"
definition PAGE_SIZE_ALIGN_MASK :: u32 where "PAGE_SIZE_ALIGN_MASK = 0xfff"

definition MAIN_THREAD_STACK_SIZE :: u32 where "MAIN_THREAD_STACK_SIZE = 1024 * 1024"
definition MAIN_THREAD_STACK_LOW_END :: u32 where
  "MAIN_THREAD_STACK_LOW_END = 0 - MAIN_THREAD_STACK_SIZE"

lemmas alloc_consts = MIN_CHUNK_SIZE_def PAGE_SIZE_def PAGE_SIZE_ALIGN_MASK_def
  MAIN_THREAD_STACK_SIZE_def MAIN_THREAD_STACK_LOW_END_def

definition page_aligned :: "vaddr \<Rightarrow> bool" where
  "page_aligned a \<longleftrightarrow> a AND PAGE_SIZE_ALIGN_MASK = 0"

section \<open>Chunks\<close>

record chunk =
  c_base :: vaddr
  c_size :: u32

definition Chunk_new :: "vaddr \<Rightarrow> u32 \<Rightarrow> chunk option" where
  "Chunk_new base sz = do {
     expect (sz \<ge> PAGE_SIZE \<longrightarrow> page_aligned base);
     expect (sz \<noteq> 0);
     Some \<lparr>c_base = base, c_size = sz\<rparr>
   }"

definition last_byte :: "chunk \<Rightarrow> vaddr" where
  "last_byte c = c_base c + (c_size c - 1)"

definition chunk_contains :: "chunk \<Rightarrow> vaddr \<Rightarrow> bool" where
  "chunk_contains c addr \<longleftrightarrow> c_base c \<le> addr \<and> addr \<le> last_byte c"

definition opt_chunk :: "vaddr \<Rightarrow> u32 \<Rightarrow> chunk option option" where
  "opt_chunk base sz =
     (if sz = 0 then Some None else do { c \<leftarrow> Chunk_new base sz; Some (Some c) })"

definition trisect_by :: "chunk \<Rightarrow> chunk \<Rightarrow> (chunk option \<times> chunk option) option option" where
  "trisect_by self middle =
     (if \<not> chunk_contains self (c_base middle) \<or> \<not> chunk_contains self (last_byte middle)
      then Some None
      else do {
        left \<leftarrow> opt_chunk (c_base self) (c_base middle - c_base self);
        right \<leftarrow> opt_chunk (last_byte middle + 1) (last_byte self - last_byte middle);
        Some (Some (left, right))
      })"

section \<open>ChunkMap\<close>

type_synonym chunk_map = "(vaddr, u32) btree"

definition to_chunk :: "vaddr \<times> u32 \<Rightarrow> chunk" where
  "to_chunk e = \<lparr>c_base = fst e, c_size = snd e\<rparr>"

definition cm_insert :: "chunk \<Rightarrow> chunk_map \<Rightarrow> chunk_map option" where
  "cm_insert c m = do {
     expect (bt_get m (c_base c) = None);
     Some (bt_insert (c_base c) (c_size c) m)
   }"

definition cm_remove_with_base :: "vaddr \<Rightarrow> chunk_map \<Rightarrow> chunk option \<times> chunk_map" where
  "cm_remove_with_base base m =
     (case bt_get m base of
        None \<Rightarrow> (None, m)
      | Some sz \<Rightarrow> (Some \<lparr>c_base = base, c_size = sz\<rparr>, bt_remove base m))"

definition cm_remove_with_end :: "vaddr \<Rightarrow> chunk_map \<Rightarrow> chunk option \<times> chunk_map" where
  "cm_remove_with_end end m =
     (case bt_last_below end m of
        None \<Rightarrow> (None, m)
      | Some e \<Rightarrow>
          (let chunk = to_chunk e in
           if last_byte chunk + 1 \<noteq> end then (None, m)
           else cm_remove_with_base (c_base chunk) m))"

definition cm_get_size_with_base :: "chunk_map \<Rightarrow> vaddr \<Rightarrow> u32 option" where
  "cm_get_size_with_base m base = bt_get m base"

definition cm_iter :: "chunk_map \<Rightarrow> chunk list" where
  "cm_iter m = map to_chunk m"

section \<open>SizeBucketedChunkMap\<close>

record sb_map =
  sb_chunks :: chunk_map
  sb_buckets :: "chunk list list"

text \<open>
  \<open>size.ilog2() - MIN_CHUNK_SIZE.ilog2()\<close> is unsigned: below the minimum it wraps to an index
  beyond every bucket, and the access that follows panics.  There are 28 buckets.
\<close>

definition bucket_for :: "u32 \<Rightarrow> nat" where
  "bucket_for sz =
     unat (of_nat (ilog2_nat (unat sz)) - of_nat (ilog2_nat (unat MIN_CHUNK_SIZE)) :: u32)"

definition N_BUCKETS :: nat where "N_BUCKETS = 28"

definition sb_empty :: sb_map where
  "sb_empty = \<lparr>sb_chunks = [], sb_buckets = replicate N_BUCKETS []\<rparr>"

definition bucket_at :: "sb_map \<Rightarrow> nat \<Rightarrow> chunk list option" where
  "bucket_at s b = (if b < length (sb_buckets s) then Some (sb_buckets s ! b) else None)"

definition set_bucket :: "nat \<Rightarrow> chunk list \<Rightarrow> sb_map \<Rightarrow> sb_map" where
  "set_bucket b cs s = s\<lparr>sb_buckets := (sb_buckets s)[b := cs]\<rparr>"

definition sb_insert :: "chunk \<Rightarrow> sb_map \<Rightarrow> sb_map option" where
  "sb_insert c s = do {
     expect (c_size c \<ge> MIN_CHUNK_SIZE);
     m \<leftarrow> cm_insert c (sb_chunks s);
     bucket \<leftarrow> bucket_at s (bucket_for (c_size c));
     Some (set_bucket (bucket_for (c_size c)) (bucket @ [c]) (s\<lparr>sb_chunks := m\<rparr>))
   }"

definition remove_from_bucket :: "chunk \<Rightarrow> sb_map \<Rightarrow> sb_map option" where
  "remove_from_bucket c s = do {
     bucket \<leftarrow> bucket_at s (bucket_for (c_size c));
     idx \<leftarrow> rposition (\<lambda>c2. c_base c = c_base c2) bucket;
     (removed, rest) \<leftarrow> swap_remove idx bucket;
     expect (c = removed);
     Some (set_bucket (bucket_for (c_size c)) rest s)
   }"

definition sb_remove_with_base :: "vaddr \<Rightarrow> sb_map \<Rightarrow> (chunk option \<times> sb_map) option" where
  "sb_remove_with_base base s =
     (case cm_remove_with_base base (sb_chunks s) of
        (None, m) \<Rightarrow> Some (None, s)
      | (Some c, m) \<Rightarrow> do {
          s' \<leftarrow> remove_from_bucket c (s\<lparr>sb_chunks := m\<rparr>);
          Some (Some c, s')
        })"

definition sb_remove_with_end :: "vaddr \<Rightarrow> sb_map \<Rightarrow> (chunk option \<times> sb_map) option" where
  "sb_remove_with_end end s =
     (case cm_remove_with_end end (sb_chunks s) of
        (None, m) \<Rightarrow> Some (None, s)
      | (Some c, m) \<Rightarrow> do {
          s' \<leftarrow> remove_from_bucket c (s\<lparr>sb_chunks := m\<rparr>);
          Some (Some c, s')
        })"

text \<open>The search loop of \<open>allocate_in_bucket\<close>, over the bucket enumerated from its end.\<close>

fun best_fit :: "u32 \<Rightarrow> (nat \<times> chunk) list \<Rightarrow> (nat \<times> u32) option \<Rightarrow> (nat \<times> u32) option" where
  "best_fit sz [] best = best"
| "best_fit sz ((idx, c) # rest) best =
     (if c_size c \<ge> sz \<and> (case best of None \<Rightarrow> True | Some (_, b) \<Rightarrow> b > c_size c)
      then if c_size c = sz then Some (idx, c_size c)
           else best_fit sz rest (Some (idx, c_size c))
      else best_fit sz rest best)"

text \<open>What \<open>allocate_in_bucket\<close> does with the chunk it has taken out of the free list.\<close>

definition split_existing :: "u32 \<Rightarrow> chunk \<Rightarrow> sb_map \<Rightarrow> (chunk \<times> sb_map) option" where
  "split_existing sz existing s =
     (if c_size existing = sz then Some (existing, s)
      else do {
        alloc \<leftarrow> Chunk_new (c_base existing) sz;
        let rump_base = c_base existing + sz;
        let rump_size = c_size existing - sz;
        if rump_size \<ge> PAGE_SIZE \<and> \<not> page_aligned rump_base then do {
          expect (page_aligned (c_base existing));
          let left_size = PAGE_SIZE - sz;
          left \<leftarrow> Chunk_new (c_base existing + sz) left_size;
          right \<leftarrow> Chunk_new (c_base existing + PAGE_SIZE) (c_size existing - PAGE_SIZE);
          expect (last_byte left + 1 = c_base right);
          expect (c_size left + c_size right = rump_size);
          if left_size \<ge> MIN_CHUNK_SIZE then do {
            s1 \<leftarrow> sb_insert left s;
            s2 \<leftarrow> sb_insert right s1;
            Some (alloc, s2)
          } else do {
            whole \<leftarrow> Chunk_new (c_base existing) (c_size existing);
            Some (whole, s)
          }
        } else if rump_size \<ge> MIN_CHUNK_SIZE then do {
          rump \<leftarrow> Chunk_new rump_base rump_size;
          s1 \<leftarrow> sb_insert rump s;
          Some (alloc, s1)
        } else do {
          whole \<leftarrow> Chunk_new (c_base existing) (c_size existing);
          Some (whole, s)
        }
      })"

definition allocate_in_bucket :: "u32 \<Rightarrow> nat \<Rightarrow> sb_map \<Rightarrow> (chunk option \<times> sb_map) option" where
  "allocate_in_bucket sz b s = do {
     bucket \<leftarrow> bucket_at s b;
     case best_fit sz (rev (enumerate 0 bucket)) None of
       None \<Rightarrow> Some (None, s)
     | Some (idx, _) \<Rightarrow> do {
         (existing, rest) \<leftarrow> swap_remove idx bucket;
         let (existing2, m) = cm_remove_with_base (c_base existing) (sb_chunks s);
         expect (Some existing = existing2);
         (c, s') \<leftarrow> split_existing sz existing (set_bucket b rest (s\<lparr>sb_chunks := m\<rparr>));
         Some (Some c, s')
       }
   }"

text \<open>The first non-empty bucket from an index on (\<open>position(|bucket| !bucket.is_empty())\<close>).\<close>

definition next_nonempty :: "nat \<Rightarrow> chunk list list \<Rightarrow> nat option" where
  "next_nonempty b bs = find (\<lambda>i. bs ! i \<noteq> []) [b..<length bs]"

definition sb_allocate :: "u32 \<Rightarrow> sb_map \<Rightarrow> (chunk option \<times> sb_map) option" where
  "sb_allocate sz s = do {
     expect (sz \<ge> MIN_CHUNK_SIZE);
     let bucket = bucket_for sz;
     (r, s1) \<leftarrow> allocate_in_bucket sz bucket s;
     case r of
       Some c \<Rightarrow> Some (Some c, s1)
     | None \<Rightarrow> do {
         expect (bucket + 1 \<le> length (sb_buckets s1));
         case next_nonempty (bucket + 1) (sb_buckets s1) of
           None \<Rightarrow> Some (None, s1)
         | Some b \<Rightarrow> allocate_in_bucket sz b s1
       }
   }"

definition sb_iter :: "sb_map \<Rightarrow> chunk list" where
  "sb_iter s = concat (sb_buckets s)"

section \<open>The allocator\<close>

record allocator =
  used_chunks :: chunk_map
  unused_chunks :: sb_map

definition Allocator_new :: "allocator option" where
  "Allocator_new = do {
     main_thread_stack \<leftarrow> Chunk_new MAIN_THREAD_STACK_LOW_END MAIN_THREAD_STACK_SIZE;
     rest \<leftarrow> Chunk_new 0 MAIN_THREAD_STACK_LOW_END;
     used \<leftarrow> cm_insert main_thread_stack [];
     unused \<leftarrow> sb_insert rest sb_empty;
     Some \<lparr>used_chunks = used, unused_chunks = unused\<rparr>
   }"

text \<open>The loop of \<open>reserve\<close> that looks for a free chunk around the reservation.\<close>

fun find_trisect :: "chunk \<Rightarrow> chunk list \<Rightarrow> chunk option option" where
  "find_trisect c [] = Some None"
| "find_trisect c (u # us) = do {
     r \<leftarrow> trisect_by u c;
     if r \<noteq> None then Some (Some u) else find_trisect c us
   }"

definition insert_if_large :: "chunk option \<Rightarrow> sb_map \<Rightarrow> sb_map option" where
  "insert_if_large co s =
     (case co of
        None \<Rightarrow> Some s
      | Some c \<Rightarrow> if c_size c \<ge> MIN_CHUNK_SIZE then sb_insert c s else Some s)"

definition alloc_reserve :: "chunk \<Rightarrow> allocator \<Rightarrow> allocator option" where
  "alloc_reserve c a = do {
     to_trisect \<leftarrow> find_trisect c (sb_iter (unused_chunks a));
     case to_trisect of
       None \<Rightarrow> Some a
     | Some t \<Rightarrow> do {
         parts \<leftarrow> trisect_by t c;
         case parts of
           None \<Rightarrow> Some a
         | Some (bef, aft) \<Rightarrow> do {
             (_, u0) \<leftarrow> sb_remove_with_base (c_base t) (unused_chunks a);
             u1 \<leftarrow> insert_if_large bef u0;
             u2 \<leftarrow> insert_if_large aft u1;
             used \<leftarrow> cm_insert c (used_chunks a);
             Some \<lparr>used_chunks = used, unused_chunks = u2\<rparr>
           }
       }
   }"

definition align_size :: "u32 \<Rightarrow> u32 \<Rightarrow> u32 option" where
  "align_size sz align =
     (if sz mod align \<noteq> 0 then checked_add_u32 sz (align - sz mod align) else Some sz)"

definition aligned_request :: "u32 \<Rightarrow> u32 option" where
  "aligned_request sz =
     (if sz < PAGE_SIZE then align_size (max sz MIN_CHUNK_SIZE) MIN_CHUNK_SIZE
      else align_size sz PAGE_SIZE)"

definition alloc_alloc :: "u32 \<Rightarrow> allocator \<Rightarrow> (vaddr \<times> allocator) option" where
  "alloc_alloc sz a =
     (case aligned_request sz of
        None \<Rightarrow> Some (0, a)
      | Some aligned_size \<Rightarrow> do {
          (r, u) \<leftarrow> sb_allocate aligned_size (unused_chunks a);
          case r of
            None \<Rightarrow> Some (0, a\<lparr>unused_chunks := u\<rparr>)
          | Some c \<Rightarrow> do {
              used \<leftarrow> cm_insert c (used_chunks a);
              Some (c_base c, \<lparr>used_chunks = used, unused_chunks = u\<rparr>)
            }
        })"

definition find_allocated_size :: "allocator \<Rightarrow> vaddr \<Rightarrow> u32" where
  "find_allocated_size a base =
     (case cm_get_size_with_base (used_chunks a) base of None \<Rightarrow> 0 | Some sz \<Rightarrow> sz)"

definition try_find_allocated_size :: "allocator \<Rightarrow> vaddr \<Rightarrow> u32 option" where
  "try_find_allocated_size a base = cm_get_size_with_base (used_chunks a) base"

definition is_known_allocation :: "allocator \<Rightarrow> vaddr \<Rightarrow> bool" where
  "is_known_allocation a base \<longleftrightarrow> cm_get_size_with_base (used_chunks a) base \<noteq> None"

text \<open>The size \<open>grow_in_place\<close> settles on, given the free neighbour.\<close>

definition grown_size_of :: "u32 \<Rightarrow> u32 \<Rightarrow> u32 \<Rightarrow> u32" where
  "grown_size_of old_size new_size adjacent_size =
     (if adjacent_size \<ge> PAGE_SIZE then old_size + adjacent_size
      else if adjacent_size - (new_size - old_size) < MIN_CHUNK_SIZE
      then old_size + adjacent_size
      else new_size)"

definition grow_in_place ::
    "vaddr \<Rightarrow> u32 \<Rightarrow> u32 \<Rightarrow> allocator \<Rightarrow> (u32 option \<times> allocator) option" where
  "grow_in_place base old_size new_size a =
     (let extra = new_size - old_size in
      if cm_get_size_with_base (used_chunks a) base = None then Some (None, a)
      else let adjacent_base = base + old_size in do {
        (r, u0) \<leftarrow> sb_remove_with_base adjacent_base (unused_chunks a);
        case r of
          None \<Rightarrow> Some (None, a\<lparr>unused_chunks := u0\<rparr>)
        | Some adjacent \<Rightarrow>
            if c_size adjacent < extra then do {
              u1 \<leftarrow> sb_insert adjacent u0;
              Some (None, a\<lparr>unused_chunks := u1\<rparr>)
            } else (let grown_size = grown_size_of old_size new_size (c_size adjacent) in
              if grown_size \<ge> PAGE_SIZE \<and> \<not> page_aligned base then do {
                u1 \<leftarrow> sb_insert adjacent u0;
                Some (None, a\<lparr>unused_chunks := u1\<rparr>)
              } else do {
                u1 \<leftarrow> (if c_size adjacent < PAGE_SIZE \<and> c_size adjacent - extra \<ge> MIN_CHUNK_SIZE
                      then do {
                        c \<leftarrow> Chunk_new (adjacent_base + extra) (c_size adjacent - extra);
                        sb_insert c u0
                      } else Some u0);
                let (removed, used1) = cm_remove_with_base base (used_chunks a);
                expect (removed \<noteq> None);
                grown \<leftarrow> Chunk_new base grown_size;
                used2 \<leftarrow> cm_insert grown used1;
                Some (Some grown_size, \<lparr>used_chunks = used2, unused_chunks = u1\<rparr>)
              })
      })"

text \<open>The chunk next to a freed one: the one that follows it, else the one that precedes it.\<close>

definition remove_adjacent :: "chunk \<Rightarrow> sb_map \<Rightarrow> (chunk option \<times> sb_map) option" where
  "remove_adjacent freed s = do {
     (r, s1) \<leftarrow> sb_remove_with_base (last_byte freed + 1) s;
     case r of
       Some c \<Rightarrow> Some (Some c, s1)
     | None \<Rightarrow> sb_remove_with_end (c_base freed) s1
   }"

definition alloc_free :: "vaddr \<Rightarrow> allocator \<Rightarrow> (u32 \<times> allocator) option" where
  "alloc_free base a =
     (case cm_remove_with_base base (used_chunks a) of
        (None, _) \<Rightarrow> Some (0, a)
      | (Some freed, used) \<Rightarrow> do {
          (adj, u0) \<leftarrow> remove_adjacent freed (unused_chunks a);
          u1 \<leftarrow> (case adj of
             Some adjacent \<Rightarrow>
               (let new_base = min (c_base freed) (c_base adjacent);
                    new_size = c_size freed + c_size adjacent in
                if new_size \<ge> PAGE_SIZE \<and> \<not> page_aligned new_base then do {
                  u \<leftarrow> insert_if_large (Some adjacent) u0;
                  insert_if_large (Some freed) u
                } else do {
                  combined \<leftarrow> Chunk_new new_base new_size;
                  insert_if_large (Some combined) u0
                })
           | None \<Rightarrow> insert_if_large (Some freed) u0);
          Some (c_size freed, \<lparr>used_chunks = used, unused_chunks = u1\<rparr>)
        })"

definition live_allocations :: "allocator \<Rightarrow> (vaddr \<times> u32) list" where
  "live_allocations a = map (\<lambda>c. (c_base c, c_size c)) (cm_iter (used_chunks a))"


section \<open>Chunks as sets of addresses\<close>

abbreviation cb :: "chunk \<Rightarrow> nat" where "cb c \<equiv> unat (c_base c)"
abbreviation cs :: "chunk \<Rightarrow> nat" where "cs c \<equiv> unat (c_size c)"

definition extent :: "chunk \<Rightarrow> nat set" where
  "extent c = {cb c ..< cb c + cs c}"

definition wf_chunk :: "chunk \<Rightarrow> bool" where
  "wf_chunk c \<longleftrightarrow> 0 < cs c \<and> cb c + cs c \<le> 4294967296 \<and> (4096 \<le> cs c \<longrightarrow> cb c mod 4096 = 0)"

definition chunks_ok :: "chunk set \<Rightarrow> bool" where
  "chunks_ok S \<longleftrightarrow> (\<forall>c \<in> S. wf_chunk c) \<and>
     (\<forall>c \<in> S. \<forall>d \<in> S. c \<noteq> d \<longrightarrow> extent c \<inter> extent d = {})"

lemma chunk_eqI: "cb c = cb d \<Longrightarrow> cs c = cs d \<Longrightarrow> (c :: chunk) = d"
  by (simp add: u32_eq_iff)

lemma page_aligned_iff [word_nat]: "page_aligned a \<longleftrightarrow> unat a mod 4096 = 0"
proof -
  have "a AND 0xfff = take_bit 12 a"
    by (simp add: take_bit_eq_mask mask_numeral)
  moreover have "unat (take_bit 12 a) = unat a mod 4096"
    by (simp only: unsigned_take_bit_eq) (simp add: take_bit_eq_mod)
  ultimately show ?thesis
    by (simp add: page_aligned_def PAGE_SIZE_ALIGN_MASK_def u32_eq_iff)
qed

lemma le_consts [word_nat]:
  "PAGE_SIZE \<le> s \<longleftrightarrow> 4096 \<le> unat s" "s < PAGE_SIZE \<longleftrightarrow> unat s < 4096"
  "MIN_CHUNK_SIZE \<le> s \<longleftrightarrow> 16 \<le> unat s" "s < MIN_CHUNK_SIZE \<longleftrightarrow> unat s < 16"
  "unat PAGE_SIZE = 4096" "unat MIN_CHUNK_SIZE = 16"
  by (simp_all add: PAGE_SIZE_def MIN_CHUNK_SIZE_def word_le_nat_alt word_less_nat_alt)

lemma Chunk_new_ok:
  "unat s \<noteq> 0 \<Longrightarrow> (4096 \<le> unat s \<longrightarrow> unat b mod 4096 = 0) \<Longrightarrow>
     Chunk_new b s = Some \<lparr>c_base = b, c_size = s\<rparr>"
  by (auto simp: Chunk_new_def panic_simps word_nat)

lemma Chunk_new_Some:
  "Chunk_new b s = Some c \<longleftrightarrow>
     unat s \<noteq> 0 \<and> (4096 \<le> unat s \<longrightarrow> unat b mod 4096 = 0) \<and> c = \<lparr>c_base = b, c_size = s\<rparr>"
  by (auto simp: Chunk_new_def panic_simps word_nat unat_gt_0)

lemma unat_last_byte: "wf_chunk c \<Longrightarrow> unat (last_byte c) = cb c + cs c - 1"
proof -
  assume wf: "wf_chunk c"
  then have "unat (c_size c - 1) = cs c - 1"
    by (intro unat_minus_one_u32) (auto simp: wf_chunk_def)
  moreover have "unat (c_base c + (c_size c - 1)) = cb c + unat (c_size c - 1)"
    using wf calculation by (intro unat_plus_u32) (auto simp: wf_chunk_def)
  ultimately show ?thesis
    using wf by (simp add: last_byte_def wf_chunk_def)
qed

lemma chunk_contains_iff: "wf_chunk c \<Longrightarrow> chunk_contains c a \<longleftrightarrow> unat a \<in> extent c"
  by (auto simp: chunk_contains_def extent_def word_le_nat_alt unat_last_byte wf_chunk_def)

lemma extent_nonempty: "wf_chunk c \<Longrightarrow> extent c \<noteq> {}"
  by (auto simp: extent_def wf_chunk_def)

lemma cb_in_extent: "wf_chunk c \<Longrightarrow> cb c \<in> extent c"
  by (auto simp: extent_def wf_chunk_def)

lemma wf_last_in_extent: "wf_chunk c \<Longrightarrow> cb c + cs c - 1 \<in> extent c"
  by (auto simp: extent_def wf_chunk_def)

lemma extent_subset_iff:
  "wf_chunk c \<Longrightarrow> extent c \<subseteq> extent d \<longleftrightarrow> cb d \<le> cb c \<and> cb c + cs c \<le> cb d + cs d"
  by (auto simp: extent_def wf_chunk_def)

lemma extent_disjoint_iff:
  "wf_chunk c \<Longrightarrow> wf_chunk d \<Longrightarrow>
     extent c \<inter> extent d = {} \<longleftrightarrow> cb c + cs c \<le> cb d \<or> cb d + cs d \<le> cb c"
  by (auto simp: extent_def wf_chunk_def)

lemma chunks_ok_wf: "chunks_ok S \<Longrightarrow> c \<in> S \<Longrightarrow> wf_chunk c"
  by (simp add: chunks_ok_def)

lemma chunks_ok_disjoint:
  "chunks_ok S \<Longrightarrow> c \<in> S \<Longrightarrow> d \<in> S \<Longrightarrow> c \<noteq> d \<Longrightarrow> extent c \<inter> extent d = {}"
  by (simp add: chunks_ok_def)

lemma chunks_ok_base: "chunks_ok S \<Longrightarrow> c \<in> S \<Longrightarrow> d \<in> S \<Longrightarrow> c_base c = c_base d \<Longrightarrow> c = d"
  using chunks_ok_disjoint [of S c d] chunks_ok_wf [of S c] chunks_ok_wf [of S d] cb_in_extent
  by force

lemma chunks_ok_subset: "chunks_ok S \<Longrightarrow> T \<subseteq> S \<Longrightarrow> chunks_ok T"
  unfolding chunks_ok_def by blast

lemma chunks_ok_insert:
  "chunks_ok S \<Longrightarrow> wf_chunk c \<Longrightarrow> (\<And>d. d \<in> S \<Longrightarrow> d \<noteq> c \<Longrightarrow> extent c \<inter> extent d = {}) \<Longrightarrow>
     chunks_ok (insert c S)"
  by (auto simp: chunks_ok_def)

text \<open>Replacing a chunk by smaller ones inside it keeps a set of chunks disjoint.\<close>

lemma chunks_ok_replace:
  assumes S: "chunks_ok (insert e S)" and e: "e \<notin> S" and P: "chunks_ok P"
    and sub: "\<And>d. d \<in> P \<Longrightarrow> extent d \<subseteq> extent e"
  shows "chunks_ok (P \<union> S)" and "P \<inter> S = {}"
proof -
  have dis: "extent d \<inter> extent c = {}" if "d \<in> P" "c \<in> S" for c d
  proof -
    have "extent e \<inter> extent c = {}"
      using S e that(2) by (intro chunks_ok_disjoint [OF S]) auto
    with sub [OF that(1)] show ?thesis by blast
  qed
  have S': "chunks_ok S" using S by (rule chunks_ok_subset) auto
  show "chunks_ok (P \<union> S)"
    unfolding chunks_ok_def
  proof (intro conjI ballI impI)
    fix c d assume "c \<in> P \<union> S" "d \<in> P \<union> S" "c \<noteq> d"
    then show "extent c \<inter> extent d = {}"
      using chunks_ok_disjoint [OF S'] chunks_ok_disjoint [OF P] dis [of c d] dis [of d c] by blast
  qed (use S' P chunks_ok_wf in blast)
  show "P \<inter> S = {}"
    using dis P by (force simp: chunks_ok_def dest: extent_nonempty)
qed

section \<open>The chunk map\<close>

definition cm_set :: "chunk_map \<Rightarrow> chunk set" where
  "cm_set m = set (cm_iter m)"

lemma cm_set_iff: "bt_inv m \<Longrightarrow> c \<in> cm_set m \<longleftrightarrow> bt_get m (c_base c) = Some (c_size c)"
  by (force simp: cm_set_def cm_iter_def to_chunk_def bt.get_entries)

lemma bt_get_cm_set: "bt_inv m \<Longrightarrow> bt_get m b = Some s \<longleftrightarrow> \<lparr>c_base = b, c_size = s\<rparr> \<in> cm_set m"
  by (simp add: cm_set_iff)

lemma cm_set_base: "bt_inv m \<Longrightarrow> c \<in> cm_set m \<Longrightarrow> d \<in> cm_set m \<Longrightarrow> c_base c = c_base d \<Longrightarrow> c = d"
  by (simp add: cm_set_iff)

lemma inj_to_chunk: "inj to_chunk"
  by (auto simp: inj_def to_chunk_def)

lemma cm_insert_ok:
  assumes m: "bt_inv m" and new: "\<And>d. d \<in> cm_set m \<Longrightarrow> c_base d \<noteq> c_base c"
  shows "\<exists>m'. cm_insert c m = Some m' \<and> bt_inv m' \<and> cm_set m' = insert c (cm_set m) \<and>
           mset (cm_iter m') = add_mset c (mset (cm_iter m))"
proof -
  have get: "bt_get m (c_base c) = None"
    using new m bt_get_cm_set [of m "c_base c"] by (cases "bt_get m (c_base c)") force+
  let ?m' = "bt_insert (c_base c) (c_size c) m"
  have "mset (cm_iter ?m') = add_mset c (mset (cm_iter m))"
    using arg_cong [OF bt.mset_entries_ins [OF m get, of "c_size c"], of "image_mset to_chunk"]
    by (simp add: cm_iter_def to_chunk_def)
  moreover from this have "cm_set ?m' = insert c (cm_set m)"
    by (metis cm_set_def set_mset_add_mset_insert set_mset_mset)
  ultimately show ?thesis
    using get m by (simp add: cm_insert_def panic_simps bt.inv_ins)
qed

lemma cm_remove_with_base_None:
  "bt_inv m \<Longrightarrow> (\<And>d. d \<in> cm_set m \<Longrightarrow> c_base d \<noteq> b) \<Longrightarrow> cm_remove_with_base b m = (None, m)"
  using bt_get_cm_set [of m b] by (cases "bt_get m b") (force simp: cm_remove_with_base_def)+

lemma cm_remove_with_base_Some:
  assumes m: "bt_inv m" and c: "c \<in> cm_set m"
  shows "\<exists>m'. cm_remove_with_base (c_base c) m = (Some c, m') \<and> bt_inv m' \<and>
           cm_set m' = cm_set m - {c} \<and> mset (cm_iter m) = add_mset c (mset (cm_iter m'))"
proof -
  from m c have get: "bt_get m (c_base c) = Some (c_size c)" by (simp add: cm_set_iff)
  let ?m' = "bt_remove (c_base c) m"
  have inv: "bt_inv ?m'" using m by (rule bt.inv_del)
  have ms: "mset (cm_iter m) = add_mset c (mset (cm_iter ?m'))"
    using arg_cong [OF bt.mset_entries_del [OF m get], of "image_mset to_chunk"]
    by (simp add: cm_iter_def to_chunk_def)
  have "d \<in> cm_set ?m' \<longleftrightarrow> d \<in> cm_set m - {c}" for d
    using m inv c by (auto simp: cm_set_iff bt.get_del)
  with get inv ms show ?thesis by (auto simp: cm_remove_with_base_def)
qed

lemma cm_remove_with_base_cases:
  assumes "bt_inv m"
  obtains (none) "\<And>d. d \<in> cm_set m \<Longrightarrow> c_base d \<noteq> b" "cm_remove_with_base b m = (None, m)"
  | (some) c m' where "c \<in> cm_set m" "c_base c = b" "cm_remove_with_base b m = (Some c, m')"
      "bt_inv m'" "cm_set m' = cm_set m - {c}" "mset (cm_iter m) = add_mset c (mset (cm_iter m'))"
  using assms cm_remove_with_base_None [of m b] cm_remove_with_base_Some [of m] by metis

lemma cm_remove_with_end_cases:
  assumes "bt_inv m"
  obtains (none) "cm_remove_with_end e m = (None, m)"
  | (some) c m' where "c \<in> cm_set m" "last_byte c + 1 = e" "c_base c < e"
      "cm_remove_with_end e m = (Some c, m')"
      "bt_inv m'" "cm_set m' = cm_set m - {c}" "mset (cm_iter m) = add_mset c (mset (cm_iter m'))"
proof (cases "bt_last_below e m")
  case None
  with none show ?thesis by (simp add: cm_remove_with_end_def)
next
  case (Some x)
  obtain k v where x: "x = (k, v)" by fastforce
  let ?c = "to_chunk x"
  from bt.last_below_Some [OF assms Some [unfolded x]] have get: "bt_get m k = Some v" and lt: "k < e"
    by auto
  from get assms x have c: "?c \<in> cm_set m" by (simp add: cm_set_iff to_chunk_def)
  show ?thesis
  proof (cases "last_byte ?c + 1 = e")
    case True
    with cm_remove_with_base_Some [OF assms c] Some lt x c some show ?thesis
      by (auto simp: cm_remove_with_end_def Let_def to_chunk_def)
  next
    case False
    with none Some show ?thesis by (simp add: cm_remove_with_end_def Let_def)
  qed
qed

section \<open>The bucketed free list\<close>

definition sb_set :: "sb_map \<Rightarrow> chunk set" where
  "sb_set s = cm_set (sb_chunks s)"

definition sb_inv :: "sb_map \<Rightarrow> bool" where
  "sb_inv s \<longleftrightarrow> bt_inv (sb_chunks s) \<and> length (sb_buckets s) = N_BUCKETS \<and>
     (\<forall>b < N_BUCKETS. \<forall>c \<in> set (sb_buckets s ! b). bucket_for (c_size c) = b) \<and>
     mset (concat (sb_buckets s)) = mset (cm_iter (sb_chunks s)) \<and>
     (\<forall>c \<in> sb_set s. 16 \<le> cs c)"

lemma bucket_for_eq: "16 \<le> unat s \<Longrightarrow> bucket_for s = ilog2_nat (unat s) - 4"
proof -
  assume s: "16 \<le> unat s"
  have 16: "ilog2_nat 16 = 4" by (simp add: ilog2_nat.simps)
  have "4 \<le> ilog2_nat (unat s)" using ilog2_nat_mono [of 16 "unat s"] s 16 by simp
  moreover have "ilog2_nat (unat s) < 32" by (rule ilog2_nat_less) simp_all
  ultimately show ?thesis
    by (simp add: bucket_for_def word_nat 16 unat_of_nat unat_minus_u32)
qed

lemma bucket_for_less: "16 \<le> unat s \<Longrightarrow> bucket_for s < N_BUCKETS"
  using ilog2_nat_less [of "unat s" 32] by (simp add: bucket_for_eq N_BUCKETS_def)

lemma bucket_for_mono: "16 \<le> unat s \<Longrightarrow> unat s \<le> unat t \<Longrightarrow> bucket_for s \<le> bucket_for t"
  by (simp add: bucket_for_eq diff_le_mono ilog2_nat_mono)

lemma bucket_for_less_imp: "16 \<le> unat s \<Longrightarrow> 16 \<le> unat t \<Longrightarrow> bucket_for s < bucket_for t \<Longrightarrow> unat s < unat t"
  using bucket_for_mono [of t s] by fastforce

lemma in_bucket:
  assumes "sb_inv s" and "c \<in> sb_set s"
  shows "c \<in> set (sb_buckets s ! bucket_for (c_size c))"
proof -
  from assms have "c \<in> set (concat (sb_buckets s))"
    by (metis cm_set_def sb_inv_def sb_set_def set_mset_mset)
  then obtain bk where "bk \<in> set (sb_buckets s)" "c \<in> set bk" by auto
  then obtain b where "b < length (sb_buckets s)" "c \<in> set (sb_buckets s ! b)"
    by (metis in_set_conv_nth)
  with assms show ?thesis by (auto simp: sb_inv_def)
qed

lemma bucket_in_set:
  assumes "sb_inv s" and "b < N_BUCKETS" and "c \<in> set (sb_buckets s ! b)"
  shows "c \<in> sb_set s" and "bucket_for (c_size c) = b" and "16 \<le> cs c"
proof -
  from assms have "c \<in> set (concat (sb_buckets s))" by (auto simp: sb_inv_def intro!: nth_mem)
  with assms(1) show c: "c \<in> sb_set s"
    by (metis cm_set_def sb_inv_def sb_set_def set_mset_mset)
  with assms show "bucket_for (c_size c) = b" "16 \<le> cs c" by (auto simp: sb_inv_def)
qed

lemma mset_concat_update:
  "b < length bs \<Longrightarrow> mset (concat (bs[b := xs])) + mset (bs ! b) = mset (concat bs) + mset xs"
proof (induction bs arbitrary: b)
  case (Cons x bs)
  show ?case
  proof (cases b)
    case (Suc i)
    then show ?thesis using Cons.IH [of i] Cons.prems by (simp add: add.assoc)
  qed (simp add: ac_simps)
qed simp

lemma sb_empty_inv: "sb_inv sb_empty" and sb_empty_set: "sb_set sb_empty = {}"
  by (auto simp: sb_inv_def sb_empty_def sb_set_def cm_set_def cm_iter_def)

lemma sb_insert_ok:
  assumes s: "sb_inv s" and sz: "16 \<le> cs c" and new: "\<And>d. d \<in> sb_set s \<Longrightarrow> c_base d \<noteq> c_base c"
  shows "\<exists>s'. sb_insert c s = Some s' \<and> sb_inv s' \<and> sb_set s' = insert c (sb_set s)"
proof -
  let ?b = "bucket_for (c_size c)"
  have b: "?b < N_BUCKETS" using sz by (rule bucket_for_less)
  from cm_insert_ok [of "sb_chunks s" c] s new obtain m where m: "cm_insert c (sb_chunks s) = Some m"
      "bt_inv m" "cm_set m = insert c (sb_set s)" "mset (cm_iter m) = add_mset c (mset (cm_iter (sb_chunks s)))"
    by (auto simp: sb_inv_def sb_set_def)
  let ?s' = "set_bucket ?b (sb_buckets s ! ?b @ [c]) (s\<lparr>sb_chunks := m\<rparr>)"
  have len: "length (sb_buckets s) = N_BUCKETS" using s by (simp add: sb_inv_def)
  have "sb_insert c s = Some ?s'"
    using sz m(1) b len by (simp add: sb_insert_def panic_simps word_nat bucket_at_def)
  moreover have "sb_set ?s' = insert c (sb_set s)" using m(3) by (simp add: sb_set_def set_bucket_def)
  moreover have "sb_inv ?s'"
    unfolding sb_inv_def
  proof (intro conjI allI ballI impI)
    show "mset (concat (sb_buckets ?s')) = mset (cm_iter (sb_chunks ?s'))"
      using mset_concat_update [of ?b "sb_buckets s" "sb_buckets s ! ?b @ [c]"] b len s m(4)
      by (simp add: set_bucket_def sb_inv_def)
    show "16 \<le> cs d" if "d \<in> sb_set ?s'" for d
      using that m(3) sz s by (auto simp: sb_set_def set_bucket_def sb_inv_def)
    show "bucket_for (c_size d) = i" if "i < N_BUCKETS" "d \<in> set (sb_buckets ?s' ! i)" for i d
      using that s len by (cases "i = ?b") (auto simp: set_bucket_def sb_inv_def)
  qed (use m(2) len in \<open>simp_all add: set_bucket_def\<close>)
  ultimately show ?thesis by blast
qed

text \<open>Taking a chunk out: the map has already lost it, its bucket still holds it.\<close>

lemma set_bucket_removed:
  assumes s: "sb_inv s" and b: "b < N_BUCKETS"
    and bucket: "mset (sb_buckets s ! b) = add_mset c (mset rest)"
    and m: "bt_inv m" "cm_set m = sb_set s - {c}" "mset (cm_iter (sb_chunks s)) = add_mset c (mset (cm_iter m))"
  shows "sb_inv (set_bucket b rest (s\<lparr>sb_chunks := m\<rparr>))"
    and "sb_set (set_bucket b rest (s\<lparr>sb_chunks := m\<rparr>)) = sb_set s - {c}"
proof -
  let ?s' = "set_bucket b rest (s\<lparr>sb_chunks := m\<rparr>)"
  have len: "length (sb_buckets s) = N_BUCKETS" using s by (simp add: sb_inv_def)
  show set: "sb_set ?s' = sb_set s - {c}" using m(2) by (simp add: sb_set_def set_bucket_def)
  have rest: "set rest \<subseteq> set (sb_buckets s ! b)"
    using bucket by (metis set_mset_mset set_mset_add_mset_insert subset_insertI)
  show "sb_inv ?s'"
    unfolding sb_inv_def
  proof (intro conjI allI ballI impI)
    show "mset (concat (sb_buckets ?s')) = mset (cm_iter (sb_chunks ?s'))"
      using mset_concat_update [of b "sb_buckets s" rest] b len s m(3) bucket
      by (simp add: set_bucket_def sb_inv_def)
    show "16 \<le> cs d" if "d \<in> sb_set ?s'" for d
      using that set s by (auto simp: sb_inv_def)
    show "bucket_for (c_size d) = i" if "i < N_BUCKETS" "d \<in> set (sb_buckets ?s' ! i)" for i d
      using that s len rest by (cases "i = b") (auto simp: set_bucket_def sb_inv_def)
  qed (use m(1) len in \<open>simp_all add: set_bucket_def\<close>)
qed

lemma remove_from_bucket_ok:
  assumes s: "sb_inv s" and c: "c \<in> sb_set s"
    and m: "bt_inv m" "cm_set m = sb_set s - {c}" "mset (cm_iter (sb_chunks s)) = add_mset c (mset (cm_iter m))"
  shows "\<exists>s'. remove_from_bucket c (s\<lparr>sb_chunks := m\<rparr>) = Some s' \<and> sb_inv s' \<and> sb_set s' = sb_set s - {c}"
proof -
  let ?b = "bucket_for (c_size c)" let ?bucket = "sb_buckets s ! ?b"
  have b: "?b < N_BUCKETS" using s c by (auto simp: sb_inv_def intro: bucket_for_less)
  have len: "length (sb_buckets s) = N_BUCKETS" using s by (simp add: sb_inv_def)
  have mem: "c \<in> set ?bucket" using s c by (rule in_bucket)
  then obtain idx where idx: "rposition (\<lambda>c2. c_base c = c_base c2) ?bucket = Some idx"
    using rposition_None [of "\<lambda>c2. c_base c = c_base c2" ?bucket] by (cases "rposition (\<lambda>c2. c_base c = c_base c2) ?bucket") auto
  from rposition_Some [OF idx] have i: "idx < length ?bucket" and base: "c_base c = c_base (?bucket ! idx)" .
  have "?bucket ! idx \<in> sb_set s" using s b i by (intro bucket_in_set(1)) auto
  with base c s have eq: "?bucket ! idx = c"
    by (metis cm_set_base sb_inv_def sb_set_def)
  from swap_remove_index [OF i] eq obtain rest where rest: "swap_remove idx ?bucket = Some (c, rest)"
    by auto
  let ?s' = "set_bucket ?b rest (s\<lparr>sb_chunks := m\<rparr>)"
  have "remove_from_bucket c (s\<lparr>sb_chunks := m\<rparr>) = Some ?s'"
    using b len idx rest by (simp add: remove_from_bucket_def bucket_at_def)
  moreover note set_bucket_removed [OF s b mset_swap_remove [OF rest] m]
  ultimately show ?thesis by blast
qed

lemma sb_remove_with_base_cases:
  assumes s: "sb_inv s"
  obtains (none) "\<And>d. d \<in> sb_set s \<Longrightarrow> c_base d \<noteq> b" "sb_remove_with_base b s = Some (None, s)"
  | (some) c s' where "c \<in> sb_set s" "c_base c = b" "sb_remove_with_base b s = Some (Some c, s')"
      "sb_inv s'" "sb_set s' = sb_set s - {c}"
proof -
  have m: "bt_inv (sb_chunks s)" using s by (simp add: sb_inv_def)
  show ?thesis
  proof (rule cm_remove_with_base_cases [OF m, of b])
    assume "cm_remove_with_base b (sb_chunks s) = (None, sb_chunks s)"
      and "\<And>d. d \<in> cm_set (sb_chunks s) \<Longrightarrow> c_base d \<noteq> b"
    with none show ?thesis by (simp add: sb_remove_with_base_def sb_set_def)
  next
    fix c m' assume *: "c \<in> cm_set (sb_chunks s)" "c_base c = b"
      "cm_remove_with_base b (sb_chunks s) = (Some c, m')"
      "bt_inv m'" "cm_set m' = cm_set (sb_chunks s) - {c}" "mset (cm_iter (sb_chunks s)) = add_mset c (mset (cm_iter m'))"
    then obtain s' where "remove_from_bucket c (s\<lparr>sb_chunks := m'\<rparr>) = Some s'" "sb_inv s'" "sb_set s' = sb_set s - {c}"
      using remove_from_bucket_ok [OF s, of c m'] by (auto simp: sb_set_def)
    with * some show ?thesis by (simp add: sb_remove_with_base_def sb_set_def)
  qed
qed

lemma sb_remove_with_end_cases:
  assumes s: "sb_inv s"
  obtains (none) "sb_remove_with_end e s = Some (None, s)"
  | (some) c s' where "c \<in> sb_set s" "last_byte c + 1 = e" "c_base c < e"
      "sb_remove_with_end e s = Some (Some c, s')"
      "sb_inv s'" "sb_set s' = sb_set s - {c}"
proof -
  have m: "bt_inv (sb_chunks s)" using s by (simp add: sb_inv_def)
  show ?thesis
  proof (rule cm_remove_with_end_cases [OF m, of e])
    assume "cm_remove_with_end e (sb_chunks s) = (None, sb_chunks s)"
    with none show ?thesis by (simp add: sb_remove_with_end_def)
  next
    fix c m' assume *: "c \<in> cm_set (sb_chunks s)" "last_byte c + 1 = e" "c_base c < e"
      "cm_remove_with_end e (sb_chunks s) = (Some c, m')"
      "bt_inv m'" "cm_set m' = cm_set (sb_chunks s) - {c}" "mset (cm_iter (sb_chunks s)) = add_mset c (mset (cm_iter m'))"
    then obtain s' where "remove_from_bucket c (s\<lparr>sb_chunks := m'\<rparr>) = Some s'" "sb_inv s'" "sb_set s' = sb_set s - {c}"
      using remove_from_bucket_ok [OF s, of c m'] by (auto simp: sb_set_def)
    with * some show ?thesis by (simp add: sb_remove_with_end_def sb_set_def)
  qed
qed

section \<open>The best-fit search\<close>

text \<open>The loop finds a smallest chunk that is large enough, if the bucket has one.\<close>

definition fits :: "u32 \<Rightarrow> (nat \<times> chunk) list \<Rightarrow> chunk set" where
  "fits sz es = {c. c \<in> snd ` set es \<and> sz \<le> c_size c}"

lemma fits_Cons:
  "fits sz ((k, c) # es) = (if sz \<le> c_size c then insert c (fits sz es) else fits sz es)"
  by (auto simp: fits_def)

lemma fits_le: "c \<in> fits sz es \<Longrightarrow> sz \<le> c_size c"
  by (simp add: fits_def)

lemma best_fit_Some:
  "best_fit sz es (Some (i, b)) = r \<Longrightarrow> sz \<le> b \<Longrightarrow>
     \<exists>j s. r = Some (j, s) \<and> s \<le> b \<and> (\<forall>c \<in> fits sz es. s \<le> c_size c) \<and>
       ((j, s) = (i, b) \<or> (\<exists>c. (j, c) \<in> set es \<and> c_size c = s \<and> sz \<le> s))"
proof (induction es arbitrary: i b)
  case Nil
  then show ?case by (auto simp: fits_def)
next
  case (Cons e es)
  obtain k c where e: "e = (k, c)" by fastforce
  show ?case
  proof (cases "sz \<le> c_size c \<and> c_size c < b")
    case better: True
    show ?thesis
    proof (cases "c_size c = sz")
      case True
      with better Cons.prems e have "r = Some (k, sz)" by simp
      with True better e show ?thesis
        by (intro exI [of _ k] exI [of _ sz]) (auto intro: fits_le)
    next
      case False
      with better Cons.prems e have r: "best_fit sz es (Some (k, c_size c)) = r" by simp
      from Cons.IH [OF r] better obtain j s where *: "r = Some (j, s)" "s \<le> c_size c"
        "\<forall>c \<in> fits sz es. s \<le> c_size c"
        "(j, s) = (k, c_size c) \<or> (\<exists>c. (j, c) \<in> set es \<and> c_size c = s \<and> sz \<le> s)" by blast
      then have "s \<le> b" using better by (meson order.trans less_imp_le)
      moreover have "\<exists>c. (j, c) \<in> set (e # es) \<and> c_size c = s \<and> sz \<le> s"
        using *(4) e better by auto
      moreover have "\<forall>c \<in> fits sz (e # es). s \<le> c_size c" using * e by (simp add: fits_Cons)
      ultimately show ?thesis using *(1) by blast
    qed
  next
    case False
    with Cons.prems e have "best_fit sz es (Some (i, b)) = r" by (auto split: if_splits)
    from Cons.IH [OF this Cons.prems(2)] obtain j s where *: "r = Some (j, s)" "s \<le> b"
      "\<forall>c \<in> fits sz es. s \<le> c_size c"
      "(j, s) = (i, b) \<or> (\<exists>c. (j, c) \<in> set es \<and> c_size c = s \<and> sz \<le> s)" by blast
    then have "\<forall>c \<in> fits sz (e # es). s \<le> c_size c"
      using False e by (auto simp: fits_Cons)
    with * show ?thesis by auto
  qed
qed

lemma best_fit_None:
  "best_fit sz es None = None \<Longrightarrow> fits sz es = {}"
proof (induction es)
  case (Cons e es)
  obtain k c where e: "e = (k, c)" by fastforce
  show ?case
  proof (cases "sz \<le> c_size c")
    case True
    with Cons.prems e have "c_size c \<noteq> sz" "best_fit sz es (Some (k, c_size c)) = None"
      by (auto split: if_splits)
    with best_fit_Some [OF this(2) True] show ?thesis by simp
  next
    case False
    with Cons e show ?thesis by (auto simp: fits_def)
  qed
qed (simp add: fits_def)

lemma best_fit_found:
  "best_fit sz es None = Some (j, s) \<Longrightarrow>
     (\<exists>c. (j, c) \<in> set es \<and> c_size c = s \<and> sz \<le> s) \<and> (\<forall>c \<in> fits sz es. s \<le> c_size c)"
proof (induction es)
  case (Cons e es)
  obtain k c where e: "e = (k, c)" by fastforce
  show ?case
  proof (cases "sz \<le> c_size c")
    case fit: True
    show ?thesis
    proof (cases "c_size c = sz")
      case True
      with fit Cons.prems e show ?thesis by (auto simp: fits_def)
    next
      case False
      with fit Cons.prems e have "best_fit sz es (Some (k, c_size c)) = Some (j, s)" by simp
      from best_fit_Some [OF this fit] fit e show ?thesis by (auto simp: fits_def)
    qed
  next
    case False
    with Cons.prems e have "best_fit sz es None = Some (j, s)" by simp
    from Cons.IH [OF this] False e show ?thesis by (auto simp: fits_def)
  qed
qed simp

lemma enumerate_index: "(j, c) \<in> set (enumerate 0 xs) \<longleftrightarrow> j < length xs \<and> xs ! j = c"
  by (auto simp: in_set_enumerate_eq)

lemma fits_enumerate: "fits sz (rev (enumerate 0 xs)) = {c \<in> set xs. sz \<le> c_size c}"
proof -
  have "snd ` set (enumerate 0 xs) = set xs"
    by (metis map_snd_enumerate set_map)
  then show ?thesis by (auto simp: fits_def)
qed

section \<open>Splitting a free chunk\<close>

text \<open>\<open>c\<close> and the chunks of \<open>P\<close> tile \<open>e\<close>, with \<open>c\<close> at its start.\<close>

definition tiles :: "chunk \<Rightarrow> chunk \<Rightarrow> chunk set \<Rightarrow> bool" where
  "tiles e c P \<longleftrightarrow> c_base c = c_base e \<and> c \<notin> P \<and> chunks_ok (insert c P) \<and>
     extent e = extent c \<union> (\<Union>d \<in> P. extent d)"

definition request_ok :: "u32 \<Rightarrow> bool" where
  "request_ok sz \<longleftrightarrow> 16 \<le> unat sz \<and> (4096 \<le> unat sz \<longrightarrow> unat sz mod 4096 = 0)"

lemma tiles_self: "wf_chunk e \<Longrightarrow> tiles e e {}"
  by (simp add: tiles_def chunks_ok_def)

lemma tiles_two:
  assumes e: "wf_chunk e" and c: "wf_chunk c" "wf_chunk d"
    and b: "cb c = cb e" "cb d = cb e + cs c" "cs c + cs d = cs e"
  shows "tiles e c {d}"
proof -
  have "c \<noteq> d" using c b by (auto simp: wf_chunk_def)
  moreover have "extent c \<inter> extent d = {}" using b by (auto simp: extent_def)
  moreover have "extent e = extent c \<union> extent d" using b by (auto simp: extent_def)
  ultimately show ?thesis using c b by (auto simp: tiles_def chunks_ok_def u32_eq_iff)
qed

lemma tiles_three:
  assumes e: "wf_chunk e" and c: "wf_chunk c" "wf_chunk d" "wf_chunk f"
    and b: "cb c = cb e" "cb d = cb e + cs c" "cb f = cb d + cs d" "cs c + cs d + cs f = cs e"
  shows "tiles e c {d, f}"
proof -
  have ne: "c \<noteq> d" "c \<noteq> f" "d \<noteq> f" using c b by (auto simp: wf_chunk_def)
  moreover have "extent c \<inter> extent d = {}" "extent c \<inter> extent f = {}" "extent d \<inter> extent f = {}"
    using b by (auto simp: extent_def)
  moreover have "extent e = extent c \<union> extent d \<union> extent f" using b by (auto simp: extent_def)
  ultimately show ?thesis using c b by (auto simp: tiles_def chunks_ok_def u32_eq_iff)
qed

lemma sb_insert_disjoint:
  assumes "sb_inv s" and "16 \<le> cs c" and "wf_chunk c"
    and "\<And>d. d \<in> sb_set s \<Longrightarrow> wf_chunk d \<and> extent d \<inter> extent c = {}"
  shows "\<exists>s'. sb_insert c s = Some s' \<and> sb_inv s' \<and> sb_set s' = insert c (sb_set s)"
proof (rule sb_insert_ok [OF assms(1,2)])
  fix d assume "d \<in> sb_set s"
  then have "wf_chunk d" "extent d \<inter> extent c = {}" using assms(4) by auto
  with cb_in_extent [of d] cb_in_extent [OF assms(3)] show "c_base d \<noteq> c_base c" by auto
qed

definition split_result :: "u32 \<Rightarrow> chunk \<Rightarrow> sb_map \<Rightarrow> bool" where
  "split_result sz e s \<longleftrightarrow>
     (\<exists>c s' P. split_existing sz e s = Some (c, s') \<and> sb_inv s' \<and> sb_set s' = P \<union> sb_set s \<and>
        tiles e c P \<and> unat sz \<le> cs c \<and> (16 dvd unat sz \<longrightarrow> cs c < unat sz + 16))"

definition away_from :: "chunk \<Rightarrow> sb_map \<Rightarrow> bool" where
  "away_from e s \<longleftrightarrow> (\<forall>d \<in> sb_set s. wf_chunk d \<and> extent d \<inter> extent e = {})"

lemma sb_insert_inside:
  assumes "sb_inv s" and "away_from e s" and "16 \<le> cs c" "wf_chunk c"
    and "cb e \<le> cb c" "cb c + cs c \<le> cb e + cs e"
  shows "\<exists>s'. sb_insert c s = Some s' \<and> sb_inv s' \<and> sb_set s' = insert c (sb_set s)"
proof (rule sb_insert_disjoint [OF assms(1,3,4)])
  fix d assume d: "d \<in> sb_set s"
  have "extent c \<subseteq> extent e" using assms by (auto simp: extent_def)
  with d assms(2) show "wf_chunk d \<and> extent d \<inter> extent c = {}"
    unfolding away_from_def by blast
qed

lemma split_words:
  assumes "wf_chunk e" and "unat sz < cs e"
  shows "unat (c_base e + sz) = cb e + unat sz" and "unat (c_size e - sz) = cs e - unat sz"
  using assms by (auto simp: wf_chunk_def unat_plus_u32 unat_minus_u32)

lemma split_alloc:
  assumes "wf_chunk e" and "request_ok sz" and "unat sz < cs e"
  shows "wf_chunk \<lparr>c_base = c_base e, c_size = sz\<rparr>"
    and "Chunk_new (c_base e) sz = Some \<lparr>c_base = c_base e, c_size = sz\<rparr>"
    and "Chunk_new (c_base e) (c_size e) = Some e"
  using assms by (auto simp: wf_chunk_def request_ok_def Chunk_new_Some)

lemma split_small:
  assumes "wf_chunk e" and "request_ok sz" and "4096 \<le> cs e" and "(cb e + unat sz) mod 4096 \<noteq> 0"
  shows "unat sz < 4096"
proof (rule ccontr)
  assume "\<not> unat sz < 4096"
  with assms have "4096 dvd cb e" "4096 dvd unat sz"
    by (auto simp: wf_chunk_def request_ok_def)
  then have "4096 dvd cb e + unat sz" by (rule dvd_add)
  then have "(cb e + unat sz) mod 4096 = 0" by (rule dvd_imp_mod_0)
  with assms(4) show False by simp
qed

lemma split_page:
  assumes e: "wf_chunk e" and sz: "request_ok sz" "unat sz < cs e" and s: "sb_inv s" "away_from e s"
    and page: "4096 \<le> cs e - unat sz" "(cb e + unat sz) mod 4096 \<noteq> 0"
  shows "split_result sz e s"
proof -
  let ?left = "\<lparr>c_base = c_base e + sz, c_size = PAGE_SIZE - sz\<rparr>"
  let ?right = "\<lparr>c_base = c_base e + PAGE_SIZE, c_size = c_size e - PAGE_SIZE\<rparr>"
  let ?alloc = "\<lparr>c_base = c_base e, c_size = sz\<rparr>"
  have big: "4096 \<le> cs e" and n: "16 \<le> unat sz" using page sz by (auto simp: request_ok_def)
  have base: "cb e mod 4096 = 0" and top: "cb e + cs e \<le> 4294967296"
    using e big by (auto simp: wf_chunk_def)
  have small: "unat sz < 4096" using split_small [OF e sz(1) big page(2)] .
  note w = split_words [OF e sz(2)] split_words [of e PAGE_SIZE, OF e]
  have rb: "unat (c_base e + PAGE_SIZE) = cb e + 4096" "unat (c_size e - PAGE_SIZE) = cs e - 4096"
    using w(3,4) page sz n by (auto simp: word_nat)
  have ls: "unat (PAGE_SIZE - sz) = 4096 - unat sz" using small by (simp add: unat_minus_u32 word_nat)
  have wl: "wf_chunk ?left" and wr: "wf_chunk ?right"
    using page small n base top by (auto simp: wf_chunk_def w rb ls)
  note new = split_alloc [OF e sz]
  have news: "Chunk_new (c_base e + sz) (PAGE_SIZE - sz) = Some ?left"
    "Chunk_new (c_base e + PAGE_SIZE) (c_size e - PAGE_SIZE) = Some ?right"
    using wl wr by (auto simp: Chunk_new_Some wf_chunk_def)
  have sane: "last_byte ?left + 1 = c_base ?right" "c_size ?left + c_size ?right = c_size e - sz"
    by (simp_all add: last_byte_def)
  have guard: "PAGE_SIZE \<le> c_size e - sz \<and> \<not> page_aligned (c_base e + sz)"
    "page_aligned (c_base e)" "c_size e \<noteq> sz"
    using page base sz(2) by (auto simp: word_nat w)
  show ?thesis
  proof (cases "16 \<le> 4096 - unat sz")
    case True
    obtain s1 where s1: "sb_insert ?left s = Some s1" "sb_inv s1" "sb_set s1 = insert ?left (sb_set s)"
      using sb_insert_inside [OF s _ wl] True page big by (auto simp: w ls)
    have away: "away_from ?right s1"
      unfolding away_from_def s1(3)
    proof (intro ballI conjI)
      fix d assume d: "d \<in> insert ?left (sb_set s)"
      show "wf_chunk d" using d wl s(2) by (auto simp: away_from_def)
      have "extent ?right \<subseteq> extent e" using page by (auto simp: extent_def rb)
      moreover have "extent ?left \<inter> extent ?right = {}" by (auto simp: extent_def rb w ls)
      ultimately show "extent d \<inter> extent ?right = {}" using d s(2) by (auto simp: away_from_def)
    qed
    have "16 \<le> cs e - 4096" using page(1) n by linarith
    then obtain s2 where s2: "sb_insert ?right s1 = Some s2" "sb_inv s2"
        "sb_set s2 = insert ?right (insert ?left (sb_set s))"
      using sb_insert_inside [OF s1(2) away _ wr] s1(3) by (auto simp: rb)
    have "split_existing sz e s = Some (?alloc, s2)"
      using guard new news sane s1 s2 True
      by (simp add: split_existing_def panic_simps Let_def word_nat ls)
    moreover have "tiles e ?alloc {?left, ?right}"
      by (rule tiles_three [OF e new(1) wl wr]) (use page small in \<open>simp_all add: w rb ls\<close>)
    ultimately show ?thesis
      unfolding split_result_def using s2 by (intro exI [of _ ?alloc] exI [of _ s2] exI [of _ "{?left, ?right}"]) auto
  next
    case False
    have "split_existing sz e s = Some (e, s)"
      using guard new news sane False
      by (simp add: split_existing_def panic_simps Let_def word_nat ls)
    moreover have "\<not> 16 dvd unat sz"
      using False small by presburger
    ultimately show ?thesis
      unfolding split_result_def using s sz(2) tiles_self [OF e]
      by (intro exI [of _ e] exI [of _ s] exI [of _ "{}"]) auto
  qed
qed

lemma split_rump:
  assumes e: "wf_chunk e" and sz: "request_ok sz" "unat sz < cs e" and s: "sb_inv s" "away_from e s"
    and rump: "\<not> (4096 \<le> cs e - unat sz \<and> (cb e + unat sz) mod 4096 \<noteq> 0)"
  shows "split_result sz e s"
proof -
  let ?rump = "\<lparr>c_base = c_base e + sz, c_size = c_size e - sz\<rparr>"
  let ?alloc = "\<lparr>c_base = c_base e, c_size = sz\<rparr>"
  note w = split_words [OF e sz(2)]
  note new = split_alloc [OF e sz]
  have wr: "wf_chunk ?rump" using e sz(2) rump by (auto simp: wf_chunk_def w)
  have guard: "\<not> (PAGE_SIZE \<le> c_size e - sz \<and> \<not> page_aligned (c_base e + sz))" "c_size e \<noteq> sz"
    using rump sz(2) by (auto simp: word_nat w)
  show ?thesis
  proof (cases "16 \<le> cs e - unat sz")
    case True
    obtain s1 where s1: "sb_insert ?rump s = Some s1" "sb_inv s1" "sb_set s1 = insert ?rump (sb_set s)"
      using sb_insert_inside [OF s _ wr] True by (auto simp: w)
    have "Chunk_new (c_base e + sz) (c_size e - sz) = Some ?rump"
      using wr by (auto simp: Chunk_new_Some wf_chunk_def)
    then have "split_existing sz e s = Some (?alloc, s1)"
      using guard new s1 True
      by (auto simp: split_existing_def panic_simps Let_def word_nat w)
    moreover have "tiles e ?alloc {?rump}"
      by (rule tiles_two [OF e new(1) wr]) (use sz(2) in \<open>simp_all add: w\<close>)
    ultimately show ?thesis
      unfolding split_result_def using s1 by (intro exI [of _ ?alloc] exI [of _ s1] exI [of _ "{?rump}"]) auto
  next
    case False
    have "split_existing sz e s = Some (e, s)"
      using guard new False by (auto simp: split_existing_def panic_simps Let_def word_nat w)
    then show ?thesis
      unfolding split_result_def using s sz(2) tiles_self [OF e] False
      by (intro exI [of _ e] exI [of _ s] exI [of _ "{}"]) auto
  qed
qed

lemma split_existing_ok:
  assumes e: "wf_chunk e" and sz: "request_ok sz" "unat sz \<le> cs e" and s: "sb_inv s" "away_from e s"
  shows "split_result sz e s"
proof (cases "c_size e = sz")
  case True
  with s tiles_self [OF e] show ?thesis
    unfolding split_result_def
    by (intro exI [of _ e] exI [of _ s] exI [of _ "{}"]) (auto simp: split_existing_def)
next
  case False
  with sz have "unat sz < cs e" by (simp add: u32_eq_iff)
  with e sz s show ?thesis using split_page split_rump by blast
qed

section \<open>Allocation from the free list\<close>

text \<open>\<open>c\<close> was cut out of the free chunk \<open>e\<close>; the rest of \<open>e\<close> went back as \<open>P\<close>.\<close>

definition taken :: "u32 \<Rightarrow> sb_map \<Rightarrow> chunk \<Rightarrow> chunk \<Rightarrow> chunk set \<Rightarrow> sb_map \<Rightarrow> bool" where
  "taken sz s e c P s' \<longleftrightarrow> e \<in> sb_set s \<and> unat sz \<le> cs c \<and> (16 dvd unat sz \<longrightarrow> cs c < unat sz + 16) \<and>
     tiles e c P \<and> sb_inv s' \<and> sb_set s' = P \<union> (sb_set s - {e}) \<and>
     (\<forall>d \<in> sb_set s. bucket_for (c_size d) = bucket_for (c_size e) \<and> unat sz \<le> cs d \<longrightarrow> cs e \<le> cs d)"

lemma allocate_in_bucket_cases:
  assumes s: "sb_inv s" "chunks_ok (sb_set s)" and sz: "request_ok sz" and b: "b < N_BUCKETS"
  obtains (none) "allocate_in_bucket sz b s = Some (None, s)"
      "\<And>c. c \<in> sb_set s \<Longrightarrow> bucket_for (c_size c) = b \<Longrightarrow> cs c < unat sz"
  | (some) e c P s' where "allocate_in_bucket sz b s = Some (Some c, s')" "taken sz s e c P s'"
      "bucket_for (c_size e) = b"
proof -
  let ?bucket = "sb_buckets s ! b"
  let ?es = "rev (enumerate 0 ?bucket)"
  have at: "bucket_at s b = Some ?bucket" using s b by (simp add: bucket_at_def sb_inv_def)
  have mem: "c \<in> set ?bucket \<longleftrightarrow> c \<in> sb_set s \<and> bucket_for (c_size c) = b" for c
    using in_bucket [OF s(1)] bucket_in_set [OF s(1) b] by blast
  show ?thesis
  proof (cases "best_fit sz ?es None")
    case None
    have "c \<notin> set ?bucket \<or> \<not> sz \<le> c_size c" for c
      using best_fit_None [OF None] fits_enumerate [of sz ?bucket] by blast
    then show ?thesis
      using None at mem by (intro none) (force simp: allocate_in_bucket_def word_le_nat_alt)+
  next
    case (Some r)
    obtain idx w where r: "r = (idx, w)" by fastforce
    from best_fit_found [OF Some [unfolded r]] obtain e where
      e: "(idx, e) \<in> set ?es" "c_size e = w" "sz \<le> w" and best: "\<forall>c \<in> fits sz ?es. w \<le> c_size c" by blast
    from e(1) have idx: "idx < length ?bucket" "?bucket ! idx = e" by (simp_all add: enumerate_index)
    from swap_remove_index [OF idx(1)] idx obtain rest where rest: "swap_remove idx ?bucket = Some (e, rest)"
      by auto
    from idx have em: "e \<in> sb_set s" and eb: "bucket_for (c_size e) = b" using mem nth_mem by blast+
    from s(1) have m: "bt_inv (sb_chunks s)" by (simp add: sb_inv_def)
    from cm_remove_with_base_Some [OF m] em obtain m' where
      m': "cm_remove_with_base (c_base e) (sb_chunks s) = (Some e, m')" "bt_inv m'"
        "cm_set m' = sb_set s - {e}" "mset (cm_iter (sb_chunks s)) = add_mset e (mset (cm_iter m'))"
      unfolding sb_set_def by blast
    let ?s1 = "set_bucket b rest (s\<lparr>sb_chunks := m'\<rparr>)"
    note s1 = set_bucket_removed [OF s(1) b mset_swap_remove [OF rest] m'(2-4)]
    have we: "wf_chunk e" using s(2) em by (rule chunks_ok_wf)
    have away: "away_from e ?s1"
      using s(2) em s1(2) by (auto simp: away_from_def chunks_ok_def)
    from split_existing_ok [OF we sz _ s1(1) away] e(2,3) obtain c s' P where
      split: "split_existing sz e ?s1 = Some (c, s')" "sb_inv s'" "sb_set s' = P \<union> (sb_set s - {e})"
        "tiles e c P" "unat sz \<le> cs c" "16 dvd unat sz \<longrightarrow> cs c < unat sz + 16"
      unfolding split_result_def s1(2) by (auto simp: word_le_nat_alt)
    have "cs e \<le> cs d" if "d \<in> sb_set s" "bucket_for (c_size d) = b" "unat sz \<le> cs d" for d
      using best that e(2) mem [of d] fits_enumerate [of sz ?bucket] by (auto simp: word_le_nat_alt)
    with split em eb have "taken sz s e c P s'" by (auto simp: taken_def)
    moreover have "allocate_in_bucket sz b s = Some (Some c, s')"
      using at Some r rest m'(1) split(1) by (simp add: allocate_in_bucket_def panic_simps)
    ultimately show ?thesis using eb some by blast
  qed
qed

lemma next_nonempty_None: "next_nonempty b bs = None \<Longrightarrow> b \<le> i \<Longrightarrow> i < length bs \<Longrightarrow> bs ! i = []"
  by (auto simp: next_nonempty_def find_None_iff)

lemma next_nonempty_Some:
  assumes "next_nonempty b bs = Some i" shows "b \<le> i" "i < length bs" "bs ! i \<noteq> []"
proof -
  from assms have "i \<in> set [b..<length bs]" "bs ! i \<noteq> []"
    unfolding next_nonempty_def find_Some_iff by (metis nth_mem)+
  then show "b \<le> i" "i < length bs" "bs ! i \<noteq> []" by auto
qed

lemma sb_allocate_cases:
  assumes s: "sb_inv s" "chunks_ok (sb_set s)" and sz: "request_ok sz"
  obtains (none) "sb_allocate sz s = Some (None, s)" "\<And>c. c \<in> sb_set s \<Longrightarrow> cs c < unat sz"
  | (some) e c P s' where "sb_allocate sz s = Some (Some c, s')" "taken sz s e c P s'"
proof -
  let ?b = "bucket_for sz"
  have n: "16 \<le> unat sz" using sz by (simp add: request_ok_def)
  have b: "?b < N_BUCKETS" using n by (rule bucket_for_less)
  have len: "length (sb_buckets s) = N_BUCKETS" using s by (simp add: sb_inv_def)
  have ex: "expect (MIN_CHUNK_SIZE \<le> sz) = Some ()" "expect (Suc ?b \<le> length (sb_buckets s)) = Some ()"
    using n b len by (simp_all add: word_nat)
  show ?thesis
  proof (rule allocate_in_bucket_cases [OF s sz b])
    fix e c P s' assume "allocate_in_bucket sz ?b s = Some (Some c, s')" "taken sz s e c P s'"
    with some ex show ?thesis by (simp add: sb_allocate_def)
  next
    assume first: "allocate_in_bucket sz ?b s = Some (None, s)"
      and small: "\<And>c. c \<in> sb_set s \<Longrightarrow> bucket_for (c_size c) = ?b \<Longrightarrow> cs c < unat sz"
    show ?thesis
    proof (cases "next_nonempty (Suc ?b) (sb_buckets s)")
      case None
      have "cs c < unat sz" if c: "c \<in> sb_set s" for c
      proof (rule ccontr)
        assume "\<not> cs c < unat sz"
        then have ge: "?b \<le> bucket_for (c_size c)" using n by (intro bucket_for_mono) auto
        have "bucket_for (c_size c) < N_BUCKETS" using c s by (intro bucket_for_less) (auto simp: sb_inv_def)
        then have "\<not> Suc ?b \<le> bucket_for (c_size c)"
          using in_bucket [OF s(1) c] next_nonempty_None [OF None] len by force
        with ge have "bucket_for (c_size c) = ?b" by simp
        with small [OF c] \<open>\<not> cs c < unat sz\<close> show False by simp
      qed
      then show ?thesis using first None ex by (intro none) (auto simp: sb_allocate_def)
    next
      case (Some b2)
      note b2 = next_nonempty_Some [OF Some]
      then obtain d where d: "d \<in> set (sb_buckets s ! b2)" by (cases "sb_buckets s ! b2") auto
      from bucket_in_set [OF s(1) _ d] b2 len have dm: "d \<in> sb_set s" "bucket_for (c_size d) = b2" "16 \<le> cs d"
        by auto
      have big: "\<not> cs d < unat sz" using bucket_for_less_imp [OF n dm(3)] dm(2) b2(1) by simp
      show ?thesis
      proof (rule allocate_in_bucket_cases [OF s sz, of b2])
        assume "\<And>c. c \<in> sb_set s \<Longrightarrow> bucket_for (c_size c) = b2 \<Longrightarrow> cs c < unat sz"
        with dm big show ?thesis by blast
      next
        fix e c P s' assume "allocate_in_bucket sz b2 s = Some (Some c, s')" "taken sz s e c P s'"
        with some ex first Some show ?thesis by (simp add: sb_allocate_def)
      qed (use b2 len in simp)
    qed
  qed
qed

section \<open>The allocator invariant\<close>

definition used_set :: "allocator \<Rightarrow> chunk set" where
  "used_set a = cm_set (used_chunks a)"

definition free_set :: "allocator \<Rightarrow> chunk set" where
  "free_set a = sb_set (unused_chunks a)"

text \<open>
  Every byte of the address space belongs to at most one chunk, used or free; the two
  collections of the free list agree; chunks of a page or more start on a page.
\<close>

definition alloc_inv :: "allocator \<Rightarrow> bool" where
  "alloc_inv a \<longleftrightarrow> bt_inv (used_chunks a) \<and> sb_inv (unused_chunks a) \<and>
     used_set a \<inter> free_set a = {} \<and> chunks_ok (used_set a \<union> free_set a)"

lemmas alloc_sets = used_set_def free_set_def

lemma alloc_invD:
  assumes "alloc_inv a"
  shows "bt_inv (used_chunks a)" "sb_inv (unused_chunks a)" "used_set a \<inter> free_set a = {}"
    "chunks_ok (used_set a \<union> free_set a)" "chunks_ok (used_set a)" "chunks_ok (free_set a)"
    "chunks_ok (sb_set (unused_chunks a))"
  using assms by (auto simp: alloc_inv_def free_set_def intro: chunks_ok_subset)

text \<open>A chunk disjoint from every used chunk can be recorded as used.\<close>

lemma used_insert:
  assumes "bt_inv m" and "chunks_ok (insert c (cm_set m))" and "c \<notin> cm_set m"
  shows "\<exists>m'. cm_insert c m = Some m' \<and> bt_inv m' \<and> cm_set m' = insert c (cm_set m)"
proof -
  have "c_base d \<noteq> c_base c" if "d \<in> cm_set m" for d
    using chunks_ok_base [OF assms(2), of d c] that assms(3) by blast
  from cm_insert_ok [OF assms(1) this] show ?thesis by blast
qed

lemma align_size_ok:
  assumes "align_size x al = Some r" and "0 < unat al"
  shows "unat x \<le> unat r" "unat r < unat x + unat al" "unat al dvd unat r"
proof -
  have "unat x \<le> unat r \<and> unat r < unat x + unat al \<and> unat al dvd unat r"
  proof (cases "unat x mod unat al = 0")
    case True
    then have "x mod al = 0" by (simp add: u32_eq_iff unat_mod)
    with assms True show ?thesis by (auto simp: align_size_def)
  next
    case False
    let ?d = "unat al - unat x mod unat al"
    have lt: "unat x mod unat al < unat al" using assms(2) by simp
    have "unat (al - x mod al) = ?d" using lt by (simp add: unat_minus_u32 unat_mod)
    moreover have "x mod al \<noteq> 0" using False by (simp add: u32_eq_iff unat_mod)
    ultimately have r: "unat r = unat x + ?d"
      using assms(1) by (auto simp: align_size_def checked_add_u32_def unat_plus_u32 split: if_splits)
    have "unat x + ?d = unat al * (unat x div unat al) + unat al"
      using lt mult_div_mod_eq [of "unat al" "unat x"] by linarith
    also have "\<dots> = unat al * (unat x div unat al + 1)" by simp
    finally have "unat al dvd unat r" unfolding r by (metis dvd_triv_left)
    moreover have "?d < unat al" using False lt by linarith
    ultimately show ?thesis
      unfolding r by (intro conjI) (simp_all only: le_add1 nat_add_left_cancel_less)
  qed
  then show "unat x \<le> unat r" "unat r < unat x + unat al" "unat al dvd unat r" by blast+
qed

lemma unat_max_u32: "unat (max x y :: u32) = max (unat x) (unat y)"
  by (simp add: max_def word_le_nat_alt)

lemma aligned_request_ok:
  assumes "aligned_request sz = Some n"
  shows "request_ok n" "unat sz \<le> unat n" "16 dvd unat n"
    "unat n < max (unat sz) 16 + 4096"
proof -
  have "request_ok n \<and> unat sz \<le> unat n \<and> 16 dvd unat n \<and> unat n < max (unat sz) 16 + 4096"
  proof (cases "unat sz < 4096")
    case True
    let ?m = "max sz MIN_CHUNK_SIZE"
    have m: "unat ?m = max (unat sz) 16" by (simp add: unat_max_u32 word_nat)
    from True assms have "align_size ?m MIN_CHUNK_SIZE = Some n"
      by (simp add: aligned_request_def word_nat)
    from align_size_ok [OF this] have *: "unat ?m \<le> unat n" "unat n < unat ?m + 16" "16 dvd unat n"
      by (simp_all add: word_nat)
    have "unat n \<le> 4096"
    proof -
      from *(3) obtain k where "unat n = 16 * k" by blast
      with *(2) m True show ?thesis by simp
    qed
    with * m show ?thesis by (auto simp: request_ok_def)
  next
    case False
    with assms have "align_size sz PAGE_SIZE = Some n"
      by (simp add: aligned_request_def word_nat)
    from align_size_ok [OF this] have *: "unat sz \<le> unat n" "unat n < unat sz + 4096" "4096 dvd unat n"
      by (simp_all add: word_nat)
    have "(16::nat) dvd 4096" by simp
    then have "16 dvd unat n" using *(3) by (rule dvd_trans)
    with * False show ?thesis by (auto simp: request_ok_def)
  qed
  then show "request_ok n" "unat sz \<le> unat n" "16 dvd unat n" "unat n < max (unat sz) 16 + 4096"
    by blast+
qed

lemma align_size_None:
  assumes "align_size x al = None" and "0 < unat al"
  shows "4294967296 \<le> unat x + unat al"
proof -
  have "unat x mod unat al \<le> unat al" using assms(2) by simp
  then have "unat (al - x mod al) \<le> unat al" by (simp add: unat_minus_u32 unat_mod)
  moreover have "4294967296 \<le> unat x + unat (al - x mod al)"
    using assms by (auto simp: align_size_def checked_add_u32_def split: if_splits)
  ultimately show ?thesis by linarith
qed

lemma aligned_request_None:
  assumes "aligned_request sz = None"
  shows "4294967296 \<le> unat sz + 4096"
proof (cases "unat sz < 4096")
  case True
  with assms have "align_size (max sz MIN_CHUNK_SIZE) MIN_CHUNK_SIZE = None"
    by (simp add: aligned_request_def word_nat)
  from align_size_None [OF this] True show ?thesis by (simp add: word_nat unat_max_u32)
next
  case False
  with assms have "align_size sz PAGE_SIZE = None" by (simp add: aligned_request_def word_nat)
  from align_size_None [OF this] show ?thesis by (simp add: word_nat)
qed

lemma alloc_inv_new:
  "\<exists>a. Allocator_new = Some a \<and> alloc_inv a \<and>
     used_set a = {\<lparr>c_base = MAIN_THREAD_STACK_LOW_END, c_size = MAIN_THREAD_STACK_SIZE\<rparr>} \<and>
     free_set a = {\<lparr>c_base = 0, c_size = MAIN_THREAD_STACK_LOW_END\<rparr>}"
proof -
  let ?stack = "\<lparr>c_base = MAIN_THREAD_STACK_LOW_END, c_size = MAIN_THREAD_STACK_SIZE\<rparr>"
  let ?rest = "\<lparr>c_base = 0, c_size = MAIN_THREAD_STACK_LOW_END\<rparr>"
  have u: "unat MAIN_THREAD_STACK_LOW_END = 4293918720" "unat MAIN_THREAD_STACK_SIZE = 1048576"
    by (simp_all add: MAIN_THREAD_STACK_LOW_END_def MAIN_THREAD_STACK_SIZE_def)
  have new: "Chunk_new MAIN_THREAD_STACK_LOW_END MAIN_THREAD_STACK_SIZE = Some ?stack"
    "Chunk_new 0 MAIN_THREAD_STACK_LOW_END = Some ?rest"
    by (simp_all add: Chunk_new_Some u)
  from cm_insert_ok [of "[]" ?stack] obtain m where m: "cm_insert ?stack [] = Some m" "bt_inv m" "cm_set m = {?stack}"
    by (auto simp: cm_set_def cm_iter_def)
  from sb_insert_ok [OF sb_empty_inv, of ?rest] obtain s where
    s: "sb_insert ?rest sb_empty = Some s" "sb_inv s" "sb_set s = {?rest}"
    by (auto simp: u sb_empty_set)
  let ?a = "\<lparr>used_chunks = m, unused_chunks = s\<rparr>"
  have "alloc_inv ?a"
    using m s by (auto simp: alloc_inv_def alloc_sets chunks_ok_def wf_chunk_def extent_def u u32_eq_iff)
  moreover have "Allocator_new = Some ?a" using new m s by (simp add: Allocator_new_def)
  moreover have "used_set ?a = {?stack}" "free_set ?a = {?rest}" using m s by (simp_all add: alloc_sets)
  ultimately show ?thesis by blast
qed

section \<open>alloc\<close>

lemma tiles_unused:
  assumes "alloc_inv a" and "e \<in> free_set a" and "tiles e c P"
  shows "chunks_ok (insert c (used_set a))" "c \<notin> used_set a"
    "chunks_ok (insert c (used_set a) \<union> (P \<union> (free_set a - {e})))"
    "insert c (used_set a) \<inter> (P \<union> (free_set a - {e})) = {}"
proof -
  let ?S = "used_set a \<union> free_set a - {e}"
  note inv = alloc_invD [OF assms(1)]
  have ins: "insert e ?S = used_set a \<union> free_set a" using assms(2) by blast
  have P: "chunks_ok (insert c P)" "c \<notin> P" "\<And>d. d \<in> insert c P \<Longrightarrow> extent d \<subseteq> extent e"
    using assms(3) by (auto simp: tiles_def)
  note rep = chunks_ok_replace [of e ?S, unfolded ins, OF inv(4) _ P(1) P(3)]
  have e: "e \<notin> used_set a" using inv(3) assms(2) by blast
  show all: "chunks_ok (insert c (used_set a) \<union> (P \<union> (free_set a - {e})))"
    using rep(1) e by (auto elim!: chunks_ok_subset)
  show "chunks_ok (insert c (used_set a))" using all by (rule chunks_ok_subset) auto
  show "c \<notin> used_set a" using rep(2) e by auto
  show "insert c (used_set a) \<inter> (P \<union> (free_set a - {e})) = {}"
    using rep(2) inv(3) P(2) e by auto
qed

lemma alloc_alloc_cases:
  assumes inv: "alloc_inv a"
  obtains (huge) "aligned_request sz = None" "alloc_alloc sz a = Some (0, a)"
  | (full) n where "aligned_request sz = Some n" "alloc_alloc sz a = Some (0, a)"
      "\<And>c. c \<in> free_set a \<Longrightarrow> cs c < unat n"
  | (ok) n e c P a' where "aligned_request sz = Some n" "alloc_alloc sz a = Some (c_base c, a')"
      "taken n (unused_chunks a) e c P (unused_chunks a')" "alloc_inv a'"
      "used_set a' = insert c (used_set a)" "c \<notin> used_set a" "free_set a' = P \<union> (free_set a - {e})"
proof (cases "aligned_request sz")
  case None
  then show ?thesis using huge by (simp add: alloc_alloc_def)
next
  case (Some n)
  note D = alloc_invD [OF inv]
  note n = aligned_request_ok [OF Some]
  show ?thesis
  proof (rule sb_allocate_cases [OF D(2,7) n(1)])
    assume "sb_allocate n (unused_chunks a) = Some (None, unused_chunks a)"
      and "\<And>c. c \<in> sb_set (unused_chunks a) \<Longrightarrow> cs c < unat n"
    with Some full show ?thesis by (simp add: alloc_alloc_def free_set_def)
  next
    fix e c P s' assume al: "sb_allocate n (unused_chunks a) = Some (Some c, s')"
      and t: "taken n (unused_chunks a) e c P s'"
    from t have e: "e \<in> free_set a" "tiles e c P" by (auto simp: taken_def free_set_def)
    note T = tiles_unused [OF inv e]
    from used_insert [OF D(1)] T(1,2) obtain m' where
      m': "cm_insert c (used_chunks a) = Some m'" "bt_inv m'" "cm_set m' = insert c (used_set a)"
      by (auto simp: used_set_def)
    let ?a' = "\<lparr>used_chunks = m', unused_chunks = s'\<rparr>"
    have sets: "used_set ?a' = insert c (used_set a)" "free_set ?a' = P \<union> (free_set a - {e})"
      using m' t by (auto simp: alloc_sets taken_def)
    have "alloc_inv ?a'" unfolding alloc_inv_def sets
      using m' t T(3,4) by (auto simp: taken_def)
    moreover have "alloc_alloc sz a = Some (c_base c, ?a')"
      using Some al m' by (simp add: alloc_alloc_def)
    ultimately show ?thesis using ok Some t T(2) sets by simp
  qed
qed

section \<open>free\<close>

definition bytes_of :: "chunk set \<Rightarrow> nat set" where
  "bytes_of S = (\<Union>c \<in> S. extent c)"

lemma bytes_of_simps [simp]:
  "bytes_of {} = {}" "bytes_of (insert c S) = extent c \<union> bytes_of S"
  "bytes_of (S \<union> T) = bytes_of S \<union> bytes_of T"
  by (auto simp: bytes_of_def)

lemma bytes_of_remove:
  "chunks_ok S \<Longrightarrow> X \<subseteq> S \<Longrightarrow> bytes_of (S - X) = bytes_of S - bytes_of X"
  unfolding bytes_of_def using chunks_ok_disjoint [of S] by blast

text \<open>Chunks \<open>P\<close> on the addresses of some chunks \<open>X\<close> can take their place.\<close>

lemma chunks_ok_exchange:
  assumes S: "chunks_ok S" and X: "X \<subseteq> S" and P: "chunks_ok P" and sub: "bytes_of P \<subseteq> bytes_of X"
  shows "chunks_ok (P \<union> (S - X))" and "P \<inter> (S - X) = {}"
proof -
  have dis: "extent d \<inter> extent c = {}" if "d \<in> P" "c \<in> S - X" for c d
  proof -
    have "extent d \<subseteq> bytes_of X" using sub that(1) by (auto simp: bytes_of_def)
    moreover have "extent c \<inter> bytes_of X = {}"
      using chunks_ok_disjoint [OF S] X that(2) by (auto simp: bytes_of_def)
    ultimately show ?thesis by blast
  qed
  have S': "chunks_ok (S - X)" using S by (rule chunks_ok_subset) auto
  show "chunks_ok (P \<union> (S - X))"
    unfolding chunks_ok_def
  proof (intro conjI ballI impI)
    fix c d assume "c \<in> P \<union> (S - X)" "d \<in> P \<union> (S - X)" "c \<noteq> d"
    then show "extent c \<inter> extent d = {}"
      using chunks_ok_disjoint [OF S'] chunks_ok_disjoint [OF P] dis [of c d] dis [of d c] by blast
  qed (use S' P chunks_ok_wf in blast)
  show "P \<inter> (S - X) = {}"
    using dis extent_nonempty chunks_ok_wf [OF P] by blast
qed

text \<open>The address 0 belongs to a used chunk: the null segment of the loaded program.\<close>

definition null_reserved :: "allocator \<Rightarrow> bool" where
  "null_reserved a \<longleftrightarrow> (\<exists>c \<in> used_set a. c_base c = 0)"

lemma null_reserved_free:
  "alloc_inv a \<Longrightarrow> null_reserved a \<Longrightarrow> c \<in> free_set a \<Longrightarrow> 0 < cb c"
  using alloc_invD(3,4) [of a] chunks_ok_base [of "used_set a \<union> free_set a" c]
  by (force simp: null_reserved_def intro: unat_gt_0_u32)

lemma insert_if_large_ok:
  assumes s: "sb_inv s" and ok: "chunks_ok (insert c (sb_set s))" and new: "c \<notin> sb_set s"
  shows "\<exists>s'. insert_if_large (Some c) s = Some s' \<and> sb_inv s' \<and>
           sb_set s' = (if 16 \<le> cs c then insert c (sb_set s) else sb_set s)"
proof (cases "16 \<le> cs c")
  case True
  have "c_base d \<noteq> c_base c" if "d \<in> sb_set s" for d
    using chunks_ok_base [OF ok, of d c] that new by blast
  from sb_insert_ok [OF s True this] True show ?thesis by (simp add: insert_if_large_def word_nat)
next
  case False
  with s show ?thesis by (simp add: insert_if_large_def word_nat)
qed

lemma unat_succ_last:
  assumes "wf_chunk c" shows "unat (last_byte c + 1) = (cb c + cs c) mod 4294967296"
proof -
  have "unat (last_byte c + 1) = (unat (last_byte c) + 1) mod 4294967296"
    by (simp add: unat_word_ariths)
  with assms show ?thesis by (simp add: unat_last_byte wf_chunk_def)
qed

lemma remove_adjacent_cases:
  assumes s: "sb_inv s" "chunks_ok (sb_set s)" and F: "wf_chunk F"
    and no0: "\<And>c. c \<in> sb_set s \<Longrightarrow> 0 < cb c"
  obtains (none) "remove_adjacent F s = Some (None, s)"
  | (some) A s' where "remove_adjacent F s = Some (Some A, s')" "A \<in> sb_set s"
      "sb_inv s'" "sb_set s' = sb_set s - {A}"
      "cb A = cb F + cs F \<or> cb F = cb A + cs A"
proof (rule sb_remove_with_base_cases [OF s(1), of "last_byte F + 1"])
  fix A s' assume A: "A \<in> sb_set s" "c_base A = last_byte F + 1"
    and rm: "sb_remove_with_base (last_byte F + 1) s = Some (Some A, s')" "sb_inv s'" "sb_set s' = sb_set s - {A}"
  have "cb A = (cb F + cs F) mod 4294967296" using A(2) unat_succ_last [OF F] by simp
  with no0 [OF A(1)] F have "cb A = cb F + cs F"
    by (cases "cb F + cs F = 4294967296") (auto simp: wf_chunk_def)
  with A rm show ?thesis by (intro some [of A s']) (simp_all add: remove_adjacent_def)
next
  assume first: "sb_remove_with_base (last_byte F + 1) s = Some (None, s)"
  show ?thesis
  proof (rule sb_remove_with_end_cases [OF s(1), of "c_base F"])
    assume "sb_remove_with_end (c_base F) s = Some (None, s)"
    with first show ?thesis by (intro none) (simp add: remove_adjacent_def)
  next
    fix A s' assume A: "A \<in> sb_set s" "last_byte A + 1 = c_base F" "c_base A < c_base F"
      and rm: "sb_remove_with_end (c_base F) s = Some (Some A, s')" "sb_inv s'" "sb_set s' = sb_set s - {A}"
    have wA: "wf_chunk A" using s(2) A(1) by (rule chunks_ok_wf)
    have "cb F = (cb A + cs A) mod 4294967296" using A(2) unat_succ_last [OF wA] by simp
    moreover have "0 < cb F" using A(3) by (simp add: word_less_nat_alt)
    ultimately have "cb F = cb A + cs A"
      using wA by (cases "cb A + cs A = 4294967296") (auto simp: wf_chunk_def)
    with A rm first show ?thesis by (intro some [of A s']) (simp_all add: remove_adjacent_def)
  qed
qed

text \<open>What \<open>free\<close> does to the free list with the chunk it found next to the freed one.\<close>

definition give_back :: "chunk \<Rightarrow> chunk \<Rightarrow> sb_map \<Rightarrow> sb_map option" where
  "give_back F A u0 =
     (let new_base = min (c_base F) (c_base A); new_size = c_size F + c_size A in
      if new_size \<ge> PAGE_SIZE \<and> \<not> page_aligned new_base then do {
        u \<leftarrow> insert_if_large (Some A) u0;
        insert_if_large (Some F) u
      } else do {
        combined \<leftarrow> Chunk_new new_base new_size;
        insert_if_large (Some combined) u0
      })"

lemma give_back_ok:
  assumes u: "sb_inv u" "chunks_ok (insert F (insert A (sb_set u)))" "F \<notin> sb_set u" "A \<notin> sb_set u" "F \<noteq> A"
    and A16: "16 \<le> cs A" and pos: "0 < cb F" "0 < cb A"
    and adj: "cb A = cb F + cs F \<or> cb F = cb A + cs A"
  shows "\<exists>u' P. give_back F A u = Some u' \<and> sb_inv u' \<and> sb_set u' = P \<union> sb_set u \<and> chunks_ok P \<and>
     bytes_of P \<subseteq> extent F \<union> extent A \<and> (16 \<le> cs F \<longrightarrow> bytes_of P = extent F \<union> extent A)"
proof -
  let ?nb = "min (c_base F) (c_base A)" let ?ns = "c_size F + c_size A"
  let ?C = "\<lparr>c_base = ?nb, c_size = ?ns\<rparr>"
  have w: "wf_chunk F" "wf_chunk A" using u(2) by (auto simp: chunks_ok_def)
  have nb: "unat ?nb = min (cb F) (cb A)" by (simp add: min_def word_le_nat_alt)
  have ns: "unat ?ns = cs F + cs A"
    using w pos adj by (intro unat_plus_u32) (auto simp: wf_chunk_def)
  show ?thesis
  proof (cases "?ns \<ge> PAGE_SIZE \<and> \<not> page_aligned ?nb")
    case True
    have okA: "chunks_ok (insert A (sb_set u))" using u(2) by (rule chunks_ok_subset) auto
    from insert_if_large_ok [OF u(1) okA u(4)] A16 obtain u1 where
      u1: "insert_if_large (Some A) u = Some u1" "sb_inv u1" "sb_set u1 = insert A (sb_set u)"
      by auto
    from insert_if_large_ok [OF u1(2), of F] u(2,3,5) u1(3) obtain u2 where
      u2: "insert_if_large (Some F) u1 = Some u2" "sb_inv u2"
        "sb_set u2 = (if 16 \<le> cs F then insert F (insert A (sb_set u)) else insert A (sb_set u))"
      by auto
    let ?P = "if 16 \<le> cs F then {F, A} else {A}"
    have "chunks_ok ?P" using u(2) by (rule chunks_ok_subset) auto
    with True u1 u2 show ?thesis
      by (intro exI [of _ u2] exI [of _ ?P]) (auto simp: give_back_def Let_def)
  next
    case False
    have al: "4096 \<le> cs F + cs A \<longrightarrow> min (cb F) (cb A) mod 4096 = 0"
      using False by (auto simp: le_consts page_aligned_iff nb ns)
    have wC: "wf_chunk ?C"
      unfolding wf_chunk_def chunk.simps nb ns using w pos adj al by (auto simp: wf_chunk_def)
    have ext: "extent ?C = extent F \<union> extent A" using adj by (auto simp: extent_def nb ns)
    have new: "Chunk_new ?nb ?ns = Some ?C" using wC by (auto simp: Chunk_new_Some wf_chunk_def)
    have P: "chunks_ok {?C}" using wC by (simp add: chunks_ok_def)
    have S: "insert F (insert A (sb_set u)) - {F, A} = sb_set u" using u(3,4) by auto
    note ex = chunks_ok_exchange [OF u(2) _ P, of "{F, A}", unfolded S]
    from insert_if_large_ok [OF u(1), of ?C] ex ext A16 obtain u1 where
      u1: "insert_if_large (Some ?C) u = Some u1" "sb_inv u1" "sb_set u1 = insert ?C (sb_set u)"
      by (auto simp: ns)
    with new False ext P show ?thesis
      by (intro exI [of _ u1] exI [of _ "{?C}"]) (auto simp: give_back_def Let_def)
  qed
qed

lemma alloc_free_unknown:
  "alloc_inv a \<Longrightarrow> \<not> is_known_allocation a b \<Longrightarrow> alloc_free b a = Some (0, a)"
  by (simp add: alloc_free_def cm_remove_with_base_def is_known_allocation_def cm_get_size_with_base_def)

lemma known_chunk:
  assumes "alloc_inv a"
  shows "is_known_allocation a b \<longleftrightarrow> (\<exists>c \<in> used_set a. c_base c = b)"
proof
  note inv = alloc_invD(1) [OF assms]
  show "\<exists>c \<in> used_set a. c_base c = b" if "is_known_allocation a b"
  proof -
    from that obtain s where "bt_get (used_chunks a) b = Some s"
      by (auto simp: is_known_allocation_def cm_get_size_with_base_def)
    then have "\<lparr>c_base = b, c_size = s\<rparr> \<in> used_set a"
      using inv by (simp add: used_set_def bt_get_cm_set)
    then show ?thesis by force
  qed
  show "is_known_allocation a b" if "\<exists>c \<in> used_set a. c_base c = b"
    using that inv
    by (auto simp: is_known_allocation_def cm_get_size_with_base_def used_set_def cm_set_iff)
qed

lemma known_chunk_size: "alloc_inv a \<Longrightarrow> c \<in> used_set a \<Longrightarrow> find_allocated_size a (c_base c) = c_size c"
  using alloc_invD(1) [of a]
  by (simp add: find_allocated_size_def cm_get_size_with_base_def used_set_def cm_set_iff)

text \<open>What \<open>free\<close> does to the free list as a whole.\<close>

definition give_back_opt :: "chunk \<Rightarrow> chunk option \<Rightarrow> sb_map \<Rightarrow> sb_map option" where
  "give_back_opt F adj u0 =
     (case adj of Some A \<Rightarrow> give_back F A u0 | None \<Rightarrow> insert_if_large (Some F) u0)"

lemma free_list_ok:
  assumes s: "sb_inv s" "chunks_ok (insert F (sb_set s))" "F \<notin> sb_set s"
    and pos: "0 < cb F" "\<And>c. c \<in> sb_set s \<Longrightarrow> 0 < cb c"
  shows "\<exists>adj u0 u1 P X. remove_adjacent F s = Some (adj, u0) \<and> give_back_opt F adj u0 = Some u1 \<and>
     X \<subseteq> sb_set s \<and> sb_inv u1 \<and> sb_set u1 = P \<union> (sb_set s - X) \<and> chunks_ok P \<and>
     bytes_of P \<subseteq> extent F \<union> bytes_of X \<and> (16 \<le> cs F \<longrightarrow> bytes_of P = extent F \<union> bytes_of X)"
proof -
  have s': "chunks_ok (sb_set s)" using s(2) by (rule chunks_ok_subset) auto
  have wF: "wf_chunk F" using s(2) by (auto simp: chunks_ok_def)
  show ?thesis
  proof (rule remove_adjacent_cases [OF s(1) s' wF pos(2)])
    assume none: "remove_adjacent F s = Some (None, s)"
    from insert_if_large_ok [OF s] obtain u1 where
      u1: "insert_if_large (Some F) s = Some u1" "sb_inv u1"
        "sb_set u1 = (if 16 \<le> cs F then insert F (sb_set s) else sb_set s)" by blast
    let ?P = "if 16 \<le> cs F then {F} else {}"
    show ?thesis
    proof (intro exI conjI)
      show "remove_adjacent F s = Some (None, s)" by (rule none)
      show "give_back_opt F None s = Some u1" using u1 by (simp add: give_back_opt_def)
      show "sb_set u1 = ?P \<union> (sb_set s - {})" using u1(3) by simp
      show "chunks_ok ?P" using wF by (simp add: chunks_ok_def)
    qed (use u1 in auto)
  next
    fix A s' assume A: "remove_adjacent F s = Some (Some A, s')" "A \<in> sb_set s"
      "sb_inv s'" "sb_set s' = sb_set s - {A}" "cb A = cb F + cs F \<or> cb F = cb A + cs A"
    have ok: "chunks_ok (insert F (insert A (sb_set s')))"
      using s(2) by (rule chunks_ok_subset) (use A(2,4) in auto)
    have A16: "16 \<le> cs A" using s(1) A(2) by (auto simp: sb_inv_def)
    have neq: "F \<noteq> A" "F \<notin> sb_set s'" "A \<notin> sb_set s'" using s(3) A(2,4) by auto
    from give_back_ok [OF A(3) ok neq(2,3,1) A16 pos(1) pos(2) [OF A(2)] A(5)] obtain u1 P where
      u1: "give_back F A s' = Some u1" "sb_inv u1" "sb_set u1 = P \<union> (sb_set s - {A})" "chunks_ok P"
        "bytes_of P \<subseteq> extent F \<union> extent A" "16 \<le> cs F \<longrightarrow> bytes_of P = extent F \<union> extent A"
      unfolding A(4) by blast
    show ?thesis
    proof (intro exI conjI)
      show "remove_adjacent F s = Some (Some A, s')" by (rule A(1))
      show "give_back_opt F (Some A) s' = Some u1" using u1 by (simp add: give_back_opt_def)
      show "sb_set u1 = P \<union> (sb_set s - {A})" by (rule u1(3))
    qed (use u1 A(2) in simp_all)
  qed
qed

lemma alloc_free_eq:
  assumes "cm_remove_with_base b (used_chunks a) = (Some F, m)"
    and "remove_adjacent F (unused_chunks a) = Some (adj, u0)" and "give_back_opt F adj u0 = Some u1"
  shows "alloc_free b a = Some (c_size F, \<lparr>used_chunks = m, unused_chunks = u1\<rparr>)"
  using assms
  by (cases adj) (simp_all add: alloc_free_def give_back_opt_def give_back_def Let_def)

lemma alloc_free_known:
  assumes inv: "alloc_inv a" and null: "null_reserved a" and F: "F \<in> used_set a" "c_base F \<noteq> 0"
  shows "\<exists>a'. alloc_free (c_base F) a = Some (c_size F, a') \<and> alloc_inv a' \<and>
     used_set a' = used_set a - {F} \<and>
     bytes_of (free_set a') \<subseteq> bytes_of (free_set a) \<union> extent F \<and>
     (16 \<le> cs F \<longrightarrow> bytes_of (free_set a') = bytes_of (free_set a) \<union> extent F)"
proof -
  note D = alloc_invD [OF inv]
  from cm_remove_with_base_Some [OF D(1)] F obtain m where
    m: "cm_remove_with_base (c_base F) (used_chunks a) = (Some F, m)" "bt_inv m" "cm_set m = used_set a - {F}"
    unfolding used_set_def by blast
  have ok: "chunks_ok (insert F (sb_set (unused_chunks a)))"
    using D(4) by (rule chunks_ok_subset) (use F in \<open>auto simp: free_set_def\<close>)
  have Fnew: "F \<notin> free_set a" using D(3) F(1) by auto
  have no0: "0 < cb c" if "c \<in> sb_set (unused_chunks a)" for c
    using null_reserved_free [OF inv null] that by (simp add: free_set_def)
  from free_list_ok [OF D(2) ok Fnew [unfolded free_set_def] unat_gt_0_u32 [OF F(2)] no0]
  obtain adj u0 u1 P X where u: "remove_adjacent F (unused_chunks a) = Some (adj, u0)"
      "give_back_opt F adj u0 = Some u1" "X \<subseteq> free_set a" "sb_inv u1"
      "sb_set u1 = P \<union> (free_set a - X)" "chunks_ok P" "bytes_of P \<subseteq> extent F \<union> bytes_of X"
      "16 \<le> cs F \<longrightarrow> bytes_of P = extent F \<union> bytes_of X"
    unfolding free_set_def by blast
  let ?a' = "\<lparr>used_chunks = m, unused_chunks = u1\<rparr>"
  have sets: "used_set ?a' = used_set a - {F}" "free_set ?a' = P \<union> (free_set a - X)"
    using m u(5) by (simp_all add: alloc_sets)
  have rest: "used_set a \<union> free_set a - insert F X = (used_set a - {F}) \<union> (free_set a - X)"
    using D(3) F(1) Fnew u(3) by blast
  have X: "insert F X \<subseteq> used_set a \<union> free_set a" using F(1) u(3) by blast
  have PX: "bytes_of P \<subseteq> bytes_of (insert F X)" using u(7) by simp
  note ex = chunks_ok_exchange [OF D(4) X u(6) PX, unfolded rest]
  have "alloc_inv ?a'"
    unfolding alloc_inv_def sets
  proof (intro conjI)
    show "chunks_ok (used_set a - {F} \<union> (P \<union> (free_set a - X)))" using ex(1) by (simp add: Un_ac)
    show "(used_set a - {F}) \<inter> (P \<union> (free_set a - X)) = {}" using ex(2) D(3) by blast
  qed (use m u in simp_all)
  moreover have "bytes_of (free_set ?a') = bytes_of P \<union> (bytes_of (free_set a) - bytes_of X)"
    unfolding sets bytes_of_simps bytes_of_remove [OF D(6) u(3)] ..
  moreover have "bytes_of X \<subseteq> bytes_of (free_set a)" using u(3) by (auto simp: bytes_of_def)
  ultimately show ?thesis
    using u(7,8) sets(1) alloc_free_eq [OF m(1) u(1,2)] by (intro exI [of _ ?a']) auto
qed

section \<open>grow_in_place\<close>

text \<open>Removing a free chunk and putting it back leaves the set of free chunks alone.\<close>

lemma sb_put_back:
  assumes "sb_inv s'" and "sb_set s' = sb_set s - {A}" and "A \<in> sb_set s" and "chunks_ok (sb_set s)"
    and "16 \<le> cs A"
  shows "\<exists>s2. sb_insert A s' = Some s2 \<and> sb_inv s2 \<and> sb_set s2 = sb_set s"
proof -
  have "c_base d \<noteq> c_base A" if "d \<in> sb_set s'" for d
    using chunks_ok_base [OF assms(4), of d A] that assms(2,3) by blast
  from sb_insert_ok [OF assms(1,5) this] assms(2,3) show ?thesis
    by (auto simp: insert_absorb)
qed

lemma alloc_inv_same:
  assumes "alloc_inv a" and "sb_inv u" and "sb_set u = free_set a"
  shows "alloc_inv (a\<lparr>unused_chunks := u\<rparr>)" "used_set (a\<lparr>unused_chunks := u\<rparr>) = used_set a"
    "free_set (a\<lparr>unused_chunks := u\<rparr>) = free_set a"
  using assms by (simp_all add: alloc_inv_def alloc_sets)

text \<open>The grown chunk and what is left of its neighbour.\<close>

definition grown_parts :: "chunk \<Rightarrow> chunk \<Rightarrow> u32 \<Rightarrow> chunk set" where
  "grown_parts F A new =
     (let extra = new - c_size F in
      if c_size A < PAGE_SIZE \<and> c_size A - extra \<ge> MIN_CHUNK_SIZE
      then {\<lparr>c_base = c_base A + extra, c_size = c_size A - extra\<rparr>} else {})"

lemma grown_parts_ok:
  assumes w: "wf_chunk F" "wf_chunk A" and adj: "cb A = cb F + cs F" and pos: "0 < cb F"
    and new: "cs F < unat new" "unat new - cs F \<le> cs A"
    and page: "\<not> (PAGE_SIZE \<le> grown_size_of (c_size F) new (c_size A) \<and> \<not> page_aligned (c_base F))"
  defines "G \<equiv> \<lparr>c_base = c_base F, c_size = grown_size_of (c_size F) new (c_size A)\<rparr>"
  shows "wf_chunk G" "unat new \<le> cs G" "cb G + cs G \<le> cb A + cs A"
    "chunks_ok (insert G (grown_parts F A new))" "G \<notin> grown_parts F A new"
    "bytes_of (insert G (grown_parts F A new)) = extent F \<union> extent A"
proof -
  have x: "unat (new - c_size F) = unat new - cs F" using new by (intro unat_minus_u32) simp
  have sum: "unat (c_size F + c_size A) = cs F + cs A"
    using w adj pos by (intro unat_plus_u32) (auto simp: wf_chunk_def)
  have rem: "unat (c_size A - (new - c_size F)) = cs A - (unat new - cs F)"
    using new x by (subst unat_minus_u32) auto
  have base: "unat (c_base A + (new - c_size F)) = cb A + (unat new - cs F)" if "unat new - cs F < cs A"
    using w that x by (subst unat_plus_u32) (auto simp: wf_chunk_def)
  have G: "cs G = (if 4096 \<le> cs A \<or> cs A - (unat new - cs F) < 16 then cs F + cs A else unat new)"
    by (auto simp: G_def grown_size_of_def le_consts sum rem)
  have cb: "cb G = cb F" by (simp add: G_def)
  show G1: "unat new \<le> cs G" "cb G + cs G \<le> cb A + cs A" using G cb new adj by auto
  have "4096 \<le> cs G \<longrightarrow> cb G mod 4096 = 0"
    using page by (auto simp: G_def le_consts page_aligned_iff)
  with G1 new w show wG: "wf_chunk G" by (auto simp: wf_chunk_def)
  consider (all) "grown_parts F A new = {}" "cs G = cs F + cs A"
    | (rump) R where "grown_parts F A new = {R}" "wf_chunk R" "cb R = cb G + cs G" "cb R + cs R = cb A + cs A"
  proof (cases "cs A < 4096 \<and> 16 \<le> cs A - (unat new - cs F)")
    case True
    let ?R = "\<lparr>c_base = c_base A + (new - c_size F), c_size = c_size A - (new - c_size F)\<rparr>"
    have "unat new - cs F < cs A" using True by linarith
    note base [OF this]
    moreover have "grown_parts F A new = {?R}" using True by (simp add: grown_parts_def Let_def le_consts rem)
    ultimately show ?thesis
      using True w(2) adj new(1) by (intro rump [of ?R]) (auto simp: wf_chunk_def rem G cb)
  next
    case False
    then have "grown_parts F A new = {}" by (auto simp: grown_parts_def Let_def le_consts rem)
    with False show ?thesis by (intro all) (auto simp: G)
  qed
  note parts = this
  show "chunks_ok (insert G (grown_parts F A new))"
    using parts by cases (use wG in \<open>auto simp: chunks_ok_def extent_def\<close>)
  show "G \<notin> grown_parts F A new"
    using parts by cases (use wG in \<open>auto simp: wf_chunk_def\<close>)
  show "bytes_of (insert G (grown_parts F A new)) = extent F \<union> extent A"
    using parts
  proof cases
    case all
    then show ?thesis using adj cb by (auto simp: extent_def)
  next
    case (rump R)
    then show ?thesis using adj cb G1(1) new(1) w by (auto simp: extent_def)
  qed
qed

text \<open>The free list and the used map once the chunk has been grown.\<close>

definition grow_rump :: "chunk \<Rightarrow> u32 \<Rightarrow> chunk \<Rightarrow> sb_map \<Rightarrow> sb_map option" where
  "grow_rump F new A u0 =
     (let extra = new - c_size F; adjacent_base = c_base F + c_size F in
      if c_size A < PAGE_SIZE \<and> c_size A - extra \<ge> MIN_CHUNK_SIZE
      then do {
        c \<leftarrow> Chunk_new (adjacent_base + extra) (c_size A - extra);
        sb_insert c u0
      } else Some u0)"

lemma grow_rump_ok:
  assumes A: "c_base A = c_base F + c_size F" and u: "sb_inv u"
    and ok: "chunks_ok (grown_parts F A new \<union> sb_set u)" and new: "grown_parts F A new \<inter> sb_set u = {}"
  shows "\<exists>u'. grow_rump F new A u = Some u' \<and> sb_inv u' \<and> sb_set u' = grown_parts F A new \<union> sb_set u"
proof (cases "c_size A < PAGE_SIZE \<and> c_size A - (new - c_size F) \<ge> MIN_CHUNK_SIZE")
  case True
  let ?R = "\<lparr>c_base = c_base A + (new - c_size F), c_size = c_size A - (new - c_size F)\<rparr>"
  have P: "grown_parts F A new = {?R}" using True by (simp add: grown_parts_def Let_def)
  have "wf_chunk ?R" using ok unfolding P by (auto simp: chunks_ok_def)
  then have "Chunk_new (c_base A + (new - c_size F)) (c_size A - (new - c_size F)) = Some ?R"
    by (auto simp: Chunk_new_Some wf_chunk_def)
  moreover have "c_base d \<noteq> c_base ?R" if d: "d \<in> sb_set u" for d
    using chunks_ok_base [OF ok, of d ?R] new d unfolding P by auto
  moreover have "16 \<le> cs ?R" using True by (simp add: le_consts)
  ultimately show ?thesis
    using sb_insert_ok [OF u, of ?R] True P by (auto simp: grow_rump_def Let_def A)
next
  case False
  then have "grown_parts F A new = {}" by (auto simp: grown_parts_def Let_def)
  with False u show ?thesis by (auto simp: grow_rump_def Let_def)
qed

lemma grow_take:
  assumes inv: "alloc_inv a" and F: "F \<in> used_set a" and A: "A \<in> free_set a"
    and u0: "sb_inv u0" "sb_set u0 = free_set a - {A}" "c_base A = c_base F + c_size F"
    and G: "G = \<lparr>c_base = c_base F, c_size = grown_size_of (c_size F) new (c_size A)\<rparr>"
      "chunks_ok (insert G (grown_parts F A new))" "G \<notin> grown_parts F A new"
      "bytes_of (insert G (grown_parts F A new)) = extent F \<union> extent A"
  shows "\<exists>u1 m1 m2. grow_rump F new A u0 = Some u1 \<and>
     cm_remove_with_base (c_base F) (used_chunks a) = (Some F, m1) \<and> cm_insert G m1 = Some m2 \<and>
     (let a' = \<lparr>used_chunks = m2, unused_chunks = u1\<rparr> in
       alloc_inv a' \<and> used_set a' = insert G (used_set a - {F}) \<and>
       free_set a' = grown_parts F A new \<union> (free_set a - {A}))"
proof -
  note D = alloc_invD [OF inv]
  let ?P = "grown_parts F A new"
  have X: "{F, A} \<subseteq> used_set a \<union> free_set a" using F A by blast
  have "bytes_of (insert G ?P) \<subseteq> bytes_of {F, A}" using G(4) by simp
  note ex = chunks_ok_exchange [OF D(4) X G(2) this]
  have ne: "A \<notin> used_set a" "F \<notin> free_set a" using D(3) A F by auto
  have rest: "used_set a \<union> free_set a - {F, A} = (used_set a - {F}) \<union> (free_set a - {A})"
    using ne by blast
  note ex = ex [unfolded rest]
  have ok1: "chunks_ok (?P \<union> sb_set u0)" unfolding u0(2) by (rule chunks_ok_subset [OF ex(1)]) blast
  have ok2: "?P \<inter> sb_set u0 = {}" using ex(2) unfolding u0(2) by blast
  from grow_rump_ok [OF u0(3,1) ok1 ok2] obtain u1 where
    u1: "grow_rump F new A u0 = Some u1" "sb_inv u1" "sb_set u1 = ?P \<union> (free_set a - {A})"
    unfolding u0(2) by blast
  from cm_remove_with_base_Some [OF D(1)] F obtain m1 where
    m1: "cm_remove_with_base (c_base F) (used_chunks a) = (Some F, m1)" "bt_inv m1" "cm_set m1 = used_set a - {F}"
    unfolding used_set_def by blast
  have u1ok: "chunks_ok (insert G (cm_set m1))" unfolding m1(3) by (rule chunks_ok_subset [OF ex(1)]) blast
  have "G \<notin> cm_set m1" using ex(2) unfolding m1(3) by blast
  from used_insert [OF m1(2) u1ok this] obtain m2 where
    m2: "cm_insert G m1 = Some m2" "bt_inv m2" "cm_set m2 = insert G (used_set a - {F})"
    unfolding m1(3) by blast
  let ?a' = "\<lparr>used_chunks = m2, unused_chunks = u1\<rparr>"
  have sets: "used_set ?a' = insert G (used_set a - {F})" "free_set ?a' = ?P \<union> (free_set a - {A})"
    using m2 u1 by (simp_all add: alloc_sets)
  have "insert G (used_set a - {F}) \<union> (?P \<union> (free_set a - {A})) =
      insert G ?P \<union> ((used_set a - {F}) \<union> (free_set a - {A}))" by blast
  then have "chunks_ok (used_set ?a' \<union> free_set ?a')" unfolding sets using ex(1) by simp
  moreover have "used_set ?a' \<inter> free_set ?a' = {}"
  proof -
    have "(used_set a - {F}) \<inter> (free_set a - {A}) = {}" using D(3) by blast
    then show ?thesis unfolding sets using ex(2) G(3) by blast
  qed
  ultimately have "alloc_inv ?a'" using m2(2) u1(2) by (simp add: alloc_inv_def)
  with u1(1) m1(1) m2(1) sets show ?thesis by (auto simp: Let_def)
qed

lemma adjacent_base:
  assumes "wf_chunk F" and "c_base A = c_base F + c_size F" and "0 < cb A"
  shows "cb A = cb F + cs F"
  using assms by (cases "cb F + cs F = 4294967296") (auto simp: unat_word_ariths wf_chunk_def)

text \<open>How the steps of \<open>grow_in_place\<close> fit together, without a claim on their results.\<close>

lemma grow_in_place_eq:
  assumes "cm_get_size_with_base (used_chunks a) b = Some old"
  shows "sb_remove_with_base (b + old) (unused_chunks a) = Some (None, u0) \<Longrightarrow>
      grow_in_place b old new a = Some (None, a\<lparr>unused_chunks := u0\<rparr>)"
    and "sb_remove_with_base (b + old) (unused_chunks a) = Some (Some A, u0) \<Longrightarrow> sb_insert A u0 = Some u1 \<Longrightarrow>
      c_size A < new - old \<or>
        (PAGE_SIZE \<le> grown_size_of old new (c_size A) \<and> \<not> page_aligned b) \<Longrightarrow>
      grow_in_place b old new a = Some (None, a\<lparr>unused_chunks := u1\<rparr>)"
    and "sb_remove_with_base (b + old) (unused_chunks a) = Some (Some A, u0) \<Longrightarrow>
      \<not> (c_size A < new - old \<or>
        (PAGE_SIZE \<le> grown_size_of old new (c_size A) \<and> \<not> page_aligned b)) \<Longrightarrow>
      grow_rump \<lparr>c_base = b, c_size = old\<rparr> new A u0 = Some u1 \<Longrightarrow>
      cm_remove_with_base b (used_chunks a) = (Some F, m1) \<Longrightarrow>
      G = \<lparr>c_base = b, c_size = grown_size_of old new (c_size A)\<rparr> \<Longrightarrow> wf_chunk G \<Longrightarrow>
      cm_insert G m1 = Some m2 \<Longrightarrow>
      grow_in_place b old new a = Some (Some (c_size G), \<lparr>used_chunks = m2, unused_chunks = u1\<rparr>)"
proof -
  show "grow_in_place b old new a = Some (None, a\<lparr>unused_chunks := u0\<rparr>)"
    if "sb_remove_with_base (b + old) (unused_chunks a) = Some (None, u0)"
    using that assms by (simp add: grow_in_place_def Let_def)
  show "grow_in_place b old new a = Some (None, a\<lparr>unused_chunks := u1\<rparr>)"
    if "sb_remove_with_base (b + old) (unused_chunks a) = Some (Some A, u0)" "sb_insert A u0 = Some u1"
      "c_size A < new - old \<or>
        (PAGE_SIZE \<le> grown_size_of old new (c_size A) \<and> \<not> page_aligned b)"
    using that assms by (auto simp: grow_in_place_def Let_def)
  show "grow_in_place b old new a = Some (Some (c_size G), \<lparr>used_chunks = m2, unused_chunks = u1\<rparr>)"
    if *: "sb_remove_with_base (b + old) (unused_chunks a) = Some (Some A, u0)"
      "\<not> (c_size A < new - old \<or>
        (PAGE_SIZE \<le> grown_size_of old new (c_size A) \<and> \<not> page_aligned b))"
      "grow_rump \<lparr>c_base = b, c_size = old\<rparr> new A u0 = Some u1"
      "cm_remove_with_base b (used_chunks a) = (Some F, m1)"
      "G = \<lparr>c_base = b, c_size = grown_size_of old new (c_size A)\<rparr>" "wf_chunk G"
      "cm_insert G m1 = Some m2"
  proof -
    have G: "Chunk_new b (grown_size_of old new (c_size A)) = Some G"
      using *(5,6) by (auto simp: Chunk_new_Some wf_chunk_def)
    have "\<not> c_size A < new - old"
      "\<not> (PAGE_SIZE \<le> grown_size_of old new (c_size A) \<and> \<not> page_aligned b)" using *(2) by auto
    with *(1,3,4,7) G assms show ?thesis
      by (auto simp: grow_in_place_def Let_def grow_rump_def *(5))
  qed
qed

lemma grow_in_place_cases:
  assumes inv: "alloc_inv a" and null: "null_reserved a" and F: "F \<in> used_set a" "c_base F \<noteq> 0"
    and new: "cs F < unat new"
  obtains (no) a' where "grow_in_place (c_base F) (c_size F) new a = Some (None, a')" "alloc_inv a'"
      "used_set a' = used_set a" "free_set a' = free_set a"
  | (yes) A a' G where "grow_in_place (c_base F) (c_size F) new a = Some (Some (c_size G), a')"
      "alloc_inv a'" "A \<in> free_set a" "cb A = cb F + cs F" "c_base G = c_base F" "unat new \<le> cs G"
      "used_set a' = insert G (used_set a - {F})"
      "free_set a' = grown_parts F A new \<union> (free_set a - {A})"
      "bytes_of (insert G (grown_parts F A new)) = extent F \<union> extent A"
proof -
  note D = alloc_invD [OF inv]
  let ?s = "unused_chunks a"
  have wF: "wf_chunk F" using D(5) F(1) by (rule chunks_ok_wf)
  have size: "cm_get_size_with_base (used_chunks a) (c_base F) = Some (c_size F)"
    using F D(1) by (simp add: cm_get_size_with_base_def used_set_def cm_set_iff)
  have S: "sb_set ?s = free_set a" by (simp add: free_set_def)
  have FF: "\<lparr>c_base = c_base F, c_size = c_size F\<rparr> = F" by simp
  note eq = grow_in_place_eq [OF size, unfolded FF]
  show ?thesis
  proof (rule sb_remove_with_base_cases [OF D(2), of "c_base F + c_size F"])
    assume rm: "sb_remove_with_base (c_base F + c_size F) ?s = Some (None, ?s)"
    show ?thesis using eq(1) [OF rm] by (rule no) (use inv in simp_all)
  next
    fix A s' assume A: "A \<in> sb_set ?s" "c_base A = c_base F + c_size F"
      and rm: "sb_remove_with_base (c_base F + c_size F) ?s = Some (Some A, s')" "sb_inv s'"
        "sb_set s' = sb_set ?s - {A}"
    have wA: "wf_chunk A" "16 \<le> cs A" using D(2,7) A(1) by (auto simp: sb_inv_def chunks_ok_wf)
    have "0 < cb A" using null_reserved_free [OF inv null] A(1) S by blast
    with wF A(2) have adj: "cb A = cb F + cs F" by (rule adjacent_base)
    have x: "unat (new - c_size F) = unat new - cs F" using new by (intro unat_minus_u32) simp
    from sb_put_back [OF rm(2,3) A(1) D(7) wA(2)] obtain s2 where
      s2: "sb_insert A s' = Some s2" "sb_inv s2" "sb_set s2 = free_set a" unfolding S by blast
    let ?g = "grown_size_of (c_size F) new (c_size A)"
    show ?thesis
    proof (cases "c_size A < new - c_size F \<or> (PAGE_SIZE \<le> ?g \<and> \<not> page_aligned (c_base F))")
      case True
      show ?thesis
        using eq(2) [OF rm(1) s2(1) True] alloc_inv_same [OF inv s2(2,3)] by (rule no)
    next
      case False
      then have room: "unat new - cs F \<le> cs A"
        and page: "\<not> (PAGE_SIZE \<le> ?g \<and> \<not> page_aligned (c_base F))"
        by (auto simp: word_less_nat_alt x)
      note G = grown_parts_ok [OF wF wA(1) adj unat_gt_0_u32 [OF F(2)] new room page]
      from grow_take [OF inv F(1) A(1) [unfolded S] rm(2) rm(3) [unfolded S] A(2) refl G(4-6)]
      obtain u1 m1 m2 where t: "grow_rump F new A s' = Some u1"
        "cm_remove_with_base (c_base F) (used_chunks a) = (Some F, m1)"
        "cm_insert \<lparr>c_base = c_base F, c_size = ?g\<rparr> m1 = Some m2"
        "let a' = \<lparr>used_chunks = m2, unused_chunks = u1\<rparr> in
         alloc_inv a' \<and> used_set a' = insert \<lparr>c_base = c_base F, c_size = ?g\<rparr> (used_set a - {F}) \<and>
         free_set a' = grown_parts F A new \<union> (free_set a - {A})" by blast
      show ?thesis
        using eq(3) [OF rm(1) False t(1,2) refl G(1) t(3)] t(4) A(1) S adj G(2,6)
        by (intro yes) (auto simp: Let_def)
    qed
  qed
qed

section \<open>reserve\<close>

definition trisected :: "chunk \<Rightarrow> chunk \<Rightarrow> chunk option \<Rightarrow> chunk option \<Rightarrow> bool" where
  "trisected t c bef aft \<longleftrightarrow>
     (case bef of None \<Rightarrow> cb c = cb t
      | Some l \<Rightarrow> wf_chunk l \<and> cb l = cb t \<and> cb l + cs l = cb c) \<and>
     (case aft of None \<Rightarrow> cb c + cs c = cb t + cs t
      | Some r \<Rightarrow> wf_chunk r \<and> cb r = cb c + cs c \<and> cb r + cs r = cb t + cs t)"

lemma opt_chunk_ok:
  "(4096 \<le> unat s \<Longrightarrow> unat b mod 4096 = 0) \<Longrightarrow>
     opt_chunk b s = Some (if s = 0 then None else Some \<lparr>c_base = b, c_size = s\<rparr>)"
  by (auto simp: opt_chunk_def Chunk_new_ok u32_eq_iff)

lemma trisect_by_out:
  assumes "wf_chunk t" "wf_chunk c" and "\<not> extent c \<subseteq> extent t"
  shows "trisect_by t c = Some None"
proof -
  have "\<not> (cb c \<in> extent t \<and> cb c + cs c - 1 \<in> extent t)"
    using assms by (auto simp: extent_def wf_chunk_def)
  then show ?thesis
    using assms by (auto simp: trisect_by_def chunk_contains_iff unat_last_byte)
qed

lemma trisect_by_in:
  assumes w: "wf_chunk t" "wf_chunk c" and sub: "extent c \<subseteq> extent t" and al: "(cb c + cs c) mod 4096 = 0"
  shows "\<exists>bef aft. trisect_by t c = Some (Some (bef, aft)) \<and> trisected t c bef aft"
proof -
  have le: "cb t \<le> cb c" "cb c + cs c \<le> cb t + cs t" using sub w by (simp_all add: extent_subset_iff)
  have cont: "chunk_contains t (c_base c)" "chunk_contains t (last_byte c)"
    using w le by (auto simp: chunk_contains_iff unat_last_byte extent_def wf_chunk_def)
  have l: "unat (c_base c - c_base t) = cb c - cb t" using le by (intro unat_minus_u32)
  have r: "unat (last_byte t - last_byte c) = cb t + cs t - (cb c + cs c)"
    using w le by (subst unat_minus_u32) (auto simp: unat_last_byte wf_chunk_def)
  have rb: "unat (last_byte c + 1) = cb c + cs c" if "last_byte t - last_byte c \<noteq> 0"
  proof -
    have "cb c + cs c < cb t + cs t" using that r by (simp add: u32_eq_iff)
    then show ?thesis using unat_succ_last [OF w(2)] w(1) by (simp add: wf_chunk_def)
  qed
  have left: "opt_chunk (c_base t) (c_base c - c_base t) =
      Some (if c_base c - c_base t = 0 then None else Some \<lparr>c_base = c_base t, c_size = c_base c - c_base t\<rparr>)"
    using w(1) l le by (intro opt_chunk_ok) (auto simp: wf_chunk_def)
  have right: "opt_chunk (last_byte c + 1) (last_byte t - last_byte c) =
      Some (if last_byte t - last_byte c = 0 then None
            else Some \<lparr>c_base = last_byte c + 1, c_size = last_byte t - last_byte c\<rparr>)"
    using rb al by (intro opt_chunk_ok) (auto simp: u32_eq_iff)
  have "trisected t c
      (if c_base c - c_base t = 0 then None else Some \<lparr>c_base = c_base t, c_size = c_base c - c_base t\<rparr>)
      (if last_byte t - last_byte c = 0 then None
            else Some \<lparr>c_base = last_byte c + 1, c_size = last_byte t - last_byte c\<rparr>)"
    unfolding trisected_def
  proof (intro conjI)
    show "case if c_base c - c_base t = 0 then None else Some \<lparr>c_base = c_base t, c_size = c_base c - c_base t\<rparr>
      of None \<Rightarrow> cb c = cb t | Some l \<Rightarrow> wf_chunk l \<and> cb l = cb t \<and> cb l + cs l = cb c"
    proof (cases "c_base c - c_base t = 0")
      case False
      then have "0 < cb c - cb t" using l by (simp add: u32_eq_iff)
      with False l le w show ?thesis by (auto simp: wf_chunk_def)
    qed simp
    show "case if last_byte t - last_byte c = 0 then None
        else Some \<lparr>c_base = last_byte c + 1, c_size = last_byte t - last_byte c\<rparr>
      of None \<Rightarrow> cb c + cs c = cb t + cs t
      | Some r \<Rightarrow> wf_chunk r \<and> cb r = cb c + cs c \<and> cb r + cs r = cb t + cs t"
    proof (cases "last_byte t - last_byte c = 0")
      case True
      then show ?thesis using r le by simp
    next
      case False
      then have "0 < cb t + cs t - (cb c + cs c)" using r by (simp add: u32_eq_iff)
      with False rb r le w(1) al show ?thesis by (simp add: wf_chunk_def)
    qed
  qed
  with cont left right show ?thesis by (auto simp: trisect_by_def)
qed

lemma find_trisect_cases:
  assumes "wf_chunk c" and "(cb c + cs c) mod 4096 = 0" and "\<And>t. t \<in> set us \<Longrightarrow> wf_chunk t"
  shows "(find_trisect c us = Some None \<and> (\<forall>t \<in> set us. \<not> extent c \<subseteq> extent t)) \<or>
    (\<exists>t \<in> set us. find_trisect c us = Some (Some t) \<and> extent c \<subseteq> extent t)"
  using assms(3)
proof (induction us)
  case (Cons u us)
  have u: "wf_chunk u" using Cons.prems by simp
  show ?case
  proof (cases "extent c \<subseteq> extent u")
    case True
    with trisect_by_in [OF u assms(1) True assms(2)] show ?thesis by auto
  next
    case False
    with trisect_by_out [OF u assms(1) False] Cons show ?thesis by auto
  qed
qed simp

lemma sb_iter_set: "sb_inv s \<Longrightarrow> set (sb_iter s) = sb_set s"
  unfolding sb_iter_def sb_set_def cm_set_def sb_inv_def by (metis set_mset_mset)

definition kept :: "chunk option \<Rightarrow> chunk set" where
  "kept co = {c. co = Some c \<and> 16 \<le> cs c}"

lemma insert_if_large_opt:
  assumes "sb_inv s" and "chunks_ok (set_option co \<union> sb_set s)" and "set_option co \<inter> sb_set s = {}"
  shows "\<exists>s'. insert_if_large co s = Some s' \<and> sb_inv s' \<and> sb_set s' = kept co \<union> sb_set s"
proof (cases co)
  case None
  then show ?thesis using assms by (simp add: insert_if_large_def kept_def)
next
  case (Some c)
  from insert_if_large_ok [OF assms(1), of c] assms(2,3) Some show ?thesis
    by (auto simp: kept_def insert_absorb)
qed

lemma trisected_parts:
  assumes w: "wf_chunk t" "wf_chunk c" and tri: "trisected t c bef aft"
  defines "P \<equiv> insert c (set_option bef \<union> set_option aft)"
  shows "chunks_ok P" "bytes_of P = extent t" "c \<notin> set_option bef \<union> set_option aft"
    "set_option bef \<inter> set_option aft = {}"
proof -
  have bef: "wf_chunk l \<and> cb l = cb t \<and> cb l + cs l = cb c \<and> l \<noteq> c \<and> extent l \<inter> extent c = {}" if "bef = Some l" for l
    using that tri w(2) by (auto simp: trisected_def extent_def wf_chunk_def)
  have aft: "wf_chunk r \<and> cb r = cb c + cs c \<and> c \<noteq> r \<and> extent r \<inter> extent c = {}" if "aft = Some r" for r
    using that tri w(2) by (auto simp: trisected_def extent_def wf_chunk_def)
  have both: "l \<noteq> r \<and> extent l \<inter> extent r = {}" if "bef = Some l" "aft = Some r" for l r
    using bef [OF that(1)] aft [OF that(2)] w(2) by (auto simp: extent_def wf_chunk_def)
  show "c \<notin> set_option bef \<union> set_option aft" "set_option bef \<inter> set_option aft = {}"
    using bef aft both by (auto dest: elem_set [THEN iffD1])
  have "chunks_ok (set_option aft)" using aft by (auto simp: chunks_ok_def)
  then have "chunks_ok (set_option bef \<union> set_option aft)"
    using bef both by (cases bef) (auto intro: chunks_ok_insert)
  then show "chunks_ok P"
    unfolding P_def by (rule chunks_ok_insert) (use bef aft w(2) Int_commute in auto)
  have "bytes_of (set_option bef) = {cb t ..< cb c}" "cb t \<le> cb c"
    using tri by (cases bef; force simp: trisected_def extent_def)+
  moreover have "bytes_of (set_option aft) = {cb c + cs c ..< cb t + cs t}" "cb c + cs c \<le> cb t + cs t"
    using tri by (cases aft; force simp: trisected_def extent_def)+
  ultimately show "bytes_of P = extent t"
    unfolding P_def bytes_of_simps by (simp add: extent_def) (simp add: set_eq_iff, linarith)
qed

lemma alloc_reserve_cases:
  assumes inv: "alloc_inv a" and c: "wf_chunk c" "(cb c + cs c) mod 4096 = 0"
  obtains (no) "alloc_reserve c a = Some a" "\<And>t. t \<in> free_set a \<Longrightarrow> \<not> extent c \<subseteq> extent t"
  | (yes) t bef aft a' where "alloc_reserve c a = Some a'" "alloc_inv a'" "t \<in> free_set a" "extent c \<subseteq> extent t"
      "trisected t c bef aft" "used_set a' = insert c (used_set a)" 
      "free_set a' = kept bef \<union> kept aft \<union> (free_set a - {t})"
proof -
  note D = alloc_invD [OF inv]
  let ?s = "unused_chunks a"
  have S: "sb_set ?s = free_set a" by (simp add: free_set_def)
  have it: "set (sb_iter ?s) = free_set a" using sb_iter_set [OF D(2)] S by simp
  have wf: "wf_chunk t" if "t \<in> set (sb_iter ?s)" for t using that D(6) it chunks_ok_wf by blast
  have find: "(find_trisect c (sb_iter ?s) = Some None \<and> (\<forall>t \<in> free_set a. \<not> extent c \<subseteq> extent t)) \<or>
    (\<exists>t \<in> free_set a. find_trisect c (sb_iter ?s) = Some (Some t) \<and> extent c \<subseteq> extent t)"
    using find_trisect_cases [OF c, of "sb_iter ?s"] wf it by blast
  then consider
    (out) "find_trisect c (sb_iter ?s) = Some None" "\<And>t. t \<in> free_set a \<Longrightarrow> \<not> extent c \<subseteq> extent t"
    | (inside) t where "t \<in> free_set a" "find_trisect c (sb_iter ?s) = Some (Some t)" "extent c \<subseteq> extent t"
    by blast
  then show ?thesis
  proof cases
    case out
    then show ?thesis using no by (simp add: alloc_reserve_def)
  next
    case (inside t)
    have wt: "wf_chunk t" using wf it inside(1) by simp
    from trisect_by_in [OF wt c(1) inside(3) c(2)] obtain bef aft where
      tri: "trisect_by t c = Some (Some (bef, aft))" "trisected t c bef aft" by blast
    note P = trisected_parts [OF wt c(1) tri(2)]
    let ?P = "insert c (set_option bef \<union> set_option aft)"
    have X: "{t} \<subseteq> used_set a \<union> free_set a" using inside(1) by blast
    have "bytes_of ?P \<subseteq> bytes_of {t}" using P(2) by simp
    note ex = chunks_ok_exchange [OF D(4) X P(1) this]
    have rest: "used_set a \<union> free_set a - {t} = used_set a \<union> (free_set a - {t})"
      using D(3) inside(1) by blast
    note ex = ex [unfolded rest]
    from sb_remove_with_base_cases [OF D(2), of "c_base t"] obtain s0 where
      s0: "sb_remove_with_base (c_base t) ?s = Some (Some t, s0)" "sb_inv s0" "sb_set s0 = free_set a - {t}"
      using inside(1) S chunks_ok_base [OF D(6)] by metis
    have 1: "chunks_ok (set_option bef \<union> sb_set s0)" "set_option bef \<inter> sb_set s0 = {}"
      unfolding s0(3) using ex(2) by (blast intro: chunks_ok_subset [OF ex(1)])+
    from insert_if_large_opt [OF s0(2) 1] obtain s1 where
      s1: "insert_if_large bef s0 = Some s1" "sb_inv s1" "sb_set s1 = kept bef \<union> (free_set a - {t})"
      unfolding s0(3) by blast
    have kb: "kept bef \<subseteq> set_option bef" "kept aft \<subseteq> set_option aft" by (auto simp: kept_def)
    have 2: "chunks_ok (set_option aft \<union> sb_set s1)" "set_option aft \<inter> sb_set s1 = {}"
      unfolding s1(3) using ex(2) kb P(4) by (blast intro: chunks_ok_subset [OF ex(1)])+
    from insert_if_large_opt [OF s1(2) 2] obtain s2 where
      s2: "insert_if_large aft s1 = Some s2" "sb_inv s2"
        "sb_set s2 = kept aft \<union> (kept bef \<union> (free_set a - {t}))"
      unfolding s1(3) by blast
    have 3: "chunks_ok (insert c (cm_set (used_chunks a)))" "c \<notin> cm_set (used_chunks a)"
      unfolding used_set_def [symmetric] using ex(2) by (blast intro: chunks_ok_subset [OF ex(1)])+
    from used_insert [OF D(1) 3] obtain m where
      m: "cm_insert c (used_chunks a) = Some m" "bt_inv m" "cm_set m = insert c (used_set a)"
      unfolding used_set_def by blast
    let ?a' = "\<lparr>used_chunks = m, unused_chunks = s2\<rparr>"
    have sets: "used_set ?a' = insert c (used_set a)" "free_set ?a' = kept bef \<union> kept aft \<union> (free_set a - {t})"
      using m s2 by (auto simp: alloc_sets)
    have "chunks_ok (used_set ?a' \<union> free_set ?a')"
      unfolding sets by (rule chunks_ok_subset [OF ex(1)]) (use kb in blast)
    moreover have "used_set ?a' \<inter> free_set ?a' = {}"
    proof -
      have "c \<notin> free_set a - {t}" "(set_option bef \<union> set_option aft) \<inter> used_set a = {}" using ex(2) by blast+
      then show ?thesis unfolding sets using kb P(3) D(3) by blast
    qed
    ultimately have "alloc_inv ?a'" using m s2 by (simp add: alloc_inv_def)
    moreover have "alloc_reserve c a = Some ?a'"
      using inside(2) tri(1) s0(1) s1(1) s2(1) m(1) by (simp add: alloc_reserve_def)
    ultimately show ?thesis using yes inside tri(2) sets by blast
  qed
qed

section \<open>Contracts of the operations\<close>

lemma null_reserved_mono: "null_reserved a \<Longrightarrow> used_set a \<subseteq> used_set a' \<Longrightarrow> null_reserved a'"
  unfolding null_reserved_def by blast

lemma tiles_bytes: "tiles e c P \<Longrightarrow> extent e = extent c \<union> bytes_of P"
  by (simp add: tiles_def bytes_of_def)

lemma tiles_bytes_disjoint: "tiles e c P \<Longrightarrow> extent c \<inter> bytes_of P = {}"
  unfolding tiles_def bytes_of_def using chunks_ok_disjoint [of "insert c P" c] by blast

text \<open>The fresh allocator, and the same with its first page reserved.\<close>

definition fresh :: allocator where "fresh = the Allocator_new"

definition null_chunk :: chunk where "null_chunk = \<lparr>c_base = 0, c_size = PAGE_SIZE\<rparr>"

definition fresh_null :: allocator where
  "fresh_null = the (alloc_reserve null_chunk fresh)"

lemma fresh_ok: "Allocator_new = Some fresh" "alloc_inv fresh"
  "used_set fresh = {\<lparr>c_base = MAIN_THREAD_STACK_LOW_END, c_size = MAIN_THREAD_STACK_SIZE\<rparr>}"
  "free_set fresh = {\<lparr>c_base = 0, c_size = MAIN_THREAD_STACK_LOW_END\<rparr>}"
proof -
  from alloc_inv_new obtain a where a: "Allocator_new = Some a" "alloc_inv a"
    "used_set a = {\<lparr>c_base = MAIN_THREAD_STACK_LOW_END, c_size = MAIN_THREAD_STACK_SIZE\<rparr>}"
    "free_set a = {\<lparr>c_base = 0, c_size = MAIN_THREAD_STACK_LOW_END\<rparr>}" by blast
  moreover from a(1) have "fresh = a" unfolding fresh_def by (metis option.sel)
  ultimately show "Allocator_new = Some fresh" "alloc_inv fresh"
    "used_set fresh = {\<lparr>c_base = MAIN_THREAD_STACK_LOW_END, c_size = MAIN_THREAD_STACK_SIZE\<rparr>}"
    "free_set fresh = {\<lparr>c_base = 0, c_size = MAIN_THREAD_STACK_LOW_END\<rparr>}" by simp_all
qed

lemma wf_null_chunk: "wf_chunk null_chunk" "(cb null_chunk + cs null_chunk) mod 4096 = 0"
  by (simp_all add: null_chunk_def wf_chunk_def word_nat)

lemma fresh_null_ok: "alloc_reserve null_chunk fresh = Some fresh_null" "alloc_inv fresh_null"
  "null_chunk \<in> used_set fresh_null" "null_reserved fresh_null"
  "used_set fresh_null = insert null_chunk (used_set fresh)"
proof -
  have sub: "extent null_chunk \<subseteq> extent \<lparr>c_base = 0, c_size = MAIN_THREAD_STACK_LOW_END\<rparr>"
    by (simp add: extent_def null_chunk_def alloc_consts)
  have "alloc_reserve null_chunk fresh = Some fresh_null \<and> alloc_inv fresh_null \<and>
      used_set fresh_null = insert null_chunk (used_set fresh)"
  proof (rule alloc_reserve_cases [OF fresh_ok(2) wf_null_chunk])
    assume "\<And>t. t \<in> free_set fresh \<Longrightarrow> \<not> extent null_chunk \<subseteq> extent t"
    with sub show ?thesis by (auto simp: fresh_ok)
  next
    fix a' assume "alloc_reserve null_chunk fresh = Some a'" "alloc_inv a'" "used_set a' = insert null_chunk (used_set fresh)"
    then show ?thesis by (simp add: fresh_null_def)
  qed
  then show "alloc_reserve null_chunk fresh = Some fresh_null" "alloc_inv fresh_null"
    "null_chunk \<in> used_set fresh_null" "used_set fresh_null = insert null_chunk (used_set fresh)" by blast+
  then show "null_reserved fresh_null" by (force simp: null_reserved_def null_chunk_def)
qed

text \<open>
  \<open>alloc\<close> never panics and keeps the allocator invariant.  It either returns a chunk taken from
  free bytes only (so disjoint from every live allocation and from the null segment), at least as
  large as the request and less than a page and 16 bytes larger (counting a request of less than 16
  bytes as 16), and then exactly those bytes leave the free list; or it returns null, changes nothing, and no free chunk could hold the rounded request.
\<close>

lemma alloc_alloc_ok:
  assumes "alloc_inv a" and "null_reserved a"
  shows "\<exists>p a'. alloc_alloc sz a = Some (p, a') \<and> alloc_inv a' \<and> null_reserved a' \<and>
    (if p = 0 then a' = a \<and> (case aligned_request sz of None \<Rightarrow> 2 ^ 32 \<le> unat sz + 4096
                              | Some n \<Rightarrow> \<forall>c \<in> free_set a. cs c < unat n)
     else \<exists>c. c_base c = p \<and> c \<notin> used_set a \<and> used_set a' = insert c (used_set a) \<and>
       unat sz \<le> cs c \<and> cs c < max (unat sz) 16 + 4096 + 16 \<and>
       extent c \<subseteq> bytes_of (free_set a) \<and>
       bytes_of (free_set a') = bytes_of (free_set a) - extent c)"
proof (rule alloc_alloc_cases [OF assms(1), of sz])
  fix n e c P a'
  assume n: "aligned_request sz = Some n" and r: "alloc_alloc sz a = Some (c_base c, a')"
    and t: "taken n (unused_chunks a) e c P (unused_chunks a')" and inv: "alloc_inv a'"
    and used: "used_set a' = insert c (used_set a)" "c \<notin> used_set a" and free: "free_set a' = P \<union> (free_set a - {e})"
  have e: "e \<in> free_set a" and tl: "tiles e c P" and sz: "unat n \<le> cs c" "cs c < unat n + 16"
    using t aligned_request_ok(3) [OF n] by (auto simp: taken_def free_set_def)
  have "0 < cb e" using null_reserved_free [OF assms e] .
  moreover have "c_base c = c_base e" using tl by (simp add: tiles_def)
  ultimately have p: "c_base c \<noteq> 0" by (auto simp: u32_eq_iff)
  have sub: "extent c \<subseteq> extent e" "extent e \<subseteq> bytes_of (free_set a)"
    using tiles_bytes [OF tl] e by (auto simp: bytes_of_def)
  have "bytes_of (free_set a') = bytes_of P \<union> (bytes_of (free_set a) - extent e)"
    unfolding free bytes_of_simps using bytes_of_remove [OF alloc_invD(6) [OF assms(1)], of "{e}"] e by simp
  also have "\<dots> = bytes_of (free_set a) - extent c"
    using tiles_bytes [OF tl] tiles_bytes_disjoint [OF tl] sub by blast
  finally have "bytes_of (free_set a') = bytes_of (free_set a) - extent c" .
  then show ?thesis
    using r inv used sub p sz aligned_request_ok(2,4) [OF n] null_reserved_mono [OF assms(2), of a']
    by (intro exI [of _ "c_base c"] exI [of _ a']) (auto intro!: exI [of _ c])
qed (use assms aligned_request_None in auto)

text \<open>
  \<open>free\<close> of a live allocation never panics, keeps the invariant, takes exactly that chunk out
  of the live ones, returns its size, and gives its bytes (all of them, when the chunk is not a
  sliver below the minimum chunk size) and nothing but them to the free list, whether it is
  merged with a neighbour or not.  Of any other address but 0 it changes nothing and returns 0.
\<close>

lemma alloc_free_ok:
  assumes "alloc_inv a" and "null_reserved a" and "b \<noteq> 0"
  shows "if is_known_allocation a b
    then \<exists>F a'. F \<in> used_set a \<and> c_base F = b \<and> alloc_free b a = Some (c_size F, a') \<and>
      alloc_inv a' \<and> null_reserved a' \<and> used_set a' = used_set a - {F} \<and>
      bytes_of (free_set a') \<subseteq> bytes_of (free_set a) \<union> extent F \<and>
      (16 \<le> cs F \<longrightarrow> bytes_of (free_set a') = bytes_of (free_set a) \<union> extent F)
    else alloc_free b a = Some (0, a)"
proof (cases "is_known_allocation a b")
  case True
  then obtain F where F: "F \<in> used_set a" "c_base F = b" using known_chunk [OF assms(1)] by blast
  from alloc_free_known [OF assms(1,2) F(1)] F(2) assms(3) obtain a' where
    a': "alloc_free b a = Some (c_size F, a')" "alloc_inv a'" "used_set a' = used_set a - {F}"
      "bytes_of (free_set a') \<subseteq> bytes_of (free_set a) \<union> extent F"
      "16 \<le> cs F \<longrightarrow> bytes_of (free_set a') = bytes_of (free_set a) \<union> extent F" by blast
  moreover have "null_reserved a'"
    using assms(2,3) F(2) unfolding null_reserved_def a'(3) by auto
  ultimately show ?thesis using True F by auto
qed (simp add: alloc_free_unknown assms(1))

text \<open>
  growing a live allocation in place never panics and keeps the invariant.  A refusal leaves
  the live and the free chunks as they were; a success keeps the base, reports the new size, which is
  at least the requested one, changes no other live allocation, and only exchanges bytes between the
  allocation and the free chunk right behind it.
\<close>

lemma alloc_grow_ok:
  assumes "alloc_inv a" and "null_reserved a" and "F \<in> used_set a" and "c_base F \<noteq> 0" and "c_size F < new"
  shows "\<exists>r a'. grow_in_place (c_base F) (c_size F) new a = Some (r, a') \<and> alloc_inv a' \<and> null_reserved a' \<and>
    (case r of
       None \<Rightarrow> used_set a' = used_set a \<and> free_set a' = free_set a
     | Some g \<Rightarrow> new \<le> g \<and> used_set a' = insert \<lparr>c_base = c_base F, c_size = g\<rparr> (used_set a - {F}) \<and>
         extent F \<subseteq> extent \<lparr>c_base = c_base F, c_size = g\<rparr> \<and>
         bytes_of (used_set a') \<union> bytes_of (free_set a') = bytes_of (used_set a) \<union> bytes_of (free_set a))"
proof -
  have "cs F < unat new" using assms(5) by (simp add: word_less_nat_alt)
  then show ?thesis
  proof (rule grow_in_place_cases [OF assms(1-4)])
    fix a' assume "grow_in_place (c_base F) (c_size F) new a = Some (None, a')" "alloc_inv a'"
      "used_set a' = used_set a" "free_set a' = free_set a"
    with assms(2) show ?thesis by (auto simp: null_reserved_def)
  next
    fix A a' G
    assume r: "grow_in_place (c_base F) (c_size F) new a = Some (Some (c_size G), a')" "alloc_inv a'"
      and A: "A \<in> free_set a" and G: "c_base G = c_base F" "unat new \<le> cs G"
      and used: "used_set a' = insert G (used_set a - {F})"
      and free: "free_set a' = grown_parts F A new \<union> (free_set a - {A})"
      and b: "bytes_of (insert G (grown_parts F A new)) = extent F \<union> extent A"
    have GG: "\<lparr>c_base = c_base F, c_size = c_size G\<rparr> = G" using G(1) by simp
    have "null_reserved a'" using assms(2,4) unfolding null_reserved_def used by auto
    moreover have "bytes_of (used_set a') \<union> bytes_of (free_set a') =
        bytes_of (insert G (grown_parts F A new)) \<union> bytes_of (used_set a - {F}) \<union> bytes_of (free_set a - {A})"
      unfolding used free by auto
    then have "bytes_of (used_set a') \<union> bytes_of (free_set a') =
        extent F \<union> extent A \<union> bytes_of (used_set a - {F}) \<union> bytes_of (free_set a - {A})"
      unfolding b .
    then have "bytes_of (used_set a') \<union> bytes_of (free_set a') = bytes_of (used_set a) \<union> bytes_of (free_set a)"
      using assms(3) A by (auto simp: bytes_of_def)
    moreover have "extent F \<subseteq> extent G"
      using assms(5) G by (auto simp: extent_def word_less_nat_alt)
    moreover have "new \<le> c_size G" using G(2) by (simp add: word_le_nat_alt)
    ultimately show ?thesis
      using r used by (intro exI [of _ "Some (c_size G)"] exI [of _ a']) (simp add: GG)
  qed
qed

lemma trisected_bytes:
  assumes w: "wf_chunk t" "wf_chunk c" and sub: "extent c \<subseteq> extent t" "extent t \<subseteq> B" and tri: "trisected t c bef aft"
  defines "B' \<equiv> bytes_of (kept bef) \<union> bytes_of (kept aft) \<union> (B - extent t)"
  shows "B' \<subseteq> B - extent c \<and> (\<forall>x \<in> B - extent c - B'. cb c \<le> x + 15 \<and> x < cb c + cs c + 15)"
proof -
  have L: "bytes_of (kept bef) \<subseteq> {cb t ..< cb c} \<and> (\<forall>x \<in> {cb t ..< cb c} - bytes_of (kept bef). cb c \<le> x + 15)"
    using tri by (cases bef) (auto simp: trisected_def kept_def bytes_of_def extent_def)
  have R: "bytes_of (kept aft) \<subseteq> {cb c + cs c ..< cb t + cs t} \<and>
      (\<forall>x \<in> {cb c + cs c ..< cb t + cs t} - bytes_of (kept aft). x < cb c + cs c + 15)"
    using tri by (cases aft) (auto simp: trisected_def kept_def bytes_of_def extent_def)
  have T: "extent t = {cb t ..< cb c} \<union> extent c \<union> {cb c + cs c ..< cb t + cs t}"
    using sub(1) w by (simp add: extent_subset_iff) (auto simp: extent_def)
  have dis: "{cb t ..< cb c} \<inter> extent c = {}" "{cb c + cs c ..< cb t + cs t} \<inter> extent c = {}"
    by (auto simp: extent_def)
  have "B' \<subseteq> B - extent c" unfolding B'_def using L R T dis sub(2) by blast
  moreover have "cb c \<le> x + 15 \<and> x < cb c + cs c + 15" if x: "x \<in> B - extent c - B'" for x
  proof -
    from x T have "x \<in> {cb t ..< cb c} - bytes_of (kept bef) \<or> x \<in> {cb c + cs c ..< cb t + cs t} - bytes_of (kept aft)"
      unfolding B'_def by blast
    then show ?thesis using L R by fastforce
  qed
  ultimately show ?thesis by blast
qed

text \<open>
  \<open>reserve\<close> of a chunk that ends on a page never panics and keeps the invariant.  When one free
  chunk holds the range, the range becomes live and the free bytes lose exactly the range, up to
  fragments of less than the minimum chunk size on its two sides; otherwise nothing changes.
\<close>

lemma alloc_reserve_ok:
  assumes "alloc_inv a" and "wf_chunk c" and "page_aligned (last_byte c + 1)"
  shows "\<exists>a'. alloc_reserve c a = Some a' \<and> alloc_inv a' \<and>
    (if \<exists>t \<in> free_set a. extent c \<subseteq> extent t
     then used_set a' = insert c (used_set a) \<and>
       bytes_of (free_set a') \<subseteq> bytes_of (free_set a) - extent c \<and>
       (\<forall>x \<in> bytes_of (free_set a) - extent c - bytes_of (free_set a'). cb c \<le> x + 15 \<and> x < cb c + cs c + 15)
     else a' = a)"
proof -
  have al: "(cb c + cs c) mod 4096 = 0"
  proof -
    have "4096 dvd (cb c + cs c) mod 4294967296"
      using assms(3) unat_succ_last [OF assms(2)] by (simp add: page_aligned_iff dvd_eq_mod_eq_0)
    then have "4096 dvd cb c + cs c" by (subst (asm) dvd_mod_iff) simp_all
    then show ?thesis by simp
  qed
  note D = alloc_invD [OF assms(1)]
  show ?thesis
  proof (rule alloc_reserve_cases [OF assms(1,2) al])
    fix t bef aft a'
    assume r: "alloc_reserve c a = Some a'" "alloc_inv a'" and t: "t \<in> free_set a" "extent c \<subseteq> extent t"
      and tri: "trisected t c bef aft" and used: "used_set a' = insert c (used_set a)"
      and free: "free_set a' = kept bef \<union> kept aft \<union> (free_set a - {t})"
    have wt: "wf_chunk t" using D(6) t(1) by (rule chunks_ok_wf)
    note P = trisected_parts [OF wt assms(2) tri]
    have free': "bytes_of (free_set a') = bytes_of (kept bef) \<union> bytes_of (kept aft) \<union> (bytes_of (free_set a) - extent t)"
      unfolding free bytes_of_simps using bytes_of_remove [OF D(6), of "{t}"] t(1) by simp
    have "extent t \<subseteq> bytes_of (free_set a)" using t(1) by (auto simp: bytes_of_def)
    with trisected_bytes [OF wt assms(2) t(2) _ tri, of "bytes_of (free_set a)"] free' r t used show ?thesis by auto
  qed (use assms(1) in auto)
qed

section \<open>The interface to the guest memory\<close>

text \<open>
  What the guest memory relies on: the live chunks are disjoint from each other and from the bytes
  that can still be handed out; allocating takes a chunk from those bytes; freeing and growing touch
  one live chunk only.
\<close>

locale address_allocator =
  fixes ok :: "'a \<Rightarrow> bool"
    and live :: "'a \<Rightarrow> chunk set"
    and avail :: "'a \<Rightarrow> nat set"
    and al :: "u32 \<Rightarrow> 'a \<Rightarrow> (vaddr \<times> 'a) option"
    and fr :: "vaddr \<Rightarrow> 'a \<Rightarrow> (u32 \<times> 'a) option"
    and gr :: "vaddr \<Rightarrow> u32 \<Rightarrow> u32 \<Rightarrow> 'a \<Rightarrow> (u32 option \<times> 'a) option"
    and known :: "'a \<Rightarrow> vaddr \<Rightarrow> bool"
    and size_of :: "'a \<Rightarrow> vaddr \<Rightarrow> u32"
  assumes live_ok: "ok a \<Longrightarrow> chunks_ok (live a)"
    and live_avail: "ok a \<Longrightarrow> bytes_of (live a) \<inter> avail a = {}"
    and known_iff: "ok a \<Longrightarrow> known a b \<longleftrightarrow> (\<exists>c \<in> live a. c_base c = b)"
    and size_of_live: "ok a \<Longrightarrow> c \<in> live a \<Longrightarrow> size_of a (c_base c) = c_size c"
    and size_of_unknown: "ok a \<Longrightarrow> \<not> known a b \<Longrightarrow> size_of a b = 0"
    and al_cases: "ok a \<Longrightarrow> al sz a = Some (0, a) \<or>
        (\<exists>c a'. al sz a = Some (c_base c, a') \<and> c_base c \<noteq> 0 \<and> ok a' \<and> c \<notin> live a \<and>
           live a' = insert c (live a) \<and> sz \<le> c_size c \<and> extent c \<subseteq> avail a \<and> avail a' = avail a - extent c)"
    and fr_live: "ok a \<Longrightarrow> F \<in> live a \<Longrightarrow> c_base F \<noteq> 0 \<Longrightarrow>
        \<exists>a'. fr (c_base F) a = Some (c_size F, a') \<and> ok a' \<and> live a' = live a - {F} \<and>
          avail a' \<subseteq> avail a \<union> extent F"
    and gr_unknown: "ok a \<Longrightarrow> \<not> known a b \<Longrightarrow> gr b old new a = Some (None, a)"
    and gr_live: "ok a \<Longrightarrow> F \<in> live a \<Longrightarrow> c_base F \<noteq> 0 \<Longrightarrow> c_size F < new \<Longrightarrow>
        \<exists>r a'. gr (c_base F) (c_size F) new a = Some (r, a') \<and> ok a' \<and>
          (case r of None \<Rightarrow> live a' = live a \<and> avail a' = avail a
           | Some g \<Rightarrow> new \<le> g \<and> live a' = insert \<lparr>c_base = c_base F, c_size = g\<rparr> (live a - {F}) \<and>
               extent \<lparr>c_base = c_base F, c_size = g\<rparr> \<subseteq> extent F \<union> avail a \<and>
               avail a' \<subseteq> avail a - extent \<lparr>c_base = c_base F, c_size = g\<rparr>)"
begin

lemma live_same: "ok a \<Longrightarrow> c \<in> live a \<Longrightarrow> d \<in> live a \<Longrightarrow> c_base c = c_base d \<Longrightarrow> c = d"
  by (rule chunks_ok_base [OF live_ok])

lemma live_disjoint: "ok a \<Longrightarrow> c \<in> live a \<Longrightarrow> d \<in> live a \<Longrightarrow> c \<noteq> d \<Longrightarrow> extent c \<inter> extent d = {}"
  by (rule chunks_ok_disjoint [OF live_ok])

lemma live_wf: "ok a \<Longrightarrow> c \<in> live a \<Longrightarrow> wf_chunk c"
  by (rule chunks_ok_wf [OF live_ok])

lemma live_not_avail: "ok a \<Longrightarrow> c \<in> live a \<Longrightarrow> extent c \<inter> avail a = {}"
  using live_avail [of a] by (auto simp: bytes_of_def)

lemma al_total: "ok a \<Longrightarrow> \<exists>p a'. al sz a = Some (p, a') \<and> ok a'"
  using al_cases [of a sz] by auto

lemma al_null: "ok a \<Longrightarrow> al sz a = Some (0, a') \<Longrightarrow> a' = a"
  using al_cases [of a sz] by auto

lemma al_block:
  assumes "ok a" and "al sz a = Some (p, a')" and "p \<noteq> 0"
  obtains c where "c_base c = p" "ok a'" "c \<notin> live a" "live a' = insert c (live a)" "sz \<le> c_size c"
    "wf_chunk c" "extent c \<subseteq> avail a" "avail a' = avail a - extent c"
    "\<And>d. d \<in> live a \<Longrightarrow> extent d \<inter> extent c = {}"
proof -
  from al_cases [OF assms(1), of sz] assms(2,3) obtain c where c: "c_base c = p" "ok a'" "c \<notin> live a"
    "live a' = insert c (live a)" "sz \<le> c_size c" "extent c \<subseteq> avail a" "avail a' = avail a - extent c"
    by auto
  have wf: "wf_chunk c" using live_wf [OF c(2), of c] c(4) by simp
  have dis: "extent d \<inter> extent c = {}" if "d \<in> live a" for d
    using live_disjoint [OF c(2), of d c] c(3,4) that by blast
  show ?thesis by (rule that [OF c(1-5) wf c(6,7) dis])
qed

text \<open>Taking a new block, then releasing an old one: the slow path of \<open>realloc\<close>.\<close>

lemma move_block:
  assumes "ok a" and F: "F \<in> live a" "c_base F \<noteq> 0" and al: "al sz a = Some (p, a1)" "p \<noteq> 0"
  obtains c a2 where "c_base c = p" "c \<notin> live a" "sz \<le> c_size c" "wf_chunk c" "extent c \<subseteq> avail a"
    "extent F \<inter> extent c = {}" "ok a1" "F \<in> live a1" "avail a1 = avail a - extent c"
    "\<And>d. d \<in> live a \<Longrightarrow> extent d \<inter> extent c = {}"
    "fr (c_base F) a1 = Some (c_size F, a2)" "ok a2" "live a2 = insert c (live a - {F})"
    "avail a2 \<subseteq> (avail a - extent c) \<union> extent F"
proof (rule al_block [OF assms(1) al])
  fix c assume c: "c_base c = p" "ok a1" "c \<notin> live a" "live a1 = insert c (live a)" "sz \<le> c_size c"
    "wf_chunk c" "extent c \<subseteq> avail a" "avail a1 = avail a - extent c"
    "\<And>d. d \<in> live a \<Longrightarrow> extent d \<inter> extent c = {}"
  have F1: "F \<in> live a1" using F c(4) by simp
  from fr_live [OF c(2) F1 F(2)] obtain a2 where
    a2: "fr (c_base F) a1 = Some (c_size F, a2)" "ok a2" "live a2 = live a1 - {F}" "avail a2 \<subseteq> avail a1 \<union> extent F"
    by blast
  have "live a2 = insert c (live a - {F})" using a2(3) c(3,4) F(1) by auto
  with that c F1 a2 F(1) show ?thesis by simp
qed

end

definition heap_ok :: "allocator \<Rightarrow> bool" where
  "heap_ok a \<longleftrightarrow> alloc_inv a \<and> null_reserved a"

definition heap_bytes :: "allocator \<Rightarrow> nat set" where
  "heap_bytes a = bytes_of (free_set a)"

lemma fresh_null_heap_ok: "heap_ok fresh_null"
  by (simp add: heap_ok_def fresh_null_ok)

lemma bytes_disjoint: "chunks_ok (S \<union> T) \<Longrightarrow> S \<inter> T = {} \<Longrightarrow> bytes_of S \<inter> bytes_of T = {}"
  unfolding bytes_of_def using chunks_ok_disjoint [of "S \<union> T"] by blast

interpretation heap: address_allocator heap_ok used_set heap_bytes alloc_alloc alloc_free grow_in_place
  is_known_allocation find_allocated_size
proof
  show "heap_ok a \<Longrightarrow> chunks_ok (used_set a)" for a
    by (auto simp: heap_ok_def dest: alloc_invD)
  show "heap_ok a \<Longrightarrow> bytes_of (used_set a) \<inter> heap_bytes a = {}" for a
    using bytes_disjoint [of "used_set a" "free_set a"] alloc_invD [of a]
    by (auto simp: heap_ok_def heap_bytes_def)
  show "heap_ok a \<Longrightarrow> is_known_allocation a b \<longleftrightarrow> (\<exists>c \<in> used_set a. c_base c = b)" for a b
    by (simp add: heap_ok_def known_chunk)
  show "heap_ok a \<Longrightarrow> c \<in> used_set a \<Longrightarrow> find_allocated_size a (c_base c) = c_size c" for a c
    by (simp add: heap_ok_def known_chunk_size)
  show "heap_ok a \<Longrightarrow> \<not> is_known_allocation a b \<Longrightarrow> find_allocated_size a b = 0" for a b
    by (auto simp: find_allocated_size_def is_known_allocation_def)
  show "alloc_alloc sz a = Some (0, a) \<or>
        (\<exists>c a'. alloc_alloc sz a = Some (c_base c, a') \<and> c_base c \<noteq> 0 \<and> heap_ok a' \<and> c \<notin> used_set a \<and>
           used_set a' = insert c (used_set a) \<and> sz \<le> c_size c \<and> extent c \<subseteq> heap_bytes a \<and>
           heap_bytes a' = heap_bytes a - extent c)" if "heap_ok a" for a sz
    using alloc_alloc_ok [of a sz] that
    by (auto simp: heap_ok_def heap_bytes_def word_le_nat_alt split: if_splits)
  show "\<exists>a'. alloc_free (c_base F) a = Some (c_size F, a') \<and> heap_ok a' \<and> used_set a' = used_set a - {F} \<and>
      heap_bytes a' \<subseteq> heap_bytes a \<union> extent F" if "heap_ok a" "F \<in> used_set a" "c_base F \<noteq> 0" for a F
    using alloc_free_known [of a F] alloc_free_ok [of a "c_base F"] that
    by (auto simp: heap_ok_def heap_bytes_def split: if_splits)
  show "heap_ok a \<Longrightarrow> \<not> is_known_allocation a b \<Longrightarrow> grow_in_place b old new a = Some (None, a)" for a b old new
    by (simp add: grow_in_place_def is_known_allocation_def Let_def)
  show "\<exists>r a'. grow_in_place (c_base F) (c_size F) new a = Some (r, a') \<and> heap_ok a' \<and>
      (case r of None \<Rightarrow> used_set a' = used_set a \<and> heap_bytes a' = heap_bytes a
       | Some g \<Rightarrow> new \<le> g \<and> used_set a' = insert \<lparr>c_base = c_base F, c_size = g\<rparr> (used_set a - {F}) \<and>
           extent \<lparr>c_base = c_base F, c_size = g\<rparr> \<subseteq> extent F \<union> heap_bytes a \<and>
           heap_bytes a' \<subseteq> heap_bytes a - extent \<lparr>c_base = c_base F, c_size = g\<rparr>)"
    if a: "heap_ok a" "F \<in> used_set a" "c_base F \<noteq> 0" "c_size F < new" for a F new
  proof -
    have inv: "alloc_inv a" "null_reserved a" using a(1) by (simp_all add: heap_ok_def)
    from alloc_grow_ok [OF inv a(2-4)] obtain r a' where
      g: "grow_in_place (c_base F) (c_size F) new a = Some (r, a')" "alloc_inv a'" "null_reserved a'"
        "case r of
       None \<Rightarrow> used_set a' = used_set a \<and> free_set a' = free_set a
     | Some g \<Rightarrow> new \<le> g \<and> used_set a' = insert \<lparr>c_base = c_base F, c_size = g\<rparr> (used_set a - {F}) \<and>
         extent F \<subseteq> extent \<lparr>c_base = c_base F, c_size = g\<rparr> \<and>
         bytes_of (used_set a') \<union> bytes_of (free_set a') = bytes_of (used_set a) \<union> bytes_of (free_set a)"
      by blast
    show ?thesis
    proof (cases r)
      case None
      with g show ?thesis by (auto simp: heap_ok_def heap_bytes_def)
    next
      case (Some gs)
      let ?G = "\<lparr>c_base = c_base F, c_size = gs\<rparr>"
      have used: "used_set a' = insert ?G (used_set a - {F})" and new: "new \<le> gs"
        and ext: "extent F \<subseteq> extent ?G"
        and sum: "bytes_of (used_set a') \<union> bytes_of (free_set a') = bytes_of (used_set a) \<union> bytes_of (free_set a)"
        using g(4) unfolding Some option.case by blast+
      have dis: "bytes_of (used_set a') \<inter> bytes_of (free_set a') = {}"
        using bytes_disjoint alloc_invD(3,4) [OF g(2)] by blast
      have ok': "chunks_ok (used_set a')" by (rule alloc_invD(5) [OF g(2)])
      have "bytes_of {?G} \<inter> bytes_of (used_set a - {F}) = {}"
      proof (cases "?G \<in> used_set a - {F}")
        case True
        then have "?G = F" using chunks_ok_base [OF alloc_invD(5) [OF inv(1)], of ?G F] a(2) by auto
        with True show ?thesis by simp
      next
        case False
        then show ?thesis using ok' unfolding used by (intro bytes_disjoint) auto
      qed
      moreover have "bytes_of (used_set a) = extent F \<union> bytes_of (used_set a - {F})"
        using a(2) by (auto simp: bytes_of_def)
      ultimately have *: "extent ?G \<inter> bytes_of (used_set a - {F}) = {}"
        "bytes_of (used_set a) = extent F \<union> bytes_of (used_set a - {F})"
        "extent ?G \<union> bytes_of (used_set a - {F}) \<union> bytes_of (free_set a') = bytes_of (used_set a) \<union> bytes_of (free_set a)"
        "(extent ?G \<union> bytes_of (used_set a - {F})) \<inter> bytes_of (free_set a') = {}"
        using sum dis unfolding used by simp_all
      have "extent ?G \<subseteq> extent F \<union> bytes_of (free_set a)" using *(1-3) by blast
      moreover have "bytes_of (free_set a') \<subseteq> bytes_of (free_set a) - extent ?G" using *(2-4) ext by blast
      ultimately show ?thesis using g(1-3) Some used new by (auto simp: heap_ok_def heap_bytes_def)
    qed
  qed
qed

text \<open>
  C18: \<open>alloc\<close> never panics and keeps the allocator invariant.  It either returns a chunk taken from
  free bytes only (so disjoint from every live allocation and from the null segment), at least as
  large as the request and less than a page and 16 bytes larger (counting a request of less than 16
  bytes as 16), and then exactly those bytes leave the free list; or it returns null, changes nothing, and no free chunk could hold the rounded request.
\<close>

theorem alloc_correct:
  assumes "alloc_inv a" and "null_reserved a"
  shows "\<exists>p a'. alloc_alloc sz a = Some (p, a') \<and> alloc_inv a' \<and> null_reserved a' \<and>
    (if p = 0 then a' = a \<and> (case aligned_request sz of None \<Rightarrow> 2 ^ 32 \<le> unat sz + 4096
                              | Some n \<Rightarrow> \<forall>c \<in> free_set a. cs c < unat n)
     else \<exists>c. c_base c = p \<and> c \<notin> used_set a \<and> used_set a' = insert c (used_set a) \<and>
       unat sz \<le> cs c \<and> cs c < max (unat sz) 16 + 4096 + 16 \<and>
       extent c \<subseteq> bytes_of (free_set a) \<and>
       bytes_of (free_set a') = bytes_of (free_set a) - extent c)"
  using assms by (rule alloc_alloc_ok)

theorem alloc_correct_witness:
  "\<exists>p a'. alloc_alloc 100 fresh_null = Some (p, a') \<and> alloc_inv a'"
  using alloc_correct [OF fresh_null_ok(2,4), of 100] by blast

text \<open>
  C19: \<open>free\<close> of a live allocation at an address other than 0 never panics, keeps the invariant, takes exactly that chunk out
  of the live ones, returns its size, and gives its bytes (all of them, when the chunk is not a
  sliver below the minimum chunk size) and nothing but them to the free list, whether it is
  merged with a neighbour or not.  Of any other address but 0 it changes nothing and returns 0.
\<close>

theorem free_correct:
  assumes "alloc_inv a" and "null_reserved a" and "b \<noteq> 0"
  shows "if is_known_allocation a b
    then \<exists>F a'. F \<in> used_set a \<and> c_base F = b \<and> alloc_free b a = Some (c_size F, a') \<and>
      alloc_inv a' \<and> null_reserved a' \<and> used_set a' = used_set a - {F} \<and>
      bytes_of (free_set a') \<subseteq> bytes_of (free_set a) \<union> extent F \<and>
      (16 \<le> cs F \<longrightarrow> bytes_of (free_set a') = bytes_of (free_set a) \<union> extent F)
    else alloc_free b a = Some (0, a)"
  using assms by (rule alloc_free_ok)

theorem free_correct_witness:
  "(MAIN_THREAD_STACK_LOW_END :: u32) \<noteq> 0 \<and>
   (\<exists>r. alloc_free MAIN_THREAD_STACK_LOW_END fresh_null = Some r)"
proof -
  have "(MAIN_THREAD_STACK_LOW_END :: u32) \<noteq> 0" by (simp add: alloc_consts)
  then show ?thesis
    using free_correct [OF fresh_null_ok(2,4), of MAIN_THREAD_STACK_LOW_END]
    by (auto split: if_splits)
qed

text \<open>
  growing a live allocation in place never panics and keeps the invariant.  A refusal leaves
  the live and the free chunks as they were; a success keeps the base, reports the new size, which is
  at least the requested one, changes no other live allocation, and only exchanges bytes between the
  allocation and the free chunks.
\<close>

theorem grow_in_place_correct:
  assumes "alloc_inv a" and "null_reserved a" and "F \<in> used_set a" and "c_base F \<noteq> 0" and "c_size F < new"
  shows "\<exists>r a'. grow_in_place (c_base F) (c_size F) new a = Some (r, a') \<and> alloc_inv a' \<and> null_reserved a' \<and>
    (case r of
       None \<Rightarrow> used_set a' = used_set a \<and> free_set a' = free_set a
     | Some g \<Rightarrow> new \<le> g \<and> used_set a' = insert \<lparr>c_base = c_base F, c_size = g\<rparr> (used_set a - {F}) \<and>
         extent F \<subseteq> extent \<lparr>c_base = c_base F, c_size = g\<rparr> \<and>
         bytes_of (used_set a') \<union> bytes_of (free_set a') = bytes_of (used_set a) \<union> bytes_of (free_set a))"
  using assms by (rule alloc_grow_ok)

theorem grow_in_place_correct_witness:
  "\<exists>r. grow_in_place MAIN_THREAD_STACK_LOW_END MAIN_THREAD_STACK_SIZE 0x200000 fresh_null = Some r"
proof -
  let ?F = "\<lparr>c_base = MAIN_THREAD_STACK_LOW_END, c_size = MAIN_THREAD_STACK_SIZE\<rparr>"
  have "?F \<in> used_set fresh_null" by (simp add: fresh_null_ok(5) fresh_ok(3))
  from grow_in_place_correct [OF fresh_null_ok(2,4) this, of "0x200000"] show ?thesis
    by (auto simp: alloc_consts word_less_nat_alt)
qed

text \<open>
  \<open>reserve\<close> of a chunk that ends on a page never panics and keeps the invariant.  When one free
  chunk holds the range, the range becomes live and the free bytes lose exactly the range, up to
  fragments of less than the minimum chunk size on its two sides; otherwise nothing changes.
\<close>

theorem reserve_correct:
  assumes "alloc_inv a" and "wf_chunk c" and "page_aligned (last_byte c + 1)"
  shows "\<exists>a'. alloc_reserve c a = Some a' \<and> alloc_inv a' \<and>
    (if \<exists>t \<in> free_set a. extent c \<subseteq> extent t
     then used_set a' = insert c (used_set a) \<and>
       bytes_of (free_set a') \<subseteq> bytes_of (free_set a) - extent c \<and>
       (\<forall>x \<in> bytes_of (free_set a) - extent c - bytes_of (free_set a'). cb c \<le> x + 15 \<and> x < cb c + cs c + 15)
     else a' = a)"
  using assms by (rule alloc_reserve_ok)

theorem reserve_correct_witness:
  "\<exists>a'. alloc_reserve null_chunk fresh = Some a' \<and> alloc_inv a'"
  using reserve_correct [OF fresh_ok(2) wf_null_chunk(1)]
  by (auto simp: null_chunk_def last_byte_def alloc_consts page_aligned_def)

end
