(* ===== verification/GuestMem.thy ===== *)
theory GuestMem
  imports Allocator
begin

text \<open>
  The guest memory (\<open>src/mem.rs\<close>): pointers with wrapping arithmetic, the byte array with its
  null segment, stub page and write sink, typed reads and writes, \<open>memmove\<close>, the heap entry
  points over the allocator and the C string readers.  The host page allocations of \<open>Mem::new\<close>
  are taken to succeed; logging is left out.
\<close>

section \<open>Pointers\<close>

definition Ptr_add :: "u32 \<Rightarrow> vaddr \<Rightarrow> u32 \<Rightarrow> vaddr option" where
  "Ptr_add elem_size p other = do {
     expect (elem_size \<noteq> 0);
     Some (p + other * elem_size)
   }"

definition Ptr_sub :: "u32 \<Rightarrow> vaddr \<Rightarrow> u32 \<Rightarrow> vaddr option" where
  "Ptr_sub elem_size p other = do {
     expect (elem_size \<noteq> 0);
     Some (p - other * elem_size)
   }"

definition NonNullPtr_try_from_bits :: "vaddr \<Rightarrow> vaddr option" where
  "NonNullPtr_try_from_bits bits = (if bits = 0 then None else Some bits)"

section \<open>State\<close>

text \<open>
  \<open>mem_bytes\<close> is the array of 4 GiB and one page.  The stub page is all zeros and nothing writes
  to it, so it has no field; the write sink is a page of its own.
\<close>

record mem =
  mem_bytes :: "nat \<Rightarrow> u8"
  null_segment_size :: vaddr
  mem_allocator :: allocator
  zero_memory_on_free :: bool
  null_write_sink :: "nat \<Rightarrow> u8"

definition BYTES_LEN :: nat where "BYTES_LEN = 2 ^ 32 + 4096"

definition Mem_new :: "mem option" where
  "Mem_new = do {
     a \<leftarrow> Allocator_new;
     Some \<lparr>mem_bytes = (\<lambda>_. 0), null_segment_size = 0, mem_allocator = a,
       zero_memory_on_free = True, null_write_sink = (\<lambda>_. 0)\<rparr>
   }"

definition Mem_reserve :: "vaddr \<Rightarrow> u32 \<Rightarrow> mem \<Rightarrow> mem option" where
  "Mem_reserve base sz m =
     (if sz = 0 then Some m
      else do {
        c \<leftarrow> Chunk_new base sz;
        a \<leftarrow> alloc_reserve c (mem_allocator m);
        Some (m\<lparr>mem_allocator := a\<rparr>)
      })"

definition set_null_segment_size :: "vaddr \<Rightarrow> mem \<Rightarrow> mem option" where
  "set_null_segment_size new_size m = do {
     expect (null_segment_size m = 0);
     expect (unat new_size mod 0x1000 = 0);
     c \<leftarrow> Chunk_new 0 new_size;
     a \<leftarrow> alloc_reserve c (mem_allocator m);
     Some (m\<lparr>mem_allocator := a, null_segment_size := new_size\<rparr>)
   }"

section \<open>Slices\<close>

text \<open>
  A slice is a place: an offset and a length in the array, in the stub page or in the write sink.
\<close>

datatype slice = In_bytes nat nat | In_stub nat nat | In_sink nat nat

fun slice_len :: "slice \<Rightarrow> nat" where
  "slice_len (In_bytes off n) = n"
| "slice_len (In_stub off n) = n"
| "slice_len (In_sink off n) = n"

fun slice_get :: "mem \<Rightarrow> slice \<Rightarrow> nat \<Rightarrow> u8" where
  "slice_get m (In_bytes off n) i = mem_bytes m (off + i)"
| "slice_get m (In_stub off n) i = 0"
| "slice_get m (In_sink off n) i = null_write_sink m (off + i)"

definition slice_list :: "mem \<Rightarrow> slice \<Rightarrow> u8 list" where
  "slice_list m s = map (slice_get m s) [0..<slice_len s]"

definition poke :: "nat \<Rightarrow> u8 list \<Rightarrow> (nat \<Rightarrow> u8) \<Rightarrow> nat \<Rightarrow> u8" where
  "poke off xs f = (\<lambda>i. if off \<le> i \<and> i < off + length xs then xs ! (i - off) else f i)"

text \<open>Writing a list of bytes at an offset of a slice; no code writes to the stub page.\<close>

fun slice_put :: "slice \<Rightarrow> nat \<Rightarrow> u8 list \<Rightarrow> mem \<Rightarrow> mem" where
  "slice_put (In_bytes off n) k xs m = m\<lparr>mem_bytes := poke (off + k) xs (mem_bytes m)\<rparr>"
| "slice_put (In_stub off n) k xs m = m"
| "slice_put (In_sink off n) k xs m = m\<lparr>null_write_sink := poke (off + k) xs (null_write_sink m)\<rparr>"

definition slice_fill0 :: "slice \<Rightarrow> mem \<Rightarrow> mem" where
  "slice_fill0 s m = slice_put s 0 (replicate (slice_len s) 0) m"

definition stub_part :: "vaddr \<Rightarrow> u32 \<Rightarrow> nat \<times> nat" where
  "stub_part ptr cnt =
     (let offset = unat (ptr mod PAGE_SIZE) in
      (offset, min (unat cnt) (unat PAGE_SIZE - offset)))"

definition out_of_bytes :: "vaddr \<Rightarrow> u32 \<Rightarrow> bool" where
  "out_of_bytes ptr cnt \<longleftrightarrow>
     (let addr = unat ptr; end = addr + unat cnt in end > BYTES_LEN \<or> end < addr)"

definition unchecked_bytes_at :: "mem \<Rightarrow> vaddr \<Rightarrow> u32 \<Rightarrow> slice" where
  "unchecked_bytes_at m ptr cnt =
     (if out_of_bytes ptr cnt then (case stub_part ptr cnt of (off, n) \<Rightarrow> In_stub off n)
      else In_bytes (unat ptr) (unat cnt))"

definition bytes_at :: "mem \<Rightarrow> vaddr \<Rightarrow> u32 \<Rightarrow> slice" where
  "bytes_at m ptr cnt =
     (if ptr < null_segment_size m then (case stub_part ptr cnt of (off, n) \<Rightarrow> In_stub off n)
      else if out_of_bytes ptr cnt then (case stub_part ptr cnt of (off, n) \<Rightarrow> In_stub off n)
      else In_bytes (unat ptr) (unat cnt))"

definition bytes_at_mut :: "mem \<Rightarrow> vaddr \<Rightarrow> u32 \<Rightarrow> slice" where
  "bytes_at_mut m ptr cnt =
     (if ptr < null_segment_size m then (case stub_part ptr cnt of (off, n) \<Rightarrow> In_sink off n)
      else if out_of_bytes ptr cnt then (case stub_part ptr cnt of (off, n) \<Rightarrow> In_sink off n)
      else In_bytes (unat ptr) (unat cnt))"

definition get_bytes_fallible :: "mem \<Rightarrow> vaddr \<Rightarrow> u32 \<Rightarrow> slice option" where
  "get_bytes_fallible m addr cnt =
     (if addr < null_segment_size m
      then (let offset = unat (addr mod PAGE_SIZE) in
            Some (In_stub offset (min (unat cnt) (unat PAGE_SIZE - offset))))
      else if unat addr \<le> BYTES_LEN \<and> unat cnt \<le> BYTES_LEN - unat addr
      then Some (In_bytes (unat addr) (unat cnt))
      else None)"

definition get_bytes_fallible_mut :: "mem \<Rightarrow> vaddr \<Rightarrow> u32 \<Rightarrow> slice option" where
  "get_bytes_fallible_mut m addr cnt =
     (if addr < null_segment_size m then None
      else if unat addr \<le> BYTES_LEN \<and> unat cnt \<le> BYTES_LEN - unat addr
      then Some (In_bytes (unat addr) (unat cnt))
      else None)"

section \<open>Typed access\<close>

text \<open>
  A value of a type of \<open>size\<close> bytes is read from the pointer of a slice.  When the slice is shorter
  than the type (at the end of the stub page) the host reads past the page: that is \<open>None\<close>.
  A write past the end of the write sink likewise.
\<close>

definition checked_mul_u32 :: "u32 \<Rightarrow> u32 \<Rightarrow> u32 option" where
  "checked_mul_u32 a b = (if unat a * unat b < 2 ^ 32 then Some (a * b) else None)"

definition ptr_at :: "mem \<Rightarrow> u32 \<Rightarrow> vaddr \<Rightarrow> u32 \<Rightarrow> slice option" where
  "ptr_at m elem_size ptr cnt = do {
     sz \<leftarrow> checked_mul_u32 cnt elem_size;
     Some (bytes_at m ptr sz)
   }"

definition ptr_at_mut :: "mem \<Rightarrow> u32 \<Rightarrow> vaddr \<Rightarrow> u32 \<Rightarrow> slice option" where
  "ptr_at_mut m elem_size ptr cnt = do {
     sz \<leftarrow> checked_mul_u32 cnt elem_size;
     Some (bytes_at_mut m ptr sz)
   }"

definition unchecked_ptr_at :: "mem \<Rightarrow> u32 \<Rightarrow> vaddr \<Rightarrow> u32 \<Rightarrow> slice option" where
  "unchecked_ptr_at m elem_size ptr cnt = do {
     sz \<leftarrow> checked_mul_u32 cnt elem_size;
     Some (unchecked_bytes_at m ptr sz)
   }"

definition read_raw :: "mem \<Rightarrow> u32 \<Rightarrow> vaddr \<Rightarrow> u8 list option" where
  "read_raw m sz ptr = do {
     s \<leftarrow> ptr_at m sz ptr 1;
     expect (unat sz \<le> slice_len s);
     Some (map (slice_get m s) [0..<unat sz])
   }"

definition write_raw :: "vaddr \<Rightarrow> u8 list \<Rightarrow> mem \<Rightarrow> mem option" where
  "write_raw ptr xs m = do {
     expect (xs \<noteq> []);
     let s = bytes_at_mut m ptr (of_nat (length xs));
     expect (length xs \<le> slice_len s);
     Some (slice_put s 0 xs m)
   }"

text \<open>Little-endian values.\<close>

definition le_bytes :: "nat \<Rightarrow> 'a::len word \<Rightarrow> u8 list" where
  "le_bytes n v = map (\<lambda>i. ucast (drop_bit (8 * i) v)) [0..<n]"

definition of_le :: "u8 list \<Rightarrow> 'a::len word" where
  "of_le xs = foldr (\<lambda>b v. ucast b OR push_bit 8 v) xs 0"

definition read_u8 :: "mem \<Rightarrow> vaddr \<Rightarrow> u8 option" where
  "read_u8 m p = map_option of_le (read_raw m 1 p)"

definition read_u16 :: "mem \<Rightarrow> vaddr \<Rightarrow> u16 option" where
  "read_u16 m p = map_option of_le (read_raw m 2 p)"

definition read_u32 :: "mem \<Rightarrow> vaddr \<Rightarrow> u32 option" where
  "read_u32 m p = map_option of_le (read_raw m 4 p)"

definition read_u64 :: "mem \<Rightarrow> vaddr \<Rightarrow> u64 option" where
  "read_u64 m p = map_option of_le (read_raw m 8 p)"

definition write_u8 :: "vaddr \<Rightarrow> u8 \<Rightarrow> mem \<Rightarrow> mem option" where
  "write_u8 p v = write_raw p (le_bytes 1 v)"

definition write_u16 :: "vaddr \<Rightarrow> u16 \<Rightarrow> mem \<Rightarrow> mem option" where
  "write_u16 p v = write_raw p (le_bytes 2 v)"

definition write_u32 :: "vaddr \<Rightarrow> u32 \<Rightarrow> mem \<Rightarrow> mem option" where
  "write_u32 p v = write_raw p (le_bytes 4 v)"

definition write_u64 :: "vaddr \<Rightarrow> u64 \<Rightarrow> mem \<Rightarrow> mem option" where
  "write_u64 p v = write_raw p (le_bytes 8 v)"

section \<open>memmove\<close>

definition memmove_skips :: "vaddr \<Rightarrow> vaddr \<Rightarrow> u32 \<Rightarrow> bool" where
  "memmove_skips dest src sz \<longleftrightarrow>
     sz \<ge> 0x80000000 \<or> (src = 0 \<and> sz > 0) \<or>
     unat src + unat sz > BYTES_LEN \<or> unat dest + unat sz > BYTES_LEN"

definition memmove :: "vaddr \<Rightarrow> vaddr \<Rightarrow> u32 \<Rightarrow> mem \<Rightarrow> mem" where
  "memmove dest src sz m =
     (if memmove_skips dest src sz then m
      else m\<lparr>mem_bytes := poke (unat dest) (map (mem_bytes m) [unat src..<unat src + unat sz]) (mem_bytes m)\<rparr>)"

section \<open>The heap\<close>

definition Mem_alloc :: "u32 \<Rightarrow> mem \<Rightarrow> (vaddr \<times> mem) option" where
  "Mem_alloc sz m = do {
     (ptr, a) \<leftarrow> alloc_alloc sz (mem_allocator m);
     let m1 = m\<lparr>mem_allocator := a\<rparr>;
     let m2 = (if \<not> zero_memory_on_free m1 then slice_fill0 (bytes_at_mut m1 ptr sz) m1 else m1);
     Some (ptr, m2)
   }"

definition Mem_calloc :: "u32 \<Rightarrow> mem \<Rightarrow> (vaddr \<times> mem) option" where
  "Mem_calloc sz m = do {
     (ptr, m1) \<leftarrow> Mem_alloc sz m;
     Some (ptr, slice_fill0 (bytes_at_mut m1 ptr sz) m1)
   }"

definition malloc_size :: "mem \<Rightarrow> vaddr \<Rightarrow> u32" where
  "malloc_size m ptr =
     (if ptr = 0 then 0
      else case try_find_allocated_size (mem_allocator m) ptr of None \<Rightarrow> 0 | Some sz \<Rightarrow> sz)"

definition Mem_live_allocations :: "mem \<Rightarrow> (vaddr \<times> u32) list" where
  "Mem_live_allocations m = live_allocations (mem_allocator m)"

definition corrupt_byte :: "vaddr \<Rightarrow> u8 \<Rightarrow> mem \<Rightarrow> (u8 \<times> mem) option" where
  "corrupt_byte addr v m =
     (let s = bytes_at_mut m addr 1 in do {
       expect (0 < slice_len s);
       Some (slice_get m s 0, slice_put s 0 [v] m)
     })"

definition Mem_free :: "vaddr \<Rightarrow> mem \<Rightarrow> mem option" where
  "Mem_free ptr m =
     (if ptr = 0 then Some m
      else if ptr = 0x7461736b then Some m
      else if \<not> is_known_allocation (mem_allocator m) ptr then Some m
      else do {
        (sz, a) \<leftarrow> alloc_free ptr (mem_allocator m);
        let m1 = m\<lparr>mem_allocator := a\<rparr>;
        Some (if zero_memory_on_free m1 then slice_fill0 (bytes_at_mut m1 ptr sz) m1 else m1)
      })"

definition Mem_realloc :: "vaddr \<Rightarrow> u32 \<Rightarrow> mem \<Rightarrow> (vaddr \<times> mem) option" where
  "Mem_realloc old_ptr sz m =
     (if old_ptr = 0 then Mem_alloc sz m
      else let old_size = find_allocated_size (mem_allocator m) old_ptr in
        if old_size \<ge> sz then Some (old_ptr, m)
        else do {
          (grown, a) \<leftarrow> grow_in_place old_ptr old_size sz (mem_allocator m);
          let m0 = m\<lparr>mem_allocator := a\<rparr>;
          case grown of
            Some grown_size \<Rightarrow>
              if zero_memory_on_free m0 then do {
                let s = bytes_at_mut m0 old_ptr grown_size;
                expect (unat old_size \<le> slice_len s);
                Some (old_ptr, slice_put s (unat old_size) (replicate (slice_len s - unat old_size) 0) m0)
              } else Some (old_ptr, m0)
          | None \<Rightarrow> do {
              (new_ptr, m1) \<leftarrow> Mem_alloc sz m0;
              let m2 = memmove new_ptr old_ptr old_size m1;
              m3 \<leftarrow> Mem_free old_ptr m2;
              Some (new_ptr, m3)
            }
        })"

definition alloc_and_write :: "u8 list \<Rightarrow> mem \<Rightarrow> (vaddr \<times> mem) option" where
  "alloc_and_write xs m = do {
     (ptr, m1) \<leftarrow> Mem_alloc (of_nat (length xs)) m;
     m2 \<leftarrow> write_raw ptr xs m1;
     Some (ptr, m2)
   }"

definition alloc_and_write_cstr :: "u8 list \<Rightarrow> mem \<Rightarrow> (vaddr \<times> mem) option" where
  "alloc_and_write_cstr xs m = do {
     expect (length xs < 2 ^ 32);
     let len = of_nat (length xs);
     (ptr, m1) \<leftarrow> Mem_alloc (len + 1) m;
     let s = bytes_at_mut m1 ptr len;
     expect (slice_len s = length xs);
     m2 \<leftarrow> write_u8 (ptr + len) 0 (slice_put s 0 xs m1);
     Some (ptr, m2)
   }"

section \<open>C strings\<close>

text \<open>A read of one byte never fails (\<open>read_u8_Some\<close> below), so the scan has no error case.\<close>

definition byte_at :: "mem \<Rightarrow> vaddr \<Rightarrow> u8" where
  "byte_at m p = slice_get m (bytes_at m p 1) 0"

function cstr_scan :: "mem \<Rightarrow> vaddr \<Rightarrow> nat \<Rightarrow> nat \<Rightarrow> nat" where
  "cstr_scan m ptr max_len len =
     (if byte_at m (ptr + of_nat len) = 0 then len
      else if len + 1 \<ge> max_len then len + 1
      else cstr_scan m ptr max_len (len + 1))"
  by pat_completeness auto
termination by (relation "measure (\<lambda>(m, ptr, max_len, len). max_len - len)") auto

declare cstr_scan.simps [simp del]

definition cstr_at_with_max_len :: "mem \<Rightarrow> vaddr \<Rightarrow> u32 \<Rightarrow> u8 list" where
  "cstr_at_with_max_len m ptr max_len =
     slice_list m (bytes_at m ptr (of_nat (cstr_scan m ptr (unat max_len) 0)))"

definition cstr_at :: "mem \<Rightarrow> vaddr \<Rightarrow> u8 list" where
  "cstr_at m ptr = cstr_at_with_max_len m ptr 65536"

definition MAX_WCSTR_LEN :: nat where "MAX_WCSTR_LEN = 16384"

function wcstr_scan :: "mem \<Rightarrow> vaddr \<Rightarrow> nat \<Rightarrow> nat option" where
  "wcstr_scan m ptr len = do {
     c \<leftarrow> read_u32 m (ptr + of_nat len * 4);
     if c = 0 then Some len
     else if len + 1 \<ge> MAX_WCSTR_LEN then Some (len + 1)
     else wcstr_scan m ptr (len + 1)
   }"
  by pat_completeness auto
termination by (relation "measure (\<lambda>(m, ptr, len). MAX_WCSTR_LEN - len)") auto

declare wcstr_scan.simps [simp del]

text \<open>A scalar value: not a surrogate and at most \<open>U+10FFFF\<close>.\<close>

definition char_from_u32 :: "u32 \<Rightarrow> u32 option" where
  "char_from_u32 c = (if c \<ge> 0x110000 \<or> (c \<ge> 0xD800 \<and> c \<le> 0xDFFF) then None else Some c)"

fun chunks4 :: "u8 list \<Rightarrow> u8 list list" where
  "chunks4 (a # b # c # d # xs) = [a, b, c, d] # chunks4 xs"
| "chunks4 xs = []"

definition wcstr_at :: "mem \<Rightarrow> vaddr \<Rightarrow> u32 list option" where
  "wcstr_at m ptr = do {
     len \<leftarrow> wcstr_scan m ptr 0;
     let bytes = slice_list m (bytes_at m ptr (of_nat len * 4));
     Some (map (\<lambda>ch. case char_from_u32 (of_le ch) of None \<Rightarrow> 0xFFFD | Some c \<Rightarrow> c) (chunks4 bytes))
   }"

text \<open>The host pointer is an address, the array of the guest memory starts at \<open>start\<close>.\<close>

definition is_host_ptr_in_guest_mem :: "nat \<Rightarrow> nat \<Rightarrow> bool" where
  "is_host_ptr_in_guest_mem start host_ptr \<longleftrightarrow> start \<le> host_ptr \<and> host_ptr < start + BYTES_LEN"

definition host_ptr_to_guest_ptr :: "nat \<Rightarrow> nat \<Rightarrow> vaddr option" where
  "host_ptr_to_guest_ptr start host_ptr = do {
     expect (start \<le> host_ptr \<and> host_ptr < start + BYTES_LEN);
     Some (of_nat (host_ptr - start))
   }"

section \<open>Access\<close>

lemma BYTES_LEN_ge: "unat (p :: u32) + n \<le> BYTES_LEN" if "n \<le> 4096"
proof -
  have "BYTES_LEN = 4294967296 + 4096" by (simp add: BYTES_LEN_def)
  moreover have "unat p < 4294967296" by simp
  ultimately show ?thesis using that by linarith
qed

lemma out_of_bytes_iff: "out_of_bytes p n \<longleftrightarrow> BYTES_LEN < unat p + unat n"
  by (auto simp: out_of_bytes_def Let_def)

lemma stub_part_len: "stub_part p n = (unat p mod 4096, min (unat n) (4096 - unat p mod 4096))"
  by (simp add: stub_part_def Let_def PAGE_SIZE_def unat_mod)

lemma bytes_at_array:
  "null_segment_size m \<le> p \<Longrightarrow> unat p + unat n \<le> BYTES_LEN \<Longrightarrow>
     bytes_at m p n = In_bytes (unat p) (unat n) \<and> bytes_at_mut m p n = In_bytes (unat p) (unat n)"
  by (auto simp: bytes_at_def bytes_at_mut_def out_of_bytes_iff)

lemma bytes_at_null:
  "p < null_segment_size m \<Longrightarrow>
     bytes_at m p n = In_stub (unat p mod 4096) (min (unat n) (4096 - unat p mod 4096)) \<and>
     bytes_at_mut m p n = In_sink (unat p mod 4096) (min (unat n) (4096 - unat p mod 4096))"
  by (auto simp: bytes_at_def bytes_at_mut_def stub_part_len)

lemma poke_in [simp]: "i < length xs \<Longrightarrow> poke off xs f (off + i) = xs ! i"
  by (simp add: poke_def)

lemma poke_out: "i < off \<or> off + length xs \<le> i \<Longrightarrow> poke off xs f i = f i"
  by (auto simp: poke_def)

lemma map_poke: "map (poke off xs f) [off..<off + length xs] = xs"
  by (intro nth_equalityI) simp_all

lemma ptr_at_one: "ptr_at m sz p 1 = Some (bytes_at m p sz)"
  by (simp add: ptr_at_def checked_mul_u32_def)

lemma read_raw_eq:
  "read_raw m sz p = (let s = bytes_at m p sz in
     if unat sz \<le> slice_len s then Some (map (slice_get m s) [0..<unat sz]) else None)"
  by (simp add: read_raw_def ptr_at_one Let_def panic_simps)

lemma map_offset: "map (\<lambda>i. f (off + i)) [0..<n] = map f [off..<off + n]"
  by (intro nth_equalityI) simp_all

lemma slice_get_array: "slice_get m (In_bytes off n) = (\<lambda>i. mem_bytes m (off + i))"
  by (rule ext) simp

lemma read_raw_array:
  assumes "null_segment_size m \<le> p" and "unat p + unat sz \<le> BYTES_LEN"
  shows "read_raw m sz p = Some (map (mem_bytes m) [unat p..<unat p + unat sz])"
  using bytes_at_array [OF assms] map_offset [of "mem_bytes m" "unat p" "unat sz"]
  by (simp add: read_raw_eq slice_get_array)

lemma write_raw_array:
  assumes "null_segment_size m \<le> p" and "unat p + length xs \<le> BYTES_LEN" and "xs \<noteq> []" "length xs < 2 ^ 32"
  shows "write_raw p xs m = Some (m\<lparr>mem_bytes := poke (unat p) xs (mem_bytes m)\<rparr>)"
  using bytes_at_array [of m p "of_nat (length xs)"] assms
  by (simp add: write_raw_def unat_of_nat panic_simps)

section \<open>Little-endian values\<close>

lemma le_bytes_Suc: "le_bytes (Suc n) v = ucast v # le_bytes n (drop_bit 8 v)"
  by (simp add: le_bytes_def upt_conv_Cons map_Suc_upt [symmetric] add.commute del: upt_Suc)

lemma le_bytes_0: "le_bytes 0 v = []"
  by (simp add: le_bytes_def)

lemma length_le_bytes [simp]: "length (le_bytes n v) = n"
  by (simp add: le_bytes_def)

lemma take_bit_split_word:
  "take_bit (k + n) v = take_bit n v OR push_bit n (take_bit k (drop_bit n v))"
  for v :: "'a::len word"
  by (rule bit_eqI) (auto simp: bit_simps)

lemma ucast_u8_back: "(ucast (ucast v :: u8) :: 'a::len word) = take_bit 8 v"
  for v :: "'a::len word"
  by (rule bit_eqI) (auto simp: bit_simps)

lemma of_le_bytes: "of_le (le_bytes n v) = take_bit (8 * n) v"
proof (induction n arbitrary: v)
  case 0
  then show ?case by (simp add: le_bytes_0 of_le_def)
next
  case (Suc n)
  have "of_le (le_bytes (Suc n) v) = ucast (ucast v :: u8) OR push_bit 8 (of_le (le_bytes n (drop_bit 8 v)))"
    by (simp add: le_bytes_Suc of_le_def)
  also have "\<dots> = take_bit 8 v OR push_bit 8 (take_bit (8 * n) (drop_bit 8 v))"
    by (simp add: Suc.IH ucast_u8_back)
  also have "\<dots> = take_bit (8 * n + 8) v" by (rule take_bit_split_word [symmetric])
  finally show ?case by (simp add: add.commute)
qed

lemma of_le_whole: "of_le (le_bytes n v) = v" if "LENGTH('a) = 8 * n" for v :: "'a::len word"
  unfolding of_le_bytes using that take_bit_length_eq [of v] by simp

lemma write_read_raw:
  assumes p: "null_segment_size m \<le> p" and xs: "xs \<noteq> []" "length xs \<le> 4096"
  shows "\<exists>m'. write_raw p xs m = Some m' \<and> read_raw m' (of_nat (length xs)) p = Some xs \<and>
    null_segment_size m' = null_segment_size m \<and> mem_allocator m' = mem_allocator m \<and>
    (\<forall>i. i < unat p \<or> unat p + length xs \<le> i \<longrightarrow> mem_bytes m' i = mem_bytes m i)"
proof -
  let ?m = "m\<lparr>mem_bytes := poke (unat p) xs (mem_bytes m)\<rparr>"
  have len: "unat (of_nat (length xs) :: u32) = length xs" using xs(2) by (simp add: unat_of_nat)
  have w: "write_raw p xs m = Some ?m"
    using p BYTES_LEN_ge xs by (intro write_raw_array) auto
  have "read_raw ?m (of_nat (length xs)) p = Some xs"
    using read_raw_array [of ?m p "of_nat (length xs)"] p BYTES_LEN_ge [OF xs(2), of p] len
    by (simp add: map_poke)
  with w show ?thesis by (auto simp: poke_out)
qed

lemma read_raw_null:
  assumes "p < null_segment_size m" 
  shows "read_raw m sz p =
    (if unat p mod 4096 + unat sz \<le> 4096 then Some (replicate (unat sz) 0) else None)"
proof -
  have "unat p mod 4096 < 4096" by simp
  then show ?thesis
    using bytes_at_null [OF assms, of sz] by (auto simp: read_raw_eq Let_def intro!: nth_equalityI)
qed

lemma write_raw_null:
  assumes "p < null_segment_size m" and "length xs < 2 ^ 32"
  shows "write_raw p xs m =
    (if xs \<noteq> [] \<and> unat p mod 4096 + length xs \<le> 4096
     then Some (m\<lparr>null_write_sink := poke (unat p mod 4096) xs (null_write_sink m)\<rparr>) else None)"
proof -
  have "unat p mod 4096 < 4096" by simp
  then show ?thesis
    using bytes_at_null [OF assms(1), of "of_nat (length xs)"] assms(2)
    by (auto simp: write_raw_def panic_simps unat_of_nat Let_def)
qed

lemma byte_at_eq: "byte_at m p = (if p < null_segment_size m then 0 else mem_bytes m (unat p))"
  using bytes_at_null [of p m 1] bytes_at_array [of m p 1] BYTES_LEN_ge [of 1 p]
  by (auto simp: byte_at_def)

lemma read_u8_Some: "read_u8 m p = Some (byte_at m p)"
proof (cases "p < null_segment_size m")
  case True
  have "unat p mod 4096 + 1 \<le> 4096" by (simp add: Suc_le_eq)
  with True show ?thesis by (simp add: read_u8_def read_raw_null byte_at_eq of_le_def)
next
  case False
  then have "read_raw m 1 p = Some [mem_bytes m (unat p)]"
    using BYTES_LEN_ge [of 1 p] by (subst read_raw_array) auto
  with False show ?thesis by (simp add: read_u8_def byte_at_eq of_le_def)
qed

text \<open>
  a 32-bit value written outside the null segment reads back as itself (up to and across the
  end of the 4 GiB address space), and no byte outside its four changes; the same holds of its
  bytes as a string of bytes.
\<close>

theorem write_read_u32:
  assumes "null_segment_size m \<le> p"
  shows "\<exists>m'. write_u32 p v m = Some m' \<and> read_u32 m' p = Some v \<and> mem_allocator m' = mem_allocator m \<and>
    (\<forall>i. i < unat p \<or> unat p + 4 \<le> i \<longrightarrow> mem_bytes m' i = mem_bytes m i)"
proof -
  have "le_bytes 4 v \<noteq> []" using length_le_bytes [of 4 v] by fastforce
  from write_read_raw [OF assms this] obtain m' where
    "write_raw p (le_bytes 4 v) m = Some m'" "read_raw m' 4 p = Some (le_bytes 4 v)"
    "mem_allocator m' = mem_allocator m"
    "\<forall>i. i < unat p \<or> unat p + 4 \<le> i \<longrightarrow> mem_bytes m' i = mem_bytes m i" by auto
  moreover have "of_le (le_bytes 4 v) = v" by (rule of_le_whole) simp
  ultimately show ?thesis by (simp add: write_u32_def read_u32_def)
qed

text \<open>
  in the null segment every byte reads as zero whatever was written there, a write never
  reaches the 4 GiB array, and a typed access is defined exactly when it does not cross the end of
  the page that stands in for it: past that the host would access memory beyond the page.
\<close>

theorem null_segment_access:
  assumes "p < null_segment_size m" and "0 < unat sz" and "length xs = unat sz"
  shows "byte_at m p = 0 \<and>
    (read_raw m sz p = (if unat p mod 4096 + unat sz \<le> 4096 then Some (replicate (unat sz) 0) else None)) \<and>
    (if unat p mod 4096 + unat sz \<le> 4096
     then \<exists>m'. write_raw p xs m = Some m' \<and> mem_bytes m' = mem_bytes m \<and> mem_allocator m' = mem_allocator m \<and>
       null_segment_size m' = null_segment_size m
     else write_raw p xs m = None)"
proof -
  have "xs \<noteq> []" "length xs < 2 ^ 32" using assms(2,3) by auto
  then show ?thesis
    using assms read_raw_null [OF assms(1)] write_raw_null [OF assms(1), of xs] by (simp add: byte_at_eq)
qed

section \<open>The heap\<close>

text \<open>The null segment is a used chunk, so every other chunk is above it.\<close>

definition mem_ok :: "mem \<Rightarrow> bool" where
  "mem_ok m \<longleftrightarrow> heap_ok (mem_allocator m) \<and>
     \<lparr>c_base = 0, c_size = null_segment_size m\<rparr> \<in> used_set (mem_allocator m)"

text \<open>Memory that can still be handed out is zero, when memory is cleared on release.\<close>

definition zeroed :: "mem \<Rightarrow> bool" where
  "zeroed m \<longleftrightarrow> zero_memory_on_free m \<and> (\<forall>i \<in> heap_bytes (mem_allocator m). mem_bytes m i = 0)"

abbreviation blocks :: "mem \<Rightarrow> chunk set" where "blocks m \<equiv> used_set (mem_allocator m)"

lemma mem_okD: "mem_ok m \<Longrightarrow> heap_ok (mem_allocator m)" by (simp add: mem_ok_def)

lemma block_above:
  assumes "mem_ok m" and "c \<in> blocks m" and "c_base c \<noteq> 0"
  shows "null_segment_size m \<le> c_base c"
proof -
  let ?z = "\<lparr>c_base = 0, c_size = null_segment_size m\<rparr>"
  have "?z \<in> blocks m" and ok: "heap_ok (mem_allocator m)" using assms(1) by (auto simp: mem_ok_def)
  moreover have "?z \<noteq> c" using assms(3) by auto
  ultimately have "extent ?z \<inter> extent c = {}"
    using heap.live_disjoint [OF ok, of ?z c] assms(2) by blast
  moreover have "cb c \<in> extent c" using heap.live_wf [OF ok assms(2)] by (rule cb_in_extent)
  ultimately have "cb c \<notin> extent ?z" by blast
  then show ?thesis by (auto simp: extent_def word_le_nat_alt)
qed

lemma block_slice:
  assumes "mem_ok m" and "c \<in> blocks m" and "c_base c \<noteq> 0" and "n \<le> c_size c"
  shows "bytes_at_mut m (c_base c) n = In_bytes (cb c) (unat n)"
    and "bytes_at m (c_base c) n = In_bytes (cb c) (unat n)"
proof -
  have "wf_chunk c" using heap.live_wf [OF mem_okD] assms by blast
  then have "unat (c_base c) + unat n \<le> BYTES_LEN"
    using assms(4) by (auto simp: wf_chunk_def BYTES_LEN_def word_le_nat_alt)
  then show "bytes_at_mut m (c_base c) n = In_bytes (cb c) (unat n)"
    "bytes_at m (c_base c) n = In_bytes (cb c) (unat n)"
    using bytes_at_array [OF block_above [OF assms(1-3)]] by auto
qed

lemma null_block_kept:
  assumes "mem_ok m" and "heap_ok a" and "blocks m - {F} \<subseteq> used_set a" and "c_base F \<noteq> 0"
    and "mem_allocator m' = a" and "null_segment_size m' = null_segment_size m"
  shows "mem_ok m'"
proof -
  let ?z = "\<lparr>c_base = 0, c_size = null_segment_size m\<rparr>"
  have "?z \<in> blocks m - {F}" using assms(1,4) by (auto simp: mem_ok_def)
  then show ?thesis using assms by (auto simp: mem_ok_def)
qed

lemma slice_fill0_simps [simp]:
  "slice_fill0 (In_bytes off n) m = m\<lparr>mem_bytes := poke off (replicate n 0) (mem_bytes m)\<rparr>"
  "slice_fill0 (In_sink off n) m = m\<lparr>null_write_sink := poke off (replicate n 0) (null_write_sink m)\<rparr>"
  by (simp_all add: slice_fill0_def)

text \<open>Writing through a mutable slice touches the array or the sink only.\<close>

lemma slice_put_keeps [simp]:
  "mem_allocator (slice_put s k xs m) = mem_allocator m"
  "null_segment_size (slice_put s k xs m) = null_segment_size m"
  "zero_memory_on_free (slice_put s k xs m) = zero_memory_on_free m"
  by (cases s; simp)+

lemma slice_fill0_keeps [simp]:
  "mem_allocator (slice_fill0 s m) = mem_allocator m"
  "null_segment_size (slice_fill0 s m) = null_segment_size m"
  "zero_memory_on_free (slice_fill0 s m) = zero_memory_on_free m"
  by (simp_all add: slice_fill0_def)

lemma mem_ok_cong:
  "mem_allocator m' = mem_allocator m \<Longrightarrow> null_segment_size m' = null_segment_size m \<Longrightarrow> mem_ok m' = mem_ok m"
  by (simp add: mem_ok_def)

text \<open>A failed allocation clears the sink at most: the null pointer is in the null segment.\<close>

lemma null_slice: "mem_ok m \<Longrightarrow> \<exists>off n. bytes_at_mut m 0 k = In_sink off n"
proof -
  assume "mem_ok m"
  then have "wf_chunk \<lparr>c_base = 0, c_size = null_segment_size m\<rparr>"
    using heap.live_wf [OF mem_okD] by (auto simp: mem_ok_def)
  then have "0 < null_segment_size m" by (simp add: wf_chunk_def unat_gt_0 word_greater_zero_iff)
  then show ?thesis using bytes_at_null [of 0 m k] by simp
qed

definition cleared :: "nat set \<Rightarrow> mem \<Rightarrow> bool" where
  "cleared A m \<longleftrightarrow> (\<forall>i \<in> A. mem_bytes m i = 0)"

definition same_outside :: "nat set \<Rightarrow> mem \<Rightarrow> mem \<Rightarrow> bool" where
  "same_outside A m m' \<longleftrightarrow> (\<forall>i. i \<notin> A \<longrightarrow> mem_bytes m' i = mem_bytes m i)"

lemma Mem_alloc_cases:
  assumes m: "mem_ok m"
  obtains (null) m' where "Mem_alloc sz m = Some (0, m')" "mem_ok m'" "mem_allocator m' = mem_allocator m"
      "null_segment_size m' = null_segment_size m" "mem_bytes m' = mem_bytes m"
      "zero_memory_on_free m' = zero_memory_on_free m"
  | (block) c m' where "Mem_alloc sz m = Some (c_base c, m')" "mem_ok m'" "c_base c \<noteq> 0"
      "alloc_alloc sz (mem_allocator m) = Some (c_base c, mem_allocator m')"
      "c \<notin> blocks m" "blocks m' = insert c (blocks m)" "sz \<le> c_size c" "wf_chunk c"
      "extent c \<subseteq> heap_bytes (mem_allocator m)"
      "heap_bytes (mem_allocator m') = heap_bytes (mem_allocator m) - extent c"
      "null_segment_size m' = null_segment_size m" "zero_memory_on_free m' = zero_memory_on_free m"
      "mem_bytes m' = (if zero_memory_on_free m then mem_bytes m
                       else poke (cb c) (replicate (unat sz) 0) (mem_bytes m))"
proof -
  note ok = mem_okD [OF m]
  from heap.al_total [OF ok, of sz] obtain p a where al: "alloc_alloc sz (mem_allocator m) = Some (p, a)" by blast
  let ?m1 = "m\<lparr>mem_allocator := a\<rparr>"
  let ?m2 = "if \<not> zero_memory_on_free ?m1 then slice_fill0 (bytes_at_mut ?m1 p sz) ?m1 else ?m1"
  have r: "Mem_alloc sz m = Some (p, ?m2)" using al by (simp add: Mem_alloc_def Let_def)
  show ?thesis
  proof (cases "p = 0")
    case True
    with al have "a = mem_allocator m" using heap.al_null [OF ok] by blast
    then have m1: "?m1 = m" by simp
    from null_slice [OF m, of sz] obtain off n where "bytes_at_mut m 0 sz = In_sink off n" by blast
    with r m m1 True show ?thesis by (intro null [of ?m2]) (auto simp: mem_ok_def)
  next
    case False
    from heap.al_block [OF ok al False] obtain c where c: "c_base c = p" "heap_ok a" "c \<notin> blocks m"
      "used_set a = insert c (blocks m)" "sz \<le> c_size c" "wf_chunk c" "extent c \<subseteq> heap_bytes (mem_allocator m)"
      "heap_bytes a = heap_bytes (mem_allocator m) - extent c" by metis
    have m1: "mem_ok ?m1" by (rule null_block_kept [OF m c(2), of c]) (use c False in auto)
    have sl: "bytes_at_mut ?m1 p sz = In_bytes (cb c) (unat sz)"
      using block_slice(1) [OF m1, of c sz] c False by simp
    have "mem_ok ?m2" using m1 by (simp add: sl mem_ok_def)
    with r al c False show ?thesis by (intro block [of c ?m2]) (auto simp: sl)
  qed
qed

lemma alloc_zeroed:
  assumes "mem_ok m" "zeroed m" "Mem_alloc sz m = Some (p, m')"
  shows "zeroed m'" and "p \<noteq> 0 \<Longrightarrow> mem_bytes m' = mem_bytes m"
    "p \<noteq> 0 \<Longrightarrow> c \<in> blocks m' \<Longrightarrow> c_base c = p \<Longrightarrow> cleared (extent c) m'"
proof -
  have "zeroed m' \<and> (p \<noteq> 0 \<longrightarrow> mem_bytes m' = mem_bytes m \<and>
      (\<forall>c \<in> blocks m'. c_base c = p \<longrightarrow> cleared (extent c) m'))"
  proof (rule Mem_alloc_cases [OF assms(1), of sz])
    fix d m2 assume d: "Mem_alloc sz m = Some (c_base d, m2)" "mem_ok m2" "blocks m2 = insert d (blocks m)"
      "extent d \<subseteq> heap_bytes (mem_allocator m)"
      "heap_bytes (mem_allocator m2) = heap_bytes (mem_allocator m) - extent d"
      "zero_memory_on_free m2 = zero_memory_on_free m"
      "mem_bytes m2 = (if zero_memory_on_free m then mem_bytes m
                       else poke (cb d) (replicate (unat sz) 0) (mem_bytes m))"
    have "extent c \<subseteq> heap_bytes (mem_allocator m)" if "c \<in> blocks m2" "c_base c = c_base d" for c
      using heap.live_same [OF mem_okD [OF d(2)], of c d] that d(3,4) by simp
    moreover have "m2 = m'" "p = c_base d" using assms(3) d(1) by simp_all
    moreover have "zero_memory_on_free m" "\<forall>i \<in> heap_bytes (mem_allocator m). mem_bytes m i = 0"
      using assms(2) by (simp_all add: zeroed_def)
    ultimately show ?thesis using d(5-7) unfolding zeroed_def cleared_def by (simp add: subset_iff)
  qed (use assms(2,3) in \<open>auto simp: zeroed_def\<close>)
  then show "zeroed m'" "p \<noteq> 0 \<Longrightarrow> mem_bytes m' = mem_bytes m"
    "p \<noteq> 0 \<Longrightarrow> c \<in> blocks m' \<Longrightarrow> c_base c = p \<Longrightarrow> cleared (extent c) m'" by blast+
qed

lemma Mem_free_cases:
  assumes m: "mem_ok m"
  obtains (noop) "Mem_free p m = Some m" "p = 0 \<or> p = 0x7461736b \<or> \<not> is_known_allocation (mem_allocator m) p"
  | (block) F m' where "F \<in> blocks m" "c_base F = p" "p \<noteq> 0" "Mem_free p m = Some m'" "mem_ok m'"
      "blocks m' = blocks m - {F}" "heap_bytes (mem_allocator m') \<subseteq> heap_bytes (mem_allocator m) \<union> extent F"
      "null_segment_size m' = null_segment_size m" "zero_memory_on_free m' = zero_memory_on_free m"
      "mem_bytes m' = (if zero_memory_on_free m then poke (cb F) (replicate (cs F) 0) (mem_bytes m) else mem_bytes m)"
proof (cases "p = 0 \<or> p = 0x7461736b \<or> \<not> is_known_allocation (mem_allocator m) p")
  case True
  then show ?thesis using noop by (auto simp: Mem_free_def)
next
  case False
  note ok = mem_okD [OF m]
  from False heap.known_iff [OF ok] obtain F where F: "F \<in> blocks m" "c_base F = p" by blast
  with False heap.fr_live [OF ok F(1)] obtain a where
    a: "alloc_free p (mem_allocator m) = Some (c_size F, a)" "heap_ok a" "used_set a = blocks m - {F}"
      "heap_bytes a \<subseteq> heap_bytes (mem_allocator m) \<union> extent F" by auto
  let ?m1 = "m\<lparr>mem_allocator := a\<rparr>"
  have m1: "mem_ok ?m1" by (rule null_block_kept [OF m a(2), of F]) (use a F False in auto)
  have "unat (c_base F) + cs F \<le> BYTES_LEN"
    using heap.live_wf [OF ok F(1)] by (simp add: wf_chunk_def BYTES_LEN_def)
  then have sl: "bytes_at_mut ?m1 p (c_size F) = In_bytes (cb F) (cs F)"
    using bytes_at_array [of ?m1 p "c_size F"] block_above [OF m F(1)] F False by simp
  let ?m2 = "if zero_memory_on_free ?m1 then slice_fill0 (bytes_at_mut ?m1 p (c_size F)) ?m1 else ?m1"
  have "Mem_free p m = Some ?m2" using False a(1) by (simp add: Mem_free_def Let_def)
  moreover have "mem_ok ?m2" using m1 by (simp add: mem_ok_def)
  ultimately show ?thesis using F False a by (intro block [of F ?m2]) (auto simp: sl)
qed

lemma free_zeroed:
  assumes "mem_ok m" "zeroed m" "Mem_free p m = Some m'"
  shows "zeroed m'"
  using assms(1)
proof (rule Mem_free_cases [where p = p])
  fix F m2 assume "Mem_free p m = Some m2"
    "heap_bytes (mem_allocator m2) \<subseteq> heap_bytes (mem_allocator m) \<union> extent F"
    "zero_memory_on_free m2 = zero_memory_on_free m"
    "mem_bytes m2 = (if zero_memory_on_free m then poke (cb F) (replicate (cs F) 0) (mem_bytes m) else mem_bytes m)"
  with assms(2,3) show ?thesis by (auto simp: zeroed_def poke_def extent_def)
qed (use assms(2,3) in auto)

subsection \<open>realloc\<close>

lemma memmove_keeps [simp]:
  "mem_allocator (memmove d s n m) = mem_allocator m"
  "null_segment_size (memmove d s n m) = null_segment_size m"
  "zero_memory_on_free (memmove d s n m) = zero_memory_on_free m"
  by (simp_all add: memmove_def)

text \<open>Copying between two disjoint blocks.\<close>

lemma memmove_blocks:
  assumes "wf_chunk F" and "wf_chunk c" and "c_base F \<noteq> 0" and "cs F < 2 ^ 31" and "cs F \<le> cs c"
  shows "mem_bytes (memmove (c_base c) (c_base F) (c_size F) m) =
     poke (cb c) (map (mem_bytes m) [cb F..<cb F + cs F]) (mem_bytes m)"
proof -
  have "\<not> memmove_skips (c_base c) (c_base F) (c_size F)"
    using assms by (auto simp: memmove_skips_def wf_chunk_def BYTES_LEN_def word_le_nat_alt)
  then show ?thesis by (simp add: memmove_def)
qed

definition moved :: "chunk \<Rightarrow> chunk \<Rightarrow> mem \<Rightarrow> mem \<Rightarrow> bool" where
  "moved F c m m' \<longleftrightarrow>
     (\<forall>i < cs F. mem_bytes m' (cb c + i) = mem_bytes m (cb F + i)) \<and>
     (\<forall>d \<in> blocks m - {F}. \<forall>i \<in> extent d. mem_bytes m' i = mem_bytes m i) \<and>
     (zeroed m \<longrightarrow> zeroed m' \<and> (\<forall>i. cs F \<le> i \<and> i < cs c \<longrightarrow> mem_bytes m' (cb c + i) = 0))"

lemma realloc_grown:
  assumes m: "mem_ok m" and F: "F \<in> blocks m" "c_base F \<noteq> 0" "c_size F < sz"
    and g: "grow_in_place (c_base F) (c_size F) sz (mem_allocator m) = Some (Some g, a)"
  defines "G \<equiv> \<lparr>c_base = c_base F, c_size = g\<rparr>"
  shows "\<exists>m'. Mem_realloc (c_base F) sz m = Some (c_base F, m') \<and> mem_ok m' \<and> sz \<le> g \<and>
     blocks m' = insert G (blocks m - {F}) \<and> moved F G m m'"
proof -
  note ok = mem_okD [OF m]
  from heap.gr_live [OF ok F] g have a: "heap_ok a" "sz \<le> g" "used_set a = insert G (blocks m - {F})"
    "extent G \<subseteq> extent F \<union> heap_bytes (mem_allocator m)" "heap_bytes a \<subseteq> heap_bytes (mem_allocator m) - extent G"
    by (auto simp: G_def)
  let ?m0 = "m\<lparr>mem_allocator := a\<rparr>"
  have m0: "mem_ok ?m0" by (rule null_block_kept [OF m a(1), of F]) (use a(3) F in auto)
  have old: "find_allocated_size (mem_allocator m) (c_base F) = c_size F"
    by (rule heap.size_of_live [OF ok F(1)])
  have gF: "cs F < unat sz" "unat sz \<le> unat g" using F(3) a(2) by (simp_all add: word_less_nat_alt word_le_nat_alt)
  have sl: "bytes_at_mut ?m0 (c_base F) g = In_bytes (cb F) (unat g)"
    using block_slice(1) [OF m0, of G g] a(3) F(2) by (simp add: G_def)
  let ?m' = "if zero_memory_on_free m
    then slice_put (In_bytes (cb F) (unat g)) (cs F) (replicate (unat g - cs F) 0) ?m0 else ?m0"
  have "Mem_realloc (c_base F) sz m = Some (c_base F, ?m')"
    using F(2,3) g gF by (simp add: Mem_realloc_def Let_def old sl panic_simps not_le)
  moreover have "mem_ok ?m'" using m0 by (simp add: mem_ok_def)
  moreover have "moved F G m ?m'"
  proof -
    have b: "mem_bytes ?m' = (if zero_memory_on_free m
        then poke (cb F + cs F) (replicate (unat g - cs F) 0) (mem_bytes m) else mem_bytes m)" by simp
    have out: "mem_bytes ?m' i = mem_bytes m i" if "i \<notin> {cb F + cs F ..< cb F + unat g}" for i
      using that gF unfolding b by (auto simp: poke_def)
    have GG: "extent G = {cb F ..< cb F + unat g}" by (simp add: G_def extent_def)
    have "mem_bytes ?m' i = mem_bytes m i" if "d \<in> blocks m - {F}" "i \<in> extent d" for d i
    proof (cases "d = G")
      case True
      then have "d = F" using heap.live_same [OF ok, of d F] that(1) F(1) by (simp add: G_def)
      with that(1) show ?thesis by simp
    next
      case False
      then have "extent d \<inter> extent G = {}" using heap.live_disjoint [OF a(1), of d G] a(3) that(1) by simp
      then have "i \<notin> {cb F + cs F ..< cb F + unat g}" using that(2) by (auto simp: GG)
      then show ?thesis by (rule out)
    qed
    moreover have "mem_bytes ?m' (cb G + i) = mem_bytes m (cb F + i)" if "i < cs F" for i
      using out [of "cb F + i"] that by (simp add: G_def)
    moreover have "zeroed ?m' \<and> (\<forall>i. cs F \<le> i \<and> i < cs G \<longrightarrow> mem_bytes ?m' (cb G + i) = 0)" if z: "zeroed m"
    proof
      show "zeroed ?m'" unfolding zeroed_def
      proof (intro conjI ballI)
        fix i assume i: "i \<in> heap_bytes (mem_allocator ?m')"
        have "mem_allocator ?m' = a" by simp
        with i have "i \<in> heap_bytes a" by metis
        then have "i \<in> heap_bytes (mem_allocator m)" "i \<notin> extent G" using a(5) by auto
        then show "mem_bytes ?m' i = 0" using out [of i] z by (auto simp: zeroed_def GG)
      qed (use z in \<open>simp add: zeroed_def\<close>)
      show "\<forall>i. cs F \<le> i \<and> i < cs G \<longrightarrow> mem_bytes ?m' (cb G + i) = 0"
        using z unfolding b by (auto simp: zeroed_def G_def poke_def)
    qed
    ultimately show ?thesis unfolding moved_def by blast
  qed
  ultimately show ?thesis using a(2,3) by (intro exI [of _ ?m']) simp
qed

lemma realloc_slow:
  assumes m: "mem_ok m" and F: "F \<in> blocks m" "c_base F \<noteq> 0" "c_size F < sz"
    and g: "grow_in_place (c_base F) (c_size F) sz (mem_allocator m) = Some (None, a)"
  shows "Mem_realloc (c_base F) sz m = do {
      (new_ptr, m1) \<leftarrow> Mem_alloc sz (m\<lparr>mem_allocator := a\<rparr>);
      m3 \<leftarrow> Mem_free (c_base F) (memmove new_ptr (c_base F) (c_size F) m1);
      Some (new_ptr, m3)
    } \<and> mem_ok (m\<lparr>mem_allocator := a\<rparr>) \<and> used_set a = blocks m \<and> heap_bytes a = heap_bytes (mem_allocator m)"
proof -
  note ok = mem_okD [OF m]
  from heap.gr_live [OF ok F] g have a: "heap_ok a" "used_set a = blocks m" "heap_bytes a = heap_bytes (mem_allocator m)"
    by auto
  have old: "find_allocated_size (mem_allocator m) (c_base F) = c_size F"
    by (rule heap.size_of_live [OF ok F(1)])
  have "mem_ok (m\<lparr>mem_allocator := a\<rparr>)" using m a by (simp add: mem_ok_def)
  moreover have "\<not> sz \<le> c_size F" using F(3) by simp
  ultimately show ?thesis using F(2) g a by (simp add: Mem_realloc_def Let_def old)
qed

lemma realloc_moved:
  assumes m: "mem_ok m" and F: "F \<in> blocks m" "c_base F \<noteq> 0" "c_base F \<noteq> 0x7461736b" "c_size F < sz" "cs F < 2 ^ 31"
    and al: "Mem_alloc sz m = Some (p, m1)"
  shows "\<exists>m'. Mem_free (c_base F) (memmove p (c_base F) (c_size F) m1) = Some m' \<and> mem_ok m' \<and>
     (if p = 0 then blocks m' = blocks m - {F}
      else \<exists>c. c_base c = p \<and> sz \<le> c_size c \<and> blocks m' = insert c (blocks m - {F}) \<and> moved F c m m')"
proof -
  note ok = mem_okD [OF m]
  have wF: "wf_chunk F" using heap.live_wf [OF ok F(1)] .
  have free: "\<exists>m'. Mem_free (c_base F) m2 = Some m' \<and> mem_ok m' \<and> blocks m' = blocks m2 - {F} \<and>
      heap_bytes (mem_allocator m') \<subseteq> heap_bytes (mem_allocator m2) \<union> extent F \<and>
      zero_memory_on_free m' = zero_memory_on_free m2 \<and>
      mem_bytes m' = (if zero_memory_on_free m2 then poke (cb F) (replicate (cs F) 0) (mem_bytes m2) else mem_bytes m2)"
    if m2: "mem_ok m2" "F \<in> blocks m2" for m2
  proof (rule Mem_free_cases [OF m2(1), of "c_base F"])
    assume "c_base F = 0 \<or> c_base F = 0x7461736b \<or> \<not> is_known_allocation (mem_allocator m2) (c_base F)"
    with F(2,3) m2 heap.known_iff [OF mem_okD [OF m2(1)]] show ?thesis by blast
  next
    fix F' m' assume F': "F' \<in> blocks m2" "c_base F' = c_base F"
    have "F' = F" using heap.live_same [OF mem_okD [OF m2(1)] F'(1) m2(2) F'(2)] .
    moreover assume "Mem_free (c_base F) m2 = Some m'" "mem_ok m'" "blocks m' = blocks m2 - {F'}"
      "heap_bytes (mem_allocator m') \<subseteq> heap_bytes (mem_allocator m2) \<union> extent F'"
      "zero_memory_on_free m' = zero_memory_on_free m2"
      "mem_bytes m' = (if zero_memory_on_free m2 then poke (cb F') (replicate (cs F') 0) (mem_bytes m2) else mem_bytes m2)"
    ultimately show ?thesis by blast
  qed
  show ?thesis
  proof (rule Mem_alloc_cases [OF m, of sz])
    fix m2 assume n: "Mem_alloc sz m = Some (0, m2)" "mem_ok m2" "mem_allocator m2 = mem_allocator m"
    have "m2 = m1" "p = 0" using al n by auto
    moreover have "mem_ok (memmove p (c_base F) (c_size F) m2)" using n(2) by (simp add: mem_ok_def)
    ultimately show ?thesis using free [of "memmove p (c_base F) (c_size F) m1"] F(1) n(3) by fastforce
  next
    fix c m2
    assume c: "Mem_alloc sz m = Some (c_base c, m2)" "mem_ok m2" "c_base c \<noteq> 0" "c \<notin> blocks m"
      "blocks m2 = insert c (blocks m)" "sz \<le> c_size c" "wf_chunk c"
      "extent c \<subseteq> heap_bytes (mem_allocator m)"
      "heap_bytes (mem_allocator m2) = heap_bytes (mem_allocator m) - extent c"
      "zero_memory_on_free m2 = zero_memory_on_free m"
      "mem_bytes m2 = (if zero_memory_on_free m then mem_bytes m
                       else poke (cb c) (replicate (unat sz) 0) (mem_bytes m))"
    have eq: "m2 = m1" "p = c_base c" using al c(1) by auto
    let ?m3 = "memmove (c_base c) (c_base F) (c_size F) m2"
    have szs: "cs F \<le> cs c" "unat sz \<le> cs c" using c(6) F(4) by (auto simp: word_le_nat_alt word_less_nat_alt)
    have b3: "mem_bytes ?m3 = poke (cb c) (map (mem_bytes m2) [cb F..<cb F + cs F]) (mem_bytes m2)"
      by (rule memmove_blocks [OF wF c(7) F(2,5) szs(1)])
    have "mem_ok ?m3" using c(2) by (simp add: mem_ok_def)
    from free [OF this] F(1) c(5) obtain m' where m': "Mem_free (c_base F) ?m3 = Some m'" "mem_ok m'"
      "blocks m' = insert c (blocks m) - {F}" "heap_bytes (mem_allocator m') \<subseteq> heap_bytes (mem_allocator m2) \<union> extent F"
      "zero_memory_on_free m' = zero_memory_on_free m"
      "mem_bytes m' = (if zero_memory_on_free m then poke (cb F) (replicate (cs F) 0) (mem_bytes ?m3) else mem_bytes ?m3)"
      using c(10) by auto
    have "c \<noteq> F" using F(1) c(4) by blast
    then have bl: "blocks m' = insert c (blocks m - {F})" using m'(3) by blast
    have disc: "extent d \<inter> extent c = {}" if "d \<in> blocks m" for d
      using heap.live_disjoint [OF mem_okD [OF c(2)], of d c] c(4,5) that by blast
    have out2: "mem_bytes m2 i = mem_bytes m i" if "i \<notin> extent c" for i
      using that szs unfolding c(11) by (auto simp: poke_def extent_def)
    have out: "mem_bytes m' i = mem_bytes m i" if "i \<notin> extent c" "i \<notin> extent F" for i
      using that szs out2 [of i] unfolding m'(6) b3 by (auto simp: poke_def extent_def)
    have inF: "cb F + i \<notin> extent c" if "i < cs F" for i
      using disc [OF F(1)] that by (force simp: extent_def)
    have inc: "cb c + i \<notin> extent F" if "i < cs c" for i
      using disc [OF F(1)] that by (force simp: extent_def)
    have nc: "mem_bytes m' (cb c + i) = mem_bytes ?m3 (cb c + i)" if "i < cs c" for i
      using inc [OF that] unfolding m'(6) by (auto simp: poke_def extent_def)
    have "moved F c m m'" unfolding moved_def
    proof (intro conjI allI ballI impI)
      show "mem_bytes m' (cb c + i) = mem_bytes m (cb F + i)" if "i < cs F" for i
        using nc [of i] that szs out2 [OF inF [OF that]] by (simp add: b3)
      show "mem_bytes m' i = mem_bytes m i" if "d \<in> blocks m - {F}" "i \<in> extent d" for d i
        using out [of i] that disc [of d] heap.live_disjoint [OF ok, of d F] F(1) by blast
      assume z: "zeroed m"
      have zc: "mem_bytes m i = 0" if "i \<in> extent c" for i using z c(8) that by (auto simp: zeroed_def)
      show "mem_bytes m' (cb c + i) = 0" if "cs F \<le> i \<and> i < cs c" for i
        using nc [of i] that zc [of "cb c + i"] z szs unfolding b3 c(11) by (auto simp: poke_def extent_def zeroed_def)
      have zF: "mem_bytes m' i = 0" if "i \<in> extent F" for i
        using that z unfolding m'(6) by (auto simp: poke_def extent_def zeroed_def)
      have "mem_bytes m' i = 0" if "i \<in> heap_bytes (mem_allocator m')" for i
      proof (cases "i \<in> extent F")
        case False
        with that m'(4) c(9) have "i \<in> heap_bytes (mem_allocator m)" "i \<notin> extent c" by auto
        with False out [of i] z show ?thesis by (simp add: zeroed_def)
      qed (rule zF)
      then show "zeroed m'" using m'(5) z by (simp add: zeroed_def)
    qed
    then show ?thesis using m' bl eq c(3,6) by auto
  qed
qed

lemma Mem_alloc_total: "mem_ok m \<Longrightarrow> \<exists>p m'. Mem_alloc sz m = Some (p, m') \<and> mem_ok m'"
  by (rule Mem_alloc_cases [of m sz]) blast+

lemma Mem_realloc_block:
  assumes m: "mem_ok m" and F: "F \<in> blocks m" "c_base F \<noteq> 0" "c_base F \<noteq> 0x7461736b" "c_size F < sz" "cs F < 2 ^ 31"
  shows "\<exists>p m'. Mem_realloc (c_base F) sz m = Some (p, m') \<and> mem_ok m' \<and>
     (if p = 0 then blocks m' = blocks m - {F}
      else \<exists>c. c_base c = p \<and> sz \<le> c_size c \<and> blocks m' = insert c (blocks m - {F}) \<and> moved F c m m')"
proof -
  from heap.gr_live [OF mem_okD [OF m] F(1,2,4)] obtain r a where
    g: "grow_in_place (c_base F) (c_size F) sz (mem_allocator m) = Some (r, a)" by blast
  show ?thesis
  proof (cases r)
    case (Some gs)
    from realloc_grown [OF m F(1,2,4) g [unfolded Some]] F(2) show ?thesis
      by (force intro!: exI [of _ "c_base F"] exI [of _ "\<lparr>c_base = c_base F, c_size = gs\<rparr>"])
  next
    case None
    let ?m0 = "m\<lparr>mem_allocator := a\<rparr>"
    note s = realloc_slow [OF m F(1,2,4) g [unfolded None]]
    have m0: "mem_ok ?m0" "F \<in> blocks ?m0" using s F(1) by auto
    have mv: "moved F c ?m0 m' \<Longrightarrow> moved F c m m'" for c m'
      using s unfolding moved_def zeroed_def by simp
    from Mem_alloc_total [OF m0(1), of sz] obtain p m1 where al: "Mem_alloc sz ?m0 = Some (p, m1)" by blast
    from realloc_moved [OF m0 F(2-5) al] obtain m' where
      "Mem_free (c_base F) (memmove p (c_base F) (c_size F) m1) = Some m'" "mem_ok m'"
      "if p = 0 then blocks m' = blocks ?m0 - {F}
      else \<exists>c. c_base c = p \<and> sz \<le> c_size c \<and> blocks m' = insert c (blocks ?m0 - {F}) \<and> moved F c ?m0 m'" by blast
    with s al mv show ?thesis by (intro exI [of _ p] exI [of _ m']) (auto split: if_splits)
  qed
qed

lemma Mem_free_total: "mem_ok m \<Longrightarrow> \<exists>m'. Mem_free p m = Some m' \<and> mem_ok m'"
  by (rule Mem_free_cases [of m p]) blast+

lemma Mem_realloc_total:
  assumes m: "mem_ok m"
  shows "\<exists>p m'. Mem_realloc old sz m = Some (p, m') \<and> mem_ok m'"
proof -
  note ok = mem_okD [OF m]
  let ?size = "find_allocated_size (mem_allocator m) old"
  have tail: "\<exists>p m'. (do { (new_ptr, m1) \<leftarrow> Mem_alloc sz m0;
      m3 \<leftarrow> Mem_free old (memmove new_ptr old n m1); Some (new_ptr, m3) }) = Some (p, m') \<and> mem_ok m'"
    if "mem_ok m0" for m0 n
  proof -
    from Mem_alloc_total [OF that, of sz] obtain p m1 where al: "Mem_alloc sz m0 = Some (p, m1)" "mem_ok m1" by blast
    then have "mem_ok (memmove p old n m1)" by (simp add: mem_ok_def)
    from Mem_free_total [OF this, of old] al show ?thesis by auto
  qed
  show ?thesis
  proof (cases "old = 0 \<or> sz \<le> ?size")
    case True
    then show ?thesis using m Mem_alloc_total [OF m, of sz] by (auto simp: Mem_realloc_def Let_def)
  next
    case False
    show ?thesis
    proof (cases "is_known_allocation (mem_allocator m) old")
      case True
      then obtain F where F: "F \<in> blocks m" "c_base F = old" using heap.known_iff [OF ok] by blast
      have "?size = c_size F" using heap.size_of_live [OF ok F(1)] F(2) by simp
      then have F': "c_base F \<noteq> 0" "c_size F < sz" using False F(2) by auto
      from heap.gr_live [OF ok F(1) F'] obtain r a where
        g: "grow_in_place (c_base F) (c_size F) sz (mem_allocator m) = Some (r, a)" by blast
      show ?thesis
      proof (cases r)
        case None
        show ?thesis
          using realloc_slow [OF m F(1) F' g [unfolded None]] tail [of "m\<lparr>mem_allocator := a\<rparr>"] F(2) by auto
      next
        case (Some gs)
        show ?thesis using realloc_grown [OF m F(1) F' g [unfolded Some]] F(2) by auto
      qed
    next
      case unk: False
      have "m\<lparr>mem_allocator := mem_allocator m\<rparr> = m" by simp
      then show ?thesis
        using tail [OF m, of ?size] False heap.gr_unknown [OF ok unk]
        by (simp add: Mem_realloc_def Let_def)
    qed
  qed
qed

subsection \<open>calloc\<close>

lemma Mem_calloc_ok:
  assumes m: "mem_ok m"
  shows "\<exists>p m'. Mem_calloc sz m = Some (p, m') \<and> mem_ok m' \<and>
    (if p = 0 then blocks m' = blocks m \<and> mem_bytes m' = mem_bytes m
     else \<exists>c. c_base c = p \<and> c \<notin> blocks m \<and> blocks m' = insert c (blocks m) \<and> sz \<le> c_size c \<and>
       (\<forall>i < unat sz. mem_bytes m' (cb c + i) = 0) \<and>
       (\<forall>d \<in> blocks m. \<forall>i \<in> extent d. mem_bytes m' i = mem_bytes m i))"
proof (rule Mem_alloc_cases [OF m, of sz])
  fix m1 assume a: "Mem_alloc sz m = Some (0, m1)" "mem_ok m1" "mem_allocator m1 = mem_allocator m"
    "mem_bytes m1 = mem_bytes m"
  from null_slice [OF a(2), of sz] obtain off n where "bytes_at_mut m1 0 sz = In_sink off n" by blast
  with a show ?thesis by (simp add: Mem_calloc_def mem_ok_def)
next
  fix c m1 assume c: "Mem_alloc sz m = Some (c_base c, m1)" "mem_ok m1" "c_base c \<noteq> 0" "c \<notin> blocks m"
    "blocks m1 = insert c (blocks m)" "sz \<le> c_size c"
    "mem_bytes m1 = (if zero_memory_on_free m then mem_bytes m
                     else poke (cb c) (replicate (unat sz) 0) (mem_bytes m))"
  let ?m' = "slice_fill0 (bytes_at_mut m1 (c_base c) sz) m1"
  have sl: "bytes_at_mut m1 (c_base c) sz = In_bytes (cb c) (unat sz)"
    using block_slice(1) [OF c(2) _ c(3,6)] c(5) by simp
  have "mem_bytes ?m' i = mem_bytes m i" if d: "d \<in> blocks m" "i \<in> extent d" for d i
  proof -
    have "extent d \<inter> extent c = {}" using heap.live_disjoint [OF mem_okD [OF c(2)], of d c] c(4,5) d(1) by blast
    then have "i \<notin> {cb c ..< cb c + unat sz}"
      using d(2) c(6) by (auto simp: extent_def word_le_nat_alt dest: order_trans)
    then show ?thesis unfolding sl using c(7) by (auto simp: poke_def)
  qed
  moreover have "mem_ok ?m'" using c(2) by (simp add: mem_ok_def)
  moreover have "Mem_calloc sz m = Some (c_base c, ?m')" using c(1) by (simp add: Mem_calloc_def)
  moreover have "\<forall>i < unat sz. mem_bytes ?m' (cb c + i) = 0" unfolding sl by simp
  ultimately show ?thesis using c(3-6) by auto
qed

subsection \<open>Histories\<close>

text \<open>
  A call that reaches the heap, or a store of the emulated CPU, which writes the array directly.
\<close>

datatype heap_call =
    H_malloc u32
  | H_calloc u32
  | H_realloc vaddr u32
  | H_free vaddr
  | H_store vaddr "u8 list"

fun heap_exec :: "heap_call \<Rightarrow> mem \<Rightarrow> mem option" where
  "heap_exec (H_malloc sz) m = map_option snd (Mem_alloc sz m)"
| "heap_exec (H_calloc sz) m = map_option snd (Mem_calloc sz m)"
| "heap_exec (H_realloc p sz) m = map_option snd (Mem_realloc p sz m)"
| "heap_exec (H_free p) m = Mem_free p m"
| "heap_exec (H_store p xs) m = Some (m\<lparr>mem_bytes := poke (unat p) xs (mem_bytes m)\<rparr>)"

fun heap_run :: "heap_call list \<Rightarrow> mem \<Rightarrow> mem option" where
  "heap_run [] m = Some m"
| "heap_run (c # calls) m = do { m' \<leftarrow> heap_exec c m; heap_run calls m' }"

text \<open>\<open>Mem::new\<close> and the null segment.\<close>

definition load_mem :: "u32 \<Rightarrow> mem option" where
  "load_mem null_size = do { m \<leftarrow> Mem_new; set_null_segment_size null_size m }"

lemma heap_exec_ok:
  assumes m: "mem_ok m" shows "\<exists>m'. heap_exec c m = Some m' \<and> mem_ok m'"
proof (cases c)
  case (H_malloc sz)
  then show ?thesis using Mem_alloc_total [OF m, of sz] by auto
next
  case (H_calloc sz)
  then show ?thesis using Mem_calloc_ok [OF m, of sz] by auto
next
  case (H_realloc p sz)
  then show ?thesis using Mem_realloc_total [OF m, of p sz] by auto
next
  case (H_free p)
  then show ?thesis using Mem_free_total [OF m, of p] by auto
next
  case (H_store p xs)
  then show ?thesis using m by (simp add: mem_ok_def)
qed

lemma heap_run_ok: "mem_ok m \<Longrightarrow> \<exists>m'. heap_run calls m = Some m' \<and> mem_ok m'"
proof (induction calls arbitrary: m)
  case (Cons c calls)
  from heap_exec_ok [OF Cons.prems, of c] obtain m1 where "heap_exec c m = Some m1" "mem_ok m1" by blast
  with Cons.IH show ?case by simp
qed simp

lemma load_mem_ok:
  assumes n: "n \<noteq> 0" "unat n mod 4096 = 0" "n \<le> MAIN_THREAD_STACK_LOW_END"
  shows "\<exists>m. load_mem n = Some m \<and> mem_ok m \<and> zeroed m \<and> null_segment_size m = n \<and>
    blocks m = insert \<lparr>c_base = 0, c_size = n\<rparr> (used_set fresh)"
proof -
  let ?c = "\<lparr>c_base = 0, c_size = n\<rparr>"
  have w: "wf_chunk ?c" "(cb ?c + cs ?c) mod 4096 = 0"
    using n(1,2) less_imp_le [OF unat_lt_u32 [of n]] by (simp_all add: wf_chunk_def unat_gt_0)
  have sub: "extent ?c \<subseteq> extent \<lparr>c_base = 0, c_size = MAIN_THREAD_STACK_LOW_END\<rparr>"
    using n(3) by (auto simp: extent_def word_le_nat_alt)
  have new: "Chunk_new 0 n = Some ?c" using n(1) by (simp add: Chunk_new_Some unat_eq_zero)
  have "\<exists>a. alloc_reserve ?c fresh = Some a \<and> alloc_inv a \<and> used_set a = insert ?c (used_set fresh)"
  proof (rule alloc_reserve_cases [OF fresh_ok(2) w])
    assume "\<And>t. t \<in> free_set fresh \<Longrightarrow> \<not> extent ?c \<subseteq> extent t"
    with sub show ?thesis by (auto simp: fresh_ok(4))
  qed blast
  then obtain a where a: "alloc_reserve ?c fresh = Some a" "alloc_inv a" "used_set a = insert ?c (used_set fresh)" by blast
  then have "null_reserved a" unfolding null_reserved_def by (intro bexI [of _ ?c]) simp_all
  with a(2) have "heap_ok a" by (simp add: heap_ok_def)
  let ?m = "\<lparr>mem_bytes = (\<lambda>_. 0), null_segment_size = n, mem_allocator = a,
       zero_memory_on_free = True, null_write_sink = (\<lambda>_. 0)\<rparr>"
  have "load_mem n = Some ?m"
    unfolding load_mem_def Mem_new_def fresh_ok(1)
    using new a(1) n(2) by (simp add: set_null_segment_size_def panic_simps)
  with \<open>heap_ok a\<close> a(3) show ?thesis by (simp add: mem_ok_def zeroed_def)
qed

lemma loaded: "mem_ok (the (load_mem 4096))" "zeroed (the (load_mem 4096))"
  "blocks (the (load_mem 4096)) = insert \<lparr>c_base = 0, c_size = 4096\<rparr> (used_set fresh)" "null_segment_size (the (load_mem 4096)) = 4096"
proof -
  have "(4096 :: u32) \<noteq> 0" "unat (4096 :: u32) mod 4096 = 0" "4096 \<le> MAIN_THREAD_STACK_LOW_END"
    by (simp_all add: alloc_consts word_le_nat_alt)
  from load_mem_ok [OF this] obtain m where m: "load_mem 4096 = Some m" "mem_ok m" "zeroed m"
    "null_segment_size m = 4096" "blocks m = insert \<lparr>c_base = 0, c_size = 4096\<rparr> (used_set fresh)" by blast
  from m(2-5) show "mem_ok (the (load_mem 4096))" "zeroed (the (load_mem 4096))"
    "blocks (the (load_mem 4096)) = insert \<lparr>c_base = 0, c_size = 4096\<rparr> (used_set fresh)"
    "null_segment_size (the (load_mem 4096)) = 4096"
    unfolding m(1) option.sel by blast+
qed

text \<open>
  A segment of the executable: its address range is reserved and the part that is in the file is copied.
\<close>

definition load_segment :: "vaddr \<Rightarrow> u32 \<Rightarrow> u8 list \<Rightarrow> mem \<Rightarrow> mem option" where
  "load_segment addr vmsize content m =
     (if vmsize = 0 then Some m
      else do {
        m1 \<leftarrow> Mem_reserve addr vmsize m;
        (if content = [] then Some m1
         else do {
           expect (length content \<le> unat vmsize);
           let dst = bytes_at_mut m1 addr (of_nat (length content));
           expect (slice_len dst = length content);
           Some (slice_put dst 0 content m1)
         })
      })"

fun load_segments :: "(vaddr \<times> u32 \<times> u8 list) list \<Rightarrow> mem \<Rightarrow> mem option" where
  "load_segments [] m = Some m"
| "load_segments ((addr, vmsize, content) # segs) m = do { m1 \<leftarrow> load_segment addr vmsize content m; load_segments segs m1 }"

text \<open>
  The memory a program starts with.  \<open>zero_on_free\<close> is false for two games, \<open>n\<close> is the size of \<open>__PAGEZERO\<close>.
\<close>

definition load_program :: "bool \<Rightarrow> u32 \<Rightarrow> (vaddr \<times> u32 \<times> u8 list) list \<Rightarrow> mem option" where
  "load_program zero_on_free n segs = do {
     m \<leftarrow> load_mem n;
     load_segments segs (m\<lparr>zero_memory_on_free := zero_on_free\<rparr>)
   }"

text \<open>What the segments of an executable satisfy: whole pages inside the address space, above the null segment.\<close>

definition segment_ok :: "vaddr \<Rightarrow> vaddr \<times> u32 \<times> u8 list \<Rightarrow> bool" where
  "segment_ok n seg \<longleftrightarrow> (case seg of (addr, vmsize, content) \<Rightarrow>
     vmsize = 0 \<or> unat addr mod 4096 = 0 \<and> unat vmsize mod 4096 = 0 \<and> unat addr + unat vmsize \<le> 2 ^ 32 \<and>
       n \<le> addr \<and> length content \<le> unat vmsize)"

lemma Mem_reserve_ok:
  assumes m: "mem_ok m" and "sz \<noteq> 0" and "unat base mod 4096 = 0" and "unat sz mod 4096 = 0" and "unat base + unat sz \<le> 2 ^ 32"
  shows "\<exists>a. Mem_reserve base sz m = Some (m\<lparr>mem_allocator := a\<rparr>) \<and> mem_ok (m\<lparr>mem_allocator := a\<rparr>)"
proof -
  let ?c = "\<lparr>c_base = base, c_size = sz\<rparr>"
  have w: "wf_chunk ?c" "(cb ?c + cs ?c) mod 4096 = 0"
    using assms(2-5) by (auto simp: wf_chunk_def unat_gt_0 mod_add_eq [symmetric])
  have new: "Chunk_new base sz = Some ?c" using assms(2,3) by (simp add: Chunk_new_Some unat_eq_zero)
  from m have inv: "alloc_inv (mem_allocator m)" by (simp add: mem_ok_def heap_ok_def)
  have "\<exists>a. alloc_reserve ?c (mem_allocator m) = Some a \<and> alloc_inv a \<and> used_set (mem_allocator m) \<subseteq> used_set a"
    using inv by (cases rule: alloc_reserve_cases [OF inv w]) auto
  then obtain a where a: "alloc_reserve ?c (mem_allocator m) = Some a" "alloc_inv a" "used_set (mem_allocator m) \<subseteq> used_set a"
    by blast
  with m have "mem_ok (m\<lparr>mem_allocator := a\<rparr>)" by (auto simp: mem_ok_def heap_ok_def null_reserved_def)
  with a(1) new assms(2) show ?thesis by (auto simp: Mem_reserve_def)
qed

lemma load_segment_ok:
  assumes m: "mem_ok m" and s: "segment_ok (null_segment_size m) (addr, vmsize, content)"
  shows "\<exists>m'. load_segment addr vmsize content m = Some m' \<and> mem_ok m' \<and> null_segment_size m' = null_segment_size m"
proof (cases "vmsize = 0")
  case True
  with m show ?thesis by (simp add: load_segment_def)
next
  case False
  with s have b: "unat addr mod 4096 = 0" "unat vmsize mod 4096 = 0" "unat addr + unat vmsize \<le> 2 ^ 32"
    and n: "null_segment_size m \<le> addr" and len: "length content \<le> unat vmsize" by (simp_all add: segment_ok_def)
  from Mem_reserve_ok [OF m False b] obtain a where a: "Mem_reserve addr vmsize m = Some (m\<lparr>mem_allocator := a\<rparr>)"
    "mem_ok (m\<lparr>mem_allocator := a\<rparr>)" by blast
  let ?m1 = "m\<lparr>mem_allocator := a\<rparr>"
  have l: "unat (of_nat (length content) :: u32) = length content"
    using le_less_trans [OF len unat_lt_u32 [of vmsize]] by (simp add: unat_of_nat)
  have "\<not> out_of_bytes addr (of_nat (length content))"
    using len b(3) l by (simp add: out_of_bytes_def BYTES_LEN_def Let_def)
  then have "bytes_at_mut ?m1 addr (of_nat (length content)) = In_bytes (unat addr) (length content)"
    using n l by (simp add: bytes_at_mut_def not_less [symmetric])
  with a(2) have "content \<noteq> [] \<Longrightarrow> load_segment addr vmsize content m = Some (?m1\<lparr>mem_bytes := poke (unat addr) content (mem_bytes m)\<rparr>)"
    using False a(1) len by (simp add: load_segment_def panic_simps)
  moreover have "content = [] \<Longrightarrow> load_segment addr vmsize content m = Some ?m1"
    using False a(1) by (simp add: load_segment_def)
  ultimately show ?thesis using a(2) by (cases "content = []") (simp_all add: mem_ok_def)
qed

lemma load_segments_ok:
  "mem_ok m \<Longrightarrow> \<forall>seg\<in>set segs. segment_ok (null_segment_size m) seg \<Longrightarrow>
    \<exists>m'. load_segments segs m = Some m' \<and> mem_ok m' \<and> null_segment_size m' = null_segment_size m"
proof (induction segs arbitrary: m)
  case (Cons seg segs)
  obtain addr vmsize content where seg: "seg = (addr, vmsize, content)" by (cases seg)
  with Cons.prems load_segment_ok [of m addr vmsize content] obtain m1 where
    m1: "load_segment addr vmsize content m = Some m1" "mem_ok m1" "null_segment_size m1 = null_segment_size m" by auto
  with Cons.prems Cons.IH [of m1] seg show ?case by simp
qed simp

lemma load_program_ok:
  assumes n: "n \<noteq> 0" "unat n mod 4096 = 0" "n \<le> MAIN_THREAD_STACK_LOW_END" and segs: "\<forall>seg\<in>set segs. segment_ok n seg"
  shows "\<exists>m. load_program z n segs = Some m \<and> mem_ok m"
proof -
  from load_mem_ok [OF n] obtain m where m: "load_mem n = Some m" "mem_ok m" "null_segment_size m = n" by blast
  then have "mem_ok (m\<lparr>zero_memory_on_free := z\<rparr>)" by (simp add: mem_ok_def)
  from load_segments_ok [OF this, of segs] m segs show ?thesis by (auto simp: load_program_def)
qed

text \<open>
  C1: from the memory of a freshly loaded program, with or without clearing on release, with any
  page-aligned segments above the null segment, no sequence of \<open>malloc\<close>, \<open>calloc\<close>, \<open>realloc\<close>
  and \<open>free\<close> calls with arbitrary arguments (bogus, stale or repeated pointers included),
  interleaved with arbitrary stores of the guest, makes the host panic; and after each of them the
  live blocks are pairwise disjoint, lie outside the null segment (the reserved one apart) and
  inside the address space.
\<close>

theorem heap_history_safe:
  assumes "n \<noteq> 0" and "unat n mod 4096 = 0" and "n \<le> MAIN_THREAD_STACK_LOW_END" and "\<forall>seg\<in>set segs. segment_ok n seg"
  shows "\<exists>m0. load_program z n segs = Some m0 \<and> (\<forall>calls. \<exists>m. heap_run calls m0 = Some m \<and>
    (\<forall>c \<in> blocks m. cb c + cs c \<le> 2 ^ 32 \<and> (c_base c \<noteq> 0 \<longrightarrow> null_segment_size m \<le> c_base c) \<and>
      (\<forall>d \<in> blocks m. c \<noteq> d \<longrightarrow> extent c \<inter> extent d = {})))"
proof -
  from load_program_ok [OF assms] obtain m0 where m0: "load_program z n segs = Some m0" "mem_ok m0" by blast
  have "\<exists>m. heap_run calls m0 = Some m \<and>
    (\<forall>c \<in> blocks m. cb c + cs c \<le> 2 ^ 32 \<and> (c_base c \<noteq> 0 \<longrightarrow> null_segment_size m \<le> c_base c) \<and>
      (\<forall>d \<in> blocks m. c \<noteq> d \<longrightarrow> extent c \<inter> extent d = {}))" for calls
  proof -
    from heap_run_ok [OF m0(2)] obtain m where m: "heap_run calls m0 = Some m" "mem_ok m" by blast
    show ?thesis
    proof (intro exI [of _ m] conjI ballI impI)
      fix c assume c: "c \<in> blocks m"
      show "cb c + cs c \<le> 2 ^ 32" using heap.live_wf [OF mem_okD [OF m(2)] c] by (simp add: wf_chunk_def)
      show "null_segment_size m \<le> c_base c" if "c_base c \<noteq> 0" using block_above [OF m(2) c that] .
      show "extent c \<inter> extent d = {}" if "d \<in> blocks m" "c \<noteq> d" for d
        by (rule heap.live_disjoint [OF mem_okD [OF m(2)] c that])
    qed (rule m(1))
  qed
  with m0(1) show ?thesis by blast
qed

theorem heap_history_safe_witness:
  "\<exists>m0 m. load_program True 4096 [(4096, 0x8000, [1, 2, 3]), (0x10000, 0x2000, [])] = Some m0 \<and>
     heap_run [H_malloc 100, H_store 0x5000 [7], H_free 5, H_realloc 0 7, H_calloc 3] m0 = Some m"
proof -
  have n: "(4096 :: u32) \<noteq> 0" "unat (4096 :: u32) mod 4096 = 0" "4096 \<le> MAIN_THREAD_STACK_LOW_END"
    by (simp_all add: alloc_consts word_le_nat_alt)
  have "\<forall>seg\<in>set [(4096, 0x8000, [1, 2, 3]), (0x10000, 0x2000, [])]. segment_ok 4096 seg"
    by (simp add: segment_ok_def word_le_nat_alt)
  from heap_history_safe [OF n this, of True] show ?thesis by blast
qed

text \<open>
  C14: \<open>realloc\<close> of a live block of less than 2 GiB to a larger size (except one that starts at 0x7461736b,
  which \<open>free\<close> ignores), whether it grows in place or moves: the result
  is a block at least as large as requested which starts with the bytes of the old one, it replaces
  the old block, and the bytes of every other live block are as before; on memory that is cleared on
  release the rest of the block is zero.  When no memory is left the result is null, but the old
  block is released all the same.
\<close>

theorem realloc_correct:
  assumes "mem_ok m" and "F \<in> blocks m" and "c_base F \<noteq> 0" and "c_base F \<noteq> 0x7461736b"
    and "c_size F < sz" and "c_size F < 0x80000000"
  shows "\<exists>p m'. Mem_realloc (c_base F) sz m = Some (p, m') \<and> mem_ok m' \<and>
    (if p = 0 then blocks m' = blocks m - {F}
     else \<exists>c. c_base c = p \<and> sz \<le> c_size c \<and> blocks m' = insert c (blocks m - {F}) \<and>
       (\<forall>i < cs F. mem_bytes m' (cb c + i) = mem_bytes m (cb F + i)) \<and>
       (\<forall>d \<in> blocks m - {F}. \<forall>i \<in> extent d. mem_bytes m' i = mem_bytes m i) \<and>
       (zeroed m \<longrightarrow> (\<forall>i. cs F \<le> i \<and> i < cs c \<longrightarrow> mem_bytes m' (cb c + i) = 0)))"
proof -
  have "cs F < 2 ^ 31" using assms(6) by (simp add: word_less_nat_alt)
  from Mem_realloc_block [OF assms(1-5) this] show ?thesis unfolding moved_def by metis
qed

theorem realloc_correct_witness:
  "\<exists>r. Mem_realloc MAIN_THREAD_STACK_LOW_END 0x200000 (the (load_mem 4096)) = Some r"
proof -
  let ?F = "\<lparr>c_base = MAIN_THREAD_STACK_LOW_END, c_size = MAIN_THREAD_STACK_SIZE\<rparr>"
  have "?F \<in> blocks (the (load_mem 4096))" by (simp add: loaded(3) fresh_ok(3))
  from realloc_correct [OF loaded(1) this, of "0x200000"] show ?thesis
    by (auto simp: alloc_consts word_less_nat_alt)
qed

text \<open>
  while memory is cleared on release, \<open>malloc\<close> hands out blocks all of whose bytes are zero,
  \<open>free\<close> clears the block, and both keep every byte that can still be handed out at zero.
\<close>

theorem malloc_zeroed:
  assumes "mem_ok m" and "zeroed m"
  shows "(\<exists>p m'. Mem_alloc sz m = Some (p, m') \<and> zeroed m' \<and>
      (\<forall>c \<in> blocks m'. c_base c = p \<and> p \<noteq> 0 \<longrightarrow> (\<forall>i \<in> extent c. mem_bytes m' i = 0))) \<and>
    (\<exists>m'. Mem_free q m = Some m' \<and> zeroed m')"
proof -
  from Mem_alloc_total [OF assms(1), of sz] obtain p m1 where 1: "Mem_alloc sz m = Some (p, m1)" by blast
  from Mem_free_total [OF assms(1), of q] obtain m2 where 2: "Mem_free q m = Some m2" by blast
  note al = alloc_zeroed [OF assms 1]
  have "\<forall>c \<in> blocks m1. c_base c = p \<and> p \<noteq> 0 \<longrightarrow> (\<forall>i \<in> extent c. mem_bytes m1 i = 0)"
    using al(3) by (auto simp: cleared_def)
  with 1 2 al(1) free_zeroed [OF assms 2] show ?thesis by blast
qed

theorem malloc_zeroed_witness:
  "\<exists>p m'. Mem_alloc 40 (the (load_mem 4096)) = Some (p, m') \<and> zeroed m'"
  using malloc_zeroed [OF loaded(1,2), of 40 0] by blast

text \<open>
  \<open>calloc\<close> never panics; a block it returns is new, at least as large as requested, zero in its
  first \<open>size\<close> bytes whatever was in memory before, and no byte of another live block changes.
\<close>

theorem calloc_correct:
  assumes "mem_ok m"
  shows "\<exists>p m'. Mem_calloc sz m = Some (p, m') \<and> mem_ok m' \<and>
    (if p = 0 then blocks m' = blocks m \<and> mem_bytes m' = mem_bytes m
     else \<exists>c. c_base c = p \<and> c \<notin> blocks m \<and> blocks m' = insert c (blocks m) \<and> sz \<le> c_size c \<and>
       (\<forall>i < unat sz. mem_bytes m' (cb c + i) = 0) \<and>
       (\<forall>d \<in> blocks m. \<forall>i \<in> extent d. mem_bytes m' i = mem_bytes m i))"
  using assms by (rule Mem_calloc_ok)

theorem calloc_correct_witness:
  "\<exists>p m'. Mem_calloc 40 (the (load_mem 4096)) = Some (p, m') \<and> mem_ok m'"
  using calloc_correct [OF loaded(1), of 40] by blast

section \<open>Witnesses of the access properties\<close>

theorem write_read_u32_witness:
  "\<exists>m'. write_u32 5000 77 (the (load_mem 4096)) = Some m' \<and> read_u32 m' 5000 = Some 77"
  using write_read_u32 [of "the (load_mem 4096)" 5000 77] by (auto simp: loaded(4))

theorem null_segment_access_witness:
  "byte_at (the (load_mem 4096)) 0xFFE = 0 \<and> read_raw (the (load_mem 4096)) 4 0xFFE = None"
  using null_segment_access [of "0xFFE" "the (load_mem 4096)" 4 "[1, 2, 3, 4]"]
  by (simp add: loaded(4))

section \<open>C strings\<close>

lemma cstr_scan_spec:
  "len < mx \<Longrightarrow> (let n = cstr_scan m p mx len in
    len \<le> n \<and> n \<le> mx \<and> (\<forall>i. len \<le> i \<and> i < n \<longrightarrow> byte_at m (p + of_nat i) \<noteq> 0) \<and>
    (n < mx \<longrightarrow> byte_at m (p + of_nat n) = 0))"
proof (induction m p mx len rule: cstr_scan.induct)
  case (1 m p mx len)
  show ?case
  proof (cases "byte_at m (p + of_nat len) = 0 \<or> len + 1 \<ge> mx")
    case True
    then show ?thesis
      using 1(2) by (auto simp: cstr_scan.simps [of m p mx len] less_Suc_eq)
  next
    case False
    then have eq: "cstr_scan m p mx len = cstr_scan m p mx (len + 1)"
      by (simp add: cstr_scan.simps [of m p mx len])
    have "len + 1 \<le> i \<or> i = len" if "len \<le> i" for i using that by auto
    with 1(1) False show ?thesis unfolding eq Let_def by fastforce
  qed
qed

lemma cstr_at_spec:
  assumes "0 < null_segment_size m"
  shows "length (cstr_at m p) \<le> 65536 \<and>
    (\<forall>i < length (cstr_at m p). cstr_at m p ! i = byte_at m (p + of_nat i) \<and> byte_at m (p + of_nat i) \<noteq> 0) \<and>
    (length (cstr_at m p) < 65536 \<longrightarrow> byte_at m (p + of_nat (length (cstr_at m p))) = 0)"
proof -
  let ?n = "cstr_scan m p 65536 0"
  have n: "?n \<le> 65536" "\<forall>i < ?n. byte_at m (p + of_nat i) \<noteq> 0" "?n < 65536 \<longrightarrow> byte_at m (p + of_nat ?n) = 0"
    using cstr_scan_spec [of 0 65536 m p] by (auto simp: Let_def)
  have un: "unat (of_nat ?n :: u32) = ?n" using n(1) by (simp add: unat_of_nat)
  have eq: "cstr_at m p = slice_list m (bytes_at m p (of_nat ?n))"
    by (simp add: cstr_at_def cstr_at_with_max_len_def)
  have nowrap: "unat p + ?n \<le> 4294967296"
  proof (rule ccontr)
    assume "\<not> unat p + ?n \<le> 4294967296"
    then have i: "4294967296 - unat p < ?n" using unat_lt_u32 [of p] by linarith
    have "p + of_nat (4294967296 - unat p) = 0"
      using unat_lt_u32 [of p] by (simp add: of_nat_diff less_imp_le)
    with n(2) i assms show False by (auto simp: byte_at_eq)
  qed
  have "length (cstr_at m p) = ?n \<and> (\<forall>i < ?n. cstr_at m p ! i = byte_at m (p + of_nat i))"
  proof (cases "p < null_segment_size m")
    case True
    then have "byte_at m p = 0" by (simp add: byte_at_eq)
    then have "?n = 0" by (simp add: cstr_scan.simps [of m p _ 0])
    with True show ?thesis by (simp add: eq bytes_at_null slice_list_def)
  next
    case False
    then have sl: "bytes_at m p (of_nat ?n) = In_bytes (unat p) ?n"
      using bytes_at_array [of m p "of_nat ?n"] nowrap un by (simp add: BYTES_LEN_def)
    have "unat (p + of_nat i) = unat p + i" if "i < ?n" for i
      using that nowrap n(1) by (subst unat_plus_u32) (simp_all add: unat_of_nat)
    moreover have "\<not> p + of_nat i < null_segment_size m" if "i < ?n" for i
      using n(2) that by (auto simp: byte_at_eq)
    ultimately show ?thesis by (simp add: eq sl slice_list_def byte_at_eq)
  qed
  with n show ?thesis by simp
qed

text \<open>
  with a null segment, \<open>cstr_at\<close> returns exactly the bytes up to the first NUL, or the first
  64 KiB when none of them is NUL; a pointer that runs to the end of the address space stops there.
\<close>

theorem cstr_at_correct:
  assumes "0 < null_segment_size m"
  shows "length (cstr_at m p) \<le> 65536 \<and>
    (\<forall>i < length (cstr_at m p). cstr_at m p ! i = byte_at m (p + of_nat i) \<and> byte_at m (p + of_nat i) \<noteq> 0) \<and>
    (length (cstr_at m p) < 65536 \<longrightarrow> byte_at m (p + of_nat (length (cstr_at m p))) = 0)"
  using assms by (rule cstr_at_spec)

theorem cstr_at_correct_witness:
  "length (cstr_at (the (load_mem 4096)) 5000) \<le> 65536"
  using cstr_at_correct [of "the (load_mem 4096)" 5000] by (simp add: loaded(4))

end
