(* ===== verification/CString.thy ===== *)
theory CString
  imports GuestMem
begin

text \<open>
  The C string functions (\<open>src/libc/generic_char.rs\<close> at \<open>u8\<close>, and \<open>src/libc/string.rs\<close>) over the
  guest memory.  Pointers and counters are 32-bit words and wrap.  A loop whose end depends on
  what the guest stored is a partial function: \<open>None\<close> is a loop that does not end.  A loop over a
  range is \<open>for_range\<close>.
\<close>

section \<open>Bytes\<close>

definition put_byte :: "vaddr \<Rightarrow> u8 \<Rightarrow> mem \<Rightarrow> mem" where
  "put_byte p v m = slice_put (bytes_at_mut m p 1) 0 [v] m"

lemma write_u8_put_byte: "write_u8 p v m = Some (put_byte p v m)"
proof -
  have "le_bytes 1 v = [v]" by (simp add: le_bytes_def)
  moreover have "1 \<le> slice_len (bytes_at_mut m p 1)"
    by (auto simp: bytes_at_mut_def stub_part_len Suc_le_eq)
  ultimately show ?thesis
    by (simp add: write_u8_def write_raw_def put_byte_def Let_def panic_simps)
qed

section \<open>GenericChar\<close>

definition gc_capped :: "u32 \<Rightarrow> u32 \<Rightarrow> u32" where
  "gc_capped cnt dest_count = (if cnt > dest_count then dest_count else cnt)"

definition gc_memset :: "vaddr \<Rightarrow> u8 \<Rightarrow> u32 \<Rightarrow> u32 \<Rightarrow> mem \<Rightarrow> vaddr \<times> mem" where
  "gc_memset dest ch cnt dest_count m =
     (let actual = gc_capped cnt dest_count in
      (dest, for_range 0 (unat actual) (\<lambda>i. put_byte (dest + of_nat i) ch) m))"

definition gc_memcpy :: "vaddr \<Rightarrow> vaddr \<Rightarrow> u32 \<Rightarrow> u32 \<Rightarrow> mem \<Rightarrow> vaddr \<times> mem" where
  "gc_memcpy dest src sz dest_size m =
     (let actual = gc_capped sz dest_size in (dest, memmove dest src (actual * 1) m))"

definition gc_memmove :: "vaddr \<Rightarrow> vaddr \<Rightarrow> u32 \<Rightarrow> u32 \<Rightarrow> mem \<Rightarrow> vaddr \<times> mem" where
  "gc_memmove dest src sz dest_size m =
     (let actual = gc_capped sz dest_size in (dest, memmove dest src (actual * 1) m))"

function gc_memcmp_from :: "mem \<Rightarrow> vaddr \<Rightarrow> vaddr \<Rightarrow> u32 \<Rightarrow> u32 \<Rightarrow> i32" where
  "gc_memcmp_from m a b n offset =
     (if offset < n then
        (let char_a = byte_at m (a + offset); char_b = byte_at m (b + offset) in
         if char_a < char_b then - 1
         else if char_a > char_b then 1
         else gc_memcmp_from m a b n (offset + 1))
      else 0)"
  by pat_completeness auto
termination
  by (relation "measure (\<lambda>(m, a, b, n, offset). unat n - unat offset)")
    (auto simp: unat_succ_less word_less_nat_alt intro!: diff_less_mono2)

declare gc_memcmp_from.simps [simp del]

definition gc_memcmp :: "mem \<Rightarrow> vaddr \<Rightarrow> vaddr \<Rightarrow> u32 \<Rightarrow> i32" where
  "gc_memcmp m a b n = gc_memcmp_from m a b n 0"

definition gc_memchr :: "mem \<Rightarrow> vaddr \<Rightarrow> u8 \<Rightarrow> u32 \<Rightarrow> vaddr" where
  "gc_memchr m string c sz =
     (case find (\<lambda>i. byte_at m (string + of_nat i) = c) [0..<unat sz] of
        None \<Rightarrow> 0 | Some i \<Rightarrow> string + of_nat i)"

partial_function (option) gc_strlen_from :: "mem \<Rightarrow> vaddr \<Rightarrow> u32 \<Rightarrow> u32 option" where
  "gc_strlen_from m s i =
     (if byte_at m (s + i) \<noteq> 0 then gc_strlen_from m s (i + 1) else Some i)"

definition gc_strlen :: "mem \<Rightarrow> vaddr \<Rightarrow> u32 option" where
  "gc_strlen m s = gc_strlen_from m s 0"

function gc_strcpy_loop :: "vaddr \<Rightarrow> vaddr \<Rightarrow> u32 \<Rightarrow> mem \<Rightarrow> mem" where
  "gc_strcpy_loop dest_p src bufsz m =
     (if bufsz = 0 then put_byte dest_p 0 m
      else let c = byte_at m src; m1 = put_byte dest_p c m in
        if c = 0 then m1
        else gc_strcpy_loop (dest_p + 1) (src + 1) (bufsz - 1) m1)"
  by pat_completeness auto
termination
  by (relation "measure (\<lambda>(dest_p, src, bufsz, m). unat bufsz)")
    (auto simp: unat_minus_one unat_gt_0)

declare gc_strcpy_loop.simps [simp del]

definition gc_strcpy :: "vaddr \<Rightarrow> vaddr \<Rightarrow> u32 \<Rightarrow> mem \<Rightarrow> vaddr \<times> mem" where
  "gc_strcpy dest src bufsz m = (dest, gc_strcpy_loop dest src bufsz m)"

definition gc_strcat :: "vaddr \<Rightarrow> vaddr \<Rightarrow> u32 \<Rightarrow> mem \<Rightarrow> (vaddr \<times> mem) option" where
  "gc_strcat dest src bufsz m = do {
     dest_len \<leftarrow> gc_strlen m dest;
     let tail = dest + dest_len;
     if bufsz < dest_len then Some (dest, m)
     else (let remaining = bufsz - dest_len in
           Some (dest, snd (gc_strcpy tail src remaining m)))
   }"

text \<open>
  The inner loop of \<open>strcspn\<close>, \<open>strspn\<close> and \<open>strpbrk\<close>: does the character occur in the set?
  \<open>strcspn\<close> compares before it looks for the end of the set, the other two after.
\<close>

partial_function (option) gc_in_charset :: "mem \<Rightarrow> u8 \<Rightarrow> vaddr \<Rightarrow> u32 \<Rightarrow> bool option" where
  "gc_in_charset m c charset j =
     (let cc = byte_at m (charset + j) in
      if c = cc then Some True
      else if cc = 0 then Some False
      else gc_in_charset m c charset (j + 1))"

partial_function (option) gc_in_accept :: "mem \<Rightarrow> u8 \<Rightarrow> vaddr \<Rightarrow> u32 \<Rightarrow> bool option" where
  "gc_in_accept m c accept j =
     (let a = byte_at m (accept + j) in
      if a = 0 then Some False
      else if c = a then Some True
      else gc_in_accept m c accept (j + 1))"

partial_function (option) gc_strcspn_from :: "mem \<Rightarrow> vaddr \<Rightarrow> vaddr \<Rightarrow> u32 \<Rightarrow> u32 option" where
  "gc_strcspn_from m s charset i =
     (let c = byte_at m (s + i) in
      if c = 0 then Some i
      else do {
        found \<leftarrow> gc_in_charset m c charset 0;
        if found then Some i else gc_strcspn_from m s charset (i + 1)
      })"

definition gc_strcspn :: "mem \<Rightarrow> vaddr \<Rightarrow> vaddr \<Rightarrow> u32 option" where
  "gc_strcspn m s charset = gc_strcspn_from m s charset 0"

partial_function (option) gc_strspn_from :: "mem \<Rightarrow> vaddr \<Rightarrow> vaddr \<Rightarrow> u32 \<Rightarrow> u32 option" where
  "gc_strspn_from m s accept i =
     (let c = byte_at m (s + i) in
      if c = 0 then Some i
      else do {
        found \<leftarrow> gc_in_accept m c accept 0;
        if \<not> found then Some i else gc_strspn_from m s accept (i + 1)
      })"

definition gc_strspn :: "mem \<Rightarrow> vaddr \<Rightarrow> vaddr \<Rightarrow> u32 option" where
  "gc_strspn m s accept = gc_strspn_from m s accept 0"

partial_function (option) gc_strpbrk_from :: "mem \<Rightarrow> vaddr \<Rightarrow> vaddr \<Rightarrow> u32 \<Rightarrow> vaddr option" where
  "gc_strpbrk_from m s accept i =
     (let c = byte_at m (s + i) in
      if c = 0 then Some 0
      else do {
        found \<leftarrow> gc_in_accept m c accept 0;
        if found then Some (s + i) else gc_strpbrk_from m s accept (i + 1)
      })"

definition gc_strpbrk :: "mem \<Rightarrow> vaddr \<Rightarrow> vaddr \<Rightarrow> vaddr option" where
  "gc_strpbrk m s accept = gc_strpbrk_from m s accept 0"

text \<open>The state of the loop of \<open>strncpy\<close> is the flag \<open>end\<close> and the memory.\<close>

definition gc_strncpy :: "vaddr \<Rightarrow> vaddr \<Rightarrow> u32 \<Rightarrow> u32 \<Rightarrow> mem \<Rightarrow> vaddr \<times> mem" where
  "gc_strncpy dest src sz dest_size m =
     (let actual = gc_capped sz dest_size in
      (dest, snd (for_range 0 (unat actual) (\<lambda>i (ended, m).
         if \<not> ended then
           (let c = byte_at m (src + of_nat i) in (c = 0, put_byte (dest + of_nat i) c m))
         else (ended, put_byte (dest + of_nat i) 0 m)) (False, m))))"

definition gc_strdup :: "vaddr \<Rightarrow> mem \<Rightarrow> (vaddr \<times> mem) option" where
  "gc_strdup src m = do {
     len \<leftarrow> gc_strlen m src;
     (new, m1) \<leftarrow> Mem_alloc ((len + 1) * 1) m;
     Some (gc_strcpy new src u32_max m1)
   }"

partial_function (option) gc_strcmp_from :: "mem \<Rightarrow> vaddr \<Rightarrow> vaddr \<Rightarrow> u32 \<Rightarrow> i32 option" where
  "gc_strcmp_from m a b offset =
     (let char_a = byte_at m (a + offset); char_b = byte_at m (b + offset) in
      if char_a < char_b then Some (- 1)
      else if char_a > char_b then Some 1
      else if char_a = 0 then Some 0
      else gc_strcmp_from m a b (offset + 1))"

definition gc_strcmp :: "mem \<Rightarrow> vaddr \<Rightarrow> vaddr \<Rightarrow> i32 option" where
  "gc_strcmp m a b = gc_strcmp_from m a b 0"

partial_function (option) gc_strncmp_from :: "mem \<Rightarrow> vaddr \<Rightarrow> vaddr \<Rightarrow> u32 \<Rightarrow> u32 \<Rightarrow> i32 option" where
  "gc_strncmp_from m a b n offset =
     (let char_a = byte_at m (a + offset); char_b = byte_at m (b + offset); offset' = offset + 1 in
      if char_a < char_b then Some (- 1)
      else if char_a > char_b then Some 1
      else if offset' = n \<or> char_a = 0 then Some 0
      else gc_strncmp_from m a b n offset')"

definition gc_strncmp :: "mem \<Rightarrow> vaddr \<Rightarrow> vaddr \<Rightarrow> u32 \<Rightarrow> i32 option" where
  "gc_strncmp m a b n = (if n = 0 then Some 0 else gc_strncmp_from m a b n 0)"

text \<open>The loop of \<open>strncat\<close>, from the \<open>i\<close>th of \<open>n\<close> characters.\<close>

function gc_strncat_loop :: "vaddr \<Rightarrow> vaddr \<Rightarrow> nat \<Rightarrow> nat \<Rightarrow> mem \<Rightarrow> mem" where
  "gc_strncat_loop s1end s2 n i m =
     (if i < n then
        (let c = byte_at m (s2 + of_nat i); m1 = put_byte (s1end + of_nat i) c m in
         if c = 0 then m1 else gc_strncat_loop s1end s2 n (i + 1) m1)
      else put_byte (s1end + of_nat n) 0 m)"
  by pat_completeness auto
termination by (relation "measure (\<lambda>(s1end, s2, n, i, m). n - i)") auto

declare gc_strncat_loop.simps [simp del]

definition gc_strncat :: "vaddr \<Rightarrow> vaddr \<Rightarrow> u32 \<Rightarrow> mem \<Rightarrow> (vaddr \<times> mem) option" where
  "gc_strncat s1 s2 n m = do {
     len \<leftarrow> gc_strlen m s1;
     Some (s1, gc_strncat_loop (s1 + len) s2 (unat n) 0 m)
   }"

text \<open>The inner loop of \<open>strstr\<close>: the whole substring matches, the string ends, or neither.\<close>

datatype strstr_inner = Match | String_end | Mismatch

partial_function (option) gc_strstr_inner ::
    "mem \<Rightarrow> vaddr \<Rightarrow> vaddr \<Rightarrow> u32 \<Rightarrow> u32 \<Rightarrow> strstr_inner option" where
  "gc_strstr_inner m string substring offset inner_offset =
     (let char_string = byte_at m (string + offset + inner_offset);
          char_substring = byte_at m (substring + inner_offset) in
      if char_substring = 0 then Some Match
      else if char_string = 0 then Some String_end
      else if char_string \<noteq> char_substring then Some Mismatch
      else gc_strstr_inner m string substring offset (inner_offset + 1))"

partial_function (option) gc_strstr_from :: "mem \<Rightarrow> vaddr \<Rightarrow> vaddr \<Rightarrow> u32 \<Rightarrow> vaddr option" where
  "gc_strstr_from m string substring offset = do {
     r \<leftarrow> gc_strstr_inner m string substring offset 0;
     case r of
       Match \<Rightarrow> Some (string + offset)
     | String_end \<Rightarrow> Some 0
     | Mismatch \<Rightarrow> gc_strstr_from m string substring (offset + 1)
   }"

definition gc_strstr :: "mem \<Rightarrow> vaddr \<Rightarrow> vaddr \<Rightarrow> vaddr option" where
  "gc_strstr m string substring = gc_strstr_from m string substring 0"

partial_function (option) gc_strchr_from :: "mem \<Rightarrow> vaddr \<Rightarrow> u8 \<Rightarrow> u32 \<Rightarrow> u32 \<Rightarrow> vaddr option" where
  "gc_strchr_from m string ch len offset =
     (if byte_at m (string + offset) = ch then Some (string + offset)
      else if offset = len then Some 0
      else gc_strchr_from m string ch len (offset + 1))"

definition gc_strchr :: "mem \<Rightarrow> vaddr \<Rightarrow> u8 \<Rightarrow> vaddr option" where
  "gc_strchr m string ch = do {
     len \<leftarrow> gc_strlen m string;
     gc_strchr_from m string ch len 0
   }"

function gc_strrchr_from :: "mem \<Rightarrow> vaddr \<Rightarrow> u8 \<Rightarrow> u32 \<Rightarrow> vaddr" where
  "gc_strrchr_from m string ch offset =
     (if byte_at m (string + offset) = ch then string + offset
      else if offset = 0 then 0
      else gc_strrchr_from m string ch (offset - 1))"
  by pat_completeness auto
termination
  by (relation "measure (\<lambda>(m, string, ch, offset). unat offset)")
    (auto simp: unat_minus_one unat_gt_0)

declare gc_strrchr_from.simps [simp del]

definition gc_strrchr :: "mem \<Rightarrow> vaddr \<Rightarrow> u8 \<Rightarrow> vaddr option" where
  "gc_strrchr m string ch = do {
     len \<leftarrow> gc_strlen m string;
     Some (gc_strrchr_from m string ch len)
   }"

partial_function (option) gc_strlcpy_loop ::
    "vaddr \<Rightarrow> vaddr \<Rightarrow> u32 \<Rightarrow> u32 \<Rightarrow> mem \<Rightarrow> (u32 \<times> mem) option" where
  "gc_strlcpy_loop dst src sz i m =
     (let c = byte_at m (src + i);
          m1 = (if i < sz - 1 then put_byte (dst + i) c m
                else if i = sz - 1 then put_byte (dst + i) 0 m
                else m) in
      if c = 0 then Some (i, m1) else gc_strlcpy_loop dst src sz (i + 1) m1)"

definition gc_strlcpy :: "vaddr \<Rightarrow> vaddr \<Rightarrow> u32 \<Rightarrow> mem \<Rightarrow> (u32 \<times> mem) option" where
  "gc_strlcpy dst src sz m = gc_strlcpy_loop dst src sz 0 m"

definition gc_strlcat :: "vaddr \<Rightarrow> vaddr \<Rightarrow> u32 \<Rightarrow> mem \<Rightarrow> (u32 \<times> mem) option" where
  "gc_strlcat dst src sz m = do {
     dst_len \<leftarrow> gc_strlen m dst;
     src_len \<leftarrow> gc_strlen m src;
     if dst_len \<ge> sz then Some (sz + src_len, m)
     else (let copy_len = min (sz - dst_len - 1) src_len;
               m1 = for_range 0 (unat copy_len)
                 (\<lambda>i m. put_byte (dst + dst_len + of_nat i) (byte_at m (src + of_nat i)) m) m in
           Some (dst_len + src_len, put_byte (dst + dst_len + copy_len) 0 m1))
   }"

section \<open>string.h\<close>

definition c_u8 :: "i32 \<Rightarrow> u8" where "c_u8 c = ucast c"

definition str_memset :: "vaddr \<Rightarrow> i32 \<Rightarrow> u32 \<Rightarrow> mem \<Rightarrow> vaddr \<times> mem" where
  "str_memset dest ch cnt m = gc_memset dest (c_u8 ch) cnt u32_max m"

definition str_bzero :: "vaddr \<Rightarrow> u32 \<Rightarrow> mem \<Rightarrow> mem" where
  "str_bzero dest cnt m = snd (str_memset dest 0 cnt m)"

definition str_memset_chk :: "vaddr \<Rightarrow> i32 \<Rightarrow> u32 \<Rightarrow> u32 \<Rightarrow> mem \<Rightarrow> vaddr \<times> mem" where
  "str_memset_chk dest ch cnt dest_count m = gc_memset dest (c_u8 ch) cnt dest_count m"

definition memset_pattern_inner :: "vaddr \<Rightarrow> vaddr \<Rightarrow> u32 \<Rightarrow> u32 \<Rightarrow> mem \<Rightarrow> mem option" where
  "memset_pattern_inner b pattern len pattern_len m = do {
     expect (pattern_len = 4 \<or> pattern_len = 8 \<or> pattern_len = 16);
     let src = bytes_at m pattern pattern_len;
     expect (slice_len src = unat pattern_len);
     let tmp = slice_list m src;
     m1 \<leftarrow> fold (\<lambda>k r. do {
         m \<leftarrow> r;
         let s = bytes_at_mut m (b + of_nat k * pattern_len) pattern_len;
         expect (slice_len s = unat pattern_len);
         Some (slice_put s 0 tmp m)
       }) [0..<unat (len div pattern_len)] (Some m);
     let target = b + (len div pattern_len) * pattern_len;
     Some (for_range 0 (unat (len mod pattern_len))
       (\<lambda>i m. put_byte (target + of_nat i) (byte_at m (pattern + of_nat i)) m) m1)
   }"

definition memset_pattern4 :: "vaddr \<Rightarrow> vaddr \<Rightarrow> u32 \<Rightarrow> mem \<Rightarrow> mem option" where
  "memset_pattern4 b pattern len m = memset_pattern_inner b pattern len 4 m"

definition memset_pattern8 :: "vaddr \<Rightarrow> vaddr \<Rightarrow> u32 \<Rightarrow> mem \<Rightarrow> mem option" where
  "memset_pattern8 b pattern len m = memset_pattern_inner b pattern len 8 m"

definition memset_pattern16 :: "vaddr \<Rightarrow> vaddr \<Rightarrow> u32 \<Rightarrow> mem \<Rightarrow> mem option" where
  "memset_pattern16 b pattern len m = memset_pattern_inner b pattern len 16 m"

definition str_memcpy :: "vaddr \<Rightarrow> vaddr \<Rightarrow> u32 \<Rightarrow> mem \<Rightarrow> vaddr \<times> mem" where
  "str_memcpy dest src sz m = gc_memcpy dest src sz u32_max m"

definition str_memcpy_chk :: "vaddr \<Rightarrow> vaddr \<Rightarrow> u32 \<Rightarrow> u32 \<Rightarrow> mem \<Rightarrow> vaddr \<times> mem" where
  "str_memcpy_chk dest src sz dest_size m = gc_memcpy dest src sz dest_size m"

definition str_memmove :: "vaddr \<Rightarrow> vaddr \<Rightarrow> u32 \<Rightarrow> mem \<Rightarrow> vaddr \<times> mem" where
  "str_memmove dest src sz m = gc_memmove dest src sz u32_max m"

definition str_memmove_chk :: "vaddr \<Rightarrow> vaddr \<Rightarrow> u32 \<Rightarrow> u32 \<Rightarrow> mem \<Rightarrow> vaddr \<times> mem" where
  "str_memmove_chk dest src sz dest_size m = gc_memmove dest src sz dest_size m"

definition str_bcopy :: "vaddr \<Rightarrow> vaddr \<Rightarrow> u32 \<Rightarrow> mem \<Rightarrow> mem" where
  "str_bcopy src dest cnt m = snd (str_memmove dest src cnt m)"

definition str_memchr :: "mem \<Rightarrow> vaddr \<Rightarrow> i32 \<Rightarrow> u32 \<Rightarrow> vaddr" where
  "str_memchr m string c sz = gc_memchr m string (c_u8 c) sz"

definition str_strcpy :: "vaddr \<Rightarrow> vaddr \<Rightarrow> mem \<Rightarrow> vaddr \<times> mem" where
  "str_strcpy dest src m = gc_strcpy dest src u32_max m"

definition str_strcpy_chk :: "vaddr \<Rightarrow> vaddr \<Rightarrow> u32 \<Rightarrow> mem \<Rightarrow> vaddr \<times> mem" where
  "str_strcpy_chk dest src sz m = gc_strcpy dest src sz m"

definition str_strcat :: "vaddr \<Rightarrow> vaddr \<Rightarrow> mem \<Rightarrow> (vaddr \<times> mem) option" where
  "str_strcat dest src m = gc_strcat dest src u32_max m"

definition str_strcat_chk :: "vaddr \<Rightarrow> vaddr \<Rightarrow> u32 \<Rightarrow> mem \<Rightarrow> (vaddr \<times> mem) option" where
  "str_strcat_chk dest src sz m = gc_strcat dest src sz m"

definition str_strncpy :: "vaddr \<Rightarrow> vaddr \<Rightarrow> u32 \<Rightarrow> mem \<Rightarrow> vaddr \<times> mem" where
  "str_strncpy dest src sz m = gc_strncpy dest src sz u32_max m"

definition str_strncpy_chk :: "vaddr \<Rightarrow> vaddr \<Rightarrow> u32 \<Rightarrow> u32 \<Rightarrow> mem \<Rightarrow> vaddr \<times> mem" where
  "str_strncpy_chk dest src sz dest_size m = gc_strncpy dest src sz dest_size m"

subsection \<open>strtok\<close>

text \<open>The state of \<open>strtok\<close> is the saved pointer, if any.\<close>

definition str_strtok_start :: "vaddr \<Rightarrow> vaddr option \<Rightarrow> vaddr option" where
  "str_strtok_start s saved =
     (if s = 0 then (case saved of Some st \<Rightarrow> if st \<noteq> 0 then Some st else None | None \<Rightarrow> None)
      else Some s)"

text \<open>Skipping separators: \<open>None\<close> inside at the end of the string.\<close>

partial_function (option) skip_seps :: "mem \<Rightarrow> u8 list \<Rightarrow> vaddr \<Rightarrow> vaddr option option" where
  "skip_seps m sep p =
     (let c = byte_at m p in
      if c = 0 then Some None
      else if c \<in> set sep then skip_seps m sep (p + 1)
      else Some (Some p))"

text \<open>The end of the token: the pointer after the separator that was overwritten, or null.\<close>

partial_function (option) token_end :: "u8 list \<Rightarrow> vaddr \<Rightarrow> mem \<Rightarrow> (vaddr \<times> mem) option" where
  "token_end sep p m =
     (let c = byte_at m p in
      if c \<in> set sep then Some (p + 1, put_byte p 0 m)
      else if c = 0 then Some (0, m)
      else token_end sep (p + 1) m)"

definition str_strtok ::
    "vaddr \<Rightarrow> vaddr \<Rightarrow> vaddr option \<Rightarrow> mem \<Rightarrow> (vaddr \<times> vaddr option \<times> mem) option" where
  "str_strtok s sep saved m =
     (case str_strtok_start s saved of
        None \<Rightarrow> Some (0, None, m)
      | Some s \<Rightarrow> do {
          let seps = cstr_at m sep;
          start \<leftarrow> skip_seps m seps s;
          case start of
            None \<Rightarrow> Some (0, None, m)
          | Some token_start \<Rightarrow> do {
              (next_token, m1) \<leftarrow> token_end seps token_start m;
              Some (token_start, Some next_token, m1)
            }
        })"

text \<open>\<open>strtok_r\<close> keeps the saved pointer in guest memory.\<close>

definition str_strtok_r :: "vaddr \<Rightarrow> vaddr \<Rightarrow> vaddr \<Rightarrow> mem \<Rightarrow> (vaddr \<times> mem) option" where
  "str_strtok_r s sep saveptr m = do {
     start \<leftarrow> (if s \<noteq> 0 then Some s else read_u32 m saveptr);
     if start = 0 then Some (0, m)
     else do {
       let seps = cstr_at m sep;
       tok \<leftarrow> skip_seps m seps start;
       case tok of
         None \<Rightarrow> do { m1 \<leftarrow> write_u32 saveptr 0 m; Some (0, m1) }
       | Some token_start \<Rightarrow> do {
           (next_token, m1) \<leftarrow> token_end seps token_start m;
           m2 \<leftarrow> write_u32 saveptr next_token m1;
           Some (token_start, m2)
         }
     }
   }"

partial_function (option) str_strsep_loop ::
    "vaddr \<Rightarrow> vaddr \<Rightarrow> vaddr \<Rightarrow> u32 \<Rightarrow> mem \<Rightarrow> mem option" where
  "str_strsep_loop stringp delim orig i m =
     (let c = byte_at m (orig + i) in
      if c = 0 then write_u32 stringp 0 m
      else do {
        found \<leftarrow> gc_in_charset m c delim 0;
        if found then write_u32 stringp (orig + i + 1) (put_byte (orig + i) 0 m)
        else str_strsep_loop stringp delim orig (i + 1) m
      })"

definition str_strsep :: "vaddr \<Rightarrow> vaddr \<Rightarrow> mem \<Rightarrow> (vaddr \<times> mem) option" where
  "str_strsep stringp delim m = do {
     orig \<leftarrow> read_u32 m stringp;
     if orig = 0 then Some (0, m)
     else do { m1 \<leftarrow> str_strsep_loop stringp delim orig 0 m; Some (orig, m1) }
   }"

subsection \<open>The other functions\<close>

definition to_ascii_lowercase :: "u8 \<Rightarrow> u8" where
  "to_ascii_lowercase c = (if 65 \<le> c \<and> c \<le> 90 then c + 32 else c)"

partial_function (option) str_strcasecmp_from :: "mem \<Rightarrow> vaddr \<Rightarrow> vaddr \<Rightarrow> u32 \<Rightarrow> i32 option" where
  "str_strcasecmp_from m a b offset =
     (let char_a = to_ascii_lowercase (byte_at m (a + offset));
          char_b = to_ascii_lowercase (byte_at m (b + offset)) in
      if char_a < char_b then Some (- 1)
      else if char_a > char_b then Some 1
      else if char_a = 0 then Some 0
      else str_strcasecmp_from m a b (offset + 1))"

definition str_strcasecmp :: "mem \<Rightarrow> vaddr \<Rightarrow> vaddr \<Rightarrow> i32 option" where
  "str_strcasecmp m a b = str_strcasecmp_from m a b 0"

partial_function (option) str_strncasecmp_from :: "mem \<Rightarrow> vaddr \<Rightarrow> vaddr \<Rightarrow> u32 \<Rightarrow> u32 \<Rightarrow> i32 option" where
  "str_strncasecmp_from m a b n offset =
     (let char_a = to_ascii_lowercase (byte_at m (a + offset));
          char_b = to_ascii_lowercase (byte_at m (b + offset)); offset' = offset + 1 in
      if char_a < char_b then Some (- 1)
      else if char_a > char_b then Some 1
      else if offset' = n \<or> char_a = 0 then Some 0
      else str_strncasecmp_from m a b n offset')"

definition str_strncasecmp :: "mem \<Rightarrow> vaddr \<Rightarrow> vaddr \<Rightarrow> u32 \<Rightarrow> i32 option" where
  "str_strncasecmp m a b n = (if n = 0 then Some 0 else str_strncasecmp_from m a b n 0)"

definition str_strncat_chk :: "vaddr \<Rightarrow> vaddr \<Rightarrow> u32 \<Rightarrow> u32 \<Rightarrow> mem \<Rightarrow> (vaddr \<times> mem) option" where
  "str_strncat_chk dest src n dest_size m = gc_strncat dest src n m"

definition str_strndup :: "vaddr \<Rightarrow> u32 \<Rightarrow> mem \<Rightarrow> (vaddr \<times> mem) option" where
  "str_strndup src n m = do {
     l \<leftarrow> gc_strlen m src;
     let len = min l n;
     (buf, m1) \<leftarrow> Mem_alloc (len + 1) m;
     let m2 = for_range 0 (unat len)
       (\<lambda>i m. put_byte (buf + of_nat i) (byte_at m (src + of_nat i)) m) m1;
     Some (buf, put_byte (buf + len) 0 m2)
   }"

definition str_memrchr :: "mem \<Rightarrow> vaddr \<Rightarrow> i32 \<Rightarrow> u32 \<Rightarrow> vaddr" where
  "str_memrchr m s c n =
     (case find (\<lambda>i. byte_at m (s + of_nat i) = c_u8 c) (rev [0..<unat n]) of
        None \<Rightarrow> 0 | Some i \<Rightarrow> s + of_nat i)"

definition str_memmem :: "mem \<Rightarrow> vaddr \<Rightarrow> u32 \<Rightarrow> vaddr \<Rightarrow> u32 \<Rightarrow> vaddr" where
  "str_memmem m haystack haystacklen needle needlelen =
     (if needlelen = 0 then haystack
      else if needlelen > haystacklen then 0
      else case find (\<lambda>i. list_all (\<lambda>j. byte_at m (haystack + of_nat i + of_nat j) = byte_at m (needle + of_nat j))
             [0..<unat needlelen]) [0..<unat (haystacklen - needlelen) + 1] of
        None \<Rightarrow> 0 | Some i \<Rightarrow> haystack + of_nat i)"

partial_function (option) str_strchrnul_from :: "mem \<Rightarrow> vaddr \<Rightarrow> u8 \<Rightarrow> u32 \<Rightarrow> vaddr option" where
  "str_strchrnul_from m s c i =
     (let b = byte_at m (s + i) in
      if b = c \<or> b = 0 then Some (s + i) else str_strchrnul_from m s c (i + 1))"

definition str_strchrnul :: "mem \<Rightarrow> vaddr \<Rightarrow> u8 \<Rightarrow> vaddr option" where
  "str_strchrnul m s c = str_strchrnul_from m s c 0"

partial_function (option) str_stpcpy_loop :: "vaddr \<Rightarrow> vaddr \<Rightarrow> u32 \<Rightarrow> mem \<Rightarrow> (vaddr \<times> mem) option" where
  "str_stpcpy_loop dest src i m =
     (let c = byte_at m (src + i); m1 = put_byte (dest + i) c m in
      if c = 0 then Some (dest + i, m1) else str_stpcpy_loop dest src (i + 1) m1)"

definition str_stpcpy :: "vaddr \<Rightarrow> vaddr \<Rightarrow> mem \<Rightarrow> (vaddr \<times> mem) option" where
  "str_stpcpy dest src m = str_stpcpy_loop dest src 0 m"

function str_stpncpy_loop :: "vaddr \<Rightarrow> vaddr \<Rightarrow> nat \<Rightarrow> nat \<Rightarrow> mem \<Rightarrow> vaddr \<times> mem" where
  "str_stpncpy_loop dest src n i m =
     (if i < n then
        (let c = byte_at m (src + of_nat i); m1 = put_byte (dest + of_nat i) c m in
         if c = 0 then
           (dest + of_nat i, for_range (i + 1) n (\<lambda>j. put_byte (dest + of_nat j) 0) m1)
         else str_stpncpy_loop dest src n (i + 1) m1)
      else (dest + of_nat n, m))"
  by pat_completeness auto
termination by (relation "measure (\<lambda>(dest, src, n, i, m). n - i)") auto

declare str_stpncpy_loop.simps [simp del]

definition str_stpncpy :: "vaddr \<Rightarrow> vaddr \<Rightarrow> u32 \<Rightarrow> mem \<Rightarrow> vaddr \<times> mem" where
  "str_stpncpy dest src n m = str_stpncpy_loop dest src (unat n) 0 m"

definition strfry_index :: "u32 \<Rightarrow> u32" where
  "strfry_index i =
     (let k = (ucast i :: u64) * (6364136223846793005 + 1442695040888963407) in ucast k mod (i + 1))"

definition str_strfry :: "vaddr \<Rightarrow> mem \<Rightarrow> (vaddr \<times> mem) option" where
  "str_strfry s m = do {
     len \<leftarrow> gc_strlen m s;
     if len \<le> 1 then Some (s, m)
     else Some (s, fold (\<lambda>k m. let i = of_nat k; j = strfry_index i;
           a = byte_at m (s + i); b = byte_at m (s + j) in
         put_byte (s + j) a (put_byte (s + i) b m)) (rev [1..<unat len]) m)
   }"

definition str_explicit_bzero :: "vaddr \<Rightarrow> u32 \<Rightarrow> mem \<Rightarrow> mem" where
  "str_explicit_bzero dest cnt m = for_range 0 (unat cnt) (\<lambda>i. put_byte (dest + of_nat i) 0) m"

definition str_strnlen :: "mem \<Rightarrow> vaddr \<Rightarrow> u32 \<Rightarrow> u32" where
  "str_strnlen m s maxlen =
     (case find (\<lambda>i. byte_at m (s + of_nat i) = 0) [0..<unat maxlen] of
        None \<Rightarrow> maxlen | Some i \<Rightarrow> of_nat i)"

definition str_strcasestr :: "mem \<Rightarrow> vaddr \<Rightarrow> vaddr \<Rightarrow> vaddr" where
  "str_strcasestr m haystack needle =
     (if haystack = 0 \<or> needle = 0 then 0
      else let h = cstr_at m haystack; n = cstr_at m needle in
        if n = [] then haystack
        else if length h < length n then 0
        else case find (\<lambda>i. map to_ascii_lowercase (take (length n) (drop i h)) = map to_ascii_lowercase n)
               [0..<length h - length n + 1] of
          None \<Rightarrow> 0 | Some i \<Rightarrow> haystack + of_nat i)"

section \<open>The byte store\<close>

text \<open>Writing a list of bytes one after the other.\<close>

fun write_seq :: "(vaddr \<Rightarrow> u8 \<Rightarrow> 'm \<Rightarrow> 'm) \<Rightarrow> vaddr \<Rightarrow> u8 list \<Rightarrow> 'm \<Rightarrow> 'm" where
  "write_seq wr p [] m = m"
| "write_seq wr p (x # xs) m = write_seq wr (p + 1) xs (wr p x m)"

definition addrs :: "vaddr \<Rightarrow> nat \<Rightarrow> vaddr set" where
  "addrs p n = (\<lambda>j. p + of_nat j) ` {..<n}"

lemma addrs_0 [simp]: "addrs p 0 = {}" by (simp add: addrs_def)

lemma addrs_Suc: "addrs p (Suc n) = insert p (addrs (p + 1) n)"
  unfolding addrs_def lessThan_Suc_eq_insert_0 image_insert image_image by (simp add: add_ac)

lemma addrs_self: "0 < n \<Longrightarrow> p \<in> addrs p n" by (force simp: addrs_def)

lemma addrs_mono: "n \<le> k \<Longrightarrow> addrs p n \<subseteq> addrs p k" by (auto simp: addrs_def)

lemma not_in_addrs: "unat (q - p) \<ge> n \<Longrightarrow> n \<le> 2 ^ 32 \<Longrightarrow> q \<notin> addrs p n"
  by (auto simp: addrs_def unat_of_nat)

text \<open>
  What the string functions rely on: a byte that can be written reads back, every other byte
  stays; a byte that cannot be written (null segment) keeps its value.
\<close>

locale byte_store =
  fixes rd :: "'m \<Rightarrow> vaddr \<Rightarrow> u8"
    and wr :: "vaddr \<Rightarrow> u8 \<Rightarrow> 'm \<Rightarrow> 'm"
    and writable :: "'m \<Rightarrow> vaddr \<Rightarrow> bool"
  assumes rd_wr: "rd (wr q v m) p = (if p = q \<and> writable m q then v else rd m p)"
    and writable_wr: "writable (wr q v m) p = writable m p"
begin

lemma writable_seq: "writable (write_seq wr q xs m) p = writable m p"
  by (induction xs arbitrary: q m) (simp_all add: writable_wr)

lemma rd_seq_other: "p \<notin> addrs q (length xs) \<Longrightarrow> rd (write_seq wr q xs m) p = rd m p"
  by (induction xs arbitrary: q m) (auto simp: addrs_Suc rd_wr)

lemma rd_seq_locked: "\<not> writable m p \<Longrightarrow> rd (write_seq wr q xs m) p = rd m p"
  by (induction xs arbitrary: q m) (auto simp: rd_wr writable_wr)

lemma rd_seq:
  assumes "i < length xs" and "length xs \<le> 2 ^ 32" and "\<And>j. j < length xs \<Longrightarrow> writable m (q + of_nat j)"
  shows "rd (write_seq wr q xs m) (q + of_nat i) = xs ! i"
  using assms
proof (induction xs arbitrary: q m i)
  case (Cons x xs)
  have ok: "writable (wr q x m) (q + 1 + of_nat j)" if "j < length xs" for j
    using Cons.prems(3) [of "Suc j"] that by (simp add: writable_wr add.assoc)
  show ?case
  proof (cases i)
    case 0
    have "q \<notin> addrs (q + 1) (length xs)"
      by (rule not_in_addrs) (use Cons.prems(2) in \<open>simp_all add: unsigned_minus_1_eq_mask mask_eq_exp_minus_1\<close>)
    moreover have "writable m q" using Cons.prems(3) [of 0] by simp
    ultimately show ?thesis using 0 by (simp add: rd_seq_other rd_wr)
  next
    case (Suc k)
    then show ?thesis using Cons.IH [of k "wr q x m" "q + 1"] Cons.prems ok by (simp add: add.assoc)
  qed
qed simp

text \<open>Copying from bytes that are not among the written ones.\<close>

lemma rd_after_wr: "p \<noteq> q \<Longrightarrow> rd (wr q v m) p = rd m p"
  by (simp add: rd_wr)

end

lemma byte_at_put_byte:
  "byte_at (put_byte q v m) p = (if p = q \<and> null_segment_size m \<le> q then v else byte_at m p)"
proof (cases "null_segment_size m \<le> q")
  case True
  then have "put_byte q v m = m\<lparr>mem_bytes := poke (unat q) [v] (mem_bytes m)\<rparr>"
    using bytes_at_array [of m q 1] BYTES_LEN_ge [of 1 q] by (simp add: put_byte_def)
  with True show ?thesis
  proof (cases "p = q")
    case False
    then have "unat p \<noteq> unat q" by (simp add: u32_eq_iff)
    then have "\<not> (unat q \<le> unat p \<and> unat p < Suc (unat q))" by linarith
    with False \<open>put_byte q v m = _\<close> show ?thesis by (auto simp: byte_at_eq poke_def)
  qed (use True in \<open>auto simp: byte_at_eq poke_def\<close>)
next
  case False
  then show ?thesis by (auto simp: put_byte_def bytes_at_null byte_at_eq)
qed

lemma null_segment_put_byte [simp]: "null_segment_size (put_byte q v m) = null_segment_size m"
  by (simp add: put_byte_def)

interpretation guest: byte_store byte_at put_byte "\<lambda>m p. null_segment_size m \<le> p"
  by unfold_locales (simp_all add: byte_at_put_byte)

section \<open>C strings\<close>

fun has_cstr :: "mem \<Rightarrow> vaddr \<Rightarrow> u8 list \<Rightarrow> bool" where
  "has_cstr m s [] \<longleftrightarrow> byte_at m s = 0"
| "has_cstr m s (x # xs) \<longleftrightarrow> byte_at m s = x \<and> x \<noteq> 0 \<and> has_cstr m (s + 1) xs"

lemma has_cstr_nth: "has_cstr m s xs \<Longrightarrow> i < length xs \<Longrightarrow> byte_at m (s + of_nat i) = xs ! i"
proof (induction xs arbitrary: s i)
  case (Cons x xs)
  show ?case
  proof (cases i)
    case (Suc k)
    then show ?thesis using Cons.IH [of "s + 1" k] Cons.prems by (simp add: add.assoc)
  qed (use Cons.prems in simp)
qed simp

lemma has_cstr_end: "has_cstr m s xs \<Longrightarrow> byte_at m (s + of_nat (length xs)) = 0"
proof (induction xs arbitrary: s)
  case (Cons x xs)
  then show ?case using Cons.IH [of "s + 1"] by (simp add: add.assoc)
qed simp

lemma has_cstr_nonzero: "has_cstr m s xs \<Longrightarrow> 0 \<notin> set xs"
  by (induction xs arbitrary: s) auto

lemma has_cstr_iff:
  "has_cstr m s xs \<longleftrightarrow> (\<forall>i < length xs. byte_at m (s + of_nat i) = xs ! i) \<and> 0 \<notin> set xs \<and>
     byte_at m (s + of_nat (length xs)) = 0"
proof (induction xs arbitrary: s)
  case (Cons x xs)
  have "(\<forall>i < Suc (length xs). byte_at m (s + of_nat i) = (x # xs) ! i) \<longleftrightarrow>
     byte_at m s = x \<and> (\<forall>i < length xs. byte_at m (s + 1 + of_nat i) = xs ! i)"
    by (simp add: All_less_Suc2 add.assoc)
  then show ?case using Cons [of "s + 1"] by (auto simp: add.assoc)
qed simp

lemma has_cstr_length: "has_cstr m s xs \<Longrightarrow> length xs < 2 ^ 32"
proof (rule ccontr)
  assume h: "has_cstr m s xs" and "\<not> length xs < 2 ^ 32"
  then have ge: "2 ^ 32 \<le> length xs" by simp
  let ?k = "length xs mod 2 ^ 32"
  have "?k < length xs" using ge by (intro less_le_trans [OF mod_less_divisor]) simp_all
  moreover have "(of_nat ?k :: u32) = of_nat (length xs)" by (simp add: of_nat_inverse word_unat_eq_iff unat_of_nat)
  ultimately have "xs ! ?k = 0" using has_cstr_nth [OF h, of ?k] has_cstr_end [OF h] by simp
  with has_cstr_nonzero [OF h] \<open>?k < length xs\<close> show False by (metis nth_mem)
qed

lemma has_cstr_unique: "has_cstr m s xs \<Longrightarrow> has_cstr m s ys \<Longrightarrow> xs = ys"
proof (induction xs arbitrary: s ys)
  case Nil then show ?case by (cases ys) auto
next
  case (Cons x xs) then show ?case by (cases ys) auto
qed

text \<open>With a null segment every pointer is a string: the scan wraps to address 0 at the latest.\<close>

lemma has_cstr_exists:
  assumes "0 < null_segment_size m" shows "\<exists>xs. has_cstr m s xs"
proof (induction "unat (0 - s)" arbitrary: s)
  case 0
  then have "s = 0" by (simp add: unat_eq_0)
  then have "has_cstr m s []" using assms by (simp add: byte_at_eq)
  then show ?case by blast
next
  case (Suc n)
  have "- s \<noteq> 0" using Suc(2) by (metis diff_0 nat.discI unat_0)
  then have "unat (- s - 1) = unat (- s) - 1" by (rule unat_minus_one_u32)
  moreover have "0 - (s + 1) = - s - 1" by simp
  ultimately have "n = unat (0 - (s + 1))" using Suc(2) by (metis diff_0 diff_Suc_1)
  from Suc(1) [OF this] obtain xs where xs: "has_cstr m (s + 1) xs" by blast
  show ?case
  proof (cases "byte_at m s = 0")
    case True
    then have "has_cstr m s []" by simp
    then show ?thesis by blast
  next
    case False
    with xs have "has_cstr m s (byte_at m s # xs)" by simp
    then show ?thesis by blast
  qed
qed

lemma has_cstr_cong:
  "(\<And>p. p \<in> addrs s (Suc (length xs)) \<Longrightarrow> byte_at m' p = byte_at m p) \<Longrightarrow> has_cstr m' s xs = has_cstr m s xs"
proof (induction xs arbitrary: s)
  case Nil then show ?case by (simp add: addrs_Suc)
next
  case (Cons x xs)
  have "has_cstr m' (s + 1) xs = has_cstr m (s + 1) xs"
    by (rule Cons.IH) (use Cons.prems in \<open>simp add: addrs_Suc [of s]\<close>)
  then show ?case using Cons.prems by (simp add: addrs_Suc [of s])
qed

section \<open>Scanning\<close>

lemma gc_strlen_from_ok:
  "has_cstr m (s + i) xs \<Longrightarrow> gc_strlen_from m s i = Some (i + of_nat (length xs))"
proof (induction xs arbitrary: i)
  case Nil
  then show ?case by (simp add: gc_strlen_from.simps)
next
  case (Cons x xs)
  then show ?case using Cons.IH [of "i + 1"]
    by (subst gc_strlen_from.simps) (simp add: ac_simps)
qed

lemma gc_strlen_ok: "has_cstr m s xs \<Longrightarrow> gc_strlen m s = Some (of_nat (length xs))"
  using gc_strlen_from_ok [of m s 0 xs] by (simp add: gc_strlen_def)

lemma strlen_unat: "has_cstr m s xs \<Longrightarrow> unat (of_nat (length xs) :: u32) = length xs"
  using has_cstr_length [of m s xs] by (simp add: unat_of_nat)

text \<open>The order of \<open>strcmp\<close> on the contents: the first difference decides, a prefix is smaller.\<close>

fun cmp_bytes :: "u8 list \<Rightarrow> u8 list \<Rightarrow> i32" where
  "cmp_bytes [] [] = 0"
| "cmp_bytes [] (y # ys) = - 1"
| "cmp_bytes (x # xs) [] = 1"
| "cmp_bytes (x # xs) (y # ys) = (if x < y then - 1 else if x > y then 1 else cmp_bytes xs ys)"

lemma gc_strcmp_from_ok:
  "has_cstr m (a + i) xs \<Longrightarrow> has_cstr m (b + i) ys \<Longrightarrow> gc_strcmp_from m a b i = Some (cmp_bytes xs ys)"
proof (induction xs ys arbitrary: i rule: cmp_bytes.induct)
  case (4 x xs y ys)
  then show ?case using 4(1) [of "i + 1"]
    by (subst gc_strcmp_from.simps) (auto simp: ac_simps)
qed (subst gc_strcmp_from.simps; auto simp: word_gt_0 not_less_iff_gr_or_eq)+

lemma gc_strcmp_ok: "has_cstr m a xs \<Longrightarrow> has_cstr m b ys \<Longrightarrow> gc_strcmp m a b = Some (cmp_bytes xs ys)"
  using gc_strcmp_from_ok [of m a 0 xs b ys] by (simp add: gc_strcmp_def)

lemma cmp_bytes_refl [simp]: "cmp_bytes xs xs = 0" by (induction xs) auto

lemma cmp_bytes_eq: "cmp_bytes xs ys = 0 \<longleftrightarrow> xs = ys"
  by (induction xs ys rule: cmp_bytes.induct) auto

lemma cmp_bytes_swap: "cmp_bytes ys xs = - cmp_bytes xs ys"
  by (induction xs ys rule: cmp_bytes.induct) auto

lemma cmp_bytes_less: "cmp_bytes xs ys = - 1 \<longleftrightarrow> (xs, ys) \<in> lexord {(x, y). x < y}"
  by (induction xs ys rule: cmp_bytes.induct) (auto simp: not_less_iff_gr_or_eq)

lemma in_charset_ok:
  "c \<noteq> 0 \<Longrightarrow> has_cstr m (t + j) ys \<Longrightarrow> gc_in_charset m c t j = Some (c \<in> set ys)"
proof (induction ys arbitrary: j)
  case Nil then show ?case by (subst gc_in_charset.simps) simp
next
  case (Cons y ys)
  then show ?case using Cons.IH [of "j + 1"] by (subst gc_in_charset.simps) (auto simp: ac_simps)
qed

lemma in_accept_ok:
  "c \<noteq> 0 \<Longrightarrow> has_cstr m (t + j) ys \<Longrightarrow> gc_in_accept m c t j = Some (c \<in> set ys)"
proof (induction ys arbitrary: j)
  case Nil then show ?case by (subst gc_in_accept.simps) simp
next
  case (Cons y ys)
  then show ?case using Cons.IH [of "j + 1"] by (subst gc_in_accept.simps) (auto simp: ac_simps)
qed

lemma gc_strcspn_from_ok:
  "has_cstr m (s + i) xs \<Longrightarrow> has_cstr m t ys \<Longrightarrow>
     gc_strcspn_from m s t i = Some (i + of_nat (length (takeWhile (\<lambda>x. x \<notin> set ys) xs)))"
proof (induction xs arbitrary: i)
  case Nil then show ?case by (subst gc_strcspn_from.simps) simp
next
  case (Cons x xs)
  then show ?case using Cons.IH [of "i + 1"] in_charset_ok [of x m t 0 ys]
    by (subst gc_strcspn_from.simps) (auto simp: ac_simps)
qed

lemma gc_strspn_from_ok:
  "has_cstr m (s + i) xs \<Longrightarrow> has_cstr m t ys \<Longrightarrow>
     gc_strspn_from m s t i = Some (i + of_nat (length (takeWhile (\<lambda>x. x \<in> set ys) xs)))"
proof (induction xs arbitrary: i)
  case Nil then show ?case by (subst gc_strspn_from.simps) simp
next
  case (Cons x xs)
  then show ?case using Cons.IH [of "i + 1"] in_accept_ok [of x m t 0 ys]
    by (subst gc_strspn_from.simps) (auto simp: ac_simps)
qed

lemma gc_strpbrk_from_ok:
  "has_cstr m (s + i) xs \<Longrightarrow> has_cstr m t ys \<Longrightarrow>
     gc_strpbrk_from m s t i = Some (if set xs \<inter> set ys = {} then 0
       else s + i + of_nat (length (takeWhile (\<lambda>x. x \<notin> set ys) xs)))"
proof (induction xs arbitrary: i)
  case Nil then show ?case by (subst gc_strpbrk_from.simps) simp
next
  case (Cons x xs)
  then show ?case using Cons.IH [of "i + 1"] in_accept_ok [of x m t 0 ys]
    by (subst gc_strpbrk_from.simps) (auto simp: ac_simps)
qed

text \<open>The first place where a list occurs in another one.\<close>

definition starts :: "'a list \<Rightarrow> 'a list \<Rightarrow> bool" where
  "starts ys xs \<longleftrightarrow> take (length ys) xs = ys"

fun find_sub :: "'a list \<Rightarrow> 'a list \<Rightarrow> nat option" where
  "find_sub ys [] = (if ys = [] then Some 0 else None)"
| "find_sub ys (x # xs) = (if starts ys (x # xs) then Some 0 else map_option Suc (find_sub ys xs))"

lemma starts_simps [simp]:
  "starts [] xs" "starts (y # ys) [] \<longleftrightarrow> False" "starts (y # ys) (x # xs) \<longleftrightarrow> x = y \<and> starts ys xs"
  by (auto simp: starts_def)

lemma starts_length: "starts ys xs \<Longrightarrow> length ys \<le> length xs"
  by (auto simp: starts_def dest: arg_cong [of _ _ length])

lemma find_sub_starts: "starts ys xs \<Longrightarrow> find_sub ys xs = Some 0"
  by (cases xs; cases ys) auto

lemma find_sub_long: "length xs < length ys \<Longrightarrow> find_sub ys xs = None"
  by (induction xs) (auto dest: starts_length)

lemma find_sub_spec:
  "case find_sub ys xs of
     None \<Rightarrow> \<forall>i \<le> length xs. \<not> starts ys (drop i xs)
   | Some i \<Rightarrow> i \<le> length xs \<and> starts ys (drop i xs) \<and> (\<forall>j < i. \<not> starts ys (drop j xs))"
proof (induction xs)
  case Nil then show ?case by (cases ys) auto
next
  case (Cons x xs)
  show ?case
  proof (cases "starts ys (x # xs)")
    case False
    have nz: "\<not> starts ys (drop j (x # xs))" if "j = 0 \<or> (\<exists>k. j = Suc k \<and> \<not> starts ys (drop k xs))" for j
      using that False by auto
    show ?thesis
    proof (cases "find_sub ys xs")
      case None
      then have *: "\<forall>i \<le> length xs. \<not> starts ys (drop i xs)" using Cons by simp
      have "\<not> starts ys (drop i (x # xs))" if "i \<le> Suc (length xs)" for i
        using that * by (intro nz) (cases i; auto)
      then show ?thesis using None False by simp
    next
      case (Some i)
      then have *: "i \<le> length xs" "starts ys (drop i xs)" "\<forall>j < i. \<not> starts ys (drop j xs)" using Cons by auto
      have "\<not> starts ys (drop j (x # xs))" if "j < Suc i" for j
        using that * by (intro nz) (cases j; auto)
      then show ?thesis using Some False * by simp
    qed
  qed simp
qed

lemma strstr_inner_ok:
  "has_cstr m (s + off + k) xs \<Longrightarrow> has_cstr m (t + k) ys \<Longrightarrow>
     gc_strstr_inner m s t off k =
       Some (if starts ys xs then Match else if starts xs ys then String_end else Mismatch)"
proof (induction ys arbitrary: k xs)
  case Nil then show ?case by (subst gc_strstr_inner.simps) simp
next
  case (Cons y ys)
  show ?case
  proof (cases xs)
    case Nil
    then show ?thesis using Cons.prems by (subst gc_strstr_inner.simps) simp
  next
    case (Cons x xs')
    then show ?thesis
      using Cons.prems Cons.IH [of "k + 1" xs'] by (subst gc_strstr_inner.simps) (auto simp: ac_simps)
  qed
qed

lemma gc_strstr_from_ok:
  "has_cstr m (s + off) xs \<Longrightarrow> has_cstr m t ys \<Longrightarrow>
     gc_strstr_from m s t off = Some (case find_sub ys xs of None \<Rightarrow> 0 | Some i \<Rightarrow> s + off + of_nat i)"
proof (induction xs arbitrary: off)
  case Nil
  then show ?case using strstr_inner_ok [of m s off 0 "[]" t ys]
    by (subst gc_strstr_from.simps, cases ys) auto
next
  case (Cons x xs)
  have inner: "gc_strstr_inner m s t off 0 =
      Some (if starts ys (x # xs) then Match else if starts (x # xs) ys then String_end else Mismatch)"
    using strstr_inner_ok [of m s off 0 "x # xs" t ys] Cons.prems by simp
  have IH: "gc_strstr_from m s t (off + 1) =
      Some (case find_sub ys xs of None \<Rightarrow> 0 | Some i \<Rightarrow> s + (off + 1) + of_nat i)"
    using Cons.prems by (intro Cons.IH) (simp_all add: ac_simps)
  show ?case
  proof (cases "starts ys (x # xs)")
    case True
    then show ?thesis by (subst gc_strstr_from.simps) (simp add: inner)
  next
    case no: False
    show ?thesis
    proof (cases "starts (x # xs) ys")
      case True
      then have "length (x # xs) < length ys"
        using no starts_length [OF True] by (auto simp: starts_def le_eq_less_or_eq)
      then have "find_sub ys (x # xs) = None" by (rule find_sub_long)
      with no True show ?thesis by (subst gc_strstr_from.simps) (simp add: inner)
    next
      case False
      with no show ?thesis
        by (subst gc_strstr_from.simps) (auto simp: inner IH add.assoc split: option.splits)
    qed
  qed
qed

text \<open>Searching for a character; the terminating NUL counts.\<close>

lemma gc_strchr_from_ok:
  "has_cstr m (s + i) xs \<Longrightarrow> len = i + of_nat (length xs) \<Longrightarrow> length xs < 2 ^ 32 \<Longrightarrow>
     gc_strchr_from m s ch len i =
       Some (if ch = 0 \<or> ch \<in> set xs then s + i + of_nat (length (takeWhile (\<lambda>x. x \<noteq> ch) xs)) else 0)"
proof (induction xs arbitrary: i)
  case Nil then show ?case by (subst gc_strchr_from.simps) auto
next
  case (Cons x xs)
  have ne: "i \<noteq> len"
  proof
    assume "i = len"
    then have "(of_nat (Suc (length xs)) :: u32) = 0" using Cons.prems(2) by simp
    then have "2 ^ 32 dvd Suc (length xs)"
      using word_of_nat_eq_0_iff [of "Suc (length xs)", where 'a = 32] by simp
    with Cons.prems(3) show False by (auto dest: dvd_imp_le)
  qed
  have "gc_strchr_from m s ch len (i + 1) =
      Some (if ch = 0 \<or> ch \<in> set xs then s + (i + 1) + of_nat (length (takeWhile (\<lambda>x. x \<noteq> ch) xs)) else 0)"
    using Cons.prems by (intro Cons.IH) (simp_all add: ac_simps)
  then show ?case
    using Cons.prems(1) ne by (subst gc_strchr_from.simps) (auto simp: ac_simps)
qed

lemma gc_strchr_ok:
  "has_cstr m s xs \<Longrightarrow> gc_strchr m s ch =
     Some (if ch = 0 \<or> ch \<in> set xs then s + of_nat (length (takeWhile (\<lambda>x. x \<noteq> ch) xs)) else 0)"
  using gc_strchr_from_ok [of m s 0 xs _ ch] has_cstr_length [of m s xs] gc_strlen_ok [of m s xs]
  by (simp add: gc_strchr_def)

section \<open>Copying\<close>

abbreviation store :: "vaddr \<Rightarrow> u8 list \<Rightarrow> mem \<Rightarrow> mem" where "store \<equiv> write_seq put_byte"

definition writable_at :: "mem \<Rightarrow> vaddr \<Rightarrow> nat \<Rightarrow> bool" where
  "writable_at m p n \<longleftrightarrow> (\<forall>j < n. null_segment_size m \<le> p + of_nat j)"

lemma null_segment_store [simp]: "null_segment_size (store p xs m) = null_segment_size m"
  by (induction xs arbitrary: p m) simp_all

text \<open>A stored string is a string.\<close>

lemma has_cstr_store:
  assumes "0 \<notin> set xs" and "length xs < 2 ^ 32" and "writable_at m p (Suc (length xs))"
  shows "has_cstr (store p (xs @ [0]) m) p xs"
proof -
  have "byte_at (store p (xs @ [0]) m) (p + of_nat i) = (xs @ [0]) ! i" if "i \<le> length xs" for i
    using that assms(2,3) by (intro guest.rd_seq) (auto simp: writable_at_def)
  from this [of "length xs"] this assms(1) show ?thesis
    by (auto simp: has_cstr_iff nth_append)
qed

text \<open>
  \<open>strcpy\<close> stores the first \<open>bufsz\<close> bytes of the source and then a NUL, also when the buffer has
  no room for it.
\<close>

lemma gc_strcpy_loop_ok:
  "has_cstr m s xs \<Longrightarrow> addrs d (Suc (length xs)) \<inter> addrs s (Suc (length xs)) = {} \<Longrightarrow>
     gc_strcpy_loop d s b m = store d (take (unat b) xs @ [0]) m"
proof (induction xs arbitrary: d s b m)
  case Nil
  then show ?case by (simp add: gc_strcpy_loop.simps)
next
  case (Cons x xs)
  have x: "byte_at m s = x" "x \<noteq> 0" "has_cstr m (s + 1) xs" using Cons.prems(1) by auto
  show ?case
  proof (cases "b = 0")
    case True
    then show ?thesis by (simp add: gc_strcpy_loop.simps)
  next
    case False
    let ?m = "put_byte d x m"
    have dis: "d \<notin> addrs (s + 1) (Suc (length xs))"
      "addrs (d + 1) (Suc (length xs)) \<inter> addrs (s + 1) (Suc (length xs)) = {}"
      using Cons.prems(2) unfolding length_Cons addrs_Suc [of d] addrs_Suc [of s] by blast+
    then have "byte_at ?m p = byte_at m p" if "p \<in> addrs (s + 1) (Suc (length xs))" for p
      using that by (auto simp: byte_at_put_byte)
    then have "has_cstr ?m (s + 1) xs" using x(3) has_cstr_cong by blast
    note IH = Cons.IH [OF this dis(2), of "b - 1"]
    have "take (unat b) (x # xs) = x # take (unat (b - 1)) xs"
      using False by (simp add: unat_minus_one_u32 take_Cons' unat_eq_0)
    then show ?thesis using False x IH by (simp add: gc_strcpy_loop.simps [of d s b m] Let_def)
  qed
qed

text \<open>
  \<open>strlcpy\<close> keeps at most \<open>sz - 1\<close> bytes and always terminates them; with \<open>sz = 0\<close> the subtraction
  wraps and it copies the whole string.
\<close>

lemma store_snoc: "store p (xs @ [x]) m = put_byte (p + of_nat (length xs)) x (store p xs m)"
  by (induction xs arbitrary: p m) (simp_all add: add.assoc)

lemma gc_strlcpy_loop_ok:
  "has_cstr m (s + i) xs \<Longrightarrow> unat i + length xs < 2 ^ 32 \<Longrightarrow>
     addrs (d + i) (Suc (length xs)) \<inter> addrs (s + i) (Suc (length xs)) = {} \<Longrightarrow>
     gc_strlcpy_loop d s sz i m = Some (i + of_nat (length xs),
       if i \<le> sz - 1 then store (d + i) (take (unat (sz - 1) - unat i) xs @ [0]) m else m)"
proof (induction xs arbitrary: i m)
  case Nil
  then show ?case by (subst gc_strlcpy_loop.simps) (auto simp: order_le_less)
next
  case (Cons x xs)
  have x: "byte_at m (s + i) = x" "x \<noteq> 0" "has_cstr m (s + i + 1) xs" using Cons.prems(1) by auto
  let ?m = "if i < sz - 1 then put_byte (d + i) x m else if i = sz - 1 then put_byte (d + i) 0 m else m"
  have i1: "unat (i + 1) = unat i + 1" using Cons.prems(2) by (subst unat_plus_u32) simp_all
  have dis: "d + i \<notin> addrs (s + i + 1) (Suc (length xs))"
    "addrs (d + i + 1) (Suc (length xs)) \<inter> addrs (s + i + 1) (Suc (length xs)) = {}"
    using Cons.prems(3) unfolding length_Cons addrs_Suc [of "d + i"] addrs_Suc [of "s + i"] by blast+
  then have "byte_at ?m p = byte_at m p" if "p \<in> addrs (s + i + 1) (Suc (length xs))" for p
    using that by (auto simp: byte_at_put_byte)
  then have "has_cstr ?m (s + (i + 1)) xs" using x(3) has_cstr_cong [of "s + i + 1" xs ?m m] by (simp add: add.assoc)
  then have IH: "gc_strlcpy_loop d s sz (i + 1) ?m = Some (i + 1 + of_nat (length xs),
       if i + 1 \<le> sz - 1 then store (d + (i + 1)) (take (unat (sz - 1) - unat (i + 1)) xs @ [0]) ?m else ?m)"
    using Cons.prems(2) i1 dis(2) by (intro Cons.IH) (simp_all add: add.assoc)
  have step: "gc_strlcpy_loop d s sz i m = gc_strlcpy_loop d s sz (i + 1) ?m"
    using x by (subst gc_strlcpy_loop.simps) (simp add: Let_def)
  consider (lt) "i < sz - 1" | (eq) "i = sz - 1" | (gt) "sz - 1 < i" by (meson linorder_less_linear)
  then show ?case
  proof cases
    case lt
    then have "i + 1 \<le> sz - 1" "unat i < unat (sz - 1)" using i1 by (simp_all add: word_le_nat_alt word_less_nat_alt)
    moreover from this(2) have "unat (sz - 1) - unat i = Suc (unat (sz - 1) - unat (i + 1))" using i1 by simp
    ultimately show ?thesis unfolding step IH using lt by (simp add: add.assoc)
  next
    case eq
    then have "\<not> i + 1 \<le> sz - 1" using i1 by (simp add: word_le_nat_alt)
    with eq show ?thesis unfolding step IH by (simp add: add.assoc)
  next
    case gt
    then have "\<not> i + 1 \<le> sz - 1" "\<not> i \<le> sz - 1" using i1 by (simp_all add: word_le_nat_alt word_less_nat_alt)
    with gt show ?thesis unfolding step IH by (simp add: add.assoc)
  qed
qed

section \<open>strtok\<close>

lemma skip_seps_ok:
  "has_cstr m p xs \<Longrightarrow> 0 \<notin> set sep \<Longrightarrow> skip_seps m sep p =
     Some (if dropWhile (\<lambda>x. x \<in> set sep) xs = [] then None
           else Some (p + of_nat (length (takeWhile (\<lambda>x. x \<in> set sep) xs))))"
proof (induction xs arbitrary: p)
  case Nil then show ?case by (subst skip_seps.simps) simp
next
  case (Cons x xs)
  then show ?case using Cons.IH [of "p + 1"] by (subst skip_seps.simps) (auto simp: ac_simps)
qed

lemma token_end_ok:
  "has_cstr m p xs \<Longrightarrow> 0 \<notin> set sep \<Longrightarrow> token_end sep p m =
     (let tok = takeWhile (\<lambda>x. x \<notin> set sep) xs in
      Some (if tok = xs then (0, m)
            else (p + of_nat (length tok) + 1, put_byte (p + of_nat (length tok)) 0 m)))"
proof (induction xs arbitrary: p)
  case Nil then show ?case by (subst token_end.simps) simp
next
  case (Cons x xs)
  then show ?case using Cons.IH [of "p + 1"] by (subst token_end.simps) (auto simp: Let_def ac_simps)
qed

text \<open>Cutting a string in two with a NUL.\<close>

lemma has_cstr_drop:
  "has_cstr m p (xs @ ys) \<Longrightarrow> has_cstr m (p + of_nat (length xs)) ys"
  by (induction xs arbitrary: p) (auto simp: add.assoc [symmetric])

lemma has_cstr_cut:
  assumes "has_cstr m p (xs @ y # ys)" and "null_segment_size m \<le> p + of_nat (length xs)"
  defines "m' \<equiv> put_byte (p + of_nat (length xs)) 0 m"
  shows "has_cstr m' p xs" and "has_cstr m' (p + of_nat (length xs) + 1) ys"
proof -
  have len: "length (xs @ y # ys) < 2 ^ 32" using assms(1) by (rule has_cstr_length)
  have ne: "p + of_nat i \<noteq> p + of_nat (length xs)" if "i \<noteq> length xs" "i \<le> length (xs @ y # ys)" for i
  proof
    assume "p + of_nat i = p + of_nat (length xs)"
    then have "(of_nat i :: u32) = of_nat (length xs)" by simp
    then have "unat (of_nat i :: u32) = unat (of_nat (length xs) :: u32)" by simp
    with that len show False by (simp add: unat_of_nat)
  qed
  have b: "byte_at m' (p + of_nat i) = byte_at m (p + of_nat i)" if "i \<noteq> length xs" "i \<le> length (xs @ y # ys)" for i
    using ne [OF that] by (simp add: m'_def byte_at_put_byte)
  note nth = has_cstr_nth [OF assms(1)]
  have nz: "0 \<notin> set (xs @ y # ys)" using assms(1) by (rule has_cstr_nonzero)
  show "has_cstr m' p xs"
    unfolding has_cstr_iff
  proof (intro conjI allI impI)
    show "byte_at m' (p + of_nat i) = xs ! i" if "i < length xs" for i
      using that b [of i] nth [of i] by (simp add: nth_append)
    show "byte_at m' (p + of_nat (length xs)) = 0" using assms(2) by (simp add: m'_def byte_at_put_byte)
  qed (use nz in simp)
  show "has_cstr m' (p + of_nat (length xs) + 1) ys"
    unfolding has_cstr_iff
  proof (intro conjI allI impI)
    show "byte_at m' (p + of_nat (length xs) + 1 + of_nat i) = ys ! i" if "i < length ys" for i
    proof -
      have "p + of_nat (length xs) + 1 + of_nat i = p + of_nat (length xs + 1 + i)" by simp
      then show ?thesis using that b [of "length xs + 1 + i"] nth [of "length xs + 1 + i"] by (simp add: nth_append add_ac)
    qed
    have "p + of_nat (length xs) + 1 + of_nat (length ys) = p + of_nat (length (xs @ y # ys))" by simp
    then show "byte_at m' (p + of_nat (length xs) + 1 + of_nat (length ys)) = 0"
      using b [of "length (xs @ y # ys)"] has_cstr_end [OF assms(1)] by (simp add: add_ac)
  qed (use nz in simp)
qed

lemma cstr_at_ok:
  assumes "0 < null_segment_size m" and xs: "has_cstr m p xs" "length xs < 65536"
  shows "cstr_at m p = xs"
proof -
  note s = cstr_at_spec [OF assms(1), of p]
  have "0 \<notin> set (cstr_at m p)"
  proof
    assume "0 \<in> set (cstr_at m p)"
    then obtain i where "i < length (cstr_at m p)" "cstr_at m p ! i = 0" by (metis in_set_conv_nth)
    with s show False by auto
  qed
  moreover have "length (cstr_at m p) < 65536"
  proof (rule ccontr)
    assume "\<not> length (cstr_at m p) < 65536"
    with xs(2) have "length xs < length (cstr_at m p)" by simp
    with s have "byte_at m (p + of_nat (length xs)) \<noteq> 0" by blast
    with has_cstr_end [OF xs(1)] show False by simp
  qed
  ultimately have "has_cstr m p (cstr_at m p)" using s by (simp add: has_cstr_iff)
  with xs(1) show ?thesis by (rule has_cstr_unique [symmetric])
qed

text \<open>One call of \<open>strtok\<close>.\<close>

lemma str_strtok_ok:
  fixes xs sep m s seps
  defines "rest \<equiv> dropWhile (\<lambda>x. x \<in> set sep) xs"
  defines "tok \<equiv> takeWhile (\<lambda>x. x \<notin> set sep) rest"
  defines "start \<equiv> s + of_nat (length xs - length rest)"
  defines "nxt \<equiv> start + of_nat (length tok) + 1"
  assumes null: "0 < null_segment_size m" and sep: "has_cstr m seps sep" "length sep < 65536"
    and s: "s \<noteq> 0" "has_cstr m s xs" "writable_at m s (length xs)"
    and src: "if p = 0 then saved = Some s else p = s"
  shows "\<exists>saved' m'. str_strtok p seps saved m = Some (if rest = [] then 0 else start, saved', m') \<and>
     (rest \<noteq> [] \<longrightarrow> has_cstr m' start tok) \<and>
     (if rest = [] then saved' = None \<and> m' = m
      else if tok = rest then saved' = Some 0 \<and> m' = m
      else saved' = Some nxt \<and> has_cstr m' nxt (drop (length tok + 1) rest))"
proof -
  have seps: "cstr_at m seps = sep" "0 \<notin> set sep" using cstr_at_ok [OF null sep] has_cstr_nonzero [OF sep(1)] by auto
  have st: "str_strtok_start p saved = Some s" using src s(1) by (auto simp: str_strtok_start_def split: if_splits)
  let ?skip = "takeWhile (\<lambda>x. x \<in> set sep) xs"
  have xs: "xs = ?skip @ rest" by (simp add: rest_def)
  have len: "length xs - length rest = length ?skip" using arg_cong [OF xs, of length] by simp
  have start: "start = s + of_nat (length ?skip)" by (simp add: start_def len)
  have skip: "skip_seps m sep s = Some (if rest = [] then None else Some start)"
    using skip_seps_ok [OF s(2) seps(2)] by (simp add: rest_def [symmetric] start)
  have r: "has_cstr m start rest"
    unfolding start by (rule has_cstr_drop) (use s(2) xs in simp)
  have te: "token_end sep start m = Some (if tok = rest then (0, m)
      else (nxt, put_byte (start + of_nat (length tok)) 0 m))"
    using token_end_ok [OF r seps(2)] by (simp add: tok_def [symmetric] Let_def nxt_def)
  show ?thesis
  proof (cases "rest = []")
    case True
    then show ?thesis using st skip by (simp add: str_strtok_def seps)
  next
    case False
    show ?thesis
    proof (cases "tok = rest")
      case True
      with False st skip te r show ?thesis by (simp add: str_strtok_def seps)
    next
      case cut: False
      moreover have split: "tok @ dropWhile (\<lambda>x. x \<notin> set sep) rest = rest"
        unfolding tok_def by (rule takeWhile_dropWhile_id)
      ultimately have "dropWhile (\<lambda>x. x \<notin> set sep) rest \<noteq> []" by (metis append_Nil2)
      then obtain y ys where "dropWhile (\<lambda>x. x \<notin> set sep) rest = y # ys" by (meson list.exhaust)
      with split have rest: "rest = tok @ y # ys" by simp
      have "length rest = length tok + Suc (length ys)" by (subst rest) simp
      moreover have "length xs = length ?skip + length rest" by (subst xs) (rule length_append)
      ultimately have "length ?skip + length tok < length xs" by simp
      then have "null_segment_size m \<le> s + of_nat (length ?skip + length tok)"
        using s(3) unfolding writable_at_def by blast
      then have w: "null_segment_size m \<le> start + of_nat (length tok)" by (simp add: start add.assoc)
      note c = has_cstr_cut [OF r [unfolded rest] w]
      have "drop (length tok + 1) rest = ys" by (subst rest) simp
      with c False cut st skip te show ?thesis by (simp add: str_strtok_def seps nxt_def)
    qed
  qed
qed

section \<open>Properties\<close>

text \<open>A memory with the strings \<open>a,b\<close>, \<open>,b\<close> and \<open>,\<close> at 5000, 5004 and 5008 for the witnesses.\<close>

definition demo_mem :: mem where
  "demo_mem = \<lparr>mem_bytes = poke 5000 [97, 44, 98, 0, 44, 98, 0, 0, 44, 0] (\<lambda>_. 0), null_segment_size = 4096,
     mem_allocator = fresh_null, zero_memory_on_free = True, null_write_sink = (\<lambda>_. 0)\<rparr>"

lemma demo_strings: "has_cstr demo_mem 5000 [97, 44, 98]" "has_cstr demo_mem 5004 [44, 98]"
  "has_cstr demo_mem 5008 [44]" "null_segment_size demo_mem = 4096"
  by (simp_all add: demo_mem_def byte_at_eq poke_def)

lemma unat_u32_max [simp]: "unat u32_max = 4294967295"
  by (simp add: unsigned_minus_1_eq_mask mask_eq_exp_minus_1)

text \<open>
  with a null segment \<open>strlen\<close> returns for every pointer whatsoever, and its result is the
  number of bytes before the first NUL.
\<close>

theorem strlen_total:
  assumes "0 < null_segment_size m"
  shows "\<exists>n. gc_strlen m s = Some n \<and> byte_at m (s + n) = 0 \<and> (\<forall>i < n. byte_at m (s + i) \<noteq> 0)"
proof -
  from has_cstr_exists [OF assms] obtain xs where xs: "has_cstr m s xs" by blast
  have "byte_at m (s + i) \<noteq> 0" if "i < of_nat (length xs)" for i
  proof -
    have "unat i < length xs" using that strlen_unat [OF xs] by (simp add: word_less_nat_alt)
    then have "byte_at m (s + i) \<in> set xs" using has_cstr_nth [OF xs, of "unat i"] by simp
    then show ?thesis using has_cstr_nonzero [OF xs] by auto
  qed
  with gc_strlen_ok [OF xs] has_cstr_end [OF xs] show ?thesis by blast
qed

theorem strlen_total_witness: "\<exists>n. gc_strlen demo_mem 5000 = Some n \<and> byte_at demo_mem (5000 + n) = 0"
  using strlen_total [of demo_mem 5000] by (auto simp: demo_strings)

text \<open>
  \<open>strcmp\<close> is the lexicographic order of unsigned bytes: 0 exactly on equal strings, -1 exactly
  when the first is smaller, and exchanging the arguments changes the sign.
\<close>

theorem strcmp_correct:
  assumes "has_cstr m a xs" and "has_cstr m b ys"
  shows "\<exists>r. gc_strcmp m a b = Some r \<and> gc_strcmp m b a = Some (- r) \<and> (r = 0 \<longleftrightarrow> xs = ys) \<and>
    (r = - 1 \<longleftrightarrow> (xs, ys) \<in> lexord {(x, y). x < y})"
  using gc_strcmp_ok [OF assms] gc_strcmp_ok [OF assms(2,1)] cmp_bytes_swap [where xs = xs and ys = ys]
    cmp_bytes_eq [of xs ys] cmp_bytes_less [of xs ys] by auto

theorem strcmp_correct_witness: "\<exists>r. gc_strcmp demo_mem 5000 5004 = Some r \<and> r \<noteq> 0"
  using strcmp_correct [OF demo_strings(1,2)] by auto

text \<open>
  C32: \<open>strstr\<close> returns the first place where the second string occurs in the first one, and null
  exactly when there is none.
\<close>

theorem strstr_correct:
  assumes "has_cstr m s xs" and "has_cstr m t ys"
  shows "\<exists>r. gc_strstr m s t = Some r \<and>
    ((\<exists>i \<le> length xs. r = s + of_nat i \<and> take (length ys) (drop i xs) = ys \<and>
        (\<forall>j < i. take (length ys) (drop j xs) \<noteq> ys)) \<or>
     (r = 0 \<and> (\<forall>i \<le> length xs. take (length ys) (drop i xs) \<noteq> ys)))"
  using gc_strstr_from_ok [of m s 0 xs t ys] find_sub_spec [where ys = ys and xs = xs] assms
  by (auto simp: gc_strstr_def starts_def split: option.splits)

theorem strstr_correct_witness: "\<exists>r. gc_strstr demo_mem 5000 5004 = Some r"
  using strstr_correct [OF demo_strings(1,2)] by blast

text \<open>
  \<open>strspn\<close> and \<open>strcspn\<close> measure the longest prefix inside and outside a set of characters,
  \<open>strpbrk\<close> and \<open>strchr\<close> find the first character of the set, respectively the first given
  character, the terminating NUL included for \<open>strchr\<close>.
\<close>

theorem span_functions_correct:
  assumes "has_cstr m s xs" and "has_cstr m t ys"
  shows "gc_strspn m s t = Some (of_nat (length (takeWhile (\<lambda>x. x \<in> set ys) xs))) \<and>
    gc_strcspn m s t = Some (of_nat (length (takeWhile (\<lambda>x. x \<notin> set ys) xs))) \<and>
    gc_strpbrk m s t = Some (if set xs \<inter> set ys = {} then 0
      else s + of_nat (length (takeWhile (\<lambda>x. x \<notin> set ys) xs))) \<and>
    gc_strchr m s ch = Some (if ch = 0 \<or> ch \<in> set xs
      then s + of_nat (length (takeWhile (\<lambda>x. x \<noteq> ch) xs)) else 0)"
  using gc_strspn_from_ok [of m s 0 xs t ys] gc_strcspn_from_ok [of m s 0 xs t ys]
    gc_strpbrk_from_ok [of m s 0 xs t ys] gc_strchr_ok [of m s xs ch] assms
  by (simp add: gc_strspn_def gc_strcspn_def gc_strpbrk_def)

theorem span_functions_correct_witness: "gc_strcspn demo_mem 5000 5004 = Some 1"
  using span_functions_correct [OF demo_strings(1,2), of 0] by simp

text \<open>
  C33: \<open>strcpy\<close> to a writable place disjoint from the source yields the whole source string when the
  buffer can hold it, and changes nothing outside it.  When the buffer size is at most the length of
  the source it keeps the first \<open>bufsz\<close> bytes and writes the NUL just behind the buffer.
\<close>

theorem strcpy_correct:
  assumes "has_cstr m s xs" and "addrs d (Suc (length xs)) \<inter> addrs s (Suc (length xs)) = {}"
    and "writable_at m d (Suc (length xs))"
  shows "\<exists>m'. gc_strcpy d s bufsz m = (d, m') \<and> has_cstr m' d (take (unat bufsz) xs) \<and>
    (\<forall>q. q \<notin> addrs d (Suc (min (unat bufsz) (length xs))) \<longrightarrow> byte_at m' q = byte_at m q) \<and>
    (unat bufsz \<le> length xs \<longrightarrow> byte_at m' (d + bufsz) = 0)"
proof -
  let ?ys = "take (unat bufsz) xs"
  have r: "gc_strcpy d s bufsz m = (d, store d (?ys @ [0]) m)"
    using gc_strcpy_loop_ok [OF assms(1,2)] by (simp add: gc_strcpy_def)
  have "0 \<notin> set ?ys" using has_cstr_nonzero [OF assms(1)] by (meson in_set_takeD)
  moreover have "length ?ys < 2 ^ 32" using has_cstr_length [OF assms(1)] by simp
  moreover have "writable_at m d (Suc (length ?ys))" using assms(3) by (simp add: writable_at_def)
  ultimately have c: "has_cstr (store d (?ys @ [0]) m) d ?ys" by (rule has_cstr_store)
  have "byte_at (store d (?ys @ [0]) m) (d + bufsz) = 0" if "unat bufsz \<le> length xs"
    using has_cstr_end [OF c] that by (simp add: min_absorb1)
  moreover have "byte_at (store d (?ys @ [0]) m) q = byte_at m q"
    if "q \<notin> addrs d (Suc (min (unat bufsz) (length xs)))" for q
    using that by (intro guest.rd_seq_other) (simp add: min.commute)
  ultimately show ?thesis using r c by blast
qed

lemma writable_at_0 [simp]: "writable_at m p 0" by (simp add: writable_at_def)

lemma writable_at_Suc: "writable_at m p (Suc n) \<longleftrightarrow> null_segment_size m \<le> p \<and> writable_at m (p + 1) n"
  by (simp add: writable_at_def All_less_Suc2 add.assoc)

lemma demo_disjoint: "addrs 6000 (Suc (Suc (Suc (Suc 0)))) \<inter> addrs 5000 (Suc (Suc (Suc (Suc 0)))) = {}"
  "writable_at demo_mem 6000 (Suc (Suc (Suc (Suc 0))))" "writable_at demo_mem 5000 (length [97, 44, 98 :: u8])"
  by (simp_all add: addrs_Suc writable_at_Suc demo_strings)

theorem strcpy_correct_witness:
  "\<exists>m'. gc_strcpy 6000 5000 2 demo_mem = (6000, m') \<and> byte_at m' 6002 = 0"
  using strcpy_correct [OF demo_strings(1), of 6000 2] demo_disjoint by auto

text \<open>
  \<open>strlcpy\<close> returns the length of the source and leaves in the destination the longest prefix
  that fits together with its NUL, and nothing else changes.  With size 0 the limit \<open>size - 1\<close> wraps
  to the largest integer: the whole source is copied.
\<close>

theorem strlcpy_correct:
  assumes "has_cstr m s xs" and "addrs d (Suc (length xs)) \<inter> addrs s (Suc (length xs)) = {}"
    and "writable_at m d (Suc (length xs))"
  shows "\<exists>m'. gc_strlcpy d s sz m = Some (of_nat (length xs), m') \<and>
    has_cstr m' d (take (unat (sz - 1)) xs) \<and>
    (sz = 0 \<longrightarrow> has_cstr m' d xs) \<and>
    (\<forall>q. q \<notin> addrs d (Suc (min (unat (sz - 1)) (length xs))) \<longrightarrow> byte_at m' q = byte_at m q)"
proof -
  let ?ys = "take (unat (sz - 1)) xs"
  have len: "length xs < 2 ^ 32" by (rule has_cstr_length [OF assms(1)])
  have r: "gc_strlcpy d s sz m = Some (of_nat (length xs), store d (?ys @ [0]) m)"
    using gc_strlcpy_loop_ok [of m s 0 xs d sz] assms(1,2) len by (simp add: gc_strlcpy_def)
  have "0 \<notin> set ?ys" using has_cstr_nonzero [OF assms(1)] by (meson in_set_takeD)
  moreover have "length ?ys < 2 ^ 32" using len by simp
  moreover have "writable_at m d (Suc (length ?ys))" using assms(3) by (simp add: writable_at_def)
  ultimately have c: "has_cstr (store d (?ys @ [0]) m) d ?ys" by (rule has_cstr_store)
  have "?ys = xs" if "sz = 0"
  proof -
    have "unat (sz - 1) = 4294967295" using that by simp
    then show ?thesis using len by simp
  qed
  moreover have "byte_at (store d (?ys @ [0]) m) q = byte_at m q"
    if "q \<notin> addrs d (Suc (min (unat (sz - 1)) (length xs)))" for q
    using that by (intro guest.rd_seq_other) (simp add: min.commute)
  ultimately show ?thesis using r c by auto
qed

theorem strlcpy_correct_witness:
  "\<exists>m'. gc_strlcpy 6000 5000 0 demo_mem = Some (3, m') \<and> has_cstr m' 6000 [97, 44, 98]"
  using strlcpy_correct [OF demo_strings(1), of 6000 0] demo_disjoint by auto

text \<open>
  C31: \<open>strtok\<close>, called with a string or continuing from the saved pointer, skips the leading
  separators and returns the maximal separator-free token behind them as a string of its own; it
  saves the pointer behind the token, from which the rest of the string can be read, or null after
  the last token; when only separators are left it returns null and forgets the pointer.
\<close>

theorem strtok_correct:
  assumes "0 < null_segment_size m" and "has_cstr m seps sep" and "length sep < 65536"
    and "s \<noteq> 0" and "has_cstr m s xs" and "writable_at m s (length xs)"
    and "if p = 0 then saved = Some s else p = s"
  shows "let rest = dropWhile (\<lambda>x. x \<in> set sep) xs; tok = takeWhile (\<lambda>x. x \<notin> set sep) rest;
      start = s + of_nat (length xs - length rest); nxt = start + of_nat (length tok) + 1 in
    \<exists>saved' m'. str_strtok p seps saved m = Some (if rest = [] then 0 else start, saved', m') \<and>
     (rest \<noteq> [] \<longrightarrow> has_cstr m' start tok) \<and>
     (if rest = [] then saved' = None \<and> m' = m
      else if tok = rest then saved' = Some 0 \<and> m' = m
      else saved' = Some nxt \<and> has_cstr m' nxt (drop (length tok + 1) rest))"
  unfolding Let_def using assms by (rule str_strtok_ok)

theorem strtok_correct_witness:
  "\<exists>m'. str_strtok 5000 5008 None demo_mem = Some (5000, Some 5002, m') \<and> has_cstr m' 5000 [97] \<and>
     has_cstr m' 5002 [98]"
  using strtok_correct [OF _ demo_strings(3) _ _ demo_strings(1) demo_disjoint(3), of 5000 None]
  by (auto simp: demo_strings(4))

end
