(* ===== verification/Mutex.thy ===== *)
theory Mutex
  imports Prelude
begin

text \<open>
  The host's mutexes (\<open>src/environment/mutex.rs\<close>): creation, destruction, locking and unlocking
  for the three types, with the phantom locks that a self-lock of a normal mutex is granted.  The
  thread that calls is a parameter; blocking is an outcome that the scheduler acts on
  (theory \<open>Threads\<close>).  The interface is the locale \<open>lock_service\<close>.
\<close>

section \<open>Error numbers\<close>

definition EPERM :: i32 where "EPERM = 1"
definition ENOENT :: i32 where "ENOENT = 2"
definition EDEADLK :: i32 where "EDEADLK = 11"
definition EBUSY :: i32 where "EBUSY = 16"
definition EEXIST :: i32 where "EEXIST = 17"
definition EINVAL :: i32 where "EINVAL = 22"
definition EAGAIN :: i32 where "EAGAIN = 35"
definition ETIMEDOUT :: i32 where "ETIMEDOUT = 60"

lemmas errno_defs = EPERM_def ENOENT_def EDEADLK_def EBUSY_def EEXIST_def EINVAL_def EAGAIN_def ETIMEDOUT_def

section \<open>State\<close>

datatype mutex_type = PTHREAD_MUTEX_NORMAL | PTHREAD_MUTEX_ERRORCHECK | PTHREAD_MUTEX_RECURSIVE

definition mutex_type_of :: "i32 \<Rightarrow> mutex_type option" where
  "mutex_type_of v =
     (if v = 0 then Some PTHREAD_MUTEX_NORMAL
      else if v = 1 then Some PTHREAD_MUTEX_ERRORCHECK
      else if v = 2 then Some PTHREAD_MUTEX_RECURSIVE
      else None)"

definition PTHREAD_MUTEX_DEFAULT :: mutex_type where
  "PTHREAD_MUTEX_DEFAULT = PTHREAD_MUTEX_NORMAL"

record mutex =
  m_type :: mutex_type
  waiting_count :: u32
  locked :: "(thread_id \<times> u32) option"
  phantom_locks :: "thread_id \<Rightarrow> u32 option"

record mutex_state =
  mutexes :: "u64 \<Rightarrow> mutex option"
  mutex_count :: u64

definition mutex_state_default :: mutex_state where
  "mutex_state_default = \<lparr>mutexes = (\<lambda>_. None), mutex_count = 0\<rparr>"

section \<open>Operations\<close>

definition set_mutex :: "u64 \<Rightarrow> mutex \<Rightarrow> mutex_state \<Rightarrow> mutex_state" where
  "set_mutex mid mx s = s\<lparr>mutexes := (mutexes s)(mid := Some mx)\<rparr>"

definition new_mutex :: "mutex_type \<Rightarrow> mutex" where
  "new_mutex ty = \<lparr>m_type = ty, waiting_count = 0, locked = None, phantom_locks = (\<lambda>_. None)\<rparr>"

definition init_mutex :: "mutex_type \<Rightarrow> mutex_state \<Rightarrow> (u64 \<times> mutex_state) option" where
  "init_mutex ty s = do {
     let mutex_id = mutex_count s;
     expect (unat (mutex_count s) + 1 < 2 ^ 64);
     Some (mutex_id, set_mutex mutex_id (new_mutex ty) (s\<lparr>mutex_count := mutex_count s + 1\<rparr>))
   }"

text \<open>A \<open>Result\<close> with an errno: \<open>Inl\<close> is the error.\<close>

definition destroy_mutex :: "u64 \<Rightarrow> mutex_state \<Rightarrow> ((i32 + unit) \<times> mutex_state) option" where
  "destroy_mutex mid s = do {
     mx \<leftarrow> mutexes s mid;
     if locked mx \<noteq> None then Some (Inl EBUSY, s)
     else if waiting_count mx \<noteq> 0 then Some (Inl EBUSY, s)
     else Some (Inr (), s\<lparr>mutexes := (mutexes s)(mid := None)\<rparr>)
   }"

definition mutex_is_locked :: "mutex_state \<Rightarrow> u64 \<Rightarrow> bool" where
  "mutex_is_locked s mid =
     (case mutexes s mid of None \<Rightarrow> False | Some mx \<Rightarrow> locked mx \<noteq> None)"

definition mutex_is_recursive :: "mutex_state \<Rightarrow> u64 \<Rightarrow> bool" where
  "mutex_is_recursive s mid =
     (case mutexes s mid of None \<Rightarrow> False | Some mx \<Rightarrow> m_type mx = PTHREAD_MUTEX_RECURSIVE)"

definition mutex_is_locked_by :: "mutex_state \<Rightarrow> u64 \<Rightarrow> thread_id \<Rightarrow> bool" where
  "mutex_is_locked_by s mid thread =
     (case mutexes s mid of
        None \<Rightarrow> False
      | Some mx \<Rightarrow> (case locked mx of Some (lock_thread, _) \<Rightarrow> lock_thread = thread | None \<Rightarrow> False))"

definition relock_unblocked_mutex :: "thread_id \<Rightarrow> u64 \<Rightarrow> mutex_state \<Rightarrow> mutex_state option" where
  "relock_unblocked_mutex thread_id mid s = do {
     mx \<leftarrow> mutexes s mid;
     expect (locked mx = None);
     let mx1 = mx\<lparr>locked := Some (thread_id, 1)\<rparr>;
     Some (set_mutex mid
       (if waiting_count mx1 > 0 then mx1\<lparr>waiting_count := waiting_count mx1 - 1\<rparr> else mx1) s)
   }"

text \<open>The outcome of a lock: a lock count, an errno, or the caller has to wait for the mutex.\<close>

datatype lock_outcome = Lock_ok u32 | Lock_err i32 | Lock_wait

definition lock_mutex :: "thread_id \<Rightarrow> u64 \<Rightarrow> mutex_state \<Rightarrow> (lock_outcome \<times> mutex_state) option" where
  "lock_mutex current_thread mid s = do {
     mx \<leftarrow> mutexes s mid;
     case locked mx of
       None \<Rightarrow> Some (Lock_ok 1, set_mutex mid (mx\<lparr>locked := Some (current_thread, 1)\<rparr>) s)
     | Some (locking_thread, lock_count) \<Rightarrow>
         if locking_thread = current_thread then
           (case m_type mx of
              PTHREAD_MUTEX_NORMAL \<Rightarrow>
                Some (Lock_ok 1, set_mutex mid (mx\<lparr>phantom_locks := (phantom_locks mx)(current_thread \<mapsto>
                  (case phantom_locks mx current_thread of Some c \<Rightarrow> c + 1 | None \<Rightarrow> 1))\<rparr>) s)
            | PTHREAD_MUTEX_ERRORCHECK \<Rightarrow> Some (Lock_err EDEADLK, s)
            | PTHREAD_MUTEX_RECURSIVE \<Rightarrow> do {
                n \<leftarrow> checked_add_u32 lock_count 1;
                Some (Lock_ok (lock_count + 1), set_mutex mid (mx\<lparr>locked := Some (locking_thread, n)\<rparr>) s)
              })
         else Some (Lock_wait, set_mutex mid (mx\<lparr>waiting_count := waiting_count mx + 1\<rparr>) s)
   }"

definition unlock_mutex :: "thread_id \<Rightarrow> u64 \<Rightarrow> mutex_state \<Rightarrow> ((i32 + u32) \<times> mutex_state) option" where
  "unlock_mutex current_thread mid s = do {
     mx \<leftarrow> mutexes s mid;
     if (case phantom_locks mx current_thread of Some c \<Rightarrow> c > 0 | None \<Rightarrow> False) then
       (let c = the (phantom_locks mx current_thread) - 1 in
        Some (Inr 0, set_mutex mid (mx\<lparr>phantom_locks :=
          (phantom_locks mx)(current_thread := (if c = 0 then None else Some c))\<rparr>) s))
     else case locked mx of
       None \<Rightarrow> Some (Inl EPERM, s)
     | Some (locking_thread, lock_count) \<Rightarrow>
         if locking_thread \<noteq> current_thread \<and> m_type mx \<noteq> PTHREAD_MUTEX_NORMAL then Some (Inl EPERM, s)
         else if lock_count = 1 then Some (Inr 0, set_mutex mid (mx\<lparr>locked := None\<rparr>) s)
         else do {
           expect (m_type mx = PTHREAD_MUTEX_RECURSIVE);
           expect (lock_count - 1 \<noteq> 0);
           Some (Inr (lock_count - 1), set_mutex mid (mx\<lparr>locked := Some (locking_thread, lock_count - 1)\<rparr>) s)
         }
   }"

section \<open>The interface of a lock\<close>

fun unlock_times :: "('s \<Rightarrow> ((i32 + u32) \<times> 's) option) \<Rightarrow> nat \<Rightarrow> 's \<Rightarrow> 's option" where
  "unlock_times unlock 0 s = Some s"
| "unlock_times unlock (Suc n) s =
     (case unlock s of Some (Inr _, s') \<Rightarrow> unlock_times unlock n s' | _ \<Rightarrow> None)"

fun lock_times :: "('s \<Rightarrow> (lock_outcome \<times> 's) option) \<Rightarrow> nat \<Rightarrow> 's \<Rightarrow> 's option" where
  "lock_times lock 0 s = Some s"
| "lock_times lock (Suc n) s =
     (case lock s of Some (Lock_ok _, s') \<Rightarrow> lock_times lock n s' | _ \<Rightarrow> None)"

text \<open>
  A lock as its users see it: \<open>held s t\<close> counts the locks that thread \<open>t\<close> has taken and not
  released.  A successful lock adds one, a failed one nothing, and a holder can always unlock.
\<close>

locale lock_service =
  fixes inv :: "'s \<Rightarrow> bool"
    and held :: "'s \<Rightarrow> thread_id \<Rightarrow> nat"
    and lock :: "thread_id \<Rightarrow> 's \<Rightarrow> (lock_outcome \<times> 's) option"
    and unlock :: "thread_id \<Rightarrow> 's \<Rightarrow> ((i32 + u32) \<times> 's) option"
  assumes lock_ok: "inv s \<Longrightarrow> held s t < 2 ^ 32 - 1 \<Longrightarrow> lock t s = Some (Lock_ok n, s') \<Longrightarrow>
        inv s' \<and> held s' = (held s)(t := held s t + 1)"
    and lock_refused: "inv s \<Longrightarrow> lock t s = Some (Lock_err e, s') \<Longrightarrow> s' = s"
    and unlock_holder: "inv s \<Longrightarrow> 0 < held s t \<Longrightarrow>
        \<exists>n s'. unlock t s = Some (Inr n, s') \<and> inv s' \<and> held s' = (held s)(t := held s t - 1)"
begin

lemma unlock_times_ok:
  "inv s \<Longrightarrow> k \<le> held s t \<Longrightarrow>
     \<exists>s'. unlock_times (unlock t) k s = Some s' \<and> inv s' \<and> held s' = (held s)(t := held s t - k)"
proof (induction k arbitrary: s)
  case 0
  then show ?case by simp
next
  case (Suc k)
  then have "0 < held s t" by simp
  from unlock_holder [OF Suc.prems(1) this] obtain n s1 where
    s1: "unlock t s = Some (Inr n, s1)" "inv s1" "held s1 = (held s)(t := held s t - 1)" by blast
  with Suc.prems(2) have "k \<le> held s1 t" by simp
  from Suc.IH [OF s1(2) this] obtain s2 where
    "unlock_times (unlock t) k s1 = Some s2" "inv s2" "held s2 = (held s1)(t := held s1 t - k)" by blast
  with s1 show ?case by (intro exI [of _ s2]) (simp add: fun_upd_upd)
qed

lemma lock_times_ok:
  "inv s \<Longrightarrow> held s t + k < 2 ^ 32 \<Longrightarrow> lock_times (lock t) k s = Some s' \<Longrightarrow>
     inv s' \<and> held s' = (held s)(t := held s t + k)"
proof (induction k arbitrary: s)
  case (Suc k)
  from Suc.prems(3) obtain n s1 where s1: "lock t s = Some (Lock_ok n, s1)" "lock_times (lock t) k s1 = Some s'"
    by (auto split: option.splits lock_outcome.splits)
  have "held s t < 2 ^ 32 - 1" using Suc.prems(2) by simp
  from lock_ok [OF Suc.prems(1) this s1(1)] have "inv s1" "held s1 = (held s)(t := held s t + 1)" by auto
  moreover from this have "held s1 t + k < 2 ^ 32" using Suc.prems(2) by simp
  ultimately have "inv s' \<and> held s' = (held s1)(t := held s1 t + k)" using Suc.IH [of s1] s1(2) by blast
  with \<open>held s1 = (held s)(t := held s t + 1)\<close> show ?case by (simp add: fun_upd_upd del: fun_upd_apply) simp
qed simp

text \<open>As many unlocks as locks succeed, and leave everybody's count as it was.\<close>

lemma balanced:
  assumes "inv s" and "held s t + k < 2 ^ 32" and "lock_times (lock t) k s = Some s1"
  shows "\<exists>s2. unlock_times (unlock t) k s1 = Some s2 \<and> inv s2 \<and> held s2 = held s"
proof -
  note l = lock_times_ok [OF assms]
  then have "k \<le> held s1 t" by simp
  from unlock_times_ok [OF _ this] l show ?thesis by (auto simp: fun_eq_iff)
qed

end

section \<open>The mutexes provide it\<close>

definition wf_mutex :: "mutex \<Rightarrow> bool" where
  "wf_mutex mx \<longleftrightarrow>
     (\<forall>t c. locked mx = Some (t, c) \<longrightarrow> c \<noteq> 0 \<and> (m_type mx \<noteq> PTHREAD_MUTEX_RECURSIVE \<longrightarrow> c = 1)) \<and>
     (\<forall>t c. phantom_locks mx t = Some c \<longrightarrow> m_type mx = PTHREAD_MUTEX_NORMAL)"

definition mutex_held :: "mutex \<Rightarrow> thread_id \<Rightarrow> nat" where
  "mutex_held mx t =
     (case locked mx of Some (own, c) \<Rightarrow> if own = t then unat c else 0 | None \<Rightarrow> 0) +
     (case phantom_locks mx t of Some c \<Rightarrow> unat c | None \<Rightarrow> 0)"

definition mutexes_ok :: "mutex_state \<Rightarrow> bool" where
  "mutexes_ok s \<longleftrightarrow> (\<forall>mid mx. mutexes s mid = Some mx \<longrightarrow> wf_mutex mx)"

definition held_of :: "u64 \<Rightarrow> mutex_state \<Rightarrow> thread_id \<Rightarrow> nat" where
  "held_of mid s t = (case mutexes s mid of Some mx \<Rightarrow> mutex_held mx t | None \<Rightarrow> 0)"

lemma mutexes_set [simp]: "mutexes (set_mutex mid mx s) = (mutexes s)(mid := Some mx)"
  by (simp add: set_mutex_def)

lemma set_mutex_ok: "mutexes_ok s \<Longrightarrow> wf_mutex mx \<Longrightarrow> mutexes_ok (set_mutex mid mx s)"
  by (simp add: mutexes_ok_def)

lemma held_of_set: "held_of mid (set_mutex mid mx s) = mutex_held mx"
  by (simp add: held_of_def fun_eq_iff)

lemma wf_new_mutex [simp]: "wf_mutex (new_mutex ty)"
  by (simp add: wf_mutex_def new_mutex_def)

lemma mutexes_ok_default [simp]: "mutexes_ok mutex_state_default"
  by (simp add: mutexes_ok_def mutex_state_default_def)

lemma lock_mutex_ok_step:
  assumes "mutexes_ok s" and "held_of mid s t < 2 ^ 32 - 1" and "lock_mutex t mid s = Some (Lock_ok n, s')"
  shows "mutexes_ok s' \<and> held_of mid s' = (held_of mid s)(t := held_of mid s t + 1)"
proof -
  from assms(3) obtain mx where mx: "mutexes s mid = Some mx" by (auto simp: lock_mutex_def bind_eq_Some_conv)
  have wf: "wf_mutex mx" using assms(1) mx by (auto simp: mutexes_ok_def)
  have "\<exists>mx'. s' = set_mutex mid mx' s \<and> wf_mutex mx' \<and> mutex_held mx' = (mutex_held mx)(t := mutex_held mx t + 1)"
  proof (cases "locked mx")
    case None
    then have "s' = set_mutex mid (mx\<lparr>locked := Some (t, 1)\<rparr>) s" using assms(3) mx by (simp add: lock_mutex_def)
    moreover have "wf_mutex (mx\<lparr>locked := Some (t, 1)\<rparr>)" using wf by (simp add: wf_mutex_def)
    moreover have "mutex_held (mx\<lparr>locked := Some (t, 1)\<rparr>) = (mutex_held mx)(t := mutex_held mx t + 1)"
      using None by (auto simp: mutex_held_def fun_eq_iff split: option.splits)
    ultimately show ?thesis by blast
  next
    case (Some p)
    then obtain own c where p: "locked mx = Some (own, c)" by (cases p) auto
    have own: "own = t" using assms(3) mx p by (auto simp: lock_mutex_def split: if_splits)
    have c: "c \<noteq> 0" "m_type mx \<noteq> PTHREAD_MUTEX_RECURSIVE \<Longrightarrow> c = 1" using wf p by (auto simp: wf_mutex_def)
    have bound: "mutex_held mx t < 2 ^ 32 - 1" using assms(2) mx by (simp add: held_of_def)
    show ?thesis
    proof (cases "m_type mx")
      case PTHREAD_MUTEX_NORMAL
      let ?k = "case phantom_locks mx t of Some c \<Rightarrow> c + 1 | None \<Rightarrow> 1"
      let ?mx = "mx\<lparr>phantom_locks := (phantom_locks mx)(t \<mapsto> ?k)\<rparr>"
      have "s' = set_mutex mid ?mx s"
        using assms(3) mx p own PTHREAD_MUTEX_NORMAL by (simp add: lock_mutex_def)
      moreover have k: "unat ?k = (case phantom_locks mx t of Some c \<Rightarrow> unat c | None \<Rightarrow> 0) + 1"
        using bound by (auto simp: mutex_held_def p own unat_plus_u32 split: option.splits)
      moreover have "wf_mutex ?mx" using wf PTHREAD_MUTEX_NORMAL by (auto simp: wf_mutex_def)
      moreover have "mutex_held ?mx = (mutex_held mx)(t := mutex_held mx t + 1)"
        using k by (auto simp: mutex_held_def fun_eq_iff split: option.splits)
      ultimately show ?thesis by blast
    next
      case PTHREAD_MUTEX_ERRORCHECK
      with assms(3) mx p own show ?thesis by (simp add: lock_mutex_def)
    next
      case PTHREAD_MUTEX_RECURSIVE
      with assms(3) mx p own have c1: "unat c + 1 < 2 ^ 32" and s': "s' = set_mutex mid (mx\<lparr>locked := Some (t, c + 1)\<rparr>) s"
        by (auto simp: lock_mutex_def checked_add_u32_def split: if_splits)
      have u: "unat (c + 1) = unat c + 1" using c1 by (subst unat_plus_u32) simp_all
      then have "c + 1 \<noteq> 0" by (metis add_is_0 unat_0 zero_neq_one)
      then have "wf_mutex (mx\<lparr>locked := Some (t, c + 1)\<rparr>)" using wf PTHREAD_MUTEX_RECURSIVE by (auto simp: wf_mutex_def)
      moreover have "mutex_held (mx\<lparr>locked := Some (t, c + 1)\<rparr>) = (mutex_held mx)(t := mutex_held mx t + 1)"
        using p own u by (auto simp: mutex_held_def fun_eq_iff)
      ultimately show ?thesis using s' by blast
    qed
  qed
  then show ?thesis using assms(1) mx by (auto simp: set_mutex_ok held_of_set) (simp add: held_of_def fun_eq_iff)+
qed

lemma unlock_mutex_holder:
  assumes "mutexes_ok s" and "0 < held_of mid s t"
  shows "\<exists>n s'. unlock_mutex t mid s = Some (Inr n, s') \<and> mutexes_ok s' \<and>
    held_of mid s' = (held_of mid s)(t := held_of mid s t - 1)"
proof -
  from assms(2) obtain mx where mx: "mutexes s mid = Some mx" by (auto simp: held_of_def split: option.splits)
  have wf: "wf_mutex mx" using assms(1) mx by (auto simp: mutexes_ok_def)
  have held: "0 < mutex_held mx t" using assms(2) mx by (simp add: held_of_def)
  have "\<exists>n mx'. unlock_mutex t mid s = Some (Inr n, set_mutex mid mx' s) \<and> wf_mutex mx' \<and>
      mutex_held mx' = (mutex_held mx)(t := mutex_held mx t - 1)"
  proof (cases "\<exists>k. phantom_locks mx t = Some k \<and> k \<noteq> 0")
    case True
    then obtain k where Some: "phantom_locks mx t = Some k" and k0: "k \<noteq> 0" by blast
    have u: "unat (k - 1) = unat k - 1" "0 < unat k" using k0 by (simp_all add: unat_minus_one unat_gt_0)
    let ?mx = "mx\<lparr>phantom_locks := (phantom_locks mx)(t := (if k - 1 = 0 then None else Some (k - 1)))\<rparr>"
    have "unlock_mutex t mid s = Some (Inr 0, set_mutex mid ?mx s)"
      using mx Some k0 by (simp add: unlock_mutex_def word_greater_zero_iff Let_def)
    moreover have "wf_mutex ?mx" using wf Some by (auto simp: wf_mutex_def)
    moreover have "mutex_held ?mx = (mutex_held mx)(t := mutex_held mx t - 1)"
      using Some u by (auto simp: mutex_held_def fun_eq_iff u32_eq_iff)
    ultimately show ?thesis by blast
  next
    case False
    then have ph: "phantom_locks mx t = None \<or> phantom_locks mx t = Some 0" by (cases "phantom_locks mx t") auto
    then have ph0: "(case phantom_locks mx t of Some c \<Rightarrow> c > 0 | None \<Rightarrow> False) \<longleftrightarrow> False"
      "(case phantom_locks mx t of Some c \<Rightarrow> unat c | None \<Rightarrow> 0) = 0" by auto
    obtain c where p: "locked mx = Some (t, c)"
      using held ph0 by (auto simp: mutex_held_def split: option.splits if_splits)
    have c: "c \<noteq> 0" "m_type mx \<noteq> PTHREAD_MUTEX_RECURSIVE \<longrightarrow> c = 1" using wf p by (auto simp: wf_mutex_def)
    show ?thesis
    proof (cases "c = 1")
      case True
      then have "unlock_mutex t mid s = Some (Inr 0, set_mutex mid (mx\<lparr>locked := None\<rparr>) s)"
        using mx p by (simp add: unlock_mutex_def ph0)
      moreover have "wf_mutex (mx\<lparr>locked := None\<rparr>)" using wf by (simp add: wf_mutex_def)
      moreover have "mutex_held (mx\<lparr>locked := None\<rparr>) = (mutex_held mx)(t := mutex_held mx t - 1)"
        using p ph True by (auto simp: mutex_held_def fun_eq_iff)
      ultimately show ?thesis by blast
    next
      case False
      then have r: "m_type mx = PTHREAD_MUTEX_RECURSIVE" and c1: "c - 1 \<noteq> 0" using c by auto
      have u: "unat (c - 1) = unat c - 1" using c(1) by (rule unat_minus_one_u32)
      have "unlock_mutex t mid s = Some (Inr (c - 1), set_mutex mid (mx\<lparr>locked := Some (t, c - 1)\<rparr>) s)"
        using mx p False r c1 by (simp add: unlock_mutex_def panic_simps ph0)
      moreover have "wf_mutex (mx\<lparr>locked := Some (t, c - 1)\<rparr>)" using wf r c1 by (auto simp: wf_mutex_def)
      moreover have "mutex_held (mx\<lparr>locked := Some (t, c - 1)\<rparr>) = (mutex_held mx)(t := mutex_held mx t - 1)"
        using p ph u by (auto simp: mutex_held_def fun_eq_iff)
      ultimately show ?thesis by blast
    qed
  qed
  then obtain n mx' where "unlock_mutex t mid s = Some (Inr n, set_mutex mid mx' s)" "wf_mutex mx'"
    "mutex_held mx' = (mutex_held mx)(t := mutex_held mx t - 1)" by blast
  then show ?thesis using assms(1) mx
    by (intro exI [of _ n] exI [of _ "set_mutex mid mx' s"])
      (simp add: set_mutex_ok held_of_set, simp add: held_of_def fun_eq_iff)
qed

lemma lock_mutex_refused:
  assumes "lock_mutex t mid s = Some (Lock_err e, s')"
  shows "s' = s"
proof -
  from assms obtain mx where mx: "mutexes s mid = Some mx" by (auto simp: lock_mutex_def bind_eq_Some_conv)
  with assms show ?thesis
    by (cases "locked mx"; cases "m_type mx")
      (auto simp: lock_mutex_def checked_add_u32_def bind_eq_Some_conv split: if_splits)
qed

interpretation host_mutex: lock_service mutexes_ok "held_of mid" "\<lambda>t. lock_mutex t mid" "\<lambda>t. unlock_mutex t mid"
  for mid
proof
  show "mutexes_ok s \<Longrightarrow> held_of mid s t < 2 ^ 32 - 1 \<Longrightarrow> lock_mutex t mid s = Some (Lock_ok n, s') \<Longrightarrow>
      mutexes_ok s' \<and> held_of mid s' = (held_of mid s)(t := held_of mid s t + 1)" for s t n s'
    by (rule lock_mutex_ok_step)
  show "mutexes_ok s \<Longrightarrow> lock_mutex t mid s = Some (Lock_err e, s') \<Longrightarrow> s' = s" for s t e s'
    by (rule lock_mutex_refused)
  show "mutexes_ok s \<Longrightarrow> 0 < held_of mid s t \<Longrightarrow>
      \<exists>n s'. unlock_mutex t mid s = Some (Inr n, s') \<and> mutexes_ok s' \<and>
        held_of mid s' = (held_of mid s)(t := held_of mid s t - 1)" for s t
    by (rule unlock_mutex_holder)
qed

section \<open>Properties\<close>

lemma wf_mutex_waiting [simp]: "wf_mutex (mx\<lparr>waiting_count := w\<rparr>) = wf_mutex mx"
  by (simp add: wf_mutex_def)

lemma wf_mutex_unlocked: "wf_mutex mx \<Longrightarrow> wf_mutex (mx\<lparr>locked := None\<rparr>)"
  by (simp add: wf_mutex_def)

lemma mutexes_okD: "mutexes_ok s \<Longrightarrow> mutexes s mid = Some mx \<Longrightarrow> wf_mutex mx"
  by (simp add: mutexes_ok_def)

lemma lock_mutex_ok:
  assumes "mutexes_ok s" and "lock_mutex t mid s = Some (r, s')"
  shows "mutexes_ok s'"
proof -
  from assms(2) obtain mx where mx: "mutexes s mid = Some mx" by (auto simp: lock_mutex_def bind_eq_Some_conv)
  have wf: "wf_mutex mx" using assms(1) mx by (rule mutexes_okD)
  have "s' = s \<or> (\<exists>mx'. s' = set_mutex mid mx' s \<and> wf_mutex mx')"
  proof (cases "locked mx")
    case None
    have "wf_mutex (mx\<lparr>locked := Some (t, 1)\<rparr>)" using wf by (simp add: wf_mutex_def)
    then show ?thesis using assms(2) mx None by (auto simp: lock_mutex_def)
  next
    case (Some p)
    then obtain own c where p: "locked mx = Some (own, c)" by (cases p) auto
    have u: "unat c + 1 < 2 ^ 32 \<Longrightarrow> c + 1 \<noteq> 0"
    proof
      assume "unat c + 1 < 2 ^ 32" and z: "c + 1 = 0"
      then have "unat (c + 1) = unat c + 1" by (subst unat_plus_u32) simp_all
      with z show False by simp
    qed
    show ?thesis using assms(2) mx p wf u
      by (cases "m_type mx") (auto simp: lock_mutex_def checked_add_u32_def wf_mutex_def bind_eq_Some_conv
          split: if_splits)
  qed
  then show ?thesis using assms(1) set_mutex_ok by blast
qed

lemma unlock_mutex_ok:
  assumes "mutexes_ok s" and "unlock_mutex t mid s = Some (r, s')"
  shows "mutexes_ok s'"
proof -
  from assms(2) obtain mx where mx: "mutexes s mid = Some mx" by (auto simp: unlock_mutex_def bind_eq_Some_conv)
  have wf: "wf_mutex mx" using assms(1) mx by (rule mutexes_okD)
  have "s' = s \<or> (\<exists>mx'. s' = set_mutex mid mx' s \<and> wf_mutex mx')"
  proof (cases "case phantom_locks mx t of Some c \<Rightarrow> c > 0 | None \<Rightarrow> False")
    case True
    then have "wf_mutex (mx\<lparr>phantom_locks := (phantom_locks mx)(t := w)\<rparr>)" for w
      using wf by (auto simp: wf_mutex_def split: option.splits)
    then show ?thesis using assms(2) mx True by (auto simp: unlock_mutex_def Let_def)
  next
    case False
    show ?thesis
    proof (cases "locked mx")
      case None
      with False assms(2) mx show ?thesis by (simp add: unlock_mutex_def)
    next
      case (Some p)
      then obtain own c where p: "locked mx = Some (own, c)" by (cases p) auto
      have "c - 1 \<noteq> 0 \<Longrightarrow> m_type mx = PTHREAD_MUTEX_RECURSIVE \<Longrightarrow> wf_mutex (mx\<lparr>locked := Some (own, c - 1)\<rparr>)"
        using wf by (simp add: wf_mutex_def)
      with False assms(2) mx p wf_mutex_unlocked [OF wf] show ?thesis
        by (auto simp: unlock_mutex_def panic_simps split: if_splits)
    qed
  qed
  then show ?thesis using assms(1) set_mutex_ok by blast
qed

lemma init_mutex_ok: "mutexes_ok s \<Longrightarrow> init_mutex ty s = Some (mid, s') \<Longrightarrow> mutexes_ok s'"
  by (auto simp: init_mutex_def Let_def mutexes_ok_def panic_simps split: if_splits)

lemma destroy_mutex_ok: "mutexes_ok s \<Longrightarrow> destroy_mutex mid s = Some (r, s') \<Longrightarrow> mutexes_ok s'"
  by (auto simp: destroy_mutex_def mutexes_ok_def bind_eq_Some_conv split: if_splits)

lemma relock_unblocked_mutex_eq:
  assumes "relock_unblocked_mutex t mid s = Some s'"
  obtains mx w where "mutexes s mid = Some mx" and "locked mx = None"
    and "s' = set_mutex mid (mx\<lparr>locked := Some (t, 1), waiting_count := w\<rparr>) s"
    and "w = (if 0 < waiting_count mx then waiting_count mx - 1 else 0)"
proof -
  from assms obtain mx where mx: "mutexes s mid = Some mx"
    by (auto simp: relock_unblocked_mutex_def bind_eq_Some_conv)
  have "\<not> 0 < waiting_count mx \<Longrightarrow> mx\<lparr>locked := l\<rparr> = mx\<lparr>locked := l, waiting_count := 0\<rparr>" for l
    by (cases mx) (simp add: word_greater_zero_iff)
  with mx assms that show thesis
    by (auto simp: relock_unblocked_mutex_def panic_simps Let_def split: if_splits)
qed

lemma relock_unblocked_mutex_ok:
  assumes "mutexes_ok s" and "relock_unblocked_mutex t mid s = Some s'"
  shows "mutexes_ok s'"
proof -
  obtain mx w where mx: "mutexes s mid = Some mx"
    and s': "s' = set_mutex mid (mx\<lparr>locked := Some (t, 1), waiting_count := w\<rparr>) s"
    using relock_unblocked_mutex_eq [OF assms(2)] by blast
  have "wf_mutex (mx\<lparr>locked := Some (t, 1), waiting_count := w\<rparr>)"
    using mutexes_okD [OF assms(1) mx] by (simp add: wf_mutex_def)
  then show ?thesis using s' assms(1) set_mutex_ok by simp
qed

lemma relock_unblocked_mutex_owner:
  assumes "relock_unblocked_mutex t mid s = Some s'"
  shows "\<not> mutex_is_locked s mid" and "mutex_is_locked_by s' mid t"
proof -
  obtain mx w where "mutexes s mid = Some mx" and "locked mx = None"
    and "s' = set_mutex mid (mx\<lparr>locked := Some (t, 1), waiting_count := w\<rparr>) s"
    using relock_unblocked_mutex_eq [OF assms] by blast
  then show "\<not> mutex_is_locked s mid" and "mutex_is_locked_by s' mid t"
    by (simp_all add: mutex_is_locked_def mutex_is_locked_by_def)
qed

lemma lock_outcomes:
  assumes "mutexes s mid = Some mx"
  shows "locked mx = None \<Longrightarrow>
           \<exists>s'. lock_mutex t mid s = Some (Lock_ok 1, s') \<and> mutex_is_locked_by s' mid t"
    and "locked mx = Some (own, c) \<Longrightarrow> own \<noteq> t \<Longrightarrow>
           lock_mutex t mid s = Some (Lock_wait, set_mutex mid (mx\<lparr>waiting_count := waiting_count mx + 1\<rparr>) s)"
    and "locked mx = Some (t, c) \<Longrightarrow> m_type mx = PTHREAD_MUTEX_ERRORCHECK \<Longrightarrow>
           lock_mutex t mid s = Some (Lock_err EDEADLK, s)"
    and "locked mx = Some (t, c) \<Longrightarrow> m_type mx = PTHREAD_MUTEX_RECURSIVE \<Longrightarrow> unat c + 1 < 2 ^ 32 \<Longrightarrow>
           \<exists>s'. lock_mutex t mid s = Some (Lock_ok (c + 1), s') \<and> mutex_is_locked_by s' mid t"
    and "locked mx = Some (t, c) \<Longrightarrow> m_type mx = PTHREAD_MUTEX_NORMAL \<Longrightarrow>
           \<exists>s'. lock_mutex t mid s = Some (Lock_ok 1, s') \<and> mutex_is_locked_by s' mid t"
  using assms by (auto simp: lock_mutex_def mutex_is_locked_by_def checked_add_u32_def)

lemma lock_mutex_never_panics:
  "mutexes s mid = Some mx \<Longrightarrow> (\<And>t' c. locked mx = Some (t', c) \<Longrightarrow> unat c + 1 < 2 ^ 32) \<Longrightarrow>
     \<exists>r. lock_mutex t mid s = Some r"
  by (cases "locked mx"; cases "m_type mx") (auto simp: lock_mutex_def checked_add_u32_def)

text \<open>
  The mutex table stays well formed (a held lock has a positive count, which is 1 unless the
  mutex is recursive, and only normal mutexes have phantom locks) under every operation on it:
  creation, destruction, locking and unlocking by any thread with any outcome, and the scheduler's
  relock.
\<close>
theorem mutexes_ok_preserved:
  assumes "mutexes_ok s"
  shows "(\<forall>ty mid s'. init_mutex ty s = Some (mid, s') \<longrightarrow> mutexes_ok s') \<and>
    (\<forall>mid r s'. destroy_mutex mid s = Some (r, s') \<longrightarrow> mutexes_ok s') \<and>
    (\<forall>t mid s'. relock_unblocked_mutex t mid s = Some s' \<longrightarrow> mutexes_ok s') \<and>
    (\<forall>t mid r s'. lock_mutex t mid s = Some (r, s') \<longrightarrow> mutexes_ok s') \<and>
    (\<forall>t mid r s'. unlock_mutex t mid s = Some (r, s') \<longrightarrow> mutexes_ok s')"
proof (intro conjI allI impI)
  show "init_mutex ty s = Some (mid, s') \<Longrightarrow> mutexes_ok s'" for ty mid s' using assms by (rule init_mutex_ok)
  show "destroy_mutex mid s = Some (r, s') \<Longrightarrow> mutexes_ok s'" for mid r s' using assms by (rule destroy_mutex_ok)
  show "relock_unblocked_mutex t mid s = Some s' \<Longrightarrow> mutexes_ok s'" for t mid s'
    using assms by (rule relock_unblocked_mutex_ok)
  show "lock_mutex t mid s = Some (r, s') \<Longrightarrow> mutexes_ok s'" for t mid r s' using assms by (rule lock_mutex_ok)
  show "unlock_mutex t mid s = Some (r, s') \<Longrightarrow> mutexes_ok s'" for t mid r s' using assms by (rule unlock_mutex_ok)
qed

theorem mutexes_ok_preserved_witness:
  "\<exists>s'. init_mutex PTHREAD_MUTEX_NORMAL mutex_state_default = Some (0, s') \<and> mutexes_ok s'"
proof -
  have "\<exists>s'. init_mutex PTHREAD_MUTEX_NORMAL mutex_state_default = Some (0, s')"
    by (simp add: init_mutex_def mutex_state_default_def)
  then show ?thesis using mutexes_ok_preserved [OF mutexes_ok_default] by blast
qed

text \<open>
  C17: Locks and unlocks balance for each of the three mutex types.  After \<open>k\<close> successful locks of
  a mutex by one thread, whatever was held before, \<open>k\<close> unlocks by the same thread all succeed, and
  every thread holds the mutex exactly as often as before.  This is the claim the phantom locks
  of a normal mutex were introduced for.
\<close>
theorem mutex_balanced:
  assumes "mutexes_ok s" and "held_of mid s t + k < 2 ^ 32"
    and "lock_times (lock_mutex t mid) k s = Some s1"
  shows "\<exists>s2. unlock_times (unlock_mutex t mid) k s1 = Some s2 \<and> mutexes_ok s2 \<and> held_of mid s2 = held_of mid s"
  using assms by (rule host_mutex.balanced)

definition one_mutex :: "mutex_type \<Rightarrow> mutex_state" where
  "one_mutex ty = \<lparr>mutexes = (\<lambda>m. if m = 0 then Some (new_mutex ty) else None), mutex_count = 1\<rparr>"

lemma one_mutex_ok: "mutexes_ok (one_mutex ty)"
  by (simp add: mutexes_ok_def one_mutex_def)

lemma one_mutex_held: "held_of 0 (one_mutex ty) = (\<lambda>_. 0)"
  by (simp add: held_of_def one_mutex_def mutex_held_def new_mutex_def fun_eq_iff)

lemma lock_twice: "\<exists>s1. lock_times (lock_mutex 5 0) 2 (one_mutex PTHREAD_MUTEX_NORMAL) = Some s1"
  by (simp add: numeral_2_eq_2 lock_mutex_def one_mutex_def new_mutex_def set_mutex_def)

theorem mutex_balanced_witness:
  "\<exists>s1 s2. lock_times (lock_mutex 5 0) 2 (one_mutex PTHREAD_MUTEX_NORMAL) = Some s1 \<and>
     unlock_times (unlock_mutex 5 0) 2 s1 = Some s2 \<and> held_of 0 s2 = (\<lambda>_. 0)"
proof -
  obtain s1 where s1: "lock_times (lock_mutex 5 0) 2 (one_mutex PTHREAD_MUTEX_NORMAL) = Some s1"
    using lock_twice by blast
  have "held_of 0 (one_mutex PTHREAD_MUTEX_NORMAL) 5 + 2 < 2 ^ 32" by (simp add: one_mutex_held)
  from mutex_balanced [OF one_mutex_ok this s1] s1 show ?thesis by (auto simp: one_mutex_held)
qed

text \<open>
  C29: Mutual exclusion.  If another thread owns a mutex, a lock attempt does not succeed, whatever
  the type: the caller has to wait and the owner stays the owner; and an unlock of an
  error-checking or recursive mutex by a thread that does not own it fails with \<open>EPERM\<close> and
  changes nothing.
\<close>
theorem mutex_exclusive:
  assumes "mutexes_ok s" and "mutexes s mid = Some mx" and "mutex_is_locked_by s mid own" and "own \<noteq> t"
  shows "(\<exists>s'. lock_mutex t mid s = Some (Lock_wait, s') \<and> mutex_is_locked_by s' mid own) \<and>
    (m_type mx \<noteq> PTHREAD_MUTEX_NORMAL \<longrightarrow> unlock_mutex t mid s = Some (Inl EPERM, s))"
proof -
  from assms obtain c where l: "locked mx = Some (own, c)"
    by (auto simp: mutex_is_locked_by_def split: option.splits)
  have "m_type mx \<noteq> PTHREAD_MUTEX_NORMAL \<Longrightarrow> phantom_locks mx t = None"
    using assms(1,2) by (cases "phantom_locks mx t") (auto simp: mutexes_ok_def wf_mutex_def)
  with l assms show ?thesis by (auto simp: lock_outcomes(2) unlock_mutex_def mutex_is_locked_by_def)
qed

definition held_mutex :: "mutex_type \<Rightarrow> mutex_state" where
  "held_mutex ty = \<lparr>mutexes = (\<lambda>m. if m = 0 then Some ((new_mutex ty)\<lparr>locked := Some (1, 1)\<rparr>) else None),
     mutex_count = 1\<rparr>"

theorem mutex_exclusive_witness:
  "unlock_mutex 2 0 (held_mutex PTHREAD_MUTEX_RECURSIVE) = Some (Inl EPERM, held_mutex PTHREAD_MUTEX_RECURSIVE)"
proof -
  have "mutexes_ok (held_mutex PTHREAD_MUTEX_RECURSIVE)"
    by (simp add: mutexes_ok_def held_mutex_def wf_mutex_def new_mutex_def)
  moreover have "mutexes (held_mutex PTHREAD_MUTEX_RECURSIVE) 0 =
      Some ((new_mutex PTHREAD_MUTEX_RECURSIVE)\<lparr>locked := Some (1, 1)\<rparr>)"
    by (simp add: held_mutex_def)
  moreover have "mutex_is_locked_by (held_mutex PTHREAD_MUTEX_RECURSIVE) 0 1"
    by (simp add: held_mutex_def mutex_is_locked_by_def)
  ultimately show ?thesis using mutex_exclusive [of _ 0 _ 1 2] by (auto simp: new_mutex_def)
qed

text \<open>
  A mutex is destroyed only when no thread owns it and no thread is counted as waiting for it;
  otherwise \<open>EBUSY\<close> is returned and the mutex table is unchanged.  A thread that has to wait is
  counted, so a destruction right after it fails even when the owner releases the lock first.
\<close>
theorem destroy_mutex_guarded:
  "(\<forall>mx s'. mutexes s mid = Some mx \<longrightarrow>
      (destroy_mutex mid s = Some (Inr (), s') \<longleftrightarrow>
        locked mx = None \<and> waiting_count mx = 0 \<and> s' = s\<lparr>mutexes := (mutexes s)(mid := None)\<rparr>)) \<and>
   (\<forall>e s'. destroy_mutex mid s = Some (Inl e, s') \<longrightarrow> e = EBUSY \<and> s' = s) \<and>
   (\<forall>t own mx s1 n s2. mutexes s mid = Some mx \<longrightarrow> locked mx = Some (own, 1) \<longrightarrow> phantom_locks mx own = None \<longrightarrow>
      waiting_count mx \<noteq> - 1 \<longrightarrow> lock_mutex t mid s = Some (Lock_wait, s1) \<longrightarrow>
      unlock_mutex own mid s1 = Some (n, s2) \<longrightarrow> destroy_mutex mid s2 = Some (Inl EBUSY, s2))"
proof (intro conjI allI impI)
  fix mx s' assume "mutexes s mid = Some mx"
  then show "destroy_mutex mid s = Some (Inr (), s') \<longleftrightarrow>
      locked mx = None \<and> waiting_count mx = 0 \<and> s' = s\<lparr>mutexes := (mutexes s)(mid := None)\<rparr>"
    by (cases "locked mx") (auto simp: destroy_mutex_def)
next
  fix e s' assume "destroy_mutex mid s = Some (Inl e, s')"
  then show "e = EBUSY" "s' = s" by (auto simp: destroy_mutex_def bind_eq_Some_conv split: if_splits)
next
  fix t own mx s1 n s2
  assume mx: "mutexes s mid = Some mx" "locked mx = Some (own, 1)" "phantom_locks mx own = None"
    and w: "waiting_count mx \<noteq> - 1" and l: "lock_mutex t mid s = Some (Lock_wait, s1)"
    and u: "unlock_mutex own mid s1 = Some (n, s2)"
  have "own \<noteq> t" using mx l
    by (cases "m_type mx") (auto simp: lock_mutex_def bind_eq_Some_conv)
  then have s1: "s1 = set_mutex mid (mx\<lparr>waiting_count := waiting_count mx + 1\<rparr>) s"
    using l lock_outcomes(2) [OF mx(1,2)] by simp
  with u mx have "s2 = set_mutex mid (mx\<lparr>waiting_count := waiting_count mx + 1, locked := None\<rparr>) s1"
    by (simp add: unlock_mutex_def)
  moreover have "waiting_count mx + 1 \<noteq> 0" using w by (metis add_diff_cancel_right' diff_0)
  ultimately show "destroy_mutex mid s2 = Some (Inl EBUSY, s2)" by (simp add: destroy_mutex_def)
qed

theorem destroy_mutex_guarded_witness:
  "destroy_mutex 0 (one_mutex PTHREAD_MUTEX_NORMAL) =
     Some (Inr (), (one_mutex PTHREAD_MUTEX_NORMAL)\<lparr>mutexes := Map.empty\<rparr>)"
proof -
  have "mutexes (one_mutex PTHREAD_MUTEX_NORMAL) 0 = Some (new_mutex PTHREAD_MUTEX_NORMAL)"
    by (simp add: one_mutex_def)
  moreover have "(mutexes (one_mutex PTHREAD_MUTEX_NORMAL))(0 := None) = Map.empty"
    by (auto simp: one_mutex_def)
  ultimately show ?thesis
    using destroy_mutex_guarded [of "one_mutex PTHREAD_MUTEX_NORMAL" 0] by (simp add: new_mutex_def)
qed

end
