(* ===== verification/Threads.thy ===== *)
theory Threads
  imports GuestMem Mutex
begin

text \<open>
  The guest's threads and the scheduler (\<open>src/environment.rs\<close>): what blocks a thread, the blocking
  operations on mutexes, semaphores and other threads, suspension, and the round-robin scheduler
  with the bookkeeping it does when it wakes a thread.  A blocked thread's coroutine is kept as the
  point at which its host call goes on (\<open>cont\<close>).  Times are nanoseconds; what the clocks read is a
  parameter of a scheduler pass.
\<close>

section \<open>State\<close>

datatype cpu_error = MemoryError | UndefinedInstruction | Breakpoint

datatype thread_block =
    NotBlocked
  | Sleeping nat
  | GuestSleeping nat
  | Block_Mutex u64
  | Block_Semaphore vaddr
  | Block_Condition vaddr "nat option"
  | Joining thread_id vaddr
  | WaitingForDebugger "cpu_error option"
  | Suspended nat thread_block

text \<open>Where a host function goes on when its thread is resumed.\<close>

datatype cont =
    Start_routine vaddr vaddr
  | After_return
  | After_zero
  | After_cond_wait vaddr
  | After_cond_timedwait vaddr
  | After_cond_timedwait_relative vaddr vaddr

record thread =
  active :: bool
  blocked_by :: thread_block
  return_value :: "vaddr option"
  host_context :: "cont option"
  stack :: "(vaddr \<times> vaddr) option"

record semaphore_object =
  sem_value :: i32
  sem_waiting :: "thread_id set"
  guest_sem :: "vaddr option"
  sem_named :: bool

record cond_object =
  waiting :: "thread_id list"
  waking :: "thread_id list"
  curr_mutex :: "u64 option"
  timed_out :: "thread_id set"

text \<open>
  The parts of \<open>Environment\<close> that threads use.  Semaphores are shared (\<open>Rc\<close>) between the table of
  names and the table of open handles, so both hold references into \<open>semaphores\<close>.
\<close>

record env =
  env_mem :: mem
  mutex_st :: mutex_state
  semaphores :: "nat \<Rightarrow> semaphore_object option"
  semaphore_next :: nat
  named_semaphores :: "u8 list \<Rightarrow> nat option"
  open_semaphores :: "vaddr \<Rightarrow> nat option"
  condition_variables :: "vaddr \<Rightarrow> cond_object option"
  threads :: "thread list"
  current_thread :: thread_id
  errnos :: "thread_id \<Rightarrow> vaddr option"

definition is_blocked :: "thread \<Rightarrow> bool" where
  "is_blocked th = (blocked_by th \<noteq> NotBlocked)"

definition set_blocked :: "thread_id \<Rightarrow> thread_block \<Rightarrow> env \<Rightarrow> env" where
  "set_blocked t b e = e\<lparr>threads := (threads e)[t := (threads e ! t)\<lparr>blocked_by := b\<rparr>]\<rparr>"

definition thread_at :: "thread_id \<Rightarrow> env \<Rightarrow> thread option" where
  "thread_at t e = (if t < length (threads e) then Some (threads e ! t) else None)"

section \<open>Creation and end of a thread\<close>

definition new_thread :: "vaddr \<Rightarrow> vaddr \<Rightarrow> u32 \<Rightarrow> env \<Rightarrow> (thread_id \<times> env) option" where
  "new_thread start_routine user_data stack_size e = do {
     (stack_alloc, m) \<leftarrow> Mem_alloc stack_size (env_mem e);
     let stack_high_addr = stack_alloc + stack_size;
     expect (unat stack_high_addr mod 4 = 0);
     Some (length (threads e),
       e\<lparr>env_mem := m,
         threads := threads e @ [\<lparr>active = True, blocked_by = NotBlocked, return_value = None,
           host_context = Some (Start_routine start_routine user_data),
           stack = Some (stack_alloc, stack_high_addr - 1)\<rparr>]\<rparr>)
   }"

text \<open>
  The current thread's start routine has returned: the end of its coroutine and the main loop's
  reaction, which gives the stack back.
\<close>

definition finish_thread :: "vaddr \<Rightarrow> env \<Rightarrow> env option" where
  "finish_thread rv e = do {
     th \<leftarrow> thread_at (current_thread e) e;
     (lo, hi) \<leftarrow> stack th;
     let th1 = th\<lparr>return_value := Some rv, active := False, stack := None\<rparr>;
     m \<leftarrow> Mem_free lo (env_mem e);
     Some (e\<lparr>threads := (threads e)[current_thread e := th1], env_mem := m\<rparr>)
   }"

section \<open>Blocking operations\<close>

text \<open>What a host function does: it returns, or its thread has been suspended.\<close>

datatype 'a outcome = Return 'a | Yielded

definition yield_thread :: "thread_block \<Rightarrow> cont \<Rightarrow> env \<Rightarrow> env option" where
  "yield_thread b k e = do {
     th \<leftarrow> thread_at (current_thread e) e;
     expect (\<not> is_blocked th);
     Some (e\<lparr>threads := (threads e)[current_thread e := th\<lparr>blocked_by := b, host_context := Some k\<rparr>]\<rparr>)
   }"

definition sleep :: "nat \<Rightarrow> nat \<Rightarrow> env \<Rightarrow> env option" where
  "sleep now duration e = yield_thread (Sleeping (now + duration)) After_return e"

definition sleep_guest :: "nat \<Rightarrow> nat \<Rightarrow> env \<Rightarrow> env option" where
  "sleep_guest guest_now duration e = yield_thread (GuestSleeping (guest_now + duration)) After_return e"

definition suspend_thread :: "thread_id \<Rightarrow> env \<Rightarrow> (unit outcome \<times> env) option" where
  "suspend_thread t e = do {
     th \<leftarrow> thread_at t e;
     (case blocked_by th of
        Suspended n b \<Rightarrow> Some (Return (), set_blocked t (Suspended (n + 1) b) e)
      | b \<Rightarrow>
          let e1 = set_blocked t NotBlocked e;
              new_state = Suspended 1 b
          in if t = current_thread e1 then map_option (Pair Yielded) (yield_thread new_state After_return e1)
             else Some (Return (), set_blocked t new_state e1))
   }"

definition resume_thread :: "thread_id \<Rightarrow> env \<Rightarrow> env option" where
  "resume_thread t e = do {
     th \<leftarrow> thread_at t e;
     (case blocked_by th of
        Suspended n b \<Rightarrow> do {
          expect (n > 0);
          Some (if n > 1 then set_blocked t (Suspended (n - 1) b) e else set_blocked t b e)
        }
      | other \<Rightarrow> Some (set_blocked t other e))
   }"

definition block_on_mutex :: "u64 \<Rightarrow> env \<Rightarrow> env option" where
  "block_on_mutex mid e = yield_thread (Block_Mutex mid) After_zero e"

text \<open>\<open>Environment::lock_mutex\<close> as its callers use it: \<open>err().unwrap_or(0)\<close>.\<close>

definition env_lock_mutex :: "u64 \<Rightarrow> env \<Rightarrow> (i32 outcome \<times> env) option" where
  "env_lock_mutex mid e = do {
     (r, s) \<leftarrow> lock_mutex (current_thread e) mid (mutex_st e);
     let e1 = e\<lparr>mutex_st := s\<rparr>;
     (case r of
        Lock_ok _ \<Rightarrow> Some (Return 0, e1)
      | Lock_err err \<Rightarrow> Some (Return err, e1)
      | Lock_wait \<Rightarrow> map_option (Pair Yielded) (block_on_mutex mid e1))
   }"

definition env_unlock_mutex :: "u64 \<Rightarrow> env \<Rightarrow> (i32 \<times> env) option" where
  "env_unlock_mutex mid e = do {
     (r, s) \<leftarrow> unlock_mutex (current_thread e) mid (mutex_st e);
     Some (case r of Inl err \<Rightarrow> err | Inr _ \<Rightarrow> 0, e\<lparr>mutex_st := s\<rparr>)
   }"

definition relock_for_thread :: "thread_id \<Rightarrow> u64 \<Rightarrow> env \<Rightarrow> env option" where
  "relock_for_thread t mid e =
     map_option (\<lambda>s. e\<lparr>mutex_st := s\<rparr>) (relock_unblocked_mutex t mid (mutex_st e))"

definition sem_at :: "vaddr \<Rightarrow> env \<Rightarrow> (nat \<times> semaphore_object) option" where
  "sem_at sem e = do {
     r \<leftarrow> open_semaphores e sem;
     map_option (Pair r) (semaphores e r)
   }"

definition set_sem :: "nat \<Rightarrow> semaphore_object \<Rightarrow> env \<Rightarrow> env" where
  "set_sem r obj e = e\<lparr>semaphores := (semaphores e)(r := Some obj)\<rparr>"

definition sem_decrement :: "vaddr \<Rightarrow> bool \<Rightarrow> env \<Rightarrow> (bool outcome \<times> env) option" where
  "sem_decrement sem wait_on_lock e =
     (case open_semaphores e sem of
        None \<Rightarrow> Some (Return False, e)
      | Some r \<Rightarrow> do {
          host_sem \<leftarrow> semaphores e r;
          if 0 <s sem_value host_sem then
            Some (Return True, set_sem r (host_sem\<lparr>sem_value := sem_value host_sem - 1\<rparr>) e)
          else if \<not> wait_on_lock then Some (Return False, e)
          else map_option (Pair Yielded) (yield_thread (Block_Semaphore sem) After_zero
            (set_sem r (host_sem\<lparr>sem_waiting := insert (current_thread e) (sem_waiting host_sem)\<rparr>) e))
        })"

definition sem_increment :: "vaddr \<Rightarrow> env \<Rightarrow> (bool \<times> env) option" where
  "sem_increment sem e =
     (case open_semaphores e sem of
        None \<Rightarrow> Some (False, e)
      | Some r \<Rightarrow> do {
          host_sem \<leftarrow> semaphores e r;
          Some (True, set_sem r (host_sem\<lparr>sem_value := sem_value host_sem + 1\<rparr>) e)
        })"

definition join_with_thread :: "thread_id \<Rightarrow> vaddr \<Rightarrow> env \<Rightarrow> env option" where
  "join_with_thread joinee ptr e = yield_thread (Joining joinee ptr) After_zero e"

section \<open>The scheduler\<close>

text \<open>The clocks: the host's, the guest's (with its conversion to host time) and the wall clock.\<close>

record clocks =
  instant_now :: nat
  guest_now :: nat
  host_deadline :: "nat \<Rightarrow> nat"
  system_now :: nat

definition earlier :: "nat option \<Rightarrow> nat \<Rightarrow> nat option" where
  "earlier d t = (case d of None \<Rightarrow> Some t | Some other \<Rightarrow> Some (min other t))"

text \<open>
  One candidate of a pass: the thread is taken (\<open>Inl\<close>), or it is skipped and the earliest awakening
  is updated (\<open>Inr\<close>).
\<close>

definition schedule_candidate ::
    "clocks \<Rightarrow> thread_id \<Rightarrow> nat option \<Rightarrow> env \<Rightarrow> ((unit + nat option) \<times> env) option" where
  "schedule_candidate ck t awake e = do {
     candidate \<leftarrow> thread_at t e;
     if \<not> active candidate then Some (Inr awake, e)
     else case blocked_by candidate of
       Sleeping sleeping_until \<Rightarrow>
         if sleeping_until \<le> instant_now ck then Some (Inl (), set_blocked t NotBlocked e)
         else Some (Inr (earlier awake sleeping_until), e)
     | GuestSleeping due \<Rightarrow>
         if due \<le> guest_now ck then Some (Inl (), set_blocked t NotBlocked e)
         else Some (Inr (earlier awake (host_deadline ck due)), e)
     | Block_Mutex mid \<Rightarrow>
         if \<not> mutex_is_locked (mutex_st e) mid
         then map_option (Pair (Inl ())) (relock_for_thread t mid (set_blocked t NotBlocked e))
         else Some (Inr awake, e)
     | Block_Semaphore sem \<Rightarrow>
         (case open_semaphores e sem of
            None \<Rightarrow> Some (Inl (), set_blocked t NotBlocked e)
          | Some r \<Rightarrow> do {
              host_sem \<leftarrow> semaphores e r;
              if 0 <s sem_value host_sem then
                Some (Inl (), set_blocked t NotBlocked
                  (set_sem r (host_sem\<lparr>sem_value := sem_value host_sem - 1,
                     sem_waiting := sem_waiting host_sem - {t}\<rparr>) e))
              else Some (Inr awake, e)
            })
     | Block_Condition cond deadline \<Rightarrow> do {
         host_cond \<leftarrow> condition_variables e cond;
         mid \<leftarrow> curr_mutex host_cond;
         if (waking host_cond \<noteq> [] \<and> hd (waking host_cond) = t) \<and> \<not> mutex_is_locked (mutex_st e) mid then
           map_option (Pair (Inl ())) (relock_for_thread t mid (set_blocked t NotBlocked
             (e\<lparr>condition_variables := (condition_variables e)(cond \<mapsto>
                host_cond\<lparr>waking := tl (waking host_cond)\<rparr>)\<rparr>)))
         else case deadline of
           None \<Rightarrow> Some (Inr awake, e)
         | Some d \<Rightarrow>
             if d \<le> system_now ck then do {
               expect (t \<notin> timed_out host_cond);
               let e1 = e\<lparr>condition_variables := (condition_variables e)(cond \<mapsto>
                 host_cond\<lparr>timed_out := insert t (timed_out host_cond),
                   waking := filter (\<lambda>u. u \<noteq> t) (waking host_cond),
                   waiting := filter (\<lambda>u. u \<noteq> t) (waiting host_cond)\<rparr>)\<rparr>;
               if mutex_is_locked (mutex_st e1) mid then Some (Inr awake, set_blocked t (Block_Mutex mid) e1)
               else map_option (Pair (Inl ())) (relock_for_thread t mid (set_blocked t NotBlocked e1))
             }
             else Some (Inr (earlier awake (instant_now ck + (d - system_now ck))), e)
       }
     | Joining joinee ptr \<Rightarrow> do {
         joined \<leftarrow> thread_at joinee e;
         if \<not> active joined then do {
           m \<leftarrow> (if ptr \<noteq> 0
                  then write_u32 ptr (case return_value joined of Some rv \<Rightarrow> rv | None \<Rightarrow> 0) (env_mem e)
                  else Some (env_mem e));
           Some (Inl (), set_blocked t NotBlocked (e\<lparr>env_mem := m\<rparr>))
         }
         else Some (Inr awake, e)
       }
     | NotBlocked \<Rightarrow> Some (Inl (), e)
     | WaitingForDebugger _ \<Rightarrow> None
     | Suspended cnt _ \<Rightarrow> do { expect (cnt > 0); Some (Inr awake, e) }
   }"

text \<open>A pass over \<open>is\<close>, the offsets still to try; the clocks are read anew for each candidate.\<close>

fun schedule_from ::
    "(nat \<Rightarrow> clocks) \<Rightarrow> nat list \<Rightarrow> nat option \<Rightarrow> env \<Rightarrow> ((thread_id + nat option) \<times> env) option" where
  "schedule_from ck [] awake e = Some (Inr awake, e)"
| "schedule_from ck (i # is) awake e = do {
     let t = (current_thread e + 1 + i) mod length (threads e);
     (r, e1) \<leftarrow> schedule_candidate (ck i) t awake e;
     (case r of
        Inl _ \<Rightarrow> Some (Inl t, e1)
      | Inr awake1 \<Rightarrow> schedule_from ck is awake1 e1)
   }"

definition schedule_pass :: "(nat \<Rightarrow> clocks) \<Rightarrow> env \<Rightarrow> ((thread_id + nat option) \<times> env) option" where
  "schedule_pass ck e = schedule_from ck [0..<length (threads e)] None e"

text \<open>
  The loop around the passes.  \<open>cks k\<close> are the clocks of pass \<open>k\<close>; \<open>grace\<close> is the counter of passes
  that found nothing to wait for, a static variable of the source.  \<open>Inr\<close> is a run that needs more
  passes than \<open>fuel\<close>.
\<close>

fun schedule_next_thread ::
    "nat \<Rightarrow> (nat \<Rightarrow> nat \<Rightarrow> clocks) \<Rightarrow> nat \<Rightarrow> env \<Rightarrow> ((thread_id + unit) \<times> nat \<times> env) option" where
  "schedule_next_thread 0 cks grace e = Some (Inr (), grace, e)"
| "schedule_next_thread (Suc fuel) cks grace e = do {
     (r, e1) \<leftarrow> schedule_pass (cks 0) e;
     (case r of
        Inl t \<Rightarrow> Some (Inl t, grace, e1)
      | Inr (Some _) \<Rightarrow> schedule_next_thread fuel (\<lambda>k. cks (Suc k)) grace e1
      | Inr None \<Rightarrow>
          if grace < 3 then schedule_next_thread fuel (\<lambda>k. cks (Suc k)) (grace + 1) e1
          else None)
   }"

definition switch_thread :: "thread_id \<Rightarrow> env \<Rightarrow> env" where
  "switch_thread t e = e\<lparr>current_thread := t\<rparr>"

section \<open>What a pass does\<close>

text \<open>The condition on which a blocked thread may run.\<close>

definition sem_available :: "vaddr \<Rightarrow> env \<Rightarrow> bool" where
  "sem_available sem e =
     (case open_semaphores e sem of
        None \<Rightarrow> True
      | Some r \<Rightarrow> (case semaphores e r of Some obj \<Rightarrow> 0 <s sem_value obj | None \<Rightarrow> False))"

definition cond_wakes :: "clocks \<Rightarrow> thread_id \<Rightarrow> vaddr \<Rightarrow> nat option \<Rightarrow> env \<Rightarrow> bool" where
  "cond_wakes ck t c d e =
     (case condition_variables e c of
        None \<Rightarrow> False
      | Some obj \<Rightarrow> (case curr_mutex obj of
          None \<Rightarrow> False
        | Some mid \<Rightarrow> \<not> mutex_is_locked (mutex_st e) mid \<and>
            ((waking obj \<noteq> [] \<and> hd (waking obj) = t) \<or> (case d of None \<Rightarrow> False | Some d' \<Rightarrow> d' \<le> system_now ck))))"

definition may_run :: "clocks \<Rightarrow> thread_id \<Rightarrow> thread_block \<Rightarrow> env \<Rightarrow> bool" where
  "may_run ck t b e =
     (case b of
        NotBlocked \<Rightarrow> True
      | Sleeping u \<Rightarrow> u \<le> instant_now ck
      | GuestSleeping u \<Rightarrow> u \<le> guest_now ck
      | Block_Mutex mid \<Rightarrow> \<not> mutex_is_locked (mutex_st e) mid
      | Block_Semaphore sem \<Rightarrow> sem_available sem e
      | Block_Condition c d \<Rightarrow> cond_wakes ck t c d e
      | Joining j _ \<Rightarrow> (case thread_at j e of None \<Rightarrow> False | Some th \<Rightarrow> \<not> active th)
      | WaitingForDebugger _ \<Rightarrow> False
      | Suspended _ _ \<Rightarrow> False)"

definition runnable :: "clocks \<Rightarrow> thread_id \<Rightarrow> env \<Rightarrow> bool" where
  "runnable ck t e =
     (t < length (threads e) \<and> active (threads e ! t) \<and> may_run ck t (blocked_by (threads e ! t)) e)"

text \<open>What a thread has obtained when it runs again: \<open>e\<close> before, \<open>e'\<close> after.\<close>

definition obtained :: "clocks \<Rightarrow> thread_id \<Rightarrow> thread_block \<Rightarrow> env \<Rightarrow> env \<Rightarrow> bool" where
  "obtained ck t b e e' =
     (case b of
        Block_Mutex mid \<Rightarrow> mutex_is_locked_by (mutex_st e') mid t
      | Block_Semaphore sem \<Rightarrow> (case sem_at sem e of
          None \<Rightarrow> True
        | Some (r, obj) \<Rightarrow> semaphores e' r =
            Some (obj\<lparr>sem_value := sem_value obj - 1, sem_waiting := sem_waiting obj - {t}\<rparr>))
      | Block_Condition c d \<Rightarrow> (\<exists>obj mid obj'.
          condition_variables e c = Some obj \<and> curr_mutex obj = Some mid \<and> mutex_is_locked_by (mutex_st e') mid t \<and>
          condition_variables e' c = Some obj' \<and> (t \<in> timed_out obj' \<or> t \<in> set (waking obj)))
      | _ \<Rightarrow> True)"

definition unblocked :: "thread_id \<Rightarrow> env \<Rightarrow> env \<Rightarrow> bool" where
  "unblocked t e e' =
     (threads e' = (threads e)[t := (threads e ! t)\<lparr>blocked_by := NotBlocked\<rparr>] \<and> current_thread e' = current_thread e)"

text \<open>A skipped candidate changes nothing, or its timed wait has run out while the mutex is held.\<close>

definition times_out :: "thread_id \<Rightarrow> env \<Rightarrow> env \<Rightarrow> bool" where
  "times_out t e e' \<longleftrightarrow> (\<exists>c d obj mid.
     blocked_by (threads e ! t) = Block_Condition c (Some d) \<and> condition_variables e c = Some obj \<and>
     curr_mutex obj = Some mid \<and> mutex_is_locked (mutex_st e) mid \<and>
     e' = set_blocked t (Block_Mutex mid) (e\<lparr>condition_variables := (condition_variables e)(c \<mapsto>
       obj\<lparr>timed_out := insert t (timed_out obj), waking := filter (\<lambda>u. u \<noteq> t) (waking obj),
         waiting := filter (\<lambda>u. u \<noteq> t) (waiting obj)\<rparr>)\<rparr>))"

definition skipped :: "thread_id \<Rightarrow> env \<Rightarrow> env \<Rightarrow> bool" where
  "skipped t e e' \<longleftrightarrow> e' = e \<or> times_out t e e'"

lemma set_blocked_simps [simp]:
  "env_mem (set_blocked t b e) = env_mem e" "mutex_st (set_blocked t b e) = mutex_st e"
  "semaphores (set_blocked t b e) = semaphores e" "open_semaphores (set_blocked t b e) = open_semaphores e"
  "condition_variables (set_blocked t b e) = condition_variables e"
  "current_thread (set_blocked t b e) = current_thread e"
  "length (threads (set_blocked t b e)) = length (threads e)"
  by (simp_all add: set_blocked_def)

lemma set_sem_simps [simp]:
  "env_mem (set_sem r s e) = env_mem e" "mutex_st (set_sem r s e) = mutex_st e"
  "semaphores (set_sem r s e) = (semaphores e)(r \<mapsto> s)" "open_semaphores (set_sem r s e) = open_semaphores e"
  "condition_variables (set_sem r s e) = condition_variables e"
  "current_thread (set_sem r s e) = current_thread e" "threads (set_sem r s e) = threads e"
  by (simp_all add: set_sem_def)

lemma unblocked_set [simp]: "unblocked t e (set_blocked t NotBlocked e)"
  by (simp add: unblocked_def set_blocked_def)

lemma same_blocked: "blocked_by th = b \<Longrightarrow> th\<lparr>blocked_by := b\<rparr> = th"
  by (cases th) simp

lemma relock_for_thread_Some:
  assumes "relock_for_thread t mid e = Some e'"
  shows "\<not> mutex_is_locked (mutex_st e) mid" and "mutex_is_locked_by (mutex_st e') mid t"
    and "threads e' = threads e" and "current_thread e' = current_thread e"
    and "condition_variables e' = condition_variables e"
proof -
  from assms obtain s where "relock_unblocked_mutex t mid (mutex_st e) = Some s" "e' = e\<lparr>mutex_st := s\<rparr>"
    by (auto simp: relock_for_thread_def)
  then show "\<not> mutex_is_locked (mutex_st e) mid" "mutex_is_locked_by (mutex_st e') mid t"
    "threads e' = threads e" "current_thread e' = current_thread e"
    "condition_variables e' = condition_variables e"
    using relock_unblocked_mutex_owner by auto
qed

lemma thread_at_Some: "thread_at t e = Some th \<longleftrightarrow> t < length (threads e) \<and> th = threads e ! t"
  by (auto simp: thread_at_def)

lemma taken_condition:
  assumes b: "blocked_by (threads e ! t) = Block_Condition c d" and t: "t < length (threads e)" "active (threads e ! t)"
    and s: "schedule_candidate ck t a e = Some (Inl (), e')"
  shows "cond_wakes ck t c d e \<and> obtained ck t (Block_Condition c d) e e' \<and> unblocked t e e'"
proof -
  from s b t obtain obj where c: "condition_variables e c = Some obj"
    by (auto simp: schedule_candidate_def thread_at_def bind_eq_Some_conv)
  with s b t obtain mid where m: "curr_mutex obj = Some mid"
    by (auto simp: schedule_candidate_def thread_at_def bind_eq_Some_conv)
  let ?front = "waking obj \<noteq> [] \<and> hd (waking obj) = t"
  show ?thesis
  proof (cases "?front \<and> \<not> mutex_is_locked (mutex_st e) mid")
    case True
    then obtain e1 where r: "relock_for_thread t mid (set_blocked t NotBlocked
             (e\<lparr>condition_variables := (condition_variables e)(c \<mapsto> obj\<lparr>waking := tl (waking obj)\<rparr>)\<rparr>)) = Some e1"
      and e1: "e' = e1"
      using s b t c m by (auto simp: schedule_candidate_def thread_at_def)
    note rl = relock_for_thread_Some [OF r]
    have "t \<in> set (waking obj)" using True by (cases "waking obj") auto
    with True rl e1 c m t show ?thesis
      by (auto simp: cond_wakes_def obtained_def unblocked_def set_blocked_def)
  next
    case False
    then obtain d' where d: "d = Some d'" "d' \<le> system_now ck"
      using s b t c m by (auto simp: schedule_candidate_def thread_at_def split: option.splits if_splits)
    let ?e1 = "e\<lparr>condition_variables := (condition_variables e)(c \<mapsto>
                 obj\<lparr>timed_out := insert t (timed_out obj), waking := filter (\<lambda>u. u \<noteq> t) (waking obj),
                   waiting := filter (\<lambda>u. u \<noteq> t) (waiting obj)\<rparr>)\<rparr>"
    from s False b t c m d obtain e1 where "\<not> mutex_is_locked (mutex_st e) mid"
      and r: "relock_for_thread t mid (set_blocked t NotBlocked ?e1) = Some e1" and e1: "e' = e1"
      by (auto simp: schedule_candidate_def thread_at_def panic_simps Let_def split: if_splits)
    with relock_for_thread_Some [OF r] c m t d show ?thesis
      by (auto simp: cond_wakes_def obtained_def unblocked_def set_blocked_def)
  qed
qed

lemma candidate_taken:
  assumes "schedule_candidate ck t a e = Some (Inl u, e')"
  shows "runnable ck t e" and "obtained ck t (blocked_by (threads e ! t)) e e'" and "unblocked t e e'"
proof -
  have t: "t < length (threads e)" "active (threads e ! t)"
    using assms by (auto simp: schedule_candidate_def thread_at_Some bind_eq_Some_conv split: if_splits)
  have "may_run ck t (blocked_by (threads e ! t)) e \<and> obtained ck t (blocked_by (threads e ! t)) e e' \<and> unblocked t e e'"
  proof (cases "blocked_by (threads e ! t)")
    case NotBlocked
    then show ?thesis using assms t
      by (simp add: schedule_candidate_def thread_at_def may_run_def obtained_def unblocked_def same_blocked)
  next
    case (Sleeping x2)
    then show ?thesis using assms t
      by (auto simp: schedule_candidate_def thread_at_def may_run_def obtained_def split: if_splits)
  next
    case (GuestSleeping x3)
    then show ?thesis using assms t
      by (auto simp: schedule_candidate_def thread_at_def may_run_def obtained_def split: if_splits)
  next
    case (Block_Mutex mid)
    then obtain e1 where r: "relock_for_thread t mid (set_blocked t NotBlocked e) = Some e1" "e' = e1"
      using assms t by (auto simp: schedule_candidate_def thread_at_def split: if_splits)
    from relock_for_thread_Some [OF r(1)] Block_Mutex r(2) show ?thesis
      by (auto simp: may_run_def obtained_def unblocked_def set_blocked_def)
  next
    case (Block_Semaphore sem)
    then show ?thesis using assms t
      by (auto simp: schedule_candidate_def thread_at_def may_run_def obtained_def sem_available_def sem_at_def
          unblocked_def set_blocked_def bind_eq_Some_conv split: if_splits option.splits)
  next
    case (Block_Condition c d)
    with taken_condition [OF Block_Condition t] assms show ?thesis by (simp add: may_run_def)
  next
    case (Joining j p)
    then show ?thesis using assms t
      by (auto simp: schedule_candidate_def thread_at_def may_run_def obtained_def
          unblocked_def set_blocked_def bind_eq_Some_conv split: if_splits option.splits)
  next
    case (WaitingForDebugger x8)
    then show ?thesis using assms t by (simp add: schedule_candidate_def thread_at_def)
  next
    case (Suspended n b)
    then show ?thesis using assms t by (simp add: schedule_candidate_def thread_at_def)
  qed
  with t show "runnable ck t e" "obtained ck t (blocked_by (threads e ! t)) e e'" "unblocked t e e'"
    by (simp_all add: runnable_def)
qed

lemma skipped_condition:
  assumes b: "blocked_by (threads e ! t) = Block_Condition c d" and t: "t < length (threads e)" "active (threads e ! t)"
    and s: "schedule_candidate ck t a e = Some (Inr a', e')"
  shows "\<not> cond_wakes ck t c d e \<and> skipped t e e'"
proof -
  from s b t obtain obj where c: "condition_variables e c = Some obj"
    by (auto simp: schedule_candidate_def thread_at_def bind_eq_Some_conv)
  with s b t obtain mid where m: "curr_mutex obj = Some mid"
    by (auto simp: schedule_candidate_def thread_at_def bind_eq_Some_conv)
  have front: "\<not> ((waking obj \<noteq> [] \<and> hd (waking obj) = t) \<and> \<not> mutex_is_locked (mutex_st e) mid)"
  proof
    assume "(waking obj \<noteq> [] \<and> hd (waking obj) = t) \<and> \<not> mutex_is_locked (mutex_st e) mid"
    with s b t c m show False by (auto simp: schedule_candidate_def thread_at_def)
  qed
  show ?thesis
  proof (cases "\<exists>d'. d = Some d' \<and> d' \<le> system_now ck")
    case True
    then obtain d' where d: "d = Some d'" "d' \<le> system_now ck" by blast
    have "mutex_is_locked (mutex_st e) mid" and "times_out t e e'"
      using s front b t c m d
      by (auto simp: schedule_candidate_def thread_at_def panic_simps Let_def times_out_def split: if_splits)
    then show ?thesis using c m by (simp add: cond_wakes_def skipped_def)
  next
    case False
    then have "e' = e" using s front b t c m
      by (auto simp: schedule_candidate_def thread_at_def split: option.splits if_splits)
    with False front c m show ?thesis by (auto simp: cond_wakes_def skipped_def split: option.splits)
  qed
qed

lemma candidate_skipped:
  assumes "schedule_candidate ck t a e = Some (Inr a', e')"
  shows "\<not> runnable ck t e" and "skipped t e e'"
proof -
  have "\<not> runnable ck t e \<and> skipped t e e'"
  proof (cases "t < length (threads e) \<and> active (threads e ! t)")
    case False
    with assms have "e' = e"
      by (auto simp: schedule_candidate_def thread_at_Some bind_eq_Some_conv split: if_splits)
    with False show ?thesis by (auto simp: runnable_def skipped_def)
  next
    case True
    then have t: "t < length (threads e)" "active (threads e ! t)" by auto
    show ?thesis
    proof (cases "blocked_by (threads e ! t)")
      case (Block_Condition c d)
      with skipped_condition [OF Block_Condition t assms] show ?thesis by (simp add: runnable_def may_run_def)
    next
      case (Block_Semaphore sem)
      then show ?thesis using assms t
        by (auto simp: schedule_candidate_def thread_at_def runnable_def may_run_def skipped_def sem_available_def
            bind_eq_Some_conv split: if_splits option.splits)
    next
      case (Joining j p)
      then show ?thesis using assms t
        by (auto simp: schedule_candidate_def thread_at_def runnable_def may_run_def skipped_def
            bind_eq_Some_conv split: if_splits option.splits)
    next
      case (Suspended n b)
      then show ?thesis using assms t
        by (auto simp: schedule_candidate_def thread_at_def runnable_def may_run_def skipped_def panic_simps
            split: if_splits)
    qed (use assms t in \<open>auto simp: schedule_candidate_def thread_at_def runnable_def may_run_def skipped_def
          split: if_splits\<close>)
  qed
  then show "\<not> runnable ck t e" "skipped t e e'" by simp_all
qed

text \<open>Skipping one candidate does not change what another may do.\<close>

lemma times_out_frame:
  assumes "times_out t e e'"
  obtains mid where "threads e' = (threads e)[t := (threads e ! t)\<lparr>blocked_by := Block_Mutex mid\<rparr>]"
    and "current_thread e' = current_thread e" and "mutex_st e' = mutex_st e" and "semaphores e' = semaphores e"
    and "open_semaphores e' = open_semaphores e" and "env_mem e' = env_mem e"
  using assms unfolding times_out_def set_blocked_def by fastforce

lemma skipped_frame:
  assumes "skipped t e e'"
  shows "length (threads e') = length (threads e)" and "current_thread e' = current_thread e"
    and "mutex_st e' = mutex_st e" and "semaphores e' = semaphores e" and "open_semaphores e' = open_semaphores e"
    and "env_mem e' = env_mem e"
    and "\<And>u. u \<noteq> t \<Longrightarrow> threads e' ! u = threads e ! u" and "\<And>u. active (threads e' ! u) = active (threads e ! u)"
proof -
  have "(length (threads e') = length (threads e) \<and> current_thread e' = current_thread e \<and>
      mutex_st e' = mutex_st e \<and> semaphores e' = semaphores e \<and> open_semaphores e' = open_semaphores e \<and>
      env_mem e' = env_mem e) \<and> (\<forall>u. u \<noteq> t \<longrightarrow> threads e' ! u = threads e ! u) \<and>
      (\<forall>u. active (threads e' ! u) = active (threads e ! u))"
  proof (cases "e' = e")
    case False
    with assms have "times_out t e e'" by (simp add: skipped_def)
    then obtain mid where m: "threads e' = (threads e)[t := (threads e ! t)\<lparr>blocked_by := Block_Mutex mid\<rparr>]"
      and f: "current_thread e' = current_thread e" "mutex_st e' = mutex_st e" "semaphores e' = semaphores e"
        "open_semaphores e' = open_semaphores e" "env_mem e' = env_mem e" by (rule times_out_frame)
    have "active (threads e' ! u) = active (threads e ! u)" for u
      unfolding m by (cases "t < length (threads e)"; cases "u = t") (simp_all add: list_update_beyond)
    with m f show ?thesis by simp
  qed simp
  then show "length (threads e') = length (threads e)" "current_thread e' = current_thread e"
    "mutex_st e' = mutex_st e" "semaphores e' = semaphores e" "open_semaphores e' = open_semaphores e"
    "env_mem e' = env_mem e"
    "\<And>u. u \<noteq> t \<Longrightarrow> threads e' ! u = threads e ! u" "\<And>u. active (threads e' ! u) = active (threads e ! u)"
    by blast+
qed

lemma skipped_cond:
  assumes "skipped t e e'" and "condition_variables e c = Some obj"
  shows "\<exists>obj'. condition_variables e' c = Some obj' \<and> curr_mutex obj' = curr_mutex obj \<and>
    set (waking obj') \<subseteq> set (waking obj) \<and> (u \<noteq> t \<longrightarrow> waking obj \<noteq> [] \<longrightarrow> hd (waking obj) = u \<longrightarrow>
      waking obj' \<noteq> [] \<and> hd (waking obj') = u)"
proof -
  have "u \<noteq> t \<Longrightarrow> xs \<noteq> [] \<Longrightarrow> hd xs = u \<Longrightarrow> filter (\<lambda>v. v \<noteq> t) xs \<noteq> [] \<and> hd (filter (\<lambda>v. v \<noteq> t) xs) = u"
    for xs by (cases xs) auto
  with assms show ?thesis by (auto simp: skipped_def times_out_def)
qed

lemma skipped_may_run:
  assumes "skipped t e e'" and "u \<noteq> t" and "may_run ck u b e"
  shows "may_run ck u b e'"
proof (cases b)
  case (Block_Condition c d)
  with assms(3) obtain obj mid where c: "condition_variables e c = Some obj" and m: "curr_mutex obj = Some mid"
    and w: "cond_wakes ck u c d e"
    by (auto simp: may_run_def cond_wakes_def split: option.splits)
  from skipped_cond [OF assms(1) c, of u] obtain obj' where "condition_variables e' c = Some obj'"
    "curr_mutex obj' = curr_mutex obj"
    "u \<noteq> t \<longrightarrow> waking obj \<noteq> [] \<longrightarrow> hd (waking obj) = u \<longrightarrow> waking obj' \<noteq> [] \<and> hd (waking obj') = u" by blast
  with w c m assms(2) skipped_frame(3) [OF assms(1)] Block_Condition show ?thesis
    by (auto simp: may_run_def cond_wakes_def)
next
  case (Block_Semaphore sem)
  have "sem_available sem e' = sem_available sem e"
    unfolding sem_available_def skipped_frame [OF assms(1)] ..
  with assms Block_Semaphore show ?thesis by (simp add: may_run_def)
next
  case (Joining j p)
  with assms skipped_frame [OF assms(1)] show ?thesis
    by (auto simp: may_run_def thread_at_def split: if_splits)
qed (use assms skipped_frame [OF assms(1)] in \<open>simp_all add: may_run_def\<close>)

lemma skipped_runnable:
  "skipped t e e' \<Longrightarrow> u \<noteq> t \<Longrightarrow> runnable ck u e \<Longrightarrow> runnable ck u e'"
  using skipped_frame [of t e e'] skipped_may_run [of t e e' u ck] by (simp add: runnable_def)

text \<open>The thread at offset \<open>i\<close> of the pass.\<close>

definition offset_thread :: "env \<Rightarrow> nat \<Rightarrow> thread_id" where
  "offset_thread e i = (current_thread e + 1 + i) mod length (threads e)"

lemma offset_inj:
  assumes "i < length (threads e)" and "j < length (threads e)" and "offset_thread e i = offset_thread e j"
  shows "i = j"
proof -
  have "a \<le> b \<Longrightarrow> b < length (threads e) \<Longrightarrow> offset_thread e a = offset_thread e b \<Longrightarrow> a = b" for a b
  proof -
    assume ab: "a \<le> b" "b < length (threads e)" and eq: "offset_thread e a = offset_thread e b"
    let ?n = "length (threads e)" and ?c = "current_thread e + 1"
    have "(?c + b) mod ?n = (?c + a) mod ?n" using eq by (simp add: offset_thread_def)
    then have "?n dvd (?c + b) - (?c + a)" using ab(1) by (subst (asm) mod_eq_dvd_iff_nat) simp_all
    then have "?n dvd b - a" by simp
    with ab show "a = b" by (metis diff_is_0_eq dvd_imp_le le_antisym less_imp_diff_less not_le zero_less_diff)
  qed
  with assms show ?thesis by (metis nat_le_linear)
qed

lemma offset_surj:
  assumes "t < length (threads e)"
  obtains i where "i < length (threads e)" and "offset_thread e i = t"
proof -
  have "inj_on (offset_thread e) {..<length (threads e)}" using offset_inj by (auto intro: inj_onI)
  moreover have "offset_thread e ` {..<length (threads e)} \<subseteq> {..<length (threads e)}"
    using assms by (auto simp: offset_thread_def intro!: mod_less_divisor)
  ultimately have "offset_thread e ` {..<length (threads e)} = {..<length (threads e)}"
    by (intro card_subset_eq) (simp_all add: card_image)
  with assms that show thesis by (metis imageE lessThan_iff)
qed

lemma offset_frame:
  "length (threads e') = length (threads e) \<Longrightarrow> current_thread e' = current_thread e \<Longrightarrow>
     offset_thread e' i = offset_thread e i"
  by (simp add: offset_thread_def)

text \<open>The candidates skipped on the way from \<open>e\<close> to \<open>e'\<close>.\<close>

inductive skips :: "(nat \<Rightarrow> clocks) \<Rightarrow> nat list \<Rightarrow> env \<Rightarrow> env \<Rightarrow> bool" for ck where
  skips_none: "skips ck [] e e"
| skips_one: "\<not> runnable (ck i) (offset_thread e i) e \<Longrightarrow> skipped (offset_thread e i) e e1 \<Longrightarrow>
    skips ck is e1 e' \<Longrightarrow> skips ck (i # is) e e'"

lemma skips_frame:
  assumes "skips ck is e e'"
  shows "length (threads e') = length (threads e) \<and> current_thread e' = current_thread e \<and>
    mutex_st e' = mutex_st e \<and> semaphores e' = semaphores e \<and> open_semaphores e' = open_semaphores e"
  using assms by induction (simp_all add: skipped_frame)

lemma skips_keeps:
  assumes "skips ck is e e'" and "\<forall>i\<in>set is. offset_thread e i \<noteq> u"
  shows "threads e' ! u = threads e ! u \<and> (runnable c u e \<longrightarrow> runnable c u e')"
  using assms
proof induction
  case (skips_one i e e1 "is" e')
  have "offset_thread e1 j = offset_thread e j" for j
    by (rule offset_frame) (simp_all add: skipped_frame [OF skips_one.hyps(2)])
  with skips_one have "threads e' ! u = threads e1 ! u \<and> (runnable c u e1 \<longrightarrow> runnable c u e')" by simp
  moreover have "u \<noteq> offset_thread e i" using skips_one.prems by auto
  ultimately show ?case
    using skipped_frame(7) [OF skips_one.hyps(2), of u] skipped_runnable [OF skips_one.hyps(2), of u c] by simp
qed simp

lemma skips_not_runnable:
  assumes "skips ck is e e'" and "distinct is" and "set is \<subseteq> {..<length (threads e)}" and "i \<in> set is"
  shows "\<not> runnable (ck i) (offset_thread e i) e"
  using assms
proof induction
  case (skips_one j e e1 "is" e')
  have off: "offset_thread e1 k = offset_thread e k" for k
    by (rule offset_frame) (simp_all add: skipped_frame [OF skips_one.hyps(2)])
  show ?case
  proof (cases "i = j")
    case False
    with skips_one.prems have i: "i \<in> set is" and ne: "offset_thread e i \<noteq> offset_thread e j"
      using offset_inj [of i e j] by auto
    with skips_one off skipped_frame(1) [OF skips_one.hyps(2)]
    have "\<not> runnable (ck i) (offset_thread e i) e1" by simp
    with skipped_runnable [OF skips_one.hyps(2) ne] show ?thesis by blast
  qed (use skips_one.hyps in simp)
qed simp

lemma schedule_from_Cons:
  "schedule_from ck (i # is) a e =
     schedule_candidate (ck i) (offset_thread e i) a e \<bind>
       (\<lambda>(r, e1). case r of Inl _ \<Rightarrow> Some (Inl (offset_thread e i), e1) | Inr a1 \<Rightarrow> schedule_from ck is a1 e1)"
  unfolding offset_thread_def schedule_from.simps(2) Let_def ..

declare schedule_from.simps(2) [simp del]

lemma schedule_from_split:
  "schedule_from ck is a e = Some (r, e') \<Longrightarrow>
     (case r of
        Inr _ \<Rightarrow> skips ck is e e'
      | Inl t \<Rightarrow> \<exists>pre i post e1 a1. is = pre @ i # post \<and> skips ck pre e e1 \<and> t = offset_thread e i \<and>
          schedule_candidate (ck i) t a1 e1 = Some (Inl (), e'))"
proof (induction "is" arbitrary: a e)
  case Nil
  then show ?case by (auto intro: skips.intros)
next
  case (Cons i "is")
  from Cons.prems obtain q e1 where q: "schedule_candidate (ck i) (offset_thread e i) a e = Some (q, e1)"
    by (auto simp: schedule_from_Cons bind_eq_Some_conv)
  show ?case
  proof (cases q)
    case (Inl u)
    then have "r = Inl (offset_thread e i)" "e' = e1" using Cons.prems q by (auto simp: schedule_from_Cons)
    moreover have "schedule_candidate (ck i) (offset_thread e i) a e = Some (Inl (), e1)" using q Inl by simp
    moreover have "i # is = [] @ i # is" by simp
    ultimately show ?thesis using skips_none [of ck e] unfolding \<open>r = _\<close> sum.case by blast
  next
    case (Inr a1)
    then have rest: "schedule_from ck is a1 e1 = Some (r, e')" using Cons.prems q by (simp add: schedule_from_Cons)
    have nr: "\<not> runnable (ck i) (offset_thread e i) e" and sk: "skipped (offset_thread e i) e e1"
      using candidate_skipped q Inr by blast+
    have off: "offset_thread e1 j = offset_thread e j" for j
      by (rule offset_frame) (simp_all add: skipped_frame [OF sk])
    show ?thesis
    proof (cases r)
      case (Inl t)
      with Cons.IH [OF rest] obtain pre j post e2 a2 where "is = pre @ j # post" "skips ck pre e1 e2"
        "t = offset_thread e j" "schedule_candidate (ck j) t a2 e2 = Some (Inl (), e')" by (auto simp: off)
      moreover from nr sk this(2) have "skips ck (i # pre) e e2" by (rule skips_one)
      ultimately show ?thesis unfolding Inl sum.case by (metis append_Cons)
    next
      case (Inr b)
      with Cons.IH [OF rest] sk nr show ?thesis by (auto intro: skips.intros)
    qed
  qed
qed

lemma schedule_pass_split:
  assumes "schedule_pass ck e = Some (Inl t, e')"
  obtains i e1 a1 where "i < length (threads e)" and "t = offset_thread e i" and "skips ck [0..<i] e e1"
    and "schedule_candidate (ck i) t a1 e1 = Some (Inl (), e')"
proof -
  obtain pre i post e1 a1 where sp: "[0..<length (threads e)] = pre @ i # post" "skips ck pre e e1"
    and t: "t = offset_thread e i" and c: "schedule_candidate (ck i) t a1 e1 = Some (Inl (), e')"
    using schedule_from_split [OF assms [unfolded schedule_pass_def]] by auto
  have "length pre < length (threads e)" using arg_cong [OF sp(1), of length] by simp
  moreover from this have "i = length pre" using arg_cong [OF sp(1), of "\<lambda>l. l ! length pre"] by simp
  moreover have "pre = take (length pre) [0..<length (threads e)]" unfolding sp(1) by simp
  ultimately have "pre = [0..<i]" "i < length (threads e)" by simp_all
  with sp(2) t c that show thesis by blast
qed

lemma schedule_pass_idle:
  "schedule_pass ck e = Some (Inr a, e') \<Longrightarrow> skips ck [0..<length (threads e)] e e'"
  using schedule_from_split [of ck "[0..<length (threads e)]" None e "Inr a" e'] by (simp add: schedule_pass_def)

lemma pass_sound:
  assumes "schedule_pass ck e = Some (Inl t, e')"
  shows "\<exists>e1 i. skips ck [0..<i] e e1 \<and> t = offset_thread e i \<and> threads e1 ! t = threads e ! t \<and>
    mutex_st e1 = mutex_st e \<and> semaphores e1 = semaphores e \<and>
    runnable (ck i) t e1 \<and> obtained (ck i) t (blocked_by (threads e ! t)) e1 e' \<and>
    blocked_by (threads e' ! t) = NotBlocked \<and> active (threads e' ! t) \<and> current_thread e' = current_thread e"
proof -
  obtain i e1 a1 where i: "i < length (threads e)" and t: "t = offset_thread e i" and sk: "skips ck [0..<i] e e1"
    and c: "schedule_candidate (ck i) t a1 e1 = Some (Inl (), e')"
    using schedule_pass_split [OF assms] .
  have "\<forall>j\<in>set [0..<i]. offset_thread e j \<noteq> t" 
  proof
    fix j assume "j \<in> set [0..<i]"
    then have "j < i" by simp
    with i offset_inj [of j e i] show "offset_thread e j \<noteq> t" unfolding t by (metis less_trans less_irrefl)
  qed
  with sk have keep: "threads e1 ! t = threads e ! t" by (blast dest: skips_keeps)
  note fr = skips_frame [OF sk]
  note tk = candidate_taken [OF c]
  have "t < length (threads e1)" using tk(1) by (simp add: runnable_def)
  with tk(1,3) have "blocked_by (threads e' ! t) = NotBlocked" "active (threads e' ! t)"
    "current_thread e' = current_thread e1" by (auto simp: unblocked_def runnable_def)
  with tk keep fr sk t show ?thesis by auto
qed

lemma pass_progress:
  assumes s: "schedule_pass ck e = Some (r, e')" and i: "i < length (threads e)"
    and run: "runnable (ck i) (offset_thread e i) e"
  shows "\<exists>j\<le>i. r = Inl (offset_thread e j)"
proof (cases r)
  case (Inl t)
  with s obtain j e1 a1 where j: "j < length (threads e)" "t = offset_thread e j" "skips ck [0..<j] e e1"
    using schedule_pass_split by blast
  have "j \<le> i"
  proof (rule ccontr)
    assume "\<not> j \<le> i"
    then have "i \<in> set [0..<j]" by simp
    moreover have "set [0..<j] \<subseteq> {..<length (threads e)}" using j(1) by auto
    ultimately show False using skips_not_runnable [OF j(3) distinct_upt, of i] run by blast
  qed
  with Inl j show ?thesis by blast
next
  case (Inr a)
  with s have "skips ck [0..<length (threads e)] e e'" by (simp add: schedule_pass_idle)
  moreover have "set [0..<length (threads e)] \<subseteq> {..<length (threads e)}" "i \<in> set [0..<length (threads e)]"
    using i by auto
  ultimately have False using skips_not_runnable [OF _ distinct_upt] run by blast
  then show ?thesis ..
qed

text \<open>How many threads a pass tries before \<open>u\<close>.\<close>

definition offset_of :: "env \<Rightarrow> thread_id \<Rightarrow> nat" where
  "offset_of e u = (LEAST i. offset_thread e i = u)"

lemma offset_of:
  assumes "u < length (threads e)"
  shows "offset_of e u < length (threads e)" and "offset_thread e (offset_of e u) = u"
    and "i < length (threads e) \<Longrightarrow> offset_thread e i = u \<Longrightarrow> offset_of e u = i"
proof -
  obtain i where i: "i < length (threads e)" "offset_thread e i = u" using offset_surj [OF assms] .
  have "offset_of e u \<le> i" unfolding offset_of_def by (rule Least_le) (rule i)
  with i show lt: "offset_of e u < length (threads e)" by simp
  show "offset_thread e (offset_of e u) = u" unfolding offset_of_def by (rule LeastI) (rule i)
  with lt show "i < length (threads e) \<Longrightarrow> offset_thread e i = u \<Longrightarrow> offset_of e u = i" for i
    using offset_inj by metis
qed

text \<open>Once the pass has returned another thread, \<open>u\<close> is nearer.\<close>

lemma offset_decreases:
  assumes "u < length (threads e)" and "j < offset_of e u" and "length (threads e') = length (threads e)"
    and "current_thread e' = offset_thread e j"
  shows "offset_of e' u < offset_of e u"
proof -
  let ?n = "length (threads e)" and ?i = "offset_of e u - (j + 1)"
  have i: "?i < ?n" using offset_of(1) [OF assms(1)] by simp
  have "offset_thread e' ?i = (offset_thread e j + (1 + ?i)) mod ?n"
    using assms(3,4) by (simp add: offset_thread_def)
  also have "\<dots> = (current_thread e + 1 + j + (1 + ?i)) mod ?n"
    unfolding offset_thread_def by (rule mod_add_left_eq)
  also have "current_thread e + 1 + j + (1 + ?i) = current_thread e + 1 + offset_of e u" using assms(2) by simp
  also have "(current_thread e + 1 + offset_of e u) mod ?n = u"
    using offset_of(2) [OF assms(1)] by (simp add: offset_thread_def)
  finally have "offset_of e' u = ?i" using offset_of(3) [of u e' ?i] assms(1,3) i by simp
  with assms(2) show ?thesis by simp
qed

lemma pass_fair:
  assumes pass: "\<And>k. k < n \<Longrightarrow> schedule_pass (ck k) (es k) = Some (Inl (t k), es' k)"
    and cur: "\<And>k. Suc k < n \<Longrightarrow> current_thread (es (Suc k)) = t k"
    and len: "\<And>k. k < n \<Longrightarrow> length (threads (es k)) = n"
    and ready: "\<And>k. k < n \<Longrightarrow> active (threads (es k) ! u) \<and> blocked_by (threads (es k) ! u) = NotBlocked"
    and u: "u < n"
  shows "\<exists>k<n. t k = u"
proof (rule ccontr)
  assume no: "\<not> (\<exists>k<n. t k = u)"
  have "k < n \<Longrightarrow> offset_of (es k) u + k < n" for k
  proof (induction k)
    case 0
    then show ?case using offset_of(1) [of u "es 0"] len [of 0] u by simp
  next
    case (Suc k)
    then have k: "k < n" by simp
    have uk: "u < length (threads (es k))" using len [OF k] u by simp
    have "runnable (ck k (offset_of (es k) u)) u (es k)"
      using ready [OF k] uk by (simp add: runnable_def may_run_def)
    with pass_progress [OF pass [OF k] offset_of(1) [OF uk]] offset_of(2) [OF uk]
    obtain j where j: "j \<le> offset_of (es k) u" "t k = offset_thread (es k) j" by auto
    with no k offset_of(2) [OF uk] have "j < offset_of (es k) u" by (metis le_neq_implies_less)
    moreover have "length (threads (es (Suc k))) = length (threads (es k))" using len [OF k] len [OF Suc.prems] by simp
    moreover have "current_thread (es (Suc k)) = offset_thread (es k) j" using cur [OF Suc.prems] j(2) by simp
    ultimately have "offset_of (es (Suc k)) u < offset_of (es k) u" using offset_decreases [OF uk] by blast
    with Suc.IH [OF k] show ?case by simp
  qed
  from this [of "n - 1"] u have "offset_of (es (n - 1)) u = 0" "n - 1 < n" by auto
  moreover from this(2) have un: "u < length (threads (es (n - 1)))" using len u by simp
  moreover have "runnable (ck (n - 1) 0) u (es (n - 1))"
    using ready [OF \<open>n - 1 < n\<close>] un by (simp add: runnable_def may_run_def)
  ultimately have "\<exists>j\<le>0. Inl (t (n - 1)) = (Inl (offset_thread (es (n - 1)) j) :: thread_id + nat option)"
    using pass_progress [OF pass [OF \<open>n - 1 < n\<close>], of 0] offset_of(1,2) [OF un] by simp
  with offset_of(2) [OF un] \<open>offset_of (es (n - 1)) u = 0\<close> have "t (n - 1) = u" by simp
  with no \<open>n - 1 < n\<close> show False by blast
qed

section \<open>Properties\<close>

text \<open>
  C21: The scheduler is sound.  The thread a pass returns is active, was not suspended, and the
  condition it was blocked on held: its deadline had passed, the mutex was free, the semaphore was
  positive (or gone), the joined thread had ended, or it was signalled or timed out with the mutex
  free.  After the pass it is not blocked and has what it waited for: it owns the mutex (of the
  condition variable), or the semaphore is one lower and no longer lists it.
\<close>
theorem schedule_pass_sound:
  assumes "schedule_pass ck e = Some (Inl t, e')"
  shows "\<exists>e1 i. skips ck [0..<i] e e1 \<and> t = offset_thread e i \<and> threads e1 ! t = threads e ! t \<and>
    mutex_st e1 = mutex_st e \<and> semaphores e1 = semaphores e \<and>
    runnable (ck i) t e1 \<and> obtained (ck i) t (blocked_by (threads e ! t)) e1 e' \<and>
    blocked_by (threads e' ! t) = NotBlocked \<and> active (threads e' ! t) \<and> current_thread e' = current_thread e"
  by (rule pass_sound) fact

text \<open>
  The scheduler does not idle and does not report a deadlock while a thread can run: if the thread
  at offset \<open>i\<close> is runnable at the time its clocks are read, a pass returns a thread, at an offset not
  larger than \<open>i\<close>.
\<close>
theorem schedule_pass_progress:
  assumes "schedule_pass ck e = Some (r, e')" and "i < length (threads e)"
    and "runnable (ck i) (offset_thread e i) e"
  shows "\<exists>j\<le>i. r = Inl (offset_thread e j)"
  by (rule pass_progress) fact+

text \<open>
  C22: The scheduler is fair.  If a thread \<open>u\<close> is ready (active and not blocked) at every pass of a run
  in which the number \<open>n\<close> of threads does not change and each pass starts behind the thread that the
  one before returned, then one of the first \<open>n\<close> passes returns \<open>u\<close>, whatever the threads do in between.
\<close>
theorem schedule_fair:
  assumes "\<And>k. k < n \<Longrightarrow> schedule_pass (ck k) (es k) = Some (Inl (t k), es' k)"
    and "\<And>k. Suc k < n \<Longrightarrow> current_thread (es (Suc k)) = t k"
    and "\<And>k. k < n \<Longrightarrow> length (threads (es k)) = n"
    and "\<And>k. k < n \<Longrightarrow> active (threads (es k) ! u) \<and> blocked_by (threads (es k) ! u) = NotBlocked"
    and "u < n"
  shows "\<exists>k<n. t k = u"
  by (rule pass_fair) fact+


text \<open>A state to apply the theorems to: thread 0 sleeps until 5, thread 1 is ready.\<close>

definition demo_thread :: "thread_block \<Rightarrow> thread" where
  "demo_thread b = \<lparr>active = True, blocked_by = b, return_value = None, host_context = None, stack = None\<rparr>"

definition demo_env :: "thread_id \<Rightarrow> env" where
  "demo_env cur = \<lparr>env_mem = \<lparr>mem_bytes = (\<lambda>_. 0), null_segment_size = 4096, mem_allocator = fresh_null,
       zero_memory_on_free = True, null_write_sink = (\<lambda>_. 0)\<rparr>,
     mutex_st = mutex_state_default, semaphores = Map.empty, semaphore_next = 0, named_semaphores = Map.empty,
     open_semaphores = Map.empty, condition_variables = Map.empty,
     threads = [demo_thread (Sleeping 5), demo_thread NotBlocked], current_thread = cur, errnos = Map.empty\<rparr>"

definition demo_clocks :: "nat \<Rightarrow> clocks" where
  "demo_clocks i = \<lparr>instant_now = 3, guest_now = 0, host_deadline = id, system_now = 0\<rparr>"

lemma demo_pass:
  "schedule_pass demo_clocks (demo_env 0) = Some (Inl 1, demo_env 0)"
  "schedule_pass demo_clocks (demo_env 1) = Some (Inl 1, demo_env 1)"
  by (simp_all add: schedule_pass_def schedule_from_Cons demo_env_def demo_thread_def demo_clocks_def offset_thread_def
      schedule_candidate_def thread_at_def upt_rec mod_Suc)

text \<open>A state in which thread 0 sleeps until 5 and thread 1 waits for a semaphore that has one permit.\<close>

definition waiting_env :: env where
  "waiting_env = (demo_env 1)\<lparr>threads := [demo_thread (Sleeping 5), demo_thread (Block_Semaphore 4096)],
     semaphores := [0 \<mapsto> \<lparr>sem_value = 1, sem_waiting = {1}, guest_sem = Some 4096, sem_named = False\<rparr>],
     open_semaphores := [4096 \<mapsto> 0]\<rparr>"

lemma waiting_pass: "\<exists>e'. schedule_pass demo_clocks waiting_env = Some (Inl 1, e')"
  by (simp add: schedule_pass_def schedule_from_Cons waiting_env_def demo_env_def demo_thread_def demo_clocks_def
      offset_thread_def schedule_candidate_def thread_at_def upt_rec mod_Suc word_sless_alt)

theorem schedule_pass_sound_witness:
  "\<exists>e'. schedule_pass demo_clocks waiting_env = Some (Inl 1, e') \<and>
     blocked_by (threads waiting_env ! 1) = Block_Semaphore 4096 \<and> blocked_by (threads e' ! 1) = NotBlocked \<and>
     semaphores e' 0 = Some \<lparr>sem_value = 0, sem_waiting = {}, guest_sem = Some 4096, sem_named = False\<rparr>"
proof -
  obtain e' where p: "schedule_pass demo_clocks waiting_env = Some (Inl 1, e')" using waiting_pass ..
  have b: "blocked_by (threads waiting_env ! 1) = Block_Semaphore 4096" by (simp add: waiting_env_def demo_thread_def)
  from schedule_pass_sound [OF p] obtain e1 i where sk: "skips demo_clocks [0..<i] waiting_env e1"
    and s: "semaphores e1 = semaphores waiting_env"
    and o: "obtained (demo_clocks i) 1 (blocked_by (threads waiting_env ! 1)) e1 e'"
    and nb: "blocked_by (threads e' ! 1) = NotBlocked" by blast
  have "open_semaphores e1 = open_semaphores waiting_env" using skips_frame [OF sk] by simp
  with s have "sem_at 4096 e1 = Some (0, \<lparr>sem_value = 1, sem_waiting = {1}, guest_sem = Some 4096, sem_named = False\<rparr>)"
    by (simp add: sem_at_def waiting_env_def)
  with o b have "semaphores e' 0 = Some \<lparr>sem_value = 0, sem_waiting = {}, guest_sem = Some 4096, sem_named = False\<rparr>"
    by (simp add: obtained_def)
  with p b nb show ?thesis by blast
qed

theorem schedule_pass_progress_witness:
  "\<exists>j\<le>0. Inl 1 = (Inl (offset_thread (demo_env 0) j) :: thread_id + nat option)"
  by (rule schedule_pass_progress [OF demo_pass(1)])
    (simp_all add: demo_env_def demo_thread_def runnable_def may_run_def offset_thread_def)

text \<open>
  Three threads, the last one ready and current, so that a round of passes reaches it last; thread 1
  sleeps until 3, which is when it gets its turn.
\<close>

definition round_env :: env where
  "round_env = (demo_env 2)\<lparr>threads := [demo_thread NotBlocked, demo_thread (Sleeping 3), demo_thread NotBlocked]\<rparr>"

fun round_run :: "nat \<Rightarrow> env" where
  "round_run 0 = round_env"
| "round_run (Suc k) = (case schedule_pass demo_clocks (round_run k) of
     Some (Inl t, e') \<Rightarrow> switch_thread t e' | _ \<Rightarrow> round_run k)"

lemma round_passes:
  "schedule_pass demo_clocks (round_run 0) = Some (Inl 0, round_env)"
  "schedule_pass demo_clocks (round_run (Suc 0)) = Some (Inl 1, set_blocked 1 NotBlocked (switch_thread 0 round_env))"
  "schedule_pass demo_clocks (round_run (Suc (Suc 0))) = Some (Inl 2, switch_thread 1 (set_blocked 1 NotBlocked round_env))"
proof -
  note simps = schedule_pass_def schedule_from_Cons round_env_def demo_env_def demo_thread_def demo_clocks_def
      offset_thread_def schedule_candidate_def thread_at_def upt_rec mod_Suc set_blocked_def switch_thread_def
  show 0: "schedule_pass demo_clocks (round_run 0) = Some (Inl 0, round_env)" by (simp add: simps)
  then have 1: "round_run (Suc 0) = switch_thread 0 round_env" by simp
  show p1: "schedule_pass demo_clocks (round_run (Suc 0)) = Some (Inl 1, set_blocked 1 NotBlocked (switch_thread 0 round_env))"
    unfolding 1 by (simp add: simps)
  then have 2: "round_run (Suc (Suc 0)) = switch_thread 1 (set_blocked 1 NotBlocked round_env)"
    by (simp add: set_blocked_def switch_thread_def)
  show "schedule_pass demo_clocks (round_run (Suc (Suc 0))) = Some (Inl 2, switch_thread 1 (set_blocked 1 NotBlocked round_env))"
    unfolding 2 by (simp add: simps)
qed

lemma less_3: "k < (3 :: nat) \<longleftrightarrow> k = 0 \<or> k = Suc 0 \<or> k = Suc (Suc 0)" by auto

lemma round_runs:
  "round_run (Suc 0) = switch_thread 0 round_env"
  "round_run (Suc (Suc 0)) = switch_thread 1 (set_blocked 1 NotBlocked round_env)"
  "round_run (Suc (Suc (Suc 0))) = switch_thread 2 (set_blocked 1 NotBlocked round_env)"
  using round_passes by (simp_all add: switch_thread_def set_blocked_def)

theorem schedule_fair_witness:
  "blocked_by (threads (round_run 0) ! 1) = Sleeping 3 \<and> current_thread (round_run 0) = 2 \<and>
   (\<exists>k<3. schedule_pass demo_clocks (round_run k) = Some (Inl 2, switch_thread 1 (set_blocked 1 NotBlocked round_env)) \<and>
     current_thread (round_run (Suc k)) = 2)"
proof -
  let ?t = "\<lambda>k. current_thread (round_run (Suc k))"
  let ?es' = "\<lambda>k. snd (the (schedule_pass demo_clocks (round_run k)))"
  have ts: "?t 0 = 0" "?t (Suc 0) = 1" "?t (Suc (Suc 0)) = 2"
    unfolding round_runs by (simp_all add: switch_thread_def)
  have "\<exists>k<3. ?t k = 2"
  proof (rule schedule_fair [where ck = "\<lambda>_. demo_clocks" and es = round_run and es' = ?es'])
    show "schedule_pass demo_clocks (round_run k) = Some (Inl (?t k), ?es' k)" if "k < 3" for k
      using that unfolding less_3
      by (elim disjE) (simp_all only: ts round_passes option.sel snd_conv)
    show "length (threads (round_run k)) = 3" if "k < 3" for k
      using that unfolding less_3
      by (elim disjE) (simp_all only: round_runs, simp_all add: switch_thread_def set_blocked_def round_env_def)
    show "active (threads (round_run k) ! 2) \<and> blocked_by (threads (round_run k) ! 2) = NotBlocked" if "k < 3" for k
      using that unfolding less_3
      by (elim disjE) (simp_all only: round_runs, simp_all add: switch_thread_def set_blocked_def round_env_def demo_thread_def)
  qed simp_all
  then obtain k where k: "k < 3" "?t k = 2" by blast
  then have "k = Suc (Suc 0)"
    unfolding less_3 by (elim disjE) (simp_all only: round_runs, simp_all add: switch_thread_def)
  with k round_passes(3) have "\<exists>k<3. schedule_pass demo_clocks (round_run k) =
      Some (Inl 2, switch_thread 1 (set_blocked 1 NotBlocked round_env)) \<and> ?t k = 2" by blast
  moreover have "blocked_by (threads (round_run 0) ! 1) = Sleeping 3 \<and> current_thread (round_run 0) = 2"
    by (simp add: round_env_def demo_env_def demo_thread_def)
  ultimately show ?thesis by blast
qed

end
