(* ===== verification/Semaphore.thy ===== *)
theory Semaphore
  imports Threads
begin

text \<open>
  Semaphores (\<open>src/libc/semaphore.rs\<close>) and the per-thread \<open>errno\<close> cell they report through
  (\<open>src/libc/errno.rs\<close>).  Named semaphores are host objects shared between the table of names and
  the open handles.
\<close>

section \<open>errno\<close>

definition errno_ptr_for_thread :: "thread_id \<Rightarrow> env \<Rightarrow> (vaddr \<times> env) option" where
  "errno_ptr_for_thread t e =
     (case errnos e t of
        Some p \<Rightarrow> Some (p, e)
      | None \<Rightarrow> do {
          (p, m) \<leftarrow> alloc_and_write (le_bytes 4 (0 :: i32)) (env_mem e);
          Some (p, e\<lparr>env_mem := m, errnos := (errnos e)(t \<mapsto> p)\<rparr>)
        })"

definition set_errno :: "i32 \<Rightarrow> env \<Rightarrow> env option" where
  "set_errno v e = do {
     (p, e1) \<leftarrow> errno_ptr_for_thread (current_thread e) e;
     m \<leftarrow> write_u32 p v (env_mem e1);
     Some (e1\<lparr>env_mem := m\<rparr>)
   }"

definition get_errno :: "env \<Rightarrow> (i32 \<times> env) option" where
  "get_errno e = do {
     (p, e1) \<leftarrow> errno_ptr_for_thread (current_thread e) e;
     v \<leftarrow> read_u32 (env_mem e1) p;
     Some (v, e1)
   }"

definition fail_with :: "i32 \<Rightarrow> 'a \<Rightarrow> env \<Rightarrow> ('a \<times> env) option" where
  "fail_with err r e = map_option (Pair r) (set_errno err e)"

section \<open>UTF-8\<close>

text \<open>\<open>str::from_utf8\<close>: overlong forms, surrogates and values above \<open>U+10FFFF\<close> are rejected.\<close>

definition in_range :: "u8 \<Rightarrow> u8 \<Rightarrow> u8 \<Rightarrow> bool" where
  "in_range lo hi b = (lo \<le> b \<and> b \<le> hi)"

fun utf8_ok :: "u8 list \<Rightarrow> bool" where
  "utf8_ok [] = True"
| "utf8_ok (a # bs) =
     (if a < 0x80 then utf8_ok bs
      else case bs of
        [] \<Rightarrow> False
      | b # bs2 \<Rightarrow>
          if in_range 0xC2 0xDF a then in_range 0x80 0xBF b \<and> utf8_ok bs2
          else case bs2 of
            [] \<Rightarrow> False
          | c # bs3 \<Rightarrow>
              if in_range 0xE0 0xEF a then
                in_range (if a = 0xE0 then 0xA0 else 0x80) (if a = 0xED then 0x9F else 0xBF) b \<and>
                in_range 0x80 0xBF c \<and> utf8_ok bs3
              else case bs3 of
                [] \<Rightarrow> False
              | d # bs4 \<Rightarrow>
                  in_range 0xF0 0xF4 a \<and>
                  in_range (if a = 0xF0 then 0x90 else 0x80) (if a = 0xF4 then 0x8F else 0xBF) b \<and>
                  in_range 0x80 0xBF c \<and> in_range 0x80 0xBF d \<and> utf8_ok bs4)"

definition cstr_at_utf8 :: "mem \<Rightarrow> vaddr \<Rightarrow> u8 list option" where
  "cstr_at_utf8 m p = (let bs = cstr_at m p in if utf8_ok bs then Some bs else None)"

section \<open>Operations\<close>

definition SEM_FAILED :: vaddr where "SEM_FAILED = 0xFFFFFFFF"
definition O_CREAT :: i32 where "O_CREAT = 0x200"
definition O_EXCL :: i32 where "O_EXCL = 0x800"

text \<open>A new host object behind a fresh reference.\<close>

definition new_semaphore_object :: "semaphore_object \<Rightarrow> env \<Rightarrow> nat \<times> env" where
  "new_semaphore_object obj e =
     (semaphore_next e, (set_sem (semaphore_next e) obj e)\<lparr>semaphore_next := semaphore_next e + 1\<rparr>)"

definition open_handle :: "vaddr \<Rightarrow> nat \<Rightarrow> env \<Rightarrow> env" where
  "open_handle sem r e = e\<lparr>open_semaphores := (open_semaphores e)(sem \<mapsto> r)\<rparr>"

definition close_handle :: "vaddr \<Rightarrow> env \<Rightarrow> env" where
  "close_handle sem e = e\<lparr>open_semaphores := (open_semaphores e)(sem := None)\<rparr>"

definition sem_init :: "vaddr \<Rightarrow> i32 \<Rightarrow> u32 \<Rightarrow> env \<Rightarrow> (i32 \<times> env) option" where
  "sem_init sem pshared v e = do {
     e1 \<leftarrow> set_errno 0 e;
     expect (pshared = 0);
     if open_semaphores e1 sem \<noteq> None then Some (0, e1)
     else
       (let (r, e2) = new_semaphore_object
          \<lparr>sem_value = v, sem_waiting = {}, guest_sem = Some sem, sem_named = False\<rparr> e1
        in Some (0, open_handle sem r e2))
   }"

definition sem_destroy :: "vaddr \<Rightarrow> env \<Rightarrow> (i32 \<times> env) option" where
  "sem_destroy sem e =
     (case open_semaphores e sem of
        None \<Rightarrow> Some (EINVAL, e)
      | Some r \<Rightarrow> do {
          obj \<leftarrow> semaphores e r;
          expect (\<not> sem_named obj);
          Some (0, close_handle sem e)
        })"

text \<open>The end of \<open>sem_open\<close>: a handle for a named semaphore that has none.\<close>

definition sem_open_handle :: "nat \<Rightarrow> env \<Rightarrow> (vaddr \<times> env) option" where
  "sem_open_handle r e = do {
     (sem, m) \<leftarrow> alloc_and_write (le_bytes 4 (0 :: i32)) (env_mem e);
     obj \<leftarrow> semaphores e r;
     Some (sem, open_handle sem r (set_sem r (obj\<lparr>guest_sem := Some sem\<rparr>) (e\<lparr>env_mem := m\<rparr>)))
   }"

definition sem_open :: "vaddr \<Rightarrow> i32 \<Rightarrow> u32 \<Rightarrow> env \<Rightarrow> (vaddr \<times> env) option" where
  "sem_open name oflag v e0 = do {
     e \<leftarrow> set_errno 0 e0;
     sem_name \<leftarrow> cstr_at_utf8 (env_mem e) name;
     (case named_semaphores e sem_name of
        Some r \<Rightarrow> do {
          obj \<leftarrow> semaphores e r;
          if oflag AND O_EXCL \<noteq> 0 then fail_with EEXIST SEM_FAILED e
          else (case guest_sem obj of
            Some existing_sem \<Rightarrow> Some (existing_sem, e)
          | None \<Rightarrow> sem_open_handle r e)
        }
      | None \<Rightarrow>
          if oflag AND O_CREAT = 0 then fail_with ENOENT SEM_FAILED e
          else
            (let (r, e1) = new_semaphore_object
               \<lparr>sem_value = v, sem_waiting = {}, guest_sem = None, sem_named = True\<rparr> e
             in sem_open_handle r (e1\<lparr>named_semaphores := (named_semaphores e1)(sem_name \<mapsto> r)\<rparr>)))
   }"

definition sem_post :: "vaddr \<Rightarrow> env \<Rightarrow> (i32 \<times> env) option" where
  "sem_post sem e0 = do {
     e \<leftarrow> set_errno 0 e0;
     (ok, e1) \<leftarrow> sem_increment sem e;
     if ok then Some (0, e1) else fail_with EINVAL (- 1) e1
   }"

definition sem_wait :: "vaddr \<Rightarrow> env \<Rightarrow> (i32 outcome \<times> env) option" where
  "sem_wait sem e0 = do {
     e \<leftarrow> set_errno 0 e0;
     (r, e1) \<leftarrow> sem_decrement sem True e;
     (case r of
        Yielded \<Rightarrow> Some (Yielded, e1)
      | Return ok \<Rightarrow>
          if ok then Some (Return 0, e1) else fail_with EINVAL (Return (- 1)) e1)
   }"

definition sem_trywait :: "vaddr \<Rightarrow> env \<Rightarrow> (i32 \<times> env) option" where
  "sem_trywait sem e0 = do {
     e \<leftarrow> set_errno 0 e0;
     (r, e1) \<leftarrow> sem_decrement sem False e;
     if r = Return True then Some (0, e1)
     else if open_semaphores e1 sem \<noteq> None then fail_with EAGAIN (- 1) e1
     else fail_with EINVAL (- 1) e1
   }"

definition sem_close :: "vaddr \<Rightarrow> env \<Rightarrow> (i32 \<times> env) option" where
  "sem_close sem e0 = do {
     e \<leftarrow> set_errno 0 e0;
     (case open_semaphores e sem of
        None \<Rightarrow> fail_with EINVAL (- 1) e
      | Some r \<Rightarrow> do {
          let e1 = close_handle sem e;
          host_sem \<leftarrow> semaphores e1 r;
          if \<not> sem_named host_sem then fail_with EINVAL (- 1) (open_handle sem r e1)
          else do {
            m \<leftarrow> (case guest_sem host_sem of
                   Some p \<Rightarrow> Mem_free p (env_mem e1)
                 | None \<Rightarrow> Some (env_mem e1));
            Some (0, set_sem r (host_sem\<lparr>guest_sem := None\<rparr>) (e1\<lparr>env_mem := m\<rparr>))
          }
        })
   }"

definition sem_unlink :: "vaddr \<Rightarrow> env \<Rightarrow> (i32 \<times> env) option" where
  "sem_unlink name e0 = do {
     e \<leftarrow> set_errno 0 e0;
     sem_name \<leftarrow> cstr_at_utf8 (env_mem e) name;
     Some (0, e\<lparr>named_semaphores := (named_semaphores e)(sem_name := None)\<rparr>)
   }"

definition sem_reported :: "semaphore_object \<Rightarrow> i32" where
  "sem_reported host_sem =
     (if 0 <s sem_value host_sem then sem_value host_sem else - of_nat (card (sem_waiting host_sem)))"

definition sem_getvalue :: "vaddr \<Rightarrow> vaddr \<Rightarrow> env \<Rightarrow> (i32 \<times> env) option" where
  "sem_getvalue sem sval e0 = do {
     e \<leftarrow> set_errno 0 e0;
     (case open_semaphores e sem of
        None \<Rightarrow> fail_with EINVAL (- 1) e
      | Some r \<Rightarrow> do {
          host_sem \<leftarrow> semaphores e r;
          if sval \<noteq> 0 then
            map_option (\<lambda>m. (0, e\<lparr>env_mem := m\<rparr>)) (write_u32 sval (sem_reported host_sem) (env_mem e))
          else Some (0, e)
        })
   }"

definition host_create_semaphore :: "u32 \<Rightarrow> env \<Rightarrow> (vaddr \<times> env) option" where
  "host_create_semaphore v e = do {
     (sem, m) \<leftarrow> alloc_and_write (le_bytes 4 (0 :: i32)) (env_mem e);
     (_, e1) \<leftarrow> sem_init sem 0 v (e\<lparr>env_mem := m\<rparr>);
     Some (sem, e1)
   }"

definition host_destroy_semaphore :: "vaddr \<Rightarrow> env \<Rightarrow> env option" where
  "host_destroy_semaphore sem e = do {
     (_, e1) \<leftarrow> sem_destroy sem e;
     map_option (\<lambda>m. e1\<lparr>env_mem := m\<rparr>) (Mem_free sem (env_mem e1))
   }"

end
