(* ===== verification/PthreadLocks.thy ===== *)
theory PthreadLocks
  imports Threads
begin

text \<open>
  The guest's view of locks: \<open>src/libc/pthread/mutex.rs\<close> and \<open>rwlock.rs\<close>.  A guest lock object is a
  magic number and the identifier of a host mutex; the operations check the magic number, register
  statically initialised objects and delegate to the host's mutexes.
\<close>

section \<open>Guest objects\<close>

text \<open>\<open>pthread_mutex_t\<close> and \<open>pthread_rwlock_t\<close> are packed: a 4-byte magic number, an 8-byte identifier.\<close>

definition read_lock_object :: "mem \<Rightarrow> vaddr \<Rightarrow> (u32 \<times> u64) option" where
  "read_lock_object m p = map_option (\<lambda>xs. (of_le (take 4 xs), of_le (drop 4 xs))) (read_raw m 12 p)"

definition write_lock_object :: "vaddr \<Rightarrow> u32 \<times> u64 \<Rightarrow> mem \<Rightarrow> mem option" where
  "write_lock_object p obj m = write_raw p (le_bytes 4 (fst obj) @ le_bytes 8 (snd obj)) m"

text \<open>\<open>pthread_mutexattr_t\<close>: magic number, type, unused word.\<close>

definition read_mutexattr :: "mem \<Rightarrow> vaddr \<Rightarrow> (u32 \<times> i32 \<times> u32) option" where
  "read_mutexattr m p =
     map_option (\<lambda>xs. (of_le (take 4 xs), of_le (take 4 (drop 4 xs)), of_le (drop 8 xs))) (read_raw m 12 p)"

definition write_mutexattr :: "vaddr \<Rightarrow> u32 \<times> i32 \<times> u32 \<Rightarrow> mem \<Rightarrow> mem option" where
  "write_mutexattr p attr m =
     write_raw p (le_bytes 4 (fst attr) @ le_bytes 4 (fst (snd attr)) @ le_bytes 4 (snd (snd attr))) m"

definition MAGIC_MUTEXATTR :: u32 where "MAGIC_MUTEXATTR = 0x4D754174"
definition MAGIC_MUTEX :: u32 where "MAGIC_MUTEX = 0x4D555458"
definition MAGIC_MUTEX_STATIC :: u32 where "MAGIC_MUTEX_STATIC = 0x32AAABA7"
definition PTHREAD_PROCESS_PRIVATE :: i32 where "PTHREAD_PROCESS_PRIVATE = 2"
definition PTHREAD_PRIO_NONE :: i32 where "PTHREAD_PRIO_NONE = 0"
definition PTHREAD_PRIO_INHERIT :: i32 where "PTHREAD_PRIO_INHERIT = 1"
definition PTHREAD_PRIO_PROTECT :: i32 where "PTHREAD_PRIO_PROTECT = 2"

definition mutex_type_code :: "mutex_type \<Rightarrow> i32" where
  "mutex_type_code ty =
     (case ty of PTHREAD_MUTEX_NORMAL \<Rightarrow> 0 | PTHREAD_MUTEX_ERRORCHECK \<Rightarrow> 1 | PTHREAD_MUTEX_RECURSIVE \<Rightarrow> 2)"

section \<open>Helpers\<close>

text \<open>The macro \<open>check_magic!\<close>: an early return of \<open>EINVAL\<close>.\<close>

definition check_magic :: "vaddr \<Rightarrow> u32 \<Rightarrow> env \<Rightarrow> (i32 \<times> env) option \<Rightarrow> (i32 \<times> env) option" where
  "check_magic obj expected e k = do {
     actual \<leftarrow> read_u32 (env_mem e) obj;
     if actual \<noteq> expected then Some (EINVAL, e) else k
   }"

definition with_mem :: "'a \<Rightarrow> env \<Rightarrow> mem option \<Rightarrow> ('a \<times> env) option" where
  "with_mem r e m = map_option (\<lambda>m'. (r, e\<lparr>env_mem := m'\<rparr>)) m"

definition returning :: "('a \<times> env) option \<Rightarrow> ('a outcome \<times> env) option" where
  "returning = map_option (\<lambda>(r, e). (Return r, e))"

section \<open>Mutex attributes\<close>

definition pthread_mutexattr_init :: "vaddr \<Rightarrow> env \<Rightarrow> (i32 \<times> env) option" where
  "pthread_mutexattr_init attr e =
     with_mem 0 e (write_mutexattr attr (MAGIC_MUTEXATTR, mutex_type_code PTHREAD_MUTEX_DEFAULT, 0) (env_mem e))"

definition pthread_mutexattr_setpshared :: "vaddr \<Rightarrow> i32 \<Rightarrow> env \<Rightarrow> (i32 \<times> env) option" where
  "pthread_mutexattr_setpshared attr pshared e =
     check_magic attr MAGIC_MUTEXATTR e (do { expect (pshared = PTHREAD_PROCESS_PRIVATE); Some (0, e) })"

definition pthread_mutexattr_settype :: "vaddr \<Rightarrow> i32 \<Rightarrow> env \<Rightarrow> (i32 \<times> env) option" where
  "pthread_mutexattr_settype attr ty e =
     check_magic attr MAGIC_MUTEXATTR e (do {
       (magic, _, unused) \<leftarrow> read_mutexattr (env_mem e) attr;
       with_mem 0 e (write_mutexattr attr (magic, ty, unused) (env_mem e))
     })"

definition pthread_mutexattr_gettype :: "vaddr \<Rightarrow> vaddr \<Rightarrow> env \<Rightarrow> (i32 \<times> env) option" where
  "pthread_mutexattr_gettype attr type_out e =
     check_magic attr MAGIC_MUTEXATTR e
       (if type_out = 0 then Some (EINVAL, e)
        else do {
          (_, ty, _) \<leftarrow> read_mutexattr (env_mem e) attr;
          with_mem 0 e (write_u32 type_out ty (env_mem e))
        })"

definition pthread_mutexattr_setprotocol :: "vaddr \<Rightarrow> i32 \<Rightarrow> env \<Rightarrow> (i32 \<times> env) option" where
  "pthread_mutexattr_setprotocol attr protocol e =
     check_magic attr MAGIC_MUTEXATTR e
       (Some (if protocol = PTHREAD_PRIO_NONE \<or> protocol = PTHREAD_PRIO_INHERIT \<or> protocol = PTHREAD_PRIO_PROTECT
              then 0 else EINVAL, e))"

definition pthread_mutexattr_getprotocol :: "vaddr \<Rightarrow> vaddr \<Rightarrow> env \<Rightarrow> (i32 \<times> env) option" where
  "pthread_mutexattr_getprotocol attr out e =
     check_magic attr MAGIC_MUTEXATTR e
       (if out = 0 then Some (EINVAL, e) else with_mem 0 e (write_u32 out PTHREAD_PRIO_NONE (env_mem e)))"

definition pthread_mutexattr_setprioceiling :: "vaddr \<Rightarrow> i32 \<Rightarrow> env \<Rightarrow> (i32 \<times> env) option" where
  "pthread_mutexattr_setprioceiling attr ceiling e = check_magic attr MAGIC_MUTEXATTR e (Some (0, e))"

definition pthread_mutexattr_getprioceiling :: "vaddr \<Rightarrow> vaddr \<Rightarrow> env \<Rightarrow> (i32 \<times> env) option" where
  "pthread_mutexattr_getprioceiling attr out e =
     check_magic attr MAGIC_MUTEXATTR e
       (if out = 0 then Some (EINVAL, e) else with_mem 0 e (write_u32 out 0 (env_mem e)))"

definition pthread_mutexattr_destroy :: "vaddr \<Rightarrow> env \<Rightarrow> (i32 \<times> env) option" where
  "pthread_mutexattr_destroy attr e =
     check_magic attr MAGIC_MUTEXATTR e
       (with_mem 0 e (write_mutexattr attr (0, mutex_type_code PTHREAD_MUTEX_DEFAULT, 0) (env_mem e)))"

section \<open>Mutexes\<close>

definition create_lock :: "vaddr \<Rightarrow> u32 \<Rightarrow> mutex_type \<Rightarrow> env \<Rightarrow> (i32 \<times> env) option" where
  "create_lock obj magic ty e = do {
     (mid, s) \<leftarrow> init_mutex ty (mutex_st e);
     let e1 = e\<lparr>mutex_st := s\<rparr>;
     with_mem 0 e1 (write_lock_object obj (magic, mid) (env_mem e1))
   }"

definition pthread_mutex_init :: "vaddr \<Rightarrow> vaddr \<Rightarrow> env \<Rightarrow> (i32 \<times> env) option" where
  "pthread_mutex_init mutex attr e =
     (if attr \<noteq> 0 then
        check_magic attr MAGIC_MUTEXATTR e (do {
          (_, code, _) \<leftarrow> read_mutexattr (env_mem e) attr;
          ty \<leftarrow> mutex_type_of code;
          create_lock mutex MAGIC_MUTEX ty e
        })
      else create_lock mutex MAGIC_MUTEX PTHREAD_MUTEX_DEFAULT e)"

text \<open>\<open>Err\<close> is the left summand of the result.\<close>

definition check_or_register_mutex :: "vaddr \<Rightarrow> env \<Rightarrow> ((i32 + unit) \<times> env) option" where
  "check_or_register_mutex mutex e = do {
     magic \<leftarrow> read_u32 (env_mem e) mutex;
     if magic = MAGIC_MUTEX_STATIC then do {
       (_, e1) \<leftarrow> pthread_mutex_init mutex 0 e;
       Some (Inr (), e1)
     }
     else if magic = MAGIC_MUTEX then Some (Inr (), e)
     else Some (Inl EINVAL, e)
   }"

definition pthread_mutex_lock :: "vaddr \<Rightarrow> env \<Rightarrow> (i32 outcome \<times> env) option" where
  "pthread_mutex_lock mutex e = do {
     (r, e1) \<leftarrow> check_or_register_mutex mutex e;
     (case r of
        Inl err \<Rightarrow> Some (Return err, e1)
      | Inr _ \<Rightarrow> do {
          (_, mid) \<leftarrow> read_lock_object (env_mem e1) mutex;
          env_lock_mutex mid e1
        })
   }"

definition pthread_mutex_trylock :: "vaddr \<Rightarrow> env \<Rightarrow> (i32 outcome \<times> env) option" where
  "pthread_mutex_trylock mutex e = do {
     (r, e1) \<leftarrow> check_or_register_mutex mutex e;
     (case r of
        Inl err \<Rightarrow> Some (Return err, e1)
      | Inr _ \<Rightarrow> do {
          (_, mid) \<leftarrow> read_lock_object (env_mem e1) mutex;
          if mutex_is_locked (mutex_st e1) mid \<and>
             \<not> (mutex_is_recursive (mutex_st e1) mid \<and> mutex_is_locked_by (mutex_st e1) mid (current_thread e1))
          then Some (Return EBUSY, e1)
          else pthread_mutex_lock mutex e1
        })
   }"

definition pthread_mutex_unlock :: "vaddr \<Rightarrow> env \<Rightarrow> (i32 \<times> env) option" where
  "pthread_mutex_unlock mutex e = do {
     (r, e1) \<leftarrow> check_or_register_mutex mutex e;
     (case r of
        Inl err \<Rightarrow> Some (err, e1)
      | Inr _ \<Rightarrow> do {
          (_, mid) \<leftarrow> read_lock_object (env_mem e1) mutex;
          env_unlock_mutex mid e1
        })
   }"

text \<open>The guest object is invalidated before the host mutex is asked whether it can be destroyed.\<close>

definition destroy_lock :: "vaddr \<Rightarrow> env \<Rightarrow> (i32 \<times> env) option" where
  "destroy_lock obj e = do {
     (_, mid) \<leftarrow> read_lock_object (env_mem e) obj;
     m \<leftarrow> write_lock_object obj (0, 0xFFFFFFFFFFFFFFFF) (env_mem e);
     let e1 = e\<lparr>env_mem := m\<rparr>;
     (r, s) \<leftarrow> destroy_mutex mid (mutex_st e1);
     Some (case r of Inl err \<Rightarrow> err | Inr _ \<Rightarrow> 0, e1\<lparr>mutex_st := s\<rparr>)
   }"

definition pthread_mutex_destroy :: "vaddr \<Rightarrow> env \<Rightarrow> (i32 \<times> env) option" where
  "pthread_mutex_destroy mutex e = do {
     (r, e1) \<leftarrow> check_or_register_mutex mutex e;
     (case r of Inl err \<Rightarrow> Some (err, e1) | Inr _ \<Rightarrow> destroy_lock mutex e1)
   }"

section \<open>Read-write locks\<close>

definition MAGIC_RWLOCKATTR :: u32 where "MAGIC_RWLOCKATTR = 0x52774174"
definition MAGIC_RWLOCK :: u32 where "MAGIC_RWLOCK = 0x52574C4B"
definition MAGIC_RWLOCK_STATIC :: u32 where "MAGIC_RWLOCK_STATIC = 0x2DA8B3B4"

text \<open>\<open>pthread_rwlockattr_t\<close> is 20 bytes: the magic number and an opaque region.\<close>

definition write_rwlockattr :: "vaddr \<Rightarrow> u32 \<Rightarrow> mem \<Rightarrow> mem option" where
  "write_rwlockattr p magic m = write_raw p (le_bytes 4 magic @ replicate 16 0) m"

definition pthread_rwlockattr_init :: "vaddr \<Rightarrow> env \<Rightarrow> (i32 \<times> env) option" where
  "pthread_rwlockattr_init attr e = with_mem 0 e (write_rwlockattr attr MAGIC_RWLOCKATTR (env_mem e))"

definition pthread_rwlockattr_destroy :: "vaddr \<Rightarrow> env \<Rightarrow> (i32 \<times> env) option" where
  "pthread_rwlockattr_destroy attr e =
     check_magic attr MAGIC_RWLOCKATTR e (with_mem 0 e (write_rwlockattr attr 0 (env_mem e)))"

definition pthread_rwlockattr_setpshared :: "vaddr \<Rightarrow> i32 \<Rightarrow> env \<Rightarrow> (i32 \<times> env) option" where
  "pthread_rwlockattr_setpshared attr pshared e = check_magic attr MAGIC_RWLOCKATTR e (Some (0, e))"

definition pthread_rwlockattr_getpshared :: "vaddr \<Rightarrow> vaddr \<Rightarrow> env \<Rightarrow> (i32 \<times> env) option" where
  "pthread_rwlockattr_getpshared attr pshared e =
     check_magic attr MAGIC_RWLOCKATTR e
       (if pshared = 0 then Some (EINVAL, e) else with_mem 0 e (write_u32 pshared 2 (env_mem e)))"

definition pthread_rwlock_init :: "vaddr \<Rightarrow> vaddr \<Rightarrow> env \<Rightarrow> (i32 \<times> env) option" where
  "pthread_rwlock_init rwlock attr e =
     (if attr \<noteq> 0 then
        check_magic attr MAGIC_RWLOCKATTR e (create_lock rwlock MAGIC_RWLOCK PTHREAD_MUTEX_DEFAULT e)
      else create_lock rwlock MAGIC_RWLOCK PTHREAD_MUTEX_DEFAULT e)"

definition check_or_register_rwlock :: "vaddr \<Rightarrow> env \<Rightarrow> ((i32 + unit) \<times> env) option" where
  "check_or_register_rwlock rwlock e = do {
     magic \<leftarrow> read_u32 (env_mem e) rwlock;
     if magic = MAGIC_RWLOCK_STATIC then do {
       (_, e1) \<leftarrow> pthread_rwlock_init rwlock 0 e;
       Some (Inr (), e1)
     }
     else if magic = MAGIC_RWLOCK then Some (Inr (), e)
     else Some (Inl EINVAL, e)
   }"

definition lock_inner :: "vaddr \<Rightarrow> env \<Rightarrow> (i32 outcome \<times> env) option" where
  "lock_inner rwlock e = do {
     (r, e1) \<leftarrow> check_or_register_rwlock rwlock e;
     (case r of
        Inl err \<Rightarrow> Some (Return err, e1)
      | Inr _ \<Rightarrow> do {
          (_, mid) \<leftarrow> read_lock_object (env_mem e1) rwlock;
          env_lock_mutex mid e1
        })
   }"

definition trylock_inner :: "vaddr \<Rightarrow> env \<Rightarrow> (i32 outcome \<times> env) option" where
  "trylock_inner rwlock e = do {
     (r, e1) \<leftarrow> check_or_register_rwlock rwlock e;
     (case r of
        Inl err \<Rightarrow> Some (Return err, e1)
      | Inr _ \<Rightarrow> do {
          (_, mid) \<leftarrow> read_lock_object (env_mem e1) rwlock;
          if mutex_is_locked (mutex_st e1) mid then Some (Return EBUSY, e1)
          else env_lock_mutex mid e1
        })
   }"

definition pthread_rwlock_rdlock :: "vaddr \<Rightarrow> env \<Rightarrow> (i32 outcome \<times> env) option" where
  "pthread_rwlock_rdlock = lock_inner"

definition pthread_rwlock_tryrdlock :: "vaddr \<Rightarrow> env \<Rightarrow> (i32 outcome \<times> env) option" where
  "pthread_rwlock_tryrdlock = trylock_inner"

definition pthread_rwlock_wrlock :: "vaddr \<Rightarrow> env \<Rightarrow> (i32 outcome \<times> env) option" where
  "pthread_rwlock_wrlock = lock_inner"

definition pthread_rwlock_trywrlock :: "vaddr \<Rightarrow> env \<Rightarrow> (i32 outcome \<times> env) option" where
  "pthread_rwlock_trywrlock = trylock_inner"

definition pthread_rwlock_unlock :: "vaddr \<Rightarrow> env \<Rightarrow> (i32 \<times> env) option" where
  "pthread_rwlock_unlock rwlock e = do {
     (r, e1) \<leftarrow> check_or_register_rwlock rwlock e;
     (case r of
        Inl err \<Rightarrow> Some (err, e1)
      | Inr _ \<Rightarrow> do {
          (_, mid) \<leftarrow> read_lock_object (env_mem e1) rwlock;
          env_unlock_mutex mid e1
        })
   }"

definition pthread_rwlock_destroy :: "vaddr \<Rightarrow> env \<Rightarrow> (i32 \<times> env) option" where
  "pthread_rwlock_destroy rwlock e = do {
     (r, e1) \<leftarrow> check_or_register_rwlock rwlock e;
     (case r of Inl err \<Rightarrow> Some (err, e1) | Inr _ \<Rightarrow> destroy_lock rwlock e1)
   }"

end
