(* ===== verification/Cond.thy ===== *)
theory Cond
  imports PthreadLocks
begin

text \<open>
  Condition variables (\<open>src/libc/pthread/cond.rs\<close>).  A wait ends in a suspension of the thread; what the
  function does after its thread is resumed is a definition of its own (\<open>..._resumed\<close>).
\<close>

section \<open>Operations\<close>

definition MAGIC_COND :: u32 where "MAGIC_COND = 0x434F4E44"
definition MAGIC_COND_STATIC :: u32 where "MAGIC_COND_STATIC = 0x3CB0B1BB"

text \<open>\<open>pthread_cond_t\<close> is 28 bytes: the magic number and six unused words.\<close>

definition write_cond :: "vaddr \<Rightarrow> u32 \<Rightarrow> mem \<Rightarrow> mem option" where
  "write_cond p magic m = write_raw p (le_bytes 4 magic @ replicate 24 0) m"

text \<open>\<open>timespec\<close>: two 32-bit words, seconds and nanoseconds.\<close>

definition read_timespec :: "mem \<Rightarrow> vaddr \<Rightarrow> (i32 \<times> i32) option" where
  "read_timespec m p = map_option (\<lambda>xs. (of_le (take 4 xs), of_le (drop 4 xs))) (read_raw m 8 p)"

text \<open>\<open>x.max(0) as u64\<close>.\<close>

definition clamp0 :: "i32 \<Rightarrow> nat" where
  "clamp0 x = nat (max 0 (sint x))"

definition timespec_nanos :: "i32 \<times> i32 \<Rightarrow> nat" where
  "timespec_nanos ts = clamp0 (fst ts) * 1000000000 + clamp0 (snd ts)"

definition new_cond_object :: cond_object where
  "new_cond_object = \<lparr>waiting = [], waking = [], curr_mutex = None, timed_out = {}\<rparr>"

definition set_cond :: "vaddr \<Rightarrow> cond_object option \<Rightarrow> env \<Rightarrow> env" where
  "set_cond cond obj e = e\<lparr>condition_variables := (condition_variables e)(cond := obj)\<rparr>"

definition pthread_cond_init :: "vaddr \<Rightarrow> vaddr \<Rightarrow> env \<Rightarrow> (i32 \<times> env) option" where
  "pthread_cond_init cond attr e = do {
     m \<leftarrow> write_cond cond MAGIC_COND (env_mem e);
     Some (0, set_cond cond (Some new_cond_object) (e\<lparr>env_mem := m\<rparr>))
   }"

definition check_or_register_cond :: "vaddr \<Rightarrow> env \<Rightarrow> ((i32 + unit) \<times> env) option" where
  "check_or_register_cond cond e = do {
     magic \<leftarrow> read_u32 (env_mem e) cond;
     if magic = MAGIC_COND_STATIC then do {
       (_, e1) \<leftarrow> pthread_cond_init cond 0 e;
       Some (Inr (), e1)
     }
     else if magic = MAGIC_COND then Some (Inr (), e)
     else Some (Inl EINVAL, e)
   }"

text \<open>The waits share their middle part: unlock, enqueue, suspend.\<close>

definition wait_on_cond :: "vaddr \<Rightarrow> vaddr \<Rightarrow> nat option \<Rightarrow> cont \<Rightarrow> env \<Rightarrow> (i32 outcome \<times> env) option" where
  "wait_on_cond cond mutex deadline k e0 = do {
     (c, e) \<leftarrow> check_or_register_cond cond e0;
     (case c of
        Inl err \<Rightarrow> Some (Return err, e)
      | Inr _ \<Rightarrow> do {
          (res, e1) \<leftarrow> pthread_mutex_unlock mutex e;
          if res \<noteq> 0 then Some (Return res, e1)
          else do {
            (_, mid) \<leftarrow> read_lock_object (env_mem e1) mutex;
            host_object \<leftarrow> condition_variables e1 cond;
            expect (curr_mutex host_object = Some mid \<or> waking host_object = [] \<and> waiting host_object = []);
            let e2 = set_cond cond (Some (host_object\<lparr>curr_mutex := Some mid,
              waiting := waiting host_object @ [current_thread e1]\<rparr>)) e1;
            map_option (Pair Yielded) (yield_thread (Block_Condition cond deadline) k e2)
          }
        })
   }"

definition pthread_cond_timedwait_then :: "cont \<Rightarrow> vaddr \<Rightarrow> vaddr \<Rightarrow> vaddr \<Rightarrow> env \<Rightarrow> (i32 outcome \<times> env) option" where
  "pthread_cond_timedwait_then k cond mutex abs_time e = do {
     time \<leftarrow> read_timespec (env_mem e) abs_time;
     wait_on_cond cond mutex (Some (timespec_nanos time)) k e
   }"

definition pthread_cond_timedwait :: "vaddr \<Rightarrow> vaddr \<Rightarrow> vaddr \<Rightarrow> env \<Rightarrow> (i32 outcome \<times> env) option" where
  "pthread_cond_timedwait cond = pthread_cond_timedwait_then (After_cond_timedwait cond) cond"

definition pthread_cond_timedwait_resumed :: "vaddr \<Rightarrow> env \<Rightarrow> (i32 \<times> env) option" where
  "pthread_cond_timedwait_resumed cond e = do {
     host_object \<leftarrow> condition_variables e cond;
     if current_thread e \<in> timed_out host_object then
       Some (ETIMEDOUT, set_cond cond (Some (host_object\<lparr>timed_out := timed_out host_object - {current_thread e}\<rparr>)) e)
     else Some (0, e)
   }"

definition pthread_cond_wait :: "vaddr \<Rightarrow> vaddr \<Rightarrow> env \<Rightarrow> (i32 outcome \<times> env) option" where
  "pthread_cond_wait cond mutex e = wait_on_cond cond mutex None (After_cond_wait cond) e"

definition pthread_cond_wait_resumed :: "vaddr \<Rightarrow> env \<Rightarrow> (i32 \<times> env) option" where
  "pthread_cond_wait_resumed cond e = do {
     host_object \<leftarrow> condition_variables e cond;
     expect (current_thread e \<notin> timed_out host_object);
     Some (0, e)
   }"

definition pthread_cond_signal :: "vaddr \<Rightarrow> env \<Rightarrow> (i32 \<times> env) option" where
  "pthread_cond_signal cond e0 = do {
     (c, e) \<leftarrow> check_or_register_cond cond e0;
     (case c of
        Inl err \<Rightarrow> Some (err, e)
      | Inr _ \<Rightarrow> do {
          host_object \<leftarrow> condition_variables e cond;
          (case waiting host_object of
             tid # rest \<Rightarrow> Some (0, set_cond cond (Some (host_object\<lparr>waiting := rest,
               waking := waking host_object @ [tid]\<rparr>)) e)
           | [] \<Rightarrow> Some (0, e))
        })
   }"

definition pthread_cond_broadcast :: "vaddr \<Rightarrow> env \<Rightarrow> (i32 \<times> env) option" where
  "pthread_cond_broadcast cond e0 = do {
     (c, e) \<leftarrow> check_or_register_cond cond e0;
     (case c of
        Inl err \<Rightarrow> Some (err, e)
      | Inr _ \<Rightarrow> do {
          host_object \<leftarrow> condition_variables e cond;
          Some (0, set_cond cond (Some (host_object\<lparr>waiting := [],
            waking := waking host_object @ waiting host_object\<rparr>)) e)
        })
   }"

definition pthread_cond_destroy :: "vaddr \<Rightarrow> env \<Rightarrow> (i32 \<times> env) option" where
  "pthread_cond_destroy cond e0 = do {
     (c, e) \<leftarrow> check_or_register_cond cond e0;
     (case c of
        Inl err \<Rightarrow> Some (err, e)
      | Inr _ \<Rightarrow> do {
          old_object \<leftarrow> condition_variables e cond;
          expect (waiting old_object = [] \<and> waking old_object = []);
          Some (0, set_cond cond None e)
        })
   }"

text \<open>
  The relative variant writes an absolute deadline to guest memory, in whole seconds, and gives the
  memory back after the wait.  \<open>Duration\<close> saturates at \<open>u64\<close> seconds, far above what a 32-bit
  \<open>timespec\<close> can hold.
\<close>

definition relative_deadline :: "nat \<Rightarrow> nat \<Rightarrow> i32 \<times> i32" where
  "relative_deadline now duration = (of_nat ((now + duration) div 1000000000), 0)"

definition pthread_cond_timedwait_relative_np ::
    "nat \<Rightarrow> vaddr \<Rightarrow> vaddr \<Rightarrow> vaddr \<Rightarrow> env \<Rightarrow> (i32 outcome \<times> env) option" where
  "pthread_cond_timedwait_relative_np now cond mutex reltime e = do {
     duration \<leftarrow> (if reltime = 0 then Some 0 else map_option timespec_nanos (read_timespec (env_mem e) reltime));
     let ts = relative_deadline now duration;
     (abs_time, m) \<leftarrow> alloc_and_write (le_bytes 4 (fst ts) @ le_bytes 4 (snd ts)) (env_mem e);
     (r, e1) \<leftarrow> pthread_cond_timedwait_then (After_cond_timedwait_relative cond abs_time) cond mutex abs_time
                  (e\<lparr>env_mem := m\<rparr>);
     (case r of
        Yielded \<Rightarrow> Some (Yielded, e1)
      | Return res \<Rightarrow> do {
          m1 \<leftarrow> Mem_free abs_time (env_mem e1);
          Some (Return res, e1\<lparr>env_mem := m1\<rparr>)
        })
   }"

definition pthread_cond_timedwait_relative_np_resumed :: "vaddr \<Rightarrow> vaddr \<Rightarrow> env \<Rightarrow> (i32 \<times> env) option" where
  "pthread_cond_timedwait_relative_np_resumed cond abs_time e = do {
     (res, e1) \<leftarrow> pthread_cond_timedwait_resumed cond e;
     m1 \<leftarrow> Mem_free abs_time (env_mem e1);
     Some (res, e1\<lparr>env_mem := m1\<rparr>)
   }"

text \<open>The attribute functions.\<close>

definition pthread_condattr_init :: "vaddr \<Rightarrow> env \<Rightarrow> (i32 \<times> env) option" where
  "pthread_condattr_init attr e =
     (if attr \<noteq> 0 then with_mem 0 e (write_raw attr (replicate 4 0) (env_mem e)) else Some (0, e))"

definition pthread_condattr_getpshared :: "vaddr \<Rightarrow> env \<Rightarrow> (i32 \<times> env) option" where
  "pthread_condattr_getpshared pshared e =
     (if pshared \<noteq> 0 then with_mem 0 e (write_u32 pshared 0 (env_mem e)) else Some (0, e))"

definition pthread_condattr_getclock :: "vaddr \<Rightarrow> env \<Rightarrow> (i32 \<times> env) option" where
  "pthread_condattr_getclock clock_id e =
     (if clock_id \<noteq> 0 then with_mem 0 e (write_u32 clock_id 0 (env_mem e)) else Some (0, e))"

section \<open>Resumption\<close>

text \<open>The rest of the host function in which the current thread was suspended.\<close>

fun resume_cont :: "cont \<Rightarrow> env \<Rightarrow> (i32 \<times> env) option" where
  "resume_cont (After_cond_wait cond) e = pthread_cond_wait_resumed cond e"
| "resume_cont (After_cond_timedwait cond) e = pthread_cond_timedwait_resumed cond e"
| "resume_cont (After_cond_timedwait_relative cond abs_time) e =
     pthread_cond_timedwait_relative_np_resumed cond abs_time e"
| "resume_cont _ e = Some (0, e)"

end
