(* ===== verification/Sync.thy ===== *)
theory Sync
  imports Semaphore Cond
begin

text \<open>
  Threads, mutexes, semaphores and condition variables together: the calls of the running thread and
  the scheduler as steps of one transition relation, and the invariant that keeps the bookkeeping of
  blocked threads consistent, from which it follows that the scheduler never panics.
\<close>

section \<open>Steps\<close>

datatype api_call =
    Mutex_init vaddr vaddr | Mutex_lock vaddr | Mutex_trylock vaddr | Mutex_unlock vaddr | Mutex_destroy vaddr
  | Rwlock_init vaddr vaddr | Rwlock_lock vaddr | Rwlock_trylock vaddr | Rwlock_unlock vaddr | Rwlock_destroy vaddr
  | Cond_init vaddr vaddr | Cond_wait vaddr vaddr | Cond_timedwait vaddr vaddr vaddr
  | Cond_timedwait_relative nat vaddr vaddr vaddr | Cond_signal vaddr | Cond_broadcast vaddr | Cond_destroy vaddr
  | Sem_init vaddr i32 u32 | Sem_destroy vaddr | Sem_open vaddr i32 u32 | Sem_post vaddr | Sem_wait vaddr
  | Sem_trywait vaddr | Sem_close vaddr | Sem_unlink vaddr | Sem_getvalue vaddr vaddr
  | Thread_new vaddr vaddr u32 | Thread_finish vaddr | Thread_suspend thread_id | Thread_resume thread_id
  | Thread_join thread_id vaddr | Thread_sleep nat nat | Thread_sleep_guest nat nat

abbreviation state_of :: "('a \<times> env) option \<Rightarrow> env option" where
  "state_of \<equiv> map_option snd"

fun exec_call :: "api_call \<Rightarrow> env \<Rightarrow> env option" where
  "exec_call (Mutex_init m a) e = state_of (pthread_mutex_init m a e)"
| "exec_call (Mutex_lock m) e = state_of (pthread_mutex_lock m e)"
| "exec_call (Mutex_trylock m) e = state_of (pthread_mutex_trylock m e)"
| "exec_call (Mutex_unlock m) e = state_of (pthread_mutex_unlock m e)"
| "exec_call (Mutex_destroy m) e = state_of (pthread_mutex_destroy m e)"
| "exec_call (Rwlock_init m a) e = state_of (pthread_rwlock_init m a e)"
| "exec_call (Rwlock_lock m) e = state_of (lock_inner m e)"
| "exec_call (Rwlock_trylock m) e = state_of (trylock_inner m e)"
| "exec_call (Rwlock_unlock m) e = state_of (pthread_rwlock_unlock m e)"
| "exec_call (Rwlock_destroy m) e = state_of (pthread_rwlock_destroy m e)"
| "exec_call (Cond_init c a) e = state_of (pthread_cond_init c a e)"
| "exec_call (Cond_wait c m) e = state_of (pthread_cond_wait c m e)"
| "exec_call (Cond_timedwait c m ts) e = state_of (pthread_cond_timedwait c m ts e)"
| "exec_call (Cond_timedwait_relative now c m ts) e = state_of (pthread_cond_timedwait_relative_np now c m ts e)"
| "exec_call (Cond_signal c) e = state_of (pthread_cond_signal c e)"
| "exec_call (Cond_broadcast c) e = state_of (pthread_cond_broadcast c e)"
| "exec_call (Cond_destroy c) e = state_of (pthread_cond_destroy c e)"
| "exec_call (Sem_init s p v) e = state_of (sem_init s p v e)"
| "exec_call (Sem_destroy s) e = state_of (sem_destroy s e)"
| "exec_call (Sem_open s f v) e = state_of (sem_open s f v e)"
| "exec_call (Sem_post s) e = state_of (sem_post s e)"
| "exec_call (Sem_wait s) e = state_of (sem_wait s e)"
| "exec_call (Sem_trywait s) e = state_of (sem_trywait s e)"
| "exec_call (Sem_close s) e = state_of (sem_close s e)"
| "exec_call (Sem_unlink s) e = state_of (sem_unlink s e)"
| "exec_call (Sem_getvalue s p) e = state_of (sem_getvalue s p e)"
| "exec_call (Thread_new r d sz) e = state_of (new_thread r d sz e)"
| "exec_call (Thread_finish rv) e = finish_thread rv e"
| "exec_call (Thread_suspend t) e = state_of (suspend_thread t e)"
| "exec_call (Thread_resume t) e = resume_thread t e"
| "exec_call (Thread_join t p) e = join_with_thread t p e"
| "exec_call (Thread_sleep now d) e = sleep now d e"
| "exec_call (Thread_sleep_guest now d) e = sleep_guest now d e"

text \<open>The block a thread is in, whether suspended or not.\<close>

fun base_block :: "thread_block \<Rightarrow> thread_block" where
  "base_block (Suspended _ b) = base_block b"
| "base_block b = b"

definition queued :: "cond_object \<Rightarrow> thread_id list" where
  "queued obj = waiting obj @ waking obj"

text \<open>
  What the documentation of the calls asks of the guest: a condition variable that threads still use
  is not initialised again, a mutex that threads still wait for is not destroyed, and a thread that is
  joined exists.
\<close>

definition cond_unused :: "vaddr \<Rightarrow> env \<Rightarrow> bool" where
  "cond_unused c e = (case condition_variables e c of None \<Rightarrow> True
     | Some obj \<Rightarrow> queued obj = [] \<and> timed_out obj = {})"

definition cond_guard :: "vaddr \<Rightarrow> env \<Rightarrow> bool" where
  "cond_guard c e = (read_u32 (env_mem e) c = Some MAGIC_COND_STATIC \<longrightarrow> cond_unused c e)"

definition mutex_unused :: "u64 \<Rightarrow> env \<Rightarrow> bool" where
  "mutex_unused mid e \<longleftrightarrow>
     (\<forall>th\<in>set (threads e). base_block (blocked_by th) \<noteq> Block_Mutex mid) \<and>
     (\<forall>c obj. condition_variables e c = Some obj \<longrightarrow> curr_mutex obj = Some mid \<longrightarrow> queued obj = [])"

definition destroy_guard :: "(vaddr \<Rightarrow> env \<Rightarrow> ((i32 + unit) \<times> env) option) \<Rightarrow> vaddr \<Rightarrow> env \<Rightarrow> bool" where
  "destroy_guard check obj e = (\<forall>e1 magic mid. check obj e = Some (Inr (), e1) \<longrightarrow>
     read_lock_object (env_mem e1) obj = Some (magic, mid) \<longrightarrow> mutex_unused mid e1)"

definition relative_guard :: "vaddr \<Rightarrow> env \<Rightarrow> bool" where
  "relative_guard c e = (\<forall>xs p m. alloc_and_write xs (env_mem e) = Some (p, m) \<longrightarrow> cond_guard c (e\<lparr>env_mem := m\<rparr>))"

fun call_guard :: "api_call \<Rightarrow> env \<Rightarrow> bool" where
  "call_guard (Mutex_destroy m) e = destroy_guard check_or_register_mutex m e"
| "call_guard (Rwlock_destroy m) e = destroy_guard check_or_register_rwlock m e"
| "call_guard (Cond_init c a) e = cond_unused c e"
| "call_guard (Cond_wait c m) e = cond_guard c e"
| "call_guard (Cond_timedwait c m ts) e = cond_guard c e"
| "call_guard (Cond_timedwait_relative now c m ts) e = relative_guard c e"
| "call_guard (Cond_signal c) e = cond_guard c e"
| "call_guard (Cond_broadcast c) e = cond_guard c e"
| "call_guard (Cond_destroy c) e = cond_guard c e"
| "call_guard (Thread_join t p) e = (t < length (threads e))"
| "call_guard _ e = True"

text \<open>The running thread is active, not blocked, and not inside a host function.\<close>

definition running :: "env \<Rightarrow> bool" where
  "running e = (case thread_at (current_thread e) e of None \<Rightarrow> False
     | Some th \<Rightarrow> active th \<and> blocked_by th = NotBlocked \<and> host_context th = None)"

text \<open>The current thread goes on in the host function in which it was suspended.\<close>

definition continue_thread :: "env \<Rightarrow> env option" where
  "continue_thread e = do {
     th \<leftarrow> thread_at (current_thread e) e;
     expect (blocked_by th = NotBlocked);
     k \<leftarrow> host_context th;
     state_of (resume_cont k (e\<lparr>threads := (threads e)[current_thread e := th\<lparr>host_context := None\<rparr>]\<rparr>))
   }"

inductive step :: "env \<Rightarrow> env \<Rightarrow> bool" where
  step_guest: "running e \<Longrightarrow> step e (e\<lparr>env_mem := m\<rparr>)"
| step_call: "running e \<Longrightarrow> call_guard c e \<Longrightarrow> exec_call c e = Some e' \<Longrightarrow> step e e'"
| step_preempt: "running e \<Longrightarrow> yield_thread NotBlocked After_return e = Some e' \<Longrightarrow> step e e'"
| step_switch: "schedule_pass ck e = Some (Inl t, e') \<Longrightarrow> step e (switch_thread t e')"
| step_idle: "schedule_pass ck e = Some (Inr a, e') \<Longrightarrow> step e e'"
| step_continue: "continue_thread e = Some e' \<Longrightarrow> step e e'"

section \<open>The invariant\<close>

definition timed_context :: "vaddr \<Rightarrow> cont option \<Rightarrow> bool" where
  "timed_context c k = (k = Some (After_cond_timedwait c) \<or> (\<exists>p. k = Some (After_cond_timedwait_relative c p)))"

fun well_suspended :: "thread_block \<Rightarrow> bool" where
  "well_suspended (Suspended n b) = (0 < n \<and> (\<forall>k b'. b \<noteq> Suspended k b') \<and> well_suspended b)"
| "well_suspended b = True"

definition in_cond :: "vaddr \<Rightarrow> thread \<Rightarrow> bool" where
  "in_cond c th = (\<exists>d. base_block (blocked_by th) = Block_Condition c d)"

definition block_ok ::
    "mutex_state \<Rightarrow> (vaddr \<Rightarrow> cond_object option) \<Rightarrow> nat \<Rightarrow> thread_id \<Rightarrow> thread \<Rightarrow> bool" where
  "block_ok ms cvs n t th \<longleftrightarrow> well_suspended (blocked_by th) \<and>
     (case base_block (blocked_by th) of
        Block_Mutex mid \<Rightarrow> mutexes ms mid \<noteq> None
      | Block_Condition c d \<Rightarrow>
          (\<exists>obj mid. cvs c = Some obj \<and> t \<in> set (queued obj) \<and> curr_mutex obj = Some mid \<and> mutexes ms mid \<noteq> None) \<and>
          (d \<noteq> None \<longrightarrow> timed_context c (host_context th))
      | Joining j _ \<Rightarrow> j < n
      | WaitingForDebugger _ \<Rightarrow> False
      | _ \<Rightarrow> True)"

definition blocks_ok :: "mutex_state \<Rightarrow> (vaddr \<Rightarrow> cond_object option) \<Rightarrow> thread list \<Rightarrow> bool" where
  "blocks_ok ms cvs ths = (\<forall>t<length ths. block_ok ms cvs (length ths) t (ths ! t))"

definition cond_ok :: "thread list \<Rightarrow> vaddr \<Rightarrow> cond_object \<Rightarrow> bool" where
  "cond_ok ths c obj \<longleftrightarrow> distinct (queued obj) \<and>
     (\<forall>t\<in>set (queued obj). t < length ths \<and> in_cond c (ths ! t)) \<and>
     (\<forall>t\<in>timed_out obj. t < length ths \<and> timed_context c (host_context (ths ! t)) \<and> (\<forall>c'. \<not> in_cond c' (ths ! t)))"

definition conds_ok :: "thread list \<Rightarrow> (vaddr \<Rightarrow> cond_object option) \<Rightarrow> bool" where
  "conds_ok ths cvs = (\<forall>c obj. cvs c = Some obj \<longrightarrow> cond_ok ths c obj)"

definition sems_ok :: "(vaddr \<Rightarrow> nat option) \<Rightarrow> (nat \<Rightarrow> semaphore_object option) \<Rightarrow> bool" where
  "sems_ok open sems = (\<forall>s r. open s = Some r \<longrightarrow> sems r \<noteq> None)"

definition waits_ok :: "mutex_state \<Rightarrow> (vaddr \<Rightarrow> cond_object option) \<Rightarrow> thread list \<Rightarrow> bool" where
  "waits_ok ms cvs ths \<longleftrightarrow> blocks_ok ms cvs ths \<and> conds_ok ths cvs"

definition sync_inv :: "env \<Rightarrow> bool" where
  "sync_inv e \<longleftrightarrow> waits_ok (mutex_st e) (condition_variables e) (threads e) \<and>
     sems_ok (open_semaphores e) (semaphores e)"

text \<open>
  How a step may change one condition variable when it moves thread \<open>t\<close>: the others stay queued,
  and the mutex stays the same while somebody else is queued.
\<close>

definition cond_moves :: "thread_id \<Rightarrow> cond_object option \<Rightarrow> cond_object option \<Rightarrow> bool" where
  "cond_moves t a b =
     (case b of
        None \<Rightarrow> (case a of None \<Rightarrow> True | Some x \<Rightarrow> set (queued x) - {t} = {})
      | Some y \<Rightarrow> (case a of
          None \<Rightarrow> set (queued y) - {t} = {} \<and> timed_out y - {t} = {} \<and> distinct (queued y)
        | Some x \<Rightarrow> distinct (queued y) \<and> set (queued y) - {t} = set (queued x) - {t} \<and>
            timed_out y - {t} \<subseteq> timed_out x \<and> (set (queued x) - {t} \<noteq> {} \<longrightarrow> curr_mutex y = curr_mutex x)))"

lemma waits_ok_update:
  assumes inv: "waits_ok ms cvs ths"
    and mono: "\<And>mid. mutexes ms mid \<noteq> None \<Longrightarrow> mutexes ms' mid \<noteq> None"
    and moves: "\<And>c. cond_moves t (cvs c) (cvs' c)"
    and blk: "t < length ths \<Longrightarrow> block_ok ms' cvs' (length ths) t th"
    and qd: "\<And>c obj. cvs' c = Some obj \<Longrightarrow> t \<in> set (queued obj) \<Longrightarrow> t < length ths \<and> in_cond c th"
    and tmo: "\<And>c obj. cvs' c = Some obj \<Longrightarrow> t \<in> timed_out obj \<Longrightarrow>
      t < length ths \<and> timed_context c (host_context th) \<and> (\<forall>c'. \<not> in_cond c' th)"
  shows "waits_ok ms' cvs' (ths[t := th])"
proof -
  have nth: "u \<noteq> t \<Longrightarrow> ths[t := th] ! u = ths ! u" "t < length ths \<Longrightarrow> ths[t := th] ! t = th" for u
    by simp_all
  have "cond_ok (ths[t := th]) c y" if y: "cvs' c = Some y" for c y
  proof (cases "cvs c")
    case None
    with moves [of c] y have "set (queued y) \<subseteq> {t}" "timed_out y \<subseteq> {t}" "distinct (queued y)"
      by (auto simp: cond_moves_def)
    with qd [OF y] tmo [OF y] nth show ?thesis by (auto simp: cond_ok_def)
  next
    case (Some x)
    with inv have ok: "cond_ok ths c x" by (simp add: waits_ok_def conds_ok_def)
    from moves [of c] y Some have m: "distinct (queued y)" "set (queued y) - {t} = set (queued x) - {t}"
      "timed_out y - {t} \<subseteq> timed_out x" by (auto simp: cond_moves_def)
    have "u < length ths \<and> in_cond c (ths[t := th] ! u)" if u: "u \<in> set (queued y)" for u
    proof (cases "u = t")
      case True with qd [OF y] u nth show ?thesis by auto
    next
      case False with m u ok nth show ?thesis by (auto simp: cond_ok_def)
    qed
    moreover have "u < length ths \<and> timed_context c (host_context (ths[t := th] ! u)) \<and> (\<forall>c'. \<not> in_cond c' (ths[t := th] ! u))"
      if u: "u \<in> timed_out y" for u
    proof (cases "u = t")
      case True with tmo [OF y] u nth show ?thesis by auto
    next
      case False with m u ok nth show ?thesis by (auto simp: cond_ok_def)
    qed
    ultimately show ?thesis using m(1) by (auto simp: cond_ok_def)
  qed
  moreover have "block_ok ms' cvs' (length ths) u (ths[t := th] ! u)" if u: "u < length ths" for u
  proof (cases "u = t")
    case True with blk u nth show ?thesis by auto
  next
    case False
    from inv u have b: "block_ok ms cvs (length ths) u (ths ! u)" by (simp add: waits_ok_def blocks_ok_def)
    show ?thesis
    proof (cases "base_block (blocked_by (ths ! u))")
      case (Block_Condition c d)
      with b obtain x mid where x: "cvs c = Some x" "u \<in> set (queued x)" "curr_mutex x = Some mid" "mutexes ms mid \<noteq> None"
        by (auto simp: block_ok_def)
      with False moves [of c] obtain y where "cvs' c = Some y" "u \<in> set (queued y)" "curr_mutex y = Some mid"
        by (fastforce simp: cond_moves_def split: option.splits)
      with b mono [OF x(4)] False Block_Condition nth show ?thesis by (auto simp: block_ok_def)
    qed (use b mono False nth in \<open>auto simp: block_ok_def\<close>)
  qed
  ultimately show ?thesis by (simp add: waits_ok_def blocks_ok_def conds_ok_def)
qed

section \<open>Preservation\<close>

lemma cond_moves_refl:
  "waits_ok ms cvs ths \<Longrightarrow> cond_moves t (cvs c) (cvs c)"
  by (cases "cvs c") (auto simp: cond_moves_def waits_ok_def conds_ok_def cond_ok_def)

lemma waits_ok_queued: "waits_ok ms cvs ths \<Longrightarrow> cvs c = Some obj \<Longrightarrow> u \<in> set (queued obj) \<Longrightarrow> u < length ths \<and> in_cond c (ths ! u)"
  by (auto simp: waits_ok_def conds_ok_def cond_ok_def)

lemma waits_ok_timed_out: "waits_ok ms cvs ths \<Longrightarrow> cvs c = Some obj \<Longrightarrow> u \<in> timed_out obj \<Longrightarrow>
    u < length ths \<and> timed_context c (host_context (ths ! u)) \<and> (\<forall>c'. \<not> in_cond c' (ths ! u))"
  by (auto simp: waits_ok_def conds_ok_def cond_ok_def)

lemma waits_ok_block: "waits_ok ms cvs ths \<Longrightarrow> t < length ths \<Longrightarrow> block_ok ms cvs (length ths) t (ths ! t)"
  by (simp add: waits_ok_def blocks_ok_def)

text \<open>No thread changes: the lemma for threads applied to an index that is none.\<close>

lemma waits_ok_conds:
  assumes inv: "waits_ok ms cvs ths" and "\<And>mid. mutexes ms mid \<noteq> None \<Longrightarrow> mutexes ms' mid \<noteq> None"
    and "\<And>c. cond_moves (length ths) (cvs c) (cvs' c)"
    and "\<And>c obj. cvs' c = Some obj \<Longrightarrow> length ths \<notin> set (queued obj) \<and> length ths \<notin> timed_out obj"
  shows "waits_ok ms' cvs' ths"
  using waits_ok_update [of ms cvs ths ms' "length ths" cvs' undefined] assms
  by (simp add: list_update_beyond)

lemma waits_ok_mutexes:
  assumes "waits_ok ms cvs ths" and "\<And>mid. mutexes ms mid \<noteq> None \<Longrightarrow> mutexes ms' mid \<noteq> None"
  shows "waits_ok ms' cvs ths"
proof (rule waits_ok_conds [OF assms(1)])
  show "cond_moves (length ths) (cvs c) (cvs c)" for c using assms(1) by (rule cond_moves_refl)
  show "length ths \<notin> set (queued obj) \<and> length ths \<notin> timed_out obj" if "cvs c = Some obj" for c obj
    using waits_ok_queued [OF assms(1) that, of "length ths"] waits_ok_timed_out [OF assms(1) that, of "length ths"]
    by auto
qed (use assms(2) in blast)

text \<open>One thread changes, and no queue.\<close>

lemma waits_ok_thread:
  assumes "waits_ok ms cvs ths" and "block_ok ms cvs (length ths) t th"
    and "\<And>c. in_cond c (ths ! t) = in_cond c th" and "\<And>c. timed_context c (host_context (ths ! t)) \<Longrightarrow> timed_context c (host_context th)"
  shows "waits_ok ms cvs (ths[t := th])"
proof (rule waits_ok_update [OF assms(1)])
  show "cond_moves t (cvs c) (cvs c)" for c using assms(1) by (rule cond_moves_refl)
  show "t < length ths \<and> in_cond c th" if "cvs c = Some obj" "t \<in> set (queued obj)" for c obj
    using waits_ok_queued [OF assms(1) that] assms(3) by blast
  show "t < length ths \<and> timed_context c (host_context th) \<and> (\<forall>c'. \<not> in_cond c' th)"
    if "cvs c = Some obj" "t \<in> timed_out obj" for c obj
    using waits_ok_timed_out [OF assms(1) that] assms(3,4) by blast
qed (use assms(2) in simp_all)

text \<open>The running thread is in no queue, and no timeout of it is pending.\<close>

lemma running_free:
  assumes "sync_inv e" and "running e" and "condition_variables e c = Some obj"
  shows "current_thread e \<notin> set (queued obj)" and "current_thread e \<notin> timed_out obj"
  using assms waits_ok_queued [of "mutex_st e" "condition_variables e" "threads e" c obj "current_thread e"]
    waits_ok_timed_out [of "mutex_st e" "condition_variables e" "threads e" c obj "current_thread e"]
  by (auto simp: sync_inv_def running_def thread_at_def in_cond_def timed_context_def split: if_splits)

lemma running_cong:
  "threads e' = threads e \<Longrightarrow> current_thread e' = current_thread e \<Longrightarrow> running e' = running e"
  by (simp add: running_def thread_at_def)

lemma running_index: "running e \<Longrightarrow> current_thread e < length (threads e)"
  by (simp add: running_def thread_at_def split: if_splits)

lemma running_block: "running e \<Longrightarrow> blocked_by (threads e ! current_thread e) = NotBlocked \<and> host_context (threads e ! current_thread e) = None"
  by (simp add: running_def thread_at_def split: if_splits)

lemma sync_inv_other [simp]:
  "sync_inv (e\<lparr>env_mem := m\<rparr>) = sync_inv e" "sync_inv (e\<lparr>errnos := er\<rparr>) = sync_inv e"
  "sync_inv (e\<lparr>named_semaphores := ns\<rparr>) = sync_inv e" "sync_inv (e\<lparr>semaphore_next := n\<rparr>) = sync_inv e"
  "sync_inv (e\<lparr>current_thread := t\<rparr>) = sync_inv e"
  by (simp_all add: sync_inv_def)

lemma running_other [simp]:
  "running (e\<lparr>env_mem := m\<rparr>) = running e" "running (e\<lparr>errnos := er\<rparr>) = running e"
  "running (e\<lparr>named_semaphores := ns\<rparr>) = running e" "running (e\<lparr>semaphore_next := n\<rparr>) = running e"
  "running (e\<lparr>mutex_st := s\<rparr>) = running e" "running (e\<lparr>condition_variables := cv\<rparr>) = running e"
  "running (e\<lparr>semaphores := sm\<rparr>) = running e" "running (e\<lparr>open_semaphores := os\<rparr>) = running e"
  "running (set_sem r obj e) = running e" "running (set_cond c oo e) = running e"
  by (simp_all add: running_def thread_at_def set_sem_def set_cond_def)

lemma sync_inv_mutexes:
  "sync_inv e \<Longrightarrow> (\<And>mid. mutexes (mutex_st e) mid \<noteq> None \<Longrightarrow> mutexes s mid \<noteq> None) \<Longrightarrow> sync_inv (e\<lparr>mutex_st := s\<rparr>)"
  unfolding sync_inv_def by (auto intro: waits_ok_mutexes)

subsection \<open>Mutexes\<close>

lemma init_mutex_mono: "init_mutex ty s = Some (mid, s') \<Longrightarrow> mutexes s m \<noteq> None \<Longrightarrow> mutexes s' m \<noteq> None"
  by (auto simp: init_mutex_def panic_simps Let_def split: if_splits)

lemma lock_mutex_mono:
  assumes "lock_mutex t mid s = Some (r, s')"
  shows "mutexes s mid \<noteq> None" and "mutexes s m \<noteq> None \<Longrightarrow> mutexes s' m \<noteq> None"
proof -
  from assms obtain mx where mx: "mutexes s mid = Some mx" by (auto simp: lock_mutex_def bind_eq_Some_conv)
  then show "mutexes s mid \<noteq> None" by simp
  from assms mx show "mutexes s m \<noteq> None \<Longrightarrow> mutexes s' m \<noteq> None"
    by (cases "locked mx"; cases "m_type mx") (auto simp: lock_mutex_def bind_eq_Some_conv split: if_splits)
qed

lemma unlock_mutex_mono:
  assumes "unlock_mutex t mid s = Some (r, s')"
  shows "mutexes s mid \<noteq> None" and "mutexes s m \<noteq> None \<Longrightarrow> mutexes s' m \<noteq> None"
proof -
  from assms obtain mx where mx: "mutexes s mid = Some mx" by (auto simp: unlock_mutex_def bind_eq_Some_conv)
  then show "mutexes s mid \<noteq> None" by simp
  from assms mx show "mutexes s m \<noteq> None \<Longrightarrow> mutexes s' m \<noteq> None"
    by (cases "locked mx") (auto simp: unlock_mutex_def panic_simps Let_def split: if_splits)
qed

lemma relock_mono:
  assumes "relock_for_thread t mid e = Some e'"
  shows "mutexes (mutex_st e) m \<noteq> None \<Longrightarrow> mutexes (mutex_st e') m \<noteq> None"
    and "e' = e\<lparr>mutex_st := mutex_st e'\<rparr>"
proof -
  from assms obtain s where r: "relock_unblocked_mutex t mid (mutex_st e) = Some s" and e': "e' = e\<lparr>mutex_st := s\<rparr>"
    by (auto simp: relock_for_thread_def)
  obtain mx w where "s = set_mutex mid (mx\<lparr>locked := Some (t, 1), waiting_count := w\<rparr>) (mutex_st e)"
    using relock_unblocked_mutex_eq [OF r] by blast
  with e' show "mutexes (mutex_st e) m \<noteq> None \<Longrightarrow> mutexes (mutex_st e') m \<noteq> None" "e' = e\<lparr>mutex_st := mutex_st e'\<rparr>"
    by simp_all
qed

text \<open>What a call on locks leaves alone.\<close>

definition same_threads :: "env \<Rightarrow> env \<Rightarrow> bool" where
  "same_threads e e' \<longleftrightarrow> threads e' = threads e \<and> current_thread e' = current_thread e \<and>
     condition_variables e' = condition_variables e \<and> open_semaphores e' = open_semaphores e \<and> semaphores e' = semaphores e"

lemma same_threads_running: "same_threads e e' \<Longrightarrow> running e' = running e"
  by (simp add: same_threads_def running_def thread_at_def)

lemma create_lock_inv:
  assumes "create_lock obj magic ty e = Some (r, e')" and "sync_inv e"
  shows "sync_inv e'" and "same_threads e e'"
proof -
  from assms(1) obtain mid s m where "init_mutex ty (mutex_st e) = Some (mid, s)" "e' = e\<lparr>mutex_st := s, env_mem := m\<rparr>"
    by (auto simp: create_lock_def with_mem_def bind_eq_Some_conv Let_def)
  with assms(2) init_mutex_mono show "sync_inv e'" "same_threads e e'"
    by (auto simp: same_threads_def intro!: sync_inv_mutexes)
qed

lemma same_threads_refl [simp]: "same_threads e e" by (simp add: same_threads_def)

lemma check_magic_Some:
  "check_magic obj magic e k = Some (r, e') \<Longrightarrow> (r = EINVAL \<and> e' = e) \<or> k = Some (r, e')"
  by (auto simp: check_magic_def bind_eq_Some_conv split: if_splits)

lemma mutex_init_inv:
  assumes "pthread_mutex_init m a e = Some (r, e')" and "sync_inv e"
  shows "sync_inv e' \<and> same_threads e e'"
proof (cases "a = 0")
  case True
  with assms create_lock_inv show ?thesis by (auto simp: pthread_mutex_init_def)
next
  case False
  with assms(1) check_magic_Some have "e' = e \<or> (\<exists>ty. create_lock m MAGIC_MUTEX ty e = Some (r, e'))"
    by (fastforce simp: pthread_mutex_init_def bind_eq_Some_conv)
  with create_lock_inv assms(2) show ?thesis by auto
qed

lemma rwlock_init_inv:
  assumes "pthread_rwlock_init m a e = Some (r, e')" and "sync_inv e"
  shows "sync_inv e' \<and> same_threads e e'"
proof (cases "a = 0")
  case True
  with assms create_lock_inv show ?thesis by (auto simp: pthread_rwlock_init_def)
next
  case False
  with assms(1) check_magic_Some have "e' = e \<or> create_lock m MAGIC_RWLOCK PTHREAD_MUTEX_DEFAULT e = Some (r, e')"
    by (fastforce simp: pthread_rwlock_init_def)
  with create_lock_inv assms(2) show ?thesis by auto
qed

lemma check_mutex_inv:
  assumes "check_or_register_mutex m e = Some (r, e')" and "sync_inv e"
  shows "sync_inv e' \<and> same_threads e e'"
  using assms mutex_init_inv [of m 0 e]
  by (auto simp: check_or_register_mutex_def bind_eq_Some_conv split: if_splits)

lemma check_rwlock_inv:
  assumes "check_or_register_rwlock m e = Some (r, e')" and "sync_inv e"
  shows "sync_inv e' \<and> same_threads e e'"
  using assms rwlock_init_inv [of m 0 e]
  by (auto simp: check_or_register_rwlock_def bind_eq_Some_conv split: if_splits)

text \<open>Suspending the running thread on anything but a condition variable.\<close>

lemma yield_inv:
  assumes "sync_inv e" and "running e" and "yield_thread b k e = Some e'"
    and "block_ok (mutex_st e) (condition_variables e) (length (threads e)) (current_thread e)
           ((threads e ! current_thread e)\<lparr>blocked_by := b, host_context := Some k\<rparr>)"
    and "\<And>c. \<not> in_cond c ((threads e ! current_thread e)\<lparr>blocked_by := b, host_context := Some k\<rparr>)"
  shows "sync_inv e'"
proof -
  let ?t = "current_thread e"
  let ?th = "(threads e ! ?t)\<lparr>blocked_by := b, host_context := Some k\<rparr>"
  have e': "e' = e\<lparr>threads := (threads e)[?t := ?th]\<rparr>"
    using assms(2,3) by (auto simp: yield_thread_def thread_at_def is_blocked_def running_def panic_simps split: if_splits)
  have "waits_ok (mutex_st e) (condition_variables e) ((threads e)[?t := ?th])"
    using assms running_block [OF assms(2)] 
    by (intro waits_ok_thread) (auto simp: sync_inv_def in_cond_def timed_context_def)
  with assms(1) show ?thesis by (simp add: e' sync_inv_def)
qed

lemma block_ok_yield [simp]:
  "block_ok ms cvs n t (th\<lparr>blocked_by := NotBlocked, host_context := k\<rparr>)"
  "block_ok ms cvs n t (th\<lparr>blocked_by := Sleeping w, host_context := k\<rparr>)"
  "block_ok ms cvs n t (th\<lparr>blocked_by := GuestSleeping w, host_context := k\<rparr>)"
  "block_ok ms cvs n t (th\<lparr>blocked_by := Block_Semaphore sem, host_context := k\<rparr>)"
  "block_ok ms cvs n t (th\<lparr>blocked_by := Block_Mutex mid, host_context := k\<rparr>) \<longleftrightarrow> mutexes ms mid \<noteq> None"
  "block_ok ms cvs n t (th\<lparr>blocked_by := Joining j p, host_context := k\<rparr>) \<longleftrightarrow> j < n"
  by (simp_all add: block_ok_def)

lemma in_cond_yield [simp]:
  "\<not> in_cond c (th\<lparr>blocked_by := NotBlocked, host_context := k\<rparr>)"
  "\<not> in_cond c (th\<lparr>blocked_by := Sleeping w, host_context := k\<rparr>)"
  "\<not> in_cond c (th\<lparr>blocked_by := GuestSleeping w, host_context := k\<rparr>)"
  "\<not> in_cond c (th\<lparr>blocked_by := Block_Semaphore sem, host_context := k\<rparr>)"
  "\<not> in_cond c (th\<lparr>blocked_by := Block_Mutex mid, host_context := k\<rparr>)"
  "\<not> in_cond c (th\<lparr>blocked_by := Joining j p, host_context := k\<rparr>)"
  by (simp_all add: in_cond_def)

lemma env_lock_inv:
  assumes "env_lock_mutex mid e = Some (r, e')" and "sync_inv e" and "running e"
  shows "sync_inv e'"
proof -
  from assms(1) obtain q s where l: "lock_mutex (current_thread e) mid (mutex_st e) = Some (q, s)"
    by (auto simp: env_lock_mutex_def bind_eq_Some_conv)
  have inv: "sync_inv (e\<lparr>mutex_st := s\<rparr>)"
    by (rule sync_inv_mutexes [OF assms(2) lock_mutex_mono(2) [OF l]])
  show ?thesis
  proof (cases "q = Lock_wait")
    case True
    then have y: "yield_thread (Block_Mutex mid) After_zero (e\<lparr>mutex_st := s\<rparr>) = Some e'"
      using assms(1) l by (auto simp: env_lock_mutex_def block_on_mutex_def Let_def)
    have "mutexes s mid \<noteq> None" by (rule lock_mutex_mono(2) [OF l lock_mutex_mono(1) [OF l]])
    then show ?thesis using assms(3) by (intro yield_inv [OF inv _ y]) simp_all
  next
    case False
    then have "e' = e\<lparr>mutex_st := s\<rparr>" using assms(1) l
      by (cases q) (auto simp: env_lock_mutex_def Let_def)
    with inv show ?thesis by simp
  qed
qed

lemma env_unlock_inv:
  assumes "env_unlock_mutex mid e = Some (r, e')" and "sync_inv e"
  shows "sync_inv e'" and "same_threads e e'" and "env_mem e' = env_mem e" and "mutexes (mutex_st e') mid \<noteq> None"
proof -
  from assms(1) obtain q s where l: "unlock_mutex (current_thread e) mid (mutex_st e) = Some (q, s)"
    and e': "e' = e\<lparr>mutex_st := s\<rparr>"
    by (auto simp: env_unlock_mutex_def bind_eq_Some_conv)
  show "sync_inv e'" unfolding e' by (rule sync_inv_mutexes [OF assms(2) unlock_mutex_mono(2) [OF l]])
  show "mutexes (mutex_st e') mid \<noteq> None" using unlock_mutex_mono [OF l] e' by simp
  show "same_threads e e'" "env_mem e' = env_mem e" by (simp_all add: e' same_threads_def)
qed

lemma mutex_lock_inv:
  assumes "pthread_mutex_lock m e = Some (r, e')" and "sync_inv e" and "running e"
  shows "sync_inv e'"
proof -
  from assms(1) obtain q e1 where q: "check_or_register_mutex m e = Some (q, e1)"
    by (auto simp: pthread_mutex_lock_def bind_eq_Some_conv)
  note c = check_mutex_inv [OF q assms(2)]
  then have "running e1" using assms(3) same_threads_running [of e e1] by simp
  with assms(1) q c env_lock_inv show ?thesis
    by (auto simp: pthread_mutex_lock_def bind_eq_Some_conv split: sum.splits)
qed

lemma mutex_trylock_inv:
  assumes "pthread_mutex_trylock m e = Some (r, e')" and "sync_inv e" and "running e"
  shows "sync_inv e'"
proof -
  from assms(1) obtain q e1 where q: "check_or_register_mutex m e = Some (q, e1)"
    by (auto simp: pthread_mutex_trylock_def bind_eq_Some_conv)
  note c = check_mutex_inv [OF q assms(2)]
  then have "running e1" using assms(3) same_threads_running [of e e1] by simp
  with assms(1) q c mutex_lock_inv show ?thesis
    by (auto simp: pthread_mutex_trylock_def bind_eq_Some_conv split: sum.splits if_splits)
qed

lemma mutex_unlock_inv:
  assumes "pthread_mutex_unlock m e = Some (r, e')" and "sync_inv e"
  shows "sync_inv e' \<and> same_threads e e'"
    and "r = 0 \<Longrightarrow> read_lock_object (env_mem e') m = Some (magic, mid) \<Longrightarrow> mutexes (mutex_st e') mid \<noteq> None"
proof -
  from assms(1) obtain q e1 where q: "check_or_register_mutex m e = Some (q, e1)"
    by (auto simp: pthread_mutex_unlock_def bind_eq_Some_conv)
  note c = check_mutex_inv [OF q assms(2)]
  have "sync_inv e' \<and> same_threads e e' \<and> (r = 0 \<longrightarrow> read_lock_object (env_mem e') m = Some (magic, mid) \<longrightarrow>
      mutexes (mutex_st e') mid \<noteq> None)"
  proof (cases q)
    case (Inl err)
    moreover from this q have "err = EINVAL" by (auto simp: check_or_register_mutex_def bind_eq_Some_conv split: if_splits)
    ultimately show ?thesis using assms(1) q c by (auto simp: pthread_mutex_unlock_def EINVAL_def)
  next
    case (Inr u)
    with assms(1) q obtain mg md where rd: "read_lock_object (env_mem e1) m = Some (mg, md)"
      and u: "env_unlock_mutex md e1 = Some (r, e')" by (auto simp: pthread_mutex_unlock_def bind_eq_Some_conv)
    from env_unlock_inv [OF u] c rd show ?thesis by (auto simp: same_threads_def)
  qed
  then show "sync_inv e' \<and> same_threads e e'" "r = 0 \<Longrightarrow> read_lock_object (env_mem e') m = Some (magic, mid) \<Longrightarrow>
      mutexes (mutex_st e') mid \<noteq> None" by blast+
qed

lemma trylock_inner_inv:
  assumes "trylock_inner m e = Some (r, e')" and "sync_inv e" and "running e"
  shows "sync_inv e'"
proof -
  from assms(1) obtain q e1 where q: "check_or_register_rwlock m e = Some (q, e1)"
    by (auto simp: trylock_inner_def bind_eq_Some_conv)
  note c = check_rwlock_inv [OF q assms(2)]
  then have "running e1" using assms(3) same_threads_running [of e e1] by simp
  with assms(1) q c env_lock_inv show ?thesis
    by (auto simp: trylock_inner_def bind_eq_Some_conv split: sum.splits if_splits)
qed

lemma lock_inner_inv:
  assumes "lock_inner m e = Some (r, e')" and "sync_inv e" and "running e"
  shows "sync_inv e'"
proof -
  from assms(1) obtain q e1 where q: "check_or_register_rwlock m e = Some (q, e1)"
    by (auto simp: lock_inner_def bind_eq_Some_conv)
  note c = check_rwlock_inv [OF q assms(2)]
  then have "running e1" using assms(3) same_threads_running [of e e1] by simp
  with assms(1) q c env_lock_inv show ?thesis
    by (auto simp: lock_inner_def bind_eq_Some_conv split: sum.splits)
qed

lemma rwlock_unlock_inv:
  assumes "pthread_rwlock_unlock m e = Some (r, e')" and "sync_inv e"
  shows "sync_inv e'"
proof -
  from assms(1) obtain q e1 where q: "check_or_register_rwlock m e = Some (q, e1)"
    by (auto simp: pthread_rwlock_unlock_def bind_eq_Some_conv)
  with assms(1) check_rwlock_inv [OF q assms(2)] env_unlock_inv(1) show ?thesis
    by (auto simp: pthread_rwlock_unlock_def bind_eq_Some_conv split: sum.splits)
qed

text \<open>Removing a mutex that nobody waits for.\<close>

lemma destroy_lock_inv:
  assumes "destroy_lock m e = Some (r, e')" and inv: "sync_inv e"
    and "\<And>magic mid. read_lock_object (env_mem e) m = Some (magic, mid) \<Longrightarrow> mutex_unused mid e"
  shows "sync_inv e'"
proof -
  from assms(1) obtain magic mid w q s where rd: "read_lock_object (env_mem e) m = Some (magic, mid)"
    and d: "destroy_mutex mid (mutex_st e) = Some (q, s)" and e': "e' = e\<lparr>env_mem := w, mutex_st := s\<rparr>"
    by (auto simp: destroy_lock_def bind_eq_Some_conv Let_def)
  have un: "mutex_unused mid e" using assms(3) rd .
  have keep: "mutexes s x = mutexes (mutex_st e) x" if "x \<noteq> mid" for x
    using d that by (auto simp: destroy_mutex_def bind_eq_Some_conv split: if_splits)
  have w: "waits_ok (mutex_st e) (condition_variables e) (threads e)" using inv by (simp add: sync_inv_def)
  have "block_ok s (condition_variables e) (length (threads e)) t (threads e ! t)" if t: "t < length (threads e)" for t
  proof -
    note b = waits_ok_block [OF w t]
    have un1: "base_block (blocked_by (threads e ! t)) \<noteq> Block_Mutex mid"
      using un nth_mem [OF t] by (simp add: mutex_unused_def)
    have un2: "x \<noteq> mid" if "condition_variables e c = Some obj" "curr_mutex obj = Some x" "t \<in> set (queued obj)" for c obj x
      using un that by (auto simp: mutex_unused_def)
    show ?thesis
    proof (cases "base_block (blocked_by (threads e ! t))")
      case (Block_Mutex x)
      with b un1 keep [of x] show ?thesis by (auto simp: block_ok_def)
    next
      case (Block_Condition c d)
      with b obtain obj x where o: "condition_variables e c = Some obj" "t \<in> set (queued obj)" "curr_mutex obj = Some x"
        "mutexes (mutex_st e) x \<noteq> None" by (auto simp: block_ok_def)
      with keep [of x] un2 have "mutexes s x \<noteq> None" by metis
      with b o Block_Condition show ?thesis by (auto simp: block_ok_def)
    qed (use b in \<open>auto simp: block_ok_def\<close>)
  qed
  with inv show ?thesis by (simp add: e' sync_inv_def waits_ok_def blocks_ok_def)
qed

lemma mutex_destroy_inv:
  assumes "pthread_mutex_destroy m e = Some (r, e')" and "sync_inv e" and "destroy_guard check_or_register_mutex m e"
  shows "sync_inv e'"
proof -
  from assms(1) obtain q e1 where q: "check_or_register_mutex m e = Some (q, e1)"
    by (auto simp: pthread_mutex_destroy_def bind_eq_Some_conv)
  note c = check_mutex_inv [OF q assms(2)]
  show ?thesis
  proof (cases q)
    case (Inl err)
    with assms(1) q c show ?thesis by (simp add: pthread_mutex_destroy_def)
  next
    case (Inr u)
    with assms(1) q have d: "destroy_lock m e1 = Some (r, e')" by (simp add: pthread_mutex_destroy_def)
    show ?thesis using assms(3) q Inr c by (intro destroy_lock_inv [OF d]) (auto simp: destroy_guard_def)
  qed
qed

lemma rwlock_destroy_inv:
  assumes "pthread_rwlock_destroy m e = Some (r, e')" and "sync_inv e" and "destroy_guard check_or_register_rwlock m e"
  shows "sync_inv e'"
proof -
  from assms(1) obtain q e1 where q: "check_or_register_rwlock m e = Some (q, e1)"
    by (auto simp: pthread_rwlock_destroy_def bind_eq_Some_conv)
  note c = check_rwlock_inv [OF q assms(2)]
  show ?thesis
  proof (cases q)
    case (Inl err)
    with assms(1) q c show ?thesis by (simp add: pthread_rwlock_destroy_def)
  next
    case (Inr u)
    with assms(1) q have d: "destroy_lock m e1 = Some (r, e')" by (simp add: pthread_rwlock_destroy_def)
    show ?thesis using assms(3) q Inr c by (intro destroy_lock_inv [OF d]) (auto simp: destroy_guard_def)
  qed
qed

subsection \<open>Condition variables\<close>

lemma sync_inv_cond:
  assumes inv: "sync_inv e" and "cond_moves (length (threads e)) (condition_variables e c) oo"
    and "\<And>obj. oo = Some obj \<Longrightarrow> length (threads e) \<notin> set (queued obj) \<and> length (threads e) \<notin> timed_out obj"
  shows "sync_inv (set_cond c oo e)"
proof -
  have w: "waits_ok (mutex_st e) (condition_variables e) (threads e)" using inv by (simp add: sync_inv_def)
  have "waits_ok (mutex_st e) ((condition_variables e)(c := oo)) (threads e)"
  proof (rule waits_ok_conds [OF w])
    show "cond_moves (length (threads e)) (condition_variables e d) (((condition_variables e)(c := oo)) d)" for d
      using assms(2) cond_moves_refl [OF w] by simp
    show "length (threads e) \<notin> set (queued obj) \<and> length (threads e) \<notin> timed_out obj"
      if "((condition_variables e)(c := oo)) d = Some obj" for d obj
      using that assms(3) waits_ok_queued [OF w, of d obj "length (threads e)"]
        waits_ok_timed_out [OF w, of d obj "length (threads e)"] by (auto split: if_splits)
  qed simp
  with inv show ?thesis by (simp add: sync_inv_def set_cond_def)
qed

lemma queued_length:
  "sync_inv e \<Longrightarrow> condition_variables e c = Some obj \<Longrightarrow> length (threads e) \<notin> set (queued obj) \<and> length (threads e) \<notin> timed_out obj"
  unfolding sync_inv_def using waits_ok_queued waits_ok_timed_out by (metis less_irrefl)

lemma cond_object_ok:
  "sync_inv e \<Longrightarrow> condition_variables e c = Some obj \<Longrightarrow> cond_ok (threads e) c obj"
  by (simp add: sync_inv_def waits_ok_def conds_ok_def)

text \<open>The queues are permuted, the timeouts and the mutex stay.\<close>

lemma requeue_inv:
  assumes "sync_inv e" and "condition_variables e c = Some obj"
    and "mset (queued obj') = mset (queued obj)" and "timed_out obj' \<subseteq> timed_out obj" and "curr_mutex obj' = curr_mutex obj"
  shows "sync_inv (set_cond c (Some obj') e)"
proof (rule sync_inv_cond [OF assms(1)])
  have "distinct (queued obj)" using cond_object_ok [OF assms(1,2)] by (simp add: cond_ok_def)
  then have d: "distinct (queued obj')" using assms(3) by (metis mset_eq_imp_distinct_iff)
  have s: "set (queued obj') = set (queued obj)" using assms(3) by (metis set_mset_mset)
  show "cond_moves (length (threads e)) (condition_variables e c) (Some obj')"
    using assms d s by (auto simp: cond_moves_def)
  show "\<And>obj. Some obj' = Some obj \<Longrightarrow> length (threads e) \<notin> set (queued obj) \<and> length (threads e) \<notin> timed_out obj"
    using queued_length [OF assms(1,2)] s assms(4) by auto
qed

lemma cond_init_inv:
  assumes "pthread_cond_init c a e = Some (r, e')" and "sync_inv e" and "cond_unused c e"
  shows "sync_inv e'" and "threads e' = threads e" and "current_thread e' = current_thread e" and "mutex_st e' = mutex_st e"
proof -
  from assms(1) obtain m where e': "e' = set_cond c (Some new_cond_object) (e\<lparr>env_mem := m\<rparr>)"
    by (auto simp: pthread_cond_init_def bind_eq_Some_conv)
  show "sync_inv e'" unfolding e' using assms(2,3)
    by (intro sync_inv_cond)
      (auto simp: cond_moves_def cond_unused_def queued_def new_cond_object_def split: option.splits)
  show "threads e' = threads e" "current_thread e' = current_thread e" "mutex_st e' = mutex_st e"
    by (simp_all add: e' set_cond_def)
qed

lemma check_cond_inv:
  assumes "check_or_register_cond c e = Some (r, e')" and "sync_inv e" and "cond_guard c e"
  shows "sync_inv e'" and "threads e' = threads e" and "current_thread e' = current_thread e"
  using assms cond_init_inv [of c 0 e]
  by (auto simp: check_or_register_cond_def cond_guard_def bind_eq_Some_conv split: if_splits)

lemma cond_signal_inv:
  assumes "pthread_cond_signal c e = Some (r, e')" and "sync_inv e" and "cond_guard c e"
  shows "sync_inv e'"
proof -
  from assms(1) obtain q e1 where q: "check_or_register_cond c e = Some (q, e1)"
    by (auto simp: pthread_cond_signal_def bind_eq_Some_conv)
  note i = check_cond_inv(1) [OF q assms(2,3)]
  show ?thesis
  proof (cases q)
    case (Inl err)
    with assms(1) q i show ?thesis by (simp add: pthread_cond_signal_def)
  next
    case (Inr u)
    with assms(1) q obtain obj where o: "condition_variables e1 c = Some obj"
      by (auto simp: pthread_cond_signal_def bind_eq_Some_conv)
    show ?thesis
    proof (cases "waiting obj")
      case Nil
      with assms(1) q o Inr i show ?thesis by (simp add: pthread_cond_signal_def)
    next
      case (Cons t ts)
      with assms(1) q o Inr have "e' = set_cond c (Some (obj\<lparr>waiting := ts, waking := waking obj @ [t]\<rparr>)) e1"
        by (simp add: pthread_cond_signal_def)
      then show ?thesis using requeue_inv [OF i o] Cons by (simp add: queued_def)
    qed
  qed
qed

lemma cond_broadcast_inv:
  assumes "pthread_cond_broadcast c e = Some (r, e')" and "sync_inv e" and "cond_guard c e"
  shows "sync_inv e'"
proof -
  from assms(1) obtain q e1 where q: "check_or_register_cond c e = Some (q, e1)"
    by (auto simp: pthread_cond_broadcast_def bind_eq_Some_conv)
  note i = check_cond_inv(1) [OF q assms(2,3)]
  show ?thesis
  proof (cases q)
    case (Inl err)
    with assms(1) q i show ?thesis by (simp add: pthread_cond_broadcast_def)
  next
    case (Inr u)
    with assms(1) q obtain obj where o: "condition_variables e1 c = Some obj"
      and "e' = set_cond c (Some (obj\<lparr>waiting := [], waking := waking obj @ waiting obj\<rparr>)) e1"
      by (auto simp: pthread_cond_broadcast_def bind_eq_Some_conv)
    then show ?thesis using requeue_inv [OF i o] by (simp add: queued_def)
  qed
qed

lemma cond_destroy_inv:
  assumes "pthread_cond_destroy c e = Some (r, e')" and "sync_inv e" and "cond_guard c e"
  shows "sync_inv e'"
proof -
  from assms(1) obtain q e1 where q: "check_or_register_cond c e = Some (q, e1)"
    by (auto simp: pthread_cond_destroy_def bind_eq_Some_conv)
  note i = check_cond_inv(1) [OF q assms(2,3)]
  show ?thesis
  proof (cases q)
    case (Inl err)
    with assms(1) q i show ?thesis by (simp add: pthread_cond_destroy_def)
  next
    case (Inr u)
    with assms(1) q obtain obj where o: "condition_variables e1 c = Some obj" "waiting obj = []" "waking obj = []"
      and e': "e' = set_cond c None e1"
      by (auto simp: pthread_cond_destroy_def panic_simps split: if_splits option.splits) 
         (auto simp: bind_eq_Some_conv panic_simps split: if_splits)
    show ?thesis unfolding e' using o by (intro sync_inv_cond [OF i]) (simp_all add: cond_moves_def queued_def)
  qed
qed

text \<open>Queueing the running thread and suspending it.\<close>

lemma enqueue_inv:
  assumes inv: "sync_inv e" and run: "running e" and o: "condition_variables e c = Some obj"
    and cur: "curr_mutex obj = Some mid \<or> waking obj = [] \<and> waiting obj = []"
    and mx: "mutexes (mutex_st e) mid \<noteq> None" and k: "deadline \<noteq> None \<longrightarrow> timed_context c (Some k)"
    and y: "yield_thread (Block_Condition c deadline) k
      (set_cond c (Some (obj\<lparr>curr_mutex := Some mid, waiting := waiting obj @ [current_thread e]\<rparr>)) e) = Some e'"
  shows "sync_inv e'"
proof -
  let ?t = "current_thread e" and ?ths = "threads e"
  let ?obj = "obj\<lparr>curr_mutex := Some mid, waiting := waiting obj @ [?t]\<rparr>"
  let ?th = "(?ths ! ?t)\<lparr>blocked_by := Block_Condition c deadline, host_context := Some k\<rparr>"
  let ?cvs = "(condition_variables e)(c \<mapsto> ?obj)"
  have e': "e' = set_cond c (Some ?obj) e \<lparr>threads := ?ths[?t := ?th]\<rparr>"
    using y running_index [OF run]
    by (auto simp: yield_thread_def thread_at_def panic_simps set_cond_def split: if_splits)
  have w: "waits_ok (mutex_st e) (condition_variables e) ?ths" using inv by (simp add: sync_inv_def)
  have q: "set (queued ?obj) = insert ?t (set (queued obj))" "?t \<notin> set (queued obj)" "timed_out ?obj = timed_out obj"
    using running_free(1) [OF inv run o] by (auto simp: queued_def)
  have dist: "distinct (queued obj)" using cond_object_ok [OF inv o] by (simp add: cond_ok_def)
  have ic: "in_cond d ?th \<longleftrightarrow> d = c" for d by (auto simp: in_cond_def)
  have "waits_ok (mutex_st e) ?cvs (?ths[?t := ?th])"
  proof (rule waits_ok_update [OF w])
    show "cond_moves ?t (condition_variables e d) (?cvs d)" for d
    proof (cases "d = c")
      case True
      have "distinct (queued ?obj)" using dist q(2) by (auto simp: queued_def)
      with True o q cur show ?thesis by (auto simp: cond_moves_def queued_def)
    qed (simp add: cond_moves_refl [OF w])
    show "block_ok (mutex_st e) ?cvs (length ?ths) ?t ?th"
      using mx k q(1) by (auto simp: block_ok_def)
    show "?t < length ?ths \<and> in_cond d ?th" if "?cvs d = Some x" "?t \<in> set (queued x)" for d x
      using that ic running_free(1) [OF inv run, of d x] running_index [OF run] by (auto split: if_splits)
    show "?t < length ?ths \<and> timed_context d (host_context ?th) \<and> (\<forall>c'. \<not> in_cond c' ?th)"
      if "?cvs d = Some x" "?t \<in> timed_out x" for d x
      using that running_free(2) [OF inv run, of d] o by (auto split: if_splits)
  qed simp
  with inv show ?thesis by (simp add: e' sync_inv_def set_cond_def)
qed

lemma wait_on_cond_inv:
  assumes "wait_on_cond c m deadline k e = Some (r, e')" and "sync_inv e" and "running e" and "cond_guard c e"
    and k: "deadline \<noteq> None \<longrightarrow> timed_context c (Some k)"
  shows "sync_inv e'"
proof -
  from assms(1) obtain q e1 where q: "check_or_register_cond c e = Some (q, e1)"
    by (auto simp: wait_on_cond_def bind_eq_Some_conv)
  note i = check_cond_inv [OF q assms(2,4)]
  have run: "running e1" using assms(3) running_cong [OF i(2,3)] by simp
  show ?thesis
  proof (cases q)
    case (Inl err)
    with assms(1) q i show ?thesis by (simp add: wait_on_cond_def)
  next
    case (Inr u)
    with assms(1) q obtain res e2 where ul: "pthread_mutex_unlock m e1 = Some (res, e2)"
      by (auto simp: wait_on_cond_def bind_eq_Some_conv)
    note i2 = mutex_unlock_inv(1) [OF ul i(1)]
    show ?thesis
    proof (cases "res = 0")
      case False
      with assms(1) q Inr ul i2 show ?thesis by (simp add: wait_on_cond_def)
    next
      case True
      with assms(1) q Inr ul obtain magic mid obj where rd: "read_lock_object (env_mem e2) m = Some (magic, mid)"
        and o: "condition_variables e2 c = Some obj"
        and cur: "curr_mutex obj = Some mid \<or> waking obj = [] \<and> waiting obj = []"
        and y: "yield_thread (Block_Condition c deadline) k
          (set_cond c (Some (obj\<lparr>curr_mutex := Some mid, waiting := waiting obj @ [current_thread e2]\<rparr>)) e2) = Some e'"
        by (auto simp: wait_on_cond_def bind_eq_Some_conv Let_def panic_simps split: if_splits)
      have "running e2" using i2 same_threads_running [of e1 e2] run by simp
      from enqueue_inv [OF _ this o cur _ k y] i2 mutex_unlock_inv(2) [OF ul i(1) True rd] show ?thesis by simp
    qed
  qed
qed

lemma cond_timedwait_inv:
  assumes "pthread_cond_timedwait_then k c m ts e = Some (r, e')" and "sync_inv e" and "running e" and "cond_guard c e"
    and "timed_context c (Some k)"
  shows "sync_inv e'"
  using assms wait_on_cond_inv [of c m _ k e r e']
  by (auto simp: pthread_cond_timedwait_then_def bind_eq_Some_conv)

lemma cond_relative_inv:
  assumes "pthread_cond_timedwait_relative_np now c m ts e = Some (r, e')" and "sync_inv e" and "running e"
    and "relative_guard c e"
  shows "sync_inv e'"
proof -
  from assms(1) obtain dur where d: "(if ts = 0 then Some 0 else map_option timespec_nanos (read_timespec (env_mem e) ts)) = Some dur"
    unfolding pthread_cond_timedwait_relative_np_def bind_eq_Some_conv by blast
  let ?xs = "le_bytes 4 (fst (relative_deadline now dur)) @ le_bytes 4 (snd (relative_deadline now dur))"
  from assms(1) d obtain p w where a: "alloc_and_write ?xs (env_mem e) = Some (p, w)"
    by (auto simp: pthread_cond_timedwait_relative_np_def bind_eq_Some_conv Let_def)
  with assms(1) d obtain q e1 where
    t: "pthread_cond_timedwait_then (After_cond_timedwait_relative c p) c m p (e\<lparr>env_mem := w\<rparr>) = Some (q, e1)"
    by (auto simp: pthread_cond_timedwait_relative_np_def bind_eq_Some_conv Let_def)
  have e': "e' = e1 \<or> (\<exists>w'. e' = e1\<lparr>env_mem := w'\<rparr>)"
    using assms(1) d a t
    by (cases q) (auto simp: pthread_cond_timedwait_relative_np_def bind_eq_Some_conv Let_def)
  have "cond_guard c (e\<lparr>env_mem := w\<rparr>)" using assms(4) a by (simp add: relative_guard_def)
  from cond_timedwait_inv [OF t _ _ this] assms(2,3) have "sync_inv e1" by (simp add: timed_context_def)
  with e' show ?thesis by auto
qed

subsection \<open>Semaphores\<close>

lemma set_errno_inv:
  assumes "set_errno v e = Some e'"
  shows "same_threads e e'" and "sync_inv e' = sync_inv e" and "mutex_st e' = mutex_st e"
proof -
  from assms obtain w er where "e' = e\<lparr>env_mem := w, errnos := er\<rparr>"
  proof (cases "errnos e (current_thread e)")
    case (Some p)
    with assms obtain w where "e' = e\<lparr>env_mem := w\<rparr>"
      by (auto simp: set_errno_def errno_ptr_for_thread_def bind_eq_Some_conv)
    then have "e' = e\<lparr>env_mem := w, errnos := errnos e\<rparr>" by simp
    then show ?thesis by (rule that)
  next
    case None
    with assms obtain p w where "e' = e\<lparr>errnos := (errnos e)(current_thread e \<mapsto> p), env_mem := w\<rparr>"
      by (auto simp: set_errno_def errno_ptr_for_thread_def bind_eq_Some_conv)
    then have "e' = e\<lparr>env_mem := w, errnos := (errnos e)(current_thread e \<mapsto> p)\<rparr>" by simp
    then show ?thesis by (rule that)
  qed
  then show "same_threads e e'" "sync_inv e' = sync_inv e" "mutex_st e' = mutex_st e"
    by (simp_all add: same_threads_def)
qed

lemma fail_with_inv: "fail_with err r e = Some (q, e') \<Longrightarrow> sync_inv e \<Longrightarrow> sync_inv e'"
  using set_errno_inv(2) by (auto simp: fail_with_def)

lemma set_sem_inv: "sync_inv e \<Longrightarrow> sync_inv (set_sem r obj e)"
  by (simp add: sync_inv_def sems_ok_def)

lemma close_handle_inv: "sync_inv e \<Longrightarrow> sync_inv (close_handle s e)"
  by (simp add: sync_inv_def sems_ok_def close_handle_def)

lemma open_handle_inv: "sync_inv e \<Longrightarrow> semaphores e r \<noteq> None \<Longrightarrow> sync_inv (open_handle s r e)"
  by (simp add: sync_inv_def sems_ok_def open_handle_def)

lemma sem_decrement_inv:
  assumes "sem_decrement s w e = Some (r, e')" and "sync_inv e" and "running e"
  shows "sync_inv e'"
proof (cases "open_semaphores e s")
  case None
  with assms show ?thesis by (simp add: sem_decrement_def)
next
  case (Some k)
  with assms(1) obtain obj where o: "semaphores e k = Some obj" by (auto simp: sem_decrement_def bind_eq_Some_conv)
  show ?thesis
  proof (cases "0 <s sem_value obj \<or> \<not> w")
    case True
    with assms(1,2) Some o set_sem_inv show ?thesis by (auto simp: sem_decrement_def split: if_splits)
  next
    case False
    let ?e = "set_sem k (obj\<lparr>sem_waiting := insert (current_thread e) (sem_waiting obj)\<rparr>) e"
    have y: "yield_thread (Block_Semaphore s) After_zero ?e = Some e'"
      using False assms(1) Some o by (auto simp: sem_decrement_def)
    show ?thesis using assms(3) by (intro yield_inv [OF set_sem_inv [OF assms(2)] _ y]) simp_all
  qed
qed

lemma sem_increment_inv: "sem_increment s e = Some (r, e') \<Longrightarrow> sync_inv e \<Longrightarrow> sync_inv e'"
  by (auto simp: sem_increment_def bind_eq_Some_conv set_sem_inv split: option.splits)

lemma new_semaphore_inv:
  "new_semaphore_object obj e = (r, e') \<Longrightarrow> sync_inv e \<Longrightarrow> sync_inv e' \<and> semaphores e' r = Some obj"
  using set_sem_inv [of e] by (auto simp: new_semaphore_object_def)

lemma sem_open_handle_inv: "sem_open_handle r e = Some (s, e') \<Longrightarrow> sync_inv e \<Longrightarrow> sync_inv e'"
  by (auto simp: sem_open_handle_def bind_eq_Some_conv set_sem_inv intro!: open_handle_inv)

lemma sem_init_inv: "sem_init s p v e = Some (r, e') \<Longrightarrow> sync_inv e \<Longrightarrow> sync_inv e'"
  using set_errno_inv(2) [of 0 e]
  by (auto simp: sem_init_def bind_eq_Some_conv new_semaphore_object_def set_sem_inv split: if_splits
      intro!: open_handle_inv)

lemma sem_open_inv:
  assumes "sem_open nm f v e0 = Some (r, e')" and "sync_inv e0"
  shows "sync_inv e'"
proof -
  from assms(1) obtain e name where e: "set_errno 0 e0 = Some e" and n: "cstr_at_utf8 (env_mem e) nm = Some name"
    by (auto simp: sem_open_def bind_eq_Some_conv)
  have i: "sync_inv e" using set_errno_inv(2) [OF e] assms(2) by simp
  show ?thesis
  proof (cases "named_semaphores e name")
    case None
    show ?thesis
    proof (cases "f AND O_CREAT = 0")
      case True
      with None assms(1) e n have "fail_with ENOENT SEM_FAILED e = Some (r, e')" by (simp add: sem_open_def)
      then show ?thesis using i by (rule fail_with_inv)
    next
      case False
      let ?x = "\<lparr>sem_value = v, sem_waiting = {}, guest_sem = None, sem_named = True\<rparr>"
      obtain k e1 where x: "new_semaphore_object ?x e = (k, e1)" by (cases "new_semaphore_object ?x e") auto
      with False None assms(1) e n have
        "sem_open_handle k (e1\<lparr>named_semaphores := (named_semaphores e1)(name \<mapsto> k)\<rparr>) = Some (r, e')"
        by (simp add: sem_open_def)
      moreover have "sync_inv (e1\<lparr>named_semaphores := (named_semaphores e1)(name \<mapsto> k)\<rparr>)"
        using new_semaphore_inv [OF x i] by simp
      ultimately show ?thesis by (rule sem_open_handle_inv)
    qed
  next
    case (Some k)
    with assms(1) e n i fail_with_inv sem_open_handle_inv show ?thesis
      by (auto simp: sem_open_def bind_eq_Some_conv split: if_splits option.splits)
  qed
qed

lemma sem_destroy_inv: "sem_destroy s e = Some (r, e') \<Longrightarrow> sync_inv e \<Longrightarrow> sync_inv e'"
  by (auto simp: sem_destroy_def bind_eq_Some_conv close_handle_inv panic_simps split: option.splits if_splits)

lemma sem_post_inv: "sem_post s e = Some (r, e') \<Longrightarrow> sync_inv e \<Longrightarrow> sync_inv e'"
  using set_errno_inv(2) [of 0 e] sem_increment_inv fail_with_inv
  by (fastforce simp: sem_post_def bind_eq_Some_conv split: if_splits)

lemma sem_wait_inv:
  assumes "sem_wait s e0 = Some (r, e')" and "sync_inv e0" and "running e0"
  shows "sync_inv e'"
proof -
  from assms(1) obtain e q e1 where e: "set_errno 0 e0 = Some e" and d: "sem_decrement s True e = Some (q, e1)"
    by (auto simp: sem_wait_def bind_eq_Some_conv)
  have "sync_inv e1" using sem_decrement_inv [OF d] set_errno_inv [OF e] assms(2,3) same_threads_running by blast
  with assms(1) e d fail_with_inv show ?thesis
    by (auto simp: sem_wait_def split: outcome.splits if_splits)
qed

lemma sem_trywait_inv:
  assumes "sem_trywait s e0 = Some (r, e')" and "sync_inv e0" and "running e0"
  shows "sync_inv e'"
proof -
  from assms(1) obtain e q e1 where e: "set_errno 0 e0 = Some e" and d: "sem_decrement s False e = Some (q, e1)"
    by (auto simp: sem_trywait_def bind_eq_Some_conv)
  have "sync_inv e1" using sem_decrement_inv [OF d] set_errno_inv [OF e] assms(2,3) same_threads_running by blast
  with assms(1) e d fail_with_inv show ?thesis
    by (auto simp: sem_trywait_def split: if_splits)
qed

lemma sem_close_inv:
  assumes "sem_close s e0 = Some (r, e')" and "sync_inv e0"
  shows "sync_inv e'"
proof -
  from assms(1) obtain e where e: "set_errno 0 e0 = Some e" by (auto simp: sem_close_def bind_eq_Some_conv)
  have i: "sync_inv e" using set_errno_inv(2) [OF e] assms(2) by simp
  show ?thesis
  proof (cases "open_semaphores e s")
    case None
    with assms(1) e i fail_with_inv show ?thesis by (auto simp: sem_close_def)
  next
    case (Some k)
    with assms(1) e obtain obj where o: "semaphores (close_handle s e) k = Some obj"
      by (auto simp: sem_close_def bind_eq_Some_conv Let_def)
    show ?thesis
    proof (cases "sem_named obj")
      case False
      with assms(1) e Some o have "fail_with EINVAL (- 1) (open_handle s k (close_handle s e)) = Some (r, e')"
        by (simp add: sem_close_def Let_def)
      moreover have "sync_inv (open_handle s k (close_handle s e))" using o i by (intro open_handle_inv close_handle_inv) simp_all
      ultimately show ?thesis by (rule fail_with_inv)
    next
      case True
      with assms(1) e Some o obtain w where
        "e' = set_sem k (obj\<lparr>guest_sem := None\<rparr>) (close_handle s e\<lparr>env_mem := w\<rparr>)"
        by (auto simp: sem_close_def Let_def bind_eq_Some_conv)
      then show ?thesis using i by (simp add: set_sem_inv close_handle_inv)
    qed
  qed
qed

lemma sem_unlink_inv: "sem_unlink s e = Some (r, e') \<Longrightarrow> sync_inv e \<Longrightarrow> sync_inv e'"
  using set_errno_inv(2) [of 0 e] by (auto simp: sem_unlink_def bind_eq_Some_conv)

lemma sem_getvalue_inv:
  assumes "sem_getvalue s p e0 = Some (r, e')" and "sync_inv e0"
  shows "sync_inv e'"
proof -
  from assms(1) obtain e where e: "set_errno 0 e0 = Some e" by (auto simp: sem_getvalue_def bind_eq_Some_conv)
  have "sync_inv e" using set_errno_inv(2) [OF e] assms(2) by simp
  with assms(1) e fail_with_inv show ?thesis
    by (auto simp: sem_getvalue_def bind_eq_Some_conv split: option.splits if_splits)
qed

subsection \<open>Threads\<close>

lemma block_ok_cong:
  "block_ok ms cvs n t th \<Longrightarrow> base_block (blocked_by th') = base_block (blocked_by th) \<Longrightarrow>
     well_suspended (blocked_by th') \<Longrightarrow> host_context th' = host_context th \<Longrightarrow> block_ok ms cvs n t th'"
  by (cases "base_block (blocked_by th)") (auto simp: block_ok_def)

lemma set_blocked_inv:
  assumes "sync_inv e" and "t < length (threads e)" and "base_block b = base_block (blocked_by (threads e ! t))"
    and "well_suspended b"
  shows "sync_inv (set_blocked t b e)"
proof -
  let ?th = "(threads e ! t)\<lparr>blocked_by := b\<rparr>"
  have w: "waits_ok (mutex_st e) (condition_variables e) (threads e)" using assms(1) by (simp add: sync_inv_def)
  have "block_ok (mutex_st e) (condition_variables e) (length (threads e)) t ?th"
    using assms(3,4) by (intro block_ok_cong [OF waits_ok_block [OF w assms(2)]]) simp_all
  then have "waits_ok (mutex_st e) (condition_variables e) ((threads e)[t := ?th])"
    using assms(3) by (intro waits_ok_thread [OF w]) (simp_all add: in_cond_def)
  with assms(1) show ?thesis by (simp add: sync_inv_def set_blocked_def)
qed

lemma inv_block:
  assumes "sync_inv e" and "t < length (threads e)"
  shows "well_suspended (blocked_by (threads e ! t))"
    and "\<And>m. base_block (blocked_by (threads e ! t)) = Block_Mutex m \<Longrightarrow> mutexes (mutex_st e) m \<noteq> None"
    and "\<And>j p. base_block (blocked_by (threads e ! t)) = Joining j p \<Longrightarrow> j < length (threads e)"
    and "\<And>x. base_block (blocked_by (threads e ! t)) \<noteq> WaitingForDebugger x"
  using assms waits_ok_block [of "mutex_st e" "condition_variables e" "threads e" t]
  by (auto simp: sync_inv_def block_ok_def split: thread_block.splits)

lemma well_suspended_base: "well_suspended b \<Longrightarrow> base_block b = NotBlocked \<Longrightarrow> \<not> (\<exists>n c. b = Suspended n c) \<Longrightarrow> b = NotBlocked"
  by (cases b) auto

lemma not_suspended_base: "\<not> (\<exists>n c. b = Suspended n c) \<Longrightarrow> base_block b = b"
  by (cases b) auto

lemma suspend_thread_eq:
  assumes "thread_at t e = Some th" and "\<not> (\<exists>n b. blocked_by th = Suspended n b)"
  shows "suspend_thread t e = (if t = current_thread e
    then map_option (Pair Yielded) (yield_thread (Suspended 1 (blocked_by th)) After_return (set_blocked t NotBlocked e))
    else Some (Return (), set_blocked t (Suspended 1 (blocked_by th)) (set_blocked t NotBlocked e)))"
  using assms by (cases "blocked_by th") (simp_all add: suspend_thread_def Let_def)

lemma suspend_inv:
  assumes "suspend_thread t e = Some (r, e')" and inv: "sync_inv e" and run: "running e"
  shows "sync_inv e'"
proof -
  from assms(1) have t: "t < length (threads e)"
    by (auto simp: suspend_thread_def thread_at_Some bind_eq_Some_conv)
  let ?b = "blocked_by (threads e ! t)"
  note ws = inv_block(1) [OF inv t]
  show ?thesis
  proof (cases "\<exists>n b. ?b = Suspended n b")
    case True
    then obtain n b where b: "?b = Suspended n b" by blast
    with assms(1) t have "e' = set_blocked t (Suspended (n + 1) b) e"
      by (simp add: suspend_thread_def thread_at_def)
    moreover have "sync_inv (set_blocked t (Suspended (n + 1) b) e)"
      using b ws by (intro set_blocked_inv [OF inv t]) simp_all
    ultimately show ?thesis by simp
  next
    case False
    let ?e = "set_blocked t NotBlocked e"
    from False assms(1) t have s: "(if t = current_thread e
        then map_option (Pair Yielded) (yield_thread (Suspended 1 ?b) After_return ?e)
        else Some (Return (), set_blocked t (Suspended 1 ?b) ?e)) = Some (r, e')"
      using suspend_thread_eq [of t e "threads e ! t"] by (simp add: thread_at_def)
    show ?thesis
    proof (cases "t = current_thread e")
      case False
      have "sync_inv (set_blocked t (Suspended 1 ?b) e)"
        using ws \<open>\<nexists>n b. ?b = Suspended n b\<close> by (intro set_blocked_inv [OF inv t]) auto
      moreover have "set_blocked t (Suspended 1 ?b) ?e = set_blocked t (Suspended 1 ?b) e"
        using t by (simp add: set_blocked_def)
      ultimately show ?thesis using s False by auto
    next
      case True
      then have nb: "?b = NotBlocked" using running_block [OF run] by simp
      then have "?e = e" by (simp add: set_blocked_def same_blocked)
      with s True nb have y: "yield_thread (Suspended 1 NotBlocked) After_return e = Some e'" by auto
      show ?thesis by (rule yield_inv [OF inv run y]) (simp_all add: block_ok_def in_cond_def)
    qed
  qed
qed

lemma resume_inv:
  assumes "resume_thread t e = Some e'" and inv: "sync_inv e"
  shows "sync_inv e'"
proof -
  from assms(1) have t: "t < length (threads e)"
    by (auto simp: resume_thread_def thread_at_Some bind_eq_Some_conv)
  let ?b = "blocked_by (threads e ! t)"
  note ws = inv_block(1) [OF inv t]
  have "\<exists>b. e' = set_blocked t b e \<and> base_block b = base_block ?b \<and> well_suspended b"
  proof (cases "\<exists>n b. ?b = Suspended n b")
    case True
    then obtain n b where "?b = Suspended n b" by blast
    with assms(1) t ws show ?thesis
      by (auto simp: resume_thread_def thread_at_def panic_simps split: if_splits)
  next
    case False
    with assms(1) t have "e' = set_blocked t ?b e" by (cases ?b) (simp_all add: resume_thread_def thread_at_def)
    with ws show ?thesis by blast
  qed
  then show ?thesis using set_blocked_inv [OF inv t] by blast
qed

lemma new_thread_inv:
  assumes "new_thread rt d sz e = Some (r, e')" and inv: "sync_inv e"
  shows "sync_inv e'"
proof -
  from assms(1) obtain th w where e': "e' = e\<lparr>env_mem := w, threads := threads e @ [th]\<rparr>"
    and th: "blocked_by th = NotBlocked"
    by (auto simp: new_thread_def bind_eq_Some_conv panic_simps Let_def split: if_splits)
  let ?n = "length (threads e)"
  have w: "waits_ok (mutex_st e) (condition_variables e) (threads e)" using inv by (simp add: sync_inv_def)
  have "cond_ok (threads e @ [th]) c obj" if "condition_variables e c = Some obj" for c obj
    using cond_object_ok [OF inv that] by (auto simp: cond_ok_def nth_append)
  moreover have "block_ok (mutex_st e) (condition_variables e) (Suc ?n) t ((threads e @ [th]) ! t)" if "t < Suc ?n" for t
  proof (cases "t < ?n")
    case True
    from waits_ok_block [OF w True] show ?thesis using True
      by (auto simp: block_ok_def nth_append split: thread_block.splits)
  next
    case False
    with that th show ?thesis by (simp add: block_ok_def nth_append)
  qed
  ultimately have "waits_ok (mutex_st e) (condition_variables e) (threads e @ [th])"
    by (simp add: waits_ok_def blocks_ok_def conds_ok_def)
  with inv show ?thesis by (simp add: e' sync_inv_def)
qed

lemma finish_inv:
  assumes "finish_thread rv e = Some e'" and inv: "sync_inv e"
  shows "sync_inv e'"
proof -
  let ?t = "current_thread e"
  from assms(1) obtain w where
    e': "e' = e\<lparr>threads := (threads e)[?t := (threads e ! ?t)\<lparr>return_value := Some rv, active := False, stack := None\<rparr>],
          env_mem := w\<rparr>" and t: "?t < length (threads e)"
    by (auto simp: finish_thread_def bind_eq_Some_conv thread_at_Some Let_def)
  let ?th = "(threads e ! ?t)\<lparr>return_value := Some rv, active := False, stack := None\<rparr>"
  have w: "waits_ok (mutex_st e) (condition_variables e) (threads e)" using inv by (simp add: sync_inv_def)
  have "block_ok (mutex_st e) (condition_variables e) (length (threads e)) ?t ?th"
    using inv_block(1) [OF inv t] by (intro block_ok_cong [OF waits_ok_block [OF w t]]) simp_all
  then have "waits_ok (mutex_st e) (condition_variables e) ((threads e)[?t := ?th])"
    by (intro waits_ok_thread [OF w]) (simp_all add: in_cond_def)
  with inv show ?thesis by (simp add: e' sync_inv_def)
qed

lemma sync_inv_call:
  assumes "sync_inv e" and "running e" and "call_guard c e" and "exec_call c e = Some e'"
  shows "sync_inv e'"
proof (cases c)
  case (Thread_join j p)
  with assms have "yield_thread (Joining j p) After_zero e = Some e'" "j < length (threads e)"
    by (simp_all add: join_with_thread_def)
  with assms(1,2) yield_inv [OF assms(1,2)] show ?thesis by simp
next
  case (Thread_sleep now d)
  with assms have "yield_thread (Sleeping (now + d)) After_return e = Some e'" by (simp add: sleep_def)
  with yield_inv [OF assms(1,2)] show ?thesis by simp
next
  case (Thread_sleep_guest now d)
  with assms have "yield_thread (GuestSleeping (now + d)) After_return e = Some e'" by (simp add: sleep_guest_def)
  with yield_inv [OF assms(1,2)] show ?thesis by simp
next
  case (Cond_timedwait cv m ts)
  with assms cond_timedwait_inv show ?thesis by (auto simp: pthread_cond_timedwait_def timed_context_def)
next
  case (Cond_wait cv m)
  with assms wait_on_cond_inv show ?thesis by (auto simp: pthread_cond_wait_def)
qed (use assms in \<open>auto dest: mutex_init_inv mutex_lock_inv mutex_trylock_inv mutex_unlock_inv mutex_destroy_inv
  rwlock_init_inv lock_inner_inv trylock_inner_inv rwlock_unlock_inv rwlock_destroy_inv cond_init_inv
  cond_relative_inv cond_signal_inv cond_broadcast_inv cond_destroy_inv sem_init_inv sem_destroy_inv sem_open_inv
  sem_post_inv sem_wait_inv sem_trywait_inv sem_close_inv sem_unlink_inv sem_getvalue_inv new_thread_inv
  finish_inv suspend_inv resume_inv\<close>)

subsection \<open>Continuing a suspended call\<close>

lemma continue_inv:
  assumes "continue_thread e = Some e'" and inv: "sync_inv e"
  shows "sync_inv e'"
proof -
  let ?t = "current_thread e" and ?ths = "threads e"
  let ?th = "(?ths ! ?t)\<lparr>host_context := None\<rparr>"
  let ?e = "e\<lparr>threads := ?ths[?t := ?th]\<rparr>"
  from assms(1) obtain k r where t: "?t < length ?ths" and nb: "blocked_by (?ths ! ?t) = NotBlocked"
    and k: "host_context (?ths ! ?t) = Some k" and c: "resume_cont k ?e = Some (r, e')"
    by (auto simp: continue_thread_def bind_eq_Some_conv thread_at_Some panic_simps split: if_splits)
  have w: "waits_ok (mutex_st e) (condition_variables e) ?ths" using inv by (simp add: sync_inv_def)
  have b: "block_ok (mutex_st e) cvs n ?t ?th" for cvs n using nb by (simp add: block_ok_def)
  have nq: "?t \<notin> set (queued obj)" if "condition_variables e d = Some obj" for d obj
    using waits_ok_queued [OF w that, of ?t] nb by (auto simp: in_cond_def)
  have timed: "sync_inv e1"
    if k': "\<And>d. d \<noteq> c \<Longrightarrow> \<not> timed_context d (Some k)" and s: "pthread_cond_timedwait_resumed c ?e = Some (q, e1)" for c q e1
  proof -
    from s obtain obj where o: "condition_variables e c = Some obj"
      by (auto simp: pthread_cond_timedwait_resumed_def bind_eq_Some_conv)
    let ?obj = "obj\<lparr>timed_out := timed_out obj - {?t}\<rparr>"
    have e1: "(e1 = ?e \<and> ?t \<notin> timed_out obj) \<or> e1 = set_cond c (Some ?obj) ?e"
      using s o by (auto simp: pthread_cond_timedwait_resumed_def split: if_splits)
    let ?cvs = "condition_variables e1"
    have cv: "?cvs d = condition_variables e d" if "d \<noteq> c" for d using e1 that by (auto simp: set_cond_def)
    have cc: "?cvs c = Some obj \<and> ?t \<notin> timed_out obj \<or> ?cvs c = Some ?obj" using e1 o by (auto simp: set_cond_def)
    have "waits_ok (mutex_st e) ?cvs (?ths[?t := ?th])"
    proof (rule waits_ok_update [OF w _ _ b])
      show "cond_moves ?t (condition_variables e d) (?cvs d)" for d
        using cond_moves_refl [OF w, of ?t d] cv [of d] cc o
        by (cases "d = c") (auto simp: cond_moves_def queued_def)
      show "?t < length ?ths \<and> in_cond d ?th" if "?cvs d = Some x" "?t \<in> set (queued x)" for d x
        using that cv [of d] cc nq [of d] nq [OF o] by (cases "d = c") (auto simp: queued_def)
      show "?t < length ?ths \<and> timed_context d (host_context ?th) \<and> (\<forall>c'. \<not> in_cond c' ?th)"
        if "?cvs d = Some x" "?t \<in> timed_out x" for d x
      proof (cases "d = c")
        case False
        with that cv [of d] waits_ok_timed_out [OF w, of d x ?t] k k' [of d] show ?thesis by simp
      qed (use that cc in auto)
    qed
    with inv e1 show ?thesis by (auto simp: sync_inv_def set_cond_def)
  qed
  have plain: "sync_inv ?e" if "\<And>d. \<not> timed_context d (Some k)"
  proof -
    have "waits_ok (mutex_st e) (condition_variables e) (?ths[?t := ?th])"
      using that k by (intro waits_ok_thread [OF w b]) (simp_all add: in_cond_def)
    with inv show ?thesis by (simp add: sync_inv_def)
  qed
  show ?thesis
  proof (cases k)
    case (After_cond_timedwait c)
    with timed c show ?thesis by (auto simp: timed_context_def)
  next
    case (After_cond_timedwait_relative c p)
    with c obtain q e1 m where "pthread_cond_timedwait_resumed c ?e = Some (q, e1)" "e' = e1\<lparr>env_mem := m\<rparr>"
      by (auto simp: pthread_cond_timedwait_relative_np_resumed_def bind_eq_Some_conv)
    with timed [of c q e1] After_cond_timedwait_relative show ?thesis by (auto simp: timed_context_def)
  next
    case (After_cond_wait c)
    then have "e' = ?e" using \<open>resume_cont k ?e = Some (r, e')\<close>
      by (auto simp: pthread_cond_wait_resumed_def bind_eq_Some_conv panic_simps split: if_splits)
    with plain After_cond_wait show ?thesis by (simp add: timed_context_def)
  qed (use c plain in \<open>simp_all add: timed_context_def\<close>)
qed

subsection \<open>The scheduler\<close>

lemma unblock_inv:
  assumes inv: "sync_inv e" and t: "t < length (threads e)" and "\<And>c. \<not> in_cond c (threads e ! t)"
  shows "sync_inv (set_blocked t NotBlocked e)"
proof -
  let ?th = "(threads e ! t)\<lparr>blocked_by := NotBlocked\<rparr>"
  have w: "waits_ok (mutex_st e) (condition_variables e) (threads e)" using inv by (simp add: sync_inv_def)
  have "waits_ok (mutex_st e) (condition_variables e) ((threads e)[t := ?th])"
    using assms(3) by (intro waits_ok_thread [OF w]) (simp_all add: block_ok_def in_cond_def)
  with inv show ?thesis by (simp add: sync_inv_def set_blocked_def)
qed

text \<open>A thread leaves the condition variable it is blocked on, for good or for the mutex.\<close>

lemma leave_cond_inv:
  assumes inv: "sync_inv e" and t: "t < length (threads e)"
    and b: "blocked_by (threads e ! t) = Block_Condition c d"
    and o: "condition_variables e c = Some obj" and ok: "b' = NotBlocked \<or> (\<exists>mid. b' = Block_Mutex mid \<and> mutexes (mutex_st e) mid \<noteq> None)"
    and d: "distinct (queued obj')" and q: "set (queued obj') = set (queued obj) - {t}"
    and tmo: "timed_out obj' = timed_out obj \<or> timed_out obj' = insert t (timed_out obj) \<and> d \<noteq> None"
    and cm: "curr_mutex obj' = curr_mutex obj"
  shows "sync_inv (set_blocked t b' (e\<lparr>condition_variables := (condition_variables e)(c \<mapsto> obj')\<rparr>))"
proof -
  let ?th = "(threads e ! t)\<lparr>blocked_by := b'\<rparr>" and ?cvs = "(condition_variables e)(c \<mapsto> obj')"
  have w: "waits_ok (mutex_st e) (condition_variables e) (threads e)" using inv by (simp add: sync_inv_def)
  have bo: "block_ok (mutex_st e) (condition_variables e) (length (threads e)) t (threads e ! t)"
    by (rule waits_ok_block [OF w t])
  have ic: "in_cond x (threads e ! t) \<longleftrightarrow> x = c" "\<not> in_cond x ?th" for x using b ok by (auto simp: in_cond_def)
  have "waits_ok (mutex_st e) ?cvs ((threads e)[t := ?th])"
  proof (rule waits_ok_update [OF w])
    show "cond_moves t (condition_variables e x) (?cvs x)" for x
      using cond_moves_refl [OF w, of t x] o d q tmo cm by (cases "x = c") (auto simp: cond_moves_def)
    show "block_ok (mutex_st e) ?cvs (length (threads e)) t ?th" using ok by (auto simp: block_ok_def)
    show "t < length (threads e) \<and> in_cond x ?th" if "?cvs x = Some y" "t \<in> set (queued y)" for x y
      using that q ic waits_ok_queued [OF w, of x y t] by (cases "x = c") auto
    show "t < length (threads e) \<and> timed_context x (host_context ?th) \<and> (\<forall>c'. \<not> in_cond c' ?th)"
      if "?cvs x = Some y" "t \<in> timed_out y" for x y
    proof (cases "x = c")
      case False
      with that waits_ok_timed_out [OF w, of x y t] ic show ?thesis by auto
    next
      case True
      have "t \<notin> timed_out obj" using waits_ok_timed_out [OF w o, of t] ic by blast
      with True that tmo have "d \<noteq> None" by auto
      with bo b have "timed_context c (host_context (threads e ! t))" by (simp add: block_ok_def)
      with True t ic show ?thesis by simp
    qed
  qed simp
  with inv show ?thesis by (simp add: sync_inv_def set_blocked_def)
qed

lemma distinct_dequeue:
  assumes "distinct (queued obj)"
  shows "waking obj = t # us \<Longrightarrow> distinct (queued (obj\<lparr>waking := us\<rparr>)) \<and> set (queued (obj\<lparr>waking := us\<rparr>)) = set (queued obj) - {t}"
    and "distinct (queued (obj\<lparr>timed_out := x, waking := filter (\<lambda>u. u \<noteq> t) (waking obj), waiting := filter (\<lambda>u. u \<noteq> t) (waiting obj)\<rparr>)) \<and>
      set (queued (obj\<lparr>timed_out := x, waking := filter (\<lambda>u. u \<noteq> t) (waking obj), waiting := filter (\<lambda>u. u \<noteq> t) (waiting obj)\<rparr>)) =
        set (queued obj) - {t}"
  using assms by (auto simp: queued_def)

lemma skipped_inv:
  assumes "skipped t e e'" and inv: "sync_inv e" and t: "t < length (threads e)"
  shows "sync_inv e'"
proof (cases "e' = e")
  case False
  with assms(1) obtain c d obj mid where b: "blocked_by (threads e ! t) = Block_Condition c (Some d)"
    and o: "condition_variables e c = Some obj" and m: "curr_mutex obj = Some mid"
    and e': "e' = set_blocked t (Block_Mutex mid) (e\<lparr>condition_variables := (condition_variables e)(c \<mapsto>
       obj\<lparr>timed_out := insert t (timed_out obj), waking := filter (\<lambda>u. u \<noteq> t) (waking obj),
         waiting := filter (\<lambda>u. u \<noteq> t) (waiting obj)\<rparr>)\<rparr>)"
    unfolding skipped_def times_out_def by blast
  have "distinct (queued obj)" using cond_object_ok [OF inv o] by (simp add: cond_ok_def)
  note dq = distinct_dequeue(2) [OF this]
  have "mutexes (mutex_st e) mid \<noteq> None"
    using inv t b o m waits_ok_block [of "mutex_st e" "condition_variables e" "threads e" t]
    by (auto simp: sync_inv_def block_ok_def)
  then show ?thesis unfolding e' using dq by (intro leave_cond_inv [OF inv t b o]) simp_all
qed (use inv in simp)

lemma relock_inv: "relock_for_thread t mid e = Some e' \<Longrightarrow> sync_inv e \<Longrightarrow> sync_inv e'"
  using relock_mono sync_inv_mutexes by metis

lemma taken_cond_inv:
  assumes s: "schedule_candidate ck t a e = Some (Inl u, e')" and inv: "sync_inv e" and t: "t < length (threads e)"
    and b: "blocked_by (threads e ! t) = Block_Condition c d" and act: "active (threads e ! t)"
  shows "sync_inv e'"
proof -
  from waits_ok_block [of "mutex_st e" "condition_variables e" "threads e" t] inv t b
  obtain obj mid where o: "condition_variables e c = Some obj" and m: "curr_mutex obj = Some mid"
    by (auto simp: sync_inv_def block_ok_def)
  have dist: "distinct (queued obj)" using cond_object_ok [OF inv o] by (simp add: cond_ok_def)
  show ?thesis
  proof (cases "(waking obj \<noteq> [] \<and> hd (waking obj) = t) \<and> \<not> mutex_is_locked (mutex_st e) mid")
    case True
    then obtain us where us: "waking obj = t # us" by (cases "waking obj") auto
    let ?e = "set_blocked t NotBlocked (e\<lparr>condition_variables := (condition_variables e)(c \<mapsto> obj\<lparr>waking := us\<rparr>)\<rparr>)"
    have r: "relock_for_thread t mid ?e = Some e'"
      using s True us b o m t act by (auto simp: schedule_candidate_def thread_at_def)
    have "sync_inv ?e" using distinct_dequeue(1) [OF dist us] by (intro leave_cond_inv [OF inv t b o]) simp_all
    then show ?thesis using r relock_inv by blast
  next
    case False
    then obtain d' where d: "d = Some d'" "d' \<le> system_now ck"
      using s b t act o m by (auto simp: schedule_candidate_def thread_at_def split: option.splits if_splits)
    let ?e = "set_blocked t NotBlocked (e\<lparr>condition_variables := (condition_variables e)(c \<mapsto>
                 obj\<lparr>timed_out := insert t (timed_out obj), waking := filter (\<lambda>u. u \<noteq> t) (waking obj),
                   waiting := filter (\<lambda>u. u \<noteq> t) (waiting obj)\<rparr>)\<rparr>)"
    have r: "relock_for_thread t mid ?e = Some e'"
      using s False b t o m d act
      by (auto simp: schedule_candidate_def thread_at_def panic_simps Let_def split: if_splits)
    have "sync_inv ?e" using distinct_dequeue(2) [OF dist] d by (intro leave_cond_inv [OF inv t b o]) simp_all
    then show ?thesis using r relock_inv by blast
  qed
qed

lemma taken_inv:
  assumes s: "schedule_candidate ck t a e = Some (Inl u, e')" and inv: "sync_inv e"
  shows "sync_inv e'"
proof -
  have t: "t < length (threads e)" and act: "active (threads e ! t)"
    using candidate_taken(1) [OF s] by (auto simp: runnable_def)
  show ?thesis
  proof (cases "\<exists>c d. blocked_by (threads e ! t) = Block_Condition c d")
    case True
    with taken_cond_inv [OF s inv t _ act] show ?thesis by blast
  next
    case False
    show ?thesis
    proof (cases "blocked_by (threads e ! t)")
      case NotBlocked
      with s t act inv show ?thesis by (simp add: schedule_candidate_def thread_at_def)
    next
      case (Block_Mutex mid)
      then have "relock_for_thread t mid (set_blocked t NotBlocked e) = Some e'"
        using s t act by (auto simp: schedule_candidate_def thread_at_def split: if_splits)
      moreover have "sync_inv (set_blocked t NotBlocked e)"
        by (rule unblock_inv [OF inv t]) (simp add: in_cond_def Block_Mutex)
      ultimately show ?thesis by (rule relock_inv)
    next
      case (Block_Semaphore sem)
      then obtain x where "e' = set_blocked t NotBlocked e \<or> (\<exists>r. e' = set_blocked t NotBlocked (set_sem r x e))"
        using s t act by (auto simp: schedule_candidate_def thread_at_def bind_eq_Some_conv split: if_splits option.splits)
      then show ?thesis using Block_Semaphore inv t
        by (auto intro!: unblock_inv set_sem_inv simp: in_cond_def)
    next
      case (Joining j p)
      then have "e' = set_blocked t NotBlocked e \<or> (\<exists>m. e' = set_blocked t NotBlocked (e\<lparr>env_mem := m\<rparr>))"
        using s t act by (auto simp: schedule_candidate_def thread_at_def bind_eq_Some_conv split: if_splits)
      then show ?thesis using Joining inv t by (auto intro!: unblock_inv simp: in_cond_def)
    next
      case (Block_Condition c d)
      with False show ?thesis by blast
    qed (use s t act inv in \<open>auto simp: schedule_candidate_def thread_at_def in_cond_def intro!: unblock_inv split: if_splits\<close>)
  qed
qed

lemma skips_inv:
  assumes "skips ck is e e'" and "sync_inv e" and "is \<noteq> [] \<longrightarrow> threads e \<noteq> []"
  shows "sync_inv e'"
  using assms
proof induction
  case (skips_one i e e1 "is" e')
  then have "offset_thread e i < length (threads e)" by (simp add: offset_thread_def)
  with skips_one.hyps(2) skips_one.prems(1) have "sync_inv e1" by (rule skipped_inv)
  moreover have "threads e1 \<noteq> []" using skips_one.prems skipped_frame(1) [OF skips_one.hyps(2)] by auto
  ultimately show ?case using skips_one.IH by simp
qed simp

lemma schedule_pass_inv:
  assumes "schedule_pass ck e = Some (r, e')" and inv: "sync_inv e"
  shows "sync_inv e'"
proof (cases r)
  case (Inr a)
  with assms(1) have "skips ck [0..<length (threads e)] e e'" by (simp add: schedule_pass_idle)
  then show ?thesis using inv by (rule skips_inv) simp
next
  case (Inl t)
  with assms(1) obtain i e1 a1 where i: "i < length (threads e)" "skips ck [0..<i] e e1"
    and c: "schedule_candidate (ck i) t a1 e1 = Some (Inl (), e')" using schedule_pass_split by blast
  have "sync_inv e1" by (rule skips_inv [OF i(2) inv]) (use i(1) in auto)
  then show ?thesis by (rule taken_inv [OF c])
qed

text \<open>Every step keeps the invariant.\<close>

lemma sync_inv_step: "step e e' \<Longrightarrow> sync_inv e \<Longrightarrow> sync_inv e'"
proof (induction rule: step.induct)
  case (step_guest e m)
  then show ?case by (simp only: sync_inv_other)
next
  case (step_call e c e')
  show ?case by (rule sync_inv_call [OF step_call(4,1,2,3)])
next
  case (step_preempt e e')
  show ?case by (rule yield_inv [OF step_preempt(3,1,2)]) simp_all
next
  case (step_switch ck e t e')
  from schedule_pass_inv [OF step_switch(1,2)] show ?case by (simp only: switch_thread_def sync_inv_other)
next
  case (step_idle ck e a e')
  show ?case by (rule schedule_pass_inv [OF step_idle(1,2)])
next
  case (step_continue e e')
  show ?case by (rule continue_inv [OF step_continue(1,2)])
qed

section \<open>The scheduler does not panic\<close>

text \<open>The places where joins leave their results can be written.\<close>

definition joins_writable :: "env \<Rightarrow> bool" where
  "joins_writable e = (\<forall>th\<in>set (threads e). \<forall>j p. blocked_by th = Joining j p \<longrightarrow> p \<noteq> 0 \<longrightarrow>
     (\<forall>v. write_u32 p v (env_mem e) \<noteq> None))"

lemma joins_writableD: "joins_writable e \<Longrightarrow> t < length (threads e) \<Longrightarrow> blocked_by (threads e ! t) = Joining j p \<Longrightarrow>
    p \<noteq> 0 \<Longrightarrow> \<exists>m. write_u32 p v (env_mem e) = Some m"
  unfolding joins_writable_def using nth_mem by fastforce

lemma relock_total:
  assumes "mutexes (mutex_st e) mid \<noteq> None" and "\<not> mutex_is_locked (mutex_st e) mid"
  shows "\<exists>e'. relock_for_thread t mid e = Some e'"
proof -
  obtain mx where mx: "mutexes (mutex_st e) mid = Some mx" using assms(1) by blast
  moreover from mx assms(2) have "locked mx = None"
    by (cases "locked mx") (simp_all add: mutex_is_locked_def)
  ultimately show ?thesis by (simp add: relock_for_thread_def relock_unblocked_mutex_def panic_simps Let_def)
qed

lemma candidate_total:
  assumes inv: "sync_inv e" and t: "t < length (threads e)" and j: "joins_writable e"
  shows "\<exists>r. schedule_candidate ck t a e = Some r"
proof (cases "active (threads e ! t)")
  case False
  with t show ?thesis by (simp add: schedule_candidate_def thread_at_def)
next
  case act: True
  have bo: "block_ok (mutex_st e) (condition_variables e) (length (threads e)) t (threads e ! t)"
    using inv t waits_ok_block by (simp add: sync_inv_def)
  show ?thesis
  proof (cases "blocked_by (threads e ! t)")
    case (Block_Mutex mid)
    with bo have "mutexes (mutex_st e) mid \<noteq> None" by (simp add: block_ok_def)
    with relock_total [of "set_blocked t NotBlocked e" mid t] Block_Mutex t act show ?thesis
      by (auto simp: schedule_candidate_def thread_at_def)
  next
    case (Block_Semaphore sem)
    show ?thesis
    proof (cases "open_semaphores e sem")
      case None
      with Block_Semaphore t act show ?thesis by (simp add: schedule_candidate_def thread_at_def)
    next
      case (Some r)
      then obtain obj where "semaphores e r = Some obj" using inv by (auto simp: sync_inv_def sems_ok_def)
      with Some Block_Semaphore t act show ?thesis by (simp add: schedule_candidate_def thread_at_def)
    qed
  next
    case (Joining k p)
    with bo have "k < length (threads e)" by (simp add: block_ok_def)
    moreover obtain m where "p \<noteq> 0 \<longrightarrow>
        write_u32 p (case return_value (threads e ! k) of Some rv \<Rightarrow> rv | None \<Rightarrow> 0) (env_mem e) = Some m"
      using joins_writableD [OF j t Joining] by blast
    ultimately show ?thesis using Joining t act
      by (cases "p = 0"; cases "active (threads e ! k)") (simp_all add: schedule_candidate_def thread_at_def)
  next
    case (Block_Condition c d)
    with bo obtain obj mid where o: "condition_variables e c = Some obj" "curr_mutex obj = Some mid"
      and m: "mutexes (mutex_st e) mid \<noteq> None" by (auto simp: block_ok_def)
    have "t \<notin> timed_out obj"
      using waits_ok_timed_out [of "mutex_st e" "condition_variables e" "threads e" c obj t] inv o Block_Condition
      by (auto simp: sync_inv_def in_cond_def)
    moreover have "\<exists>e'. relock_for_thread t mid e1 = Some e'"
      if "mutex_st e1 = mutex_st e" "\<not> mutex_is_locked (mutex_st e) mid" for e1
      using relock_total [of e1 mid t] m that by simp
    ultimately show ?thesis using o Block_Condition t act
      by (auto simp: schedule_candidate_def thread_at_def panic_simps Let_def split: option.splits)
  next
    case (Suspended n b)
    with bo t act show ?thesis by (simp add: schedule_candidate_def thread_at_def panic_simps block_ok_def)
  qed (use t act bo in \<open>simp_all add: schedule_candidate_def thread_at_def block_ok_def\<close>)
qed

lemma skipped_joins: "skipped t e e' \<Longrightarrow> joins_writable e \<Longrightarrow> joins_writable e'"
  by (auto simp: skipped_def times_out_def set_blocked_def joins_writable_def dest!: set_update_subset_insert [THEN subsetD])

lemma schedule_from_total:
  assumes "sync_inv e" and "joins_writable e" and "is \<noteq> [] \<longrightarrow> threads e \<noteq> []"
  shows "\<exists>r. schedule_from ck is a e = Some r"
  using assms
proof (induction "is" arbitrary: a e)
  case (Cons i "is")
  have t: "offset_thread e i < length (threads e)" using Cons.prems(3) by (simp add: offset_thread_def)
  from candidate_total [OF Cons.prems(1) t Cons.prems(2)]
  obtain q e1 where q: "schedule_candidate (ck i) (offset_thread e i) a e = Some (q, e1)" by fast
  show ?case
  proof (cases q)
    case (Inl u)
    with q show ?thesis by (simp add: schedule_from_Cons)
  next
    case (Inr a1)
    with q have sk: "skipped (offset_thread e i) e e1" using candidate_skipped(2) by blast
    have "threads e1 \<noteq> []" using Cons.prems(3) skipped_frame(1) [OF sk] by auto
    then show ?thesis using q Inr Cons.IH skipped_inv [OF sk Cons.prems(1) t] skipped_joins [OF sk Cons.prems(2)]
      by (simp add: schedule_from_Cons)
  qed
qed simp

lemma schedule_pass_total:
  "sync_inv e \<Longrightarrow> joins_writable e \<Longrightarrow> \<exists>r e'. schedule_pass ck e = Some (r, e')"
  using schedule_from_total [of e "[0..<length (threads e)]" ck None] by (auto simp: schedule_pass_def)

text \<open>A pass that finds only waiting threads knows when the first sleeper wakes up.\<close>

lemma candidate_awake:
  assumes "schedule_candidate ck t a e = Some (Inr a', e')"
  shows "a \<noteq> None \<Longrightarrow> a' \<noteq> None"
    and "active (threads e ! t) \<Longrightarrow> blocked_by (threads e ! t) = Sleeping w \<Longrightarrow> a' \<noteq> None"
  using assms
  by (auto simp: schedule_candidate_def thread_at_Some bind_eq_Some_conv earlier_def panic_simps Let_def
      split: if_splits thread_block.splits option.splits)

lemma schedule_from_awake:
  assumes "schedule_from ck is a e = Some (Inr a', e')"
    and "a \<noteq> None \<or> (\<exists>i\<in>set is. active (threads e ! offset_thread e i) \<and> blocked_by (threads e ! offset_thread e i) = Sleeping w)"
    and "distinct is" and "set is \<subseteq> {..<length (threads e)}"
  shows "a' \<noteq> None"
  using assms
proof (induction "is" arbitrary: a e)
  case (Cons i "is")
  from Cons.prems(1) obtain a1 e1 where q: "schedule_candidate (ck i) (offset_thread e i) a e = Some (Inr a1, e1)"
    and rest: "schedule_from ck is a1 e1 = Some (Inr a', e')"
  proof -
    from Cons.prems(1) obtain q e1 where q: "schedule_candidate (ck i) (offset_thread e i) a e = Some (q, e1)"
      by (auto simp: schedule_from_Cons bind_eq_Some_conv)
    with Cons.prems(1) that show thesis by (cases q) (auto simp: schedule_from_Cons)
  qed
  note sk = candidate_skipped(2) [OF q]
  have off: "offset_thread e1 k = offset_thread e k" for k by (rule offset_frame) (simp_all add: skipped_frame [OF sk])
  have "a1 \<noteq> None \<or> (\<exists>k\<in>set is. active (threads e1 ! offset_thread e1 k) \<and> blocked_by (threads e1 ! offset_thread e1 k) = Sleeping w)"
  proof (cases "a \<noteq> None \<or> active (threads e ! offset_thread e i) \<and> blocked_by (threads e ! offset_thread e i) = Sleeping w")
    case True
    with candidate_awake [OF q] show ?thesis by blast
  next
    case False
    with Cons.prems(2) obtain k where k: "k \<in> set is" "active (threads e ! offset_thread e k)"
      "blocked_by (threads e ! offset_thread e k) = Sleeping w" by auto
    with Cons.prems(3,4) offset_inj [of k e i] have "offset_thread e k \<noteq> offset_thread e i" by auto
    from skipped_frame(7) [OF sk this] k off show ?thesis by (intro disjI2 bexI [of _ k]) simp_all
  qed
  with Cons.IH [OF rest] Cons.prems(3,4) skipped_frame(1) [OF sk] show ?case by simp
qed simp

lemma pass_idle_awake:
  assumes "schedule_pass ck e = Some (Inr a, e')" and "u < length (threads e)"
    and "active (threads e ! u)" and "blocked_by (threads e ! u) = Sleeping w"
  shows "a \<noteq> None" and "active (threads e' ! u) \<and> blocked_by (threads e' ! u) = Sleeping w"
proof -
  obtain i where i: "i < length (threads e)" "offset_thread e i = u" using offset_surj [OF assms(2)] .
  have "set [0..<length (threads e)] \<subseteq> {..<length (threads e)}" by auto
  moreover have "\<exists>i\<in>set [0..<length (threads e)]. active (threads e ! offset_thread e i) \<and>
      blocked_by (threads e ! offset_thread e i) = Sleeping w"
    using i assms(3,4) by (intro bexI [of _ i]) simp_all
  ultimately show "a \<noteq> None"
    using schedule_from_awake [OF assms(1) [unfolded schedule_pass_def], of w] by simp
  have "skips ck is e e' \<Longrightarrow> active (threads e ! u) \<Longrightarrow> blocked_by (threads e ! u) = Sleeping w \<Longrightarrow>
      active (threads e' ! u) \<and> blocked_by (threads e' ! u) = Sleeping w" for "is" e e'
  proof (induction rule: skips.induct)
    case (skips_one i e e1 "is" e')
    have "threads e1 ! u = threads e ! u"
      using skips_one.hyps(2) skips_one.prems by (cases "offset_thread e i = u") (auto simp: skipped_def times_out_def set_blocked_def)
    with skips_one show ?case by simp
  qed simp
  with schedule_pass_idle [OF assms(1)] assms(3,4)
  show "active (threads e' ! u) \<and> blocked_by (threads e' ! u) = Sleeping w" by blast
qed

lemma skips_joins: "skips ck is e e' \<Longrightarrow> joins_writable e \<Longrightarrow> joins_writable e'"
  by (induction rule: skips.induct) (simp_all add: skipped_joins)

lemma schedule_next_returns:
  assumes "sync_inv e" and "joins_writable e" and "u < length (threads e)" and "active (threads e ! u)"
    and "blocked_by (threads e ! u) = Sleeping w" and "\<And>i. w \<le> instant_now (cks k i)" and "k < fuel"
  shows "\<exists>t g e'. schedule_next_thread fuel cks grace e = Some (Inl t, g, e')"
  using assms
proof (induction fuel arbitrary: cks e k)
  case (Suc fuel)
  obtain r e1 where p: "schedule_pass (cks 0) e = Some (r, e1)"
    using schedule_pass_total [OF Suc.prems(1,2)] by blast
  show ?case
  proof (cases r)
    case (Inl t)
    with p show ?thesis by simp
  next
    case (Inr a)
    note idle = p [unfolded Inr]
    obtain v where a: "a = Some v" using pass_idle_awake(1) [OF idle Suc.prems(3-5)] by blast
    have k: "k \<noteq> 0"
    proof
      assume "k = 0"
      obtain i where i: "i < length (threads e)" "offset_thread e i = u" using offset_surj [OF Suc.prems(3)] .
      have "runnable (cks 0 i) u e" using Suc.prems(3-6) \<open>k = 0\<close> by (simp add: runnable_def may_run_def)
      with pass_progress [OF idle i(1)] i(2) show False by auto
    qed
    then obtain k' where k': "k = Suc k'" by (cases k) auto
    note sk = schedule_pass_idle [OF idle]
    have "sync_inv e1" by (rule schedule_pass_inv [OF idle Suc.prems(1)])
    moreover have "joins_writable e1" using skips_joins [OF sk Suc.prems(2)] .
    moreover have "u < length (threads e1)" using skips_frame [OF sk] Suc.prems(3) by simp
    ultimately have "\<exists>t g e'. schedule_next_thread fuel (\<lambda>j. cks (Suc j)) grace e1 = Some (Inl t, g, e')"
      using pass_idle_awake(2) [OF idle Suc.prems(3-5)] Suc.prems(6,7) k' by (intro Suc.IH [of e1 _ k']) auto
    with p Inr a show ?thesis by simp
  qed
qed simp

end
