(* ===== verification/SyncProps.thy ===== *)
theory SyncProps
  imports Sync CString
begin

text \<open>
  Properties of threads and synchronisation: the scheduler never panics in a reachable state and wakes
  sleepers, semaphores hand out no more permits than they have, condition variables wake in order, and
  the cases in which destroying or waiting does not do what its documentation says.
\<close>

section \<open>Reachable states\<close>

definition main_thread :: thread where
  "main_thread = \<lparr>active = True, blocked_by = NotBlocked, return_value = None, host_context = None, stack = None\<rparr>"

definition initial_env :: "mem \<Rightarrow> env" where
  "initial_env m = \<lparr>env_mem = m, mutex_st = mutex_state_default, semaphores = Map.empty, semaphore_next = 0,
     named_semaphores = Map.empty, open_semaphores = Map.empty, condition_variables = Map.empty,
     threads = [main_thread], current_thread = 0, errnos = Map.empty\<rparr>"

lemma initial_inv: "sync_inv (initial_env m)"
  by (simp add: sync_inv_def initial_env_def waits_ok_def blocks_ok_def conds_ok_def sems_ok_def block_ok_def
      main_thread_def)

lemma reachable_inv: "step\<^sup>*\<^sup>* (initial_env m) e \<Longrightarrow> sync_inv e"
  by (induction rule: rtranclp_induct) (auto intro: initial_inv sync_inv_step)

lemma in_condD:
  assumes "sync_inv e" and "t < length (threads e)" and "base_block (blocked_by (threads e ! t)) = Block_Condition c d"
  shows "\<exists>obj. condition_variables e c = Some obj \<and> distinct (waiting obj @ waking obj) \<and> t \<in> set (waiting obj @ waking obj)"
proof -
  have "block_ok (mutex_st e) (condition_variables e) (length (threads e)) t (threads e ! t)"
    using assms(1,2) waits_ok_block by (simp add: sync_inv_def)
  then obtain obj where o: "condition_variables e c = Some obj" "t \<in> set (queued obj)"
    using assms(3) by (auto simp: block_ok_def)
  with cond_object_ok [OF assms(1)] show ?thesis by (auto simp: cond_ok_def queued_def)
qed

lemma never_panics:
  assumes "step\<^sup>*\<^sup>* (initial_env m) e"
  shows "joins_writable e \<Longrightarrow> \<exists>r e'. schedule_pass ck e = Some (r, e')"
    and "\<And>t c d. t < length (threads e) \<Longrightarrow> base_block (blocked_by (threads e ! t)) = Block_Condition c d \<Longrightarrow>
      \<exists>obj. condition_variables e c = Some obj \<and> distinct (waiting obj @ waking obj) \<and> t \<in> set (waiting obj @ waking obj)"
proof -
  note inv = reachable_inv [OF assms]
  show "joins_writable e \<Longrightarrow> \<exists>r e'. schedule_pass ck e = Some (r, e')" by (rule schedule_pass_total [OF inv])
  show "\<And>t c d. t < length (threads e) \<Longrightarrow> base_block (blocked_by (threads e ! t)) = Block_Condition c d \<Longrightarrow>
      \<exists>obj. condition_variables e c = Some obj \<and> distinct (waiting obj @ waking obj) \<and> t \<in> set (waiting obj @ waking obj)"
    by (rule in_condD [OF inv])
qed

text \<open>
  C2: The scheduler does not panic on a guest that keeps the rules.  The steps are calls on mutexes,
  read-write locks, condition variables, semaphores and threads with any arguments, any memory
  contents, preemption and timing, restricted by \<open>call_guard\<close>: no mutex or read-write lock is destroyed
  while a thread waits for it, no condition variable is initialised again (by a call or through the
  static initialiser) while threads use it, and joined threads exist; a call that itself panics is no
  step.  In every state that such steps reach from the start, if the places where joins store their
  results are writable (\<open>joins_writable\<close>), a scheduler pass returns a thread or finds nothing to run, but
  never panics; and a thread blocked on a condition variable, suspended or not, is in exactly one of its
  two queues.  Without the guard on destruction it can panic, as shown at the end of this theory.
\<close>
theorem scheduler_never_panics:
  assumes "step\<^sup>*\<^sup>* (initial_env m) e"
  shows "(joins_writable e \<longrightarrow> (\<exists>r e'. schedule_pass ck e = Some (r, e'))) \<and>
    (\<forall>t c d. t < length (threads e) \<and> base_block (blocked_by (threads e ! t)) = Block_Condition c d \<longrightarrow>
      (\<exists>obj. condition_variables e c = Some obj \<and> distinct (waiting obj @ waking obj) \<and>
        t \<in> set (waiting obj @ waking obj)))"
  using never_panics [OF assms] by blast

text \<open>Reading the beginning of what has been put into memory.\<close>

lemma read_poked:
  assumes "null_segment_size m \<le> p" and "unat k \<le> length xs" and "unat k \<le> 4096"
  shows "read_raw (m\<lparr>mem_bytes := poke (unat p) xs (mem_bytes m)\<rparr>) k p = Some (take (unat k) xs)"
proof -
  have "map (poke (unat p) xs (mem_bytes m)) [unat p..<unat p + unat k] = take (unat k) xs"
  proof (rule nth_equalityI)
    fix i assume "i < length (map (poke (unat p) xs (mem_bytes m)) [unat p..<unat p + unat k])"
    then have i: "i < unat k" by simp
    then have "poke (unat p) xs (mem_bytes m) (unat p + i) = xs ! i" using assms(2) by (intro poke_in) simp
    with i show "map (poke (unat p) xs (mem_bytes m)) [unat p..<unat p + unat k] ! i = take (unat k) xs ! i" by simp
  qed (use assms(2) in simp)
  then show ?thesis
    using read_raw_array [of "m\<lparr>mem_bytes := poke (unat p) xs (mem_bytes m)\<rparr>" p k] assms(1) BYTES_LEN_ge [OF assms(3), of p]
    by simp
qed

text \<open>A write leaves what lies elsewhere as it is.\<close>

lemma read_past_poke:
  assumes "null_segment_size m \<le> p" and "unat k \<le> 4096" and "unat p + unat k \<le> q \<or> q + length xs \<le> unat p"
  shows "read_raw (m\<lparr>mem_bytes := poke q xs (mem_bytes m)\<rparr>) k p = read_raw m k p"
proof -
  let ?m = "m\<lparr>mem_bytes := poke q xs (mem_bytes m)\<rparr>"
  note len = BYTES_LEN_ge [OF assms(2), of p]
  have "map (mem_bytes ?m) [unat p..<unat p + unat k] = map (mem_bytes m) [unat p..<unat p + unat k]"
    using assms(3) by (auto intro!: poke_out)
  then show ?thesis using read_raw_array [of ?m p k] read_raw_array [of m p k] assms(1) len by simp
qed

lemma le_bytes_ne: "0 < n \<Longrightarrow> le_bytes n v \<noteq> []"
  by (metis length_le_bytes list.size(3) less_irrefl)

lemma demo_null: "null_segment_size demo_mem \<le> 8192" by (simp add: demo_mem_def)

text \<open>
  A run of the main thread: it makes a mutex and a condition variable, locks the mutex and waits.
\<close>

definition mutex_mem :: mem where
  "mutex_mem = demo_mem\<lparr>mem_bytes := poke 8192 (le_bytes 4 MAGIC_MUTEX @ le_bytes 8 (0 :: u64)) (mem_bytes demo_mem)\<rparr>"

definition both_mem :: mem where
  "both_mem = mutex_mem\<lparr>mem_bytes := poke 12288 (le_bytes 4 MAGIC_COND @ replicate 24 0) (mem_bytes mutex_mem)\<rparr>"

definition lock_state :: "(thread_id \<times> u32) option \<Rightarrow> mutex_state" where
  "lock_state l = mutex_state_default\<lparr>mutexes := [0 \<mapsto> (new_mutex PTHREAD_MUTEX_DEFAULT)\<lparr>locked := l\<rparr>], mutex_count := 1\<rparr>"

definition made_env :: "(thread_id \<times> u32) option \<Rightarrow> env" where
  "made_env l = (initial_env both_mem)\<lparr>mutex_st := lock_state l, condition_variables := [12288 \<mapsto> new_cond_object]\<rparr>"

definition wait_env :: env where
  "wait_env = (made_env None)\<lparr>condition_variables := [12288 \<mapsto> new_cond_object\<lparr>curr_mutex := Some 0, waiting := [0]\<rparr>],
     threads := [main_thread\<lparr>blocked_by := Block_Condition 12288 None, host_context := Some (After_cond_wait 12288)\<rparr>]\<rparr>"

lemma mem_nulls: "null_segment_size mutex_mem = 4096" "null_segment_size both_mem = 4096"
  by (simp_all add: mutex_mem_def both_mem_def demo_mem_def)

lemma both_reads:
  "read_u32 both_mem 8192 = Some MAGIC_MUTEX" "read_lock_object both_mem 8192 = Some (MAGIC_MUTEX, 0)"
  "read_u32 both_mem 12288 = Some MAGIC_COND"
proof -
  let ?lk = "le_bytes 4 MAGIC_MUTEX @ le_bytes 8 (0 :: u64)"
  have past: "read_raw both_mem k 8192 = read_raw mutex_mem k 8192" if "unat k \<le> 12" for k
    unfolding both_mem_def using that by (intro read_past_poke) (simp_all add: mem_nulls)
  have rd: "read_raw mutex_mem k 8192 = Some (take (unat k) ?lk)" if "unat k \<le> 12" for k
    using read_poked [OF demo_null, of k ?lk] that by (simp add: mutex_mem_def)
  show "read_u32 both_mem 8192 = Some MAGIC_MUTEX" "read_lock_object both_mem 8192 = Some (MAGIC_MUTEX, 0)"
    by (simp_all add: read_u32_def read_lock_object_def past rd of_le_whole)
  have "null_segment_size mutex_mem \<le> 12288" by (simp add: mem_nulls)
  from read_poked [OF this, of 4 "le_bytes 4 MAGIC_COND @ replicate 24 0"]
  show "read_u32 both_mem 12288 = Some MAGIC_COND" by (simp add: read_u32_def both_mem_def of_le_whole)
qed

lemma mutex_made: "exec_call (Mutex_init 8192 0) (initial_env demo_mem) =
  Some ((initial_env mutex_mem)\<lparr>mutex_st := lock_state None\<rparr>)"
proof -
  let ?lk = "le_bytes 4 MAGIC_MUTEX @ le_bytes 8 (0 :: u64)"
  have "write_lock_object 8192 (MAGIC_MUTEX, 0) demo_mem = Some mutex_mem"
    using write_raw_array [of demo_mem 8192 ?lk] BYTES_LEN_ge [of 12 8192]
    by (simp add: write_lock_object_def mutex_mem_def demo_mem_def le_bytes_ne)
  then show ?thesis
    by (simp add: pthread_mutex_init_def create_lock_def initial_env_def with_mem_def init_mutex_def lock_state_def
        mutex_state_default_def new_mutex_def set_mutex_def)
qed

lemma cond_made: "exec_call (Cond_init 12288 0) ((initial_env mutex_mem)\<lparr>mutex_st := lock_state None\<rparr>) = Some (made_env None)"
proof -
  let ?c = "le_bytes 4 MAGIC_COND @ replicate 24 0"
  have "write_cond 12288 MAGIC_COND mutex_mem = Some both_mem"
    using write_raw_array [of mutex_mem 12288 ?c] BYTES_LEN_ge [of 28 12288]
    by (simp add: write_cond_def both_mem_def mem_nulls le_bytes_ne)
  then show ?thesis
    by (simp add: pthread_cond_init_def initial_env_def set_cond_def made_env_def fun_upd_def)
qed

lemma mutex_taken: "exec_call (Mutex_lock 8192) (made_env None) = Some (made_env (Some (0, 1)))"
  by (simp add: pthread_mutex_lock_def check_or_register_mutex_def made_env_def initial_env_def both_reads
      MAGIC_MUTEX_def MAGIC_MUTEX_STATIC_def env_lock_mutex_def lock_mutex_def lock_state_def mutex_state_default_def
      set_mutex_def new_mutex_def)

lemma cond_waits: "exec_call (Cond_wait 12288 8192) (made_env (Some (0, 1))) = Some wait_env"
  by (simp add: pthread_cond_wait_def wait_on_cond_def check_or_register_cond_def pthread_mutex_unlock_def
      check_or_register_mutex_def made_env_def initial_env_def both_reads MAGIC_COND_def MAGIC_COND_STATIC_def
      MAGIC_MUTEX_def MAGIC_MUTEX_STATIC_def env_unlock_mutex_def unlock_mutex_def lock_state_def
      mutex_state_default_def set_mutex_def new_mutex_def new_cond_object_def set_cond_def yield_thread_def
      thread_at_def main_thread_def is_blocked_def wait_env_def)

lemma made_running: "running ((initial_env m)\<lparr>mutex_st := s, condition_variables := v\<rparr>)" "running (initial_env m)"
  "running ((initial_env m)\<lparr>mutex_st := s\<rparr>)" "running (made_env l)"
  by (simp_all add: running_def thread_at_def initial_env_def main_thread_def made_env_def)

lemma wait_run: "step\<^sup>*\<^sup>* (initial_env demo_mem) wait_env"
proof -
  have "step (initial_env demo_mem) ((initial_env mutex_mem)\<lparr>mutex_st := lock_state None\<rparr>)"
    by (rule step_call [OF made_running(2) _ mutex_made]) simp
  moreover have "step ((initial_env mutex_mem)\<lparr>mutex_st := lock_state None\<rparr>) (made_env None)"
    by (rule step_call [OF made_running(3) _ cond_made]) (simp add: cond_unused_def initial_env_def)
  moreover have "step (made_env None) (made_env (Some (0, 1)))"
    by (rule step_call [OF made_running(4) _ mutex_taken]) simp
  moreover have "step (made_env (Some (0, 1))) wait_env"
    by (rule step_call [OF made_running(4) _ cond_waits])
      (simp add: cond_guard_def made_env_def initial_env_def both_reads MAGIC_COND_def MAGIC_COND_STATIC_def)
  ultimately show ?thesis by (meson converse_rtranclp_into_rtranclp rtranclp.rtrancl_refl)
qed

definition some_clocks :: "nat \<Rightarrow> clocks" where
  "some_clocks i = \<lparr>instant_now = i, guest_now = 0, host_deadline = id, system_now = 0\<rparr>"

theorem scheduler_never_panics_witness:
  "step\<^sup>*\<^sup>* (initial_env demo_mem) wait_env \<and> blocked_by (threads wait_env ! 0) = Block_Condition 12288 None \<and>
   (\<exists>r e'. schedule_pass some_clocks wait_env = Some (r, e')) \<and>
   (\<exists>obj. condition_variables wait_env 12288 = Some obj \<and> distinct (waiting obj @ waking obj) \<and>
     0 \<in> set (waiting obj @ waking obj))"
proof -
  have b: "blocked_by (threads wait_env ! 0) = Block_Condition 12288 None" "0 < length (threads wait_env)"
    by (simp_all add: wait_env_def)
  have j: "joins_writable wait_env" by (simp add: joins_writable_def wait_env_def)
  note ok = scheduler_never_panics [OF wait_run, of some_clocks]
  from ok j have "\<exists>r e'. schedule_pass some_clocks wait_env = Some (r, e')" by blast
  moreover have "base_block (blocked_by (threads wait_env ! 0)) = Block_Condition 12288 None" using b by simp
  with ok b(2) have "\<exists>obj. condition_variables wait_env 12288 = Some obj \<and> distinct (waiting obj @ waking obj) \<and>
     0 \<in> set (waiting obj @ waking obj)" by blast
  ultimately show ?thesis using wait_run b(1) by blast
qed

text \<open>
  C34: The scheduler returns.  In a consistent state (\<open>sync_inv\<close>) in which the places where joins store
  their results are writable, if some active thread sleeps until \<open>w\<close> and the clock has reached \<open>w\<close> in
  pass \<open>k\<close>, then \<open>k + 1\<close> passes are enough: the scheduler returns a thread, without the panic that
  reports a deadlock, whatever the grace counter and whatever the other threads wait for.
\<close>
theorem scheduler_returns:
  assumes "sync_inv e" and "joins_writable e" and "u < length (threads e)" and "active (threads e ! u)"
    and "blocked_by (threads e ! u) = Sleeping w" and "\<And>i. w \<le> instant_now (cks k i)" and "k < fuel"
  shows "\<exists>t g e'. schedule_next_thread fuel cks grace e = Some (Inl t, g, e')"
  using assms by (rule schedule_next_returns)

definition sleeping_env :: "mem \<Rightarrow> env" where
  "sleeping_env m = (initial_env m)\<lparr>threads := [main_thread\<lparr>blocked_by := Sleeping 7, host_context := Some After_return\<rparr>]\<rparr>"

lemma sleeping_inv: "sync_inv (sleeping_env m)" "joins_writable (sleeping_env m)"
  by (simp_all add: sync_inv_def sleeping_env_def initial_env_def waits_ok_def blocks_ok_def conds_ok_def sems_ok_def
      block_ok_def main_thread_def joins_writable_def)

theorem scheduler_returns_witness:
  "\<exists>t g e'. schedule_next_thread 10 (\<lambda>k _. \<lparr>instant_now = k, guest_now = 0, host_deadline = id, system_now = 0\<rparr>)
     0 (sleeping_env demo_mem) = Some (Inl t, g, e')"
  by (rule scheduler_returns [OF sleeping_inv, where u = 0 and w = 7 and k = 7])
    (simp_all add: sleeping_env_def main_thread_def)

section \<open>Semaphores\<close>

lemma sint_minus_one: "0 < sint (v :: i32) \<Longrightarrow> sint (v - 1) = sint v - 1"
  using sint_greater_eq [of v] sint_less [of v] by (simp add: sint_word_ariths signed_take_bit_int_eq_self)

lemma sint_plus_one: "sint (v :: i32) < 2 ^ 31 - 1 \<Longrightarrow> sint (v + 1) = sint v + 1"
  using sint_greater_eq [of v] sint_less [of v] by (simp add: sint_word_ariths signed_take_bit_int_eq_self)

text \<open>
  A run of posts, waits of both kinds and scheduler passes, counting the posts and the permits handed
  out: by a wait that returns 0 at once or by the scheduler to a thread that was blocked on the
  semaphore.
\<close>

inductive sem_run :: "vaddr \<Rightarrow> env \<Rightarrow> nat \<Rightarrow> nat \<Rightarrow> env \<Rightarrow> bool" for sem e0 where
  run_start: "sem_run sem e0 0 0 e0"
| run_post: "sem_run sem e0 p a e \<Longrightarrow> sem_post sem e = Some (0, e') \<Longrightarrow> sem_run sem e0 (Suc p) a e'"
| run_trywait: "sem_run sem e0 p a e \<Longrightarrow> sem_trywait sem e = Some (0, e') \<Longrightarrow> sem_run sem e0 p (Suc a) e'"
| run_trywait_fails: "sem_run sem e0 p a e \<Longrightarrow> sem_trywait sem e = Some (- 1, e') \<Longrightarrow> sem_run sem e0 p a e'"
| run_wait: "sem_run sem e0 p a e \<Longrightarrow> sem_wait sem e = Some (Return 0, e') \<Longrightarrow> sem_run sem e0 p (Suc a) e'"
| run_wait_blocks: "sem_run sem e0 p a e \<Longrightarrow> sem_wait sem e = Some (Yielded, e') \<Longrightarrow> sem_run sem e0 p a e'"
| run_schedule: "sem_run sem e0 p a e \<Longrightarrow> schedule_pass ck e = Some (Inl t, e') \<Longrightarrow>
    \<forall>s. blocked_by (threads e ! t) = Block_Semaphore s \<longrightarrow> s = sem \<Longrightarrow>
    sem_run sem e0 p (if blocked_by (threads e ! t) = Block_Semaphore sem then Suc a else a) (switch_thread t e')"

definition permits :: "vaddr \<Rightarrow> env \<Rightarrow> int option" where
  "permits sem e = map_option (\<lambda>(r, obj). sint (sem_value obj)) (sem_at sem e)"

lemma sem_at_cong: "semaphores e' = semaphores e \<Longrightarrow> open_semaphores e' = open_semaphores e \<Longrightarrow> sem_at s e' = sem_at s e"
  by (simp add: sem_at_def)

lemma permits_cong: "same_threads e e' \<Longrightarrow> permits s e' = permits s e"
  by (simp add: permits_def sem_at_def same_threads_def)

lemma permits_set_errno: "set_errno v e = Some e' \<Longrightarrow> permits s e' = permits s e"
  using set_errno_inv(1) permits_cong by blast

lemma permits_Some:
  "permits s e = Some v \<longleftrightarrow> (\<exists>r obj. open_semaphores e s = Some r \<and> semaphores e r = Some obj \<and> sint (sem_value obj) = v)"
  by (auto simp: permits_def sem_at_def bind_eq_Some_conv)

lemma yield_sems:
  "yield_thread b k e = Some e' \<Longrightarrow> semaphores e' = semaphores e \<and> open_semaphores e' = open_semaphores e"
  by (auto simp: yield_thread_def bind_eq_Some_conv panic_simps split: if_splits)

lemma decrement_permits:
  assumes "sem_decrement s w e = Some (r, e')" and "permits s e = Some v" and "0 \<le> v"
  shows "r = Return True \<Longrightarrow> 0 < v \<and> permits s e' = Some (v - 1)"
    and "r \<noteq> Return True \<Longrightarrow> permits s e' = Some v"
proof -
  from assms(2) obtain k obj where o: "open_semaphores e s = Some k" "semaphores e k = Some obj" "sint (sem_value obj) = v"
    by (auto simp: permits_Some)
  have "(r = Return True \<longrightarrow> 0 < v \<and> permits s e' = Some (v - 1)) \<and> (r \<noteq> Return True \<longrightarrow> permits s e' = Some v)"
  proof (cases "0 <s sem_value obj")
    case True
    with assms(1) o have "r = Return True" "e' = set_sem k (obj\<lparr>sem_value := sem_value obj - 1\<rparr>) e" "0 < v"
      by (auto simp: sem_decrement_def word_sless_alt)
    with o show ?thesis by (auto simp: permits_Some sint_minus_one)
  next
    case False
    show ?thesis
    proof (cases w)
      case False
      with assms(1,2) o \<open>\<not> 0 <s sem_value obj\<close> show ?thesis by (auto simp: sem_decrement_def)
    next
      case True
      let ?e = "set_sem k (obj\<lparr>sem_waiting := insert (current_thread e) (sem_waiting obj)\<rparr>) e"
      from True assms(1) o False have "r = Yielded" "yield_thread (Block_Semaphore s) After_zero ?e = Some e'"
        by (auto simp: sem_decrement_def)
      with yield_sems [of _ _ ?e e'] o show ?thesis by (auto simp: permits_Some)
    qed
  qed
  then show "r = Return True \<Longrightarrow> 0 < v \<and> permits s e' = Some (v - 1)" "r \<noteq> Return True \<Longrightarrow> permits s e' = Some v"
    by blast+
qed

lemma increment_permits:
  "sem_increment s e = Some (r, e') \<Longrightarrow> permits s e = Some v \<Longrightarrow> v < 2 ^ 31 - 1 \<Longrightarrow> r \<and> permits s e' = Some (v + 1)"
  by (auto simp: sem_increment_def permits_Some sint_plus_one)

lemma post_permits:
  assumes "sem_post s e = Some (0, e')" and "permits s e = Some v" and "v < 2 ^ 31 - 1"
  shows "permits s e' = Some (v + 1)"
proof -
  from assms(1) obtain e1 r e2 where e1: "set_errno 0 e = Some e1" and i: "sem_increment s e1 = Some (r, e2)"
    by (auto simp: sem_post_def bind_eq_Some_conv)
  with increment_permits [OF i] permits_set_errno [OF e1] assms show ?thesis by (auto simp: sem_post_def)
qed

lemma fail_with_result: "fail_with err r e = Some (q, e') \<Longrightarrow> q = r \<and> permits s e' = permits s e"
  using permits_set_errno by (auto simp: fail_with_def)

lemma trywait_permits:
  assumes "sem_trywait s e = Some (r, e')" and "permits s e = Some v" and "0 \<le> v"
  shows "r = 0 \<Longrightarrow> 0 < v \<and> permits s e' = Some (v - 1)" and "r = - 1 \<Longrightarrow> permits s e' = Some v"
proof -
  from assms(1) obtain e1 q e2 where e1: "set_errno 0 e = Some e1" and i: "sem_decrement s False e1 = Some (q, e2)"
    by (auto simp: sem_trywait_def bind_eq_Some_conv)
  have v1: "permits s e1 = Some v" using permits_set_errno [OF e1] assms(2) by simp
  note d = decrement_permits [OF i v1 assms(3)]
  have "(r = 0 \<longrightarrow> 0 < v \<and> permits s e' = Some (v - 1)) \<and> (r = - 1 \<longrightarrow> permits s e' = Some v)"
  proof (cases "q = Return True")
    case True
    with assms(1) e1 i d show ?thesis by (auto simp: sem_trywait_def)
  next
    case False
    then obtain err where "fail_with err (- 1) e2 = Some (r, e')"
      using assms(1) e1 i by (auto simp: sem_trywait_def split: if_splits)
    from fail_with_result [OF this, of s] d False show ?thesis by simp
  qed
  then show "r = 0 \<Longrightarrow> 0 < v \<and> permits s e' = Some (v - 1)" "r = - 1 \<Longrightarrow> permits s e' = Some v" by blast+
qed

lemma wait_permits:
  assumes "sem_wait s e = Some (r, e')" and "permits s e = Some v" and "0 \<le> v"
  shows "r = Return 0 \<Longrightarrow> 0 < v \<and> permits s e' = Some (v - 1)" and "r = Yielded \<Longrightarrow> permits s e' = Some v"
proof -
  from assms(1) obtain e1 q e2 where e1: "set_errno 0 e = Some e1" and i: "sem_decrement s True e1 = Some (q, e2)"
    by (auto simp: sem_wait_def bind_eq_Some_conv)
  have v1: "permits s e1 = Some v" using permits_set_errno [OF e1] assms(2) by simp
  note d = decrement_permits [OF i v1 assms(3)]
  have "(r = Return 0 \<longrightarrow> 0 < v \<and> permits s e' = Some (v - 1)) \<and> (r = Yielded \<longrightarrow> permits s e' = Some v)"
  proof (cases q)
    case Yielded
    with assms(1) e1 i d show ?thesis by (auto simp: sem_wait_def)
  next
    case (Return ok)
    show ?thesis
    proof (cases ok)
      case True
      with Return assms(1) e1 i d show ?thesis by (auto simp: sem_wait_def)
    next
      case False
      with Return assms(1) e1 i have "fail_with EINVAL (Return (- 1)) e2 = Some (r, e')" by (simp add: sem_wait_def)
      from fail_with_result [OF this] show ?thesis by simp
    qed
  qed
  then show "r = Return 0 \<Longrightarrow> 0 < v \<and> permits s e' = Some (v - 1)" "r = Yielded \<Longrightarrow> permits s e' = Some v" by blast+
qed

lemma relock_sems: "relock_for_thread t mid e = Some e' \<Longrightarrow> semaphores e' = semaphores e \<and> open_semaphores e' = open_semaphores e"
  by (auto simp: relock_for_thread_def)

lemma candidate_sems:
  assumes "schedule_candidate ck t a e = Some (Inl u, e')" and "\<nexists>s. blocked_by (threads e ! t) = Block_Semaphore s"
  shows "semaphores e' = semaphores e \<and> open_semaphores e' = open_semaphores e"
  using assms
  by (auto simp: schedule_candidate_def thread_at_Some bind_eq_Some_conv panic_simps Let_def dest!: relock_sems
      split: if_splits thread_block.splits option.splits)

lemma schedule_permits:
  assumes s: "schedule_pass ck e = Some (Inl t, e')" and v: "permits sem e = Some v" "0 \<le> v"
    and only: "\<forall>s. blocked_by (threads e ! t) = Block_Semaphore s \<longrightarrow> s = sem"
  shows "if blocked_by (threads e ! t) = Block_Semaphore sem then 0 < v \<and> permits sem e' = Some (v - 1)
    else permits sem e' = Some v"
proof -
  obtain i e1 a1 where i: "i < length (threads e)" "t = offset_thread e i" and sk: "skips ck [0..<i] e e1"
    and c: "schedule_candidate (ck i) t a1 e1 = Some (Inl (), e')" using schedule_pass_split [OF s] .
  have "\<forall>j\<in>set [0..<i]. offset_thread e j \<noteq> t"
  proof
    fix j assume "j \<in> set [0..<i]"
    then have "j < i" by simp
    with i offset_inj [of j e i] show "offset_thread e j \<noteq> t" by (metis less_trans less_irrefl)
  qed
  with sk have keep: "threads e1 ! t = threads e ! t" by (blast dest: skips_keeps)
  note fr = skips_frame [OF sk]
  then have v1: "permits sem e1 = Some v" using v by (simp add: permits_Some)
  show ?thesis
  proof (cases "blocked_by (threads e ! t) = Block_Semaphore sem")
    case False
    with only keep have "\<nexists>s. blocked_by (threads e1 ! t) = Block_Semaphore s" by auto
    from candidate_sems [OF c this] v1 False show ?thesis by (simp add: permits_Some)
  next
    case True
    from v1 obtain r obj where o: "open_semaphores e1 sem = Some r" "semaphores e1 r = Some obj" "sint (sem_value obj) = v"
      by (auto simp: permits_Some)
    have "t < length (threads e1)" "active (threads e1 ! t)" using candidate_taken(1) [OF c] by (auto simp: runnable_def)
    with c True keep o have "0 <s sem_value obj"
      and "e' = set_blocked t NotBlocked (set_sem r (obj\<lparr>sem_value := sem_value obj - 1, sem_waiting := sem_waiting obj - {t}\<rparr>) e1)"
      by (auto simp: schedule_candidate_def thread_at_def split: if_splits)
    with o True show ?thesis by (auto simp: permits_Some word_sless_alt sint_minus_one)
  qed
qed

lemma sem_run_ledger:
  "sem_run sem e0 p a e \<Longrightarrow> permits sem e0 = Some v \<Longrightarrow> 0 \<le> v \<Longrightarrow> v + int p < 2 ^ 31 \<Longrightarrow>
     \<exists>n. permits sem e = Some n \<and> 0 \<le> n \<and> n + int a = v + int p"
proof (induction rule: sem_run.induct)
  case (run_post p a e e')
  then obtain n where "permits sem e = Some n" "0 \<le> n" "n + int a = v + int p" by auto
  with post_permits [OF run_post(2)] run_post.prems show ?case by auto
next
  case (run_trywait p a e e')
  then obtain n where n: "permits sem e = Some n" "0 \<le> n" "n + int a = v + int p" by auto
  from trywait_permits(1) [OF run_trywait(2) n(1,2)] n show ?case by auto
next
  case (run_trywait_fails p a e e')
  then obtain n where n: "permits sem e = Some n" "0 \<le> n" "n + int a = v + int p" by auto
  from trywait_permits(2) [OF run_trywait_fails(2) n(1,2)] n show ?case by auto
next
  case (run_wait p a e e')
  then obtain n where n: "permits sem e = Some n" "0 \<le> n" "n + int a = v + int p" by auto
  from wait_permits(1) [OF run_wait(2) n(1,2)] n show ?case by auto
next
  case (run_wait_blocks p a e e')
  then obtain n where n: "permits sem e = Some n" "0 \<le> n" "n + int a = v + int p" by auto
  from wait_permits(2) [OF run_wait_blocks(2) n(1,2)] n show ?case by auto
next
  case (run_schedule p a e ck t e')
  then obtain n where n: "permits sem e = Some n" "0 \<le> n" "n + int a = v + int p" by auto
  have "permits sem (switch_thread t e') = permits sem e'" by (simp add: permits_def sem_at_def switch_thread_def)
  with schedule_permits [OF run_schedule(2) n(1,2) run_schedule(3)] n show ?case by (auto split: if_splits)
qed simp

text \<open>
  C16: A semaphore's ledger.  In every run of posts, waits, try-waits and scheduler passes that starts
  with \<open>v\<close> permits, \<open>v\<close> not negative, as long as the \<open>p\<close> posts cannot overflow the 32-bit value
  (\<open>v + p < 2^31\<close>), the value is never negative and the permits handed out and the remaining value add up to \<open>v + p\<close>: no permit is handed
  out twice, and none is lost when the scheduler passes it to a blocked thread.
\<close>
theorem semaphore_ledger:
  assumes "sem_run sem e0 p a e" and "permits sem e0 = Some v" and "0 \<le> v" and "v + int p < 2 ^ 31"
  shows "\<exists>n. permits sem e = Some n \<and> 0 \<le> n \<and> n + int a = v + int p"
  using assms by (rule sem_run_ledger)

text \<open>A ledger: the main thread posts, and thread 1, blocked on the semaphore, gets the permit.\<close>

definition ledger_env :: "i32 \<Rightarrow> thread_id set \<Rightarrow> thread_id \<Rightarrow> thread_block \<Rightarrow> mem \<Rightarrow> env" where
  "ledger_env v ws t b m = (initial_env m)\<lparr>
     semaphores := [0 \<mapsto> \<lparr>sem_value = v, sem_waiting = ws, guest_sem = Some 4096, sem_named = False\<rparr>],
     open_semaphores := [4096 \<mapsto> 0], errnos := [0 \<mapsto> 8192, 1 \<mapsto> 12288],
     threads := [main_thread, main_thread\<lparr>blocked_by := b\<rparr>], current_thread := t\<rparr>"

lemma ledger_errno:
  assumes "null_segment_size m = 4096" and "t < 2"
  shows "\<exists>m'. set_errno x (ledger_env v ws t b m) = Some (ledger_env v ws t b m') \<and> null_segment_size m' = 4096"
proof -
  obtain p where p: "errnos (ledger_env v ws t b m) t = Some p" "4096 \<le> p"
    using assms(2) by (auto simp: ledger_env_def less_2_cases_iff)
  have "length (le_bytes 4 x) \<le> 4096" "le_bytes 4 x \<noteq> []" by (simp_all add: le_bytes_ne)
  then obtain m' where w: "write_u32 p x m = Some m'" "null_segment_size m' = 4096"
    using write_read_raw [of m p "le_bytes 4 x"] assms(1) p(2) by (auto simp: write_u32_def)
  then have "set_errno x (ledger_env v ws t b m) = Some (ledger_env v ws t b m')"
    using p by (simp add: set_errno_def errno_ptr_for_thread_def ledger_env_def initial_env_def)
  with w(2) show ?thesis by blast
qed

lemma ledger_post:
  assumes "null_segment_size m = 4096" and "t < 2"
  shows "\<exists>m'. sem_post 4096 (ledger_env v ws t b m) = Some (0, ledger_env (v + 1) ws t b m') \<and> null_segment_size m' = 4096"
  using ledger_errno [OF assms, of 0 v ws b]
  by (auto simp: sem_post_def sem_increment_def ledger_env_def set_sem_def initial_env_def)

lemma ledger_wait:
  assumes "null_segment_size m = 4096" and "t < 2" and "0 <s v"
  shows "\<exists>m'. sem_wait 4096 (ledger_env v ws t b m) = Some (Return 0, ledger_env (v - 1) ws t b m') \<and>
    null_segment_size m' = 4096"
  using ledger_errno [OF assms(1,2), of 0 v ws b] assms(3)
  by (auto simp: sem_wait_def sem_decrement_def ledger_env_def set_sem_def initial_env_def)

lemma ledger_hands_over:
  "schedule_pass some_clocks (ledger_env 1 {1} 0 (Block_Semaphore 4096) m) = Some (Inl 1, ledger_env 0 {} 0 NotBlocked m)"
  by (simp add: schedule_pass_def schedule_from_Cons ledger_env_def initial_env_def main_thread_def offset_thread_def
      schedule_candidate_def thread_at_def upt_rec mod_Suc word_sless_alt set_sem_def set_blocked_def)

lemma ledger_run:
  "\<exists>m. sem_run 4096 (ledger_env 0 {1} 0 (Block_Semaphore 4096) demo_mem) 3 2 (ledger_env 1 {} 1 NotBlocked m)"
proof -
  let ?run = "sem_run 4096 (ledger_env 0 {1} 0 (Block_Semaphore 4096) demo_mem)"
  have n0: "null_segment_size demo_mem = 4096" by (simp add: demo_mem_def)
  obtain m1 where m1: "?run 1 0 (ledger_env 1 {1} 0 (Block_Semaphore 4096) m1)" "null_segment_size m1 = 4096"
    using ledger_post [OF n0, of 0 0 "{1}" "Block_Semaphore 4096"] run_post [OF run_start] by auto
  have "\<forall>s. blocked_by (threads (ledger_env 1 {1} 0 (Block_Semaphore 4096) m1) ! 1) = Block_Semaphore s \<longrightarrow> s = 4096"
    by (simp add: ledger_env_def)
  from run_schedule [OF m1(1) ledger_hands_over this] have r2: "?run 1 1 (ledger_env 0 {} 1 NotBlocked m1)"
    by (simp add: ledger_env_def switch_thread_def)
  obtain m3 where m3: "?run 2 1 (ledger_env 1 {} 1 NotBlocked m3)" "null_segment_size m3 = 4096"
    using ledger_post [OF m1(2), of 1 0 "{}" NotBlocked] run_post [OF r2] by (auto simp: numeral_2_eq_2)
  obtain m4 where m4: "?run 3 1 (ledger_env 2 {} 1 NotBlocked m4)" "null_segment_size m4 = 4096"
    using ledger_post [OF m3(2), of 1 1 "{}" NotBlocked] run_post [OF m3(1)] by (auto simp: numeral_3_eq_3 numeral_2_eq_2)
  have "0 <s (2 :: i32)" by (simp add: word_sless_alt)
  from ledger_wait [OF m4(2) _ this, of 1 "{}" NotBlocked] run_wait [OF m4(1)]
  show ?thesis by (auto simp: numeral_2_eq_2)
qed

theorem semaphore_ledger_witness:
  "\<exists>m. sem_run 4096 (ledger_env 0 {1} 0 (Block_Semaphore 4096) demo_mem) 3 2 (ledger_env 1 {} 1 NotBlocked m) \<and>
     (\<exists>n. permits 4096 (ledger_env 1 {} 1 NotBlocked m) = Some n \<and> 0 \<le> n \<and> n + int 2 = 0 + int 3)"
proof -
  obtain m where r: "sem_run 4096 (ledger_env 0 {1} 0 (Block_Semaphore 4096) demo_mem) 3 2 (ledger_env 1 {} 1 NotBlocked m)"
    using ledger_run ..
  have "permits 4096 (ledger_env 0 {1} 0 (Block_Semaphore 4096) demo_mem) = Some 0"
    by (simp add: permits_def sem_at_def ledger_env_def)
  from semaphore_ledger [OF r this] r show ?thesis by auto
qed

section \<open>Condition variables\<close>

text \<open>The queue of the threads that will run next on a condition variable, before the ones that still wait.\<close>

definition cond_queue :: "vaddr \<Rightarrow> env \<Rightarrow> thread_id list" where
  "cond_queue c e = (case condition_variables e c of None \<Rightarrow> [] | Some obj \<Rightarrow> waking obj @ waiting obj)"

lemma set_cond_same [simp]: "condition_variables (set_cond c oo e) c = oo"
  by (simp add: set_cond_def)

lemma signal_result:
  assumes "check_or_register_cond c e = Some (Inr (), e1)" and "condition_variables e1 c = Some obj"
  shows "pthread_cond_signal c e = Some (0, case waiting obj of [] \<Rightarrow> e1
      | t # ts \<Rightarrow> set_cond c (Some (obj\<lparr>waiting := ts, waking := waking obj @ [t]\<rparr>)) e1)"
  using assms by (simp add: pthread_cond_signal_def split: list.splits)

text \<open>What the scheduler does with a thread that is blocked on a condition variable.\<close>

lemma cond_candidate:
  assumes s: "schedule_candidate ck t a e = Some (r, e2)" and act: "active (threads e ! t)"
    and b: "blocked_by (threads e ! t) = Block_Condition c d" and o: "condition_variables e c = Some obj"
  shows "\<exists>mid. curr_mutex obj = Some mid \<and>
    (if waking obj \<noteq> [] \<and> hd (waking obj) = t \<and> \<not> mutex_is_locked (mutex_st e) mid then
       r = Inl () \<and> blocked_by (threads e2 ! t) = NotBlocked \<and> mutex_is_locked_by (mutex_st e2) mid t \<and>
       condition_variables e2 c = Some (obj\<lparr>waking := tl (waking obj)\<rparr>)
     else if \<exists>w. d = Some w \<and> w \<le> system_now ck then
       condition_variables e2 c = Some (obj\<lparr>timed_out := insert t (timed_out obj),
         waking := filter (\<lambda>u. u \<noteq> t) (waking obj), waiting := filter (\<lambda>u. u \<noteq> t) (waiting obj)\<rparr>) \<and>
       (if mutex_is_locked (mutex_st e) mid
        then r = Inr a \<and> blocked_by (threads e2 ! t) = Block_Mutex mid
        else r = Inl () \<and> blocked_by (threads e2 ! t) = NotBlocked \<and> mutex_is_locked_by (mutex_st e2) mid t)
     else (\<exists>a'. r = Inr a') \<and> e2 = e)"
proof -
  have t: "t < length (threads e)" using s by (auto simp: schedule_candidate_def thread_at_Some bind_eq_Some_conv)
  from s t act b o obtain mid where m: "curr_mutex obj = Some mid"
    by (auto simp: schedule_candidate_def thread_at_def bind_eq_Some_conv)
  let ?front = "waking obj \<noteq> [] \<and> hd (waking obj) = t" and ?held = "mutex_is_locked (mutex_st e) mid"
  let ?late = "\<exists>w. d = Some w \<and> w \<le> system_now ck"
  let ?e1 = "e\<lparr>condition_variables := (condition_variables e)(c \<mapsto>
                 obj\<lparr>timed_out := insert t (timed_out obj), waking := filter (\<lambda>u. u \<noteq> t) (waking obj),
                   waiting := filter (\<lambda>u. u \<noteq> t) (waiting obj)\<rparr>)\<rparr>"
  consider (woken) "?front" "\<not> ?held" | (late) "\<not> (?front \<and> \<not> ?held)" ?late | (waits) "\<not> (?front \<and> \<not> ?held)" "\<not> ?late"
    by blast
  then show ?thesis
  proof cases
    case woken
    then have r: "relock_for_thread t mid (set_blocked t NotBlocked
             (e\<lparr>condition_variables := (condition_variables e)(c \<mapsto> obj\<lparr>waking := tl (waking obj)\<rparr>)\<rparr>)) = Some e2" "r = Inl ()"
      using s b t act o m by (auto simp: schedule_candidate_def thread_at_def)
    with relock_for_thread_Some [OF r(1)] woken m t show ?thesis by (simp add: set_blocked_def)
  next
    case late
    then obtain w where w: "d = Some w" "w \<le> system_now ck" by blast
    show ?thesis
    proof (cases ?held)
      case True
      with s late(1) b t act o m w have "r = Inr a \<and> e2 = set_blocked t (Block_Mutex mid) ?e1"
        by (auto simp: schedule_candidate_def thread_at_def panic_simps Let_def split: if_splits)
      with True late m t show ?thesis by (simp add: set_blocked_def)
    next
      case False
      with s late(1) b t act o m w have r: "relock_for_thread t mid (set_blocked t NotBlocked ?e1) = Some e2" "r = Inl ()"
        by (auto simp: schedule_candidate_def thread_at_def panic_simps Let_def split: if_splits)
      with relock_for_thread_Some [OF r(1)] False late m t show ?thesis by (auto simp: set_blocked_def)
    qed
  next
    case waits
    with s b t act o m have "(\<exists>a'. r = Inr a') \<and> e2 = e"
      by (auto simp: schedule_candidate_def thread_at_def split: option.splits if_splits)
    with waits m show ?thesis by auto
  qed
qed

text \<open>
  C20: Condition variables wake in order.  A signal moves exactly the longest-waiting thread to the end
  of the threads to wake (and does nothing without waiters), a broadcast moves all of them in order;
  neither changes the order of the whole queue, blocks the caller or touches a thread.  A thread blocked
  on the variable, with a deadline or without, is treated by the scheduler in one of three ways.  At
  the head of the threads to wake, with its mutex free, it runs: it leaves the queue, which is
  otherwise unchanged, and owns the mutex.  Otherwise, if it has a deadline and the deadline has
  passed, it leaves the queue from wherever it stands, is recorded as timed out, and runs owning the
  mutex if that is free, or else goes on waiting for the mutex alone.  Otherwise it is skipped and
  nothing changes.
\<close>
theorem cond_wakes_in_order:
  assumes "check_or_register_cond c e = Some (Inr (), e1)" and "condition_variables e1 c = Some obj"
  shows "(\<exists>e2. pthread_cond_signal c e = Some (0, e2) \<and> cond_queue c e2 = cond_queue c e1 \<and> threads e2 = threads e1 \<and>
      (\<exists>obj'. condition_variables e2 c = Some obj' \<and> waiting obj' = drop 1 (waiting obj) \<and>
        waking obj' = waking obj @ take 1 (waiting obj))) \<and>
    (\<exists>e2. pthread_cond_broadcast c e = Some (0, e2) \<and> cond_queue c e2 = cond_queue c e1 \<and> threads e2 = threads e1 \<and>
      (\<exists>obj'. condition_variables e2 c = Some obj' \<and> waiting obj' = [] \<and> waking obj' = waking obj @ waiting obj)) \<and>
    (\<forall>ck t a d r e2. schedule_candidate ck t a e1 = Some (r, e2) \<and> active (threads e1 ! t) \<and>
        blocked_by (threads e1 ! t) = Block_Condition c d \<longrightarrow>
      (\<exists>mid. curr_mutex obj = Some mid \<and>
        (if waking obj \<noteq> [] \<and> hd (waking obj) = t \<and> \<not> mutex_is_locked (mutex_st e1) mid then
           r = Inl () \<and> blocked_by (threads e2 ! t) = NotBlocked \<and> mutex_is_locked_by (mutex_st e2) mid t \<and>
           condition_variables e2 c = Some (obj\<lparr>waking := tl (waking obj)\<rparr>)
         else if \<exists>w. d = Some w \<and> w \<le> system_now ck then
           condition_variables e2 c = Some (obj\<lparr>timed_out := insert t (timed_out obj),
             waking := filter (\<lambda>u. u \<noteq> t) (waking obj), waiting := filter (\<lambda>u. u \<noteq> t) (waiting obj)\<rparr>) \<and>
           (if mutex_is_locked (mutex_st e1) mid
            then r = Inr a \<and> blocked_by (threads e2 ! t) = Block_Mutex mid
            else r = Inl () \<and> blocked_by (threads e2 ! t) = NotBlocked \<and> mutex_is_locked_by (mutex_st e2) mid t)
         else (\<exists>a'. r = Inr a') \<and> e2 = e1)))"
proof (intro conjI allI impI)
  show "\<exists>e2. pthread_cond_signal c e = Some (0, e2) \<and> cond_queue c e2 = cond_queue c e1 \<and> threads e2 = threads e1 \<and>
      (\<exists>obj'. condition_variables e2 c = Some obj' \<and> waiting obj' = drop 1 (waiting obj) \<and>
        waking obj' = waking obj @ take 1 (waiting obj))"
    using assms(2) unfolding signal_result [OF assms]
    by (cases "waiting obj") (simp_all add: cond_queue_def set_cond_def)
  show "\<exists>e2. pthread_cond_broadcast c e = Some (0, e2) \<and> cond_queue c e2 = cond_queue c e1 \<and> threads e2 = threads e1 \<and>
      (\<exists>obj'. condition_variables e2 c = Some obj' \<and> waiting obj' = [] \<and> waking obj' = waking obj @ waiting obj)"
    using assms by (simp add: pthread_cond_broadcast_def cond_queue_def set_cond_def)
qed (elim conjE, rule cond_candidate [OF _ _ _ assms(2)])

definition cond_mem :: mem where
  "cond_mem = demo_mem\<lparr>mem_bytes := poke 8192 (le_bytes 4 MAGIC_COND) (mem_bytes demo_mem)\<rparr>"

definition cond_env :: env where
  "cond_env = (initial_env cond_mem)\<lparr>mutex_st := lock_state None, condition_variables := [8192 \<mapsto>
     \<lparr>waiting = [2, 1], waking = [], curr_mutex = Some 0, timed_out = {}\<rparr>],
     threads := [main_thread, main_thread\<lparr>blocked_by := Block_Condition 8192 (Some 5)\<rparr>,
       main_thread\<lparr>blocked_by := Block_Condition 8192 None\<rparr>]\<rparr>"

lemma cond_env_registered: "check_or_register_cond 8192 cond_env = Some (Inr (), cond_env)"
proof -
  have "read_u32 cond_mem 8192 = Some MAGIC_COND"
    using read_poked [OF demo_null, of 4 "le_bytes 4 MAGIC_COND"] by (simp add: read_u32_def of_le_whole cond_mem_def)
  then show ?thesis
    by (simp add: check_or_register_cond_def cond_env_def initial_env_def MAGIC_COND_def MAGIC_COND_STATIC_def)
qed

definition late_clocks :: clocks where
  "late_clocks = \<lparr>instant_now = 9, guest_now = 0, host_deadline = id, system_now = 9\<rparr>"

lemma late_candidate: "\<exists>r e2. schedule_candidate late_clocks 1 None cond_env = Some (r, e2)"
  by (simp add: schedule_candidate_def thread_at_def cond_env_def main_thread_def late_clocks_def lock_state_def
      mutex_state_default_def new_mutex_def mutex_is_locked_def relock_for_thread_def relock_unblocked_mutex_def panic_simps)

theorem cond_wakes_in_order_witness:
  "(\<exists>e2 obj. pthread_cond_signal 8192 cond_env = Some (0, e2) \<and> condition_variables e2 8192 = Some obj \<and>
      waiting obj = [1] \<and> waking obj = [2]) \<and>
   (\<exists>e2. schedule_candidate late_clocks 1 None cond_env = Some (Inl (), e2) \<and>
      blocked_by (threads e2 ! 1) = NotBlocked \<and> mutex_is_locked_by (mutex_st e2) 0 1 \<and>
      condition_variables e2 8192 =
        Some \<lparr>waiting = [2], waking = [], curr_mutex = Some 0, timed_out = {1}\<rparr>)"
proof -
  let ?obj = "\<lparr>waiting = [2, 1], waking = [], curr_mutex = Some 0, timed_out = {}\<rparr>"
  have o: "condition_variables cond_env 8192 = Some ?obj" by (simp add: cond_env_def)
  note ok = cond_wakes_in_order [OF cond_env_registered o]
  obtain r e2 where c: "schedule_candidate late_clocks 1 None cond_env = Some (r, e2)" using late_candidate by blast
  have "active (threads cond_env ! 1)" "blocked_by (threads cond_env ! 1) = Block_Condition 8192 (Some 5)"
    and "\<not> mutex_is_locked (mutex_st cond_env) 0"
    by (simp_all add: cond_env_def main_thread_def lock_state_def mutex_state_default_def new_mutex_def mutex_is_locked_def)
  with ok [THEN conjunct2, THEN conjunct2, rule_format, OF conjI [OF c conjI]] c
  have "r = Inl () \<and> blocked_by (threads e2 ! 1) = NotBlocked \<and> mutex_is_locked_by (mutex_st e2) 0 1 \<and>
      condition_variables e2 8192 = Some \<lparr>waiting = [2], waking = [], curr_mutex = Some 0, timed_out = {1}\<rparr>"
    by (simp add: late_clocks_def)
  with ok [THEN conjunct1] c show ?thesis by auto
qed

lemma whole_parts:
  assumes "0 < (k :: nat)"
  shows "x div k * k \<le> x" and "x < x div k * k + k" and "a mod k + b < k \<Longrightarrow> (a + b) div k * k \<le> a"
proof -
  show "x div k * k \<le> x" by simp
  show "x < x div k * k + k" using dividend_less_div_times [OF assms, of x] by simp
  assume ab: "a mod k + b < k"
  have "(a + b) div k = (a div k * k + (a mod k + b)) div k" by simp
  also have "\<dots> = a div k" using ab assms by (metis add.right_neutral div_less div_mult_self3 less_not_refl2)
  finally show "(a + b) div k * k \<le> a" by simp
qed

lemma deadline_rounds_down:
  assumes "(now + duration) div 1000000000 < 2 ^ 31"
  shows "timespec_nanos (relative_deadline now duration) \<le> now + duration"
    and "now + duration < timespec_nanos (relative_deadline now duration) + 1000000000"
    and "now mod 1000000000 + duration < 1000000000 \<Longrightarrow> timespec_nanos (relative_deadline now duration) \<le> now"
proof -
  let ?s = "(now + duration) div 1000000000"
  have "take_bit 32 ?s = ?s" using assms by (simp add: take_bit_nat_eq_self_iff)
  then have "sint (of_nat ?s :: i32) = int ?s" using assms
    by (simp add: sint_uint unsigned_of_nat signed_take_bit_int_eq_self_iff)
  then have "clamp0 (of_nat ?s) = ?s" by (simp add: clamp0_def)
  then have ts: "timespec_nanos (relative_deadline now duration) = ?s * 1000000000"
    by (simp add: timespec_nanos_def relative_deadline_def clamp0_def)
  show "timespec_nanos (relative_deadline now duration) \<le> now + duration"
    "now + duration < timespec_nanos (relative_deadline now duration) + 1000000000"
    unfolding ts using whole_parts [of 1000000000 "now + duration"] by simp_all
  show "now mod 1000000000 + duration < 1000000000 \<Longrightarrow> timespec_nanos (relative_deadline now duration) \<le> now"
    unfolding ts using whole_parts(3) by simp
qed

text \<open>
  A relative timed wait is rounded down to whole seconds.  The deadline that
  \<open>pthread_cond_timedwait_relative_np\<close> computes is at most \<open>now\<close> plus the requested duration, and less
  by up to one second; a wait that does not cross the next full second has its deadline in the past,
  so that it times out at once.
\<close>
theorem relative_wait_rounds_down:
  assumes "(now + duration) div 1000000000 < 2 ^ 31"
  shows "timespec_nanos (relative_deadline now duration) \<le> now + duration \<and>
    now + duration < timespec_nanos (relative_deadline now duration) + 1000000000 \<and>
    (now mod 1000000000 + duration < 1000000000 \<longrightarrow> timespec_nanos (relative_deadline now duration) \<le> now)"
  using deadline_rounds_down [OF assms] by blast

theorem relative_wait_rounds_down_witness:
  "timespec_nanos (relative_deadline 5200000000 700000000) \<le> 5200000000"
  using relative_wait_rounds_down [of 5200000000 700000000, THEN conjunct2, THEN conjunct2] by simp

section \<open>Destruction\<close>

text \<open>
  C23: The guard of \<open>destroy_mutex\<close> can be defeated.  A thread blocked on a mutex is counted as waiting so
  that the mutex is not destroyed, but a thread that the scheduler wakes from a condition variable of
  the same mutex takes its count away.  After that thread has unlocked, the mutex is destroyed although
  the other is still blocked on it, and the scheduler can no longer relock it: it panics.
\<close>
theorem destroyed_while_waiting:
  assumes "mutexes s mid = Some mx" and "locked mx = Some (holder, 1)" and "waiting_count mx = 0"
    and "\<forall>t. phantom_locks mx t = None" and "waiter \<noteq> holder"
  shows "\<exists>s1 s2 s3 s4 s5. lock_mutex waiter mid s = Some (Lock_wait, s1) \<and>
    unlock_mutex holder mid s1 = Some (Inr 0, s2) \<and>
    relock_unblocked_mutex woken mid s2 = Some s3 \<and>
    unlock_mutex woken mid s3 = Some (Inr 0, s4) \<and>
    destroy_mutex mid s4 = Some (Inr (), s5) \<and>
    \<not> mutex_is_locked s5 mid \<and> relock_unblocked_mutex waiter mid s5 = None"
  using assms
  by (simp add: lock_mutex_def unlock_mutex_def relock_unblocked_mutex_def destroy_mutex_def mutex_is_locked_def
      panic_simps Let_def)

theorem destroyed_while_waiting_witness:
  "\<exists>s1 s2 s3 s4 s5. lock_mutex 2 0 (held_mutex PTHREAD_MUTEX_NORMAL) = Some (Lock_wait, s1) \<and>
    unlock_mutex 1 0 s1 = Some (Inr 0, s2) \<and> relock_unblocked_mutex 3 0 s2 = Some s3 \<and>
    unlock_mutex 3 0 s3 = Some (Inr 0, s4) \<and> destroy_mutex 0 s4 = Some (Inr (), s5) \<and>
    \<not> mutex_is_locked s5 0 \<and> relock_unblocked_mutex 2 0 s5 = None"
  by (rule destroyed_while_waiting [where mx = "(new_mutex PTHREAD_MUTEX_NORMAL)\<lparr>locked := Some (1, 1)\<rparr>"])
    (simp_all add: held_mutex_def new_mutex_def)

lemma write_raw_keeps: "write_raw p xs m = Some m' \<Longrightarrow> null_segment_size m' = null_segment_size m"
  by (auto simp: write_raw_def panic_simps Let_def split: if_splits)

lemma lock_object_writes:
  assumes "null_segment_size m \<le> p"
  shows "\<exists>w. write_lock_object p obj m = Some w"
  using assms write_raw_array [of m p "le_bytes 4 (fst obj) @ le_bytes 8 (snd obj)"] BYTES_LEN_ge [of 12 p]
  by (simp add: write_lock_object_def le_bytes_ne)

lemma lock_object_written:
  assumes "null_segment_size m \<le> p" and "write_lock_object p (magic, mid) m = Some m'"
  shows "read_u32 m' p = Some magic" and "null_segment_size m' = null_segment_size m"
proof -
  let ?xs = "le_bytes 4 magic @ le_bytes 8 mid"
  have ne: "?xs \<noteq> []" by (simp add: le_bytes_ne)
  have m': "m' = m\<lparr>mem_bytes := poke (unat p) ?xs (mem_bytes m)\<rparr>"
    using assms write_raw_array [of m p ?xs] BYTES_LEN_ge [of 12 p] ne by (simp add: write_lock_object_def)
  then show "null_segment_size m' = null_segment_size m" by simp
  show "read_u32 m' p = Some magic"
    using read_poked [OF assms(1), of 4 ?xs] by (simp add: m' read_u32_def of_le_whole)
qed

lemma check_mutex_null:
  assumes "check_or_register_mutex p e = Some (r, e')"
  shows "null_segment_size (env_mem e') = null_segment_size (env_mem e)"
  using assms write_raw_keeps
  by (auto simp: check_or_register_mutex_def pthread_mutex_init_def create_lock_def with_mem_def write_lock_object_def
      bind_eq_Some_conv Let_def split: if_splits)

lemma busy_destroyed_invalid:
  assumes "null_segment_size (env_mem e) \<le> p" and "pthread_mutex_destroy p e = Some (EBUSY, e')"
  shows "pthread_mutex_unlock p e' = Some (EINVAL, e')" and "pthread_mutex_lock p e' = Some (Return EINVAL, e')"
    and "pthread_mutex_destroy p e' = Some (EINVAL, e')" and "\<exists>mid. mutexes (mutex_st e') mid \<noteq> None"
proof -
  from assms(2) obtain q e1 where q: "check_or_register_mutex p e = Some (q, e1)"
    by (auto simp: pthread_mutex_destroy_def bind_eq_Some_conv)
  moreover have "q \<noteq> Inl err" for err
    using assms(2) q by (auto simp: pthread_mutex_destroy_def check_or_register_mutex_def bind_eq_Some_conv
        EINVAL_def EBUSY_def split: if_splits)
  ultimately have "destroy_lock p e1 = Some (EBUSY, e')"
    using assms(2) by (cases q) (auto simp: pthread_mutex_destroy_def)
  then obtain mid w r s where w: "write_lock_object p (0, 0xFFFFFFFFFFFFFFFF) (env_mem e1) = Some w"
    and d: "destroy_mutex mid (mutex_st e1) = Some (r, s)" and e': "e' = e1\<lparr>env_mem := w, mutex_st := s\<rparr>"
    and r: "(case r of Inl err \<Rightarrow> err | Inr _ \<Rightarrow> 0) = EBUSY"
    by (auto simp: destroy_lock_def bind_eq_Some_conv Let_def)
  have "read_u32 (env_mem e') p = Some 0"
    using lock_object_written(1) [OF _ w] check_mutex_null [OF q] assms(1) e' by simp
  then have c: "check_or_register_mutex p e' = Some (Inl EINVAL, e')"
    by (simp add: check_or_register_mutex_def MAGIC_MUTEX_def MAGIC_MUTEX_STATIC_def)
  then show "pthread_mutex_unlock p e' = Some (EINVAL, e')" "pthread_mutex_lock p e' = Some (Return EINVAL, e')"
    "pthread_mutex_destroy p e' = Some (EINVAL, e')"
    by (simp_all add: pthread_mutex_unlock_def pthread_mutex_lock_def pthread_mutex_destroy_def)
  have "r \<noteq> Inr u" for u using r by (cases r) (auto simp: EBUSY_def)
  with d have "s = mutex_st e1" "mutexes (mutex_st e1) mid \<noteq> None"
    by (auto simp: destroy_mutex_def bind_eq_Some_conv split: if_splits)
  with e' show "\<exists>mid. mutexes (mutex_st e') mid \<noteq> None" by auto
qed

text \<open>
  A mutex that is busy is destroyed for the guest all the same.  When \<open>pthread_mutex_destroy\<close> returns
  an error for a mutex in writable memory, here \<open>EBUSY\<close> because it is held or waited for, the
  guest object has already been invalidated: every later lock, unlock or destruction returns \<open>EINVAL\<close>, so
  that its holder can never release the host mutex, which stays in the table.
\<close>
theorem busy_destroy_invalidates:
  assumes "null_segment_size (env_mem e) \<le> p" and "pthread_mutex_destroy p e = Some (EBUSY, e')"
  shows "pthread_mutex_unlock p e' = Some (EINVAL, e') \<and> pthread_mutex_lock p e' = Some (Return EINVAL, e') \<and>
    pthread_mutex_destroy p e' = Some (EINVAL, e') \<and> (\<exists>mid. mutexes (mutex_st e') mid \<noteq> None)"
  using busy_destroyed_invalid [OF assms] by blast

definition busy_mem :: mem where
  "busy_mem = demo_mem\<lparr>mem_bytes := poke 8192 (le_bytes 4 MAGIC_MUTEX @ le_bytes 8 (0 :: u64)) (mem_bytes demo_mem)\<rparr>"

definition busy_env :: env where
  "busy_env = (initial_env busy_mem)\<lparr>mutex_st := held_mutex PTHREAD_MUTEX_NORMAL\<rparr>"

lemma busy_object:
  "read_u32 busy_mem 8192 = Some MAGIC_MUTEX" "read_lock_object busy_mem 8192 = Some (MAGIC_MUTEX, 0)"
  using read_poked [OF demo_null, of 4 "le_bytes 4 MAGIC_MUTEX @ le_bytes 8 (0 :: u64)"]
    read_poked [OF demo_null, of 12 "le_bytes 4 MAGIC_MUTEX @ le_bytes 8 (0 :: u64)"]
  by (simp_all add: busy_mem_def read_u32_def read_lock_object_def of_le_whole)

lemma busy_destroyed: "\<exists>e'. pthread_mutex_destroy 8192 busy_env = Some (EBUSY, e')"
proof -
  have "\<exists>w. write_lock_object 8192 (0, 0xFFFFFFFFFFFFFFFF) busy_mem = Some w"
    using demo_null by (intro lock_object_writes) (simp add: busy_mem_def)
  moreover have "check_or_register_mutex 8192 busy_env = Some (Inr (), busy_env)"
    using busy_object by (simp add: check_or_register_mutex_def busy_env_def initial_env_def MAGIC_MUTEX_def MAGIC_MUTEX_STATIC_def)
  ultimately show ?thesis using busy_object(2)
    by (auto simp: pthread_mutex_destroy_def destroy_lock_def busy_env_def initial_env_def destroy_mutex_def held_mutex_def
        Let_def)
qed

theorem busy_destroy_invalidates_witness:
  "\<exists>e'. pthread_mutex_destroy 8192 busy_env = Some (EBUSY, e') \<and> pthread_mutex_unlock 8192 e' = Some (EINVAL, e')"
proof -
  obtain e' where d: "pthread_mutex_destroy 8192 busy_env = Some (EBUSY, e')" using busy_destroyed by blast
  have "null_segment_size (env_mem busy_env) \<le> 8192" by (simp add: busy_env_def initial_env_def busy_mem_def demo_null)
  from busy_destroy_invalidates [OF this d] d show ?thesis by blast
qed

section \<open>Trying to lock\<close>

lemma lock_waits:
  assumes "lock_mutex t mid s = Some (Lock_wait, s')"
  shows "mutex_is_locked s mid" and "\<not> mutex_is_locked_by s mid t"
proof -
  from assms obtain mx where mx: "mutexes s mid = Some mx" by (auto simp: lock_mutex_def bind_eq_Some_conv)
  with assms obtain own c where "locked mx = Some (own, c)" "own \<noteq> t"
    by (cases "locked mx"; cases "m_type mx") (auto simp: lock_mutex_def bind_eq_Some_conv split: if_splits)
  with mx show "mutex_is_locked s mid" "\<not> mutex_is_locked_by s mid t"
    by (simp_all add: mutex_is_locked_def mutex_is_locked_by_def)
qed

lemma env_lock_yields:
  assumes "env_lock_mutex mid e = Some (Yielded, e')"
  shows "mutex_is_locked (mutex_st e) mid" and "\<not> mutex_is_locked_by (mutex_st e) mid (current_thread e)"
proof -
  from assms obtain s where "lock_mutex (current_thread e) mid (mutex_st e) = Some (Lock_wait, s)"
  proof -
    from assms obtain r s where l: "lock_mutex (current_thread e) mid (mutex_st e) = Some (r, s)"
      by (auto simp: env_lock_mutex_def bind_eq_Some_conv)
    with assms that show thesis by (cases r) (auto simp: env_lock_mutex_def Let_def)
  qed
  from lock_waits [OF this] show "mutex_is_locked (mutex_st e) mid"
    "\<not> mutex_is_locked_by (mutex_st e) mid (current_thread e)" .
qed

lemma check_mutex_again:
  assumes "check_or_register_mutex p e = Some (Inr (), e1)" and "null_segment_size (env_mem e) \<le> p"
  shows "check_or_register_mutex p e1 = Some (Inr (), e1)"
proof (cases "read_u32 (env_mem e) p = Some MAGIC_MUTEX_STATIC")
  case False
  with assms(1) have "e1 = e" by (auto simp: check_or_register_mutex_def bind_eq_Some_conv split: if_splits)
  with assms(1) show ?thesis by simp
next
  case True
  with assms(1) obtain r where "pthread_mutex_init p 0 e = Some (r, e1)"
    by (auto simp: check_or_register_mutex_def bind_eq_Some_conv)
  then obtain mid w s where "write_lock_object p (MAGIC_MUTEX, mid) (env_mem e) = Some w" "e1 = e\<lparr>mutex_st := s, env_mem := w\<rparr>"
    by (auto simp: pthread_mutex_init_def create_lock_def with_mem_def bind_eq_Some_conv Let_def)
  with lock_object_written(1) [OF assms(2)] have "read_u32 (env_mem e1) p = Some MAGIC_MUTEX" by auto
  then show ?thesis by (simp add: check_or_register_mutex_def MAGIC_MUTEX_def MAGIC_MUTEX_STATIC_def)
qed

lemma trylock_returns:
  shows "null_segment_size (env_mem e) \<le> p \<Longrightarrow> pthread_mutex_trylock p e \<noteq> Some (Yielded, e')"
    and "pthread_rwlock_tryrdlock p e \<noteq> Some (Yielded, e')" and "pthread_rwlock_trywrlock p e \<noteq> Some (Yielded, e')"
proof -
  have "trylock_inner p e \<noteq> Some (Yielded, e')"
    using env_lock_yields(1) by (auto simp: trylock_inner_def bind_eq_Some_conv split: sum.splits if_splits)
  then show "pthread_rwlock_tryrdlock p e \<noteq> Some (Yielded, e')" "pthread_rwlock_trywrlock p e \<noteq> Some (Yielded, e')"
    by (simp_all add: pthread_rwlock_tryrdlock_def pthread_rwlock_trywrlock_def)
  show "pthread_mutex_trylock p e \<noteq> Some (Yielded, e')" if null: "null_segment_size (env_mem e) \<le> p"
  proof
    assume y: "pthread_mutex_trylock p e = Some (Yielded, e')"
    then obtain e1 magic mid where c: "check_or_register_mutex p e = Some (Inr (), e1)"
      and rd: "read_lock_object (env_mem e1) p = Some (magic, mid)"
      and free: "\<not> (mutex_is_locked (mutex_st e1) mid \<and>
        \<not> (mutex_is_recursive (mutex_st e1) mid \<and> mutex_is_locked_by (mutex_st e1) mid (current_thread e1)))"
      and l: "pthread_mutex_lock p e1 = Some (Yielded, e')"
    proof -
      from y obtain q e1 where q: "check_or_register_mutex p e = Some (q, e1)"
        by (auto simp: pthread_mutex_trylock_def bind_eq_Some_conv)
      with y that show thesis
        by (cases q) (auto simp: pthread_mutex_trylock_def bind_eq_Some_conv split: if_splits)
    qed
    have "env_lock_mutex mid e1 = Some (Yielded, e')"
      using l check_mutex_again [OF c null] rd by (simp add: pthread_mutex_lock_def)
    from env_lock_yields [OF this] free show False by blast
  qed
qed

text \<open>
  Trying to lock never blocks.  \<open>pthread_mutex_trylock\<close> on an object in writable memory, and
  \<open>pthread_rwlock_tryrdlock\<close> and \<open>pthread_rwlock_trywrlock\<close> on any object, return without suspending the
  thread, whatever the type of the mutex and whoever holds it.
\<close>
theorem trylock_never_blocks:
  shows "(null_segment_size (env_mem e) \<le> p \<longrightarrow> pthread_mutex_trylock p e \<noteq> Some (Yielded, e')) \<and>
    pthread_rwlock_tryrdlock p e \<noteq> Some (Yielded, e') \<and> pthread_rwlock_trywrlock p e \<noteq> Some (Yielded, e')"
  using trylock_returns by blast

theorem trylock_never_blocks_witness:
  "pthread_mutex_trylock 8192 busy_env \<noteq> Some (Yielded, busy_env)"
  by (rule trylock_never_blocks [THEN conjunct1, THEN mp]) (simp add: busy_env_def initial_env_def busy_mem_def demo_null)

end
