(* ===== verification/GuestPath.thy ===== *)
theory GuestPath
  imports Prelude
begin

text \<open>
  Paths of the guest filesystem, after \<open>GuestPath\<close>, \<open>GuestPathBuf\<close>, \<open>apply_path_component\<close> and
  \<open>resolve_path\<close> of \<open>src/fs.rs\<close>.  A Rust string is the list of its UTF-8 bytes; the code only splits
  at and compares with ASCII characters, for which bytes and characters agree.  The pieces of the Rust
  string library that the code uses come first.
\<close>

section \<open>Splitting strings\<close>

text \<open>\<open>str::split\<close> at one character: \<open>n\<close> separators give \<open>n + 1\<close> parts.\<close>

fun split_char :: "char \<Rightarrow> string \<Rightarrow> string list" where
  "split_char c [] = [[]]"
| "split_char c (x # xs) =
     (if x = c then [] # split_char c xs
      else case split_char c xs of [] \<Rightarrow> [[x]] | w # ws \<Rightarrow> (x # w) # ws)"

text \<open>\<open>[&str]::join\<close> with one character.\<close>

fun join_char :: "char \<Rightarrow> string list \<Rightarrow> string" where
  "join_char c [] = []"
| "join_char c [w] = w"
| "join_char c (w # v # ws) = w @ c # join_char c (v # ws)"

text \<open>\<open>str::trim_end_matches\<close> and \<open>str::trim_start_matches\<close> for a character, \<open>str::rsplit_once\<close>.\<close>

definition trim_end_char :: "char \<Rightarrow> string \<Rightarrow> string" where
  "trim_end_char c s = rev (dropWhile (\<lambda>x. x = c) (rev s))"

definition trim_start_char :: "char \<Rightarrow> string \<Rightarrow> string" where
  "trim_start_char c s = dropWhile (\<lambda>x. x = c) s"

definition rsplit_once :: "char \<Rightarrow> string \<Rightarrow> (string \<times> string) option" where
  "rsplit_once c s =
     (if c \<in> set s
      then Some (rev (tl (dropWhile (\<lambda>x. x \<noteq> c) (rev s))), rev (takeWhile (\<lambda>x. x \<noteq> c) (rev s)))
      else None)"

lemma split_char_nonempty [simp]: "split_char c s \<noteq> []"
  by (induction s) (auto split: list.splits)

lemma split_char_word: "c \<notin> set w \<Longrightarrow> split_char c w = [w]"
  by (induction w) auto

lemma split_char_append: "c \<notin> set w \<Longrightarrow> split_char c (w @ c # s) = w # split_char c s"
  by (induction w) auto

lemma split_char_no_sep: "w \<in> set (split_char c s) \<Longrightarrow> c \<notin> set w"
proof (induction s arbitrary: w)
  case (Cons x xs)
  then show ?case by (cases "split_char c xs") (auto split: if_splits)
qed simp

lemma join_split [simp]: "join_char c (split_char c s) = s"
proof (induction s)
  case (Cons x xs)
  then obtain w ws where "split_char c xs = w # ws" by (cases "split_char c xs") auto
  with Cons show ?case by (cases ws) auto
qed simp

lemma split_join: "ws \<noteq> [] \<Longrightarrow> \<forall>w\<in>set ws. c \<notin> set w \<Longrightarrow> split_char c (join_char c ws) = ws"
  by (induction c ws rule: join_char.induct) (auto simp: split_char_word split_char_append)

lemma split_char_sep_append: "split_char c (s @ c # t) = split_char c s @ split_char c t"
proof (induction s)
  case (Cons x xs)
  then obtain w ws where "split_char c xs = w # ws" by (cases "split_char c xs") auto
  with Cons show ?case by auto
qed simp

section \<open>Paths\<close>

abbreviation SLASH :: char where "SLASH \<equiv> CHR ''/''"

type_synonym guest_path = string

definition APPLICATIONS :: guest_path where "APPLICATIONS = ''/var/mobile/Applications''"

text \<open>\<open>GuestPath::join\<close>, \<open>parent_and_file_name\<close>, \<open>file_name\<close> and \<open>parent\<close>.\<close>

definition GuestPath_join :: "guest_path \<Rightarrow> string \<Rightarrow> guest_path" where
  "GuestPath_join p path = p @ SLASH # path"

definition parent_and_file_name :: "guest_path \<Rightarrow> (guest_path \<times> string) option" where
  "parent_and_file_name p =
     (let path_str = trim_end_char SLASH p in
      if path_str = [] then None
      else case rsplit_once SLASH path_str of
        None \<Rightarrow> None
      | Some (parent_name, file_name) \<Rightarrow> if file_name = [] then None else Some (parent_name, file_name))"

definition file_name :: "guest_path \<Rightarrow> string option" where
  "file_name p = map_option snd (parent_and_file_name p)"

definition path_parent :: "guest_path \<Rightarrow> guest_path option" where
  "path_parent p = map_option fst (parent_and_file_name p)"

text \<open>\<open>Vec::pop\<close> on an empty vector leaves it empty, as \<open>butlast\<close> does.\<close>

definition apply_path_component :: "string list \<Rightarrow> string \<Rightarrow> string list" where
  "apply_path_component components component =
     (if component = '''' then components
      else if component = ''.'' then components
      else if component = ''..'' then butlast components
      else components @ [component])"

text \<open>\<open>slice::windows(n).position(|w| w == m)\<close> for the window length of \<open>m\<close>.\<close>

fun window_position :: "'a list \<Rightarrow> 'a list \<Rightarrow> nat option" where
  "window_position m [] = (if m = [] then Some 0 else None)"
| "window_position m (x # xs) =
     (if take (length m) (x # xs) = m then Some 0 else map_option Suc (window_position m xs))"

definition path_marker :: "string list" where
  "path_marker = [''var'', ''mobile'', ''Applications'']"

text \<open>The deduplication heuristic at the end of \<open>resolve_path\<close>.\<close>

definition strip_duplicate_prefix :: "string list \<Rightarrow> string list" where
  "strip_duplicate_prefix components =
     (if length components > 6 then
        (case window_position path_marker components of
           None \<Rightarrow> components
         | Some dup_start \<Rightarrow>
             (case window_position path_marker (drop (dup_start + 1) components) of
                None \<Rightarrow> components
              | Some second_pos \<Rightarrow> drop (dup_start + 1 + second_pos) components))
      else components)"

definition starts_with_slash :: "string \<Rightarrow> bool" where
  "starts_with_slash s \<longleftrightarrow> s \<noteq> [] \<and> hd s = SLASH"

definition resolve_path :: "guest_path \<Rightarrow> guest_path option \<Rightarrow> string list option" where
  "resolve_path path relative_to = do {
     components \<leftarrow>
       (if \<not> starts_with_slash path then do {
          base \<leftarrow> relative_to;
          expect (starts_with_slash base);
          Some (foldl apply_path_component [] (split_char SLASH base))
        } else Some []);
     Some (strip_duplicate_prefix (foldl apply_path_component components (split_char SLASH path)))
   }"

section \<open>What resolution yields\<close>

text \<open>A proper component: what can name an entry of a directory.\<close>

definition proper_component :: "string \<Rightarrow> bool" where
  "proper_component c \<longleftrightarrow> c \<noteq> '''' \<and> c \<noteq> ''.'' \<and> c \<noteq> ''..'' \<and> SLASH \<notin> set c"

definition proper_path :: "string list \<Rightarrow> bool" where
  "proper_path cs \<longleftrightarrow> list_all proper_component cs"

lemma proper_path_simps [simp]:
  "proper_path []" "proper_path (c # cs) \<longleftrightarrow> proper_component c \<and> proper_path cs"
  "proper_path (xs @ ys) \<longleftrightarrow> proper_path xs \<and> proper_path ys"
  by (simp_all add: proper_path_def)

lemma proper_path_parts [intro]: "proper_path cs \<Longrightarrow> proper_path (butlast cs)" "proper_path cs \<Longrightarrow> proper_path (drop n cs)"
  "proper_path cs \<Longrightarrow> proper_path (take n cs)"
  by (auto simp: proper_path_def list_all_iff dest: in_set_butlastD in_set_dropD in_set_takeD)

lemma apply_component_proper:
  "proper_path cs \<Longrightarrow> SLASH \<notin> set c \<Longrightarrow> proper_path (apply_path_component cs c)"
  by (auto simp: apply_path_component_def proper_component_def)

lemma fold_components_proper:
  "proper_path cs \<Longrightarrow> \<forall>c\<in>set ps. SLASH \<notin> set c \<Longrightarrow> proper_path (foldl apply_path_component cs ps)"
  by (induction ps arbitrary: cs) (auto intro: apply_component_proper)

lemma split_components: "\<forall>c\<in>set (split_char SLASH s). SLASH \<notin> set c"
  using split_char_no_sep by blast

lemma strip_duplicate_is_drop: "\<exists>n. strip_duplicate_prefix cs = drop n cs"
  unfolding strip_duplicate_prefix_def by (auto split: option.splits intro: exI [of _ 0])

lemma fold_split_proper: "proper_path cs \<Longrightarrow> proper_path (foldl apply_path_component cs (split_char SLASH s))"
  by (rule fold_components_proper [OF _ split_components])

lemma strip_duplicate_proper: "proper_path cs \<Longrightarrow> proper_path (strip_duplicate_prefix cs)"
  using strip_duplicate_is_drop [of cs] by auto

lemma resolve_path_proper: "resolve_path p r = Some cs \<Longrightarrow> proper_path cs"
  by (auto simp: resolve_path_def bind_eq_Some_conv fold_split_proper strip_duplicate_proper split: if_splits)

text \<open>The path that a list of components stands for, as in \<open>/foo/bar\<close>.\<close>

definition path_of :: "string list \<Rightarrow> guest_path" where
  "path_of cs = concat (map (\<lambda>c. SLASH # c) cs)"

lemma path_of_simps [simp]: "path_of [] = []" "path_of (c # cs) = SLASH # c @ path_of cs"
  "path_of (xs @ ys) = path_of xs @ path_of ys"
  by (simp_all add: path_of_def)

lemma split_path_of: "proper_path cs \<Longrightarrow> cs \<noteq> [] \<Longrightarrow> split_char SLASH (path_of cs) = '''' # cs"
proof (induction cs)
  case (Cons c cs)
  then show ?case
    by (cases "cs = []")
      (auto simp: proper_component_def split_char_word split_char_append neq_Nil_conv)
qed simp

lemma apply_proper: "proper_component c \<Longrightarrow> apply_path_component cs c = cs @ [c]"
  by (simp add: apply_path_component_def proper_component_def)

lemma fold_proper: "proper_path ps \<Longrightarrow> foldl apply_path_component cs ps = cs @ ps"
  by (induction ps arbitrary: cs) (simp_all add: apply_proper)

lemma apply_empty [simp]: "apply_path_component cs '''' = cs"
  by (simp add: apply_path_component_def)

lemma resolve_absolute:
  "starts_with_slash p \<Longrightarrow>
    resolve_path p r = Some (strip_duplicate_prefix (foldl apply_path_component [] (split_char SLASH p)))"
  by (simp add: resolve_path_def)

lemma resolve_path_of:
  assumes "proper_path cs" and "cs \<noteq> []"
  shows "resolve_path (path_of cs) r = Some (strip_duplicate_prefix cs)"
proof -
  have "starts_with_slash (path_of cs)" using assms(2) by (cases cs) (simp_all add: starts_with_slash_def)
  then show ?thesis by (simp add: resolve_absolute split_path_of [OF assms] fold_proper [OF assms(1)])
qed

lemma resolve_relative:
  assumes "starts_with_slash base" and "\<not> starts_with_slash p"
  shows "resolve_path p (Some base) = resolve_path (GuestPath_join base p) r"
proof -
  have "starts_with_slash (GuestPath_join base p)"
    using assms(1) by (cases base) (simp_all add: GuestPath_join_def starts_with_slash_def)
  with assms show ?thesis
    by (simp add: resolve_path_def GuestPath_join_def split_char_sep_append)
qed

section \<open>A second way to resolve\<close>

text \<open>
  Reading the components from the last to the first and counting the \<open>..\<close> that have not been used up
  gives the same path as the stack of the code, also where there are more of them than directories.
\<close>

fun resolve_backwards :: "nat \<Rightarrow> string list \<Rightarrow> string list" where
  "resolve_backwards up [] = []"
| "resolve_backwards up (c # before) =
     (if c = '''' \<or> c = ''.'' then resolve_backwards up before
      else if c = ''..'' then resolve_backwards (up + 1) before
      else if up > 0 then resolve_backwards (up - 1) before
      else resolve_backwards 0 before @ [c])"

lemma resolve_backwards_take:
  "resolve_backwards up (rev ps) =
    take (length (foldl apply_path_component [] ps) - up) (foldl apply_path_component [] ps)"
proof (induction ps arbitrary: up rule: rev_induct)
  case (snoc c ps)
  then show ?case
    by (auto simp: apply_path_component_def butlast_conv_take min_def)
qed simp

lemma resolve_backwards_eq: "resolve_backwards 0 (rev ps) = foldl apply_path_component [] ps"
  by (simp add: resolve_backwards_take)

section \<open>The duplicated prefix\<close>

definition occurs_at :: "'a list \<Rightarrow> nat \<Rightarrow> 'a list \<Rightarrow> bool" where
  "occurs_at m i xs \<longleftrightarrow> take (length m) (drop i xs) = m"

lemma window_position_Some:
  "window_position m xs = Some i \<Longrightarrow> occurs_at m i xs \<and> (\<forall>j<i. \<not> occurs_at m j xs)"
proof (induction xs arbitrary: i)
  case (Cons x xs)
  show ?case
  proof (cases "take (length m) (x # xs) = m")
    case True
    with Cons.prems show ?thesis by (simp add: occurs_at_def)
  next
    case False
    with Cons.prems obtain k where k: "window_position m xs = Some k" "i = Suc k"
      by (auto simp: take_Cons' split: if_splits)
    have "\<not> occurs_at m j (x # xs)" if "j < i" for j
      using Cons.IH [OF k(1)] k(2) False that by (cases j) (auto simp: occurs_at_def)
    with Cons.IH [OF k(1)] k(2) show ?thesis by (simp add: occurs_at_def)
  qed
qed (auto simp: occurs_at_def split: if_splits)

lemma window_position_None: "window_position m xs = None \<Longrightarrow> \<not> occurs_at m i xs"
proof (induction xs arbitrary: i)
  case Nil
  then show ?case by (auto simp: occurs_at_def split: if_splits)
next
  case (Cons x xs)
  then show ?case by (cases i) (auto simp: occurs_at_def split: if_splits)
qed

lemma occurs_at_drop: "occurs_at m i (drop n xs) \<longleftrightarrow> occurs_at m (n + i) xs"
  by (simp add: occurs_at_def add.commute)

text \<open>
  With at most one occurrence of the marker nothing is stripped, with two the path starts at the second.
\<close>

lemma strip_single:
  assumes "\<And>i j. occurs_at path_marker i cs \<Longrightarrow> occurs_at path_marker j cs \<Longrightarrow> i = j"
  shows "strip_duplicate_prefix cs = cs"
proof (cases "window_position path_marker cs")
  case (Some i)
  then have i: "occurs_at path_marker i cs" using window_position_Some by blast
  have "window_position path_marker (drop (i + 1) cs) = None"
  proof (cases "window_position path_marker (drop (i + 1) cs)")
    case (Some k)
    then have "occurs_at path_marker (i + 1 + k) cs"
      using window_position_Some [OF Some] by (simp only: occurs_at_drop)
    from assms [OF i this] show ?thesis by simp
  qed
  with Some show ?thesis by (simp add: strip_duplicate_prefix_def)
qed (simp add: strip_duplicate_prefix_def)

lemma window_position_first:
  assumes "occurs_at m i xs" and "\<And>k. k < i \<Longrightarrow> \<not> occurs_at m k xs"
  shows "window_position m xs = Some i"
proof (cases "window_position m xs")
  case None
  then show ?thesis using window_position_None assms(1) by blast
next
  case (Some a)
  from window_position_Some [OF Some] assms have "\<not> a < i" "\<not> i < a" by blast+
  with Some show ?thesis by simp
qed

lemma strip_double:
  assumes "6 < length cs" and "occurs_at path_marker i cs" and "occurs_at path_marker j cs" and "i < j"
    and "\<And>k. k < j \<Longrightarrow> occurs_at path_marker k cs \<Longrightarrow> k = i"
  shows "strip_duplicate_prefix cs = drop j cs"
proof -
  have a: "window_position path_marker cs = Some i"
  proof (rule window_position_first [OF assms(2)])
    fix k assume k: "k < i"
    show "\<not> occurs_at path_marker k cs"
    proof
      assume "occurs_at path_marker k cs"
      from assms(5) [OF _ this] k assms(4) show False by simp
    qed
  qed
  have "window_position path_marker (drop (i + 1) cs) = Some (j - i - 1)"
  proof (rule window_position_first)
    show "occurs_at path_marker (j - i - 1) (drop (i + 1) cs)"
      using assms(3,4) by (simp add: occurs_at_drop)
    fix k assume k: "k < j - i - 1"
    show "\<not> occurs_at path_marker k (drop (i + 1) cs)"
    proof
      assume "occurs_at path_marker k (drop (i + 1) cs)"
      then have "occurs_at path_marker (i + 1 + k) cs" by (simp only: occurs_at_drop)
      from assms(5) [OF _ this] k show False by linarith
    qed
  qed
  with a assms(1,4) show ?thesis by (simp add: strip_duplicate_prefix_def)
qed

text \<open>
  C37: Path resolution.  A path is resolved exactly when it is absolute or is taken relative to an absolute
  one, and then as if it had been appended to it.  The result is the list that one also gets by reading
  the components backwards and dropping a name for each \<open>..\<close> that follows it, whatever the number of
  \<open>..\<close>, cut at the second occurrence of \<open>var/mobile/Applications\<close> when a path of more than six
  components holds it twice; every component of it can name a directory entry.  A list of such
  components that does not repeat the marker is the resolution of the path written from it.
\<close>
theorem resolve_path_correct:
  shows "(resolve_path p r = None \<longleftrightarrow> \<not> starts_with_slash p \<and> (\<forall>base. r = Some base \<longrightarrow> \<not> starts_with_slash base)) \<and>
    (\<forall>base. \<not> starts_with_slash p \<and> r = Some base \<and> starts_with_slash base \<longrightarrow>
      resolve_path p r = resolve_path (GuestPath_join base p) None) \<and>
    (starts_with_slash p \<longrightarrow>
      resolve_path p r = Some (strip_duplicate_prefix (resolve_backwards 0 (rev (split_char SLASH p))))) \<and>
    (\<forall>cs. resolve_path p r = Some cs \<longrightarrow> proper_path cs) \<and>
    (\<forall>cs. proper_path cs \<and> cs \<noteq> [] \<and>
      (\<forall>i j. occurs_at path_marker i cs \<and> occurs_at path_marker j cs \<longrightarrow> i = j) \<longrightarrow>
      resolve_path (path_of cs) r = Some cs)"
proof (intro conjI allI impI)
  show "resolve_path p r = None \<longleftrightarrow> \<not> starts_with_slash p \<and> (\<forall>base. r = Some base \<longrightarrow> \<not> starts_with_slash base)"
    by (cases r) (auto simp: resolve_path_def bind_expect_if)
next
  fix base assume "\<not> starts_with_slash p \<and> r = Some base \<and> starts_with_slash base"
  then show "resolve_path p r = resolve_path (GuestPath_join base p) None" using resolve_relative by blast
next
  assume "starts_with_slash p"
  then show "resolve_path p r = Some (strip_duplicate_prefix (resolve_backwards 0 (rev (split_char SLASH p))))"
    by (simp add: resolve_absolute resolve_backwards_eq)
next
  fix cs assume "resolve_path p r = Some cs"
  then show "proper_path cs" by (rule resolve_path_proper)
next
  fix cs assume a: "proper_path cs \<and> cs \<noteq> [] \<and>
    (\<forall>i j. occurs_at path_marker i cs \<and> occurs_at path_marker j cs \<longrightarrow> i = j)"
  then have "strip_duplicate_prefix cs = cs" by (intro strip_single) blast
  with a show "resolve_path (path_of cs) r = Some cs" by (simp add: resolve_path_of)
qed

theorem resolve_path_correct_witness:
  "resolve_path ''/a/../../b'' None = Some [''b''] \<and> resolve_path (path_of [''x'', ''y'']) None = Some [''x'', ''y'']"
proof
  show "resolve_path ''/a/../../b'' None = Some [''b'']"
    using resolve_path_correct [of "''/a/../../b''" None]
    by (simp add: starts_with_slash_def strip_duplicate_prefix_def)
  have "\<not> occurs_at path_marker i [''x'', ''y'']" for i
    by (rule window_position_None) (simp add: path_marker_def)
  then show "resolve_path (path_of [''x'', ''y'']) None = Some [''x'', ''y'']"
    using resolve_path_correct [of "path_of [''x'', ''y'']" None, THEN conjunct2, THEN conjunct2, THEN conjunct2, THEN conjunct2,
        THEN spec [of _ "[''x'', ''y'']"]]
    by (simp add: proper_component_def)
qed

end
