(* ===== verification/HostFs.thy ===== *)
theory HostFs
  imports Prelude "HOL-Library.AList" "HOL-Library.Sublist"
begin

text \<open>
  The part of the host that the guest filesystem uses: a tree of directories and files, and the functions
  of \<open>std::fs\<close> and \<open>std::path\<close> that \<open>src/fs.rs\<close> calls, with their Unix behaviour.  A host path is the list
  of its components; an empty component stands for a trailing slash, and \<open>.\<close> and \<open>..\<close> are kept until the
  path is walked, as \<open>PathBuf::join\<close> does.  Symbolic links, permissions and failures of the device are left
  out, so that a call fails here exactly when the tree gives it a reason to.
\<close>

type_synonym host_path = "string list"

datatype host_node = Host_dir | Host_file "u8 list"

type_synonym host = "(host_path \<times> host_node) list"

definition node_at :: "host \<Rightarrow> host_path \<Rightarrow> host_node option" where
  "node_at h p = (if p = [] then Some Host_dir else map_of h p)"

text \<open>The kernel's walk along a path: to the place it names, which need not exist yet.\<close>

fun host_walk :: "host \<Rightarrow> host_path \<Rightarrow> host_path \<Rightarrow> host_path option" where
  "host_walk h cur [] = Some cur"
| "host_walk h cur (c # cs) =
     (if node_at h cur \<noteq> Some Host_dir then None
      else if c = '''' \<or> c = ''.'' then host_walk h cur cs
      else if c = ''..'' then host_walk h (butlast cur) cs
      else host_walk h (cur @ [c]) cs)"

definition host_metadata :: "host_path \<Rightarrow> host \<Rightarrow> host_node option" where
  "host_metadata p h = Option.bind (host_walk h [] p) (node_at h)"

definition host_exists :: "host_path \<Rightarrow> host \<Rightarrow> bool" where
  "host_exists p h \<longleftrightarrow> host_metadata p h \<noteq> None"

text \<open>\<open>Path::parent\<close>, which ignores a trailing slash and \<open>.\<close> components.\<close>

definition host_parent :: "host_path \<Rightarrow> host_path" where
  "host_parent p = butlast (filter (\<lambda>c. c \<noteq> '''' \<and> c \<noteq> ''.'') p)"

text \<open>\<open>OpenOptions::open\<close>; combinations without a meaning are refused.\<close>

record open_options =
  opt_read :: bool
  opt_write :: bool
  opt_append :: bool
  opt_create :: bool
  opt_truncate :: bool

definition options_ok :: "open_options \<Rightarrow> bool" where
  "options_ok opts \<longleftrightarrow> (opt_read opts \<or> opt_write opts \<or> opt_append opts) \<and>
     (\<not> opt_write opts \<and> \<not> opt_append opts \<longrightarrow> \<not> opt_truncate opts \<and> \<not> opt_create opts) \<and>
     \<not> (opt_append opts \<and> opt_truncate opts)"

definition host_open :: "open_options \<Rightarrow> host_path \<Rightarrow> host \<Rightarrow> (host_path \<times> host) option" where
  "host_open opts p h =
     (if \<not> options_ok opts then None
      else case host_walk h [] p of
        None \<Rightarrow> None
      | Some q \<Rightarrow>
          (case node_at h q of
             Some Host_dir \<Rightarrow> if opt_write opts \<or> opt_append opts then None else Some (q, h)
           | Some (Host_file bs) \<Rightarrow> Some (q, if opt_truncate opts then AList.update q (Host_file []) h else h)
           | None \<Rightarrow> if opt_create opts then Some (q, AList.update q (Host_file []) h) else None))"

text \<open>\<open>std::fs::write\<close>: create or truncate the file, then write all bytes.\<close>

definition host_write :: "host_path \<Rightarrow> u8 list \<Rightarrow> host \<Rightarrow> host option" where
  "host_write p bs h = do {
     (q, h1) \<leftarrow> host_open \<lparr>opt_read = False, opt_write = True, opt_append = False, opt_create = True, opt_truncate = True\<rparr> p h;
     Some (AList.update q (Host_file bs) h1)
   }"

datatype io_error = Io_not_found | Io_already_exists

definition host_create_dir :: "host_path \<Rightarrow> host \<Rightarrow> io_error + host" where
  "host_create_dir p h =
     (case host_walk h [] p of
        None \<Rightarrow> Inl Io_not_found
      | Some q \<Rightarrow> if node_at h q = None then Inr (AList.update q Host_dir h) else Inl Io_already_exists)"

definition host_is_dir :: "host_path \<Rightarrow> host \<Rightarrow> bool" where
  "host_is_dir p h \<longleftrightarrow> host_metadata p h = Some Host_dir"

lemma host_parent_shorter: "p \<noteq> [] \<Longrightarrow> length (host_parent p) < length p"
  using length_filter_le [of "\<lambda>c. c \<noteq> [] \<and> c \<noteq> ''.''" p]
  by (cases p) (simp_all add: host_parent_def)

text \<open>\<open>std::fs::create_dir_all\<close>: whether it succeeds, and the host, on which a failure leaves the parents made so far.\<close>

function host_create_dir_all :: "host_path \<Rightarrow> host \<Rightarrow> bool \<times> host" where
  "host_create_dir_all p h =
     (if p = [] then (True, h)
      else case host_create_dir p h of
        Inr h1 \<Rightarrow> (True, h1)
      | Inl Io_not_found \<Rightarrow>
          (case host_create_dir_all (host_parent p) h of
             (False, h1) \<Rightarrow> (False, h1)
           | (True, h1) \<Rightarrow> (case host_create_dir p h1 of Inr h2 \<Rightarrow> (True, h2) | Inl _ \<Rightarrow> (host_is_dir p h1, h1)))
      | Inl Io_already_exists \<Rightarrow> (host_is_dir p h, h))"
  by pat_completeness auto
termination
  by (relation "measure (\<lambda>(p, h). length p)") (simp_all add: host_parent_shorter)

declare host_create_dir_all.simps [simp del]

definition has_entries :: "host_path \<Rightarrow> host \<Rightarrow> bool" where
  "has_entries p h \<longleftrightarrow> list_ex (\<lambda>(q, _). strict_prefix p q) h"

definition host_remove_file :: "host_path \<Rightarrow> host \<Rightarrow> host option" where
  "host_remove_file p h = do {
     q \<leftarrow> host_walk h [] p;
     (case node_at h q of Some (Host_file _) \<Rightarrow> Some (AList.delete q h) | _ \<Rightarrow> None)
   }"

definition host_remove_dir :: "host_path \<Rightarrow> host \<Rightarrow> host option" where
  "host_remove_dir p h = do {
     q \<leftarrow> host_walk h [] p;
     (if q \<noteq> [] \<and> node_at h q = Some Host_dir \<and> \<not> has_entries q h then Some (AList.delete q h) else None)
   }"

text \<open>\<open>std::fs::remove_dir_all\<close>.\<close>

definition host_remove_dir_all :: "host_path \<Rightarrow> host \<Rightarrow> host option" where
  "host_remove_dir_all p h = do {
     q \<leftarrow> host_walk h [] p;
     (if q \<noteq> [] \<and> node_at h q = Some Host_dir then Some (filter (\<lambda>(r, _). \<not> prefix q r) h) else None)
   }"

text \<open>
  \<open>std::fs::rename\<close>: a file replaces a file, a directory an empty directory; a directory does not move
  into itself.
\<close>

definition move_entries :: "host_path \<Rightarrow> host_path \<Rightarrow> host \<Rightarrow> host" where
  "move_entries f t h =
     map (\<lambda>(p, n). (if prefix f p then t @ drop (length f) p else p, n)) (AList.delete t h)"

definition host_rename :: "host_path \<Rightarrow> host_path \<Rightarrow> host \<Rightarrow> host option" where
  "host_rename from_path to_path h = do {
     f \<leftarrow> host_walk h [] from_path;
     t \<leftarrow> host_walk h [] to_path;
     (if node_at h f = None then None
      else if f = t then Some h
      else if strict_prefix f t then None
      else case node_at h t of
        None \<Rightarrow> Some (move_entries f t h)
      | Some (Host_file _) \<Rightarrow> if node_at h f = Some Host_dir then None else Some (move_entries f t h)
      | Some Host_dir \<Rightarrow> if node_at h f = Some Host_dir \<and> \<not> has_entries t h then Some (move_entries f t h) else None)
   }"

text \<open>\<open>std::fs::read_dir\<close>: the names of the entries of a directory.\<close>

definition read_dir_names :: "host_path \<Rightarrow> host \<Rightarrow> string list" where
  "read_dir_names p h = remdups (map (\<lambda>(q, _). last q) (filter (\<lambda>(q, _). q \<noteq> [] \<and> butlast q = p) h))"

section \<open>Well-formed hosts\<close>

text \<open>Every entry has a directory above it, and is named by a proper component.\<close>

definition host_name :: "string \<Rightarrow> bool" where
  "host_name c \<longleftrightarrow> c \<noteq> '''' \<and> c \<noteq> ''.'' \<and> c \<noteq> ''..''"

definition host_ok :: "host \<Rightarrow> bool" where
  "host_ok h \<longleftrightarrow> (\<forall>p c. map_of h (p @ [c]) \<noteq> None \<longrightarrow> node_at h p = Some Host_dir \<and> host_name c)"

lemma node_at_Nil [simp]: "node_at h [] = Some Host_dir"
  by (simp add: node_at_def)

lemma host_okD:
  "host_ok h \<Longrightarrow> node_at h (p @ [c]) = Some n \<Longrightarrow> node_at h p = Some Host_dir \<and> host_name c"
  unfolding host_ok_def by (metis append_is_Nil_conv node_at_def not_Cons_self2 option.distinct(1))

lemma node_at_update: "p \<noteq> [] \<Longrightarrow> node_at (AList.update p n h) q = (if q = p then Some n else node_at h q)"
  by (auto simp: node_at_def update_conv')

lemma node_at_delete: "p \<noteq> [] \<Longrightarrow> node_at (AList.delete p h) q = (if q = p then None else node_at h q)"
  by (auto simp: node_at_def delete_conv')

lemma host_walk_append:
  "host_walk h cur (xs @ ys) = Option.bind (host_walk h cur xs) (\<lambda>q. host_walk h q ys)"
  by (induction xs arbitrary: cur) simp_all

text \<open>An existing entry is where its own path leads.\<close>

lemma host_walk_existing:
  assumes "host_ok h" and "node_at h p \<noteq> None"
  shows "host_walk h [] p = Some p"
  using assms(2)
proof (induction p rule: rev_induct)
  case (snoc c p)
  then have "node_at h p = Some Host_dir" "host_name c" using host_okD [OF assms(1)] by auto
  with snoc.IH show ?case by (simp add: host_walk_append host_name_def)
qed simp

lemma host_walk_child:
  assumes "host_ok h" and "node_at h p = Some Host_dir" and "host_name c"
  shows "host_walk h [] (p @ [c]) = Some (p @ [c])"
  using assms host_walk_existing [OF assms(1), of p] by (simp add: host_walk_append host_name_def)

lemma host_ok_prefix:
  assumes "host_ok h" and "node_at h (p @ r) \<noteq> None" and "r \<noteq> []"
  shows "node_at h p = Some Host_dir"
  using assms(2,3)
proof (induction r rule: rev_induct)
  case (snoc c r)
  then have "node_at h (p @ r) = Some Host_dir" using host_okD [OF assms(1), of "p @ r" c] by auto
  with snoc.IH show ?case by (cases "r = []") auto
qed simp

lemma host_ok_update:
  assumes "host_ok h" and "node_at h p = Some Host_dir" and "host_name c"
    and "n = Host_dir \<or> node_at h (p @ [c]) \<noteq> Some Host_dir"
  shows "host_ok (AList.update (p @ [c]) n h)"
  unfolding host_ok_def
proof (intro allI impI)
  fix q d assume e: "map_of (AList.update (p @ [c]) n h) (q @ [d]) \<noteq> None"
  show "node_at (AList.update (p @ [c]) n h) q = Some Host_dir \<and> host_name d"
  proof (cases "q @ [d] = p @ [c]")
    case True
    with assms show ?thesis by (simp add: node_at_update)
  next
    case False
    with e have "node_at h (q @ [d]) \<noteq> None" by (auto simp: update_conv' node_at_def)
    then have "node_at h q = Some Host_dir" "host_name d" using host_okD [OF assms(1)] by auto
    with assms(4) show ?thesis by (auto simp: node_at_update)
  qed
qed

lemma has_entries_iff: "has_entries p h \<longleftrightarrow> (\<exists>q. strict_prefix p q \<and> map_of h q \<noteq> None)"
  unfolding has_entries_def list_ex_iff
  by (force simp: map_of_eq_None_iff image_iff)

lemma host_ok_delete:
  assumes "host_ok h" and "\<not> has_entries p h"
  shows "host_ok (AList.delete p h)"
  unfolding host_ok_def
proof (intro allI impI)
  fix q d assume "map_of (AList.delete p h) (q @ [d]) \<noteq> None"
  then have "map_of h (q @ [d]) \<noteq> None" by (auto simp: delete_conv' split: if_splits)
  moreover from this have "q \<noteq> p" using assms(2) unfolding has_entries_iff by (metis strict_prefixI' append_Cons)
  ultimately show "node_at (AList.delete p h) q = Some Host_dir \<and> host_name d"
    using assms(1) unfolding host_ok_def
    by (metis (no_types, lifting) delete_conv' fun_upd_apply node_at_def)
qed

lemma file_has_no_entries:
  assumes "host_ok h" and "node_at h p = Some (Host_file bs)"
  shows "\<not> has_entries p h"
proof
  assume "has_entries p h"
  then obtain q where "strict_prefix p q" "map_of h q \<noteq> None" unfolding has_entries_iff by blast
  then obtain r where "q = p @ r" "r \<noteq> []" by (auto elim: strict_prefixE')
  with \<open>map_of h q \<noteq> None\<close> have "node_at h p = Some Host_dir"
    by (intro host_ok_prefix [OF assms(1)]) (auto simp: node_at_def)
  with assms(2) show False by simp
qed

end
