(* ===== verification/GuestFs.thy ===== *)
theory GuestFs
  imports GuestPath HostFs
begin

text \<open>
  The guest filesystem of \<open>src/fs.rs\<close>: the tree of \<open>FsNode\<close>, the \<open>Fs\<close> that owns it and its operations,
  over the host of theory \<open>HostFs\<close>.  A \<open>HashMap\<close> is an association list; its order stands for the
  order of iteration, which Rust leaves open, and nothing proved depends on it.  A \<open>&mut\<close> reference into
  the tree is a list of components together with the node found there; what is done through it is written
  back with \<open>put_node\<close>.  Contents of \<open>.ipa\<close> members and bundled resources are parameters.
\<close>

section \<open>Nodes\<close>

datatype file_location = Loc_Path host_path | IpaFileRef nat | ResourceFilePath string

datatype fs_error = AccessDenied | AlreadyExist | DirectoryNotEmpty | DoesNotExist | InvalidParentDir
  | NonexistentParentDir | ReadonlyParentDir

datatype fs_node_type = Type_File | Type_Directory

datatype fs_node =
    FsFile file_location bool
  | FsDirectory "(string \<times> fs_node) list" "host_path option"

text \<open>\<open>PathBuf::join\<close>: an absolute argument replaces the path.\<close>

definition host_join :: "host_path \<Rightarrow> string \<Rightarrow> host_path" where
  "host_join p s = (if starts_with_slash s then tl (split_char SLASH s) else p @ split_char SLASH s)"

text \<open>\<open>FsNode::from_host_dir\<close>: \<open>q\<close> is the place on the host that the path \<open>p\<close> names.\<close>

lemma read_dir_entry:
  assumes "name \<in> set (read_dir_names q h)"
  obtains n where "(q @ [name], n) \<in> set h"
proof -
  from assms obtain r n where r: "(r, n) \<in> set h" "r \<noteq> []" "butlast r = q" "name = last r"
    by (auto simp: read_dir_names_def)
  then have "q @ [name] = r" using append_butlast_last_id by blast
  with r(1) that show thesis by blast
qed

lemma fewer_below:
  assumes "name \<in> set (read_dir_names q h)"
  shows "length (filter (\<lambda>(r, _). strict_prefix (q @ [name]) r) h) < length (filter (\<lambda>(r, _). strict_prefix q r) h)"
proof -
  obtain n where n: "(q @ [name], n) \<in> set h" using assms by (rule read_dir_entry)
  let ?P = "\<lambda>(r, _ :: host_node). strict_prefix q r" and ?Q = "\<lambda>(r, _ :: host_node). strict_prefix (q @ [name]) r"
  have "filter ?Q (filter ?P h) = filter ?Q h"
    unfolding filter_filter by (rule filter_cong) (auto simp: strict_prefix_def prefix_def)
  moreover have "length (filter ?Q (filter ?P h)) < length (filter ?P h)"
    using n by (intro length_filter_less [of "(q @ [name], n)"]) (simp_all add: strict_prefix_def)
  ultimately show ?thesis by simp
qed

function scan_host_dir :: "host \<Rightarrow> host_path \<Rightarrow> host_path \<Rightarrow> bool \<Rightarrow> fs_node" where
  "scan_host_dir h q p writeable =
     FsDirectory
       (map (\<lambda>name. (name,
          case node_at h (q @ [name]) of
            Some (Host_file _) \<Rightarrow> FsFile (Loc_Path (p @ [name])) writeable
          | _ \<Rightarrow> scan_host_dir h (q @ [name]) (p @ [name]) writeable)) (read_dir_names q h))
       (if writeable then Some p else None)"
  by pat_completeness auto
termination
  by (relation "measure (\<lambda>(h, q, p, w). length (filter (\<lambda>(r, _). strict_prefix q r) h))")
    (simp_all add: fewer_below)

declare scan_host_dir.simps [simp del]

definition from_host_dir :: "host_path \<Rightarrow> bool \<Rightarrow> host \<Rightarrow> fs_node option" where
  "from_host_dir p writeable h = do {
     q \<leftarrow> host_walk h [] p;
     expect (node_at h q = Some Host_dir);
     Some (scan_host_dir h q p writeable)
   }"

definition FsNode_dir :: fs_node where "FsNode_dir = FsDirectory [] None"

definition with_child :: "string \<Rightarrow> fs_node \<Rightarrow> fs_node \<Rightarrow> fs_node option" where
  "with_child name child self =
     (case self of
        FsDirectory children writeable \<Rightarrow> do {
          expect (map_of children name = None);
          Some (FsDirectory (AList.update name child children) writeable)
        }
      | FsFile _ _ \<Rightarrow> None)"

definition bundle_zip_file :: "nat \<Rightarrow> fs_node" where
  "bundle_zip_file file_ref = FsFile (IpaFileRef file_ref) False"

definition resource_file :: "string \<Rightarrow> fs_node" where
  "resource_file name = FsFile (ResourceFilePath name) False"

fun update_host_paths_recursively :: "host_path \<Rightarrow> fs_node \<Rightarrow> fs_node" where
  "update_host_paths_recursively new_host_path (FsFile (Loc_Path p) writeable) = FsFile (Loc_Path new_host_path) writeable"
| "update_host_paths_recursively new_host_path (FsDirectory children (Some p)) =
     FsDirectory (map (\<lambda>(name, child). (name, update_host_paths_recursively (new_host_path @ [name]) child)) children)
       (Some new_host_path)"
| "update_host_paths_recursively new_host_path node = node"

section \<open>The filesystem\<close>

record fs =
  root :: fs_node
  working_directory :: guest_path
  home_directory :: guest_path
  cow_dir :: "host_path option"

definition new_fake_fs :: fs where
  "new_fake_fs = \<lparr>root = FsNode_dir, working_directory = [], home_directory = [], cow_dir = None\<rparr>"

fun lookup_node_inner :: "fs_node \<Rightarrow> string list \<Rightarrow> fs_node option" where
  "lookup_node_inner node [] = Some node"
| "lookup_node_inner (FsDirectory children w) (component # components) =
     Option.bind (map_of children component) (\<lambda>node. lookup_node_inner node components)"
| "lookup_node_inner (FsFile l w) (component # components) = None"

definition lookup_node :: "guest_path \<Rightarrow> fs \<Rightarrow> fs_node option option" where
  "lookup_node path fs = map_option (lookup_node_inner (root fs)) (resolve_path path (Some (working_directory fs)))"

definition lookup_parent_node :: "guest_path \<Rightarrow> fs \<Rightarrow> (string list \<times> fs_node \<times> string) option option" where
  "lookup_parent_node path fs = do {
     components \<leftarrow> resolve_path path (Some (working_directory fs));
     Some (if components = [] then None
       else map_option (\<lambda>parent. (butlast components, parent, last components))
         (lookup_node_inner (root fs) (butlast components)))
   }"

text \<open>Writing back a node that was changed through a mutable reference.\<close>

fun put_node :: "string list \<Rightarrow> fs_node \<Rightarrow> fs_node \<Rightarrow> fs_node" where
  "put_node [] new node = new"
| "put_node (component # components) new (FsDirectory children w) =
     (case map_of children component of
        None \<Rightarrow> FsDirectory children w
      | Some node \<Rightarrow> FsDirectory (AList.update component (put_node components new node) children) w)"
| "put_node (component # components) new (FsFile l w) = FsFile l w"

definition exists_node :: "guest_path \<Rightarrow> fs \<Rightarrow> bool option" where
  "exists_node path fs = map_option (\<lambda>n. n \<noteq> None) (lookup_node path fs)"

definition access :: "guest_path \<Rightarrow> fs \<Rightarrow> (bool \<times> bool \<times> bool \<times> bool) option" where
  "access path fs = map_option (\<lambda>n. case n of
       None \<Rightarrow> (False, False, False, False)
     | Some (FsFile _ writeable) \<Rightarrow> (True, True, writeable, False)
     | Some (FsDirectory _ writeable) \<Rightarrow> (True, True, writeable \<noteq> None, True)) (lookup_node path fs)"

definition is_file :: "guest_path \<Rightarrow> fs \<Rightarrow> bool option" where
  "is_file path fs = map_option (\<lambda>n. case n of Some (FsFile _ _) \<Rightarrow> True | _ \<Rightarrow> False) (lookup_node path fs)"

definition is_dir :: "guest_path \<Rightarrow> fs \<Rightarrow> bool option" where
  "is_dir path fs = map_option (\<lambda>n. case n of Some (FsDirectory _ _) \<Rightarrow> True | _ \<Rightarrow> False) (lookup_node path fs)"

definition enumerate :: "guest_path \<Rightarrow> fs \<Rightarrow> string list option option" where
  "enumerate path fs = map_option (\<lambda>n. case n of
       Some (FsDirectory children _) \<Rightarrow> Some (map fst children) | _ \<Rightarrow> None) (lookup_node path fs)"

definition node_type :: "fs_node \<Rightarrow> fs_node_type" where
  "node_type n = (case n of FsFile _ _ \<Rightarrow> Type_File | FsDirectory _ _ \<Rightarrow> Type_Directory)"

definition enumerate_with_types :: "guest_path \<Rightarrow> fs \<Rightarrow> (string \<times> fs_node_type) list option option" where
  "enumerate_with_types path fs = map_option (\<lambda>n. case n of
       Some (FsDirectory children _) \<Rightarrow> Some (map (\<lambda>(name, node). (name, node_type node)) children)
     | _ \<Rightarrow> None) (lookup_node path fs)"

text \<open>\<open>str::to_lowercase\<close> is a parameter, so that the results hold for its Unicode tables.\<close>

fun resolve_case_insensitive_from ::
    "(string \<Rightarrow> string) \<Rightarrow> fs \<Rightarrow> string list \<Rightarrow> guest_path \<Rightarrow> guest_path option option" where
  "resolve_case_insensitive_from lower fs [] resolved_path = Some (Some resolved_path)"
| "resolve_case_insensitive_from lower fs (component # components) resolved_path = do {
     entries \<leftarrow> enumerate resolved_path fs;
     (case Option.bind entries (find (\<lambda>entry. lower entry = lower component)) of
        None \<Rightarrow> Some None
      | Some matching_component \<Rightarrow>
          resolve_case_insensitive_from lower fs components
            ((if resolved_path \<noteq> ''/'' then resolved_path @ ''/'' else resolved_path) @ matching_component))
   }"

definition resolve_case_insensitive_path ::
    "(string \<Rightarrow> string) \<Rightarrow> guest_path \<Rightarrow> fs \<Rightarrow> guest_path option option" where
  "resolve_case_insensitive_path lower path fs = do {
     components \<leftarrow> resolve_path path (Some (working_directory fs));
     resolve_case_insensitive_from lower fs components ''/''
   }"

definition change_working_directory ::
    "(string \<Rightarrow> string) \<Rightarrow> guest_path \<Rightarrow> fs \<Rightarrow> (guest_path option \<times> fs) option" where
  "change_working_directory lower new_path fs = do {
     r \<leftarrow> resolve_case_insensitive_path lower new_path fs;
     (case r of
        None \<Rightarrow> Some (None, fs)
      | Some resolved \<Rightarrow> do {
          d \<leftarrow> is_dir resolved fs;
          if \<not> d then Some (None, fs)
          else Some (Some resolved, fs\<lparr>working_directory := resolved\<rparr>)
        })
   }"

text \<open>
  \<open>enumerate_recursive\<close>: a walk with a stack of names and a stack of iterators, here the lists of what
  they still have to yield.
\<close>

function enumerate_walk ::
    "string list \<Rightarrow> (string \<times> fs_node) list list \<Rightarrow> guest_path list \<Rightarrow> guest_path list option" where
  "enumerate_walk component_stack [] paths = None"
| "enumerate_walk component_stack ([] # iterator_stack) paths =
     (if component_stack = [] then (if iterator_stack = [] then Some paths else None)
      else enumerate_walk (butlast component_stack) iterator_stack paths)"
| "enumerate_walk component_stack (((next_component, next_node) # current_iterator) # iterator_stack) paths =
     (let components = component_stack @ [next_component]; paths1 = paths @ [join_char SLASH components] in
      case next_node of
        FsDirectory children _ \<Rightarrow> enumerate_walk components (children # current_iterator # iterator_stack) paths1
      | FsFile _ _ \<Rightarrow> enumerate_walk component_stack (current_iterator # iterator_stack) paths1)"
  by pat_completeness auto
termination
  by (relation "measures [\<lambda>(cs, its, ps). sum_list (map (\<lambda>it. sum_list (map (\<lambda>(c, n). Suc (size n)) it)) its),
        \<lambda>(cs, its, ps). length its]") (auto simp: size_list_conv_sum_list comp_def case_prod_unfold size_prod_simp)

definition enumerate_recursive :: "guest_path \<Rightarrow> fs \<Rightarrow> guest_path list option option" where
  "enumerate_recursive path fs = do {
     n \<leftarrow> lookup_node path fs;
     (case n of
        Some (FsDirectory children _) \<Rightarrow> map_option Some (enumerate_walk [] [children] [])
      | _ \<Rightarrow> Some None)
   }"

end
