(* ===== verification/FsOps.thy ===== *)
theory FsOps
  imports GuestFs
begin

text \<open>
  The operations of \<open>Fs\<close> in \<open>src/fs.rs\<close> that open files or change the tree and the host under it.  An outer
  \<open>None\<close> is a panic, as where \<open>handle_open_err\<close> meets an I/O error; an inner \<open>None\<close> is the \<open>Err(())\<close> of the
  source.  The construction of the initial filesystem (\<open>Fs::new\<close>) is not modelled.
\<close>

section \<open>Opening files\<close>

datatype guest_file =
    GuestFile_Directory
  | GuestFile_File host_path open_options
  | GuestFile_IpaBundleFile nat
  | GuestFile_ResourceFile string

definition handle_open_err :: "'a option \<Rightarrow> 'a option" where
  "handle_open_err open_result = (case open_result of Some ok \<Rightarrow> Some ok | None \<Rightarrow> None)"

lemma handle_open_err_eq [simp]: "handle_open_err r = r"
  by (simp add: handle_open_err_def split: option.splits)

definition read_only :: open_options where
  "read_only = \<lparr>opt_read = True, opt_write = False, opt_append = False, opt_create = False, opt_truncate = False\<rparr>"

definition Fs_open ::
    "(string \<Rightarrow> string) \<Rightarrow> (string \<Rightarrow> bool) \<Rightarrow> guest_path \<Rightarrow> fs \<Rightarrow> host \<Rightarrow> guest_file option option" where
  "Fs_open lower resource_exists path fs h = do {
     r \<leftarrow> resolve_case_insensitive_path lower path fs;
     (case r of
        None \<Rightarrow> Some None
      | Some resolved_path \<Rightarrow> do {
          node \<leftarrow> lookup_node resolved_path fs;
          (case node of
             None \<Rightarrow> Some None
           | Some (FsFile location _) \<Rightarrow>
               (case location of
                  Loc_Path host_path \<Rightarrow> do {
                    (q, _) \<leftarrow> handle_open_err (host_open read_only host_path h);
                    Some (Some (GuestFile_File q read_only))
                  }
                | IpaFileRef file \<Rightarrow> Some (Some (GuestFile_IpaBundleFile file))
                | ResourceFilePath name \<Rightarrow> do {
                    expect (resource_exists name);
                    Some (Some (GuestFile_ResourceFile name))
                  })
           | Some (FsDirectory _ _) \<Rightarrow> Some None)
        })
   }"

record guest_open_options =
  o_read :: bool
  o_write :: bool
  o_append :: bool
  o_create :: bool
  o_create_new :: bool
  o_truncate :: bool

definition GuestOpenOptions_new :: guest_open_options where
  "GuestOpenOptions_new = \<lparr>o_read = False, o_write = False, o_append = False, o_create = False, o_create_new = False,
     o_truncate = False\<rparr>"

datatype open_action = OpenPath host_path | OpenIpa | OpenResource string | OpenDir | Reject
  | CowIpa host_path "u8 list"

text \<open>
  The inspection of an existing node.  \<open>ipa_open\<close> gives the contents of a member of the archive.  The place
  of a copied file is built from the path as the caller wrote it, component by component.
\<close>

definition cow_host_path :: "host_path \<Rightarrow> guest_path \<Rightarrow> host_path" where
  "cow_host_path cow_base path = foldl host_join cow_base (split_char SLASH (trim_start_char SLASH path))"

definition inspect_existing ::
    "(nat \<Rightarrow> u8 list) \<Rightarrow> guest_path \<Rightarrow> bool \<Rightarrow> bool \<Rightarrow> host_path option \<Rightarrow> host \<Rightarrow> fs_node \<Rightarrow> open_action" where
  "inspect_existing ipa_open path appending write cow_base_opt h existing_file =
     (case existing_file of
        FsFile location writeable \<Rightarrow>
          if \<not> writeable \<and> (appending \<or> write) then
            (case location of
               IpaFileRef ipa_ref \<Rightarrow>
                 (case cow_base_opt of
                    Some cow_base \<Rightarrow>
                      let host_path = cow_host_path cow_base path in
                      CowIpa host_path (if \<not> host_exists host_path h then ipa_open ipa_ref else [])
                  | None \<Rightarrow> Reject)
             | _ \<Rightarrow> Reject)
          else
            (case location of Loc_Path p \<Rightarrow> OpenPath p | IpaFileRef _ \<Rightarrow> OpenIpa | ResourceFilePath n \<Rightarrow> OpenResource n)
      | FsDirectory _ _ \<Rightarrow> if write then Reject else OpenDir)"

text \<open>The extraction of the contents: whether it succeeds, and the host with what was made before a failure.\<close>

definition extract_cow :: "host_path \<Rightarrow> u8 list \<Rightarrow> host \<Rightarrow> bool \<times> host" where
  "extract_cow host_path content h =
     (if content \<noteq> [] then
        (case host_create_dir_all (host_parent host_path) h of
           (False, h1) \<Rightarrow> (False, h1)
         | (True, h1) \<Rightarrow> (case host_write host_path content h1 of None \<Rightarrow> (False, h1) | Some h2 \<Rightarrow> (True, h2)))
      else (True, h))"

definition insert_child :: "string list \<Rightarrow> fs_node \<Rightarrow> string \<Rightarrow> fs_node \<Rightarrow> fs \<Rightarrow> fs" where
  "insert_child parent parent_node name node fs =
     (case parent_node of
        FsDirectory children w \<Rightarrow>
          fs\<lparr>root := put_node parent (FsDirectory (AList.update name node children) w) (root fs)\<rparr>
      | FsFile _ _ \<Rightarrow> fs)"

definition open_host_file ::
    "guest_open_options \<Rightarrow> bool \<Rightarrow> bool \<Rightarrow> host_path \<Rightarrow> host \<Rightarrow> (guest_file \<times> host) option" where
  "open_host_file options write create host_path h =
     (let opts = \<lparr>opt_read = o_read options, opt_write = write, opt_append = o_append options, opt_create = create,
        opt_truncate = o_truncate options\<rparr> in do {
      (q, h1) \<leftarrow> handle_open_err (host_open opts host_path h);
      Some (GuestFile_File q opts, h1)
    })"

text \<open>The last part of \<open>open_with_options\<close>: a new file in a writeable directory.\<close>

definition create_new_file ::
    "guest_path \<Rightarrow> guest_open_options \<Rightarrow> bool \<Rightarrow> fs \<Rightarrow> host \<Rightarrow> (guest_file option \<times> fs \<times> host) option" where
  "create_new_file path options write fs h =
     (if \<not> o_create options \<and> \<not> o_create_new options then Some (None, fs, h)
      else do {
        r \<leftarrow> lookup_parent_node path fs;
        (case r of
           None \<Rightarrow> Some (None, fs, h)
         | Some (parent, parent_node, new_filename) \<Rightarrow>
             (case parent_node of
                FsFile _ _ \<Rightarrow> Some (None, fs, h)
              | FsDirectory _ None \<Rightarrow> Some (None, fs, h)
              | FsDirectory _ (Some dir_host_path) \<Rightarrow> do {
                  expect (SLASH \<notin> set new_filename);
                  let host_path = host_join dir_host_path new_filename;
                  (file, h1) \<leftarrow> open_host_file options write (o_create options \<or> o_create_new options) host_path h;
                  Some (Some file, insert_child parent parent_node new_filename (FsFile (Loc_Path host_path) True) fs, h1)
                }))
      })"

text \<open>Creating or truncating asks for writing, whatever the caller said.\<close>

definition forced_write :: "guest_open_options \<Rightarrow> bool" where
  "forced_write options \<longleftrightarrow> o_write options \<or>
     (o_truncate options \<or> o_create options \<or> o_create_new options) \<and> \<not> o_write options \<and> \<not> o_append options"

definition open_with_options ::
    "(nat \<Rightarrow> u8 list) \<Rightarrow> (string \<Rightarrow> bool) \<Rightarrow> guest_path \<Rightarrow> guest_open_options \<Rightarrow> fs \<Rightarrow> host \<Rightarrow>
      (guest_file option \<times> fs \<times> host) option" where
  "open_with_options ipa_open resource_exists path options fs h = do {
     let appending = o_append options;
     let write = forced_write options;
     r \<leftarrow> lookup_parent_node path fs;
     (case r of
        None \<Rightarrow> Some (None, fs, h)
      | Some (parent, FsFile _ _, new_filename) \<Rightarrow> Some (None, fs, h)
      | Some (parent, FsDirectory children w, new_filename) \<Rightarrow>
          if o_create_new options \<and> map_of children new_filename \<noteq> None then Some (None, fs, h)
          else
            (case (case map_of children new_filename of
                     Some existing_file \<Rightarrow> inspect_existing ipa_open path appending write (cow_dir fs) h existing_file
                   | None \<Rightarrow> Reject) of
               OpenPath host_path \<Rightarrow> do {
                 (file, h1) \<leftarrow> open_host_file options write False host_path h;
                 Some (Some file, fs, h1)
               }
             | OpenIpa \<Rightarrow>
                 (case map_of children new_filename of
                    Some (FsFile (IpaFileRef f) _) \<Rightarrow> Some (Some (GuestFile_IpaBundleFile f), fs, h)
                  | _ \<Rightarrow> Some (None, fs, h))
             | OpenResource name \<Rightarrow> do {
                 expect (resource_exists name);
                 Some (Some (GuestFile_ResourceFile name), fs, h)
               }
             | OpenDir \<Rightarrow> Some (Some GuestFile_Directory, fs, h)
             | CowIpa host_path content \<Rightarrow>
                 (case extract_cow host_path content h of
                    (False, h1) \<Rightarrow> Some (None, fs, h1)
                  | (True, h1) \<Rightarrow> do {
                      let fs1 = insert_child parent (FsDirectory children w) new_filename (FsFile (Loc_Path host_path) True) fs;
                      (file, h2) \<leftarrow> open_host_file options write False host_path h1;
                      Some (Some file, fs1, h2)
                    })
             | Reject \<Rightarrow> create_new_file path options write fs h))
   }"

text \<open>Reading and writing whole files.\<close>

definition Fs_read ::
    "(string \<Rightarrow> string) \<Rightarrow> (nat \<Rightarrow> u8 list) \<Rightarrow> (string \<Rightarrow> u8 list option) \<Rightarrow> guest_path \<Rightarrow> fs \<Rightarrow> host \<Rightarrow>
      u8 list option option" where
  "Fs_read lower ipa_open resource path fs h = do {
     file \<leftarrow> Fs_open lower (\<lambda>n. resource n \<noteq> None) path fs h;
     Some (case file of
        Some (GuestFile_File q _) \<Rightarrow> (case node_at h q of Some (Host_file bs) \<Rightarrow> Some bs | _ \<Rightarrow> None)
      | Some (GuestFile_IpaBundleFile f) \<Rightarrow> Some (ipa_open f)
      | Some (GuestFile_ResourceFile n) \<Rightarrow> resource n
      | _ \<Rightarrow> None)
   }"

definition Fs_write ::
    "(nat \<Rightarrow> u8 list) \<Rightarrow> (string \<Rightarrow> bool) \<Rightarrow> guest_path \<Rightarrow> u8 list \<Rightarrow> fs \<Rightarrow> host \<Rightarrow> (bool \<times> fs \<times> host) option" where
  "Fs_write ipa_open resource_exists path data fs h = do {
     (file, fs1, h1) \<leftarrow> open_with_options ipa_open resource_exists path
       (GuestOpenOptions_new\<lparr>o_write := True, o_create := True, o_truncate := True\<rparr>) fs h;
     Some (case file of
        Some (GuestFile_File q opts) \<Rightarrow> (True, fs1, AList.update q (Host_file data) h1)
      | _ \<Rightarrow> (False, fs1, h1))
   }"

section \<open>Renaming, removing and creating\<close>

definition remove_child :: "string list \<Rightarrow> fs_node \<Rightarrow> string \<Rightarrow> fs \<Rightarrow> fs" where
  "remove_child parent parent_node name fs =
     (case parent_node of
        FsDirectory children w \<Rightarrow> fs\<lparr>root := put_node parent (FsDirectory (AList.delete name children) w) (root fs)\<rparr>
      | FsFile _ _ \<Rightarrow> fs)"

definition movable_host_path :: "fs_node \<Rightarrow> host_path option" where
  "movable_host_path node =
     (case node of
        FsFile (Loc_Path p) True \<Rightarrow> Some p
      | FsDirectory _ (Some p) \<Rightarrow> Some p
      | _ \<Rightarrow> None)"

text \<open>Steps 2 to 4 of a rename, after the host has moved the file or directory.\<close>

definition finish_rename :: "guest_path \<Rightarrow> guest_path \<Rightarrow> host_path \<Rightarrow> fs \<Rightarrow> fs option" where
  "finish_rename from_path to_path to_host_path fs = do {
     from_parent \<leftarrow> lookup_parent_node from_path fs;
     (from_dir, from_parent_node, from_name) \<leftarrow> from_parent;
     (case from_parent_node of
        FsFile _ _ \<Rightarrow> None
      | FsDirectory from_children _ \<Rightarrow> do {
          moving_node \<leftarrow> map_of from_children from_name;
          let fs1 = remove_child from_dir from_parent_node from_name fs;
          let moved = update_host_paths_recursively to_host_path moving_node;
          to_parent_final \<leftarrow> lookup_parent_node to_path fs1;
          (to_dir, to_parent_node, to_name_final) \<leftarrow> to_parent_final;
          (case to_parent_node of
             FsFile _ _ \<Rightarrow> None
           | FsDirectory _ _ \<Rightarrow> Some (insert_child to_dir to_parent_node to_name_final moved fs1))
        })
   }"

definition Fs_rename :: "guest_path \<Rightarrow> guest_path \<Rightarrow> fs \<Rightarrow> host \<Rightarrow> (bool \<times> fs \<times> host) option" where
  "Fs_rename from_path to_path fs h =
     (if from_path = to_path then Some (True, fs, h)
      else do {
        from_node \<leftarrow> lookup_node from_path fs;
        (case Option.bind from_node movable_host_path of
           None \<Rightarrow> Some (False, fs, h)
         | Some from_host_path \<Rightarrow> do {
             to_parent \<leftarrow> lookup_parent_node to_path fs;
             (case to_parent of
                Some (_, FsDirectory _ (Some to_parent_host_path), to_name) \<Rightarrow>
                  (let to_host_path = host_join to_parent_host_path to_name in
                   case host_rename from_host_path to_host_path h of
                     None \<Rightarrow> Some (False, fs, h)
                   | Some h1 \<Rightarrow> do {
                       fs1 \<leftarrow> finish_rename from_path to_path to_host_path fs;
                       Some (True, fs1, h1)
                     })
              | _ \<Rightarrow> Some (False, fs, h))
           })
      })"

definition Fs_remove :: "guest_path \<Rightarrow> fs \<Rightarrow> host \<Rightarrow> ((fs_error + unit) \<times> fs \<times> host) option" where
  "Fs_remove path fs h = do {
     r \<leftarrow> lookup_parent_node path fs;
     (case r of
        None \<Rightarrow> Some (Inl NonexistentParentDir, fs, h)
      | Some (parent, FsFile _ _, node_name) \<Rightarrow> Some (Inl InvalidParentDir, fs, h)
      | Some (parent, FsDirectory children dir_writeable, node_name) \<Rightarrow>
          if dir_writeable = None then Some (Inl ReadonlyParentDir, fs, h)
          else (case map_of children node_name of
              None \<Rightarrow> Some (Inl DoesNotExist, fs, h)
            | Some (FsFile location writeable) \<Rightarrow>
                if \<not> writeable then Some (Inl AccessDenied, fs, h)
                else (case location of
                    Loc_Path host_path \<Rightarrow> do {
                      h1 \<leftarrow> handle_open_err (host_remove_file host_path h);
                      Some (Inr (), remove_child parent (FsDirectory children dir_writeable) node_name fs, h1)
                    }
                  | _ \<Rightarrow> None)
            | Some (FsDirectory entries writeable) \<Rightarrow>
                if entries \<noteq> [] then Some (Inl DirectoryNotEmpty, fs, h)
                else (case writeable of
                    None \<Rightarrow> Some (Inl AccessDenied, fs, h)
                  | Some host_path \<Rightarrow> do {
                      h1 \<leftarrow> handle_open_err (host_remove_dir host_path h);
                      Some (Inr (), remove_child parent (FsDirectory children dir_writeable) node_name fs, h1)
                    })))
   }"

definition Fs_create_dir :: "guest_path \<Rightarrow> fs \<Rightarrow> host \<Rightarrow> ((fs_error + unit) \<times> fs \<times> host) option" where
  "Fs_create_dir path fs h = do {
     r \<leftarrow> lookup_parent_node path fs;
     (case r of
        None \<Rightarrow> Some (Inl NonexistentParentDir, fs, h)
      | Some (parent, FsFile _ _, new_dir_name) \<Rightarrow> Some (Inl InvalidParentDir, fs, h)
      | Some (parent, FsDirectory children writeable, new_dir_name) \<Rightarrow>
          if map_of children new_dir_name \<noteq> None then Some (Inl AlreadyExist, fs, h)
          else (case writeable of
              None \<Rightarrow> Some (Inl ReadonlyParentDir, fs, h)
            | Some dir_host_path \<Rightarrow> do {
                expect (SLASH \<notin> set new_dir_name);
                let host_path = host_join dir_host_path new_dir_name;
                h1 \<leftarrow> (case host_create_dir host_path h of
                   Inr h1 \<Rightarrow> Some h1
                 | Inl Io_already_exists \<Rightarrow> Some h
                 | Inl Io_not_found \<Rightarrow> None);
                Some (Inr (), insert_child parent (FsDirectory children writeable) new_dir_name
                  (FsDirectory [] (Some host_path)) fs, h1)
              }))
   }"

fun create_dirs :: "string list \<Rightarrow> guest_path \<Rightarrow> fs \<Rightarrow> host \<Rightarrow> ((fs_error + unit) \<times> fs \<times> host) option" where
  "create_dirs [] current_path fs h = Some (Inr (), fs, h)"
| "create_dirs (component # components) current_path fs h = do {
     let path = current_path @ SLASH # component;
     (res, fs1, h1) \<leftarrow> Fs_create_dir path fs h;
     (if res = Inr () \<or> res = Inl AlreadyExist then create_dirs components path fs1 h1
      else Some (res, fs1, h1))
   }"

definition Fs_create_dir_all :: "guest_path \<Rightarrow> fs \<Rightarrow> host \<Rightarrow> ((fs_error + unit) \<times> fs \<times> host) option" where
  "Fs_create_dir_all path fs h = do {
     components \<leftarrow> resolve_path path (Some (working_directory fs));
     create_dirs components [] fs h
   }"

end
