(* ===== verification/FsView.thy ===== *)
theory FsView
  imports FsOps
begin

text \<open>
  The abstract view of the guest filesystem: a partial map from lists of components to what is there.  The
  operations on it are a few lines each; the lemmas show that the detailed operations on the tree of nodes
  implement them, and are what every later proof about the filesystem uses.
\<close>

section \<open>The view of a tree\<close>

datatype entry = Entry_file file_location bool | Entry_dir "host_path option"

type_synonym view = "string list \<Rightarrow> entry option"

definition entry_of :: "fs_node \<Rightarrow> entry" where
  "entry_of n = (case n of FsFile l w \<Rightarrow> Entry_file l w | FsDirectory _ w \<Rightarrow> Entry_dir w)"

lemma entry_of_simps [simp]: "entry_of (FsFile l w) = Entry_file l w" "entry_of (FsDirectory ch d) = Entry_dir d"
  by (simp_all add: entry_of_def)

definition view_of :: "fs_node \<Rightarrow> view" where
  "view_of n q = map_option entry_of (lookup_node_inner n q)"

definition fs_view :: "fs \<Rightarrow> view" where
  "fs_view fs = view_of (root fs)"

lemma view_of_Nil [simp]: "view_of n [] = Some (entry_of n)"
  by (simp add: view_of_def)

lemma view_of_file [simp]: "view_of (FsFile l w) q = (if q = [] then Some (Entry_file l w) else None)"
  by (cases q) (simp_all add: view_of_def)

lemma view_of_dir: "view_of (FsDirectory ch w) (c # cs) = Option.bind (map_of ch c) (\<lambda>n. view_of n cs)"
  by (cases "map_of ch c") (simp_all add: view_of_def)

lemma view_of_empty [simp]: "view_of (FsDirectory [] d) q = (if q = [] then Some (Entry_dir d) else None)"
  by (cases q) (simp_all add: view_of_dir)

lemma lookup_append:
  "lookup_node_inner n (xs @ ys) = Option.bind (lookup_node_inner n xs) (\<lambda>m. lookup_node_inner m ys)"
  by (induction n xs rule: lookup_node_inner.induct) (auto split: option.splits bind_splits)

lemma view_of_below: "lookup_node_inner n xs = Some m \<Longrightarrow> view_of n (xs @ ys) = view_of m ys"
  by (simp add: view_of_def lookup_append)

lemma view_of_prefix_dir:
  assumes "view_of n (q @ r) \<noteq> None" and "r \<noteq> []"
  shows "\<exists>w. view_of n q = Some (Entry_dir w)"
proof -
  from assms obtain m where m: "lookup_node_inner n q = Some m" "lookup_node_inner m r \<noteq> None"
    by (cases "lookup_node_inner n q") (auto simp: view_of_def lookup_append)
  with assms(2) show ?thesis by (cases m; cases r) (auto simp: view_of_def)
qed

lemma view_update:
  "view_of (FsDirectory (AList.update name node ch) w) q =
    (if q = [] then Some (Entry_dir w)
     else if hd q = name then view_of node (tl q) else view_of (FsDirectory ch w) q)"
  by (cases q) (simp_all add: view_of_dir update_conv')

lemma view_delete:
  "view_of (FsDirectory (AList.delete name ch) w) q =
    (if q = [] then Some (Entry_dir w) else if hd q = name then None else view_of (FsDirectory ch w) q)"
  by (cases q) (simp_all add: view_of_dir delete_conv')

lemma view_put:
  assumes "lookup_node_inner n p \<noteq> None"
  shows "view_of (put_node p new n) q = (if prefix p q then view_of new (drop (length p) q) else view_of n q)"
  using assms
proof (induction p new n arbitrary: q rule: put_node.induct)
  case (2 c cs new ch w)
  then obtain m where m: "map_of ch c = Some m" by (cases "map_of ch c") auto
  with 2 have IH: "view_of (put_node cs new m) q =
      (if prefix cs q then view_of new (drop (length cs) q) else view_of m q)" for q by simp
  from m show ?case by (cases q) (auto simp: IH view_of_dir update_conv')
qed simp_all

lemma drop_prefix: "prefix p q \<Longrightarrow> p @ drop (length p) q = q"
  by (auto simp: prefix_def)

lemma view_insert_child:
  assumes "lookup_node_inner (root fs) p = Some (FsDirectory ch w)"
  shows "fs_view (insert_child p (FsDirectory ch w) name node fs) q =
    (if prefix (p @ [name]) q then view_of node (drop (Suc (length p)) q) else fs_view fs q)"
proof -
  have "fs_view (insert_child p (FsDirectory ch w) name node fs) q =
      (if prefix p q then view_of (FsDirectory (AList.update name node ch) w) (drop (length p) q) else fs_view fs q)"
    using assms by (simp add: insert_child_def fs_view_def view_put)
  moreover have "view_of (FsDirectory ch w) (drop (length p) q) = fs_view fs q" if "prefix p q"
    using view_of_below [OF assms, of "drop (length p) q"] drop_prefix [OF that] by (simp add: fs_view_def)
  ultimately show ?thesis using view_of_below [OF assms, of "[]"]
    by (auto simp: view_update prefix_def drop_Suc drop_eq_Nil hd_drop_conv_nth tl_drop fs_view_def neq_Nil_conv
        split: if_splits)
qed

lemma view_remove_child:
  assumes "lookup_node_inner (root fs) p = Some (FsDirectory ch w)"
  shows "fs_view (remove_child p (FsDirectory ch w) name fs) q =
    (if prefix (p @ [name]) q then None else fs_view fs q)"
proof -
  have "fs_view (remove_child p (FsDirectory ch w) name fs) q =
      (if prefix p q then view_of (FsDirectory (AList.delete name ch) w) (drop (length p) q) else fs_view fs q)"
    using assms by (simp add: remove_child_def fs_view_def view_put)
  moreover have "view_of (FsDirectory ch w) (drop (length p) q) = fs_view fs q" if "prefix p q"
    using view_of_below [OF assms, of "drop (length p) q"] drop_prefix [OF that] by (simp add: fs_view_def)
  ultimately show ?thesis using view_of_below [OF assms, of "[]"]
    by (auto simp: view_delete prefix_def fs_view_def neq_Nil_conv split: if_splits)
qed

lemma fs_view_missing: "fs_view fs q = None \<Longrightarrow> fs_view fs (q @ r) = None"
  using view_of_prefix_dir [of "root fs" q r] by (cases "r = []"; cases "fs_view fs (q @ r)") (auto simp: fs_view_def)

lemma child_fields [simp]:
  "working_directory (insert_child p n c m fs) = working_directory fs" "cow_dir (insert_child p n c m fs) = cow_dir fs"
  "home_directory (insert_child p n c m fs) = home_directory fs"
  "working_directory (remove_child p n c fs) = working_directory fs" "cow_dir (remove_child p n c fs) = cow_dir fs"
  "home_directory (remove_child p n c fs) = home_directory fs"
  by (cases n; simp add: insert_child_def remove_child_def)+

section \<open>Looking up\<close>

text \<open>The components a path resolves to in a filesystem, when the working directory is absolute.\<close>

definition at_path :: "guest_path \<Rightarrow> fs \<Rightarrow> string list" where
  "at_path path fs = the (resolve_path path (Some (working_directory fs)))"

definition cwd_ok :: "fs \<Rightarrow> bool" where
  "cwd_ok fs \<longleftrightarrow> starts_with_slash (working_directory fs)"

lemma resolve_at_path:
  "cwd_ok fs \<Longrightarrow> resolve_path path (Some (working_directory fs)) = Some (at_path path fs)"
  by (simp add: at_path_def cwd_ok_def resolve_path_def bind_expect_if)

lemma at_path_proper: "cwd_ok fs \<Longrightarrow> proper_path (at_path path fs)"
  using resolve_at_path resolve_path_proper by blast

lemma at_path_cwd: "working_directory fs' = working_directory fs \<Longrightarrow> at_path path fs' = at_path path fs"
  by (simp add: at_path_def)

lemma lookup_node_view:
  "cwd_ok fs \<Longrightarrow> map_option (map_option entry_of) (lookup_node path fs) = Some (fs_view fs (at_path path fs))"
  by (simp add: lookup_node_def resolve_at_path fs_view_def view_of_def)

text \<open>The parent of a path, in terms of the view.\<close>

lemma parent_cases:
  assumes "cwd_ok fs"
  obtains (root) "at_path path fs = []" "lookup_parent_node path fs = Some None"
  | (missing) p c where "at_path path fs = p @ [c]" "fs_view fs p = None" "lookup_parent_node path fs = Some None"
  | (in_file) p c l w where "at_path path fs = p @ [c]" "fs_view fs p = Some (Entry_file l w)"
      "lookup_parent_node path fs = Some (Some (p, FsFile l w, c))"
  | (in_dir) p c ch w where "at_path path fs = p @ [c]" "fs_view fs p = Some (Entry_dir w)"
      "lookup_parent_node path fs = Some (Some (p, FsDirectory ch w, c))"
      "lookup_node_inner (root fs) p = Some (FsDirectory ch w)" "proper_component c" "proper_path p"
proof (cases "at_path path fs" rule: rev_cases)
  case Nil
  with that(1) show thesis by (simp add: lookup_parent_node_def resolve_at_path [OF assms])
next
  case (snoc p c)
  have pr: "proper_component c" "proper_path p" using at_path_proper [OF assms, of path] snoc by simp_all
  show thesis
  proof (cases "lookup_node_inner (root fs) p")
    case None
    with snoc that(2) show thesis
      by (simp add: lookup_parent_node_def resolve_at_path [OF assms] fs_view_def view_of_def)
  next
    case (Some n)
    with snoc pr that(3,4) show thesis
      by (cases n) (simp_all add: lookup_parent_node_def resolve_at_path [OF assms] fs_view_def view_of_def)
  qed
qed

lemma child_view:
  assumes "lookup_node_inner (root fs) p = Some (FsDirectory ch w)"
  shows "fs_view fs (p @ [c]) = map_option entry_of (map_of ch c)"
  using view_of_below [OF assms, of "[c]"] by (cases "map_of ch c") (simp_all add: fs_view_def view_of_dir)

lemma child_view_below:
  assumes "lookup_node_inner (root fs) p = Some (FsDirectory ch w)"
  shows "fs_view fs (p @ c # r) = Option.bind (map_of ch c) (\<lambda>n. view_of n r)"
  using view_of_below [OF assms, of "c # r"] by (simp add: fs_view_def view_of_dir)

text \<open>A name can be joined to a host path as one component.\<close>

lemma host_join_proper: "proper_component c \<Longrightarrow> host_join p c = p @ [c]"
  by (cases c) (auto simp: host_join_def proper_component_def starts_with_slash_def split_char_word)

lemma proper_host_name: "proper_component c \<Longrightarrow> host_name c"
  by (simp add: proper_component_def host_name_def)

section \<open>The operations on the view\<close>

definition spec_create_dir :: "string list \<Rightarrow> view \<Rightarrow> fs_error + view" where
  "spec_create_dir q v =
     (if q = [] then Inl NonexistentParentDir
      else case v (butlast q) of
        None \<Rightarrow> Inl NonexistentParentDir
      | Some (Entry_file _ _) \<Rightarrow> Inl InvalidParentDir
      | Some (Entry_dir w) \<Rightarrow>
          if v q \<noteq> None then Inl AlreadyExist
          else (case w of None \<Rightarrow> Inl ReadonlyParentDir
            | Some p \<Rightarrow> Inr (v(q \<mapsto> Entry_dir (Some (p @ [last q]))))))"

definition spec_remove :: "string list \<Rightarrow> view \<Rightarrow> fs_error + view" where
  "spec_remove q v =
     (if q = [] then Inl NonexistentParentDir
      else case v (butlast q) of
        None \<Rightarrow> Inl NonexistentParentDir
      | Some (Entry_file _ _) \<Rightarrow> Inl InvalidParentDir
      | Some (Entry_dir None) \<Rightarrow> Inl ReadonlyParentDir
      | Some (Entry_dir (Some _)) \<Rightarrow>
          (case v q of
             None \<Rightarrow> Inl DoesNotExist
           | Some (Entry_file _ w) \<Rightarrow> if w then Inr (v(q := None)) else Inl AccessDenied
           | Some (Entry_dir w) \<Rightarrow>
               if \<exists>c. v (q @ [c]) \<noteq> None then Inl DirectoryNotEmpty
               else if w = None then Inl AccessDenied else Inr (v(q := None))))"

lemma create_dir_refines:
  assumes "cwd_ok fs" and "Fs_create_dir path fs h = Some (r, fs', h')"
  shows "(case spec_create_dir (at_path path fs) (fs_view fs) of
      Inl err \<Rightarrow> r = Inl err \<and> fs' = fs \<and> h' = h
    | Inr v \<Rightarrow> r = Inr () \<and> fs_view fs' = v) \<and> working_directory fs' = working_directory fs \<and> cow_dir fs' = cow_dir fs"
  using assms(1)
proof (cases rule: parent_cases [where path = path])
  case (in_dir p c ch w)
  have empty: "fs_view fs (p @ [c] @ r) = None" if "fs_view fs (p @ [c]) = None" for r
    using that child_view [OF in_dir(4)] child_view_below [OF in_dir(4)] by simp
  show ?thesis
  proof (cases "map_of ch c = None \<and> w \<noteq> None")
    case True
    with assms(2) in_dir obtain hp h1 where w: "w = Some hp"
      and r: "r = Inr ()" "fs' = insert_child p (FsDirectory ch w) c (FsDirectory [] (Some (hp @ [c]))) fs"
      by (auto simp: Fs_create_dir_def bind_eq_Some_conv host_join_proper Let_def)
    have "fs_view fs' = (fs_view fs)(p @ [c] \<mapsto> Entry_dir (Some (hp @ [c])))"
    proof
      fix q
      show "fs_view fs' q = ((fs_view fs)(p @ [c] \<mapsto> Entry_dir (Some (hp @ [c])))) q"
        using empty True child_view [OF in_dir(4)]
        by (cases "prefix (p @ [c]) q")
          (auto simp: r(2) view_insert_child [OF in_dir(4)] prefix_def view_of_dir neq_Nil_conv)
    qed
    with True r w in_dir child_view [OF in_dir(4), of c] show ?thesis by (simp add: spec_create_dir_def)
  next
    case False
    with assms(2) in_dir child_view [OF in_dir(4), of c] show ?thesis
      by (auto simp: Fs_create_dir_def spec_create_dir_def)
  qed
qed (use assms(2) in \<open>auto simp: Fs_create_dir_def spec_create_dir_def\<close>)


lemma remove_refines:
  assumes "cwd_ok fs" and "Fs_remove path fs h = Some (r, fs', h')"
  shows "(case spec_remove (at_path path fs) (fs_view fs) of
      Inl err \<Rightarrow> r = Inl err \<and> fs' = fs \<and> h' = h
    | Inr v \<Rightarrow> r = Inr () \<and> fs_view fs' = v) \<and> working_directory fs' = working_directory fs \<and> cow_dir fs' = cow_dir fs"
  using assms(1)
proof (cases rule: parent_cases [where path = path])
  case (in_dir p c ch w)
  note v = child_view [OF in_dir(4)] and below = child_view_below [OF in_dir(4)]
  have gone: "fs_view (remove_child p (FsDirectory ch w) c fs) = (fs_view fs)(p @ [c] := None)"
    if "\<And>d. fs_view fs (p @ [c, d]) = None"
  proof
    fix q
    have "r = [] \<or> fs_view fs (p @ c # r) = None" for r
      using fs_view_missing [OF \<open>\<And>d. fs_view fs (p @ [c, d]) = None\<close>, of "hd r" "tl r"] by (cases r) simp_all
    from this [of "drop (Suc (length p)) q"]
    show "fs_view (remove_child p (FsDirectory ch w) c fs) q = ((fs_view fs)(p @ [c] := None)) q"
      by (auto simp: view_remove_child [OF in_dir(4)] prefix_def)
  qed
  show ?thesis
  proof (cases "map_of ch c")
    case None
    with assms(2) in_dir v [of c] show ?thesis
      by (cases w) (auto simp: Fs_remove_def spec_remove_def)
  next
    case (Some n)
    show ?thesis
    proof (cases n)
      case (FsFile l wr)
      with Some have "\<And>d. fs_view fs (p @ [c, d]) = None" by (simp add: below)
      from gone [OF this] Some FsFile assms(2) in_dir v [of c] show ?thesis
        by (cases w; cases l) (auto simp: Fs_remove_def spec_remove_def bind_eq_Some_conv split: if_splits)
    next
      case (FsDirectory entries wr)
      have e: "(\<exists>d. fs_view fs (p @ [c, d]) \<noteq> None) \<longleftrightarrow> entries \<noteq> []"
        using Some FsDirectory by (cases entries) (auto simp: below view_of_dir split: if_splits)
      show ?thesis
      proof (cases "entries = []")
        case True
        with e have "\<And>d. fs_view fs (p @ [c, d]) = None" by blast
        from gone [OF this] True Some FsDirectory assms(2) in_dir v [of c] e show ?thesis
          by (cases w; cases wr) (auto simp: Fs_remove_def spec_remove_def bind_eq_Some_conv)
      next
        case False
        with Some FsDirectory assms(2) in_dir v [of c] e show ?thesis
          by (cases w) (auto simp: Fs_remove_def spec_remove_def bind_eq_Some_conv)
      qed
    qed
  qed
qed (use assms(2) in \<open>auto simp: Fs_remove_def spec_remove_def\<close>)

text \<open>Renaming: the moved entries get new host paths as far down as every directory is writeable.\<close>

fun replace_host :: "host_path \<Rightarrow> entry \<Rightarrow> entry" where
  "replace_host hp (Entry_file (Loc_Path p) w) = Entry_file (Loc_Path hp) w"
| "replace_host hp (Entry_dir (Some p)) = Entry_dir (Some hp)"
| "replace_host hp e = e"

definition writeable_above :: "view \<Rightarrow> string list \<Rightarrow> bool" where
  "writeable_above v r \<longleftrightarrow> (\<forall>s. strict_prefix s r \<longrightarrow> (\<exists>p. v s = Some (Entry_dir (Some p))))"

definition relocated :: "host_path \<Rightarrow> view \<Rightarrow> view" where
  "relocated hp v r = map_option (\<lambda>e. if writeable_above v r then replace_host (hp @ r) e else e) (v r)"

definition spec_rename :: "string list \<Rightarrow> string list \<Rightarrow> host_path \<Rightarrow> view \<Rightarrow> view" where
  "spec_rename q_from q_to hp v q =
     (if prefix q_to q then relocated hp (\<lambda>r. v (q_from @ r)) (drop (length q_to) q)
      else if prefix q_from q then None else v q)"

lemma writeable_above_Nil [simp]: "writeable_above v []"
  by (simp add: writeable_above_def)

lemma strict_prefix_of_Cons: "strict_prefix s (c # r) \<longleftrightarrow> s = [] \<or> (\<exists>t. s = c # t \<and> strict_prefix t r)"
  by (cases s) (auto simp: strict_prefix_def)

lemma writeable_above_Cons:
  "writeable_above v (c # r) \<longleftrightarrow> (\<exists>p. v [] = Some (Entry_dir (Some p))) \<and> writeable_above (\<lambda>s. v (c # s)) r"
  unfolding writeable_above_def strict_prefix_of_Cons by auto

lemma view_update_readonly_dir:
  "view_of (update_host_paths_recursively hp (FsDirectory ch None)) r = relocated hp (view_of (FsDirectory ch None)) r"
  by (cases r; cases "view_of (FsDirectory ch None) r") (auto simp: relocated_def writeable_above_Cons)

lemma view_update_host_paths:
  "view_of (update_host_paths_recursively hp n) = relocated hp (view_of n)"
proof
  fix r
  show "view_of (update_host_paths_recursively hp n) r = relocated hp (view_of n) r"
  proof (induction hp n arbitrary: r rule: update_host_paths_recursively.induct)
    case (1 hp p w)
    then show ?case by (cases r) (simp_all add: relocated_def)
  next
    case (2 hp ch p)
    show ?case
    proof (cases r)
      case (Cons c cs)
      have m: "map_of (map (\<lambda>(name, child). (name, update_host_paths_recursively (hp @ [name]) child)) ch) c =
          map_option (update_host_paths_recursively (hp @ [c])) (map_of ch c)" by (induction ch) auto
      show ?thesis
      proof (cases "map_of ch c")
        case (Some n)
        then have "(c, n) \<in> set ch" by (rule map_of_SomeD)
        from 2 [OF this refl, of cs] Some Cons m show ?thesis
          by (cases "view_of n cs") (simp_all add: view_of_dir relocated_def writeable_above_Cons)
      qed (use Cons m in \<open>simp add: view_of_dir relocated_def\<close>)
    qed (simp add: relocated_def)
  qed (rule view_update_readonly_dir | simp add: relocated_def)+
qed

lemma movable_view: "movable_host_path n = Some p \<longleftrightarrow>
    entry_of n = Entry_file (Loc_Path p) True \<or> entry_of n = Entry_dir (Some p)"
  by (auto simp: movable_host_path_def entry_of_def split: fs_node.splits file_location.splits bool.splits option.splits)

lemma lookup_node_at: "cwd_ok fs \<Longrightarrow> lookup_node path fs = Some (lookup_node_inner (root fs) (at_path path fs))"
  by (simp add: lookup_node_def resolve_at_path)

lemma fs_view_lookup: "lookup_node_inner (root fs) q = Some n \<Longrightarrow> fs_view fs q = Some (entry_of n)"
  by (simp add: fs_view_def view_of_def)

definition movable :: "entry \<Rightarrow> host_path \<Rightarrow> bool" where
  "movable e p \<longleftrightarrow> e = Entry_file (Loc_Path p) True \<or> e = Entry_dir (Some p)"

text \<open>The steps of a successful rename.\<close>

lemma finish_rename_cases:
  assumes cwd: "cwd_ok fs" and r: "finish_rename from_path to_path hp fs = Some fs'"
  obtains fp fc fch fw moving tp tc tch tw where
      "at_path from_path fs = fp @ [fc]" "lookup_node_inner (root fs) fp = Some (FsDirectory fch fw)"
      "map_of fch fc = Some moving" "at_path to_path fs = tp @ [tc]"
      "lookup_node_inner (root (remove_child fp (FsDirectory fch fw) fc fs)) tp = Some (FsDirectory tch tw)"
      "fs' = insert_child tp (FsDirectory tch tw) tc (update_host_paths_recursively hp moving)
        (remove_child fp (FsDirectory fch fw) fc fs)"
  using cwd
proof (cases rule: parent_cases [where path = from_path])
  case f: (in_dir fp fc fch fw)
  let ?fs1 = "remove_child fp (FsDirectory fch fw) fc fs"
  obtain moving where m: "map_of fch fc = Some moving"
    using r f(3) by (cases "map_of fch fc") (simp_all add: finish_rename_def)
  have cwd1: "cwd_ok ?fs1" using cwd by (simp add: cwd_ok_def)
  have at1: "at_path to_path ?fs1 = at_path to_path fs" by (rule at_path_cwd) simp
  from cwd1 show thesis
  proof (cases rule: parent_cases [where path = to_path])
    case t: (in_dir tp tc tch tw)
    with r f(3) m have "fs' = insert_child tp (FsDirectory tch tw) tc (update_host_paths_recursively hp moving) ?fs1"
      by (simp add: finish_rename_def)
    from that [OF f(1) f(4) m _ t(4) this] at1 t(1) show thesis by simp
  qed (use r f(3) m in \<open>simp_all add: finish_rename_def\<close>)
qed (use r in \<open>simp_all add: finish_rename_def\<close>)

lemma rename_cases:
  assumes cwd: "cwd_ok fs" and r: "Fs_rename from_path to_path fs h = Some (ok, fs', h')" and "from_path \<noteq> to_path"
  obtains (failed) "\<not> ok" "fs' = fs" "h' = h"
  | (renamed) n p tp tc ch d where "ok"
      "lookup_node_inner (root fs) (at_path from_path fs) = Some n" "movable_host_path n = Some p"
      "at_path to_path fs = tp @ [tc]" "lookup_node_inner (root fs) tp = Some (FsDirectory ch (Some d))"
      "host_rename p (d @ [tc]) h = Some h'" "finish_rename from_path to_path (d @ [tc]) fs = Some fs'"
proof (cases "Option.bind (lookup_node_inner (root fs) (at_path from_path fs)) movable_host_path")
  case None
  with r assms(3) that(1) show thesis by (auto simp: Fs_rename_def lookup_node_at [OF cwd])
next
  case (Some p)
  then obtain n where n: "lookup_node_inner (root fs) (at_path from_path fs) = Some n" "movable_host_path n = Some p"
    by (auto simp: bind_eq_Some_conv)
  from cwd show thesis
  proof (cases rule: parent_cases [where path = to_path])
    case t: (in_dir tp tc ch w)
    with r assms(3) n that show thesis
      by (cases w) (auto simp: Fs_rename_def lookup_node_at [OF cwd] host_join_proper Let_def bind_eq_Some_conv
          split: option.splits)
  qed (use r assms(3) n that(1) in \<open>auto simp: Fs_rename_def lookup_node_at [OF cwd]\<close>)
qed

lemma rename_refines:
  assumes "cwd_ok fs" and "Fs_rename from_path to_path fs h = Some (ok, fs', h')" and "from_path \<noteq> to_path"
  shows "working_directory fs' = working_directory fs \<and> cow_dir fs' = cow_dir fs \<and>
    (if ok then
      (\<exists>e p tp tc d. fs_view fs (at_path from_path fs) = Some e \<and> movable e p \<and> at_path to_path fs = tp @ [tc] \<and>
        fs_view fs tp = Some (Entry_dir (Some d)) \<and> host_rename p (d @ [tc]) h = Some h' \<and>
        fs_view fs' = spec_rename (at_path from_path fs) (at_path to_path fs) (d @ [tc]) (fs_view fs) \<and>
        \<not> prefix (at_path from_path fs) tp)
     else fs' = fs \<and> h' = h)"
  using assms
proof (cases rule: rename_cases)
  case (renamed n p tp tc ch d)
  from assms(1) renamed(7) show ?thesis
  proof (cases rule: finish_rename_cases)
    case fin: (1 fp fc fch fw moving tp' tc' tch tw)
    then have tp: "tp' = tp" "tc' = tc" using renamed(4) by simp_all
    note insert = fin(5) [unfolded tp] fin(6) [unfolded tp]
    have below: "fs_view fs (fp @ fc # r) = view_of moving r" for r
      using child_view_below [OF fin(2)] fin(3) by simp
    have "moving = n" using renamed(2) fin(1,3) lookup_append [of "root fs" fp "[fc]"] fin(2) by simp
    have v: "fs_view fs' = spec_rename (fp @ [fc]) (tp @ [tc]) (d @ [tc]) (fs_view fs)"
    proof
      fix q
      show "fs_view fs' q = spec_rename (fp @ [fc]) (tp @ [tc]) (d @ [tc]) (fs_view fs) q"
        unfolding insert(2) view_insert_child [OF insert(1)] view_remove_child [OF fin(2)] spec_rename_def
        by (simp add: view_update_host_paths below)
    qed
    have "fs_view (remove_child fp (FsDirectory fch fw) fc fs) tp \<noteq> None"
      using fs_view_lookup [OF fin(5)] tp by simp
    then have "\<not> prefix (fp @ [fc]) tp" by (simp add: view_remove_child [OF fin(2)] split: if_splits)
    moreover have "fs_view fs (fp @ [fc]) = Some (entry_of n)" using below [of "[]"] \<open>moving = n\<close> by simp
    moreover have "movable (entry_of n) p" using renamed(3) by (simp add: movable_view movable_def)
    ultimately show ?thesis
      using v renamed fin(1,6) fs_view_lookup [OF renamed(5)] by auto
  qed
qed auto

end
