(* ===== verification/FsInv.thy ===== *)
theory FsInv
  imports FsView
begin

text \<open>
  The agreement between the guest filesystem and the host: every node that claims a place on the host has
  it, no two nodes share one, and what lies on the host under a writeable directory is in the tree.  Each
  operation keeps the agreement and does not panic, and changes the host only under the writeable places.
\<close>

section \<open>Agreement\<close>

definition host_of :: "entry \<Rightarrow> host_path option" where
  "host_of e = (case e of Entry_file (Loc_Path p) _ \<Rightarrow> Some p | Entry_dir w \<Rightarrow> w | _ \<Rightarrow> None)"

lemma host_of_simps [simp]:
  "host_of (Entry_file (Loc_Path p) b) = Some p" "host_of (Entry_file (IpaFileRef i) b) = None"
  "host_of (Entry_file (ResourceFilePath n) b) = None" "host_of (Entry_dir d) = d"
  by (simp_all add: host_of_def)

definition backs :: "entry \<Rightarrow> host_node \<Rightarrow> bool" where
  "backs e n \<longleftrightarrow> (case e of Entry_file _ _ \<Rightarrow> n \<noteq> Host_dir | Entry_dir _ \<Rightarrow> n = Host_dir)"

lemma backs_simps [simp]: "backs (Entry_file l b) n \<longleftrightarrow> n \<noteq> Host_dir" "backs (Entry_dir d) n \<longleftrightarrow> n = Host_dir"
  by (simp_all add: backs_def)

definition backed :: "view \<Rightarrow> host \<Rightarrow> bool" where
  "backed v h \<longleftrightarrow> (\<forall>q e p. v q = Some e \<and> host_of e = Some p \<longrightarrow> p \<noteq> [] \<and> (\<exists>n. node_at h p = Some n \<and> backs e n))"

definition unaliased :: "view \<Rightarrow> bool" where
  "unaliased v \<longleftrightarrow> (\<forall>q q' e e' p. v q = Some e \<and> v q' = Some e' \<and> host_of e = Some p \<and> host_of e' = Some p \<longrightarrow> q = q')"

definition complete :: "view \<Rightarrow> host \<Rightarrow> bool" where
  "complete v h \<longleftrightarrow> (\<forall>q p c. v q = Some (Entry_dir (Some p)) \<and> node_at h (p @ [c]) \<noteq> None \<longrightarrow>
     (\<exists>e. v (q @ [c]) = Some e \<and> host_of e = Some (p @ [c])))"

definition writeable_located :: "view \<Rightarrow> bool" where
  "writeable_located v \<longleftrightarrow> (\<forall>q l. v q = Some (Entry_file l True) \<longrightarrow> (\<exists>p. l = Loc_Path p))"

definition tree_like :: "view \<Rightarrow> bool" where
  "tree_like v \<longleftrightarrow> (\<forall>q c. v (q @ [c]) \<noteq> None \<longrightarrow> (\<exists>w. v q = Some (Entry_dir w)))"

definition agrees :: "view \<Rightarrow> host \<Rightarrow> bool" where
  "agrees v h \<longleftrightarrow> host_ok h \<and> backed v h \<and> unaliased v \<and> complete v h \<and> writeable_located v \<and> tree_like v"

lemma agreesD:
  assumes "agrees v h"
  shows "host_ok h" "backed v h" "unaliased v" "complete v h" "writeable_located v" "tree_like v"
  using assms by (simp_all add: agrees_def)

lemma backedD: "backed v h \<Longrightarrow> v q = Some e \<Longrightarrow> host_of e = Some p \<Longrightarrow> p \<noteq> [] \<and> (\<exists>n. node_at h p = Some n \<and> backs e n)"
  by (auto simp: backed_def)

lemma unaliasedD:
  "unaliased v \<Longrightarrow> v q = Some e \<Longrightarrow> v q' = Some e' \<Longrightarrow> host_of e = Some p \<Longrightarrow> host_of e' = Some p \<Longrightarrow> q = q'"
  unfolding unaliased_def by blast

lemma completeD:
  "complete v h \<Longrightarrow> v q = Some (Entry_dir (Some p)) \<Longrightarrow> node_at h (p @ [c]) \<noteq> None \<Longrightarrow>
    \<exists>e. v (q @ [c]) = Some e \<and> host_of e = Some (p @ [c])"
  unfolding complete_def by blast

lemma tree_like_fs_view: "tree_like (fs_view fs)"
  unfolding tree_like_def fs_view_def using view_of_prefix_dir by blast

lemma tree_like_below: "tree_like v \<Longrightarrow> v (q @ r) \<noteq> None \<Longrightarrow> r \<noteq> [] \<Longrightarrow> \<exists>w. v q = Some (Entry_dir w)"
proof (induction r rule: rev_induct)
  case (snoc c r)
  then have "\<exists>w. v (q @ r) = Some (Entry_dir w)" unfolding tree_like_def by (metis append_assoc)
  with snoc.IH [OF snoc.prems(1)] show ?case by (cases "r = []") auto
qed simp

lemma tree_like_dom: "tree_like v \<Longrightarrow> v q = None \<Longrightarrow> v (q @ r) = None"
  using tree_like_below [of v q r] by (cases "r = []"; cases "v (q @ r)") auto

text \<open>What lies on the host under a writeable directory is mirrored by the tree.\<close>

lemma complete_below:
  assumes "agrees v h" and "v q = Some e" and "host_of e = Some p" and "node_at h (p @ r) \<noteq> None"
  shows "\<exists>e'. v (q @ r) = Some e' \<and> host_of e' = Some (p @ r)"
  using assms(4)
proof (induction r rule: rev_induct)
  case Nil
  with assms(2,3) show ?case by simp
next
  case (snoc c r)
  note A = agreesD [OF assms(1)]
  from snoc.prems have dir: "node_at h (p @ r) = Some Host_dir" using host_okD [OF A(1), of "p @ r" c] by auto
  with snoc.IH obtain e' where e': "v (q @ r) = Some e'" "host_of e' = Some (p @ r)" by auto
  with backedD [OF A(2) this] dir have "e' = Entry_dir (Some (p @ r))"
    by (cases e') (auto split: file_location.splits)
  with completeD [OF A(4), of "q @ r" "p @ r" c] e' snoc.prems show ?case by simp
qed

lemma writeable_above_mirrored:
  assumes "agrees v h" and "v q = Some e" and "host_of e = Some p" and "v (q @ r) = Some e'" and "host_of e' = Some (p @ r)"
  shows "writeable_above (\<lambda>s. v (q @ s)) r"
  unfolding writeable_above_def
proof (intro allI impI)
  fix s assume "strict_prefix s r"
  then obtain t where t: "r = s @ t" "t \<noteq> []" by (auto elim: strict_prefixE')
  note A = agreesD [OF assms(1)]
  have "node_at h (p @ s @ t) \<noteq> None" using backedD [OF A(2) assms(4,5)] t by auto
  then have dir: "node_at h (p @ s) = Some Host_dir" using host_ok_prefix [OF A(1), of "p @ s" t] t by simp
  then obtain e'' where "v (q @ s) = Some e''" "host_of e'' = Some (p @ s)"
    using complete_below [OF assms(1-3), of s] by auto
  with backedD [OF A(2) this] dir show "\<exists>p. v (q @ s) = Some (Entry_dir (Some p))"
    by (cases e'') auto
qed

section \<open>Adding and removing an entry\<close>

lemma agrees_add:
  assumes A: "agrees v h" and d: "v q = Some (Entry_dir (Some d))" and c: "host_name c"
    and free: "v (q @ [c]) = None" and e: "host_of e = Some (d @ [c])" "backs e n"
    and w: "\<And>l. e = Entry_file l True \<Longrightarrow> \<exists>p. l = Loc_Path p"
  shows "agrees (v(q @ [c] \<mapsto> e)) (AList.update (d @ [c]) n h)"
proof -
  note A' = agreesD [OF A]
  have new: "node_at h (d @ [c]) = None" using completeD [OF A'(4) d] free by fastforce
  have other: "p \<noteq> d @ [c]" if "v q' = Some e'" "host_of e' = Some p" for q' e' p
    using backedD [OF A'(2) that] new by auto
  have d_dir: "node_at h d = Some Host_dir" using backedD [OF A'(2) d] by auto
  have empty: "v (q @ [c] @ r) = None" for r using tree_like_dom [OF A'(6) free] by simp
  have ok: "host_ok (AList.update (d @ [c]) n h)" using host_ok_update [OF A'(1) d_dir c] new by simp
  have b: "backed (v(q @ [c] \<mapsto> e)) (AList.update (d @ [c]) n h)"
    using A'(2) e other by (auto simp: backed_def node_at_update) blast
  have u: "unaliased (v(q @ [c] \<mapsto> e))"
    using A'(3) other e unfolding unaliased_def by (auto split: if_splits) blast+
  have cm: "complete (v(q @ [c] \<mapsto> e)) (AList.update (d @ [c]) n h)"
    unfolding complete_def
  proof (intro allI impI, elim conjE)
    fix q' p c' assume q': "(v(q @ [c] \<mapsto> e)) q' = Some (Entry_dir (Some p))"
      and n: "node_at (AList.update (d @ [c]) n h) (p @ [c']) \<noteq> None"
    show "\<exists>e'. (v(q @ [c] \<mapsto> e)) (q' @ [c']) = Some e' \<and> host_of e' = Some (p @ [c'])"
    proof (cases "q' = q @ [c]")
      case True
      with q' e have "p = d @ [c]" by simp
      with n new host_okD [OF A'(1), of "d @ [c]" c'] show ?thesis by (auto simp: node_at_update)
    next
      case False
      with q' have v: "v q' = Some (Entry_dir (Some p))" by simp
      show ?thesis
      proof (cases "p = d \<and> c' = c")
        case True
        then have "q' = q" using unaliasedD [OF A'(3) v d] by simp
        with True e show ?thesis by simp
      next
        case False
        with n have "node_at h (p @ [c']) \<noteq> None" by (auto simp: node_at_update)
        with completeD [OF A'(4) v] free show ?thesis by fastforce
      qed
    qed
  qed
  have t: "tree_like (v(q @ [c] \<mapsto> e))"
    using A'(6) d empty unfolding tree_like_def by (auto split: if_splits)
  show ?thesis
    using ok b u cm t A'(5) w by (auto simp: agrees_def writeable_located_def)
qed

text \<open>New contents for a file, and a file that becomes writeable.\<close>

lemma agrees_contents:
  assumes A: "agrees v h" and f: "node_at h p = Some (Host_file bs)"
  shows "agrees v (AList.update p (Host_file bs') h)"
proof -
  note A' = agreesD [OF A]
  have p: "p \<noteq> []" using f by auto
  have n: "node_at (AList.update p (Host_file bs') h) q = (if q = p then Some (Host_file bs') else node_at h q)" for q
    by (rule node_at_update [OF p])
  obtain d c where dc: "p = d @ [c]" using p by (cases p rule: rev_cases) auto
  then have "host_ok (AList.update p (Host_file bs') h)"
    using host_okD [OF A'(1)] f by (auto intro!: host_ok_update [OF A'(1)])
  moreover have "backed v (AList.update p (Host_file bs') h)"
    unfolding backed_def n
  proof (intro allI impI, elim conjE)
    fix q e r assume "v q = Some e" "host_of e = Some r"
    with backedD [OF A'(2) this] f
    show "r \<noteq> [] \<and> (\<exists>n. (if r = p then Some (Host_file bs') else node_at h r) = Some n \<and> backs e n)"
      by (cases e) auto
  qed
  moreover have "complete v (AList.update p (Host_file bs') h)"
    using A'(4) f unfolding complete_def n by (auto split: if_splits)
  ultimately show ?thesis using A' by (simp add: agrees_def)
qed

lemma agrees_upgrade:
  assumes A: "agrees v h" and e: "v q = Some (Entry_file l w)" and dir: "v (butlast q) = Some (Entry_dir (Some d))" and q: "q \<noteq> []"
    and l: "l = Loc_Path (d @ [last q])"
  shows "agrees (v(q \<mapsto> Entry_file l True)) h"
proof -
  note A' = agreesD [OF A]
  have "host_of (Entry_file l w) = host_of (Entry_file l True)" using l by simp
  then have h: "map_option host_of ((v(q \<mapsto> Entry_file l True)) q') = map_option host_of (v q')" for q' using e by simp
  have same: "(\<exists>e. (v(q \<mapsto> Entry_file l True)) q' = Some e \<and> host_of e = Some p) \<longleftrightarrow> (\<exists>e. v q' = Some e \<and> host_of e = Some p)"
    for q' p using e l by auto
  have "backed (v(q \<mapsto> Entry_file l True)) h" using A'(2) e l by (fastforce simp: backed_def)
  moreover have "unaliased (v(q \<mapsto> Entry_file l True))"
    using A'(3) same unfolding unaliased_def by metis
  moreover have "complete (v(q \<mapsto> Entry_file l True)) h"
    unfolding complete_def same using A'(4) by (auto simp: complete_def)
  moreover have "tree_like (v(q \<mapsto> Entry_file l True))"
    unfolding tree_like_def
  proof (intro allI impI)
    fix q' c assume "(v(q \<mapsto> Entry_file l True)) (q' @ [c]) \<noteq> None"
    then have "v (q' @ [c]) \<noteq> None" using e by (auto split: if_splits)
    then obtain w' where "v q' = Some (Entry_dir w')" using A'(6) by (auto simp: tree_like_def)
    with e show "\<exists>w. (v(q \<mapsto> Entry_file l True)) q' = Some (Entry_dir w)" by auto
  qed
  ultimately show ?thesis using A' l by (auto simp: agrees_def writeable_located_def)
qed

lemma agrees_remove:
  assumes A: "agrees v h" and e: "v q = Some e" "host_of e = Some p" and q: "q \<noteq> []"
    and empty: "\<And>c. v (q @ [c]) = None"
  shows "agrees (v(q := None)) (AList.delete p h)" and "\<not> has_entries p h"
proof -
  note A' = agreesD [OF A]
  have p: "p \<noteq> []" using backedD [OF A'(2) e] by simp
  show no: "\<not> has_entries p h"
  proof
    assume "has_entries p h"
    then obtain z where z: "strict_prefix p z" "map_of h z \<noteq> None" unfolding has_entries_iff by blast
    then obtain r where r: "map_of h (p @ r) \<noteq> None" "r \<noteq> []" by (auto elim!: strict_prefixE')
    then have "node_at h (p @ r) \<noteq> None" by (simp add: node_at_def)
    then have "v (q @ r) \<noteq> None" using complete_below [OF A e] by fastforce
    with r(2) tree_like_dom [OF A'(6) empty, of "hd r" "tl r"] show False by (cases r) simp_all
  qed
  have other: "p' \<noteq> p" if "v q' = Some e'" "host_of e' = Some p'" "q' \<noteq> q" for q' e' p'
    using unaliasedD [OF A'(3) that(1) e(1) _ e(2)] that by blast
  have "backed (v(q := None)) (AList.delete p h)"
    unfolding backed_def node_at_delete [OF p]
  proof (intro allI impI, elim conjE)
    fix q' e' r assume "(v(q := None)) q' = Some e'" "host_of e' = Some r"
    moreover from this have "v q' = Some e'" "q' \<noteq> q" by (auto split: if_splits)
    ultimately show "r \<noteq> [] \<and> (\<exists>n. (if r = p then None else node_at h r) = Some n \<and> backs e' n)"
      using backedD [OF A'(2)] other by simp
  qed
  moreover have "complete (v(q := None)) (AList.delete p h)"
    unfolding complete_def
  proof (intro allI impI, elim conjE)
    fix q' p' c assume v: "(v(q := None)) q' = Some (Entry_dir (Some p'))"
      and n: "node_at (AList.delete p h) (p' @ [c]) \<noteq> None"
    then have n': "node_at h (p' @ [c]) \<noteq> None" "p' @ [c] \<noteq> p" by (auto simp: node_at_delete [OF p] split: if_splits)
    from v have "v q' = Some (Entry_dir (Some p'))" by (auto split: if_splits)
    from completeD [OF A'(4) this n'(1)] obtain e' where "v (q' @ [c]) = Some e'" "host_of e' = Some (p' @ [c])" by blast
    with e n'(2) show "\<exists>e. (v(q := None)) (q' @ [c]) = Some e \<and> host_of e = Some (p' @ [c])" by auto
  qed
  moreover have "tree_like (v(q := None))"
    using A'(6) empty unfolding tree_like_def by (auto split: if_splits)
  ultimately show "agrees (v(q := None)) (AList.delete p h)"
    using A' host_ok_delete [OF A'(1) no] by (auto simp: agrees_def unaliased_def writeable_located_def)
qed

section \<open>Renaming\<close>

lemma map_of_rename_key:
  assumes "\<forall>k \<in> fst ` set l. g k = q \<longleftrightarrow> k = k0"
  shows "map_of (map (\<lambda>(p, n). (g p, n)) l) q = map_of l k0"
  using assms by (induction l) auto

lemma map_of_rename_none:
  assumes "\<forall>k \<in> fst ` set l. g k \<noteq> q"
  shows "map_of (map (\<lambda>(p, n). (g p, n)) l) q = None"
  using assms by (induction l) auto

lemma node_at_move:
  assumes "f \<noteq> []" and "t \<noteq> []" and "\<not> prefix f t" and below: "\<And>r. r \<noteq> [] \<Longrightarrow> node_at h (t @ r) = None"
  shows "node_at (move_entries f t h) q =
    (if prefix t q then node_at h (f @ drop (length t) q) else if prefix f q then None else node_at h q)"
proof (cases "q = []")
  case True
  with assms(1,2) show ?thesis by simp
next
  case q: False
  let ?l = "AList.delete t h" and ?g = "\<lambda>p. if prefix f p then t @ drop (length f) p else p"
  have keys: "\<not> prefix t k" if "k \<in> fst ` set ?l" for k
  proof
    assume "prefix t k"
    then obtain r where k: "k = t @ r" by (auto simp: prefix_def)
    have "map_of ?l k \<noteq> None" using that by (metis map_of_eq_None_iff)
    with k below [of r] assms(2) show False by (cases "r = []") (auto simp: node_at_def delete_conv')
  qed
  have m: "node_at (move_entries f t h) q = map_of (map (\<lambda>(p, n). (?g p, n)) ?l) q"
    using q by (simp add: node_at_def move_entries_def)
  show ?thesis
  proof (cases "prefix t q")
    case True
    have "map_of (map (\<lambda>(p, n). (?g p, n)) ?l) q = map_of ?l (f @ drop (length t) q)"
    proof (rule map_of_rename_key, rule ballI)
      fix k assume "k \<in> fst ` set ?l"
      from keys [OF this] True show "?g k = q \<longleftrightarrow> k = f @ drop (length t) q" by (auto simp: prefix_def)
    qed
    moreover have "f @ drop (length t) q \<noteq> t" using assms(3) by (metis prefixI)
    ultimately show ?thesis using m True assms(1) by (simp add: node_at_def delete_conv')
  next
    case nt: False
    show ?thesis
    proof (cases "prefix f q")
      case True
      have "map_of (map (\<lambda>(p, n). (?g p, n)) ?l) q = None"
      proof (intro map_of_rename_none ballI)
        fix k show "?g k \<noteq> q" using True nt by (metis prefixI)
      qed
      with m True nt show ?thesis by simp
    next
      case False
      have "map_of (map (\<lambda>(p, n). (?g p, n)) ?l) q = map_of ?l q"
      proof (intro map_of_rename_key ballI)
        fix k show "?g k = q \<longleftrightarrow> k = q" using False nt by (metis prefixI)
      qed
      moreover have "q \<noteq> t" using nt by auto
      ultimately show ?thesis using m False nt q by (simp add: node_at_def delete_conv')
    qed
  qed
qed

text \<open>When \<open>std::fs::rename\<close> succeeds on places the tree knows of.\<close>

lemma host_rename_cases:
  assumes "host_ok h" and "node_at h f \<noteq> None" and "node_at h d = Some Host_dir" and "host_name c" and "f \<noteq> []"
    and "host_rename f (d @ [c]) h = Some h'"
  obtains (same) "f = d @ [c]" "h' = h"
  | (moved) "\<not> prefix f (d @ [c])" "\<not> prefix (d @ [c]) f" "h' = move_entries f (d @ [c]) h"
      "\<And>r. r \<noteq> [] \<Longrightarrow> node_at h (d @ c # r) = None"
proof -
  let ?t = "d @ [c]"
  have w: "host_walk h [] f = Some f" "host_walk h [] ?t = Some ?t"
    using host_walk_existing [OF assms(1,2)] host_walk_child [OF assms(1,3,4)] by simp_all
  show thesis
  proof (cases "f = ?t")
    case True
    with assms(6,2) w(2) have "h' = h" by (auto simp: host_rename_def)
    with True that(1) show thesis by simp
  next
    case False
    with assms(6,2) w have nf: "\<not> prefix f ?t" "h' = move_entries f ?t h"
      by (auto simp: host_rename_def strict_prefix_def split: if_splits option.splits host_node.splits)
    have below: "node_at h (?t @ r) = None" if r: "r \<noteq> []" for r
    proof (rule ccontr)
      assume n: "node_at h (?t @ r) \<noteq> None"
      then have dir: "node_at h ?t = Some Host_dir" using host_ok_prefix [OF assms(1) _ r] by blast
      have "has_entries ?t h" unfolding has_entries_iff
        using n r by (intro exI [of _ "?t @ r"]) (simp add: node_at_def strict_prefix_def)
      with dir assms(6,2) w False nf show False by (simp add: host_rename_def strict_prefix_def split: if_splits)
    qed
    moreover have "\<not> prefix ?t f"
    proof
      assume "prefix ?t f"
      then obtain r where "f = ?t @ r" by (auto simp: prefix_def)
      with below [of r] assms(2) False show False by (cases "r = []") auto
    qed
    ultimately show thesis using that(2) nf by simp
  qed
qed

lemma replace_host_None [simp]: "host_of e = None \<Longrightarrow> replace_host hp e = e"
  by (cases "(hp, e)" rule: replace_host.cases) auto

lemma replace_host_Some:
  "host_of e = Some p \<Longrightarrow> host_of (replace_host hp e) = Some hp \<and> backs (replace_host hp e) = backs e"
  by (cases "(hp, e)" rule: replace_host.cases) (auto simp: backs_def)

lemma replace_host_same: "host_of e = Some hp \<Longrightarrow> replace_host hp e = e"
  by (cases "(hp, e)" rule: replace_host.cases) auto

lemma replace_host_kind [simp]:
  "replace_host hp e = Entry_dir d \<Longrightarrow> \<exists>d'. e = Entry_dir d'"
  by (cases "(hp, e)" rule: replace_host.cases) auto

text \<open>The subtree that is moved holds no place of its own on the host: no directory mounted inside it.\<close>

definition pure_subtree :: "view \<Rightarrow> string list \<Rightarrow> host_path \<Rightarrow> bool" where
  "pure_subtree v q f \<longleftrightarrow> (\<forall>r e p. v (q @ r) = Some e \<and> host_of e = Some p \<longrightarrow> p = f @ r)"

lemma host_ok_move:
  assumes ok: "host_ok h" and d: "node_at h d = Some Host_dir" and c: "host_name c" and f: "f \<noteq> []"
    and t: "\<not> prefix f (d @ [c])" and below: "\<And>r. r \<noteq> [] \<Longrightarrow> node_at h (d @ c # r) = None"
  shows "host_ok (move_entries f (d @ [c]) h)"
  unfolding host_ok_def
proof (intro allI impI)
  let ?t = "d @ [c]" and ?h' = "move_entries f (d @ [c]) h"
  have n: "node_at ?h' q = (if prefix ?t q then node_at h (f @ drop (length ?t) q) else if prefix f q then None else node_at h q)" for q
    using below t by (intro node_at_move) (simp_all add: f)
  fix p a assume "map_of ?h' (p @ [a]) \<noteq> None"
  then have x: "node_at ?h' (p @ [a]) \<noteq> None" by (simp add: node_at_def)
  show "node_at ?h' p = Some Host_dir \<and> host_name a"
  proof (cases "p @ [a] = ?t")
    case True
    then have "\<not> prefix ?t p" "\<not> prefix f p" using t by (auto simp: prefix_def)
    with True d c show ?thesis by (simp add: n)
  next
    case False
    show ?thesis
    proof (cases "prefix ?t p")
      case True
      then obtain r where r: "p = ?t @ r" by (auto simp: prefix_def)
      with x have "node_at h ((f @ r) @ [a]) \<noteq> None" by (simp add: n prefix_def)
      then have "node_at h (f @ r) = Some Host_dir" "host_name a" using host_okD [OF ok] by blast+
      with r show ?thesis by (simp add: n)
    next
      case np: False
      then have nt: "\<not> prefix ?t (p @ [a])" using False np by auto
      with x have nf: "\<not> prefix f (p @ [a])" "node_at h (p @ [a]) \<noteq> None" by (auto simp: n split: if_splits)
      then have "node_at h p = Some Host_dir" "host_name a" using host_okD [OF ok] by blast+
      moreover have "\<not> prefix f p" using nf by (auto simp: prefix_def)
      ultimately show ?thesis using np by (simp add: n)
    qed
  qed
qed

lemma agrees_rename:
  assumes A: "agrees v h" and e: "v qf = Some e" "host_of e = Some f" and pure: "pure_subtree v qf f"
    and tp: "v tp = Some (Entry_dir (Some d))" and tc: "host_name tc" and np: "\<not> prefix qf tp"
    and rn: "host_rename f (d @ [tc]) h = Some h'"
  shows "agrees (spec_rename qf (tp @ [tc]) (d @ [tc]) v) h'"
proof -
  note A' = agreesD [OF A]
  let ?t = "d @ [tc]" and ?qt = "tp @ [tc]" and ?v' = "spec_rename qf (tp @ [tc]) (d @ [tc]) v"
  have f: "f \<noteq> []" "node_at h f \<noteq> None" using backedD [OF A'(2) e] by auto
  have d: "node_at h d = Some Host_dir" using backedD [OF A'(2) tp] by auto
  have at_f: "q = qf @ r" if "v q = Some e'" "host_of e' = Some (f @ r)" for q e' r
  proof -
    have "node_at h (f @ r) \<noteq> None" using backedD [OF A'(2) that] by auto
    then obtain e'' where "v (qf @ r) = Some e''" "host_of e'' = Some (f @ r)" using complete_below [OF A e] by blast
    with that show ?thesis using unaliasedD [OF A'(3)] by blast
  qed
  have at_t: "q = ?qt" if "v q = Some e'" "host_of e' = Some ?t" for q e'
  proof -
    have "node_at h ?t \<noteq> None" using backedD [OF A'(2) that] by auto
    with completeD [OF A'(4) tp] that show ?thesis using unaliasedD [OF A'(3)] by blast
  qed
  have moved: "?v' (?qt @ r) = map_option (\<lambda>e. if host_of e = None then e else replace_host (?t @ r) e) (v (qf @ r))" for r
  proof (cases "v (qf @ r)")
    case (Some e')
    show ?thesis
    proof (cases "host_of e'")
      case (Some p)
      then have "p = f @ r" using pure \<open>v (qf @ r) = Some e'\<close> by (auto simp: pure_subtree_def)
      with Some \<open>v (qf @ r) = Some e'\<close> writeable_above_mirrored [OF A e, of r e'] show ?thesis
        by (simp add: spec_rename_def relocated_def prefix_def)
    qed (use Some in \<open>simp add: spec_rename_def relocated_def prefix_def\<close>)
  qed (simp add: spec_rename_def relocated_def prefix_def)
  have stays: "?v' q = (if prefix qf q then None else v q)" if "\<not> prefix ?qt q" for q
    using that by (simp add: spec_rename_def)
  from A'(1) f(2) d tc f(1) rn show ?thesis
  proof (cases rule: host_rename_cases)
    case same
    have "qf = ?qt" using at_t [OF e(1)] e(2) same by simp
    have "?v' q = v q" for q
    proof (cases "prefix ?qt q")
      case True
      then obtain r where q: "q = ?qt @ r" by (auto simp: prefix_def)
      show ?thesis
      proof (cases "v q")
        case (Some e')
        then have "host_of e' = None \<or> host_of e' = Some (?t @ r)"
          using pure q \<open>qf = ?qt\<close> same by (cases "host_of e'") (auto simp: pure_subtree_def)
        with Some q \<open>qf = ?qt\<close> show ?thesis using moved [of r] by (auto simp: replace_host_same)
      qed (use q \<open>qf = ?qt\<close> moved [of r] in simp)
    qed (use stays \<open>qf = ?qt\<close> in simp)
    then have "?v' = v" by blast
    with A same show ?thesis by simp
  next
    case m: moved
    have n: "node_at h' q = (if prefix ?t q then node_at h (f @ drop (length ?t) q) else if prefix f q then None else node_at h q)" for q
      unfolding m(3) using m(1,4) by (intro node_at_move) (simp_all add: f)
    have K: "(\<exists>r e0. q = ?qt @ r \<and> p = ?t @ r \<and> v (qf @ r) = Some e0 \<and> host_of e0 = Some (f @ r) \<and> backs e' = backs e0 \<and>
          e' = replace_host p e0) \<or>
        \<not> prefix ?qt q \<and> \<not> prefix qf q \<and> v q = Some e' \<and> \<not> prefix f p \<and> \<not> prefix ?t p"
      if "?v' q = Some e'" "host_of e' = Some p" for q e' p
    proof (cases "prefix ?qt q")
      case True
      then obtain r where q: "q = ?qt @ r" by (auto simp: prefix_def)
      with that moved [of r] obtain e0 where e0: "v (qf @ r) = Some e0" "host_of e0 \<noteq> None" "e' = replace_host (?t @ r) e0"
        by (cases "v (qf @ r)") (auto split: if_splits)
      then have "host_of e0 = Some (f @ r)" using pure by (auto simp: pure_subtree_def)
      with replace_host_Some [OF this, of "?t @ r"] e0 q that(2) show ?thesis by auto
    next
      case False
      with that stays have v: "v q = Some e'" "\<not> prefix qf q" by (auto split: if_splits)
      have "\<not> prefix f p" using at_f [OF v(1)] that(2) v(2) by (auto simp: prefix_def)
      moreover have "\<not> prefix ?t p"
      proof
        assume "prefix ?t p"
        then obtain r where p: "p = ?t @ r" by (auto simp: prefix_def)
        have "r = []" using m(4) [of r] backedD [OF A'(2) v(1) that(2)] p by (cases "r = []") auto
        with at_t [OF v(1)] that(2) p False show False by simp
      qed
      ultimately show ?thesis using v False by simp
    qed
    have "host_ok h'" unfolding m(3) using m by (intro host_ok_move [OF A'(1) d tc f(1)]) simp_all
    moreover have "backed ?v' h'"
      unfolding backed_def
    proof (intro allI impI, elim conjE)
      fix q e' p assume a: "?v' q = Some e'" "host_of e' = Some p"
      from K [OF this] show "p \<noteq> [] \<and> (\<exists>n. node_at h' p = Some n \<and> backs e' n)"
      proof (elim disjE exE conjE)
        fix r e0 assume "p = ?t @ r" "v (qf @ r) = Some e0" "host_of e0 = Some (f @ r)" "backs e' = backs e0"
        with backedD [OF A'(2) \<open>v (qf @ r) = Some e0\<close> \<open>host_of e0 = Some (f @ r)\<close>] show ?thesis by (simp add: n)
      next
        assume "v q = Some e'" "\<not> prefix f p" "\<not> prefix ?t p"
        with backedD [OF A'(2) \<open>v q = Some e'\<close> a(2)] show ?thesis by (simp add: n)
      qed
    qed
    moreover have "unaliased ?v'"
      unfolding unaliased_def
    proof (intro allI impI, elim conjE)
      fix q q' e1 e2 p assume a: "?v' q = Some e1" "?v' q' = Some e2" "host_of e1 = Some p" "host_of e2 = Some p"
      from K [OF a(1,3)] K [OF a(2,4)] show "q = q'"
        using unaliasedD [OF A'(3) _ _ a(3,4)] by (elim disjE exE conjE) (auto simp: prefix_def)
    qed
    moreover have "complete ?v' h'"
      unfolding complete_def
    proof (intro allI impI, elim conjE)
      fix q p c assume a: "?v' q = Some (Entry_dir (Some p))" and x: "node_at h' (p @ [c]) \<noteq> None"
      have "host_of (Entry_dir (Some p)) = Some p" by simp
      from K [OF a this] show "\<exists>e. ?v' (q @ [c]) = Some e \<and> host_of e = Some (p @ [c])"
      proof (elim disjE exE conjE)
        fix r e0 assume r: "q = ?qt @ r" "p = ?t @ r" "v (qf @ r) = Some e0" "host_of e0 = Some (f @ r)"
        with x have "node_at h (f @ r @ [c]) \<noteq> None" by (simp add: n prefix_def)
        with complete_below [OF A e, of "r @ [c]"] obtain e1 where e1: "v (qf @ r @ [c]) = Some e1" "host_of e1 = Some (f @ r @ [c])"
          by auto
        with r moved [of "r @ [c]"] replace_host_Some [OF e1(2), of "?t @ r @ [c]"] show ?thesis by simp
      next
        assume q: "\<not> prefix ?qt q" "\<not> prefix qf q" "v q = Some (Entry_dir (Some p))" "\<not> prefix f p" "\<not> prefix ?t p"
        show ?thesis
        proof (cases "p = d \<and> c = tc")
          case True
          then have "q = tp" using unaliasedD [OF A'(3) q(3) tp] by simp
          with True moved [of "[]"] e replace_host_Some [OF e(2), of ?t] show ?thesis by simp
        next
          case False
          with q(5) have nt: "\<not> prefix ?t (p @ [c])" by auto
          with x have nf: "\<not> prefix f (p @ [c])" "node_at h (p @ [c]) \<noteq> None" by (auto simp: n split: if_splits)
          from completeD [OF A'(4) q(3) nf(2)] obtain e1 where e1: "v (q @ [c]) = Some e1" "host_of e1 = Some (p @ [c])" by blast
          have "\<not> prefix ?qt (q @ [c])"
          proof
            assume "prefix ?qt (q @ [c])"
            then have "q = tp" "c = tc" using q(1) by auto
            with q(3) tp False show False by simp
          qed
          moreover have "\<not> prefix qf (q @ [c])"
          proof
            assume "prefix qf (q @ [c])"
            then have "qf = q @ [c]" using q(2) by simp
            with e1 e nf(1) show False by simp
          qed
          ultimately show ?thesis using stays e1 by simp
        qed
      qed
    qed
    moreover have "writeable_located ?v'"
      unfolding writeable_located_def
    proof (intro allI impI)
      fix q l assume a: "?v' q = Some (Entry_file l True)"
      show "\<exists>p. l = Loc_Path p"
      proof (cases "prefix ?qt q")
        case True
        then obtain r where "q = ?qt @ r" by (auto simp: prefix_def)
        with a moved [of r] obtain e0 where e0: "v (qf @ r) = Some e0" "Entry_file l True = (if host_of e0 = None then e0 else replace_host (?t @ r) e0)"
          by (cases "v (qf @ r)") auto
        show ?thesis
        proof (cases "host_of e0")
          case None
          with e0 A'(5) show ?thesis by (auto simp: writeable_located_def)
        next
          case (Some p)
          with e0(2) have "Entry_file l True = replace_host (?t @ r) e0" by simp
          with replace_host_Some [OF Some, of "?t @ r"] have "host_of (Entry_file l True) = Some (?t @ r)" by simp
          then show ?thesis by (cases l) auto
        qed
      next
        case False
        with a stays A'(5) show ?thesis by (auto simp: writeable_located_def split: if_splits)
      qed
    qed
    moreover have "tree_like ?v'"
      unfolding tree_like_def
    proof (intro allI impI)
      fix q c assume a: "?v' (q @ [c]) \<noteq> None"
      show "\<exists>w. ?v' q = Some (Entry_dir w)"
      proof (cases "prefix ?qt q")
        case True
        then obtain r where q: "q = ?qt @ r" by (auto simp: prefix_def)
        with a moved [of "r @ [c]"] have "v ((qf @ r) @ [c]) \<noteq> None" by auto
        then obtain w where "v (qf @ r) = Some (Entry_dir w)" using A'(6) unfolding tree_like_def by blast
        with q moved [of r] show ?thesis by (cases w) auto
      next
        case False
        show ?thesis
        proof (cases "q = tp \<and> c = tc")
          case True
          with tp np stays [of tp] show ?thesis by (auto simp: prefix_def)
        next
          case no: False
          have "\<not> prefix ?qt (q @ [c])" using no False by auto
          with a stays have "v (q @ [c]) \<noteq> None" "\<not> prefix qf (q @ [c])" by (auto split: if_splits)
          moreover from this have "\<not> prefix qf q" by (auto simp: prefix_def)
          ultimately show ?thesis using stays [OF False] A'(6) unfolding tree_like_def by auto
        qed
      qed
    qed
    ultimately show ?thesis by (simp add: agrees_def)
  qed
qed

end
