(* ===== verification/FsSafety.thy ===== *)
theory FsSafety
  imports FsInv
begin

text \<open>
  What a guest program can do to the filesystem: sequences of calls, the calls that are excluded because the
  code mishandles them, and the proofs that all others neither panic nor lose the agreement with the host,
  nor touch the host outside the places the filesystem was given.
\<close>

section \<open>Safe steps\<close>

definition within :: "view \<Rightarrow> host_path \<Rightarrow> bool" where
  "within v x \<longleftrightarrow> (\<exists>q e p. v q = Some e \<and> movable e p \<and> prefix p x)"

definition safe_step :: "view \<Rightarrow> host \<Rightarrow> view \<Rightarrow> host \<Rightarrow> bool" where
  "safe_step v h v' h' \<longleftrightarrow> agrees v' h' \<and> (\<forall>x. node_at h' x \<noteq> node_at h x \<longrightarrow> within v x) \<and>
     (\<forall>q e p. v' q = Some e \<and> movable e p \<longrightarrow> within v p)"

lemma withinI: "v q = Some e \<Longrightarrow> movable e p \<Longrightarrow> within v (p @ r)"
  unfolding within_def by (metis prefixI)

lemma within_self: "v q = Some e \<Longrightarrow> movable e p \<Longrightarrow> within v p"
  using withinI [of v q e p "[]"] by simp

lemma movable_dir [simp]: "movable (Entry_dir (Some p)) p" "movable (Entry_dir d) p \<longleftrightarrow> d = Some p"
  and movable_file [simp]: "movable (Entry_file l w) p \<longleftrightarrow> l = Loc_Path p \<and> w"
  by (auto simp: movable_def)

lemma movable_host_of: "movable e p \<Longrightarrow> host_of e = Some p"
  by (auto simp: movable_def)

lemma safe_refl [intro]: "agrees v h \<Longrightarrow> safe_step v h v h"
  by (auto simp: safe_step_def intro: within_self)

lemma within_mono:
  assumes "safe_step v h v' h'" and "within v' x"
  shows "within v x"
proof -
  from assms(2) obtain q e p where "v' q = Some e" "movable e p" and x: "prefix p x" by (auto simp: within_def)
  with assms(1) have "within v p" by (auto simp: safe_step_def)
  with x show ?thesis unfolding within_def by (meson prefix_order.trans)
qed

lemma safe_trans:
  assumes "safe_step v h v' h'" and "safe_step v' h' v'' h''"
  shows "safe_step v h v'' h''"
  unfolding safe_step_def
proof (intro conjI allI impI)
  show "agrees v'' h''" using assms(2) by (simp add: safe_step_def)
  fix x assume "node_at h'' x \<noteq> node_at h x"
  then have "node_at h'' x \<noteq> node_at h' x \<or> node_at h' x \<noteq> node_at h x" by auto
  then show "within v x" using assms within_mono [OF assms(1)] by (auto simp: safe_step_def)
next
  fix q e p assume "v'' q = Some e \<and> movable e p"
  with assms(2) have "within v' p" by (auto simp: safe_step_def)
  then show "within v p" by (rule within_mono [OF assms(1)])
qed

section \<open>Hidden places\<close>

text \<open>
  Places that the calls stay away from can be left out of the view: the initial filesystem has one, a second
  mount of the same host directory.
\<close>

definition hidden :: "string list set \<Rightarrow> string list \<Rightarrow> bool" where
  "hidden M q \<longleftrightarrow> (\<exists>a\<in>M. prefix a q)"

definition above_hidden :: "string list set \<Rightarrow> string list \<Rightarrow> bool" where
  "above_hidden M q \<longleftrightarrow> (\<exists>a\<in>M. prefix q a)"

definition vis :: "string list set \<Rightarrow> fs \<Rightarrow> view" where
  "vis M fs q = (if hidden M q then None else fs_view fs q)"

lemma vis_eq: "\<not> hidden M q \<Longrightarrow> vis M fs q = fs_view fs q"
  by (simp add: vis_def)

lemma vis_Some: "vis M fs q = Some e \<longleftrightarrow> fs_view fs q = Some e \<and> \<not> hidden M q"
  by (simp add: vis_def)

lemma not_hidden_above: "\<not> hidden M (p @ r) \<Longrightarrow> \<not> hidden M p"
  by (auto simp: hidden_def)

lemma not_hidden_below: "\<not> hidden M q \<Longrightarrow> \<not> above_hidden M q \<Longrightarrow> \<not> hidden M (q @ r)"
  by (auto simp: hidden_def above_hidden_def prefix_def append_eq_append_conv2)

lemma vis_update: "\<not> hidden M q \<Longrightarrow> fs_view fs' = (fs_view fs)(q := x) \<Longrightarrow> vis M fs' = (vis M fs)(q := x)"
  by (auto simp: vis_def fun_eq_iff)

lemma vis_none [simp]: "vis {} fs = fs_view fs"
  by (simp add: vis_def hidden_def fun_eq_iff)

section \<open>Creating and removing\<close>

lemma safe_add:
  assumes "agrees v h" and d: "v q = Some (Entry_dir (Some d))" and "host_name c" and "v (q @ [c]) = None"
    and "host_of e = Some (d @ [c])" "backs e n" and "\<And>l. e = Entry_file l True \<Longrightarrow> \<exists>p. l = Loc_Path p"
  shows "safe_step v h (v(q @ [c] \<mapsto> e)) (AList.update (d @ [c]) n h)"
  unfolding safe_step_def
proof (intro conjI allI impI)
  show "agrees (v(q @ [c] \<mapsto> e)) (AList.update (d @ [c]) n h)" using assms by (rule agrees_add)
  fix x assume "node_at (AList.update (d @ [c]) n h) x \<noteq> node_at h x"
  then show "within v x" using withinI [of v q "Entry_dir (Some d)" d "[c]"] d by (auto simp: node_at_update split: if_splits)
next
  fix q' e' p assume "(v(q @ [c] \<mapsto> e)) q' = Some e' \<and> movable e' p"
  then show "within v p" using withinI [of v q "Entry_dir (Some d)" d "[c]"] d movable_host_of [of e' p] assms(5)
    by (auto intro: within_self split: if_splits)
qed

lemma safe_remove:
  assumes "agrees v h" and e: "v q = Some e" "movable e p" and "q \<noteq> []" and "\<And>c. v (q @ [c]) = None"
  shows "safe_step v h (v(q := None)) (AList.delete p h)"
  unfolding safe_step_def
proof (intro conjI allI impI)
  show "agrees (v(q := None)) (AList.delete p h)"
    using agrees_remove(1) [OF assms(1) e(1) movable_host_of [OF e(2)] assms(4,5)] .
  have p: "p \<noteq> []" using backedD [OF agreesD(2) [OF assms(1)] e(1) movable_host_of [OF e(2)]] by simp
  have "within v p" using e by (rule within_self)
  fix x assume "node_at (AList.delete p h) x \<noteq> node_at h x"
  with \<open>within v p\<close> show "within v x" by (auto simp: node_at_delete [OF p] split: if_splits)
qed (auto intro: within_self split: if_splits)

lemma create_dir_safe:
  assumes cwd: "cwd_ok fs" and A: "agrees (vis M fs) h" and nh: "\<not> hidden M (at_path path fs)"
  obtains r fs' h' where "Fs_create_dir path fs h = Some (r, fs', h')" "safe_step (vis M fs) h (vis M fs') h'" "cwd_ok fs'"
    "cow_dir fs' = cow_dir fs" "working_directory fs' = working_directory fs"
  using cwd
proof (cases rule: parent_cases [where path = path])
  case (in_dir p c ch w)
  note A' = agreesD [OF A]
  show thesis
  proof (cases "map_of ch c = None \<and> w \<noteq> None")
    case True
    then obtain d where w: "w = Some d" by blast
    have nc: "\<not> hidden M (p @ [c])" "\<not> hidden M p" using nh in_dir(1) not_hidden_above by auto
    have free': "fs_view fs (p @ [c]) = None" using child_view [OF in_dir(4), of c] True by simp
    then have free: "vis M fs (p @ [c]) = None" by (simp add: vis_def)
    have v': "fs_view fs p = Some (Entry_dir (Some d))" using in_dir(2) w by simp
    then have v: "vis M fs p = Some (Entry_dir (Some d))" using nc by (simp add: vis_eq)
    have d: "node_at h d = Some Host_dir" using backedD [OF A'(2) v] by auto
    have "node_at h (d @ [c]) = None" using completeD [OF A'(4) v] free by fastforce
    then have "host_create_dir (d @ [c]) h = Inr (AList.update (d @ [c]) Host_dir h)"
      using host_walk_child [OF A'(1) d proper_host_name [OF in_dir(5)]] by (simp add: host_create_dir_def)
    then obtain fs' where r: "Fs_create_dir path fs h = Some (Inr (), fs', AList.update (d @ [c]) Host_dir h)"
      using in_dir w True by (auto simp: Fs_create_dir_def host_join_proper proper_component_def Let_def)
    from create_dir_refines [OF cwd r] in_dir(1) v' free'
    have view': "fs_view fs' = (fs_view fs)(p @ [c] \<mapsto> Entry_dir (Some (d @ [c])))"
      and f: "working_directory fs' = working_directory fs" "cow_dir fs' = cow_dir fs" by (simp_all add: spec_create_dir_def)
    have "safe_step (vis M fs) h (vis M fs') (AList.update (d @ [c]) Host_dir h)"
      unfolding vis_update [OF nc(1) view'] using safe_add [OF A v proper_host_name [OF in_dir(5)] free, of "Entry_dir (Some (d @ [c]))" Host_dir] by simp
    with that [OF r] f cwd show thesis by (simp add: cwd_ok_def)
  next
    case False
    then obtain r where "Fs_create_dir path fs h = Some (r, fs, h)"
      using in_dir(3) by (cases "map_of ch c"; cases w) (auto simp: Fs_create_dir_def)
    with that safe_refl [OF A] cwd show thesis by blast
  qed
next
  case root
  with that [of "Inl NonexistentParentDir" fs h] safe_refl [OF A] cwd show thesis by (simp add: Fs_create_dir_def)
next
  case missing
  with that [of "Inl NonexistentParentDir" fs h] safe_refl [OF A] cwd show thesis by (simp add: Fs_create_dir_def)
next
  case in_file
  with that [of "Inl InvalidParentDir" fs h] safe_refl [OF A] cwd show thesis by (simp add: Fs_create_dir_def)
qed

text \<open>The paths that \<open>create_dir_all\<close> goes through.\<close>

fun dirs_visible :: "string list set \<Rightarrow> fs \<Rightarrow> string list \<Rightarrow> guest_path \<Rightarrow> bool" where
  "dirs_visible M fs [] cur = True"
| "dirs_visible M fs (c # cs) cur \<longleftrightarrow> \<not> hidden M (at_path (cur @ SLASH # c) fs) \<and> dirs_visible M fs cs (cur @ SLASH # c)"

lemma dirs_visible_cwd:
  "working_directory fs' = working_directory fs \<Longrightarrow> dirs_visible M fs' cs cur = dirs_visible M fs cs cur"
  by (induction M fs cs cur rule: dirs_visible.induct) (simp_all add: at_path_def)

lemma create_dirs_safe:
  assumes "cwd_ok fs" and "agrees (vis M fs) h" and "dirs_visible M fs cs cur"
  shows "\<exists>r fs' h'. create_dirs cs cur fs h = Some (r, fs', h') \<and> safe_step (vis M fs) h (vis M fs') h' \<and> cwd_ok fs' \<and>
    cow_dir fs' = cow_dir fs"
  using assms
proof (induction cs arbitrary: cur fs h)
  case (Cons c cs)
  from Cons.prems obtain r fs' h' where 1: "Fs_create_dir (cur @ SLASH # c) fs h = Some (r, fs', h')"
    "safe_step (vis M fs) h (vis M fs') h'" "cwd_ok fs'" "cow_dir fs' = cow_dir fs"
    "working_directory fs' = working_directory fs" by (auto elim: create_dir_safe)
  have "dirs_visible M fs' cs (cur @ SLASH # c)" using Cons.prems(3) dirs_visible_cwd [OF 1(5)] by simp
  moreover from 1 have "agrees (vis M fs') h'" by (simp add: safe_step_def)
  ultimately obtain r2 fs2 h2 where
    2: "create_dirs cs (cur @ SLASH # c) fs' h' = Some (r2, fs2, h2)" "safe_step (vis M fs') h' (vis M fs2) h2" "cwd_ok fs2"
      "cow_dir fs2 = cow_dir fs'" using Cons.IH [OF 1(3)] by blast
  from safe_trans [OF 1(2) 2(2)] 1 2 show ?case by (cases "r = Inr () \<or> r = Inl AlreadyExist") auto
qed auto

lemma remove_safe:
  assumes cwd: "cwd_ok fs" and A: "agrees (vis M fs) h" and nh: "\<not> hidden M (at_path path fs)"
  obtains r fs' h' where "Fs_remove path fs h = Some (r, fs', h')" "safe_step (vis M fs) h (vis M fs') h'" "cwd_ok fs'"
    "cow_dir fs' = cow_dir fs"
proof -
  note A' = agreesD [OF A]
  have "\<exists>r fs' h'. Fs_remove path fs h = Some (r, fs', h') \<and>
      (fs' = fs \<and> h' = h \<or> (\<exists>e p. vis M fs (at_path path fs) = Some e \<and> movable e p \<and> h' = AList.delete p h \<and> r = Inr ()))"
    using cwd
  proof (cases rule: parent_cases [where path = path])
    case (in_dir p c ch w)
    have "\<not> hidden M (p @ [c])" using nh in_dir(1) by simp
    then have v: "vis M fs (p @ [c]) = map_option entry_of (map_of ch c)"
      using child_view [OF in_dir(4), of c] by (simp add: vis_eq)
    note below = child_view_below [OF in_dir(4)]
    show ?thesis
    proof (cases "map_of ch c")
      case (Some n)
      show ?thesis
      proof (cases n)
        case (FsFile l wr)
        show ?thesis
        proof (cases "w \<noteq> None \<and> wr")
          case True
          then obtain hp where l: "l = Loc_Path hp"
            using A'(5) v Some FsFile by (auto simp: writeable_located_def)
          have e: "vis M fs (p @ [c]) = Some (Entry_file (Loc_Path hp) True)" using v Some FsFile l True by simp
          obtain n' where "node_at h hp = Some n'" "n' \<noteq> Host_dir" using backedD [OF A'(2) e] by auto
          then have "host_remove_file hp h = Some (AList.delete hp h)"
            using host_walk_existing [OF A'(1), of hp] by (cases n') (auto simp: host_remove_file_def)
          with True Some FsFile l in_dir e show ?thesis by (auto simp: Fs_remove_def)
        qed (use Some FsFile in_dir in \<open>auto simp: Fs_remove_def\<close>)
      next
        case (FsDirectory entries wr)
        show ?thesis
        proof (cases "w \<noteq> None \<and> entries = [] \<and> wr \<noteq> None")
          case True
          then obtain hp where wr: "wr = Some hp" by blast
          have e: "vis M fs (p @ [c]) = Some (Entry_dir (Some hp))" using v Some FsDirectory wr by simp
          have empty: "vis M fs ((p @ [c]) @ [d]) = None" for d
            using below [of c "[d]"] Some FsDirectory True by (simp add: vis_def)
          have hp: "hp \<noteq> []" "node_at h hp = Some Host_dir" using backedD [OF A'(2) e] by auto
          have "\<not> has_entries hp h" using agrees_remove(2) [OF A e, of hp] empty by simp
          then have "host_remove_dir hp h = Some (AList.delete hp h)"
            using host_walk_existing [OF A'(1), of hp] hp by (simp add: host_remove_dir_def)
          with True Some FsDirectory wr in_dir e show ?thesis by (auto simp: Fs_remove_def)
        qed (use Some FsDirectory in_dir in \<open>auto simp: Fs_remove_def\<close>)
      qed
    qed (use in_dir in \<open>auto simp: Fs_remove_def\<close>)
  qed (auto simp: Fs_remove_def)
  then obtain r fs' h' where r: "Fs_remove path fs h = Some (r, fs', h')" and
    c: "fs' = fs \<and> h' = h \<or> (\<exists>e p. vis M fs (at_path path fs) = Some e \<and> movable e p \<and> h' = AList.delete p h \<and> r = Inr ())"
    by blast
  note ref = remove_refines [OF cwd r]
  show thesis
  proof (cases "spec_remove (at_path path fs) (fs_view fs)")
    case (Inl err)
    with ref that [OF r] safe_refl [OF A] cwd show thesis by simp
  next
    case (Inr v)
    with ref have f: "r = Inr ()" "fs_view fs' = v" "cwd_ok fs'" "cow_dir fs' = cow_dir fs"
      using cwd by (simp_all add: cwd_ok_def)
    from Inr have q: "at_path path fs \<noteq> []" "v = (fs_view fs)(at_path path fs := None)" "fs_view fs (at_path path fs) \<noteq> None"
      by (auto simp: spec_remove_def split: if_splits option.splits entry.splits)
    have empty: "fs_view fs (at_path path fs @ [d]) = None" for d
    proof (rule ccontr)
      assume "fs_view fs (at_path path fs @ [d]) \<noteq> None"
      moreover from tree_like_below [OF tree_like_fs_view this] obtain w where "fs_view fs (at_path path fs) = Some (Entry_dir w)" by auto
      ultimately show False using Inr by (auto simp: spec_remove_def split: if_splits option.splits entry.splits)
    qed
    from c show thesis
    proof (elim disjE exE conjE)
      assume "fs' = fs"
      then have "v = fs_view fs" using f by simp
      with q(2,3) have False by (metis fun_upd_same)
      then show thesis ..
    next
      fix e p assume e: "vis M fs (at_path path fs) = Some e" "movable e p" and h': "h' = AList.delete p h"
      have "vis M fs (at_path path fs @ [d]) = None" for d using empty by (simp add: vis_def)
      from safe_remove [OF A e q(1) this] have "safe_step (vis M fs) h (vis M fs') h'"
        using f q h' vis_update [OF nh, of fs' fs None] by simp
      with f that [OF r] show thesis by simp
    qed
  qed
qed

section \<open>Renaming\<close>

lemma node_at_move_outside:
  "\<not> prefix t x \<Longrightarrow> \<not> prefix f x \<Longrightarrow> node_at (move_entries f t h) x = node_at h x"
proof (cases "x = []")
  case False
  assume x: "\<not> prefix t x" "\<not> prefix f x"
  have "map_of (map (\<lambda>(p, n). (if prefix f p then t @ drop (length f) p else p, n)) (AList.delete t h)) x =
      map_of (AList.delete t h) x"
  proof (intro map_of_rename_key ballI)
    fix k show "(if prefix f k then t @ drop (length f) k else k) = x \<longleftrightarrow> k = x" using x by (metis prefixI)
  qed
  moreover have "x \<noteq> t" using x by auto
  ultimately show ?thesis using False by (simp add: node_at_def move_entries_def delete_conv')
qed simp

lemma safe_rename:
  assumes A: "agrees v h" and e: "v qf = Some e" "movable e f" and pure: "pure_subtree v qf f"
    and tp: "v tp = Some (Entry_dir (Some d))" and tc: "host_name tc" and np: "\<not> prefix qf tp"
    and rn: "host_rename f (d @ [tc]) h = Some h'"
  shows "safe_step v h (spec_rename qf (tp @ [tc]) (d @ [tc]) v) h'"
  unfolding safe_step_def
proof (intro conjI allI impI)
  note A' = agreesD [OF A]
  show "agrees (spec_rename qf (tp @ [tc]) (d @ [tc]) v) h'"
    using agrees_rename [OF A e(1) movable_host_of [OF e(2)] pure tp tc np rn] .
  have f: "node_at h f \<noteq> None" "f \<noteq> []" using backedD [OF A'(2) e(1) movable_host_of [OF e(2)]] by auto
  have d: "node_at h d = Some Host_dir" using backedD [OF A'(2) tp] by auto
  have in_t: "within v (d @ [tc] @ r)" for r using withinI [of v tp "Entry_dir (Some d)" d] tp by simp
  have in_f: "within v (f @ r)" for r using e by (rule withinI)
  fix x assume x: "node_at h' x \<noteq> node_at h x"
  from A'(1) f(1) d tc f(2) rn show "within v x"
  proof (cases rule: host_rename_cases)
    case moved
    with x node_at_move_outside have "prefix (d @ [tc]) x \<or> prefix f x" by blast
    with in_t in_f show ?thesis by (auto simp: prefix_def)
  qed (use x in simp)
next
  have in_t: "within v (d @ [tc] @ r)" for r using withinI [of v tp "Entry_dir (Some d)" d] tp by simp
  fix q e' p assume a: "spec_rename qf (tp @ [tc]) (d @ [tc]) v q = Some e' \<and> movable e' p"
  show "within v p"
  proof (cases "prefix (tp @ [tc]) q")
    case True
    then obtain r where q: "q = tp @ [tc] @ r" by (auto simp: prefix_def)
    with a obtain e0 where e0: "v (qf @ r) = Some e0" "e' = e0 \<or> e' = replace_host (d @ [tc] @ r) e0"
      by (auto simp: spec_rename_def relocated_def)
    show ?thesis
    proof (cases "e' = e0")
      case True
      with a e0 show ?thesis by (auto intro: within_self)
    next
      case False
      with e0 have r: "e' = replace_host (d @ [tc] @ r) e0" "host_of e0 \<noteq> None" by (cases "host_of e0"; auto)+
      then obtain p0 where "host_of e0 = Some p0" by blast
      from replace_host_Some [OF this, of "d @ [tc] @ r"] r(1) a movable_host_of have "p = d @ [tc] @ r" by force
      with in_t show ?thesis by simp
    qed
  next
    case False
    with a show ?thesis by (auto simp: spec_rename_def intro: within_self split: if_splits)
  qed
qed

text \<open>A rename is excluded when a directory that holds mounted directories would be moved.\<close>

definition rename_allowed :: "string list set \<Rightarrow> guest_path \<Rightarrow> guest_path \<Rightarrow> fs \<Rightarrow> bool" where
  "rename_allowed M from_path to_path fs \<longleftrightarrow>
     \<not> hidden M (at_path from_path fs) \<and> \<not> above_hidden M (at_path from_path fs) \<and>
     \<not> hidden M (at_path to_path fs) \<and> \<not> above_hidden M (at_path to_path fs) \<and>
     (\<forall>e p. fs_view fs (at_path from_path fs) = Some e \<and> movable e p \<longrightarrow>
       pure_subtree (fs_view fs) (at_path from_path fs) p)"

lemma vis_rename:
  assumes "\<not> hidden M qf" "\<not> above_hidden M qf" "\<not> hidden M qt" "\<not> above_hidden M qt"
    and "fs_view fs' = spec_rename qf qt hp (fs_view fs)"
  shows "vis M fs' = spec_rename qf qt hp (vis M fs)"
proof
  fix q
  have f: "vis M fs (qf @ r) = fs_view fs (qf @ r)" for r using not_hidden_below [OF assms(1,2)] by (simp add: vis_eq)
  show "vis M fs' q = spec_rename qf qt hp (vis M fs) q"
  proof (cases "prefix qt q")
    case True
    then have "\<not> hidden M q" using not_hidden_below [OF assms(3,4)] by (auto simp: prefix_def)
    with True show ?thesis by (simp add: vis_eq assms(5) spec_rename_def f)
  next
    case False
    then show ?thesis by (simp add: vis_def assms(5) spec_rename_def)
  qed
qed

lemma lookup_removed:
  assumes "lookup_node_inner (root fs) fp = Some (FsDirectory fch fw)" and "\<not> prefix (fp @ [fc]) tp"
    and "fs_view fs tp = Some (Entry_dir d)"
  shows "\<exists>ch. lookup_node_inner (root (remove_child fp (FsDirectory fch fw) fc fs)) tp = Some (FsDirectory ch d)"
proof -
  have "fs_view (remove_child fp (FsDirectory fch fw) fc fs) tp = Some (Entry_dir d)"
    using assms by (simp add: view_remove_child [OF assms(1)])
  then obtain n where "lookup_node_inner (root (remove_child fp (FsDirectory fch fw) fc fs)) tp = Some n" "entry_of n = Entry_dir d"
    by (auto simp: fs_view_def view_of_def)
  then show ?thesis by (cases n) auto
qed

lemma rename_safe:
  assumes cwd: "cwd_ok fs" and A: "agrees (vis M fs) h" and allowed: "rename_allowed M from_path to_path fs"
  obtains r fs' h' where "Fs_rename from_path to_path fs h = Some (r, fs', h')" "safe_step (vis M fs) h (vis M fs') h'"
    "cwd_ok fs'" "cow_dir fs' = cow_dir fs"
proof (cases "from_path = to_path")
  case True
  then have "Fs_rename from_path to_path fs h = Some (True, fs, h)" by (simp add: Fs_rename_def)
  with that safe_refl [OF A] cwd show thesis by blast
next
  case ne: False
  note A' = agreesD [OF A]
  from allowed have nf: "\<not> hidden M (at_path from_path fs)" "\<not> above_hidden M (at_path from_path fs)"
    and nt: "\<not> hidden M (at_path to_path fs)" "\<not> above_hidden M (at_path to_path fs)" by (simp_all add: rename_allowed_def)
  note found = that
  have unchanged: thesis if u: "Fs_rename from_path to_path fs h = Some (False, fs, h)"
    by (rule found [OF u safe_refl [OF A] cwd refl])
  show thesis
  proof (cases "Option.bind (lookup_node_inner (root fs) (at_path from_path fs)) movable_host_path")
    case None
    with ne show thesis by (intro unchanged) (simp add: Fs_rename_def lookup_node_at [OF cwd])
  next
    case (Some p)
    then obtain n where n: "lookup_node_inner (root fs) (at_path from_path fs) = Some n" "movable_host_path n = Some p"
      by (auto simp: bind_eq_Some_conv)
    then have e: "fs_view fs (at_path from_path fs) = Some (entry_of n)" "movable (entry_of n) p"
      by (simp_all add: fs_view_lookup movable_view movable_def)
    then have "pure_subtree (fs_view fs) (at_path from_path fs) p" using allowed by (auto simp: rename_allowed_def)
    then have pure: "pure_subtree (vis M fs) (at_path from_path fs) p" by (auto simp: pure_subtree_def vis_Some)
    from e have ev: "vis M fs (at_path from_path fs) = Some (entry_of n)" using nf by (simp add: vis_eq)
    from cwd show thesis
    proof (cases rule: parent_cases [where path = to_path])
      case t: (in_dir tp tc ch w)
      show thesis
      proof (cases w)
        case None
        with ne n t show thesis by (intro unchanged) (simp add: Fs_rename_def lookup_node_at [OF cwd])
      next
        case (Some d)
        have tp: "fs_view fs tp = Some (Entry_dir (Some d))" using t(2) Some by simp
        have "\<not> hidden M tp" using nt(1) t(1) not_hidden_above by auto
        then have tv: "vis M fs tp = Some (Entry_dir (Some d))" using tp by (simp add: vis_eq)
        have tc: "host_name tc" using t(5) by (rule proper_host_name)
        show thesis
        proof (cases "host_rename p (d @ [tc]) h")
          case None
          with ne n t Some show thesis
            by (intro unchanged) (simp add: Fs_rename_def lookup_node_at [OF cwd] host_join_proper Let_def)
        next
          case (Some h')
          have f: "node_at h p \<noteq> None" "p \<noteq> []" using backedD [OF A'(2) ev movable_host_of [OF e(2)]] by auto
          have d: "node_at h d = Some Host_dir" using backedD [OF A'(2) tv] by auto
          have np: "\<not> prefix (at_path from_path fs) tp"
          proof
            assume "prefix (at_path from_path fs) tp"
            then obtain r where "tp = at_path from_path fs @ r" by (auto simp: prefix_def)
            then have dp: "d = p @ r" using pure [unfolded pure_subtree_def, rule_format, of r "Entry_dir (Some d)" d] tv by simp
            from A'(1) f(1) d tc f(2) Some show False
              by (cases rule: host_rename_cases) (use dp in auto)
          qed
          then have nonroot: "at_path from_path fs \<noteq> []" by auto
          from cwd obtain fp fc fch fw where fr: "at_path from_path fs = fp @ [fc]"
            "lookup_parent_node from_path fs = Some (Some (fp, FsDirectory fch fw, fc))"
            "lookup_node_inner (root fs) fp = Some (FsDirectory fch fw)"
          proof (cases rule: parent_cases [where path = from_path])
            case (in_file p' c l w')
            then show ?thesis using e(1) tree_like_below [OF tree_like_fs_view, of fs p' "[c]"] by auto
          next
            case (missing p' c)
            then show ?thesis using e(1) tree_like_below [OF tree_like_fs_view, of fs p' "[c]"] by auto
          qed (use nonroot in auto)
          have m: "map_of fch fc = Some n" using n(1) fr(1,3) lookup_append [of "root fs" fp "[fc]"] by (auto split: option.splits bind_splits)
          let ?fs1 = "remove_child fp (FsDirectory fch fw) fc fs"
          obtain tch where tch: "lookup_node_inner (root ?fs1) tp = Some (FsDirectory tch (Some d))"
            using lookup_removed [OF fr(3) _ tp] np fr(1) by auto
          have at1: "resolve_path to_path (Some (working_directory ?fs1)) = Some (tp @ [tc])"
            using resolve_at_path [OF cwd, of to_path] t(1) by simp
          have "lookup_parent_node to_path ?fs1 = Some (Some (tp, FsDirectory tch (Some d), tc))"
            using tch at1 by (simp add: lookup_parent_node_def)
          then obtain fs' where "finish_rename from_path to_path (d @ [tc]) fs = Some fs'"
            using fr(2) m by (simp add: finish_rename_def)
          with ne n t \<open>w = Some d\<close> Some have r: "Fs_rename from_path to_path fs h = Some (True, fs', h')"
            by (simp add: Fs_rename_def lookup_node_at [OF cwd] host_join_proper Let_def)
          have fv: "fs_view fs' = spec_rename (at_path from_path fs) (tp @ [tc]) (d @ [tc]) (fs_view fs)"
            and wd: "working_directory fs' = working_directory fs" "cow_dir fs' = cow_dir fs"
            using rename_refines [OF cwd r ne] t(1) tp by auto
          have "safe_step (vis M fs) h (vis M fs') h'"
            unfolding vis_rename [OF nf nt [unfolded t(1)] fv] by (rule safe_rename [OF A ev e(2) pure tv tc np Some])
          then show thesis using that [OF r] wd cwd by (simp add: cwd_ok_def)
        qed
      qed
    qed (use ne n in \<open>auto intro!: unchanged simp: Fs_rename_def lookup_node_at [OF cwd]\<close>)
  qed
qed

section \<open>Opening\<close>

lemma safe_contents:
  assumes A: "agrees v h" and f: "node_at h p = Some (Host_file bs)" and w: "within v p"
  shows "safe_step v h v (AList.update p (Host_file bs') h)"
  unfolding safe_step_def
proof (intro conjI allI impI)
  show "agrees v (AList.update p (Host_file bs') h)" using A f by (rule agrees_contents)
  have p: "p \<noteq> []" using f by auto
  fix x assume "node_at (AList.update p (Host_file bs') h) x \<noteq> node_at h x"
  with w show "within v x" by (auto simp: node_at_update [OF p] split: if_splits)
qed (auto intro: within_self)

lemma safe_forget:
  assumes A: "agrees v h" and e: "v (q @ [c]) = Some (Entry_file l w)" and d: "v q = Some (Entry_dir (Some d))"
    and n: "node_at h (d @ [c]) = None"
  shows "safe_step v h (v(q @ [c] := None)) h"
proof -
  note A' = agreesD [OF A]
  have "backed (v(q @ [c] := None)) h" using A'(2) by (auto simp: backed_def)
  moreover have "unaliased (v(q @ [c] := None))" using A'(3) by (auto simp: unaliased_def)
  moreover have "complete (v(q @ [c] := None)) h"
    unfolding complete_def
  proof (intro allI impI, elim conjE)
    fix q' p c' assume v: "(v(q @ [c] := None)) q' = Some (Entry_dir (Some p))" and x: "node_at h (p @ [c']) \<noteq> None"
    from v have v': "v q' = Some (Entry_dir (Some p))" by (auto split: if_splits)
    have "q' @ [c'] \<noteq> q @ [c]"
    proof
      assume "q' @ [c'] = q @ [c]"
      with v' d x n show False by simp
    qed
    with completeD [OF A'(4) v' x] show "\<exists>e. (v(q @ [c] := None)) (q' @ [c']) = Some e \<and> host_of e = Some (p @ [c'])" by simp
  qed
  moreover have "tree_like (v(q @ [c] := None))"
    unfolding tree_like_def
  proof (intro allI impI)
    fix q' c' assume "(v(q @ [c] := None)) (q' @ [c']) \<noteq> None"
    then have "v (q' @ [c']) \<noteq> None" by (auto split: if_splits)
    then obtain w' where "v q' = Some (Entry_dir w')" using A'(6) by (auto simp: tree_like_def)
    with e show "\<exists>w. (v(q @ [c] := None)) q' = Some (Entry_dir w)" by auto
  qed
  moreover have "writeable_located (v(q @ [c] := None))" using A'(5) by (auto simp: writeable_located_def)
  ultimately show ?thesis using A'(1) by (auto simp: safe_step_def agrees_def intro: within_self split: if_splits)
qed

lemma open_child:
  assumes A: "agrees v h" and d: "v q = Some (Entry_dir (Some d))" and c: "host_name c"
    and no_dir: "\<And>w. v (q @ [c]) \<noteq> Some (Entry_dir w)" and opts: "options_ok opts" and create: "opt_create opts"
  shows "\<exists>h'. host_open opts (d @ [c]) h = Some (d @ [c], h') \<and>
    safe_step v h (v(q @ [c] \<mapsto> Entry_file (Loc_Path (d @ [c])) True)) h'"
proof -
  note A' = agreesD [OF A]
  let ?t = "d @ [c]" and ?e = "Entry_file (Loc_Path (d @ [c])) True"
  have dd: "node_at h d = Some Host_dir" using backedD [OF A'(2) d] by auto
  have w: "within v ?t" using withinI [of v q "Entry_dir (Some d)" d "[c]"] d by simp
  note walk = host_walk_child [OF A'(1) dd c]
  show ?thesis
  proof (cases "node_at h ?t")
    case None
    then have o: "host_open opts ?t h = Some (?t, AList.update ?t (Host_file []) h)"
      using opts create walk by (simp add: host_open_def)
    show ?thesis
    proof (cases "v (q @ [c])")
      case None
      with safe_add [OF A d c None, of ?e "Host_file []"] o show ?thesis by simp
    next
      case (Some e')
      then obtain l wr where e': "v (q @ [c]) = Some (Entry_file l wr)" using no_dir by (cases e') auto
      have s1: "safe_step v h (v(q @ [c] := None)) h" using A e' d None by (rule safe_forget)
      then have "agrees (v(q @ [c] := None)) h" by (simp add: safe_step_def)
      from safe_add [OF this, of q d c ?e "Host_file []"] d c
      have "safe_step (v(q @ [c] := None)) h (v(q @ [c] \<mapsto> ?e)) (AList.update ?t (Host_file []) h)" by simp
      with s1 o show ?thesis by (blast intro: safe_trans)
    qed
  next
    case (Some n)
    with completeD [OF A'(4) d] obtain e' where e': "v (q @ [c]) = Some e'" "host_of e' = Some ?t" by auto
    then obtain wr where e: "v (q @ [c]) = Some (Entry_file (Loc_Path ?t) wr)"
      using no_dir by (cases e') (auto simp: host_of_def split: file_location.splits)
    then obtain bs where n: "node_at h ?t = Some (Host_file bs)"
      using backedD [OF A'(2) e, of ?t] Some by (cases n) auto
    let ?h' = "if opt_truncate opts then AList.update ?t (Host_file []) h else h"
    have o: "host_open opts ?t h = Some (?t, ?h')" using opts walk n by (simp add: host_open_def)
    have "agrees (v(q @ [c] \<mapsto> ?e)) h" using agrees_upgrade [OF A e, of d] d by simp
    then have s1: "safe_step v h (v(q @ [c] \<mapsto> ?e)) h"
      using w by (auto simp: safe_step_def intro: within_self split: if_splits)
    have "safe_step (v(q @ [c] \<mapsto> ?e)) h (v(q @ [c] \<mapsto> ?e)) ?h'"
    proof (cases "opt_truncate opts")
      case True
      have "within (v(q @ [c] \<mapsto> ?e)) ?t" by (rule within_self [of _ "q @ [c]" ?e]) simp_all
      with True safe_contents [OF \<open>agrees (v(q @ [c] \<mapsto> ?e)) h\<close> n] show ?thesis by simp
    qed (use \<open>agrees (v(q @ [c] \<mapsto> ?e)) h\<close> in auto)
    with s1 o show ?thesis by (blast intro: safe_trans)
  qed
qed

text \<open>
  An open is excluded when the host would be asked for a meaningless mode, when a directory would be
  created over, when a bundled file would be copied, and when a bundled resource is missing.
\<close>

definition host_options :: "guest_open_options \<Rightarrow> bool \<Rightarrow> open_options" where
  "host_options options create = \<lparr>opt_read = o_read options, opt_write = forced_write options, opt_append = o_append options,
     opt_create = create, opt_truncate = o_truncate options\<rparr>"

definition open_allowed :: "(string \<Rightarrow> bool) \<Rightarrow> guest_path \<Rightarrow> guest_open_options \<Rightarrow> fs \<Rightarrow> bool" where
  "open_allowed resource_exists path options fs \<longleftrightarrow>
     options_ok (host_options options (o_create options \<or> o_create_new options)) \<and>
     (case fs_view fs (at_path path fs) of
        Some (Entry_dir _) \<Rightarrow> \<not> (forced_write options \<and> (o_create options \<or> o_create_new options))
      | Some (Entry_file (IpaFileRef _) False) \<Rightarrow> cow_dir fs = None \<or> \<not> (forced_write options \<or> o_append options)
      | Some (Entry_file (ResourceFilePath n) _) \<Rightarrow> resource_exists n
      | _ \<Rightarrow> True)"

lemma create_new_file_safe:
  assumes cwd: "cwd_ok fs" and A: "agrees (vis M fs) h" and nh: "\<not> hidden M (at_path path fs)"
    and no_dir: "o_create options \<or> o_create_new options \<Longrightarrow> \<forall>w. fs_view fs (at_path path fs) \<noteq> Some (Entry_dir w)"
    and opts: "options_ok (host_options options (o_create options \<or> o_create_new options))"
  obtains r fs' h' where "create_new_file path options (forced_write options) fs h = Some (r, fs', h')"
    "safe_step (vis M fs) h (vis M fs') h'" "cwd_ok fs'" "cow_dir fs' = cow_dir fs"
    "\<And>q opts. r = Some (GuestFile_File q opts) \<Longrightarrow> (\<exists>bs. node_at h' q = Some (Host_file bs)) \<and> within (vis M fs') q"
proof (cases "o_create options \<or> o_create_new options")
  case False
  then have "create_new_file path options (forced_write options) fs h = Some (None, fs, h)" by (simp add: create_new_file_def)
  with that safe_refl [OF A] cwd show thesis by blast
next
  case create: True
  from cwd show thesis
  proof (cases rule: parent_cases [where path = path])
    case (in_dir p c ch w)
    show thesis
    proof (cases w)
      case None
      then have "create_new_file path options (forced_write options) fs h = Some (None, fs, h)"
        using in_dir create by (auto simp: create_new_file_def)
      with that safe_refl [OF A] cwd show thesis by blast
    next
      case (Some d)
      let ?n = "FsFile (Loc_Path (d @ [c])) True"
      have nc: "\<not> hidden M (p @ [c])" "\<not> hidden M p" using nh in_dir(1) not_hidden_above by auto
      have v: "vis M fs p = Some (Entry_dir (Some d))" using in_dir(2) Some nc by (simp add: vis_eq)
      have nd': "fs_view fs (p @ [c]) \<noteq> Some (Entry_dir w)" for w using no_dir [OF create] in_dir(1) by simp
      then have nd: "vis M fs (p @ [c]) \<noteq> Some (Entry_dir w)" for w by (simp add: vis_def)
      obtain h' where o: "host_open (host_options options True) (d @ [c]) h = Some (d @ [c], h')"
        and s: "safe_step (vis M fs) h ((vis M fs)(p @ [c] \<mapsto> Entry_file (Loc_Path (d @ [c])) True)) h'"
        using open_child [OF A v proper_host_name [OF in_dir(5)] nd, of "host_options options True"] opts create
        by (auto simp: host_options_def)
      let ?fs = "insert_child p (FsDirectory ch w) c ?n fs"
      have r: "create_new_file path options (forced_write options) fs h =
          Some (Some (GuestFile_File (d @ [c]) (host_options options True)), ?fs, h')"
        using in_dir create Some o
        by (auto simp: create_new_file_def host_join_proper proper_component_def open_host_file_def Let_def host_options_def)
      have below: "fs_view fs (p @ c # r) = None" if "r \<noteq> []" for r
        using tree_like_below [OF tree_like_fs_view, of fs "p @ [c]" r] nd' that by (cases "fs_view fs (p @ c # r)") auto
      have fv: "fs_view ?fs = (fs_view fs)(p @ [c] \<mapsto> Entry_file (Loc_Path (d @ [c])) True)"
      proof
        fix q
        show "fs_view ?fs q = ((fs_view fs)(p @ [c] \<mapsto> Entry_file (Loc_Path (d @ [c])) True)) q"
          using below by (cases "prefix (p @ [c]) q") (auto simp: view_insert_child [OF in_dir(4)] prefix_def)
      qed
      note vv = vis_update [OF nc(1) fv]
      have "agrees (vis M ?fs) h'" using s vv by (simp add: safe_step_def)
      then obtain n' where "node_at h' (d @ [c]) = Some n'" "n' \<noteq> Host_dir"
        using backedD [OF agreesD(2), of "vis M ?fs" h' "p @ [c]"] vv by fastforce
      then have "\<exists>bs. node_at h' (d @ [c]) = Some (Host_file bs)" by (cases n') auto
      moreover have "within (vis M ?fs) (d @ [c])"
        by (rule within_self [of _ "p @ [c]" "Entry_file (Loc_Path (d @ [c])) True"]) (simp_all add: vv)
      ultimately show thesis using that [OF r] s vv cwd by (simp add: cwd_ok_def)
    qed
  qed (use create that safe_refl [OF A] cwd in \<open>auto simp: create_new_file_def\<close>)
qed

lemma open_safe:
  assumes cwd: "cwd_ok fs" and A: "agrees (vis M fs) h" and ok: "open_allowed resource_exists path options fs"
    and nh: "\<not> hidden M (at_path path fs)"
  obtains r fs' h' where "open_with_options ipa_open resource_exists path options fs h = Some (r, fs', h')"
    "safe_step (vis M fs) h (vis M fs') h'" "cwd_ok fs'" "cow_dir fs' = cow_dir fs"
    "\<And>q opts. r = Some (GuestFile_File q opts) \<Longrightarrow> forced_write options \<Longrightarrow>
      (\<exists>bs. node_at h' q = Some (Host_file bs)) \<and> within (vis M fs') q"
proof -
  note A' = agreesD [OF A]
  let ?open = "open_with_options ipa_open resource_exists path options fs h"
  let ?writing = "forced_write options" and ?app = "o_append options"
  let ?create = "o_create options \<or> o_create_new options"
  have opts: "options_ok (host_options options ?create)" using ok by (simp add: open_allowed_def)
  note found = that
  have same: thesis if r: "?open = Some (r, fs, h)" and n: "\<And>q opts. r \<noteq> Some (GuestFile_File q opts)" for r
    by (rule found [OF r safe_refl [OF A] cwd refl]) (use n in simp)
  from cwd show thesis
  proof (cases rule: parent_cases [where path = path])
    case (in_dir p c ch w)
    note v = child_view [OF in_dir(4), of c]
    have create: thesis if "?open = create_new_file path options ?writing fs h"
      and nd: "?create \<Longrightarrow> \<forall>w. fs_view fs (at_path path fs) \<noteq> Some (Entry_dir w)"
    proof (rule create_new_file_safe [OF cwd A nh nd opts])
      fix r fs' h' assume r: "create_new_file path options ?writing fs h = Some (r, fs', h')"
        and s: "safe_step (vis M fs) h (vis M fs') h'" "cwd_ok fs'" "cow_dir fs' = cow_dir fs"
        and f: "\<And>q opts. r = Some (GuestFile_File q opts) \<Longrightarrow> (\<exists>bs. node_at h' q = Some (Host_file bs)) \<and> within (vis M fs') q"
      from that(1) r have "?open = Some (r, fs', h')" by simp
      then show thesis by (rule found) (use s f in auto)
    qed
    show thesis
    proof (cases "map_of ch c")
      case None
      with in_dir v show thesis by (intro create) (simp_all add: open_with_options_def)
    next
      case (Some n)
      show thesis
      proof (cases "o_create_new options")
        case True
        with Some in_dir show thesis by (intro same [of None]) (simp_all add: open_with_options_def)
      next
        case old: False
        show thesis
        proof (cases n)
          case (FsDirectory ents wr)
          show thesis
          proof (cases ?writing)
            case True
            then show thesis using Some FsDirectory old in_dir v ok
              by (intro create) (auto simp: open_with_options_def inspect_existing_def open_allowed_def)
          next
            case False
            then show thesis using Some FsDirectory old in_dir
              by (intro same [of "Some GuestFile_Directory"]) (simp_all add: open_with_options_def inspect_existing_def)
          qed
        next
          case (FsFile l wr)
          then have e: "fs_view fs (p @ [c]) = Some (Entry_file l wr)" using v Some by simp
          have no_dir: "\<forall>w. fs_view fs (at_path path fs) \<noteq> Some (Entry_dir w)" using e in_dir(1) by simp
          show thesis
          proof (cases "\<not> wr \<and> (?app \<or> ?writing)")
            case True
            show thesis
            proof (cases "\<exists>i. l = IpaFileRef i")
              case ipa: True
              then have "cow_dir fs = None" using ok e in_dir(1) True by (auto simp: open_allowed_def)
              then show thesis using True ipa Some FsFile old in_dir no_dir
                by (intro create) (auto simp: open_with_options_def inspect_existing_def)
            next
              case False
              with True Some FsFile old in_dir no_dir show thesis
                by (intro create) (cases l; auto simp: open_with_options_def inspect_existing_def)+
            qed
          next
            case plain: False
            show thesis
            proof (cases l)
              case (IpaFileRef i)
              with plain Some FsFile old in_dir show thesis
                by (intro same [of "Some (GuestFile_IpaBundleFile i)"]) (auto simp: open_with_options_def inspect_existing_def Let_def)
            next
              case (ResourceFilePath m)
              then have "resource_exists m" using ok e in_dir(1) by (simp add: open_allowed_def)
              with ResourceFilePath plain Some FsFile old in_dir show thesis
                by (intro same [of "Some (GuestFile_ResourceFile m)"]) (auto simp: open_with_options_def inspect_existing_def Let_def)
            next
              case (Loc_Path hp)
              have ev: "vis M fs (p @ [c]) = Some (Entry_file l wr)" using e nh in_dir(1) by (simp add: vis_eq)
              obtain bs where hp: "node_at h hp = Some (Host_file bs)"
              proof -
                from backedD [OF A'(2) ev, of hp] Loc_Path obtain n' where "node_at h hp = Some n'" "n' \<noteq> Host_dir" by auto
                with that show thesis by (cases n') auto
              qed
              have "options_ok (host_options options False)" using opts by (auto simp: options_ok_def host_options_def)
              let ?h' = "if o_truncate options then AList.update hp (Host_file []) h else h"
              have "host_open (host_options options False) hp h = Some (hp, ?h')"
                using hp host_walk_existing [OF A'(1), of hp] \<open>options_ok (host_options options False)\<close>
                by (simp add: host_open_def) (simp add: host_options_def)
              then have r: "?open = Some (Some (GuestFile_File hp (host_options options False)), fs, ?h')"
                using plain Some FsFile Loc_Path old in_dir
                by (auto simp: open_with_options_def inspect_existing_def open_host_file_def Let_def host_options_def)
              have w: "within (vis M fs) hp" if "?writing \<or> ?app"
                using plain that ev Loc_Path by (intro within_self [of _ "p @ [c]" "Entry_file l wr"]) auto
              have tr: "?writing \<or> ?app" if "o_truncate options"
                using that by (auto simp: forced_write_def)
              have s: "safe_step (vis M fs) h (vis M fs) ?h'"
              proof (cases "o_truncate options")
                case True
                with safe_contents [OF A hp w [OF tr]] show ?thesis by simp
              qed (use A in auto)
              have f: "\<exists>bs. node_at ?h' hp = Some (Host_file bs)"
                using hp by (cases "hp = []") (simp_all add: node_at_update)
              show thesis
                by (rule found [OF r s cwd refl]) (use f w in \<open>auto simp: host_options_def\<close>)
            qed
          qed
        qed
      qed
    qed
  qed (auto intro: same [of None] simp: open_with_options_def)
qed

section \<open>The working directory\<close>

lemma enumerate_absolute: "starts_with_slash p \<Longrightarrow> \<exists>r. enumerate p fs = Some r"
  by (simp add: enumerate_def lookup_node_def resolve_absolute)

lemma case_insensitive_absolute:
  "starts_with_slash rp \<Longrightarrow> \<exists>r. resolve_case_insensitive_from lower fs cs rp = Some r \<and> (\<forall>p. r = Some p \<longrightarrow> starts_with_slash p)"
proof (induction cs arbitrary: rp)
  case (Cons c cs)
  obtain ents where ents: "enumerate rp fs = Some ents" using enumerate_absolute [OF Cons.prems] by blast
  show ?case
  proof (cases "Option.bind ents (find (\<lambda>entry. lower entry = lower c))")
    case None
    with ents show ?thesis by simp
  next
    case (Some m)
    let ?rp = "(if rp \<noteq> ''/'' then rp @ ''/'' else rp) @ m"
    have "starts_with_slash ?rp" using Cons.prems by (cases rp) (simp_all add: starts_with_slash_def)
    from Cons.IH [OF this] ents Some show ?thesis by simp
  qed
qed simp

lemma chdir_safe:
  assumes "cwd_ok fs"
  obtains r fs' where "change_working_directory lower path fs = Some (r, fs')" "fs_view fs' = fs_view fs" "cwd_ok fs'"
    "cow_dir fs' = cow_dir fs"
proof -
  obtain r where r: "resolve_case_insensitive_path lower path fs = Some r" and abs: "\<And>p. r = Some p \<Longrightarrow> starts_with_slash p"
    using case_insensitive_absolute [of "''/''" lower fs "at_path path fs"] resolve_at_path [OF assms]
    by (auto simp: resolve_case_insensitive_path_def starts_with_slash_def)
  show thesis
  proof (cases r)
    case None
    with r assms that show thesis by (simp add: change_working_directory_def)
  next
    case (Some p)
    obtain d where "is_dir p fs = Some d"
      using resolve_at_path [OF assms, of p] by (simp add: is_dir_def lookup_node_def)
    with r Some assms that [of _ fs] that [of _ "fs\<lparr>working_directory := p\<rparr>"] abs show thesis
      by (cases d) (auto simp: change_working_directory_def fs_view_def cwd_ok_def)
  qed
qed

section \<open>Guest programs\<close>

text \<open>The calls a guest program can cause, with arbitrary arguments, and when each is allowed.\<close>

datatype fs_call =
    Call_create_dir guest_path
  | Call_create_dir_all guest_path
  | Call_remove guest_path
  | Call_rename guest_path guest_path
  | Call_open guest_path guest_open_options
  | Call_write guest_path "u8 list"
  | Call_read guest_path
  | Call_chdir guest_path

record fs_externals =
  ext_lower :: "string \<Rightarrow> string"
  ext_ipa :: "nat \<Rightarrow> u8 list"
  ext_resource :: "string \<Rightarrow> u8 list option"

definition ext_exists :: "fs_externals \<Rightarrow> string \<Rightarrow> bool" where
  "ext_exists x n \<longleftrightarrow> ext_resource x n \<noteq> None"

fun fs_exec :: "fs_externals \<Rightarrow> fs_call \<Rightarrow> fs \<times> host \<Rightarrow> (fs \<times> host) option" where
  "fs_exec x (Call_create_dir p) (fs, h) = map_option snd (Fs_create_dir p fs h)"
| "fs_exec x (Call_create_dir_all p) (fs, h) = map_option snd (Fs_create_dir_all p fs h)"
| "fs_exec x (Call_remove p) (fs, h) = map_option snd (Fs_remove p fs h)"
| "fs_exec x (Call_rename p q) (fs, h) = map_option snd (Fs_rename p q fs h)"
| "fs_exec x (Call_open p opts) (fs, h) = map_option snd (open_with_options (ext_ipa x) (ext_exists x) p opts fs h)"
| "fs_exec x (Call_write p bs) (fs, h) = map_option snd (Fs_write (ext_ipa x) (ext_exists x) p bs fs h)"
| "fs_exec x (Call_read p) (fs, h) = map_option (\<lambda>_. (fs, h)) (Fs_read (ext_lower x) (ext_ipa x) (ext_resource x) p fs h)"
| "fs_exec x (Call_chdir p) (fs, h) = map_option (\<lambda>(r, fs'). (fs', h)) (change_working_directory (ext_lower x) p fs)"

definition write_options :: guest_open_options where
  "write_options = GuestOpenOptions_new\<lparr>o_write := True, o_create := True, o_truncate := True\<rparr>"

definition resources_present :: "fs_externals \<Rightarrow> fs \<Rightarrow> bool" where
  "resources_present x fs \<longleftrightarrow> (\<forall>q n w. fs_view fs q = Some (Entry_file (ResourceFilePath n) w) \<longrightarrow> ext_exists x n)"

fun call_allowed :: "string list set \<Rightarrow> fs_externals \<Rightarrow> fs_call \<Rightarrow> fs \<Rightarrow> bool" where
  "call_allowed M x (Call_create_dir p) fs \<longleftrightarrow> \<not> hidden M (at_path p fs)"
| "call_allowed M x (Call_create_dir_all p) fs \<longleftrightarrow> dirs_visible M fs (at_path p fs) []"
| "call_allowed M x (Call_remove p) fs \<longleftrightarrow> \<not> hidden M (at_path p fs)"
| "call_allowed M x (Call_rename p q) fs \<longleftrightarrow> rename_allowed M p q fs"
| "call_allowed M x (Call_open p opts) fs \<longleftrightarrow> \<not> hidden M (at_path p fs) \<and> open_allowed (ext_exists x) p opts fs"
| "call_allowed M x (Call_write p bs) fs \<longleftrightarrow> \<not> hidden M (at_path p fs) \<and> open_allowed (ext_exists x) p write_options fs"
| "call_allowed M x (Call_read p) fs \<longleftrightarrow> resources_present x fs \<and>
     (\<forall>q. resolve_case_insensitive_path (ext_lower x) p fs = Some (Some q) \<longrightarrow> \<not> hidden M (at_path q fs))"
| "call_allowed M x (Call_chdir p) fs \<longleftrightarrow> True"

text \<open>\<open>fs_run M x s0 s\<close>: some sequence of calls that are allowed outside the places \<open>M\<close> leads from \<open>s0\<close> to \<open>s\<close>.\<close>

inductive fs_run :: "string list set \<Rightarrow> fs_externals \<Rightarrow> fs \<times> host \<Rightarrow> fs \<times> host \<Rightarrow> bool" for M x s0 where
  fs_run_start: "fs_run M x s0 s0"
| fs_run_call: "fs_run M x s0 (fs, h) \<Longrightarrow> call_allowed M x c fs \<Longrightarrow> fs_exec x c (fs, h) = Some s \<Longrightarrow> fs_run M x s0 s"

lemma write_safe:
  assumes cwd: "cwd_ok fs" and A: "agrees (vis M fs) h" and ok: "open_allowed resource_exists path write_options fs"
    and nh: "\<not> hidden M (at_path path fs)"
  obtains r fs' h' where "Fs_write ipa_open resource_exists path data fs h = Some (r, fs', h')"
    "safe_step (vis M fs) h (vis M fs') h'" "cwd_ok fs'"
proof (rule open_safe [OF cwd A ok nh, of ipa_open])
  fix r fs' h' assume r: "open_with_options ipa_open resource_exists path write_options fs h = Some (r, fs', h')"
    and s: "safe_step (vis M fs) h (vis M fs') h'" and c: "cwd_ok fs'"
    and f: "\<And>q opts. r = Some (GuestFile_File q opts) \<Longrightarrow> forced_write write_options \<Longrightarrow>
      (\<exists>bs. node_at h' q = Some (Host_file bs)) \<and> within (vis M fs') q"
  note W = Fs_write_def write_options_def [symmetric]
  have A': "agrees (vis M fs') h'" using s by (simp add: safe_step_def)
  show thesis
  proof (cases "\<exists>q opts. r = Some (GuestFile_File q opts)")
    case True
    then obtain q opts where rq: "r = Some (GuestFile_File q opts)" by blast
    have "forced_write write_options" by (simp add: forced_write_def write_options_def)
    with f [OF rq] obtain bs where q: "node_at h' q = Some (Host_file bs)" "within (vis M fs') q" by blast
    then have "safe_step (vis M fs') h' (vis M fs') (AList.update q (Host_file data) h')" using A' by (intro safe_contents)
    with s have "safe_step (vis M fs) h (vis M fs') (AList.update q (Host_file data) h')" by (rule safe_trans)
    with r rq c that show thesis by (simp add: W)
  next
    case False
    then have "Fs_write ipa_open resource_exists path data fs h = Some (False, fs', h')"
      using r by (auto simp: W split: option.splits guest_file.splits)
    with s c that show thesis by blast
  qed
qed

lemma read_safe:
  assumes cwd: "cwd_ok fs" and A: "agrees (vis M fs) h" and res: "resources_present x fs"
    and nh: "\<And>q. resolve_case_insensitive_path (ext_lower x) path fs = Some (Some q) \<Longrightarrow> \<not> hidden M (at_path q fs)"
  shows "Fs_read (ext_lower x) (ext_ipa x) (ext_resource x) path fs h \<noteq> None"
proof -
  note A' = agreesD [OF A]
  obtain r where r: "resolve_case_insensitive_path (ext_lower x) path fs = Some r"
    using case_insensitive_absolute [of "''/''" "ext_lower x" fs "at_path path fs"] resolve_at_path [OF cwd]
    by (auto simp: resolve_case_insensitive_path_def starts_with_slash_def)
  have "Fs_open (ext_lower x) (\<lambda>n. ext_resource x n \<noteq> None) path fs h \<noteq> None"
  proof (cases r)
    case None
    with r show ?thesis by (simp add: Fs_open_def)
  next
    case (Some p)
    show ?thesis
    proof (cases "lookup_node_inner (root fs) (at_path p fs)")
      case None
      with r Some show ?thesis by (simp add: Fs_open_def lookup_node_at [OF cwd])
    next
      case n: (Some n)
      show ?thesis
      proof (cases n)
        case (FsDirectory ch w)
        with r Some n show ?thesis by (simp add: Fs_open_def lookup_node_at [OF cwd])
      next
        case (FsFile l w)
        with n have e: "fs_view fs (at_path p fs) = Some (Entry_file l w)" using fs_view_lookup by fastforce
        show ?thesis
        proof (cases l)
          case (Loc_Path hp)
          have ev: "vis M fs (at_path p fs) = Some (Entry_file l w)" using e nh r Some by (simp add: vis_eq)
          with Loc_Path obtain n' where n': "node_at h hp = Some n'" "n' \<noteq> Host_dir" using backedD [OF A'(2) ev] by auto
          then have "host_open read_only hp h = Some (hp, h)"
            using host_walk_existing [OF A'(1), of hp]
            by (cases n') (simp_all add: host_open_def options_ok_def read_only_def)
          with r Some n FsFile Loc_Path show ?thesis by (simp add: Fs_open_def lookup_node_at [OF cwd])
        next
          case (ResourceFilePath m)
          with e res have "ext_resource x m \<noteq> None" by (auto simp: resources_present_def ext_exists_def)
          with r Some n FsFile ResourceFilePath show ?thesis by (simp add: Fs_open_def lookup_node_at [OF cwd])
        qed (use r Some n FsFile in \<open>simp add: Fs_open_def lookup_node_at [OF cwd]\<close>)
      qed
    qed
  qed
  then show ?thesis by (auto simp: Fs_read_def)
qed

lemma exec_safe:
  assumes cwd: "cwd_ok fs" and A: "agrees (vis M fs) h" and ok: "call_allowed M x c fs"
  shows "\<exists>fs' h'. fs_exec x c (fs, h) = Some (fs', h') \<and> safe_step (vis M fs) h (vis M fs') h' \<and> cwd_ok fs'"
proof (cases c)
  case (Call_create_dir p)
  with ok have "\<not> hidden M (at_path p fs)" by simp
  from create_dir_safe [OF cwd A this] Call_create_dir show ?thesis by (metis fs_exec.simps(1) option.simps(9) snd_conv)
next
  case (Call_create_dir_all p)
  with ok have "dirs_visible M fs (at_path p fs) []" by simp
  from create_dirs_safe [OF cwd A this] Call_create_dir_all show ?thesis
    by (auto simp: Fs_create_dir_all_def resolve_at_path [OF cwd])
next
  case (Call_remove p)
  with ok have "\<not> hidden M (at_path p fs)" by simp
  from remove_safe [OF cwd A this] Call_remove show ?thesis by (metis fs_exec.simps(3) option.simps(9) snd_conv)
next
  case (Call_rename p q)
  with ok have "rename_allowed M p q fs" by simp
  from rename_safe [OF cwd A this] Call_rename show ?thesis by (metis fs_exec.simps(4) option.simps(9) snd_conv)
next
  case (Call_open p opts)
  with ok have "open_allowed (ext_exists x) p opts fs" "\<not> hidden M (at_path p fs)" by simp_all
  from open_safe [OF cwd A this, of "ext_ipa x"] Call_open show ?thesis by (metis fs_exec.simps(5) option.simps(9) snd_conv)
next
  case (Call_write p bs)
  with ok have "open_allowed (ext_exists x) p write_options fs" "\<not> hidden M (at_path p fs)" by simp_all
  from write_safe [OF cwd A this, of "ext_ipa x" bs] Call_write show ?thesis by (metis fs_exec.simps(6) option.simps(9) snd_conv)
next
  case (Call_read p)
  with read_safe [OF cwd A, of x p] ok safe_refl [OF A] cwd show ?thesis by auto
next
  case (Call_chdir p)
  obtain r fs' where "change_working_directory (ext_lower x) p fs = Some (r, fs')" "fs_view fs' = fs_view fs" "cwd_ok fs'"
    using cwd by (rule chdir_safe)
  moreover from this have "vis M fs' = vis M fs" by (simp add: vis_def fun_eq_iff)
  ultimately show ?thesis using Call_chdir safe_refl [OF A] by auto
qed

lemma run_safe:
  assumes "fs_run M x (fs0, h0) s" and "cwd_ok fs0" and "agrees (vis M fs0) h0"
  shows "safe_step (vis M fs0) h0 (vis M (fst s)) (snd s) \<and> cwd_ok (fst s)"
  using assms(1)
proof (induction rule: fs_run.induct)
  case fs_run_start
  with assms(2,3) show ?case by auto
next
  case (fs_run_call fs h c s)
  then have s: "safe_step (vis M fs0) h0 (vis M fs) h" "cwd_ok fs" by simp_all
  then have "agrees (vis M fs) h" by (simp add: safe_step_def)
  from exec_safe [OF s(2) this fs_run_call.hyps(2)] fs_run_call.hyps(3) s show ?case by (auto intro: safe_trans)
qed

end
