(* ===== verification/FsProps.thy ===== *)
theory FsProps
  imports FsSafety
begin

text \<open>
  The properties of the guest filesystem: it refines the abstract view, guest programs neither panic it nor
  leave the places it was given, and what happens in the calls that are excluded from that.
\<close>

section \<open>Refinement\<close>

text \<open>
  When a rename succeeds: what is moved and where to on the host, and whether the place can be taken.  An entry
  in the way counts only if it lies at that place on the host; a mounted directory or a bundled file there is
  replaced whatever it is.
\<close>

definition place_in :: "view \<Rightarrow> string list \<Rightarrow> host_path option" where
  "place_in v q =
     (if q = [] then None
      else case v (butlast q) of Some (Entry_dir (Some d)) \<Rightarrow> Some (d @ [last q]) | _ \<Rightarrow> None)"

definition rename_paths :: "string list \<Rightarrow> string list \<Rightarrow> view \<Rightarrow> (host_path \<times> host_path) option" where
  "rename_paths q_from q_to v =
     (case v q_from of
        Some (Entry_file (Loc_Path p) True) \<Rightarrow> map_option (Pair p) (place_in v q_to)
      | Some (Entry_dir (Some p)) \<Rightarrow> map_option (Pair p) (place_in v q_to)
      | _ \<Rightarrow> None)"

definition entry_is_dir :: "entry \<Rightarrow> bool" where
  "entry_is_dir e = (case e of Entry_dir _ \<Rightarrow> True | Entry_file _ _ \<Rightarrow> False)"

definition replaceable :: "view \<Rightarrow> string list \<Rightarrow> host_path \<Rightarrow> bool \<Rightarrow> bool" where
  "replaceable v q hp dir \<longleftrightarrow>
     (case v q of
        None \<Rightarrow> True
      | Some e \<Rightarrow> host_of e = Some hp \<longrightarrow>
          entry_is_dir e = dir \<and> (dir \<longrightarrow> (\<forall>c e'. v (q @ [c]) = Some e' \<longrightarrow> host_of e' \<noteq> Some (hp @ [c]))))"

definition rename_possible :: "string list \<Rightarrow> string list \<Rightarrow> view \<Rightarrow> bool" where
  "rename_possible q_from q_to v \<longleftrightarrow>
     (\<exists>e p hp. v q_from = Some e \<and> rename_paths q_from q_to v = Some (p, hp) \<and>
       (p = hp \<or> \<not> strict_prefix p hp \<and> replaceable v q_to hp (entry_is_dir e)))"

lemma rename_paths_Some:
  "rename_paths qf (tp @ [tc]) v = Some (p, hp) \<longleftrightarrow>
     (\<exists>e d. v qf = Some e \<and> movable e p \<and> v tp = Some (Entry_dir (Some d)) \<and> hp = d @ [tc])"
  by (auto simp: rename_paths_def place_in_def movable_def
      split: option.splits entry.splits file_location.splits bool.splits)

text \<open>The host has entries under a writeable directory exactly where the tree has entries located there.\<close>

lemma entries_of_dir:
  assumes A: "agrees v h" and d: "v q = Some (Entry_dir (Some hp))"
  shows "has_entries hp h \<longleftrightarrow> (\<exists>c e. v (q @ [c]) = Some e \<and> host_of e = Some (hp @ [c]))"
proof
  note A' = agreesD [OF A]
  assume "has_entries hp h"
  then obtain r where r: "strict_prefix hp r" "map_of h r \<noteq> None" unfolding has_entries_iff by blast
  then obtain zs where zs: "r = hp @ zs" "zs \<noteq> []" by (auto simp: strict_prefix_def prefix_def)
  then obtain c cs where cs: "r = hp @ c # cs" by (cases zs) auto
  have "node_at h ((hp @ [c]) @ cs) \<noteq> None" using r(2) cs by (simp add: node_at_def)
  then have "node_at h (hp @ [c]) \<noteq> None"
    using host_ok_prefix [OF A'(1), of "hp @ [c]" cs] by (cases "cs = []") auto
  with A'(4) d show "\<exists>c e. v (q @ [c]) = Some e \<and> host_of e = Some (hp @ [c])" unfolding complete_def by blast
next
  note A' = agreesD [OF A]
  assume "\<exists>c e. v (q @ [c]) = Some e \<and> host_of e = Some (hp @ [c])"
  then obtain c e where e: "v (q @ [c]) = Some e" "host_of e = Some (hp @ [c])" by blast
  from backedD [OF A'(2) e] have "map_of h (hp @ [c]) \<noteq> None" by (auto simp: node_at_def)
  moreover have "strict_prefix hp (hp @ [c])" by (simp add: strict_prefix_def)
  ultimately show "has_entries hp h" unfolding has_entries_iff by blast
qed

lemma host_rename_iff:
  assumes A: "agrees v h" and e: "v qf = Some e" "movable e p" and tp: "v tp = Some (Entry_dir (Some d))" and tc: "host_name tc"
  shows "host_rename p (d @ [tc]) h \<noteq> None \<longleftrightarrow>
    p = d @ [tc] \<or> \<not> strict_prefix p (d @ [tc]) \<and> replaceable v (tp @ [tc]) (d @ [tc]) (entry_is_dir e)"
proof -
  note A' = agreesD [OF A]
  let ?t = "d @ [tc]"
  obtain n where n: "node_at h p = Some n" "backs e n" using backedD [OF A'(2) e(1) movable_host_of [OF e(2)]] by blast
  have wp: "host_walk h [] p = Some p" using host_walk_existing [OF A'(1)] n(1) by simp
  have "node_at h d = Some Host_dir" using backedD [OF A'(2) tp] by auto
  then have wt: "host_walk h [] ?t = Some ?t" using host_walk_child [OF A'(1) _ tc] by simp
  have n_dir: "n = Host_dir \<longleftrightarrow> entry_is_dir e" using n(2) by (cases e) (simp_all add: entry_is_dir_def)
  show ?thesis
  proof (cases "node_at h ?t")
    case None
    have "\<not> (\<exists>e'. v (tp @ [tc]) = Some e' \<and> host_of e' = Some ?t)" using backedD [OF A'(2)] None by fastforce
    then have "replaceable v (tp @ [tc]) ?t (entry_is_dir e)" by (auto simp: replaceable_def split: option.split)
    with None n(1) wp wt show ?thesis by (auto simp: host_rename_def)
  next
    case (Some m)
    then obtain e' where e': "v (tp @ [tc]) = Some e'" "host_of e' = Some ?t"
      using A'(4) tp unfolding complete_def by blast
    with backedD [OF A'(2) e'] Some have m: "backs e' m" by simp
    show ?thesis
    proof (cases e')
      case (Entry_file l w)
      with m obtain bs where "m = Host_file bs" by (cases m) auto
      with Some Entry_file e' n n_dir wp wt show ?thesis
        by (auto simp: host_rename_def replaceable_def entry_is_dir_def)
    next
      case (Entry_dir w)
      with m e' have mw: "m = Host_dir" "w = Some ?t" by simp_all
      from entries_of_dir [OF A, of "tp @ [tc]" ?t] e' Entry_dir mw(2)
      have ents: "has_entries ?t h \<longleftrightarrow> (\<exists>c e. v ((tp @ [tc]) @ [c]) = Some e \<and> host_of e = Some (?t @ [c]))" by simp
      have rep: "replaceable v (tp @ [tc]) ?t (entry_is_dir e) \<longleftrightarrow> entry_is_dir e \<and> \<not> has_entries ?t h"
        unfolding ents using e' Entry_dir by (auto simp: replaceable_def entry_is_dir_def)
      show ?thesis unfolding rep using Some mw(1) n(1) n_dir wp wt by (auto simp: host_rename_def)
    qed
  qed
qed

lemma rename_eq:
  assumes cwd: "cwd_ok fs" and ne: "from_path \<noteq> to_path"
  shows "Fs_rename from_path to_path fs h =
    (case rename_paths (at_path from_path fs) (at_path to_path fs) (fs_view fs) of
       None \<Rightarrow> Some (False, fs, h)
     | Some (p, hp) \<Rightarrow> (case host_rename p hp h of
         None \<Rightarrow> Some (False, fs, h)
       | Some h1 \<Rightarrow> map_option (\<lambda>fs1. (True, fs1, h1)) (finish_rename from_path to_path hp fs)))"
proof (cases "Option.bind (lookup_node_inner (root fs) (at_path from_path fs)) movable_host_path")
  case None
  have "rename_paths (at_path from_path fs) (at_path to_path fs) (fs_view fs) = None"
  proof (cases "lookup_node_inner (root fs) (at_path from_path fs)")
    case (Some n)
    with None have "\<nexists>p. movable (entry_of n) p" by (auto simp: movable_def simp flip: movable_view)
    then show ?thesis using fs_view_lookup [OF Some]
      by (auto simp: rename_paths_def movable_def split: entry.splits file_location.splits bool.splits option.splits)
  qed (simp add: rename_paths_def fs_view_def view_of_def)
  with None ne show ?thesis by (auto simp: Fs_rename_def lookup_node_at [OF cwd])
next
  case (Some p)
  then obtain n where n: "lookup_node_inner (root fs) (at_path from_path fs) = Some n" "movable_host_path n = Some p"
    by (auto simp: bind_eq_Some_conv)
  then have e: "fs_view fs (at_path from_path fs) = Some (entry_of n)" "movable (entry_of n) p"
    by (simp_all add: fs_view_lookup movable_view movable_def)
  then have paths: "rename_paths (at_path from_path fs) q (fs_view fs) = map_option (Pair p) (place_in (fs_view fs) q)" for q
    by (auto simp: rename_paths_def movable_def)
  from cwd show ?thesis
  proof (cases rule: parent_cases [where path = to_path])
    case t: (in_dir tp tc ch w)
    then have "place_in (fs_view fs) (tp @ [tc]) = map_option (\<lambda>d. d @ [tc]) w"
      by (cases w) (simp_all add: place_in_def)
    then show ?thesis using ne n t
      by (cases w) (auto simp: Fs_rename_def lookup_node_at [OF cwd] host_join_proper Let_def paths
          split: option.splits bind_splits)
  qed (use ne n in \<open>auto simp: Fs_rename_def lookup_node_at [OF cwd] paths place_in_def split: option.splits entry.splits\<close>)
qed

lemma rename_result:
  assumes cwd: "cwd_ok fs" and r: "Fs_rename path to_path fs h = Some (ok, fs', h')" and ne: "path \<noteq> to_path"
  shows "(case rename_paths (at_path path fs) (at_path to_path fs) (fs_view fs) of
        None \<Rightarrow> \<not> ok \<and> fs' = fs \<and> h' = h
      | Some (p, hp) \<Rightarrow>
          if ok then host_rename p hp h = Some h' \<and> fs_view fs' = spec_rename (at_path path fs) (at_path to_path fs) hp (fs_view fs)
          else host_rename p hp h = None \<and> fs' = fs \<and> h' = h) \<and>
     (agrees (fs_view fs) h \<longrightarrow> ok = rename_possible (at_path path fs) (at_path to_path fs) (fs_view fs))"
proof -
  let ?qf = "at_path path fs" and ?qt = "at_path to_path fs" and ?v = "fs_view fs"
  show ?thesis
  proof (cases "rename_paths ?qf ?qt ?v")
    case None
    with rename_eq [OF cwd ne] r show ?thesis by (auto simp: rename_possible_def)
  next
    case (Some pp)
    obtain p hp where pp: "pp = (p, hp)" by (cases pp)
    with Some obtain e where e: "?v ?qf = Some e"
      by (auto simp: rename_paths_def split: option.splits)
    from Some have "?qt \<noteq> []" by (auto simp: rename_paths_def place_in_def split: option.splits entry.splits file_location.splits bool.splits)
    then obtain tp tc where qt: "?qt = tp @ [tc]" by (metis append_butlast_last_id)
    with Some pp e obtain d where d: "?v tp = Some (Entry_dir (Some d))" "hp = d @ [tc]" "movable e p"
      by (auto simp: rename_paths_Some)
    have tc: "host_name tc" using at_path_proper [OF cwd, of to_path] qt by (simp add: proper_host_name)
    have poss: "host_rename p hp h \<noteq> None \<longleftrightarrow> rename_possible ?qf ?qt ?v" if "agrees ?v h"
      unfolding d(2) host_rename_iff [OF that e d(3,1) tc] using Some pp e qt d(2) by (auto simp: rename_possible_def)
    show ?thesis
    proof (cases "host_rename p hp h")
      case None
      with rename_eq [OF cwd ne] r Some pp poss show ?thesis by auto
    next
      case (Some h1)
      with rename_eq [OF cwd ne] r \<open>rename_paths ?qf ?qt ?v = Some pp\<close> pp have ok: "ok" "h' = h1" by auto
      with rename_refines [OF cwd r ne] obtain e2 p2 tp2 tc2 d2 where
        "?v ?qf = Some e2" "?qt = tp2 @ [tc2]" "?v tp2 = Some (Entry_dir (Some d2))"
        "fs_view fs' = spec_rename ?qf ?qt (d2 @ [tc2]) ?v" by auto
      with qt d have "fs_view fs' = spec_rename ?qf ?qt hp ?v" by simp
      with ok Some \<open>rename_paths ?qf ?qt ?v = Some pp\<close> pp poss show ?thesis by auto
    qed
  qed
qed

text \<open>
  C5: The tree implements the abstract filesystem.  \<open>create_dir\<close> and \<open>remove\<close> return the error the abstract
  operation on the partial map of paths gives and then change nothing, or change the view by exactly the one
  entry.  \<open>rename\<close> of a path to itself succeeds and changes nothing.  Otherwise it fails and changes nothing if
  what it moves is no writeable file or directory with a host path, or if the new parent is no writeable
  directory; if both are in order it does what the host's \<open>rename\<close> from the old host path to the new
  name in the new parent's host directory does: it fails with it and changes nothing, or succeeds, moves the
  entries under the first path to the second, in place of what was there, and gives them that new host
  path.  On a host that agrees with the tree this is decided by the view: the rename succeeds exactly if both
  host paths are the same, or the old is not above the new and nothing lies at the new place on the host, or a
  file for a file, or a directory without entries for a directory.  The working directory stays.
\<close>
theorem fs_refines_view:
  assumes "cwd_ok fs"
  shows "(\<forall>r fs' h'. Fs_create_dir path fs h = Some (r, fs', h') \<longrightarrow>
      (case spec_create_dir (at_path path fs) (fs_view fs) of
         Inl err \<Rightarrow> r = Inl err \<and> fs' = fs \<and> h' = h
       | Inr v \<Rightarrow> r = Inr () \<and> fs_view fs' = v) \<and> working_directory fs' = working_directory fs) \<and>
    (\<forall>r fs' h'. Fs_remove path fs h = Some (r, fs', h') \<longrightarrow>
      (case spec_remove (at_path path fs) (fs_view fs) of
         Inl err \<Rightarrow> r = Inl err \<and> fs' = fs \<and> h' = h
       | Inr v \<Rightarrow> r = Inr () \<and> fs_view fs' = v) \<and> working_directory fs' = working_directory fs) \<and>
    Fs_rename path path fs h = Some (True, fs, h) \<and>
    (\<forall>ok to_path fs' h'. Fs_rename path to_path fs h = Some (ok, fs', h') \<and> path \<noteq> to_path \<longrightarrow>
      (case rename_paths (at_path path fs) (at_path to_path fs) (fs_view fs) of
         None \<Rightarrow> \<not> ok \<and> fs' = fs \<and> h' = h
       | Some (p, hp) \<Rightarrow>
           if ok then host_rename p hp h = Some h' \<and>
             fs_view fs' = spec_rename (at_path path fs) (at_path to_path fs) hp (fs_view fs)
           else host_rename p hp h = None \<and> fs' = fs \<and> h' = h) \<and>
      (agrees (fs_view fs) h \<longrightarrow> ok = rename_possible (at_path path fs) (at_path to_path fs) (fs_view fs)) \<and>
      working_directory fs' = working_directory fs)"
proof (intro conjI allI impI)
  fix r fs' h' assume "Fs_create_dir path fs h = Some (r, fs', h')"
  from create_dir_refines [OF assms this] show "case spec_create_dir (at_path path fs) (fs_view fs) of
      Inl err \<Rightarrow> r = Inl err \<and> fs' = fs \<and> h' = h | Inr v \<Rightarrow> r = Inr () \<and> fs_view fs' = v"
    "working_directory fs' = working_directory fs" by simp_all
next
  fix r fs' h' assume "Fs_remove path fs h = Some (r, fs', h')"
  from remove_refines [OF assms this] show "case spec_remove (at_path path fs) (fs_view fs) of
      Inl err \<Rightarrow> r = Inl err \<and> fs' = fs \<and> h' = h | Inr v \<Rightarrow> r = Inr () \<and> fs_view fs' = v"
    "working_directory fs' = working_directory fs" by simp_all
next
  show "Fs_rename path path fs h = Some (True, fs, h)" by (simp add: Fs_rename_def)
next
  fix ok to_path fs' h' assume "Fs_rename path to_path fs h = Some (ok, fs', h') \<and> path \<noteq> to_path"
  then have r: "Fs_rename path to_path fs h = Some (ok, fs', h')" "path \<noteq> to_path" by simp_all
  from rename_result [OF assms r] show "case rename_paths (at_path path fs) (at_path to_path fs) (fs_view fs) of
         None \<Rightarrow> \<not> ok \<and> fs' = fs \<and> h' = h
       | Some (p, hp) \<Rightarrow>
           if ok then host_rename p hp h = Some h' \<and>
             fs_view fs' = spec_rename (at_path path fs) (at_path to_path fs) hp (fs_view fs)
           else host_rename p hp h = None \<and> fs' = fs \<and> h' = h"
    and "agrees (fs_view fs) h \<Longrightarrow> ok = rename_possible (at_path path fs) (at_path to_path fs) (fs_view fs)" by simp_all
  from rename_refines [OF assms r] show "working_directory fs' = working_directory fs" by simp
qed

text \<open>A filesystem to apply the theorems to: one writeable directory, and a bundled file.\<close>

definition demo_fs :: fs where
  "demo_fs = \<lparr>root = FsDirectory
       [(''Documents'', FsDirectory [] (Some [''box''])), (''App'', FsDirectory [(''data'', FsFile (IpaFileRef 0) False)] None)] None,
     working_directory = ''/App'', home_directory = ''/'', cow_dir = Some [''cow'']\<rparr>"

definition demo_host :: host where
  "demo_host = [([''box''], Host_dir), ([''cow''], Host_dir)]"

definition demo_externals :: fs_externals where
  "demo_externals = \<lparr>ext_lower = id, ext_ipa = (\<lambda>_. [7]), ext_resource = (\<lambda>_. None)\<rparr>"

lemma demo_cwd: "cwd_ok demo_fs" by (simp add: cwd_ok_def demo_fs_def starts_with_slash_def)

lemma demo_view:
  "fs_view demo_fs q =
    (if q = [] then Some (Entry_dir None) else if q = [''Documents''] then Some (Entry_dir (Some [''box'']))
     else if q = [''App''] then Some (Entry_dir None) else if q = [''App'', ''data''] then Some (Entry_file (IpaFileRef 0) False)
     else None)"
proof (cases q)
  case (Cons c cs)
  then show ?thesis by (cases cs) (auto simp: fs_view_def demo_fs_def view_of_dir)
qed (simp add: fs_view_def demo_fs_def)

lemma demo_node:
  "node_at demo_host p = (if p = [] \<or> p = [''box''] \<or> p = [''cow''] then Some Host_dir else None)"
  by (auto simp: node_at_def demo_host_def)

lemma demo_agrees: "agrees (fs_view demo_fs) demo_host"
  unfolding agrees_def
proof (intro conjI)
  show "host_ok demo_host"
    unfolding host_ok_def by (auto simp: demo_node demo_host_def host_name_def split: if_splits)
  show "backed (fs_view demo_fs) demo_host" by (auto simp: backed_def demo_view demo_node split: if_splits)
  show "unaliased (fs_view demo_fs)" by (auto simp: unaliased_def demo_view split: if_splits)
  show "complete (fs_view demo_fs) demo_host" by (auto simp: complete_def demo_view demo_node split: if_splits)
  show "writeable_located (fs_view demo_fs)" by (auto simp: writeable_located_def demo_view split: if_splits)
  show "tree_like (fs_view demo_fs)" by (rule tree_like_fs_view)
qed

lemma demo_at: "at_path ''/Documents/new'' demo_fs = [''Documents'', ''new'']"
  by (simp add: at_path_def resolve_path_def starts_with_slash_def apply_path_component_def strip_duplicate_prefix_def)

lemma demo_create: "\<exists>fs' h'. Fs_create_dir ''/Documents/new'' demo_fs demo_host = Some (Inr (), fs', h')"
proof -
  obtain r fs' h' where r: "Fs_create_dir ''/Documents/new'' demo_fs demo_host = Some (r, fs', h')"
    by (rule create_dir_safe [OF demo_cwd, of "{}" demo_host "''/Documents/new''"]) (use demo_agrees in \<open>auto simp: hidden_def\<close>)
  from create_dir_refines [OF demo_cwd r] have "r = Inr ()" by (simp add: demo_at spec_create_dir_def demo_view)
  with r show ?thesis by blast
qed

text \<open>After the new directory has been made, it can be renamed.\<close>

lemma demo_at_old: "at_path ''/Documents/old'' fs = [''Documents'', ''old'']" "at_path ''/Documents/new'' fs = [''Documents'', ''new'']"
  by (simp_all add: at_path_def resolve_path_def starts_with_slash_def apply_path_component_def strip_duplicate_prefix_def)

lemma demo_made:
  obtains fs h where "Fs_create_dir ''/Documents/new'' demo_fs demo_host = Some (Inr (), fs, h)" "cwd_ok fs"
    "agrees (fs_view fs) h" "fs_view fs = (fs_view demo_fs)([''Documents'', ''new''] \<mapsto> Entry_dir (Some [''box'', ''new'']))"
proof (rule create_dir_safe [OF demo_cwd, of "{}" demo_host "''/Documents/new''"])
  fix r fs h assume r: "Fs_create_dir ''/Documents/new'' demo_fs demo_host = Some (r, fs, h)"
    and s: "safe_step (vis {} demo_fs) demo_host (vis {} fs) h" and c: "cwd_ok fs"
  have "spec_create_dir [''Documents'', ''new''] (fs_view demo_fs) =
      Inr ((fs_view demo_fs)([''Documents'', ''new''] \<mapsto> Entry_dir (Some [''box'', ''new''])))"
    by (simp add: spec_create_dir_def demo_view)
  with create_dir_refines [OF demo_cwd r] have "r = Inr ()"
      "fs_view fs = (fs_view demo_fs)([''Documents'', ''new''] \<mapsto> Entry_dir (Some [''box'', ''new'']))"
    by (simp_all add: demo_at)
  with that r s c show thesis by (auto simp: safe_step_def)
qed (use demo_agrees in \<open>auto simp: hidden_def\<close>)

theorem fs_refines_view_witness:
  "\<exists>fs h fs' h'. Fs_create_dir ''/Documents/new'' demo_fs demo_host = Some (Inr (), fs, h) \<and>
     fs_view fs [''Documents'', ''new''] = Some (Entry_dir (Some [''box'', ''new''])) \<and>
     Fs_rename ''/Documents/new'' ''/Documents/old'' fs h = Some (True, fs', h') \<and>
     fs_view fs' [''Documents'', ''new''] = None \<and>
     fs_view fs' [''Documents'', ''old''] = Some (Entry_dir (Some [''box'', ''old'']))"
proof -
  let ?new = "[''Documents'', ''new'']" and ?old = "[''Documents'', ''old'']"
  obtain fs h where m: "Fs_create_dir ''/Documents/new'' demo_fs demo_host = Some (Inr (), fs, h)" "cwd_ok fs"
    "agrees (fs_view fs) h" and v: "fs_view fs = (fs_view demo_fs)(?new \<mapsto> Entry_dir (Some [''box'', ''new'']))"
    using demo_made .
  have "pure_subtree (fs_view fs) ?new [''box'', ''new'']" by (auto simp: pure_subtree_def v demo_view split: if_splits)
  then have allowed: "rename_allowed {} ''/Documents/new'' ''/Documents/old'' fs"
    by (simp add: rename_allowed_def hidden_def above_hidden_def demo_at_old v)
  have "agrees (vis {} fs) h" using m(3) by simp
  then obtain ok fs' h' where r: "Fs_rename ''/Documents/new'' ''/Documents/old'' fs h = Some (ok, fs', h')"
    by (rule rename_safe [OF m(2) _ allowed])
  have paths: "rename_paths ?new ?old (fs_view fs) = Some ([''box'', ''new''], [''box'', ''old''])"
    by (simp add: rename_paths_def place_in_def v demo_view)
  have possible: "rename_possible ?new ?old (fs_view fs)"
    unfolding rename_possible_def paths by (simp add: v demo_view replaceable_def)
  have "''/Documents/new'' \<noteq> ''/Documents/old''" by simp
  note ref = fs_refines_view [OF m(2), of "''/Documents/new''" h, THEN conjunct2, THEN conjunct2, THEN conjunct2,
      rule_format, OF conjI [OF r this], unfolded demo_at_old paths]
  from ref possible m(3) have ok by simp
  with ref have "fs_view fs' = spec_rename ?new ?old [''box'', ''old''] (fs_view fs)" by simp
  then have "fs_view fs' ?new = None" "fs_view fs' ?old = Some (Entry_dir (Some [''box'', ''old'']))"
    by (simp_all add: spec_rename_def relocated_def v)
  with m(1) r \<open>ok\<close> show ?thesis by (auto simp: v)
qed

section \<open>Guest programs\<close>

text \<open>
  C3: Guest programs that keep to the allowed calls do not panic the filesystem.  The calls are creating,
  removing, renaming, opening, writing and reading files and changing the directory, in any sequence, with
  arbitrary paths, modes and contents; \<open>call_allowed M\<close> excludes calls on the places \<open>M\<close>, opening an existing
  directory for writing and creating, opening a read-only bundled file for writing while there is a
  copy-on-write directory, renaming a directory that holds entries located elsewhere on the host, modes the
  host refuses whatever the file is, and resource files that do not exist.  From a filesystem that agrees
  with the host outside of \<open>M\<close>, such calls keep the agreement: every node that names a place on the host finds
  it there with the right kind, no two nodes share a place, and what lies under a writeable directory is in
  the tree.  In every state so reached each allowed call returns.  The last section shows what the excluded
  calls do.
\<close>
theorem fs_never_panics:
  assumes "fs_run M x (fs0, h0) (fs, h)" and "cwd_ok fs0" and "agrees (vis M fs0) h0"
  shows "agrees (vis M fs) h \<and> (\<forall>c. call_allowed M x c fs \<longrightarrow> fs_exec x c (fs, h) \<noteq> None)"
proof -
  from run_safe [OF assms] have s: "safe_step (vis M fs0) h0 (vis M fs) h" "cwd_ok fs" by simp_all
  then have A: "agrees (vis M fs) h" by (simp add: safe_step_def)
  with exec_safe [OF s(2) A] show ?thesis by fastforce
qed

lemma demo_run:
  "\<exists>fs' h'. fs_run {} demo_externals (demo_fs, demo_host) (fs', h') \<and> fs_view fs' [''Documents'', ''new''] \<noteq> None"
proof -
  obtain fs' h' where r: "Fs_create_dir ''/Documents/new'' demo_fs demo_host = Some (Inr (), fs', h')" using demo_create by blast
  from create_dir_refines [OF demo_cwd r] have "fs_view fs' [''Documents'', ''new''] \<noteq> None"
    by (simp add: demo_at spec_create_dir_def demo_view)
  moreover have "fs_run {} demo_externals (demo_fs, demo_host) (fs', h')"
    by (rule fs_run_call [OF fs_run_start, where c = "Call_create_dir ''/Documents/new''"]) (simp_all add: r hidden_def)
  ultimately show ?thesis by blast
qed

theorem fs_never_panics_witness:
  "\<exists>fs h. fs_view fs [''Documents'', ''new''] \<noteq> None \<and> agrees (fs_view fs) h \<and>
     fs_exec demo_externals (Call_remove ''/Documents/new'') (fs, h) \<noteq> None"
proof -
  obtain fs h where r: "fs_run {} demo_externals (demo_fs, demo_host) (fs, h)" "fs_view fs [''Documents'', ''new''] \<noteq> None"
    using demo_run by blast
  note a = fs_never_panics [OF r(1) demo_cwd, unfolded vis_none, OF demo_agrees]
  have "call_allowed {} demo_externals (Call_remove ''/Documents/new'') fs" by (simp add: hidden_def)
  with a have "fs_exec demo_externals (Call_remove ''/Documents/new'') (fs, h) \<noteq> None" by blast
  with a r(2) show ?thesis by blast
qed

text \<open>
  C4: The sandbox holds for the allowed calls.  Whatever calls that \<open>call_allowed M\<close> admits a guest program
  makes, with whatever paths, the only places on the host whose contents change are under the host paths of
  the writeable nodes the filesystem had at the start; \<open>..\<close> and absolute paths do not lead out of them.  Calls
  that copy a bundled file into the copy-on-write directory are not among them, and the last section shows that
  those can lead out of it.
\<close>
theorem fs_confined:
  assumes "fs_run M x (fs0, h0) (fs, h)" and "cwd_ok fs0" and "agrees (vis M fs0) h0"
    and "\<And>q e p. vis M fs0 q = Some e \<Longrightarrow> movable e p \<Longrightarrow> \<not> prefix p place"
  shows "node_at h place = node_at h0 place"
proof (rule ccontr)
  assume "node_at h place \<noteq> node_at h0 place"
  with run_safe [OF assms(1-3)] have "within (vis M fs0) place" by (auto simp: safe_step_def)
  with assms(4) show False by (auto simp: within_def)
qed

theorem fs_confined_witness:
  "\<exists>fs h. fs_run {} demo_externals (demo_fs, demo_host) (fs, h) \<and> node_at h [''etc''] = None"
proof -
  obtain fs h where r: "fs_run {} demo_externals (demo_fs, demo_host) (fs, h)" using demo_run by blast
  have "node_at h [''etc''] = node_at demo_host [''etc'']"
    by (rule fs_confined [OF r demo_cwd]) (auto simp: demo_agrees demo_view split: if_splits)
  with r show ?thesis by (auto simp: demo_node)
qed

section \<open>The excluded calls\<close>

text \<open>Opening with the wish to create or truncate where a directory is.\<close>

lemma open_directory_creates:
  assumes cwd: "cwd_ok fs" and location: "at_path path fs = p @ [c]" and dir: "fs_view fs (p @ [c]) = Some (Entry_dir w)"
    and create: "o_create options" "\<not> o_create_new options" and wr: "forced_write options"
  shows "open_with_options ipa_open resource_exists path options fs h = create_new_file path options True fs h"
  using cwd
proof (cases rule: parent_cases [where path = path])
  case (in_dir p' c' ch w')
  with location have "p' = p" "c' = c" by simp_all
  obtain ents where "map_of ch c = Some (FsDirectory ents w)"
  proof (cases "map_of ch c")
    case (Some n)
    with dir child_view [OF in_dir(4), of c] \<open>p' = p\<close> \<open>c' = c\<close> that show thesis by (cases n) auto
  qed (use dir child_view [OF in_dir(4), of c] \<open>p' = p\<close> \<open>c' = c\<close> in auto)
  with in_dir \<open>c' = c\<close> wr create(2) show ?thesis
    by (simp add: open_with_options_def inspect_existing_def)
qed (use location dir tree_like_below [OF tree_like_fs_view, of fs p "[c]"] in auto)

text \<open>
  C38: Opening a directory for writing.  When a program opens a path for writing with \<open>O_CREAT\<close> and the path is
  a directory inside a writeable one, the code goes on to create a file there instead of refusing.  If the
  directory lies at that place on the host, the host refuses and the emulator panics; if it is mounted from
  elsewhere, as \<open>Documents\<close> in the home directory is, the directory and everything below it is replaced by
  the new file.
\<close>
theorem open_directory_for_writing:
  assumes "cwd_ok fs" and "agrees (fs_view fs) h" and "at_path path fs = p @ [c]"
    and "fs_view fs p = Some (Entry_dir (Some d))" and "fs_view fs (p @ [c]) = Some (Entry_dir w)"
    and "o_create options" and "\<not> o_create_new options" and "o_write options" and "\<not> o_append options"
  shows "if node_at h (d @ [c]) = Some Host_dir
    then open_with_options ipa_open resource_exists path options fs h = None
    else \<exists>file fs' h'. open_with_options ipa_open resource_exists path options fs h = Some (Some file, fs', h') \<and>
      fs_view fs' (p @ [c]) = Some (Entry_file (Loc_Path (d @ [c])) True) \<and> (\<forall>r. r \<noteq> [] \<longrightarrow> fs_view fs' (p @ [c] @ r) = None)"
proof -
  note A' = agreesD [OF assms(2)]
  have writes: "forced_write options" using assms(8) by (simp add: forced_write_def)
  have o: "open_with_options ipa_open resource_exists path options fs h = create_new_file path options True fs h"
    by (rule open_directory_creates [OF assms(1,3,5,6,7) writes])
  have dd: "node_at h d = Some Host_dir" using backedD [OF A'(2) assms(4)] by auto
  let ?opts = "host_options options True"
  have opts: "options_ok ?opts" "opt_write ?opts" "opt_create ?opts"
    using assms(8,9) writes by (simp_all add: options_ok_def host_options_def)
  from assms(1) show ?thesis
  proof (cases rule: parent_cases [where path = path])
    case (in_dir p' c' ch w')
    with assms(3,4) have e: "p' = p" "c' = c" "w' = Some d" by simp_all
    have walk: "host_walk h [] (d @ [c]) = Some (d @ [c])"
      using host_walk_child [OF A'(1) dd proper_host_name] in_dir(5) e by simp
    have n: "create_new_file path options True fs h = map_option (\<lambda>(q, h1). (Some (GuestFile_File q ?opts),
        insert_child p (FsDirectory ch (Some d)) c (FsFile (Loc_Path (d @ [c])) True) fs, h1)) (host_open ?opts (d @ [c]) h)"
      using in_dir e assms(6,7) writes
      by (cases "host_open ?opts (d @ [c]) h")
        (auto simp: create_new_file_def host_join_proper proper_component_def open_host_file_def host_options_def Let_def)
    show ?thesis
    proof (cases "node_at h (d @ [c]) = Some Host_dir")
      case True
      with walk opts have "host_open ?opts (d @ [c]) h = None" by (simp add: host_open_def)
      with True o n show ?thesis by simp
    next
      case False
      then have "\<exists>h1. host_open ?opts (d @ [c]) h = Some (d @ [c], h1)"
        using walk opts by (auto simp: host_open_def split: option.splits host_node.splits)
      then obtain h1 where "host_open ?opts (d @ [c]) h = Some (d @ [c], h1)" ..
      with False o n show ?thesis
        using in_dir(4) e view_insert_child [of fs p ch "Some d" c] by simp
    qed
  qed (use assms(3,4) in auto)
qed

definition demo_mounted :: fs where
  "demo_mounted = demo_fs\<lparr>root := FsDirectory [(''Documents'', FsDirectory [] (Some [''box'']))] (Some [''cow''])\<rparr>"

lemma demo_mounted_view:
  "fs_view demo_mounted q =
    (if q = [] then Some (Entry_dir (Some [''cow''])) else if q = [''Documents''] then Some (Entry_dir (Some [''box''])) else None)"
  by (cases q) (auto simp: fs_view_def demo_mounted_def view_of_dir)

lemma demo_mounted_agrees: "agrees (fs_view demo_mounted) demo_host"
  using demo_agrees unfolding agrees_def
  by (auto simp: backed_def unaliased_def complete_def writeable_located_def demo_mounted_view demo_node tree_like_fs_view
      split: if_splits)

theorem open_directory_for_writing_witness:
  "\<exists>file fs' h'. open_with_options (\<lambda>_. []) (\<lambda>_. True) ''/Documents'' (write_options\<lparr>o_truncate := False\<rparr>) demo_mounted demo_host =
      Some (Some file, fs', h') \<and> fs_view fs' [''Documents''] = Some (Entry_file (Loc_Path [''cow'', ''Documents'']) True)"
proof -
  have "at_path ''/Documents'' demo_mounted = [] @ [''Documents'']"
    by (simp add: at_path_def resolve_path_def starts_with_slash_def apply_path_component_def strip_duplicate_prefix_def)
  from open_directory_for_writing [OF _ demo_mounted_agrees this, of "[''cow'']" "Some [''box'']" "write_options\<lparr>o_truncate := False\<rparr>"
      "\<lambda>_. []" "\<lambda>_. True"]
  moreover have "cwd_ok demo_mounted" using demo_cwd by (simp add: cwd_ok_def demo_mounted_def)
  ultimately show ?thesis
    by (auto simp: demo_mounted_view demo_node write_options_def GuestOpenOptions_new_def)
qed

text \<open>The copy of a bundled file goes where the path of the call leads.\<close>

lemma host_walk_up: "node_at h p = Some Host_dir \<Longrightarrow> host_ok h \<Longrightarrow> p \<noteq> [] \<Longrightarrow>
    host_walk h [] (p @ ''..'' # cs) = host_walk h (butlast p) cs"
  using host_walk_existing [of h p] by (simp add: host_walk_append)

lemma host_ok_names: "host_ok h \<Longrightarrow> node_at h p \<noteq> None \<Longrightarrow> c \<in> set p \<Longrightarrow> host_name c"
proof (induction p rule: rev_induct)
  case (snoc d p)
  then have "node_at h p = Some Host_dir \<and> host_name d" using host_okD [of h p d] by auto
  with snoc show ?case by auto
qed simp

lemma cow_place:
  assumes cwd: "working_directory fs = SLASH # g" and g: "proper_component g" and f: "proper_component f"
  shows "at_path (''../'' @ g @ SLASH # f) fs = [g] @ [f]" and "cow_host_path c (''../'' @ g @ SLASH # f) = c @ [''..'', g, f]"
proof -
  let ?path = "''../'' @ g @ SLASH # f"
  have cs: "SLASH \<notin> set g" "SLASH \<notin> set f" using g f by (auto simp: proper_component_def)
  have split: "split_char SLASH ?path = [''..'', g, f]"
    using cs split_char_append [of SLASH "''..''" "g @ SLASH # f"] by (simp add: split_char_append split_char_word)
  show "at_path ?path fs = [g] @ [f]"
    using g f cs split by (simp add: at_path_def resolve_path_def cwd split_char_word apply_path_component_def
        proper_component_def strip_duplicate_prefix_def starts_with_slash_def)
  have "\<not> starts_with_slash g" "\<not> starts_with_slash f" using cs g f by (cases g; cases f; auto simp: starts_with_slash_def)+
  then show "cow_host_path c ?path = c @ [''..'', g, f]"
    using split cs by (simp add: cow_host_path_def trim_start_char_def host_join_def split_char_word starts_with_slash_def)
qed

text \<open>
  C39: A copied file escapes from the sandbox.  A bundled file is copied before it is written, to a place built
  from the path exactly as the program wrote it, \<open>..\<close> included.  A program in the directory \<open>/g\<close> that writes to
  its file \<open>f\<close> under the name \<open>../g/f\<close> creates a directory \<open>g\<close> next to the copy directory on the host, and the
  file with its data in it: outside of every place the filesystem was given.
\<close>
theorem cow_copy_escapes:
  assumes cwd: "working_directory fs = SLASH # g" and g: "proper_component g" and f: "proper_component f"
    and bundled: "fs_view fs [g, f] = Some (Entry_file (IpaFileRef i) False)" and cow: "cow_dir fs = Some (b @ [x])"
    and h: "host_ok h" "node_at h (b @ [x]) = Some Host_dir" and fresh: "node_at h (b @ [g]) = None"
    and content: "ipa_open i \<noteq> []"
  shows "\<exists>fs' h'. Fs_write ipa_open resource_exists (''../'' @ g @ SLASH # f) data fs h = Some (True, fs', h') \<and>
    node_at h' (b @ [g]) = Some Host_dir \<and> node_at h' (b @ [g, f]) = Some (Host_file data) \<and> \<not> prefix (b @ [x]) (b @ [g, f])"
proof -
  let ?path = "''../'' @ g @ SLASH # f" and ?q = "b @ [g, f]" and ?p = "(b @ [x]) @ [''..'', g, f]"
  note place = cow_place [OF cwd g f]
  have b: "node_at h b = Some Host_dir" using host_okD [OF h(1,2)] by simp
  have names: "host_name g" "host_name f" using g f by (simp_all add: proper_host_name)
  have x: "x \<noteq> g" using h(2) fresh by auto
  let ?h1 = "AList.update (b @ [g]) Host_dir h"
  let ?h2 = "\<lambda>bs. AList.update ?q (Host_file bs) ?h1"
  have ok1: "host_ok ?h1" using host_ok_update [OF h(1) b names(1)] by simp
  have empty: "node_at h ?q = None" using host_okD [OF h(1), of "b @ [g]" f] fresh by (cases "node_at h ?q") auto
  then have empty1: "node_at ?h1 ?q = None" by (simp add: node_at_update)
  have ok2: "host_ok (?h2 bs)" for bs
    using host_ok_update [OF ok1 _ names(2), of "b @ [g]" "Host_file bs"] empty1 by (simp add: node_at_update)
  have walk: "host_walk k [] ((b @ [x]) @ ''..'' # cs) = host_walk k b cs"
    if "host_ok k" "node_at k (b @ [x]) = Some Host_dir" for k cs using host_walk_up [OF that(2,1)] by simp
  have w0: "host_walk h [] ((b @ [x]) @ [''..'', g]) = Some (b @ [g])" "host_walk h [] ?p = None"
    using walk [OF h] b fresh names by (simp_all add: host_name_def)
  have w1: "host_walk ?h1 [] ?p = Some ?q"
    using walk [OF ok1, of "[g, f]"] b h(2) names x by (simp add: node_at_update host_name_def)
  have w2: "host_walk (?h2 bs) [] ?p = Some ?q" for bs
    using walk [OF ok2, of _ "[g, f]"] b h(2) names x by (simp add: node_at_update host_name_def)
  have par: "host_parent ?p = (b @ [x]) @ [''..'', g]"
    using host_ok_names [OF h(1), of "b @ [x]"] h(2) names by (auto simp: host_parent_def host_name_def filter_id_conv butlast_append)
  have mkdir: "host_create_dir_all ((b @ [x]) @ [''..'', g]) h = (True, ?h1)"
    using w0(1) fresh by (subst host_create_dir_all.simps) (simp add: host_create_dir_def)
  have copied: "extract_cow ?p (ipa_open i) h = (True, ?h2 (ipa_open i))"
    using content par mkdir w1 empty1
    by (simp add: extract_cow_def host_write_def host_open_def options_ok_def)
  let ?opts = "host_options write_options False"
  have o: "host_open ?opts ?p (?h2 (ipa_open i)) = Some (?q, ?h2 [])"
    using w2 by (simp add: host_open_def options_ok_def host_options_def write_options_def GuestOpenOptions_new_def forced_write_def
        node_at_update)
  have cwd': "cwd_ok fs" by (simp add: cwd_ok_def cwd starts_with_slash_def)
  then obtain ch w where par_node: "lookup_parent_node ?path fs = Some (Some ([g], FsDirectory ch w, f))"
    and m: "map_of ch f = Some (FsFile (IpaFileRef i) False)"
  proof (cases rule: parent_cases [where path = ?path])
    case (in_dir p c ch w)
    with place(1) have pc: "p = [g]" "c = f" by simp_all
    obtain n where n: "map_of ch f = Some n" "entry_of n = Entry_file (IpaFileRef i) False"
      using child_view [OF in_dir(4), of f] bundled pc by (cases "map_of ch f") auto
    then have "n = FsFile (IpaFileRef i) False" by (cases n) auto
    with in_dir(3) n(1) pc that show thesis by simp
  qed (use place(1) bundled tree_like_below [OF tree_like_fs_view, of fs "[g]" "[f]"] in auto)
  let ?fs = "insert_child [g] (FsDirectory ch w) f (FsFile (Loc_Path ?p) True) fs"
  have "open_with_options ipa_open resource_exists ?path write_options fs h = Some (Some (GuestFile_File ?q ?opts), ?fs, ?h2 [])"
    using par_node m cow place(2) w0(2) copied o
    by (simp add: open_with_options_def inspect_existing_def host_exists_def host_metadata_def open_host_file_def
        host_options_def write_options_def GuestOpenOptions_new_def forced_write_def Let_def)
  then have "Fs_write ipa_open resource_exists ?path data fs h = Some (True, ?fs, ?h2 data)"
    by (simp add: Fs_write_def write_options_def [symmetric])
  moreover have "node_at (?h2 data) (b @ [g]) = Some Host_dir" "node_at (?h2 data) ?q = Some (Host_file data)"
    by (simp_all add: node_at_update)
  ultimately show ?thesis using x by simp
qed

theorem cow_copy_escapes_witness:
  "\<exists>fs' h'. Fs_write (\<lambda>_. [7]) (\<lambda>_. True) ''../App/data'' [1, 2] demo_fs demo_host = Some (True, fs', h') \<and>
     node_at h' [''App'', ''data''] = Some (Host_file [1, 2])"
proof -
  have "\<exists>fs' h'. Fs_write (\<lambda>_. [7]) (\<lambda>_. True) (''../'' @ ''App'' @ SLASH # ''data'') [1, 2] demo_fs demo_host = Some (True, fs', h') \<and>
    node_at h' ([] @ [''App'']) = Some Host_dir \<and> node_at h' ([] @ [''App'', ''data'']) = Some (Host_file [1, 2]) \<and>
    \<not> prefix ([] @ [''cow'']) ([] @ [''App'', ''data''])"
    using agreesD(1) [OF demo_agrees]
    by (intro cow_copy_escapes [where i = 0])
      (simp_all add: demo_fs_def demo_view [unfolded demo_fs_def] demo_node proper_component_def)
  then show ?thesis by auto
qed

text \<open>
  C40: Moving a directory that holds a mounted one.  A rename gives every node of the moved subtree a host path
  under the new place, also a directory that is mounted from elsewhere on the host, as \<open>Documents\<close> is inside
  the home directory.  After such a rename that directory names a place that does not exist, the
  agreement with the host is lost, and creating anything in it panics.
\<close>
theorem rename_strands_mounts:
  assumes "cwd_ok fs" and "agrees (fs_view fs) h" and "from_path \<noteq> to_path"
    and "Fs_rename from_path to_path fs h = Some (True, fs', h')"
    and "fs_view fs (at_path from_path fs) = Some (Entry_dir (Some f))"
    and "fs_view fs (at_path from_path fs @ [m]) = Some (Entry_dir (Some p))" and "p \<noteq> f @ [m]"
  shows "\<exists>t. fs_view fs' (at_path to_path fs @ [m]) = Some (Entry_dir (Some (t @ [m]))) \<and> node_at h' (t @ [m]) = None \<and>
    (\<forall>path n. at_path path fs' = at_path to_path fs @ [m, n] \<and> fs_view fs' (at_path to_path fs @ [m, n]) = None \<longrightarrow>
      Fs_create_dir path fs' h' = None)"
proof -
  note A' = agreesD [OF assms(2)]
  let ?qf = "at_path from_path fs" and ?qt = "at_path to_path fs"
  from rename_refines [OF assms(1,4,3)] obtain e p' tp tc d where
    e: "fs_view fs ?qf = Some e" "movable e p'" and qt: "?qt = tp @ [tc]" and tp: "fs_view fs tp = Some (Entry_dir (Some d))"
    and rn: "host_rename p' (d @ [tc]) h = Some h'" and v: "fs_view fs' = spec_rename ?qf ?qt (d @ [tc]) (fs_view fs)"
    and wd: "working_directory fs' = working_directory fs" by auto
  let ?t = "d @ [tc]"
  have p': "p' = f" using e(2) e(1) [unfolded assms(5)] by auto
  have "writeable_above (\<lambda>r. fs_view fs (?qf @ r)) [m]" using assms(5) by (simp add: writeable_above_Cons)
  then have moved: "fs_view fs' (?qt @ [m]) = Some (Entry_dir (Some (?t @ [m])))"
    using v assms(6) by (simp add: spec_rename_def relocated_def)
  have f: "f \<noteq> []" "node_at h f \<noteq> None" using backedD [OF A'(2) assms(5)] by auto
  have d: "node_at h d = Some Host_dir" using backedD [OF A'(2) tp] by auto
  have "proper_component tc" using at_path_proper [OF assms(1), of to_path] qt by simp
  then have tc: "host_name tc" by (rule proper_host_name)
  have none: "node_at h (f @ [m]) = None"
    using completeD [OF A'(4) assms(5), of m] assms(6,7) by (cases "node_at h (f @ [m])") auto
  have fd: "node_at h f = Some Host_dir" using backedD [OF A'(2) assms(5)] by auto
  from A'(1) f(2) d tc f(1) rn [unfolded p']
  have after: "node_at h' (?t @ [m]) = None \<and> node_at h' ?t = Some Host_dir \<and> host_ok h'"
  proof (cases rule: host_rename_cases)
    case same
    with none fd A'(1) show ?thesis by simp
  next
    case m: moved
    have "node_at (move_entries f ?t h) (?t @ r) = node_at h (f @ r)" for r
      using m f(1) by (subst node_at_move) (auto simp: prefix_def)
    from this [of "[]"] this [of "[m]"] m none fd host_ok_move [OF A'(1) d tc f(1)] show ?thesis by simp
  qed
  then have gone: "node_at h' (?t @ [m]) = None" by simp
  have "Fs_create_dir path fs' h' = None" if at': "at_path path fs' = ?qt @ [m, n]" and new: "fs_view fs' (?qt @ [m, n]) = None" for path n
  proof -
    have "cwd_ok fs'" using assms(1) wd by (simp add: cwd_ok_def)
    then show ?thesis
    proof (cases rule: parent_cases [where path = path])
      case (in_dir q c ch w)
      with at' have q: "q = ?qt @ [m]" "c = n" by simp_all
      with in_dir(2) moved have w: "w = Some (?t @ [m])" by simp
      have "map_of ch n = None" using child_view [OF in_dir(4), of n] new q by (cases "map_of ch n") auto
      moreover have "host_walk h' [] ((?t @ [m]) @ [n]) = None"
      proof -
        have "host_name m" using in_dir(6) q by (simp add: proper_host_name)
        then have "host_walk h' [] (?t @ [m]) = Some (?t @ [m])" using after by (intro host_walk_child) simp_all
        then show ?thesis using gone by (simp only: host_walk_append [of h' "[]" "?t @ [m]" "[n]"]) simp
      qed
      ultimately show ?thesis
        using in_dir(3,5) w q by (simp add: Fs_create_dir_def host_join_proper proper_component_def host_create_dir_def Let_def)
    qed (use at' moved in auto)
  qed
  with moved gone show ?thesis by blast
qed

definition demo_home :: fs where
  "demo_home = demo_fs\<lparr>root := FsDirectory [(''home'', FsDirectory [(''Documents'', FsDirectory [] (Some [''box'']))] (Some [''sandbox'']))]
     (Some [''base''])\<rparr>"

definition demo_home_host :: host where
  "demo_home_host = [([''base''], Host_dir), ([''box''], Host_dir), ([''sandbox''], Host_dir)]"

lemma demo_home_view:
  "fs_view demo_home q =
    (if q = [] then Some (Entry_dir (Some [''base''])) else if q = [''home''] then Some (Entry_dir (Some [''sandbox'']))
     else if q = [''home'', ''Documents''] then Some (Entry_dir (Some [''box''])) else None)"
proof (cases q)
  case (Cons c cs)
  then show ?thesis by (cases cs) (auto simp: fs_view_def demo_home_def view_of_dir)
qed (simp add: fs_view_def demo_home_def)

lemma demo_home_node:
  "node_at demo_home_host p = (if p = [] \<or> p = [''base''] \<or> p = [''box''] \<or> p = [''sandbox''] then Some Host_dir else None)"
  by (auto simp: node_at_def demo_home_host_def)

lemma demo_home_agrees: "agrees (fs_view demo_home) demo_home_host"
  unfolding agrees_def
proof (intro conjI)
  show "host_ok demo_home_host"
    unfolding host_ok_def by (auto simp: demo_home_node demo_home_host_def host_name_def split: if_splits)
  show "backed (fs_view demo_home) demo_home_host" by (auto simp: backed_def demo_home_view demo_home_node split: if_splits)
  show "unaliased (fs_view demo_home)" by (auto simp: unaliased_def demo_home_view split: if_splits)
  show "complete (fs_view demo_home) demo_home_host" by (auto simp: complete_def demo_home_view demo_home_node split: if_splits)
  show "writeable_located (fs_view demo_home)" by (auto simp: writeable_located_def demo_home_view split: if_splits)
  show "tree_like (fs_view demo_home)" by (rule tree_like_fs_view)
qed

lemma demo_home_renamed: "map_option fst (Fs_rename ''/home'' ''/x'' demo_home demo_home_host) = Some True"
  by code_simp

theorem rename_strands_mounts_witness:
  "\<exists>fs' h' t. Fs_rename ''/home'' ''/x'' demo_home demo_home_host = Some (True, fs', h') \<and>
     fs_view fs' [''x'', ''Documents''] = Some (Entry_dir (Some (t @ [''Documents'']))) \<and> node_at h' (t @ [''Documents'']) = None"
proof -
  obtain fs' h' where r: "Fs_rename ''/home'' ''/x'' demo_home demo_home_host = Some (True, fs', h')"
    using demo_home_renamed by (cases "Fs_rename ''/home'' ''/x'' demo_home demo_home_host") auto
  have loc: "at_path ''/home'' demo_home = [''home'']" "at_path ''/x'' demo_home = [''x'']"
    by (simp_all add: at_path_def resolve_path_def starts_with_slash_def apply_path_component_def strip_duplicate_prefix_def)
  have "cwd_ok demo_home" using demo_cwd by (simp add: cwd_ok_def demo_home_def)
  from rename_strands_mounts [OF this demo_home_agrees _ r, of "[''sandbox'']" "''Documents''" "[''box'']"] r
  show ?thesis by (auto simp: loc demo_home_view)
qed

end
