(* ===== verification/FsBundle.thy ===== *)
theory FsBundle
  imports FsView
begin

text \<open>
  The tree of an app bundle, after \<open>src/fs/bundle.rs\<close>: \<open>FsNodeBuilder\<close>, which takes files and directories in
  any order, the search for the bundle in an archive, and \<open>BundleData::into_fs_node\<close>.  What the \<open>zip\<close> crate
  reads of an archive is a parameter: the list of its entries, each the name and whether it is a directory, or
  \<open>None\<close> where \<open>by_index\<close> fails.
\<close>

section \<open>Building a tree\<close>

text \<open>
  \<open>find_or_make_directory\<close> returns a reference to the directory; here what the caller does with it is the
  parameter \<open>f\<close>.
\<close>

fun find_or_make_directory :: "string list \<Rightarrow> (fs_node \<Rightarrow> fs_node option) \<Rightarrow> fs_node \<Rightarrow> fs_node option" where
  "find_or_make_directory [] f current = f current"
| "find_or_make_directory (part # parts) f current =
     (if part = '''' then find_or_make_directory parts f current
      else do {
        expect (part \<noteq> ''..'');
        (case current of
           FsFile _ _ \<Rightarrow> None
         | FsDirectory children w \<Rightarrow> do {
             next_node \<leftarrow> find_or_make_directory parts f
               (case map_of children part of Some n \<Rightarrow> n | None \<Rightarrow> FsNode_dir);
             Some (FsDirectory (AList.update part next_node children) w)
           })
      })"

definition add_file :: "guest_path \<Rightarrow> fs_node \<Rightarrow> fs_node \<Rightarrow> fs_node option" where
  "add_file path node root_node = do {
     (parent_name, name) \<leftarrow> parent_and_file_name path;
     expect (name \<noteq> ''..'');
     find_or_make_directory (split_char SLASH parent_name)
       (\<lambda>dir. case dir of
          FsFile _ _ \<Rightarrow> None
        | FsDirectory children w \<Rightarrow> Some (FsDirectory (AList.update name node children) w)) root_node
   }"

definition add_directory :: "guest_path \<Rightarrow> fs_node \<Rightarrow> fs_node option" where
  "add_directory path root_node = find_or_make_directory (split_char SLASH path) Some root_node"

section \<open>Bundles\<close>

text \<open>\<open>str::strip_prefix\<close>, \<open>strip_suffix\<close> and \<open>split_once\<close>.\<close>

definition strip_prefix :: "string \<Rightarrow> string \<Rightarrow> string option" where
  "strip_prefix p s = (if prefix p s then Some (drop (length p) s) else None)"

definition strip_suffix :: "string \<Rightarrow> string \<Rightarrow> string option" where
  "strip_suffix p s = (if suffix p s then Some (take (length s - length p) s) else None)"

definition split_once :: "char \<Rightarrow> string \<Rightarrow> (string \<times> string) option" where
  "split_once c s = (if c \<in> set s then Some (takeWhile (\<lambda>x. x \<noteq> c) s, tl (dropWhile (\<lambda>x. x \<noteq> c) s)) else None)"

type_synonym zip_entry = "(string \<times> bool) option"

definition bundle_of_entry :: "string \<Rightarrow> string option" where
  "bundle_of_entry path = do {
     rest \<leftarrow> strip_prefix ''Payload/'' path;
     (name, _) \<leftarrow> split_once SLASH rest;
     name \<leftarrow> strip_suffix ''.app'' name;
     Some (''Payload/'' @ name @ ''.app'')
   }"

fun find_bundle_path_in_archive :: "zip_entry list \<Rightarrow> string option" where
  "find_bundle_path_in_archive [] = None"
| "find_bundle_path_in_archive (None # archive) = find_bundle_path_in_archive archive"
| "find_bundle_path_in_archive (Some (path, _) # archive) =
     (case bundle_of_entry path of Some p \<Rightarrow> Some p | None \<Rightarrow> find_bundle_path_in_archive archive)"

datatype bundle_data =
    Bundle_HostDirectory host_path
  | Bundle_Zip "zip_entry list" string

definition bundle_name :: "bundle_data \<Rightarrow> string option" where
  "bundle_name b =
     (case b of
        Bundle_HostDirectory p \<Rightarrow> (if p = [] \<or> last p = ''..'' then None else
          (case rsplit_once CHR ''.'' (last p) of
             Some (stem, _) \<Rightarrow> Some (if stem = [] then last p else stem)
           | None \<Rightarrow> Some (last p)))
      | Bundle_Zip _ bundle_path \<Rightarrow> do {
          (_, name) \<leftarrow> rsplit_once SLASH bundle_path;
          strip_suffix ''.app'' name
        })"

definition open_ipa :: "zip_entry list \<Rightarrow> bundle_data option" where
  "open_ipa archive = map_option (Bundle_Zip archive) (find_bundle_path_in_archive archive)"

definition add_zip_entry :: "string \<Rightarrow> nat \<times> zip_entry \<Rightarrow> fs_node \<Rightarrow> fs_node option" where
  "add_zip_entry bundle_path ie builder =
     (case snd ie of
        None \<Rightarrow> Some builder
      | Some (name, isdir) \<Rightarrow>
          (case strip_prefix bundle_path name of
             None \<Rightarrow> Some builder
           | Some path \<Rightarrow>
               if isdir then add_directory path builder else add_file path (bundle_zip_file (fst ie)) builder))"

fun add_zip_entries :: "string \<Rightarrow> (nat \<times> zip_entry) list \<Rightarrow> fs_node \<Rightarrow> fs_node option" where
  "add_zip_entries bundle_path [] builder = Some builder"
| "add_zip_entries bundle_path (e # es) builder = do {
     builder \<leftarrow> add_zip_entry bundle_path e builder;
     add_zip_entries bundle_path es builder
   }"

definition zip_index :: "zip_entry list \<Rightarrow> (nat \<times> zip_entry) list" where
  "zip_index archive = List.enumerate 0 archive"

definition into_fs_node :: "bundle_data \<Rightarrow> host \<Rightarrow> fs_node option" where
  "into_fs_node b h =
     (case b of
        Bundle_HostDirectory path \<Rightarrow> from_host_dir path False h
      | Bundle_Zip archive bundle_path \<Rightarrow> add_zip_entries bundle_path (zip_index archive) FsNode_dir)"


section \<open>The view of the tree that is built\<close>

definition path_components :: "guest_path \<Rightarrow> string list" where
  "path_components p = filter (\<lambda>c. c \<noteq> []) (split_char SLASH p)"

lemma path_components_append: "path_components (s @ SLASH # t) = path_components s @ path_components t"
  by (simp add: path_components_def split_char_sep_append)

lemma path_components_slashes: "set t \<subseteq> {SLASH} \<Longrightarrow> path_components t = []"
proof (induction t)
  case (Cons c t)
  then show ?case using path_components_append [of "[]" t] by (simp add: path_components_def)
qed (simp add: path_components_def)

lemma path_components_trailing: "set t \<subseteq> {SLASH} \<Longrightarrow> path_components (s @ t) = path_components s"
  by (cases t) (auto simp: path_components_append path_components_slashes)

lemma trim_end_split: "\<exists>t. p = trim_end_char c p @ t \<and> set t \<subseteq> {c}"
proof (intro exI conjI)
  have "rev (takeWhile (\<lambda>x. x = c) (rev p) @ dropWhile (\<lambda>x. x = c) (rev p)) = p" by simp
  then show "p = trim_end_char c p @ rev (takeWhile (\<lambda>x. x = c) (rev p))"
    by (simp only: rev_append trim_end_char_def)
  show "set (rev (takeWhile (\<lambda>x. x = c) (rev p))) \<subseteq> {c}" by (auto dest: set_takeWhileD)
qed

lemma rsplit_once_eq:
  assumes "rsplit_once c s = Some (a, b)"
  shows "s = a @ c # b" and "c \<notin> set b"
proof -
  define r where "r = dropWhile (\<lambda>x. x \<noteq> c) (rev s)"
  define t where "t = takeWhile (\<lambda>x. x \<noteq> c) (rev s)"
  from assms have c: "c \<in> set s" "a = rev (tl r)" "b = rev t"
    unfolding rsplit_once_def r_def t_def by (simp_all split: if_splits)
  have "c \<in> set (rev s)" using c(1) by simp
  then have "r \<noteq> []" unfolding r_def dropWhile_eq_Nil_conv by blast
  moreover from this have "hd r = c" unfolding r_def by (metis (mono_tags, lifting) hd_dropWhile)
  ultimately have r: "r = c # tl r" by (cases r) simp_all
  have "rev s = t @ r" unfolding r_def t_def by (rule takeWhile_dropWhile_id [symmetric])
  then have "s = rev r @ rev t" using rev_rev_ident [of s] rev_append [of t r] by argo
  with r c show "s = a @ c # b" by (metis append.assoc append_Cons append_Nil rev.simps(2))
  show "c \<notin> set b" unfolding c(3) t_def set_rev using set_takeWhileD by fast
qed

lemma parent_components:
  assumes "parent_and_file_name p = Some (par, name)"
  shows "path_components p = path_components par @ [name]"
proof -
  from assms have r: "rsplit_once SLASH (trim_end_char SLASH p) = Some (par, name)" "name \<noteq> []"
    by (auto simp: parent_and_file_name_def Let_def split: if_splits option.splits)
  obtain t where t: "p = trim_end_char SLASH p @ t" "set t \<subseteq> {SLASH}" using trim_end_split by blast
  have "path_components p = path_components (trim_end_char SLASH p)"
    by (subst t(1)) (rule path_components_trailing [OF t(2)])
  also have "\<dots> = path_components par @ path_components name"
    using rsplit_once_eq(1) [OF r(1)] path_components_append by simp
  also have "path_components name = [name]"
    using rsplit_once_eq(2) [OF r(1)] r(2) by (simp add: path_components_def split_char_word)
  finally show ?thesis .
qed

lemma parent_exists:
  assumes "path_components (SLASH # s) \<noteq> []"
  shows "\<exists>par name. parent_and_file_name (SLASH # s) = Some (par, name)"
proof -
  let ?p = "SLASH # s"
  obtain t where t: "?p = trim_end_char SLASH ?p @ t" "set t \<subseteq> {SLASH}" using trim_end_split by blast
  with assms have ne: "trim_end_char SLASH ?p \<noteq> []" using path_components_slashes by (metis append_Nil)
  with t(1) obtain s' where s': "trim_end_char SLASH ?p = SLASH # s'" by (cases "trim_end_char SLASH ?p") auto
  then obtain a b where ab: "rsplit_once SLASH (trim_end_char SLASH ?p) = Some (a, b)"
    by (auto simp: rsplit_once_def)
  have "b \<noteq> []"
  proof
    assume "b = []"
    with rsplit_once_eq(1) [OF ab] have "last (trim_end_char SLASH ?p) = SLASH" by simp
    moreover have "hd (dropWhile (\<lambda>x. x = SLASH) (rev ?p)) \<noteq> SLASH"
      using ne by (intro hd_dropWhile) (auto simp: trim_end_char_def)
    ultimately show False using ne by (auto simp: trim_end_char_def last_rev)
  qed
  with ab ne show ?thesis by (simp add: parent_and_file_name_def Let_def)
qed

lemma find_or_make_components:
  "find_or_make_directory parts f n = find_or_make_directory (filter (\<lambda>c. c \<noteq> []) parts) f n"
proof (induction parts arbitrary: n)
  case (Cons part parts)
  then show ?case by (cases n) auto
qed simp

text \<open>No file lies on the way: the directories along the path exist or can be made.\<close>

definition way_clear :: "string list \<Rightarrow> fs_node \<Rightarrow> bool" where
  "way_clear ps n \<longleftrightarrow> (\<forall>q. prefix q ps \<longrightarrow> view_of n q = None \<or> (\<exists>w. view_of n q = Some (Entry_dir w)))"

definition node_or_dir :: "string list \<Rightarrow> fs_node \<Rightarrow> fs_node" where
  "node_or_dir ps n = (case lookup_node_inner n ps of Some m \<Rightarrow> m | None \<Rightarrow> FsNode_dir)"

lemma node_or_dir_dir: "way_clear ps n \<Longrightarrow> \<exists>ch w. node_or_dir ps n = FsDirectory ch w"
  by (auto simp: way_clear_def node_or_dir_def FsNode_dir_def view_of_def split: option.splits)
    (metis entry.distinct(1) entry_of_simps(1) fs_node.exhaust option.discI option.sel prefix_order.refl option.map_sel)

lemma find_or_make_view:
  assumes "[] \<notin> set ps" "''..'' \<notin> set ps" "way_clear ps n" "f (node_or_dir ps n) = Some d"
  shows "\<exists>n'. find_or_make_directory ps f n = Some n' \<and>
    (\<forall>q. view_of n' q = (if prefix ps q then view_of d (drop (length ps) q)
       else if prefix q ps \<and> view_of n q = None then Some (Entry_dir None) else view_of n q))"
  using assms
proof (induction ps arbitrary: n)
  case Nil
  then show ?case by (simp add: node_or_dir_def)
next
  case (Cons c cs)
  from Cons.prems(3) have "\<exists>w. entry_of n = Entry_dir w" by (simp add: way_clear_def) (metis Nil_prefix view_of_Nil option.distinct(1) option.inject)
  then obtain ch w where n: "n = FsDirectory ch w" by (cases n) auto
  define m where "m = (case map_of ch c of Some n \<Rightarrow> n | None \<Rightarrow> FsNode_dir)"
  have vm: "view_of m q = (if view_of n (c # q) = None \<and> q = [] then Some (Entry_dir None) else view_of n (c # q))" for q
    by (auto simp: m_def n view_of_dir FsNode_dir_def split: option.splits)
  have vm0: "entry_of m = (case view_of n [c] of None \<Rightarrow> Entry_dir None | Some e \<Rightarrow> e)"
    using vm [of "[]"] by (auto split: option.splits)
  have "way_clear cs m" using Cons.prems(3) by (auto simp: way_clear_def vm prefix_def)
  moreover have "node_or_dir cs m = node_or_dir (c # cs) n"
    by (cases cs) (auto simp: m_def node_or_dir_def n FsNode_dir_def split: option.splits)
  ultimately obtain n' where n': "find_or_make_directory cs f m = Some n'"
      "\<And>q. view_of n' q = (if prefix cs q then view_of d (drop (length cs) q)
         else if prefix q cs \<and> view_of m q = None then Some (Entry_dir None) else view_of m q)"
    using Cons.IH [of m] Cons.prems by auto
  have "find_or_make_directory (c # cs) f n = Some (FsDirectory (AList.update c n' ch) w)"
  proof -
    from Cons.prems(1,2) have "c \<noteq> []" "c \<noteq> ''..''" by auto
    with n'(1) show ?thesis by (simp add: n m_def)
  qed
  moreover have "view_of (FsDirectory (AList.update c n' ch) w) q =
      (if prefix (c # cs) q then view_of d (drop (length (c # cs)) q)
       else if prefix q (c # cs) \<and> view_of n q = None then Some (Entry_dir None) else view_of n q)" for q
    by (cases q) (auto simp: view_update n'(2) vm vm0 n)
  ultimately show ?case by blast
qed


text \<open>
  What an archive says: the readable entries below the bundle path, each with its index, the components of its
  path and whether it is a directory; and the view of a tree that holds exactly those.
\<close>

type_synonym bundle_item = "nat \<times> string list \<times> bool"

definition bundle_item :: "string \<Rightarrow> nat \<times> zip_entry \<Rightarrow> bundle_item list" where
  "bundle_item bundle_path ie =
     (case snd ie of
        None \<Rightarrow> []
      | Some (name, isdir) \<Rightarrow>
          if prefix bundle_path name
          then [(fst ie, path_components (drop (length bundle_path) name), isdir)] else [])"

definition bundle_items :: "string \<Rightarrow> zip_entry list \<Rightarrow> bundle_item list" where
  "bundle_items bundle_path archive = concat (map (bundle_item bundle_path) (zip_index archive))"

definition bundle_view :: "bundle_item list \<Rightarrow> view" where
  "bundle_view items q =
     (case find (\<lambda>(i, p, d). \<not> d \<and> p = q) items of
        Some (i, _) \<Rightarrow> Some (Entry_file (IpaFileRef i) False)
      | None \<Rightarrow> if q = [] \<or> list_ex (\<lambda>(i, p, d). prefix q p) items then Some (Entry_dir None) else None)"

text \<open>An archive no two of whose entries contradict each other.\<close>

definition consistent_items :: "bundle_item list \<Rightarrow> bool" where
  "consistent_items items \<longleftrightarrow>
     (\<forall>(i, p, d)\<in>set items. ''..'' \<notin> set p \<and>
        (\<not> d \<longrightarrow> p \<noteq> [] \<and> (\<forall>(j, p', d')\<in>set items. prefix p p' \<longrightarrow> j = i)))"

definition names_in_bundle :: "string \<Rightarrow> zip_entry list \<Rightarrow> bool" where
  "names_in_bundle bundle_path archive \<longleftrightarrow>
     (\<forall>e\<in>set archive. case e of
        Some (name, _) \<Rightarrow> prefix bundle_path name \<longrightarrow> prefix (bundle_path @ [SLASH]) name
      | None \<Rightarrow> True)"

lemma find_snoc:
  "find P (xs @ [x]) = (case find P xs of Some y \<Rightarrow> Some y | None \<Rightarrow> if P x then Some x else None)"
  by (induction xs) simp_all

lemma bundle_view_cases:
  obtains (File) i where "(i, q, False) \<in> set items" "bundle_view items q = Some (Entry_file (IpaFileRef i) False)"
    "find (\<lambda>(i, p, d). \<not> d \<and> p = q) items = Some (i, q, False)"
  | (Dir) "\<forall>(i, p, d)\<in>set items. p = q \<longrightarrow> d" "q = [] \<or> (\<exists>(i, p, d)\<in>set items. prefix q p)"
    "bundle_view items q = Some (Entry_dir None)" "find (\<lambda>(i, p, d). \<not> d \<and> p = q) items = None"
  | (Absent) "q \<noteq> []" "\<forall>(i, p, d)\<in>set items. \<not> prefix q p" "bundle_view items q = None"
    "find (\<lambda>(i, p, d). \<not> d \<and> p = q) items = None"
proof (cases "find (\<lambda>(i, p, d). \<not> d \<and> p = q) items")
  case None
  then have "\<forall>(i, p, d)\<in>set items. p = q \<longrightarrow> d" by (auto simp: find_None_iff)
  with None Dir Absent show ?thesis
    by (cases "q = [] \<or> (\<exists>(i, p, d)\<in>set items. prefix q p)") (auto simp: bundle_view_def list_ex_iff)
next
  case (Some x)
  then have "x \<in> set items \<and> (case x of (i, p, d) \<Rightarrow> \<not> d \<and> p = q)" by (metis find_Some_iff nth_mem)
  with Some File show ?thesis by (cases x) (auto simp: bundle_view_def)
qed

lemma bundle_view_snoc:
  "bundle_view (items @ [(i, p, d)]) q =
     (case find (\<lambda>(i, p, d). \<not> d \<and> p = q) items of
        Some _ \<Rightarrow> bundle_view items q
      | None \<Rightarrow> if \<not> d \<and> p = q then Some (Entry_file (IpaFileRef i) False)
          else if prefix q p then Some (Entry_dir None) else bundle_view items q)"
  by (auto simp: bundle_view_def find_snoc split: option.splits)

text \<open>Along the path of an item there is no file of another one.\<close>

lemma bundle_way_clear:
  assumes "consistent_items (items @ [(i, p, d)])" "\<forall>(j, _)\<in>set items. j < i" "prefix q p"
  shows "find (\<lambda>(i, p, d). \<not> d \<and> p = q) items = None"
proof (rule ccontr)
  assume "find (\<lambda>(i, p, d). \<not> d \<and> p = q) items \<noteq> None"
  then obtain j where "(j, q, False) \<in> set items" by (cases rule: bundle_view_cases [of q items]) auto
  with assms show False unfolding consistent_items_def by fastforce
qed

lemma add_item_view:
  assumes "consistent_items (items @ [(i, p, d)])" "\<forall>(j, _)\<in>set items. j < i"
    and "\<And>q. view_of n q = bundle_view items q" "[] \<notin> set p"
    and "if d then b = p \<and> f = Some
         else p = b @ [name] \<and> f = (\<lambda>dir. case dir of FsFile _ _ \<Rightarrow> None
            | FsDirectory children w \<Rightarrow> Some (FsDirectory (AList.update name (bundle_zip_file i) children) w))"
  shows "\<exists>n'. find_or_make_directory b f n = Some n' \<and> (\<forall>q. view_of n' q = bundle_view (items @ [(i, p, d)]) q)"
proof -
  have clear: "find (\<lambda>(i, p, d). \<not> d \<and> p = q) items = None" if "prefix q p" for q
    using bundle_way_clear [OF assms(1,2) that] .
  have view: "view_of n q = (if q = [] \<or> list_ex (\<lambda>(i, p, d). prefix q p) items then Some (Entry_dir None) else None)"
    if "prefix q p" for q using clear [OF that] by (simp add: assms(3) bundle_view_def)
  have b: "prefix b p" using assms(5) by (auto split: if_splits)
  have way: "way_clear b n" using view b by (auto simp: way_clear_def dest: prefix_order.trans)
  obtain ch w where D: "node_or_dir b n = FsDirectory ch w" using node_or_dir_dir [OF way] by blast
  have "''..'' \<notin> set p" using assms(1) by (auto simp: consistent_items_def)
  then have nb: "[] \<notin> set b" "''..'' \<notin> set b" using assms(4) set_mono_prefix [OF b] by auto
  have vd: "view_of (FsDirectory ch w) r = (if r = [] then Some (Entry_dir None) else view_of n (b @ r))" for r
  proof (cases "lookup_node_inner n b")
    case None
    then have "ch = []" "w = None" "view_of n (b @ r) = None"
      using D by (simp_all add: node_or_dir_def FsNode_dir_def view_of_def lookup_append)
    then show ?thesis by simp
  next
    case (Some m)
    then have "view_of n (b @ r) = view_of (FsDirectory ch w) r" for r
      using D by (simp add: node_or_dir_def view_of_below)
    from this [of r] this [of "[]"] view [OF b] show ?thesis by (auto split: if_splits)
  qed
  have w: "w = None" using vd [of "[]"] by simp
  show ?thesis
  proof (cases d)
    case True
    with assms(5) have bp: "b = p" and "f = Some" by auto
    with find_or_make_view [OF nb way, of f "node_or_dir b n"] obtain n' where
      n': "find_or_make_directory b f n = Some n'"
      "\<And>q. view_of n' q = (if prefix p q then view_of (FsDirectory ch w) (drop (length p) q)
       else if prefix q p \<and> view_of n q = None then Some (Entry_dir None) else view_of n q)" using D by auto
    have "view_of n' q = bundle_view (items @ [(i, p, d)]) q" for q
    proof (cases "prefix q p")
      case p: True
      then have "view_of n' q = Some (Entry_dir None)"
        using view [OF p] prefix_order.antisym [OF p] by (auto simp: n'(2) vd)
      then show ?thesis using p True clear by (simp add: bundle_view_snoc)
    next
      case p: False
      then have "view_of n' q = view_of n q" by (auto simp: n'(2) vd bp prefix_def)
      then show ?thesis using p True by (simp add: bundle_view_snoc assms(3) split: option.splits)
    qed
    with n'(1) show ?thesis by blast
  next
    case False
    with assms(5) have p: "p = b @ [name]" and f: "f (node_or_dir b n) =
        Some (FsDirectory (AList.update name (bundle_zip_file i) ch) w)" by (auto simp: D)
    from find_or_make_view [of b n f "FsDirectory (AList.update name (bundle_zip_file i) ch) w"] nb way f obtain n' where n': "find_or_make_directory b f n = Some n'"
      "\<And>q. view_of n' q = (if prefix b q
         then view_of (FsDirectory (AList.update name (bundle_zip_file i) ch) w) (drop (length b) q)
       else if prefix q b \<and> view_of n q = None then Some (Entry_dir None) else view_of n q)" by auto
    have "view_of n' q = bundle_view (items @ [(i, p, d)]) q" for q
    proof (cases "prefix q b")
      case q: True
      then have pr: "prefix q p" "q \<noteq> p" by (auto simp: p)
      with q have "view_of n' q = Some (Entry_dir None)"
        using view [of q] prefix_order.antisym [OF q] by (auto simp: n'(2) p view_update vd w)
      then show ?thesis using clear [of q] pr by (auto simp: bundle_view_snoc)
    next
      case q: False
      show ?thesis
      proof (cases "prefix b q")
        case True
        with q obtain c r where r: "q = b @ c # r" by (metis append_Nil2 list.exhaust prefixE prefix_order.refl)
        then have v: "view_of n' q = (if c = name then view_of (bundle_zip_file i) r else view_of n q)"
          by (simp add: n'(2) view_update vd)
        show ?thesis
        proof (cases "c = name")
          case True
          with r p have q: "q = p @ r" by simp
          have "\<forall>(j, p', d')\<in>set items. \<not> prefix p p'"
            using assms(1,2) False unfolding consistent_items_def by fastforce
          then have "\<forall>(j, p', d')\<in>set items. \<not> prefix q p'" by (auto simp: q dest: append_prefixD)
          moreover from this have "find (\<lambda>(i, p, d). \<not> d \<and> p = q) items = None" by (auto simp: find_None_iff)
          ultimately show ?thesis using v True False
            by (auto simp: bundle_view_def find_snoc bundle_zip_file_def q list_ex_iff)
        next
          case False
          then have "\<not> prefix q p" by (simp add: r p)
          then show ?thesis using v False by (auto simp: bundle_view_snoc assms(3) split: option.splits)
        qed
      next
        case nb: False
        then have "view_of n' q = view_of n q" "\<not> prefix q p"
          using q by (auto simp: n'(2) p)
        then show ?thesis by (auto simp: bundle_view_snoc assms(3) split: option.splits)
      qed
    qed
    with n'(1) show ?thesis by blast
  qed
qed


lemma consistent_prefix:
  assumes "consistent_items (items @ items')"
  shows "consistent_items items"
  unfolding consistent_items_def
proof (rule ballI)
  fix x assume x: "x \<in> set items"
  obtain i p d where [simp]: "x = (i, p, d)" by (cases x)
  show "case x of (i, p, d) \<Rightarrow> ''..'' \<notin> set p \<and>
      (\<not> d \<longrightarrow> p \<noteq> [] \<and> (\<forall>(j, p', d')\<in>set items. prefix p p' \<longrightarrow> j = i))"
    using bspec [OF assms [unfolded consistent_items_def], of x] x by (simp add: ball_Un)
qed

lemma add_zip_entries_view:
  assumes "consistent_items (items @ concat (map (bundle_item bp) (List.enumerate k es)))"
    and "names_in_bundle bp es" "\<forall>(j, _)\<in>set items. j < k" "\<And>q. view_of n q = bundle_view items q"
  shows "\<exists>n'. add_zip_entries bp (List.enumerate k es) n = Some n' \<and>
    (\<forall>q. view_of n' q = bundle_view (items @ concat (map (bundle_item bp) (List.enumerate k es))) q)"
  using assms
proof (induction es arbitrary: k n items)
  case (Cons e es)
  show ?case
  proof (cases "bundle_item bp (k, e)")
    case Nil
    then have "add_zip_entry bp (k, e) n = Some n"
      by (auto simp: bundle_item_def add_zip_entry_def strip_prefix_def split: option.splits if_splits)
    moreover have "names_in_bundle bp es" using Cons.prems(2) by (simp add: names_in_bundle_def)
    moreover have "\<forall>(j, _)\<in>set items. j < Suc k" using Cons.prems(3) by auto
    ultimately show ?thesis using Cons.IH [of items "Suc k" n] Cons.prems Nil by simp
  next
    case (Cons it its)
    then obtain name d where e: "e = Some (name, d)" "prefix bp name" "its = []"
        "it = (k, path_components (drop (length bp) name), d)"
      by (auto simp: bundle_item_def split: option.splits if_splits)
    define path where "path = drop (length bp) name"
    have "prefix (bp @ [SLASH]) name" using Cons.prems(2) e by (simp add: names_in_bundle_def)
    then obtain s where path: "path = SLASH # s" by (auto simp: path_def prefix_def)
    have cons: "consistent_items (items @ [(k, path_components path, d)])"
      using Cons.prems(1) Cons e consistent_prefix [of "items @ [it]"] by (simp add: path_def)
    have ne: "[] \<notin> set (path_components path)" by (simp add: path_components_def)
    have "\<exists>n1. add_zip_entry bp (k, e) n = Some n1 \<and> (\<forall>q. view_of n1 q = bundle_view (items @ [it]) q)"
    proof (cases d)
      case True
      then have "add_zip_entry bp (k, e) n = find_or_make_directory (path_components path) Some n"
        using e by (simp add: add_zip_entry_def strip_prefix_def add_directory_def path_components_def path_def
            find_or_make_components [of "split_char SLASH _"])
      with add_item_view [OF cons Cons.prems(3,4) ne, of "path_components path" Some] True e show ?thesis
        by (simp add: path_def)
    next
      case False
      with cons have "path_components path \<noteq> []" by (simp add: consistent_items_def)
      then obtain par nm where pn: "parent_and_file_name path = Some (par, nm)"
        unfolding path using parent_exists by blast
      from parent_components [OF pn] have pc: "path_components path = path_components par @ [nm]" .
      define f where "f = (\<lambda>dir. case dir of FsFile _ _ \<Rightarrow> None
            | FsDirectory children w \<Rightarrow> Some (FsDirectory (AList.update nm (bundle_zip_file k) children) w))"
      have "nm \<noteq> ''..''" using cons pc by (auto simp: consistent_items_def)
      then have "add_zip_entry bp (k, e) n = find_or_make_directory (path_components par) f n"
        using e False pn by (simp add: add_zip_entry_def strip_prefix_def add_file_def path_components_def path_def
            find_or_make_components [of "split_char SLASH _"] f_def)
      with add_item_view [OF cons Cons.prems(3,4) ne, of "path_components par" f nm] False e pc show ?thesis
        by (simp add: path_def f_def)
    qed
    then obtain n1 where n1: "add_zip_entry bp (k, e) n = Some n1"
      "\<And>q. view_of n1 q = bundle_view (items @ [it]) q" by blast
    have "names_in_bundle bp es" using Cons.prems(2) by (simp add: names_in_bundle_def)
    moreover have "\<forall>(j, _)\<in>set (items @ [it]). j < Suc k" using Cons.prems(3) e(4) by auto
    ultimately show ?thesis using Cons.IH [of "items @ [it]" "Suc k" n1] Cons.prems(1) n1 Cons e(3) by simp
  qed
qed simp


text \<open>
  C36: in an archive whose entries do not contradict each other (no file is a directory of another, no component is
  \<open>..\<close>, nothing else begins with the name of the bundle), \<open>into_fs_node\<close> does not panic, whatever the order of the
  entries, even where files come before their directories and where entries are unreadable or directories
  are not listed at all; the tree has each readable file of the bundle at the components of its path, read-only and with
  its index in the archive, the directories on the way, the listed directories, and nothing else.
\<close>

theorem bundle_tree_correct:
  assumes "names_in_bundle bundle_path archive" "consistent_items (bundle_items bundle_path archive)"
  shows "\<exists>n. into_fs_node (Bundle_Zip archive bundle_path) h = Some n \<and>
    (\<forall>q. view_of n q = bundle_view (bundle_items bundle_path archive) q)"
proof -
  have "view_of FsNode_dir q = bundle_view [] q" for q by (simp add: FsNode_dir_def bundle_view_def)
  with add_zip_entries_view [of "[]" bundle_path 0 archive FsNode_dir] assms show ?thesis
    by (simp add: into_fs_node_def zip_index_def bundle_items_def)
qed

definition witness_archive :: "zip_entry list" where
  "witness_archive = [Some (''Payload/A.app/b/c'', False), None, Some (''iTunesArtwork'', False),
     Some (''Payload/A.app/b/'', True), Some (''Payload/A.app/Info.plist'', False)]"

theorem bundle_tree_witness:
  "find_bundle_path_in_archive witness_archive = Some ''Payload/A.app'' \<and>
   (\<exists>n. into_fs_node (Bundle_Zip witness_archive ''Payload/A.app'') [] = Some n \<and>
      view_of n [''b'', ''c''] = Some (Entry_file (IpaFileRef 0) False) \<and>
      view_of n [''b''] = Some (Entry_dir None) \<and>
      view_of n [''Info.plist''] = Some (Entry_file (IpaFileRef 4) False) \<and> view_of n [''iTunesArtwork''] = None)"
proof -
  have w: "names_in_bundle ''Payload/A.app'' witness_archive" by code_simp
  have c: "consistent_items (bundle_items ''Payload/A.app'' witness_archive)" by code_simp
  have v: "bundle_view (bundle_items ''Payload/A.app'' witness_archive) [''b'', ''c''] = Some (Entry_file (IpaFileRef 0) False)"
    "bundle_view (bundle_items ''Payload/A.app'' witness_archive) [''b''] = Some (Entry_dir None)"
    "bundle_view (bundle_items ''Payload/A.app'' witness_archive) [''Info.plist''] = Some (Entry_file (IpaFileRef 4) False)"
    "bundle_view (bundle_items ''Payload/A.app'' witness_archive) [''iTunesArtwork''] = None" by code_simp+
  have "find_bundle_path_in_archive witness_archive = Some ''Payload/A.app''" by code_simp
  with bundle_tree_correct [OF w c, of "[]"] v show ?thesis by auto
qed

end
