(* ===== verification/OpenFile.thy ===== *)
theory OpenFile
  imports FsBundle Semaphore
begin

text \<open>
  Open files (\<open>GuestFile\<close>, \<open>PipeBuffer\<close> and \<open>RandomFile\<close> of \<open>src/fs.rs\<close>) and the functions of \<open>std::io\<close> they rest on, with
  their Unix behaviour.  A host file is opened to a description, an offset into a file of the host, which
  \<open>try_clone\<close> shares; a member of the archive is a cursor over its contents, which a clone copies; the two ends of a pipe share
  a buffer behind an \<open>Rc\<close>.  Descriptions and buffers are kept in lists and named by their index.  A file of the host that
  is moved or removed while it is open is outside the model, and an offset is limited only by its type.
\<close>

section \<open>The state of input and output\<close>

record pipe_buffer =
  pipe_bytes :: "u8 list"
  read_handles :: nat
  write_handles :: nat

definition PipeBuffer_new :: pipe_buffer where
  "PipeBuffer_new = \<lparr>pipe_bytes = [], read_handles = 1, write_handles = 1\<rparr>"

definition poll_has_data :: "pipe_buffer \<Rightarrow> bool" where
  "poll_has_data p \<longleftrightarrow> pipe_bytes p \<noteq> []"

definition poll_has_readers :: "pipe_buffer \<Rightarrow> bool" where
  "poll_has_readers p \<longleftrightarrow> 0 < read_handles p"

definition poll_has_writers :: "pipe_buffer \<Rightarrow> bool" where
  "poll_has_writers p \<longleftrightarrow> 0 < write_handles p"

record open_description =
  od_path :: host_path
  od_options :: open_options
  od_pos :: nat

record io =
  io_host :: host
  io_open :: "open_description list"
  io_pipes :: "pipe_buffer list"
  io_random :: nat

text \<open>
  What the host supplies: the bytes of the archive and of the resources, lower case, the results of reading \<open>/dev/urandom\<close>
  (for the n-th read and a length) and the seed of the n-th generator.
\<close>

record world =
  w_ipa :: "nat \<Rightarrow> u8 list"
  w_resource :: "string \<Rightarrow> u8 list option"
  w_lower :: "string \<Rightarrow> string"
  w_urandom :: "nat \<Rightarrow> nat \<Rightarrow> u8 list option"
  w_seed :: "nat \<Rightarrow> u64"
  w_has_urandom :: bool

datatype error_kind =
    IsADirectory | WouldBlock | BrokenPipe | PermissionDenied | Unsupported | InvalidInput | Other_error

section \<open>Random bytes\<close>

record random_file =
  host_source :: bool
  prng_state :: u64

definition RandomFile_new :: "world \<Rightarrow> io \<Rightarrow> random_file \<times> io" where
  "RandomFile_new W s = (\<lparr>host_source = w_has_urandom W, prng_state = w_seed W (io_random s) OR 1\<rparr>,
     s\<lparr>io_random := io_random s + 1\<rparr>)"

definition next_u64 :: "random_file \<Rightarrow> u64 \<times> random_file" where
  "next_u64 r =
     (let x = prng_state r;
          x = x XOR drop_bit 12 x;
          x = x XOR push_bit 25 x;
          x = x XOR drop_bit 27 x in
      (x * 0x2545F4914F6CDD1D, r\<lparr>prng_state := x\<rparr>))"

text \<open>Chunks of eight bytes, the last one perhaps shorter.\<close>

fun fill_from_prng :: "nat \<Rightarrow> random_file \<Rightarrow> u8 list \<times> random_file" where
  "fill_from_prng n r =
     (if n = 0 then ([], r)
      else case next_u64 r of (v, r) \<Rightarrow>
        (case fill_from_prng (n - 8) r of (rest, r) \<Rightarrow> (take n (le_bytes 8 v) @ rest, r)))"

declare fill_from_prng.simps [simp del]

definition random_fill :: "world \<Rightarrow> nat \<Rightarrow> random_file \<Rightarrow> io \<Rightarrow> u8 list \<times> random_file \<times> io" where
  "random_fill W len r s =
     (if host_source r then
        (let s1 = s\<lparr>io_random := io_random s + 1\<rparr> in
         case w_urandom W (io_random s) len of
           Some bs \<Rightarrow>
             if length bs = len then (bs, r, s1)
             else (case fill_from_prng (len - length bs) r of (rest, r) \<Rightarrow> (bs @ rest, r, s1))
         | None \<Rightarrow> (case fill_from_prng len (r\<lparr>host_source := False\<rparr>) of (bs, r) \<Rightarrow> (bs, r, s1)))
      else (case fill_from_prng len r of (bs, r) \<Rightarrow> (bs, r, s)))"

section \<open>Files of the host\<close>

definition contents_at :: "host \<Rightarrow> host_path \<Rightarrow> u8 list" where
  "contents_at h p = (case node_at h p of Some (Host_file bs) \<Rightarrow> bs | _ \<Rightarrow> [])"

definition bytes_from :: "u8 list \<Rightarrow> nat \<Rightarrow> nat \<Rightarrow> u8 list" where
  "bytes_from bs pos len = take len (drop pos bs)"

text \<open>Writing at an offset; a gap behind the end is filled with zeros.\<close>

definition put_bytes :: "u8 list \<Rightarrow> nat \<Rightarrow> u8 list \<Rightarrow> u8 list" where
  "put_bytes bs pos new =
     take pos (bs @ replicate (pos - length bs) 0) @ new @ drop (pos + length new) bs"

definition resize :: "u8 list \<Rightarrow> nat \<Rightarrow> u8 list" where
  "resize bs len = take len bs @ replicate (len - length bs) 0"

datatype seek_from = Seek_Start nat | Seek_End int | Seek_Current int

definition seek_target :: "nat \<Rightarrow> nat \<Rightarrow> nat \<Rightarrow> seek_from \<Rightarrow> error_kind + nat" where
  "seek_target limit len pos from =
     (let t = (case from of Seek_Start n \<Rightarrow> int n | Seek_End k \<Rightarrow> int len + k | Seek_Current k \<Rightarrow> int pos + k) in
      if 0 \<le> t \<and> t < int limit then Inr (nat t) else Inl InvalidInput)"

definition set_pos :: "nat \<Rightarrow> nat \<Rightarrow> io \<Rightarrow> io" where
  "set_pos d pos s = s\<lparr>io_open := (io_open s)[d := (io_open s ! d)\<lparr>od_pos := pos\<rparr>]\<rparr>"

definition set_contents :: "nat \<Rightarrow> u8 list \<Rightarrow> io \<Rightarrow> io" where
  "set_contents d bs s = s\<lparr>io_host := AList.update (od_path (io_open s ! d)) (Host_file bs) (io_host s)\<rparr>"

definition host_contents :: "nat \<Rightarrow> io \<Rightarrow> u8 list" where
  "host_contents d s = contents_at (io_host s) (od_path (io_open s ! d))"

definition File_read :: "nat \<Rightarrow> nat \<Rightarrow> io \<Rightarrow> (error_kind + u8 list) \<times> io" where
  "File_read d len s =
     (let desc = io_open s ! d in
      if \<not> opt_read (od_options desc) then (Inl Other_error, s)
      else if node_at (io_host s) (od_path desc) = Some Host_dir then (Inl IsADirectory, s)
      else let bs = bytes_from (host_contents d s) (od_pos desc) len in
        (Inr bs, set_pos d (od_pos desc + length bs) s))"

definition File_write :: "nat \<Rightarrow> u8 list \<Rightarrow> io \<Rightarrow> (error_kind + nat) \<times> io" where
  "File_write d bs s =
     (let desc = io_open s ! d in
      if \<not> opt_write (od_options desc) \<and> \<not> opt_append (od_options desc) then (Inl Other_error, s)
      else if bs = [] then (Inr 0, s)
      else let old = host_contents d s;
               pos = (if opt_append (od_options desc) then length old else od_pos desc) in
        (Inr (length bs), set_pos d (pos + length bs) (set_contents d (put_bytes old pos bs) s)))"

definition File_seek :: "nat \<Rightarrow> seek_from \<Rightarrow> io \<Rightarrow> (error_kind + nat) \<times> io" where
  "File_seek d from s =
     (case seek_target (2 ^ 63) (length (host_contents d s)) (od_pos (io_open s ! d)) from of
        Inl e \<Rightarrow> (Inl e, s)
      | Inr t \<Rightarrow> (Inr t, set_pos d t s))"

definition File_set_len :: "nat \<Rightarrow> nat \<Rightarrow> io \<Rightarrow> (error_kind + unit) \<times> io" where
  "File_set_len d len s =
     (let desc = io_open s ! d in
      if 2 ^ 63 \<le> len \<or> \<not> opt_write (od_options desc) \<and> \<not> opt_append (od_options desc) then (Inl InvalidInput, s)
      else (Inr (), set_contents d (resize (host_contents d s) len) s))"

section \<open>Open files of the guest\<close>

datatype open_file =
    Of_Directory
  | Of_File nat
  | Of_IpaBundleFile "u8 list" nat
  | Of_ResourceFile "u8 list" nat
  | Of_Socket
  | Of_PipeRead nat
  | Of_PipeWrite nat
  | Of_Random random_file

text \<open>What \<open>open_with_options\<close> returns, with the description that the host makes for it.\<close>

definition opened :: "world \<Rightarrow> guest_file \<Rightarrow> io \<Rightarrow> open_file \<times> io" where
  "opened W file s =
     (case file of
        GuestFile_Directory \<Rightarrow> (Of_Directory, s)
      | GuestFile_File p opts \<Rightarrow>
          (Of_File (length (io_open s)), s\<lparr>io_open := io_open s @ [\<lparr>od_path = p, od_options = opts, od_pos = 0\<rparr>]\<rparr>)
      | GuestFile_IpaBundleFile i \<Rightarrow> (Of_IpaBundleFile (w_ipa W i) 0, s)
      | GuestFile_ResourceFile n \<Rightarrow> (Of_ResourceFile (case w_resource W n of Some bs \<Rightarrow> bs | None \<Rightarrow> []) 0, s))"

definition gf_sync_all :: "open_file \<Rightarrow> error_kind + unit" where
  "gf_sync_all f = (case f of Of_Socket \<Rightarrow> Inl Unsupported | _ \<Rightarrow> Inr ())"

definition gf_set_len :: "nat \<Rightarrow> open_file \<Rightarrow> io \<Rightarrow> (error_kind + unit) \<times> io" where
  "gf_set_len len f s =
     (case f of
        Of_File d \<Rightarrow> File_set_len d len s
      | Of_IpaBundleFile _ _ \<Rightarrow> (Inl PermissionDenied, s)
      | Of_ResourceFile _ _ \<Rightarrow> (Inl PermissionDenied, s)
      | Of_Directory \<Rightarrow> (Inl IsADirectory, s)
      | _ \<Rightarrow> (Inl Unsupported, s))"

definition gf_seek :: "seek_from \<Rightarrow> open_file \<Rightarrow> io \<Rightarrow> (error_kind + nat) \<times> open_file \<times> io" where
  "gf_seek from f s =
     (case f of
        Of_File d \<Rightarrow> (case File_seek d from s of (r, s1) \<Rightarrow> (r, f, s1))
      | Of_IpaBundleFile bs pos \<Rightarrow>
          (case seek_target (2 ^ 64) (length bs) pos from of
             Inl e \<Rightarrow> (Inl e, f, s)
           | Inr t \<Rightarrow> (Inr t, Of_IpaBundleFile bs t, s))
      | Of_ResourceFile bs pos \<Rightarrow>
          (case seek_target (2 ^ 63) (length bs) pos from of
             Inl e \<Rightarrow> (Inl e, f, s)
           | Inr t \<Rightarrow> (Inr t, Of_ResourceFile bs t, s))
      | Of_Directory \<Rightarrow> (Inl IsADirectory, f, s)
      | Of_Random _ \<Rightarrow> (Inr 0, f, s)
      | _ \<Rightarrow> (Inl Unsupported, f, s))"

definition gf_stream_position :: "open_file \<Rightarrow> io \<Rightarrow> (error_kind + nat) \<times> open_file \<times> io" where
  "gf_stream_position f s = gf_seek (Seek_Current 0) f s"

definition gf_stream_len :: "open_file \<Rightarrow> io \<Rightarrow> (error_kind + nat) \<times> open_file \<times> io" where
  "gf_stream_len f s =
     (case gf_stream_position f s of
        (Inl e, f, s) \<Rightarrow> (Inl e, f, s)
      | (Inr old_position, f, s) \<Rightarrow>
          (case gf_seek (Seek_End 0) f s of
             (Inl e, f, s) \<Rightarrow> (Inl e, f, s)
           | (Inr len, f, s) \<Rightarrow>
               (case gf_seek (Seek_Start old_position) f s of
                  (Inl e, f, s) \<Rightarrow> (Inl e, f, s)
                | (Inr _, f, s) \<Rightarrow> (Inr len, f, s))))"

definition is_seekable :: "open_file \<Rightarrow> bool" where
  "is_seekable f = (case f of Of_Socket \<Rightarrow> False | Of_Random _ \<Rightarrow> False | Of_PipeRead _ \<Rightarrow> False | Of_PipeWrite _ \<Rightarrow> False | _ \<Rightarrow> True)"

definition with_pipe :: "nat \<Rightarrow> (pipe_buffer \<Rightarrow> pipe_buffer) \<Rightarrow> io \<Rightarrow> io" where
  "with_pipe p g s = s\<lparr>io_pipes := (io_pipes s)[p := g (io_pipes s ! p)]\<rparr>"

definition gf_try_clone :: "world \<Rightarrow> open_file \<Rightarrow> io \<Rightarrow> (error_kind + open_file) \<times> io" where
  "gf_try_clone W f s =
     (case f of
        Of_File d \<Rightarrow> (Inr (Of_File d), s)
      | Of_IpaBundleFile bs pos \<Rightarrow> (Inr (Of_IpaBundleFile bs pos), s)
      | Of_ResourceFile _ _ \<Rightarrow> (Inl Unsupported, s)
      | Of_Directory \<Rightarrow> (Inr Of_Directory, s)
      | Of_Random _ \<Rightarrow> (case RandomFile_new W s of (r, s1) \<Rightarrow> (Inr (Of_Random r), s1))
      | Of_PipeRead p \<Rightarrow> (Inr (Of_PipeRead p), with_pipe p (\<lambda>b. b\<lparr>read_handles := read_handles b + 1\<rparr>) s)
      | Of_PipeWrite p \<Rightarrow> (Inr (Of_PipeWrite p), with_pipe p (\<lambda>b. b\<lparr>write_handles := write_handles b + 1\<rparr>) s)
      | Of_Socket \<Rightarrow> (Inl Unsupported, s))"

definition gf_close_pipe_endpoint :: "open_file \<Rightarrow> io \<Rightarrow> io" where
  "gf_close_pipe_endpoint f s =
     (case f of
        Of_PipeRead p \<Rightarrow> with_pipe p (\<lambda>b. b\<lparr>read_handles := read_handles b - 1\<rparr>) s
      | Of_PipeWrite p \<Rightarrow> with_pipe p (\<lambda>b. b\<lparr>write_handles := write_handles b - 1\<rparr>) s
      | _ \<Rightarrow> s)"

text \<open>Reading into a buffer of the given length: the bytes that were put at its start.\<close>

definition pipe_read :: "nat \<Rightarrow> pipe_buffer \<Rightarrow> (error_kind + u8 list) \<times> pipe_buffer" where
  "pipe_read len b =
     (if len = 0 then (Inr [], b)
      else if pipe_bytes b = [] then (if write_handles b = 0 then Inr [] else Inl WouldBlock, b)
      else let n = min len (length (pipe_bytes b)) in
        (Inr (take n (pipe_bytes b)), b\<lparr>pipe_bytes := drop n (pipe_bytes b)\<rparr>))"

definition gf_read :: "world \<Rightarrow> nat \<Rightarrow> open_file \<Rightarrow> io \<Rightarrow> (error_kind + u8 list) \<times> open_file \<times> io" where
  "gf_read W len f s =
     (case f of
        Of_File d \<Rightarrow> (case File_read d len s of (r, s1) \<Rightarrow> (r, f, s1))
      | Of_IpaBundleFile bs pos \<Rightarrow>
          (let new = bytes_from bs pos len in (Inr new, Of_IpaBundleFile bs (pos + length new), s))
      | Of_ResourceFile bs pos \<Rightarrow>
          (let new = bytes_from bs pos len in (Inr new, Of_ResourceFile bs (pos + length new), s))
      | Of_Random r \<Rightarrow> (case random_fill W len r s of (new, r1, s1) \<Rightarrow> (Inr new, Of_Random r1, s1))
      | Of_PipeRead p \<Rightarrow>
          (case pipe_read len (io_pipes s ! p) of (r, b) \<Rightarrow> (r, f, with_pipe p (\<lambda>_. b) s))
      | Of_PipeWrite _ \<Rightarrow> (Inl Unsupported, f, s)
      | Of_Directory \<Rightarrow> (Inl IsADirectory, f, s)
      | Of_Socket \<Rightarrow> (Inl Unsupported, f, s))"

definition pipe_write :: "u8 list \<Rightarrow> pipe_buffer \<Rightarrow> (error_kind + nat) \<times> pipe_buffer" where
  "pipe_write bs b =
     (if read_handles b = 0 then (Inl BrokenPipe, b)
      else (Inr (length bs), b\<lparr>pipe_bytes := pipe_bytes b @ bs\<rparr>))"

definition gf_write :: "u8 list \<Rightarrow> open_file \<Rightarrow> io \<Rightarrow> (error_kind + nat) \<times> io" where
  "gf_write bs f s =
     (case f of
        Of_File d \<Rightarrow> File_write d bs s
      | Of_IpaBundleFile _ _ \<Rightarrow> (Inl PermissionDenied, s)
      | Of_ResourceFile _ _ \<Rightarrow> (Inl PermissionDenied, s)
      | Of_Random _ \<Rightarrow> (Inr (length bs), s)
      | Of_PipeRead _ \<Rightarrow> (Inl BrokenPipe, s)
      | Of_PipeWrite p \<Rightarrow> (case pipe_write bs (io_pipes s ! p) of (r, b) \<Rightarrow> (r, with_pipe p (\<lambda>_. b) s))
      | Of_Directory \<Rightarrow> (Inl IsADirectory, s)
      | Of_Socket \<Rightarrow> (Inl Unsupported, s))"

definition gf_flush :: "open_file \<Rightarrow> error_kind + unit" where
  "gf_flush f =
     (case f of
        Of_IpaBundleFile _ _ \<Rightarrow> Inl PermissionDenied
      | Of_ResourceFile _ _ \<Rightarrow> Inl PermissionDenied
      | Of_Directory \<Rightarrow> Inl IsADirectory
      | Of_Socket \<Rightarrow> Inl Unsupported
      | _ \<Rightarrow> Inr ())"

end
