(* ===== verification/RecordLocks.thy ===== *)
theory RecordLocks
  imports Prelude
begin

text \<open>
  Record locks (\<open>LockRange\<close> and \<open>release_range_from_locks\<close> of \<open>src/libc/posix_io.rs\<close>): half-open ranges of bytes with a type.
  The contract of \<open>fcntl\<close> speaks of single bytes; \<open>lock_at\<close> reads a list of ranges that way, and the list operations are
  proved to implement updates of that map.
\<close>

type_synonym i16 = "16 word"

text \<open>Offsets are \<open>i64\<close>; \<open>I64_MAX_INT\<close> as an end means without end.\<close>

definition I64_MAX_INT :: int where "I64_MAX_INT = 2 ^ 63 - 1"

record lock_range =
  lr_start :: int
  lr_end :: int
  lr_type :: i16

definition F_RDLCK :: i16 where "F_RDLCK = 1"
definition F_UNLCK :: i16 where "F_UNLCK = 2"
definition F_WRLCK :: i16 where "F_WRLCK = 3"

definition overlaps :: "lock_range \<Rightarrow> lock_range \<Rightarrow> bool" where
  "overlaps a b \<longleftrightarrow> lr_start a < lr_end b \<and> lr_start b < lr_end a"

definition release_from_lock :: "lock_range \<Rightarrow> lock_range \<Rightarrow> lock_range list" where
  "release_from_lock release existing =
     (if \<not> overlaps existing release then [existing]
      else (if lr_start existing < lr_start release then [existing\<lparr>lr_end := lr_start release\<rparr>] else []) @
        (if lr_end existing > lr_end release then [existing\<lparr>lr_start := lr_end release\<rparr>] else []))"

definition release_range_from_locks :: "lock_range \<Rightarrow> lock_range list \<Rightarrow> lock_range list" where
  "release_range_from_locks release locks = concat (map (release_from_lock release) locks)"

text \<open>What \<open>F_SETLK\<close> and \<open>F_SETLKW\<close> do with the list.\<close>

definition set_lock :: "lock_range \<Rightarrow> lock_range list \<Rightarrow> lock_range list" where
  "set_lock requested locks =
     (if lr_type requested = F_UNLCK then release_range_from_locks requested locks
      else release_range_from_locks requested locks @ [requested])"

section \<open>Locks byte by byte\<close>

definition covers :: "lock_range \<Rightarrow> int \<Rightarrow> bool" where
  "covers l b \<longleftrightarrow> lr_start l \<le> b \<and> b < lr_end l"

definition lock_at :: "lock_range list \<Rightarrow> int \<Rightarrow> i16 option" where
  "lock_at locks b = map_option lr_type (find (\<lambda>l. covers l b) locks)"

lemma find_append: "find P (xs @ ys) = (case find P xs of None \<Rightarrow> find P ys | r \<Rightarrow> r)"
  by (induction xs) simp_all

lemma find_None: "find P xs = None \<longleftrightarrow> (\<forall>x \<in> set xs. \<not> P x)"
  by (induction xs) auto

lemma lock_at_append: "lock_at (xs @ ys) b = (case lock_at xs b of None \<Rightarrow> lock_at ys b | r \<Rightarrow> r)"
  by (simp add: lock_at_def find_append split: option.splits)

text \<open>A range holds a byte, unless it begins at the last offset of all.\<close>

definition range_ok :: "lock_range \<Rightarrow> bool" where
  "range_ok l \<longleftrightarrow> lr_end l \<le> I64_MAX_INT \<and> (lr_start l < lr_end l \<or> lr_start l = I64_MAX_INT \<and> lr_end l = I64_MAX_INT)"

lemma lock_at_release_one:
  "range_ok r \<Longrightarrow> range_ok l \<Longrightarrow>
    lock_at (release_from_lock r l) b = (if covers r b \<or> \<not> covers l b then None else Some (lr_type l))"
  by (auto simp: lock_at_def release_from_lock_def overlaps_def covers_def range_ok_def)

lemma lock_at_release:
  assumes "range_ok r" and "\<forall>l \<in> set locks. range_ok l"
  shows "lock_at (release_range_from_locks r locks) b = (if covers r b then None else lock_at locks b)"
  using assms(2)
proof (induction locks)
  case (Cons l locks)
  have "lock_at (release_range_from_locks r (l # locks)) b =
      (case lock_at (release_from_lock r l) b of None \<Rightarrow> lock_at (release_range_from_locks r locks) b | x \<Rightarrow> x)"
    unfolding release_range_from_locks_def by (simp add: lock_at_append)
  with Cons show ?case by (simp add: lock_at_release_one [OF assms(1)]) (simp add: lock_at_def)
qed (simp add: release_range_from_locks_def lock_at_def)

lemma lock_at_set:
  assumes "range_ok r" and "\<forall>l \<in> set locks. range_ok l"
  shows "lock_at (set_lock r locks) b =
    (if covers r b then (if lr_type r = F_UNLCK then None else Some (lr_type r)) else lock_at locks b)"
  by (auto simp: set_lock_def lock_at_append lock_at_release [OF assms] split: option.splits) (auto simp: lock_at_def)

section \<open>No byte is locked twice\<close>

fun disjoint_locks :: "lock_range list \<Rightarrow> bool" where
  "disjoint_locks [] = True"
| "disjoint_locks (l # ls) = (range_ok l \<and> (\<forall>k \<in> set ls. \<not> overlaps l k) \<and> disjoint_locks ls)"

lemma disjoint_ranges: "disjoint_locks locks \<Longrightarrow> l \<in> set locks \<Longrightarrow> range_ok l"
  by (induction locks) auto

lemma overlaps_commute: "overlaps a b = overlaps b a"
  by (auto simp: overlaps_def)

lemma covers_overlaps: "covers a b \<Longrightarrow> covers c b \<Longrightarrow> overlaps a c"
  by (simp add: covers_def overlaps_def)

lemma disjoint_append:
  "disjoint_locks (xs @ ys) \<longleftrightarrow> disjoint_locks xs \<and> disjoint_locks ys \<and> (\<forall>x \<in> set xs. \<forall>y \<in> set ys. \<not> overlaps x y)"
  by (induction xs) auto

lemma release_parts:
  "k \<in> set (release_from_lock r l) \<Longrightarrow> range_ok l \<Longrightarrow> range_ok r \<Longrightarrow>
    range_ok k \<and> lr_start l \<le> lr_start k \<and> lr_end k \<le> lr_end l \<and> \<not> overlaps k r"
  by (auto simp: release_from_lock_def overlaps_def range_ok_def split: if_splits)

lemma release_disjoint_one:
  "range_ok l \<Longrightarrow> range_ok r \<Longrightarrow> disjoint_locks (release_from_lock r l)"
  by (auto simp: release_from_lock_def overlaps_def range_ok_def)

lemma release_disjoint:
  assumes "range_ok r"
  shows "disjoint_locks locks \<Longrightarrow> disjoint_locks (release_range_from_locks r locks)"
proof (induction locks)
  case (Cons l locks)
  have "\<not> overlaps x y" if x: "x \<in> set (release_from_lock r l)" and y: "y \<in> set (release_range_from_locks r locks)" for x y
  proof -
    obtain k where k: "k \<in> set locks" "y \<in> set (release_from_lock r k)" using y by (auto simp: release_range_from_locks_def)
    have kk: "range_ok k" using Cons.prems k(1) disjoint_ranges by auto
    have "\<not> overlaps l k" using Cons.prems k(1) by simp
    with release_parts [OF x _ assms] release_parts [OF k(2) kk assms] Cons.prems show ?thesis by (auto simp: overlaps_def)
  qed
  with Cons release_disjoint_one [of l r] assms show ?case
    by (simp add: release_range_from_locks_def disjoint_append)
qed (simp add: release_range_from_locks_def)

lemma release_not_overlapping:
  assumes "range_ok r" "disjoint_locks locks" "k \<in> set (release_range_from_locks r locks)"
  shows "\<not> overlaps k r"
proof -
  obtain l where l: "l \<in> set locks" "k \<in> set (release_from_lock r l)" using assms(3) by (auto simp: release_range_from_locks_def)
  with release_parts [OF l(2) disjoint_ranges [OF assms(2) l(1)] assms(1)] show ?thesis by blast
qed

lemma set_lock_disjoint:
  "range_ok r \<Longrightarrow> disjoint_locks locks \<Longrightarrow> disjoint_locks (set_lock r locks)"
  using release_disjoint [of r locks] release_not_overlapping [of r locks]
  by (auto simp: set_lock_def disjoint_append)

lemma disjoint_no_two:
  "disjoint_locks locks \<Longrightarrow> a \<in> set locks \<Longrightarrow> c \<in> set locks \<Longrightarrow> covers a b \<Longrightarrow> covers c b \<Longrightarrow> a = c"
  by (induction locks) (auto dest: covers_overlaps simp: overlaps_commute)

section \<open>A history of requests\<close>

definition locks_after :: "lock_range list \<Rightarrow> lock_range list" where
  "locks_after requests = foldl (\<lambda>locks r. set_lock r locks) [] requests"

text \<open>The contract: the last request that covers a byte decides about it.\<close>

definition granted_at :: "lock_range list \<Rightarrow> int \<Rightarrow> i16 option" where
  "granted_at requests b =
     (case find (\<lambda>r. covers r b) (rev requests) of
        None \<Rightarrow> None
      | Some r \<Rightarrow> if lr_type r = F_UNLCK then None else Some (lr_type r))"

lemma locks_after_disjoint:
  "\<forall>r \<in> set requests. range_ok r \<Longrightarrow> disjoint_locks (locks_after requests)"
  by (induction requests rule: rev_induct) (simp_all add: locks_after_def set_lock_disjoint)

lemma locks_after_lookup:
  "\<forall>r \<in> set requests. range_ok r \<Longrightarrow> lock_at (locks_after requests) b = granted_at requests b"
proof (induction requests rule: rev_induct)
  case Nil
  then show ?case by (simp add: locks_after_def lock_at_def granted_at_def)
next
  case (snoc r requests)
  then have "disjoint_locks (locks_after requests)" by (simp add: locks_after_disjoint)
  with snoc.prems have "lock_at (set_lock r (locks_after requests)) b =
      (if covers r b then (if lr_type r = F_UNLCK then None else Some (lr_type r)) else lock_at (locks_after requests) b)"
    by (intro lock_at_set) (auto dest: disjoint_ranges)
  with snoc show ?case by (simp add: locks_after_def granted_at_def)
qed

end
