(* ===== verification/Fd.thy ===== *)
theory Fd
  imports OpenFile RecordLocks
begin

text \<open>
  File descriptors (\<open>src/libc/posix_io.rs\<close> and \<open>pipe\<close> of \<open>src/libc/unistd.rs\<close>): the table of open files, and the functions of
  \<open>fcntl.h\<close> and \<open>unistd.h\<close> over it, between the C library and the guest filesystem.  Strings are lists of bytes, as in
  \<open>GuestPath\<close>.  The variable argument of \<open>fcntl\<close> is an argument of the model.  What is printed, and the record of an
  unreadable game archive that only the crash handling reads, are left out.
\<close>

definition EINTR :: i32 where "EINTR = 4"
definition EIO :: i32 where "EIO = 5"
definition EBADF :: i32 where "EBADF = 9"
definition EFAULT :: i32 where "EFAULT = 14"
definition EISDIR :: i32 where "EISDIR = 21"
definition EMFILE :: i32 where "EMFILE = 24"
definition ESPIPE :: i32 where "ESPIPE = 29"
definition EPIPE :: i32 where "EPIPE = 32"
definition EOVERFLOW :: i32 where "EOVERFLOW = 84"

section \<open>State\<close>

record posix_file =
  pf_file :: open_file
  needs_flush :: bool
  reached_eof :: bool
  fd_flags :: i32
  status_flags :: i32
  pf_path :: "string option"
  pf_locks :: "lock_range list"
  flock_state :: "i16 option"

record fd_env =
  fe_env :: env
  fe_fs :: fs
  fe_io :: io
  fe_files :: "posix_file option list"
  fe_bundle_path :: string
  fe_sockets :: "i32 list"

definition STDIN_FILENO :: i32 where "STDIN_FILENO = 0"
definition STDOUT_FILENO :: i32 where "STDOUT_FILENO = 1"
definition STDERR_FILENO :: i32 where "STDERR_FILENO = 2"
definition NORMAL_FILENO_BASE :: i32 where "NORMAL_FILENO_BASE = 3"

lemmas fileno_defs = STDIN_FILENO_def STDOUT_FILENO_def STDERR_FILENO_def NORMAL_FILENO_BASE_def

definition O_RDONLY :: i32 where "O_RDONLY = 0"
definition O_WRONLY :: i32 where "O_WRONLY = 1"
definition O_RDWR :: i32 where "O_RDWR = 2"
definition O_ACCMODE :: i32 where "O_ACCMODE = 3"
definition O_NONBLOCK :: i32 where "O_NONBLOCK = 4"
definition O_APPEND :: i32 where "O_APPEND = 8"
definition O_SHLOCK :: i32 where "O_SHLOCK = 0x10"
definition O_TRUNC :: i32 where "O_TRUNC = 0x400"

definition FD_CLOEXEC :: i32 where "FD_CLOEXEC = 1"

definition SEEK_SET :: i32 where "SEEK_SET = 0"
definition SEEK_CUR :: i32 where "SEEK_CUR = 1"
definition SEEK_END :: i32 where "SEEK_END = 2"

definition LOCK_SH :: i32 where "LOCK_SH = 1"
definition LOCK_EX :: i32 where "LOCK_EX = 2"
definition LOCK_NB :: i32 where "LOCK_NB = 4"
definition LOCK_UN :: i32 where "LOCK_UN = 8"

text \<open>An index too large for a descriptor panics; a descriptor below three has an index that no table reaches.\<close>

definition file_idx_to_fd :: "nat \<Rightarrow> i32 option" where
  "file_idx_to_fd idx = do {
     expect (idx < 2 ^ 31);
     expect (idx + 3 < 2 ^ 31);
     Some (of_nat idx + NORMAL_FILENO_BASE)
   }"

definition fd_to_file_idx :: "i32 \<Rightarrow> nat" where
  "fd_to_file_idx fd = (let v = sint fd - 3 in if v < - (2 ^ 31) then 0 else nat (v mod 2 ^ 64))"

definition slot :: "i32 \<Rightarrow> fd_env \<Rightarrow> posix_file option option" where
  "slot fd e = (if fd_to_file_idx fd < length (fe_files e) then Some (fe_files e ! fd_to_file_idx fd) else None)"

definition file_for_fd :: "i32 \<Rightarrow> fd_env \<Rightarrow> posix_file option" where
  "file_for_fd fd e = (if fd <s NORMAL_FILENO_BASE then None else case slot fd e of Some (Some f) \<Rightarrow> Some f | _ \<Rightarrow> None)"

definition is_fd_open :: "i32 \<Rightarrow> fd_env \<Rightarrow> bool" where
  "is_fd_open fd e \<longleftrightarrow> file_for_fd fd e \<noteq> None"

text \<open>Writing back an object that was changed through a mutable reference.\<close>

definition put_file :: "i32 \<Rightarrow> posix_file \<Rightarrow> fd_env \<Rightarrow> fd_env" where
  "put_file fd f e = e\<lparr>fe_files := (fe_files e)[fd_to_file_idx fd := Some f]\<rparr>"

definition fe_errno :: "i32 \<Rightarrow> fd_env \<Rightarrow> fd_env option" where
  "fe_errno v e = map_option (\<lambda>b. e\<lparr>fe_env := b\<rparr>) (set_errno v (fe_env e))"

definition failing :: "i32 \<Rightarrow> 'a \<Rightarrow> fd_env \<Rightarrow> ('a \<times> fd_env) option" where
  "failing err r e = map_option (Pair r) (fe_errno err e)"

definition fe_mem :: "fd_env \<Rightarrow> mem" where "fe_mem e = env_mem (fe_env e)"

definition set_fe_mem :: "mem \<Rightarrow> fd_env \<Rightarrow> fd_env" where
  "set_fe_mem m e = e\<lparr>fe_env := (fe_env e)\<lparr>env_mem := m\<rparr>\<rparr>"

text \<open>The first free slot, or a new one.\<close>

definition find_or_create_fd :: "posix_file \<Rightarrow> fd_env \<Rightarrow> (i32 \<times> fd_env) option" where
  "find_or_create_fd host_object e =
     (let idx = length (takeWhile (\<lambda>f. f \<noteq> None) (fe_files e));
          e1 = (if idx < length (fe_files e) then e\<lparr>fe_files := (fe_files e)[idx := Some host_object]\<rparr>
                else e\<lparr>fe_files := fe_files e @ [Some host_object]\<rparr>) in
      map_option (\<lambda>fd. (fd, e1)) (file_idx_to_fd idx))"

definition new_posix_file :: "open_file \<Rightarrow> i32 \<Rightarrow> posix_file" where
  "new_posix_file file status = \<lparr>pf_file = file, needs_flush = False, reached_eof = False, fd_flags = 0, status_flags = status,
     pf_path = None, pf_locks = [], flock_state = None\<rparr>"

section \<open>Finding the file for a path\<close>

definition ascii_lower :: "char \<Rightarrow> char" where
  "ascii_lower c = (if 65 \<le> (of_char c :: nat) \<and> (of_char c :: nat) \<le> 90 then char_of (of_char c + 32 :: nat) else c)"

definition eq_ignore_ascii_case :: "string \<Rightarrow> string \<Rightarrow> bool" where
  "eq_ignore_ascii_case a b \<longleftrightarrow> map ascii_lower a = map ascii_lower b"

fun after_app_component :: "string list \<Rightarrow> string option" where
  "after_app_component [] = None"
| "after_app_component (component # rest) =
     (if eq_ignore_ascii_case (drop (length component - 4) component) ''.app''
      then Some (trim_start_char SLASH (join_char SLASH rest))
      else after_app_component rest)"

definition path_after_app_bundle_component :: "string \<Rightarrow> string option" where
  "path_after_app_bundle_component path = after_app_component (split_char SLASH path)"

definition strip_udk_game_bundle_prefix :: "string \<Rightarrow> string option" where
  "strip_udk_game_bundle_prefix path = do {
     let normalized = map (\<lambda>c. if c = CHR 0x5C then SLASH else c) path;
     let p = (case strip_prefix ''./'' normalized of Some p \<Rightarrow> p | None \<Rightarrow> normalized);
     relative \<leftarrow> strip_prefix ''../'' p;
     let (r, contents) = (case split_once SLASH relative of Some rc \<Rightarrow> rc | None \<Rightarrow> (relative, []));
     if eq_ignore_ascii_case r ''UDKGame'' then Some contents else None
   }"

text \<open>\<open>trim_start_matches("./")\<close>.\<close>

fun trim_dot_slash :: "string \<Rightarrow> string" where
  "trim_dot_slash (a # b # s) = (if a = CHR 0x2E \<and> b = SLASH then trim_dot_slash s else a # b # s)"
| "trim_dot_slash s = s"

definition relative_to_bundle :: "string \<Rightarrow> string \<Rightarrow> string option" where
  "relative_to_bundle bundle_root path =
     (if path = bundle_root then Some []
      else case (case strip_prefix bundle_root path of
                   Some relative \<Rightarrow> if starts_with_slash relative then Some relative else None
                 | None \<Rightarrow> None) of
        Some relative \<Rightarrow> Some (trim_start_char SLASH relative)
      | None \<Rightarrow>
          if starts_with_slash path then path_after_app_bundle_component path
          else Some (trim_dot_slash path))"

definition data_relative :: "string \<Rightarrow> string" where
  "data_relative relative_path =
     (case split_once SLASH relative_path of
        Some (component, remainder) \<Rightarrow> if eq_ignore_ascii_case component ''Data'' then remainder else relative_path
      | None \<Rightarrow> relative_path)"

definition bundle_candidates :: "string \<Rightarrow> string \<Rightarrow> string list" where
  "bundle_candidates bundle_root relative_path =
     (let data_relative_path = data_relative relative_path in
      [bundle_root @ ''/'' @ relative_path, bundle_root @ ''/Data/'' @ data_relative_path] @
      (if data_relative_path \<noteq> relative_path then [bundle_root @ ''/'' @ data_relative_path] else []))"

fun first_resolved :: "world \<Rightarrow> fs \<Rightarrow> string list \<Rightarrow> string option option" where
  "first_resolved W fs [] = Some None"
| "first_resolved W fs (c # rest) = do {
     r \<leftarrow> resolve_case_insensitive_path (w_lower W) c fs;
     (case r of Some p \<Rightarrow> Some (Some p) | None \<Rightarrow> first_resolved W fs rest)
   }"

definition resolve_existing_guest_path :: "world \<Rightarrow> fd_env \<Rightarrow> string \<Rightarrow> string option option" where
  "resolve_existing_guest_path W e path = do {
     r \<leftarrow> resolve_case_insensitive_path (w_lower W) path (fe_fs e);
     (case r of
        Some resolved \<Rightarrow> Some (Some resolved)
      | None \<Rightarrow>
          let bundle_root = trim_end_char SLASH (fe_bundle_path e) in
          (case relative_to_bundle bundle_root path of
             None \<Rightarrow> Some None
           | Some relative_path \<Rightarrow>
               let relative_path = (case strip_udk_game_bundle_prefix relative_path of Some p \<Rightarrow> p | None \<Rightarrow> relative_path) in
               first_resolved W (fe_fs e) (bundle_candidates bundle_root relative_path)))
   }"

section \<open>Opening and closing\<close>

definition flock :: "i32 \<Rightarrow> i32 \<Rightarrow> fd_env \<Rightarrow> (i32 \<times> fd_env) option" where
  "flock fd operation e = do {
     e \<leftarrow> fe_errno 0 e;
     (case file_for_fd fd e of
        None \<Rightarrow> failing EBADF (- 1) e
      | Some file \<Rightarrow>
          let op = operation AND NOT LOCK_NB in
          if op = LOCK_UN then Some (0, put_file fd (file\<lparr>flock_state := None\<rparr>) e)
          else if op = LOCK_SH then Some (0, put_file fd (file\<lparr>flock_state := Some F_RDLCK\<rparr>) e)
          else if op = LOCK_EX then Some (0, put_file fd (file\<lparr>flock_state := Some F_WRLCK\<rparr>) e)
          else failing EINVAL (- 1) e)
   }"

text \<open>\<open>O_RDONLY\<close>, \<open>O_WRONLY\<close> or \<open>O_RDWR\<close>; the fourth value of the mask is refused.\<close>

definition access_options :: "i32 \<Rightarrow> guest_open_options option" where
  "access_options flags =
     (let mode = flags AND O_ACCMODE in
      if mode = O_RDONLY then Some (GuestOpenOptions_new\<lparr>o_read := True\<rparr>)
      else if mode = O_WRONLY then Some (GuestOpenOptions_new\<lparr>o_write := True\<rparr>)
      else if mode = O_RDWR then Some (GuestOpenOptions_new\<lparr>o_read := True, o_write := True\<rparr>)
      else None)"

definition flag_options :: "i32 \<Rightarrow> guest_open_options \<Rightarrow> guest_open_options" where
  "flag_options flags options =
     options\<lparr>o_append := (flags AND O_APPEND \<noteq> 0), o_create := (flags AND O_CREAT \<noteq> 0),
       o_create_new := (flags AND O_EXCL \<noteq> 0), o_truncate := (flags AND O_TRUNC \<noteq> 0)\<rparr>"

definition utf8_string :: "u8 list \<Rightarrow> string" where
  "utf8_string bs = map (\<lambda>b. char_of (unat b)) bs"

definition string_bytes :: "string \<Rightarrow> u8 list" where
  "string_bytes s = map (\<lambda>c. of_nat (of_char c)) s"

definition kept_flags :: "i32 \<Rightarrow> i32" where
  "kept_flags flags = flags AND (O_ACCMODE OR O_APPEND OR O_NONBLOCK)"

definition open_resolved :: "world \<Rightarrow> string \<Rightarrow> guest_open_options \<Rightarrow> i32 \<Rightarrow> fd_env \<Rightarrow> (i32 \<times> fd_env) option" where
  "open_resolved W path options flags e = do {
     (file, fs1, h1) \<leftarrow> open_with_options (w_ipa W) (\<lambda>n. w_resource W n \<noteq> None) path options (fe_fs e) (io_host (fe_io e));
     let e = e\<lparr>fe_fs := fs1, fe_io := (fe_io e)\<lparr>io_host := h1\<rparr>\<rparr>;
     (case file of
        None \<Rightarrow> Some (- 1, e)
      | Some file \<Rightarrow>
          (case opened W file (fe_io e) of (f, s) \<Rightarrow>
             find_or_create_fd ((new_posix_file f (kept_flags flags))
               \<lparr>needs_flush := o_write options, pf_path := Some path\<rparr>) (e\<lparr>fe_io := s\<rparr>)))
   }"

definition open_random :: "world \<Rightarrow> string \<Rightarrow> i32 \<Rightarrow> fd_env \<Rightarrow> (i32 \<times> fd_env) option" where
  "open_random W path flags e =
     (case RandomFile_new W (fe_io e) of (r, s) \<Rightarrow>
        find_or_create_fd ((new_posix_file (Of_Random r) (kept_flags flags))\<lparr>pf_path := Some path\<rparr>) (e\<lparr>fe_io := s\<rparr>))"

definition open_direct :: "world \<Rightarrow> vaddr \<Rightarrow> i32 \<Rightarrow> fd_env \<Rightarrow> (i32 \<times> fd_env) option" where
  "open_direct W path flags e =
     (if path = 0 then Some (- 1, e)
      else case access_options flags of
        None \<Rightarrow> failing EINVAL (- 1) e
      | Some options \<Rightarrow>
          let options = flag_options flags options in
          (case cstr_at_utf8 (fe_mem e) path of
             None \<Rightarrow> Some (- 1, e)
           | Some bs \<Rightarrow>
               let path_string = utf8_string bs in
               if path_string = ''/dev/urandom'' \<or> path_string = ''/dev/random'' then open_random W path_string flags e
               else do {
                 r \<leftarrow> (if flags AND O_CREAT = 0 then resolve_existing_guest_path W e path_string
                       else resolve_case_insensitive_path (w_lower W) path_string (fe_fs e));
                 let actual = (case r of Some p \<Rightarrow> p | None \<Rightarrow> path_string);
                 clash \<leftarrow> (if flags AND O_EXCL \<noteq> 0 \<and> flags AND O_CREAT \<noteq> 0 then exists_node actual (fe_fs e) else Some False);
                 (if clash then failing EEXIST (- 1) e
                  else do {
                    (fd, e) \<leftarrow> open_resolved W actual options flags e;
                    e \<leftarrow> (if fd \<noteq> - 1 \<and> flags AND O_SHLOCK \<noteq> 0 then map_option snd (flock fd LOCK_SH e) else Some e);
                    Some (fd, e)
                  })
               }))"

definition posix_open :: "world \<Rightarrow> vaddr \<Rightarrow> i32 \<Rightarrow> fd_env \<Rightarrow> (i32 \<times> fd_env) option" where
  "posix_open W path flags e = do {
     e \<leftarrow> fe_errno 0 e;
     open_direct W path flags e
   }"

definition creat :: "world \<Rightarrow> vaddr \<Rightarrow> fd_env \<Rightarrow> (i32 \<times> fd_env) option" where
  "creat W path e = open_direct W path (1 OR 0x200 OR 0x400) e"

definition posix_close :: "i32 \<Rightarrow> fd_env \<Rightarrow> (i32 \<times> fd_env) option" where
  "posix_close fd e =
     (if fd <s 0 then failing EBADF (- 1) e
      else if fd <s NORMAL_FILENO_BASE then Some (0, e)
      else case slot fd e of
        Some (Some file_obj) \<Rightarrow>
          (let e = e\<lparr>fe_files := (fe_files e)[fd_to_file_idx fd := None],
                     fe_io := gf_close_pipe_endpoint (pf_file file_obj) (fe_io e)\<rparr> in
           Some (0, if pf_file file_obj = Of_Socket then e\<lparr>fe_sockets := removeAll fd (fe_sockets e)\<rparr> else e))
      | _ \<Rightarrow> failing EBADF (- 1) e)"

definition find_or_create_pipe_read_fd :: "nat \<Rightarrow> fd_env \<Rightarrow> (i32 \<times> fd_env) option" where
  "find_or_create_pipe_read_fd buffer e = find_or_create_fd (new_posix_file (Of_PipeRead buffer) O_RDONLY) e"

definition find_or_create_pipe_write_fd :: "nat \<Rightarrow> fd_env \<Rightarrow> (i32 \<times> fd_env) option" where
  "find_or_create_pipe_write_fd buffer e = find_or_create_fd (new_posix_file (Of_PipeWrite buffer) O_WRONLY) e"

definition find_or_create_socket :: "fd_env \<Rightarrow> (i32 \<times> fd_env) option" where
  "find_or_create_socket e = find_or_create_fd (new_posix_file Of_Socket O_RDWR) e"

definition is_socket :: "i32 \<Rightarrow> fd_env \<Rightarrow> bool" where
  "is_socket fd e \<longleftrightarrow> \<not> fd <s NORMAL_FILENO_BASE \<and> (case slot fd e of Some (Some f) \<Rightarrow> pf_file f = Of_Socket | _ \<Rightarrow> False)"

definition pipe :: "vaddr \<Rightarrow> fd_env \<Rightarrow> (i32 \<times> fd_env) option" where
  "pipe fds e =
     (if fds = 0 then failing EFAULT (- 1) e
      else do {
        let buffer = length (io_pipes (fe_io e));
        let e = e\<lparr>fe_io := (fe_io e)\<lparr>io_pipes := io_pipes (fe_io e) @ [PipeBuffer_new]\<rparr>\<rparr>;
        (read_fd, e) \<leftarrow> find_or_create_pipe_read_fd buffer e;
        (write_fd, e) \<leftarrow> find_or_create_pipe_write_fd buffer e;
        m \<leftarrow> write_u32 fds read_fd (fe_mem e);
        m \<leftarrow> write_u32 (fds + 4) write_fd m;
        failing 0 0 (set_fe_mem m e)
      })"

end
