(* ===== verification/FdIo.thy ===== *)
theory FdIo
  imports Fd
begin

text \<open>
  Reading, writing and control of open descriptors (the rest of \<open>src/libc/posix_io.rs\<close>).  The waiting loop of \<open>poll\<close> is not modelled, only
  the scan that decides which descriptors are ready; the events of a socket come from outside.
\<close>

section \<open>Offsets\<close>

definition fits_i64 :: "int \<Rightarrow> bool" where
  "fits_i64 t \<longleftrightarrow> t \<le> I64_MAX_INT"

text \<open>Where an offset counts from; \<open>Inl\<close> is the \<open>errno\<close> of a failure.\<close>

definition start_position :: "i32 \<Rightarrow> open_file \<Rightarrow> io \<Rightarrow> (i32 + nat) \<times> open_file \<times> io" where
  "start_position whence f s =
     (let result = (\<lambda>(r :: error_kind + nat, f', s'). (case r of Inr n \<Rightarrow> Inr n | Inl k \<Rightarrow> Inl (if k = IsADirectory then EISDIR else EIO), f', s')) in
      if whence = SEEK_SET then (Inr 0, f, s)
      else if whence = SEEK_CUR then result (gf_stream_position f s)
      else if whence = SEEK_END then result (gf_stream_len f s)
      else (Inl EINVAL, f, s))"

definition seek_errno :: "error_kind \<Rightarrow> i32" where
  "seek_errno k = (case k of InvalidInput \<Rightarrow> EINVAL | IsADirectory \<Rightarrow> EISDIR | _ \<Rightarrow> EIO)"

definition offset_result :: "nat \<Rightarrow> i64" where
  "offset_result n = (if n < 2 ^ 63 then of_nat n else - 1)"

definition lseek :: "i32 \<Rightarrow> i64 \<Rightarrow> i32 \<Rightarrow> fd_env \<Rightarrow> (i64 \<times> fd_env) option" where
  "lseek fd offset whence e =
     (case file_for_fd fd e of
        None \<Rightarrow> failing EBADF (- 1) e
      | Some file \<Rightarrow>
          if \<not> is_seekable (pf_file file) then failing ESPIPE (- 1) e
          else (case start_position whence (pf_file file) (fe_io e) of
            (Inl err, f, s) \<Rightarrow> failing err (- 1) (put_file fd (file\<lparr>pf_file := f\<rparr>) (e\<lparr>fe_io := s\<rparr>))
          | (Inr start, f, s) \<Rightarrow>
              let e = put_file fd (file\<lparr>pf_file := f\<rparr>) (e\<lparr>fe_io := s\<rparr>);
                  t = int start + sint offset in
              if t < 0 \<or> 2 ^ 64 \<le> t then failing (if 0 \<le> sint offset then EOVERFLOW else EINVAL) (- 1) e
              else if \<not> fits_i64 t then failing EOVERFLOW (- 1) e
              else (case gf_seek (Seek_Start (nat t)) f s of
                (Inl k, f, s) \<Rightarrow> failing (seek_errno k) (- 1) (put_file fd (file\<lparr>pf_file := f\<rparr>) (e\<lparr>fe_io := s\<rparr>))
              | (Inr n, f, s) \<Rightarrow>
                  Some (offset_result n, put_file fd (file\<lparr>pf_file := f, reached_eof := False\<rparr>) (e\<lparr>fe_io := s\<rparr>)))))"

section \<open>Reading and writing\<close>

text \<open>\<open>try_into().unwrap_or(-1)\<close> of a count.\<close>

definition count_result :: "nat \<Rightarrow> i32" where
  "count_result n = (if n < 2 ^ 31 then of_nat n else - 1)"

definition posix_read :: "world \<Rightarrow> i32 \<Rightarrow> vaddr \<Rightarrow> u32 \<Rightarrow> fd_env \<Rightarrow> (i32 \<times> fd_env) option" where
  "posix_read W fd buffer sz e = do {
     e \<leftarrow> fe_errno 0 e;
     (if buffer = 0 then Some (- 1, e)
      else case file_for_fd fd e of
        None \<Rightarrow> failing EBADF (- 1) e
      | Some file \<Rightarrow>
          let slice = bytes_at_mut (fe_mem e) buffer sz in
          (case gf_read W (slice_len slice) (pf_file file) (fe_io e) of
             (Inr bytes, f, s) \<Rightarrow>
               let e = put_file fd (file\<lparr>pf_file := f, reached_eof := (reached_eof file \<or> bytes = [] \<and> sz \<noteq> 0)\<rparr>) (e\<lparr>fe_io := s\<rparr>) in
               Some (count_result (length bytes), set_fe_mem (slice_put slice 0 bytes (fe_mem e)) e)
           | (Inl k, f, s) \<Rightarrow>
               let e = put_file fd (file\<lparr>pf_file := f\<rparr>) (e\<lparr>fe_io := s\<rparr>) in
               (case k of
                  IsADirectory \<Rightarrow> failing EISDIR 0 e
                | WouldBlock \<Rightarrow> failing EAGAIN (- 1) e
                | BrokenPipe \<Rightarrow> failing EPIPE (- 1) e
                | _ \<Rightarrow> Some (- 1, e))))
   }"

definition posix_write :: "i32 \<Rightarrow> vaddr \<Rightarrow> u32 \<Rightarrow> fd_env \<Rightarrow> (i32 \<times> fd_env) option" where
  "posix_write fd buffer sz e = do {
     e \<leftarrow> fe_errno 0 e;
     (if fd = STDOUT_FILENO \<or> fd = STDERR_FILENO then Some (sz, e)
      else case file_for_fd fd e of
        None \<Rightarrow> failing EBADF (- 1) e
      | Some file \<Rightarrow>
          (case gf_write (slice_list (fe_mem e) (bytes_at (fe_mem e) buffer sz)) (pf_file file) (fe_io e) of
             (Inr n, s) \<Rightarrow> Some (count_result n, e\<lparr>fe_io := s\<rparr>)
           | (Inl k, s) \<Rightarrow>
               (case k of
                  WouldBlock \<Rightarrow> failing EAGAIN (- 1) (e\<lparr>fe_io := s\<rparr>)
                | BrokenPipe \<Rightarrow> failing EPIPE (- 1) (e\<lparr>fe_io := s\<rparr>)
                | _ \<Rightarrow> Some (- 1, e\<lparr>fe_io := s\<rparr>))))
   }"

text \<open>What \<open>pread\<close> and \<open>pwrite\<close> do around the transfer.\<close>

definition at_offset :: "i32 \<Rightarrow> i64 \<Rightarrow> (fd_env \<Rightarrow> (i32 \<times> fd_env) option) \<Rightarrow> fd_env \<Rightarrow> (i32 \<times> fd_env) option" where
  "at_offset fd offset transfer e = do {
     (original_position, e) \<leftarrow> lseek fd 0 SEEK_CUR e;
     (if original_position = - 1 then Some (- 1, e)
      else do {
        (r, e) \<leftarrow> lseek fd offset SEEK_SET e;
        (if r = - 1 then Some (- 1, e)
         else do {
           (n, e) \<leftarrow> transfer e;
           (r, e) \<leftarrow> lseek fd original_position SEEK_SET e;
           expect (r \<noteq> - 1);
           Some (n, e)
         })
      })
   }"

definition pread :: "world \<Rightarrow> i32 \<Rightarrow> vaddr \<Rightarrow> u32 \<Rightarrow> i64 \<Rightarrow> fd_env \<Rightarrow> (i32 \<times> fd_env) option" where
  "pread W fd buffer sz offset e = at_offset fd offset (posix_read W fd buffer sz) e"

definition pwrite :: "i32 \<Rightarrow> vaddr \<Rightarrow> u32 \<Rightarrow> i64 \<Rightarrow> fd_env \<Rightarrow> (i32 \<times> fd_env) option" where
  "pwrite fd buffer sz offset e = at_offset fd offset (posix_write fd buffer sz) e"

definition eof :: "i32 \<Rightarrow> fd_env \<Rightarrow> i32" where
  "eof fd e = (case file_for_fd fd e of None \<Rightarrow> 1 | Some file \<Rightarrow> if reached_eof file then 1 else 0)"

definition clearerr :: "i32 \<Rightarrow> fd_env \<Rightarrow> fd_env option" where
  "clearerr fd e = do {
     e \<leftarrow> fe_errno 0 e;
     Some (case file_for_fd fd e of None \<Rightarrow> e | Some file \<Rightarrow> put_file fd (file\<lparr>reached_eof := False\<rparr>) e)
   }"

definition fflush :: "i32 \<Rightarrow> fd_env \<Rightarrow> (i32 \<times> fd_env) option" where
  "fflush fd e = do {
     e \<leftarrow> fe_errno 0 e;
     Some (case file_for_fd fd e of
        None \<Rightarrow> - 1
      | Some file \<Rightarrow> (case gf_flush (pf_file file) of Inr _ \<Rightarrow> 0 | Inl _ \<Rightarrow> - 1), e)
   }"

text \<open>The loop of \<open>writev\<close> runs until the counter, a wrapping \<open>i32\<close>, meets \<open>iovcnt\<close>.\<close>

function writev_from :: "i32 \<Rightarrow> vaddr \<Rightarrow> i32 \<Rightarrow> i32 \<Rightarrow> i32 \<Rightarrow> fd_env \<Rightarrow> (i32 \<times> fd_env) option" where
  "writev_from fd iov iovcnt i written_bytes e =
     (if i = iovcnt then Some (written_bytes, e)
      else do {
        iovec \<leftarrow> read_raw (fe_mem e) 8 (iov + 8 * i);
        (n, e) \<leftarrow> posix_write fd (of_le (take 4 iovec)) (of_le (drop 4 iovec)) e;
        if n = - 1 then Some (- 1, e)
        else writev_from fd iov iovcnt (i + 1) (written_bytes + n) e
      })"
  by pat_completeness auto
termination
  by (relation "measure (\<lambda>(fd, iov, iovcnt, i, w, e). unat (iovcnt - i))")
    (auto simp: unat_minus_one diff_diff_eq [symmetric] unat_gt_0)

declare writev_from.simps [simp del]

definition writev :: "i32 \<Rightarrow> vaddr \<Rightarrow> i32 \<Rightarrow> fd_env \<Rightarrow> (i32 \<times> fd_env) option" where
  "writev fd iov iovcnt e = writev_from fd iov iovcnt 0 0 e"

definition fsync :: "i32 \<Rightarrow> fd_env \<Rightarrow> (i32 \<times> fd_env) option" where
  "fsync fd e =
     (case file_for_fd fd e of
        None \<Rightarrow> failing EBADF (- 1) e
      | Some file \<Rightarrow>
          (case gf_sync_all (pf_file file) of
             Inr _ \<Rightarrow> Some (0, e)
           | Inl PermissionDenied \<Rightarrow> Some (0, e)
           | Inl Unsupported \<Rightarrow> failing EINVAL (- 1) e
           | Inl _ \<Rightarrow> failing EIO (- 1) e))"

definition ftruncate :: "i32 \<Rightarrow> i64 \<Rightarrow> fd_env \<Rightarrow> (i32 \<times> fd_env) option" where
  "ftruncate fd len e = do {
     e \<leftarrow> fe_errno 0 e;
     (case file_for_fd fd e of
        None \<Rightarrow> failing EBADF (- 1) e
      | Some file \<Rightarrow>
          (case gf_set_len (unat len) (pf_file file) (fe_io e) of
             (Inr _, s) \<Rightarrow> Some (0, e\<lparr>fe_io := s\<rparr>)
           | (Inl _, s) \<Rightarrow> Some (- 1, e\<lparr>fe_io := s\<rparr>)))
   }"

definition truncate_path :: "world \<Rightarrow> vaddr \<Rightarrow> i64 \<Rightarrow> fd_env \<Rightarrow> (i32 \<times> fd_env) option" where
  "truncate_path W path_ptr len e = do {
     e \<leftarrow> fe_errno 0 e;
     (case cstr_at_utf8 (fe_mem e) path_ptr of
        None \<Rightarrow> Some (- 1, e)
      | Some _ \<Rightarrow> do {
          (fd, e) \<leftarrow> open_direct W path_ptr O_WRONLY e;
          (if fd <s 0 then Some (- 1, e)
           else do {
             (res, e) \<leftarrow> ftruncate fd len e;
             (_, e) \<leftarrow> posix_close fd e;
             Some (res, e)
           })
        })
   }"

section \<open>The working directory\<close>

definition getcwd :: "vaddr \<Rightarrow> u32 \<Rightarrow> fd_env \<Rightarrow> (vaddr \<times> fd_env) option" where
  "getcwd buf_ptr buf_size e = do {
     d \<leftarrow> is_dir (working_directory (fe_fs e)) (fe_fs e);
     (if \<not> d then Some (0, e)
      else
        let bytes = string_bytes (working_directory (fe_fs e)) in
        if buf_ptr = 0 then do {
          (p, m) \<leftarrow> alloc_and_write_cstr bytes (fe_mem e);
          Some (p, set_fe_mem m e)
        }
        else
          let res_size = (if length bytes < 2 ^ 32 then of_nat (length bytes) else 0) + 1 in
          if buf_size < res_size then Some (0, e)
          else do {
            let buf = bytes_at_mut (fe_mem e) buf_ptr res_size;
            expect (length bytes = unat (res_size - 1));
            expect (length bytes < slice_len buf);
            Some (buf_ptr, set_fe_mem (slice_put buf 0 (bytes @ [0]) (fe_mem e)) e)
          })
   }"

definition chdir :: "world \<Rightarrow> vaddr \<Rightarrow> fd_env \<Rightarrow> (i32 \<times> fd_env) option" where
  "chdir W path_ptr e = do {
     e \<leftarrow> fe_errno 0 e;
     let path_str = (case cstr_at_utf8 (fe_mem e) path_ptr of Some bs \<Rightarrow> utf8_string bs | None \<Rightarrow> []);
     (if path_str = [] then failing ENOENT (- 1) e
      else do {
        r \<leftarrow> resolve_existing_guest_path W e path_str;
        (new, fs1) \<leftarrow> change_working_directory (w_lower W) (case r of Some p \<Rightarrow> p | None \<Rightarrow> path_str) (fe_fs e);
        Some (case new of Some _ \<Rightarrow> 0 | None \<Rightarrow> - 1, e\<lparr>fe_fs := fs1\<rparr>)
      })
   }"

section \<open>Record locks of a descriptor\<close>

record flock_request =
  fl_start :: i64
  fl_len :: i64
  fl_type :: i16
  fl_whence :: i16

definition flock_of :: "u8 list \<Rightarrow> flock_request" where
  "flock_of bs = \<lparr>fl_start = of_le (take 8 bs), fl_len = of_le (take 8 (drop 8 bs)),
     fl_type = of_le (take 2 (drop 20 bs)), fl_whence = of_le (take 2 (drop 22 bs))\<rparr>"

text \<open>\<open>i64\<close> addition in the release profile.\<close>

definition wrap_i64 :: "int \<Rightarrow> int" where
  "wrap_i64 t = (t + 2 ^ 63) mod 2 ^ 64 - 2 ^ 63"

definition lock_start :: "i32 \<Rightarrow> flock_request \<Rightarrow> fd_env \<Rightarrow> (i32 + int) \<times> fd_env" where
  "lock_start fd lock e =
     (let whence = (scast (fl_whence lock) :: i32) in
      if whence = SEEK_SET then (Inr (sint (fl_start lock)), e)
      else if whence = SEEK_CUR \<or> whence = SEEK_END then
        (case file_for_fd fd e of
           None \<Rightarrow> (Inl EBADF, e)
         | Some file \<Rightarrow>
             (case (if whence = SEEK_CUR then gf_stream_position (pf_file file) (fe_io e) else gf_stream_len (pf_file file) (fe_io e)) of
                (r, f, s) \<Rightarrow>
                  let from = (case r of Inr n \<Rightarrow> if whence = SEEK_CUR then wrap_i64 (int n) else if int n \<le> I64_MAX_INT then int n else 0
                              | Inl _ \<Rightarrow> 0) in
                  (Inr (wrap_i64 (from + sint (fl_start lock))), put_file fd (file\<lparr>pf_file := f\<rparr>) (e\<lparr>fe_io := s\<rparr>))))
      else (Inl EINVAL, e))"

definition lock_extent :: "int \<Rightarrow> int \<Rightarrow> i16 \<Rightarrow> i32 + lock_range" where
  "lock_extent start len t =
     (if start < 0 then Inl EINVAL
      else if len = 0 then Inr \<lparr>lr_start = start, lr_end = I64_MAX_INT, lr_type = t\<rparr>
      else if 0 < len then
        (if start + len \<le> I64_MAX_INT then Inr \<lparr>lr_start = start, lr_end = start + len, lr_type = t\<rparr> else Inl EOVERFLOW)
      else if start + len < - (2 ^ 63) then Inl EINVAL
      else if start + len < 0 then Inl EINVAL
      else Inr \<lparr>lr_start = start + len, lr_end = start, lr_type = t\<rparr>)"

definition resolve_lock_range :: "i32 \<Rightarrow> flock_request \<Rightarrow> fd_env \<Rightarrow> (i32 + lock_range) \<times> fd_env" where
  "resolve_lock_range fd lock e =
     (if fl_type lock \<notin> {F_RDLCK, F_UNLCK, F_WRLCK} then (Inl EINVAL, e)
      else case lock_start fd lock e of
        (Inl err, e) \<Rightarrow> (Inl err, e)
      | (Inr start, e) \<Rightarrow> (lock_extent start (sint (fl_len lock)) (fl_type lock), e))"

text \<open>Whatever the request, a range that is accepted is well formed.\<close>

lemma wrap_i64_bounds: "- (2 ^ 63) \<le> wrap_i64 t \<and> wrap_i64 t \<le> I64_MAX_INT"
  using pos_mod_bound [of "2 ^ 64" "t + 2 ^ 63"] pos_mod_sign [of "2 ^ 64" "t + 2 ^ 63"] by (simp add: wrap_i64_def I64_MAX_INT_def)

lemma sint_i64_bound: "sint (w :: i64) \<le> I64_MAX_INT"
  using sint_less [of w] by (simp add: I64_MAX_INT_def)

lemma lock_start_bound: "lock_start fd lock e = (Inr start, e') \<Longrightarrow> start \<le> I64_MAX_INT"
  using wrap_i64_bounds by (auto simp: lock_start_def Let_def sint_i64_bound split: if_splits option.splits prod.splits)

lemma lock_extent_ok: "lock_extent start len t = Inr r \<Longrightarrow> start \<le> I64_MAX_INT \<Longrightarrow> range_ok r"
  by (auto simp: lock_extent_def range_ok_def I64_MAX_INT_def split: if_splits)

lemma resolve_lock_range_ok: "resolve_lock_range fd lock e = (Inr r, e') \<Longrightarrow> range_ok r"
  by (auto simp: resolve_lock_range_def split: if_splits prod.splits sum.splits intro: lock_extent_ok lock_start_bound)

definition fcntl_getlk :: "i32 \<Rightarrow> vaddr \<Rightarrow> fd_env \<Rightarrow> (i32 \<times> fd_env) option" where
  "fcntl_getlk fd lock_ptr e = do {
     bs \<leftarrow> read_raw (fe_mem e) 24 lock_ptr;
     (case resolve_lock_range fd (flock_of bs) e of
        (Inl err, e) \<Rightarrow> failing err (- 1) e
      | (Inr _, e) \<Rightarrow> do {
          m \<leftarrow> write_raw lock_ptr (take 20 bs @ le_bytes 2 F_UNLCK @ drop 22 bs) (fe_mem e);
          Some (0, set_fe_mem m e)
        })
   }"

definition fcntl_setlk :: "i32 \<Rightarrow> vaddr \<Rightarrow> fd_env \<Rightarrow> (i32 \<times> fd_env) option" where
  "fcntl_setlk fd lock_ptr e = do {
     bs \<leftarrow> read_raw (fe_mem e) 24 lock_ptr;
     (case resolve_lock_range fd (flock_of bs) e of
        (Inl err, e) \<Rightarrow> failing err (- 1) e
      | (Inr requested, e) \<Rightarrow>
          Some (0, case file_for_fd fd e of
            Some file \<Rightarrow> put_file fd (file\<lparr>pf_locks := set_lock requested (pf_locks file)\<rparr>) e
          | None \<Rightarrow> e))
   }"

section \<open>fcntl\<close>

definition F_DUPFD :: i32 where "F_DUPFD = 0"
definition F_GETFD :: i32 where "F_GETFD = 1"
definition F_SETFD :: i32 where "F_SETFD = 2"
definition F_GETFL :: i32 where "F_GETFL = 3"
definition F_SETFL :: i32 where "F_SETFL = 4"
definition F_GETLK :: i32 where "F_GETLK = 7"
definition F_SETLK :: i32 where "F_SETLK = 8"
definition F_SETLKW :: i32 where "F_SETLKW = 9"
definition F_GETPATH :: i32 where "F_GETPATH = 50"
definition F_DUPFD_CLOEXEC :: i32 where "F_DUPFD_CLOEXEC = 67"

text \<open>\<open>F_NOCACHE\<close>, \<open>F_RDADVISE\<close>, \<open>F_RDAHEAD\<close>, \<open>F_PREALLOCATE\<close>, \<open>F_TRUNCATEOVERSIZE\<close>, \<open>F_SETSIZE\<close>, \<open>F_FULLFSYNC\<close>, \<open>F_BARRIERFSYNC\<close>,
  \<open>F_PATHPKG_CHECK\<close>, \<open>F_CHKCLEAN\<close>, the five of code signing, \<open>F_SETNOSIGPIPE\<close> and \<open>F_GETNOSIGPIPE\<close>: zero, and nothing else.\<close>

definition ignored_commands :: "i32 list" where
  "ignored_commands = [48, 44, 45, 42, 46, 43, 51, 85, 52, 41, 59, 61, 83, 97, 99, 73, 74]"

text \<open>The lowest free slot from \<open>min_idx\<close> on; the table grows with empty slots up to it.\<close>

definition place_from :: "nat \<Rightarrow> posix_file \<Rightarrow> posix_file option list \<Rightarrow> nat \<times> posix_file option list" where
  "place_from min_idx host_object files =
     (let n = length (takeWhile (\<lambda>f. f \<noteq> None) (drop min_idx files)) in
      if min_idx + n < length files then (min_idx + n, files[min_idx + n := Some host_object])
      else if length files < min_idx then
        (min_idx, files @ replicate (min_idx - length files) None @ [Some host_object])
      else (length files, files @ [Some host_object]))"

definition fcntl_dupfd :: "world \<Rightarrow> i32 \<Rightarrow> i32 \<Rightarrow> i32 \<Rightarrow> fd_env \<Rightarrow> (i32 \<times> fd_env) option" where
  "fcntl_dupfd W fd min_fd new_flags e =
     (case file_for_fd fd e of
        None \<Rightarrow> failing EBADF (- 1) e
      | Some src_file \<Rightarrow>
          (case gf_try_clone W (pf_file src_file) (fe_io e) of
             (Inl _, s) \<Rightarrow> failing EMFILE (- 1) (e\<lparr>fe_io := s\<rparr>)
           | (Inr cloned, s) \<Rightarrow>
               let host_object = (new_posix_file cloned (status_flags src_file))\<lparr>fd_flags := new_flags, pf_path := pf_path src_file\<rparr>;
                   min_idx = (if \<not> min_fd <s NORMAL_FILENO_BASE then fd_to_file_idx min_fd else 0) in
               (case place_from min_idx host_object (fe_files e) of (idx, files) \<Rightarrow>
                  map_option (\<lambda>new_fd. (new_fd, e\<lparr>fe_io := s, fe_files := files\<rparr>)) (file_idx_to_fd idx))))"

definition fcntl_getpath :: "i32 \<Rightarrow> vaddr \<Rightarrow> fd_env \<Rightarrow> (i32 \<times> fd_env) option" where
  "fcntl_getpath fd buf e =
     (case Option.bind (Option.bind (slot fd e) id) pf_path of
        Some path \<Rightarrow> do {
          let bytes = string_bytes path;
          let len = min (length bytes) 1023;
          let dst = bytes_at_mut (fe_mem e) buf (of_nat (len + 1));
          expect (len < slice_len dst);
          Some (0, set_fe_mem (slice_put dst 0 (take len bytes @ [0]) (fe_mem e)) e)
        }
      | None \<Rightarrow> Some (0, set_fe_mem (slice_fill0 (bytes_at_mut (fe_mem e) buf 1024) (fe_mem e)) e))"

definition fcntl :: "world \<Rightarrow> i32 \<Rightarrow> i32 \<Rightarrow> u32 \<Rightarrow> fd_env \<Rightarrow> (i32 \<times> fd_env) option" where
  "fcntl W fd cmd arg e = do {
     e \<leftarrow> fe_errno 0 e;
     (if \<not> fd <s NORMAL_FILENO_BASE \<and> slot fd e = None then failing EBADF (- 1) e
      else if fd \<in> {STDIN_FILENO, STDOUT_FILENO, STDERR_FILENO} then
        Some (if cmd = F_GETFL \<and> fd \<noteq> STDIN_FILENO then O_WRONLY else 0, e)
      else if cmd = F_GETFD then
        (case file_for_fd fd e of None \<Rightarrow> failing EBADF (- 1) e | Some file \<Rightarrow> Some (fd_flags file, e))
      else if cmd = F_SETFD then
        Some (0, case file_for_fd fd e of None \<Rightarrow> e | Some file \<Rightarrow> put_file fd (file\<lparr>fd_flags := arg\<rparr>) e)
      else if cmd = F_GETFL then
        (case file_for_fd fd e of None \<Rightarrow> failing EBADF (- 1) e | Some file \<Rightarrow> Some (status_flags file, e))
      else if cmd = F_SETFL then
        Some (0, case file_for_fd fd e of None \<Rightarrow> e
          | Some file \<Rightarrow> put_file fd (file\<lparr>status_flags := (status_flags file AND O_ACCMODE) OR (arg AND NOT O_ACCMODE)\<rparr>) e)
      else if cmd = F_GETLK then fcntl_getlk fd arg e
      else if cmd = F_SETLK \<or> cmd = F_SETLKW then fcntl_setlk fd arg e
      else if cmd = F_DUPFD then fcntl_dupfd W fd arg 0 e
      else if cmd = F_DUPFD_CLOEXEC then fcntl_dupfd W fd arg FD_CLOEXEC e
      else if cmd = F_GETPATH then fcntl_getpath fd arg e
      else if cmd \<in> set ignored_commands then Some (0, e)
      else failing EINVAL (- 1) e)
   }"

section \<open>Readiness\<close>

definition POLLIN :: i16 where "POLLIN = 1"
definition POLLOUT :: i16 where "POLLOUT = 4"
definition POLLERR :: i16 where "POLLERR = 8"
definition POLLHUP :: i16 where "POLLHUP = 0x10"
definition POLLNVAL :: i16 where "POLLNVAL = 0x20"
definition POLLRDNORM :: i16 where "POLLRDNORM = 0x40"
definition POLLWRNORM :: i16 where "POLLWRNORM = 0x100"

definition guest_file_for_fd :: "i32 \<Rightarrow> fd_env \<Rightarrow> open_file option" where
  "guest_file_for_fd fd e = map_option pf_file (file_for_fd fd e)"

definition evaluate_poll_fd :: "(i32 \<Rightarrow> i16 \<Rightarrow> i16) \<Rightarrow> i32 \<Rightarrow> i16 \<Rightarrow> fd_env \<Rightarrow> i16" where
  "evaluate_poll_fd socket_poll_events fd events e =
     (if fd <s 0 then 0
      else if fd <s NORMAL_FILENO_BASE then
        (if fd = STDOUT_FILENO \<or> fd = STDERR_FILENO then POLLOUT OR POLLWRNORM else 0) AND events
      else if is_socket fd e then socket_poll_events fd events
      else case guest_file_for_fd fd e of
        None \<Rightarrow> POLLNVAL
      | Some (Of_PipeRead p) \<Rightarrow>
          let b = io_pipes (fe_io e) ! p;
              revents = (if poll_has_data b then POLLIN OR POLLRDNORM else 0) in
          if \<not> poll_has_writers b then (revents AND events) OR POLLHUP else revents AND events
      | Some (Of_PipeWrite p) \<Rightarrow>
          if \<not> poll_has_readers (io_pipes (fe_io e) ! p) then POLLERR else (POLLOUT OR POLLWRNORM) AND events
      | Some _ \<Rightarrow> (POLLIN OR POLLOUT OR POLLRDNORM OR POLLWRNORM) AND events)"

text \<open>One scan of \<open>poll\<close> over its array: the events of each entry and how many are ready.\<close>

fun poll_scan :: "(i32 \<Rightarrow> i16 \<Rightarrow> i16) \<Rightarrow> vaddr \<Rightarrow> nat \<Rightarrow> fd_env \<Rightarrow> (i16 list \<times> i32) option" where
  "poll_scan socket_poll_events fds 0 e = Some ([], 0)"
| "poll_scan socket_poll_events fds (Suc n) e = do {
     pfd \<leftarrow> read_raw (fe_mem e) 8 fds;
     let re = evaluate_poll_fd socket_poll_events (of_le (take 4 pfd)) (of_le (take 2 (drop 4 pfd))) e;
     (rest, ready) \<leftarrow> poll_scan socket_poll_events (fds + 8) n e;
     Some (re # rest, if re \<noteq> 0 then ready + 1 else ready)
   }"

end
