(* ===== verification/FdProps.thy ===== *)
theory FdProps
  imports FdIo
begin

text \<open>
  What the calls on file descriptors promise: the buffers of pipes count the descriptors of their ends exactly, a transfer at an offset
  reads back what was written and leaves the position alone, and the list of record locks implements a map from bytes to
  locks.
\<close>

section \<open>The table and the handles\<close>

text \<open>What the accounting of handles sees of an open file, and of the state.\<close>

definition endpoint :: "open_file \<Rightarrow> open_file" where
  "endpoint f = (case f of Of_IpaBundleFile _ _ \<Rightarrow> Of_Directory | Of_ResourceFile _ _ \<Rightarrow> Of_Directory
     | Of_Random _ \<Rightarrow> Of_Directory | _ \<Rightarrow> f)"

definition endpoints :: "posix_file option list \<Rightarrow> open_file option list" where
  "endpoints files = map (map_option (\<lambda>f. endpoint (pf_file f))) files"

definition handles :: "io \<Rightarrow> (nat \<times> nat) list" where
  "handles s = map (\<lambda>b. (read_handles b, write_handles b)) (io_pipes s)"

definition same_ends :: "open_file \<Rightarrow> io \<Rightarrow> open_file \<Rightarrow> io \<Rightarrow> bool" where
  "same_ends f s f' s' \<longleftrightarrow> endpoint f' = endpoint f \<and> handles s' = handles s \<and> length (io_open s') = length (io_open s)"

definition same_view :: "fd_env \<Rightarrow> fd_env \<Rightarrow> bool" where
  "same_view e e' \<longleftrightarrow> endpoints (fe_files e') = endpoints (fe_files e) \<and> handles (fe_io e') = handles (fe_io e) \<and>
     length (io_open (fe_io e')) = length (io_open (fe_io e))"

lemma same_view_refl [simp]: "same_view e e" by (simp add: same_view_def)

lemma same_view_trans: "same_view a b \<Longrightarrow> same_view b c \<Longrightarrow> same_view a c" by (simp add: same_view_def)

lemma same_ends_refl [simp]: "same_ends f s f s" by (simp add: same_ends_def)

lemma same_ends_trans: "same_ends f s f1 s1 \<Longrightarrow> same_ends f1 s1 f2 s2 \<Longrightarrow> same_ends f s f2 s2" by (simp add: same_ends_def)

lemma fe_errno_fields:
  assumes "fe_errno v e = Some e'"
  shows "fe_files e' = fe_files e" "fe_io e' = fe_io e" "fe_fs e' = fe_fs e" "fe_bundle_path e' = fe_bundle_path e" "fe_sockets e' = fe_sockets e"
  using assms by (auto simp: fe_errno_def)

lemma failing_fields:
  assumes "failing v r e = Some (r', e')"
  shows "fe_files e' = fe_files e" "fe_io e' = fe_io e" "fe_fs e' = fe_fs e" "r' = r"
  using assms by (auto simp: failing_def dest: fe_errno_fields)

lemma fe_errno_view: "fe_errno v e = Some e' \<Longrightarrow> same_view e e'"
  by (simp add: same_view_def fe_errno_fields)

lemma failing_view: "failing v r e = Some (r', e') \<Longrightarrow> same_view e e'"
  by (simp add: same_view_def failing_fields)

lemma set_fe_mem_view [simp]: "same_view e (set_fe_mem m e') = same_view e e'"
  by (simp add: same_view_def set_fe_mem_def)

lemma fe_fs_view [simp]: "same_view e (e'\<lparr>fe_fs := x\<rparr>) = same_view e e'"
  by (simp add: same_view_def)

lemma file_for_fd_slot:
  assumes "file_for_fd fd e = Some f"
  shows "fd_to_file_idx fd < length (fe_files e)" "fe_files e ! fd_to_file_idx fd = Some f" "slot fd e = Some (Some f)"
  using assms by (auto simp: file_for_fd_def slot_def split: if_splits option.splits)

lemma put_file_view:
  assumes "file_for_fd fd e = Some f" "same_ends (pf_file f) (fe_io e) (pf_file f') s"
  shows "same_view e (put_file fd f' (e\<lparr>fe_io := s\<rparr>))"
proof -
  note i = file_for_fd_slot [OF assms(1)]
  have "endpoints ((fe_files e)[fd_to_file_idx fd := Some f']) = endpoints (fe_files e)"
    unfolding endpoints_def map_update using i assms(2) by (intro list_update_same_conv [THEN iffD2]) (simp_all add: same_ends_def)
  with assms(2) show ?thesis by (simp add: same_view_def put_file_def same_ends_def)
qed

lemma put_file_view': "file_for_fd fd e = Some f \<Longrightarrow> endpoint (pf_file f') = endpoint (pf_file f) \<Longrightarrow> same_view e (put_file fd f' e)"
  using put_file_view [of fd e f f' "fe_io e"] by (simp add: same_ends_def)

section \<open>Operations on open files keep the handles\<close>

lemma with_pipe_same:
  assumes "read_handles b = read_handles (io_pipes s ! p)" "write_handles b = write_handles (io_pipes s ! p)"
  shows "handles (with_pipe p (\<lambda>_. b) s) = handles s"
proof (cases "p < length (io_pipes s)")
  case True
  with assms show ?thesis
    unfolding handles_def with_pipe_def by (simp add: map_update) (rule list_update_same_conv [THEN iffD2], simp_all)
qed (simp add: handles_def with_pipe_def list_update_beyond not_less)

lemma set_pos_ends [simp]: "handles (set_pos d n s) = handles s" "length (io_open (set_pos d n s)) = length (io_open s)"
  by (simp_all add: set_pos_def handles_def)

lemma set_contents_ends [simp]: "handles (set_contents d bs s) = handles s" "length (io_open (set_contents d bs s)) = length (io_open s)"
  by (simp_all add: set_contents_def handles_def)

lemma File_read_ends: "File_read d n s = (r, s') \<Longrightarrow> handles s' = handles s \<and> length (io_open s') = length (io_open s)"
  by (auto simp: File_read_def Let_def split: if_splits)

lemma File_write_ends: "File_write d bs s = (r, s') \<Longrightarrow> handles s' = handles s \<and> length (io_open s') = length (io_open s)"
  by (auto simp: File_write_def Let_def split: if_splits)

lemma File_set_len_ends: "File_set_len d n s = (r, s') \<Longrightarrow> handles s' = handles s \<and> length (io_open s') = length (io_open s)"
  by (auto simp: File_set_len_def Let_def split: if_splits)

lemma gf_seek_ends: "gf_seek w f s = (r, f', s') \<Longrightarrow> same_ends f s f' s'"
  by (auto simp: gf_seek_def File_seek_def same_ends_def endpoint_def split: open_file.splits sum.splits)

lemma gf_stream_position_ends: "gf_stream_position f s = (r, f', s') \<Longrightarrow> same_ends f s f' s'"
  unfolding gf_stream_position_def by (rule gf_seek_ends)

lemma gf_stream_len_ends: "gf_stream_len f s = (r, f', s') \<Longrightarrow> same_ends f s f' s'"
  unfolding gf_stream_len_def
  by (auto split: prod.splits sum.splits dest!: gf_stream_position_ends gf_seek_ends intro: same_ends_trans)

lemma start_position_ends: "start_position w f s = (r, f', s') \<Longrightarrow> same_ends f s f' s'"
  unfolding start_position_def Let_def
  by (auto split: if_splits prod.splits dest: gf_stream_position_ends gf_stream_len_ends)

lemma pipe_read_handles: "pipe_read n b = (r, b') \<Longrightarrow> read_handles b' = read_handles b \<and> write_handles b' = write_handles b"
  by (auto simp: pipe_read_def Let_def split: if_splits)

lemma pipe_write_handles: "pipe_write bs b = (r, b') \<Longrightarrow> read_handles b' = read_handles b \<and> write_handles b' = write_handles b"
  by (auto simp: pipe_write_def split: if_splits)

lemma with_pipe_open [simp]: "length (io_open (with_pipe p g s)) = length (io_open s)" "io_open (with_pipe p g s) = io_open s"
  by (simp_all add: with_pipe_def)

lemma random_fill_ends: "random_fill W n r s = (bs, r', s') \<Longrightarrow> handles s' = handles s \<and> length (io_open s') = length (io_open s)"
  by (auto simp: random_fill_def handles_def Let_def split: if_splits option.splits prod.splits)

lemma gf_read_ends: "gf_read W n f s = (r, f', s') \<Longrightarrow> same_ends f s f' s'"
  unfolding gf_read_def
  by (auto simp: same_ends_def endpoint_def Let_def with_pipe_same
      split: open_file.splits prod.splits dest!: File_read_ends random_fill_ends pipe_read_handles)

lemma gf_write_ends: "gf_write bs f s = (r, s') \<Longrightarrow> same_ends f s f s'"
  unfolding gf_write_def
  by (auto simp: same_ends_def with_pipe_same split: open_file.splits prod.splits dest!: File_write_ends pipe_write_handles)

lemma gf_set_len_ends: "gf_set_len n f s = (r, s') \<Longrightarrow> same_ends f s f s'"
  unfolding gf_set_len_def
  by (auto simp: same_ends_def split: open_file.splits prod.splits dest!: File_set_len_ends)

section \<open>Calls that keep the table\<close>

definition keeps :: "fd_env \<Rightarrow> ('a \<times> fd_env) option \<Rightarrow> bool" where
  "keeps e m \<longleftrightarrow> (\<forall>r e'. m = Some (r, e') \<longrightarrow> same_view e e')"

lemma keeps_simps [simp]:
  "keeps e (Some x) = same_view e (snd x)" "keeps e None"
  by (cases x, auto simp: keeps_def)

lemma keeps_failing [intro]: "same_view e e' \<Longrightarrow> keeps e (failing v r e')"
  unfolding keeps_def by (metis failing_view same_view_trans)

lemma keeps_errno:
  assumes "\<And>e1. fe_errno v e = Some e1 \<Longrightarrow> same_view e e1 \<Longrightarrow> keeps e (m e1)"
  shows "keeps e (fe_errno v e \<bind> m)"
  using assms fe_errno_view by (cases "fe_errno v e") auto

lemma keeps_bind:
  assumes "keeps e m" "\<And>r e1. m = Some (r, e1) \<Longrightarrow> same_view e e1 \<Longrightarrow> keeps e (g (r, e1))"
  shows "keeps e (m \<bind> g)"
proof (cases m)
  case (Some x)
  then show ?thesis using assms by (cases x) simp
qed simp

lemma keeps_trans: "same_view e e1 \<Longrightarrow> keeps e1 m \<Longrightarrow> keeps e m"
  unfolding keeps_def using same_view_trans by blast

lemma keepsD: "keeps e m \<Longrightarrow> m = Some (r, e') \<Longrightarrow> same_view e e'"
  by (simp add: keeps_def)

text \<open>An object written back twice in a row.\<close>

lemma put_put: "put_file fd x ((put_file fd y (e\<lparr>fe_io := s\<rparr>))\<lparr>fe_io := s'\<rparr>) = put_file fd x (e\<lparr>fe_io := s'\<rparr>)"
  by (simp add: put_file_def)

lemma put_same: "file_for_fd fd e = Some fo \<Longrightarrow> same_ends (pf_file fo) (fe_io e) f s \<Longrightarrow> pf_file x = f \<Longrightarrow>
    same_view e (put_file fd x (e\<lparr>fe_io := s\<rparr>))"
  by (rule put_file_view) simp_all

lemma keeps_lseek: "keeps e (lseek fd offset whence e)"
proof (cases "file_for_fd fd e")
  case None
  then show ?thesis by (simp add: lseek_def keeps_failing)
next
  case (Some fo)
  note P = put_same [OF Some]
  obtain st f s where st: "start_position whence (pf_file fo) (fe_io e) = (st, f, s)" by (metis prod_cases3)
  note ends = start_position_ends [OF st]
  have one: "same_view e (put_file fd (fo\<lparr>pf_file := f\<rparr>) (e\<lparr>fe_io := s\<rparr>))" by (rule P [OF ends]) simp
  have two: "same_view e (put_file fd (fo\<lparr>pf_file := f'\<rparr>) (e\<lparr>fe_io := s'\<rparr>))"
    "same_view e (put_file fd (fo\<lparr>pf_file := f', reached_eof := False\<rparr>) (e\<lparr>fe_io := s'\<rparr>))"
    if "gf_seek w f s = (q, f', s')" for w q f' s'
    by (rule P [OF same_ends_trans [OF ends gf_seek_ends [OF that]]], simp)+
  show ?thesis
  proof (cases "is_seekable (pf_file fo)")
    case False
    then show ?thesis by (simp add: lseek_def Some keeps_failing)
  next
    case True
    show ?thesis
    proof (cases st)
      case (Inl err)
      with True one show ?thesis by (simp add: lseek_def Some st keeps_failing)
    next
      case (Inr start)
      obtain q f' s' where q: "gf_seek (Seek_Start (nat (int start + sint offset))) f s = (q, f', s')" by (metis prod_cases3)
      note t = two [OF q]
      show ?thesis
        unfolding lseek_def Some option.case st Inr prod.case sum.case Let_def q put_put
        using True t one
        by (cases q; simp_all only: sum.case prod.case split: if_splits) (auto simp: keeps_failing)
    qed
  qed
qed

lemma keeps_read: "keeps e (posix_read W fd buffer n e)"
  unfolding posix_read_def
proof (rule keeps_errno)
  fix e1 assume v: "same_view e e1"
  let ?buf = "bytes_at_mut (fe_mem e1) buffer n"
  show "keeps e (if buffer = 0 then Some (- 1, e1)
      else case file_for_fd fd e1 of
        None \<Rightarrow> failing EBADF (- 1) e1
      | Some fo \<Rightarrow>
          let slice = bytes_at_mut (fe_mem e1) buffer n in
          (case gf_read W (slice_len slice) (pf_file fo) (fe_io e1) of
             (Inr bytes, f, s) \<Rightarrow>
               let e = put_file fd (fo\<lparr>pf_file := f, reached_eof := (reached_eof fo \<or> bytes = [] \<and> n \<noteq> 0)\<rparr>) (e1\<lparr>fe_io := s\<rparr>) in
               Some (count_result (length bytes), set_fe_mem (slice_put slice 0 bytes (fe_mem e)) e)
           | (Inl k, f, s) \<Rightarrow>
               let e = put_file fd (fo\<lparr>pf_file := f\<rparr>) (e1\<lparr>fe_io := s\<rparr>) in
               (case k of
                  IsADirectory \<Rightarrow> failing EISDIR 0 e
                | WouldBlock \<Rightarrow> failing EAGAIN (- 1) e
                | BrokenPipe \<Rightarrow> failing EPIPE (- 1) e
                | _ \<Rightarrow> Some (- 1, e))))"
  proof (cases "buffer = 0 \<or> file_for_fd fd e1 = None")
    case True
    with v show ?thesis by (auto simp: keeps_failing)
  next
    case False
    then obtain fo where fo: "buffer \<noteq> 0" "file_for_fd fd e1 = Some fo" by blast
    obtain q f s where q: "gf_read W (slice_len ?buf) (pf_file fo) (fe_io e1) = (q, f, s)" by (metis prod_cases3)
    have P: "same_view e (put_file fd x (e1\<lparr>fe_io := s\<rparr>))" if "pf_file x = f" for x
      by (rule same_view_trans [OF v put_same [OF fo(2) gf_read_ends [OF q] that]])
    show ?thesis unfolding fo(2) option.case Let_def q prod.case using fo(1)
      by (cases q) (auto simp: P keeps_failing split: error_kind.splits)
  qed
qed

lemma io_view: "same_ends f (fe_io e) f' s \<Longrightarrow> same_view e (e\<lparr>fe_io := s\<rparr>)"
  by (simp add: same_view_def same_ends_def)

lemma keeps_write: "keeps e (posix_write fd buffer n e)"
  unfolding posix_write_def
proof (rule keeps_errno)
  fix e1 assume v: "same_view e e1"
  show "keeps e (if fd = STDOUT_FILENO \<or> fd = STDERR_FILENO then Some (n, e1)
      else case file_for_fd fd e1 of
        None \<Rightarrow> failing EBADF (- 1) e1
      | Some fo \<Rightarrow>
          (case gf_write (slice_list (fe_mem e1) (bytes_at (fe_mem e1) buffer n)) (pf_file fo) (fe_io e1) of
             (Inr n, s) \<Rightarrow> Some (count_result n, e1\<lparr>fe_io := s\<rparr>)
           | (Inl k, s) \<Rightarrow>
               (case k of
                  WouldBlock \<Rightarrow> failing EAGAIN (- 1) (e1\<lparr>fe_io := s\<rparr>)
                | BrokenPipe \<Rightarrow> failing EPIPE (- 1) (e1\<lparr>fe_io := s\<rparr>)
                | _ \<Rightarrow> Some (- 1, e1\<lparr>fe_io := s\<rparr>))))"
  proof (cases "fd = STDOUT_FILENO \<or> fd = STDERR_FILENO \<or> file_for_fd fd e1 = None")
    case True
    with v show ?thesis by (auto simp: keeps_failing)
  next
    case False
    then obtain fo where fo: "\<not> (fd = STDOUT_FILENO \<or> fd = STDERR_FILENO)" "file_for_fd fd e1 = Some fo" by blast
    obtain q s where q: "gf_write (slice_list (fe_mem e1) (bytes_at (fe_mem e1) buffer n)) (pf_file fo) (fe_io e1) = (q, s)"
      by (meson surj_pair)
    have P: "same_view e (e1\<lparr>fe_io := s\<rparr>)" by (rule same_view_trans [OF v io_view [OF gf_write_ends [OF q]]])
    show ?thesis unfolding fo(2) option.case q prod.case using fo(1) P
      by (cases q) (auto simp: keeps_failing split: error_kind.splits)
  qed
qed

lemma keeps_at_offset:
  assumes "\<And>e1. keeps e1 (transfer e1)"
  shows "keeps e (at_offset fd offset transfer e)"
  unfolding at_offset_def
proof (rule keeps_bind [OF keeps_lseek])
  fix p e1 assume v: "same_view e e1"
  show "keeps e (case (p, e1) of (original_position, e) \<Rightarrow>
      if original_position = - 1 then Some (- 1, e)
      else lseek fd offset SEEK_SET e \<bind> (\<lambda>(r, e).
        if r = - 1 then Some (- 1, e)
        else transfer e \<bind> (\<lambda>(n, e). lseek fd original_position SEEK_SET e \<bind> (\<lambda>(r, e). expect (r \<noteq> - 1) \<bind> (\<lambda>_. Some (n, e))))))"
    unfolding prod.case
  proof (cases "p = - 1")
    case False
    have "keeps e1 (lseek fd offset SEEK_SET e1 \<bind> (\<lambda>(r, e).
        if r = - 1 then Some (- 1, e)
        else transfer e \<bind> (\<lambda>(n, e). lseek fd p SEEK_SET e \<bind> (\<lambda>(r, e). expect (r \<noteq> - 1) \<bind> (\<lambda>_. Some (n, e))))))"
    proof (rule keeps_bind [OF keeps_lseek], unfold prod.case)
      fix r e2 assume v2: "same_view e1 e2"
      have "keeps e2 (transfer e2 \<bind> (\<lambda>(n, e). lseek fd p SEEK_SET e \<bind> (\<lambda>(r, e). expect (r \<noteq> - 1) \<bind> (\<lambda>_. Some (n, e)))))"
      proof (rule keeps_bind [OF assms], unfold prod.case)
        fix n e3 assume v3: "same_view e2 e3"
        have "keeps e3 (lseek fd p SEEK_SET e3 \<bind> (\<lambda>(r, e). expect (r \<noteq> - 1) \<bind> (\<lambda>_. Some (n, e))))"
          by (rule keeps_bind [OF keeps_lseek]) (simp add: bind_expect_if)
        with v3 show "keeps e2 (lseek fd p SEEK_SET e3 \<bind> (\<lambda>(r, e). expect (r \<noteq> - 1) \<bind> (\<lambda>_. Some (n, e))))" by (rule keeps_trans)
      qed
      then show "keeps e1 (if r = - 1 then Some (- 1, e2)
          else transfer e2 \<bind> (\<lambda>(n, e). lseek fd p SEEK_SET e \<bind> (\<lambda>(r, e). expect (r \<noteq> - 1) \<bind> (\<lambda>_. Some (n, e)))))"
        using v2 keeps_trans by auto
    qed
    with v False show "keeps e (if p = - 1 then Some (- 1, e1)
      else lseek fd offset SEEK_SET e1 \<bind> (\<lambda>(r, e).
        if r = - 1 then Some (- 1, e)
        else transfer e \<bind> (\<lambda>(n, e). lseek fd p SEEK_SET e \<bind> (\<lambda>(r, e). expect (r \<noteq> - 1) \<bind> (\<lambda>_. Some (n, e))))))"
      using keeps_trans by auto
  qed (use v in simp)
qed

lemma keeps_ftruncate: "keeps e (ftruncate fd len e)"
  unfolding ftruncate_def
proof (rule keeps_errno)
  fix e1 assume v: "same_view e e1"
  show "keeps e (case file_for_fd fd e1 of None \<Rightarrow> failing EBADF (- 1) e1
      | Some fo \<Rightarrow> (case gf_set_len (unat len) (pf_file fo) (fe_io e1) of
             (Inr _, s) \<Rightarrow> Some (0, e1\<lparr>fe_io := s\<rparr>)
           | (Inl _, s) \<Rightarrow> Some (- 1, e1\<lparr>fe_io := s\<rparr>)))"
    using v by (auto simp: keeps_failing split: option.split prod.split sum.split
        intro: same_view_trans [OF v io_view [OF gf_set_len_ends]])
qed

lemma keeps_writev_from: "keeps e (writev_from fd iov iovcnt i w e)"
proof (induction fd iov iovcnt i w e rule: writev_from.induct)
  case (1 fd iov iovcnt i w e)
  show ?case
  proof (cases "i = iovcnt \<or> read_raw (fe_mem e) 8 (iov + 8 * i) = None")
    case True
    then show ?thesis by (subst writev_from.simps) auto
  next
    case False
    then obtain iovec where r: "i \<noteq> iovcnt" "read_raw (fe_mem e) 8 (iov + 8 * i) = Some iovec" by blast
    have "keeps e (posix_write fd (of_le (take 4 iovec)) (of_le (drop 4 iovec)) e \<bind> (\<lambda>(n, e).
        if n = - 1 then Some (- 1, e) else writev_from fd iov iovcnt (i + 1) (w + n) e))"
    proof (rule keeps_bind [OF keeps_write], unfold prod.case)
      fix n e1 assume a: "posix_write fd (of_le (take 4 iovec)) (of_le (drop 4 iovec)) e = Some (n, e1)" "same_view e e1"
      show "keeps e (if n = - 1 then Some (- 1, e1) else writev_from fd iov iovcnt (i + 1) (w + n) e1)"
      proof (cases "n = - 1")
        case False
        have "keeps e1 (writev_from fd iov iovcnt (i + 1) (w + n) e1)"
          by (rule 1 [OF r a(1) refl False])
        with False a(2) show ?thesis by (simp add: keeps_trans)
      qed (use a(2) in simp)
    qed
    with r show ?thesis by (subst writev_from.simps) simp
  qed
qed

lemma put_view: "file_for_fd fd e1 = Some fo \<Longrightarrow> same_view e e1 \<Longrightarrow> pf_file x = pf_file fo \<Longrightarrow> same_view e (put_file fd x e1)"
  using put_file_view' [of fd e1 fo x] same_view_trans by auto

lemma keeps_flock: "keeps e (flock fd operation e)"
  unfolding flock_def
proof (rule keeps_errno)
  fix e1 assume v: "same_view e e1"
  show "keeps e (case file_for_fd fd e1 of None \<Rightarrow> failing EBADF (- 1) e1
      | Some fo \<Rightarrow>
          let op = operation AND NOT LOCK_NB in
          if op = LOCK_UN then Some (0, put_file fd (fo\<lparr>flock_state := None\<rparr>) e1)
          else if op = LOCK_SH then Some (0, put_file fd (fo\<lparr>flock_state := Some F_RDLCK\<rparr>) e1)
          else if op = LOCK_EX then Some (0, put_file fd (fo\<lparr>flock_state := Some F_WRLCK\<rparr>) e1)
          else failing EINVAL (- 1) e1)"
    using v by (cases "file_for_fd fd e1") (auto simp: Let_def keeps_failing put_view)
qed

lemma lock_start_view:
  assumes "lock_start fd lock e = (r, e')"
  shows "same_view e e'"
proof (cases "file_for_fd fd e")
  case None
  with assms show ?thesis by (auto simp: lock_start_def Let_def split: if_splits)
next
  case (Some fo)
  obtain q f s where q: "(if (scast (fl_whence lock) :: i32) = SEEK_CUR then gf_stream_position (pf_file fo) (fe_io e)
      else gf_stream_len (pf_file fo) (fe_io e)) = (q, f, s)" by (metis prod_cases3)
  then have "same_ends (pf_file fo) (fe_io e) f s" using gf_stream_position_ends gf_stream_len_ends by (metis)
  then have v: "same_view e (put_file fd (fo\<lparr>pf_file := f\<rparr>) (e\<lparr>fe_io := s\<rparr>))" by (rule put_same [OF Some]) simp
  have "e' = e \<or> e' = put_file fd (fo\<lparr>pf_file := f\<rparr>) (e\<lparr>fe_io := s\<rparr>)"
    using assms unfolding lock_start_def Some option.case q Let_def prod.case by (auto split: if_splits)
  with v show ?thesis by auto
qed

lemma resolve_lock_range_view: "resolve_lock_range fd lock e = (r, e') \<Longrightarrow> same_view e e'"
  by (auto simp: resolve_lock_range_def split: if_splits prod.splits sum.splits dest: lock_start_view)

lemma keeps_getlk: "keeps e (fcntl_getlk fd p e)"
proof (cases "read_raw (fe_mem e) 24 p")
  case (Some bs)
  obtain r e1 where r: "resolve_lock_range fd (flock_of bs) e = (r, e1)" by (meson surj_pair)
  note v = resolve_lock_range_view [OF r]
  show ?thesis unfolding fcntl_getlk_def using v
    by (cases r; cases "write_raw p (take 20 bs @ le_bytes 2 F_UNLCK @ drop 22 bs) (fe_mem e1)") (simp_all add: Some r keeps_failing)
qed (simp add: fcntl_getlk_def)

lemma keeps_setlk: "keeps e (fcntl_setlk fd p e)"
proof (cases "read_raw (fe_mem e) 24 p")
  case (Some bs)
  obtain r e1 where r: "resolve_lock_range fd (flock_of bs) e = (r, e1)" by (meson surj_pair)
  note v = resolve_lock_range_view [OF r]
  show ?thesis unfolding fcntl_setlk_def using v
    by (cases r; cases "file_for_fd fd e1") (simp_all add: Some r keeps_failing put_view)
qed (simp add: fcntl_setlk_def)

lemma keeps_getpath: "keeps e (fcntl_getpath fd buf e)"
  unfolding fcntl_getpath_def by (cases "Option.bind (Option.bind (slot fd e) id) pf_path") (simp_all add: Let_def bind_expect_if)

lemma keeps_fcntl:
  assumes "cmd \<noteq> F_DUPFD" "cmd \<noteq> F_DUPFD_CLOEXEC"
  shows "keeps e (fcntl W fd cmd arg e)"
  unfolding fcntl_def
proof (rule keeps_errno)
  fix e1 assume v: "same_view e e1"
  note T = keeps_trans [OF v]
  show "keeps e (if \<not> fd <s NORMAL_FILENO_BASE \<and> slot fd e1 = None then failing EBADF (- 1) e1
      else if fd \<in> {STDIN_FILENO, STDOUT_FILENO, STDERR_FILENO} then
        Some (if cmd = F_GETFL \<and> fd \<noteq> STDIN_FILENO then O_WRONLY else 0, e1)
      else if cmd = F_GETFD then
        (case file_for_fd fd e1 of None \<Rightarrow> failing EBADF (- 1) e1 | Some fo \<Rightarrow> Some (fd_flags fo, e1))
      else if cmd = F_SETFD then
        Some (0, case file_for_fd fd e1 of None \<Rightarrow> e1 | Some fo \<Rightarrow> put_file fd (fo\<lparr>fd_flags := arg\<rparr>) e1)
      else if cmd = F_GETFL then
        (case file_for_fd fd e1 of None \<Rightarrow> failing EBADF (- 1) e1 | Some fo \<Rightarrow> Some (status_flags fo, e1))
      else if cmd = F_SETFL then
        Some (0, case file_for_fd fd e1 of None \<Rightarrow> e1
          | Some fo \<Rightarrow> put_file fd (fo\<lparr>status_flags := (status_flags fo AND O_ACCMODE) OR (arg AND NOT O_ACCMODE)\<rparr>) e1)
      else if cmd = F_GETLK then fcntl_getlk fd arg e1
      else if cmd = F_SETLK \<or> cmd = F_SETLKW then fcntl_setlk fd arg e1
      else if cmd = F_DUPFD then fcntl_dupfd W fd arg 0 e1
      else if cmd = F_DUPFD_CLOEXEC then fcntl_dupfd W fd arg FD_CLOEXEC e1
      else if cmd = F_GETPATH then fcntl_getpath fd arg e1
      else if cmd \<in> set ignored_commands then Some (0, e1)
      else failing EINVAL (- 1) e1)"
    using assms v by (cases "file_for_fd fd e1")
      (auto simp: keeps_failing put_view T [OF keeps_getlk] T [OF keeps_setlk] T [OF keeps_getpath] simp del: set_simps)
qed

section \<open>Counting the descriptors of an end\<close>

definition open_as :: "open_file \<Rightarrow> posix_file option list \<Rightarrow> nat" where
  "open_as x files = count_list (endpoints files) (Some x)"

definition reference_ok :: "open_file \<Rightarrow> io \<Rightarrow> bool" where
  "reference_ok x s = (case x of Of_File d \<Rightarrow> d < length (io_open s) | Of_PipeRead p \<Rightarrow> p < length (io_pipes s)
     | Of_PipeWrite p \<Rightarrow> p < length (io_pipes s) | _ \<Rightarrow> True)"

definition accounted :: "posix_file option list \<Rightarrow> io \<Rightarrow> bool" where
  "accounted files s \<longleftrightarrow> (\<forall>x. 0 < open_as x files \<longrightarrow> reference_ok x s) \<and>
     (\<forall>p < length (io_pipes s). handles s ! p = (open_as (Of_PipeRead p) files, open_as (Of_PipeWrite p) files))"

definition fd_ok :: "fd_env \<Rightarrow> bool" where
  "fd_ok e \<longleftrightarrow> accounted (fe_files e) (fe_io e)"

lemma handles_length [simp]: "length (handles s) = length (io_pipes s)" by (simp add: handles_def)

lemma fd_ok_view:
  assumes v: "same_view e e'" and ok: "fd_ok e"
  shows "fd_ok e'"
proof -
  have p: "length (io_pipes (fe_io e')) = length (io_pipes (fe_io e))"
    using v handles_length by (metis same_view_def)
  then have "reference_ok x (fe_io e') = reference_ok x (fe_io e)" for x
    using v by (simp add: same_view_def reference_ok_def split: open_file.split)
  moreover have "open_as x (fe_files e') = open_as x (fe_files e)" for x using v by (simp add: same_view_def open_as_def)
  ultimately show ?thesis using v ok p by (simp add: same_view_def fd_ok_def accounted_def)
qed

lemma fd_ok_keeps: "keeps e m \<Longrightarrow> m = Some (r, e') \<Longrightarrow> fd_ok e \<Longrightarrow> fd_ok e'"
  by (rule fd_ok_view [OF keepsD])

lemma count_list_update:
  "i < length xs \<Longrightarrow> count_list (xs[i := y]) x + (if xs ! i = x then 1 else 0) = count_list xs x + (if y = x then 1 else 0)"
proof (induction xs arbitrary: i)
  case (Cons a xs)
  show ?case
  proof (cases i)
    case (Suc j)
    with Cons.IH [of j] Cons.prems show ?thesis by auto
  qed simp
qed simp

lemma reference_ok_mono:
  "reference_ok x s \<Longrightarrow> length (io_pipes s) \<le> length (io_pipes s') \<Longrightarrow> length (io_open s) \<le> length (io_open s') \<Longrightarrow> reference_ok x s'"
  by (simp add: reference_ok_def split: open_file.splits)

definition adds :: "open_file \<Rightarrow> posix_file option list \<Rightarrow> posix_file option list \<Rightarrow> bool" where
  "adds f files files' \<longleftrightarrow> (\<forall>x. open_as x files' = open_as x files + (if x = endpoint f then 1 else 0))"

lemma adds_update:
  assumes "i < length files" "files ! i = None"
  shows "adds (pf_file f) files (files[i := Some f])"
  unfolding adds_def
proof
  fix x
  have "endpoints files ! i = None" using assms by (simp add: endpoints_def)
  with count_list_update [of i "endpoints files" "Some (endpoint (pf_file f))" "Some x"] assms
  show "open_as x (files[i := Some f]) = open_as x files + (if x = endpoint (pf_file f) then 1 else 0)"
    by (simp add: open_as_def endpoints_def map_update)
qed

lemma adds_append: "adds (pf_file f) files (files @ replicate n None @ [Some f])"
proof -
  have "count_list (endpoints (replicate n None)) (Some x) = 0" for x by (simp add: endpoints_def count_list_0_iff)
  then show ?thesis by (auto simp: adds_def open_as_def) (simp_all add: endpoints_def)
qed

lemma first_free:
  fixes xs :: "'a option list"
  defines "n \<equiv> length (takeWhile (\<lambda>f. f \<noteq> None) xs)"
  shows "n < length xs \<Longrightarrow> xs ! n = None" "i < n \<Longrightarrow> xs ! i \<noteq> None"
proof -
  show "xs ! n = None" if "n < length xs"
    using nth_length_takeWhile [of "\<lambda>f. f \<noteq> None" xs] that by (simp add: n_def)
  show "xs ! i \<noteq> None" if i: "i < n"
  proof -
    have "takeWhile (\<lambda>f. f \<noteq> None) xs ! i \<in> set (takeWhile (\<lambda>f. f \<noteq> None) xs)" using i by (simp add: n_def)
    then have "takeWhile (\<lambda>f. f \<noteq> None) xs ! i \<noteq> None" by (rule set_takeWhileD [THEN conjunct2])
    with i show ?thesis by (simp add: n_def takeWhile_nth)
  qed
qed

lemma find_or_create_adds:
  assumes "find_or_create_fd f e = Some (fd, e')"
  shows "adds (pf_file f) (fe_files e) (fe_files e')" "fe_io e' = fe_io e"
proof -
  let ?n = "length (takeWhile (\<lambda>f. f \<noteq> None) (fe_files e))"
  have e': "fe_files e' = (if ?n < length (fe_files e) then (fe_files e)[?n := Some f] else fe_files e @ [Some f])"
    and "fe_io e' = fe_io e" using assms by (auto simp: find_or_create_fd_def Let_def)
  then show "fe_io e' = fe_io e" by simp
  show "adds (pf_file f) (fe_files e) (fe_files e')"
    unfolding e' using adds_update [of ?n "fe_files e" f] first_free(1) [of "fe_files e"] adds_append [of f "fe_files e" 0] by auto
qed

lemma place_from_adds:
  assumes "place_from k f files = (idx, files')"
  shows "adds (pf_file f) files files'"
proof -
  let ?n = "length (takeWhile (\<lambda>f. f \<noteq> None) (drop k files))"
  have "?n < length (drop k files) \<Longrightarrow> drop k files ! ?n = None" by (rule first_free)
  then have "k + ?n < length files \<Longrightarrow> files ! (k + ?n) = None" by (simp add: less_diff_conv add.commute)
  with assms adds_update [of "k + ?n" files f] adds_append [of f files] adds_append [of f files 0] show ?thesis
    by (auto simp: place_from_def Let_def split: if_splits)
qed

text \<open>A new descriptor for an end whose handle was counted already.\<close>

lemma accounted_add:
  assumes "accounted files s" "adds f files files'" "reference_ok (endpoint f) s'"
    "length (io_pipes s) \<le> length (io_pipes s')" "length (io_open s) \<le> length (io_open s')"
    "\<And>p. p < length (io_pipes s') \<Longrightarrow> handles s' ! p =
       (if p < length (io_pipes s) then (fst (handles s ! p) + (if endpoint f = Of_PipeRead p then 1 else 0),
          snd (handles s ! p) + (if endpoint f = Of_PipeWrite p then 1 else 0))
        else (if endpoint f = Of_PipeRead p then 1 else 0, if endpoint f = Of_PipeWrite p then 1 else 0))"
  shows "accounted files' s'"
  unfolding accounted_def
proof (intro conjI allI impI)
  fix x assume "0 < open_as x files'"
  then have "0 < open_as x files \<or> x = endpoint f" using assms(2) by (auto simp: adds_def split: if_splits)
  then show "reference_ok x s'"
  proof
    assume "0 < open_as x files"
    then have "reference_ok x s" using assms(1) by (simp add: accounted_def)
    then show ?thesis using assms(4,5) by (rule reference_ok_mono)
  qed (use assms(3) in simp)
next
  fix p assume p: "p < length (io_pipes s')"
  have zero: "open_as (Of_PipeRead p) files = 0 \<and> open_as (Of_PipeWrite p) files = 0" if "\<not> p < length (io_pipes s)"
    using assms(1) that by (auto simp: accounted_def reference_ok_def)
  show "handles s' ! p = (open_as (Of_PipeRead p) files', open_as (Of_PipeWrite p) files')"
  proof (cases "p < length (io_pipes s)")
    case True
    with assms(1) have "handles s ! p = (open_as (Of_PipeRead p) files, open_as (Of_PipeWrite p) files)" by (simp add: accounted_def)
    with True assms(2) assms(6) [OF p] show ?thesis by (simp add: adds_def)
  next
    case False
    with zero assms(2) assms(6) [OF p] show ?thesis by (simp add: adds_def)
  qed
qed

section \<open>Calls that change the table\<close>

lemma handles_simps [simp]:
  "handles (s\<lparr>io_host := h\<rparr>) = handles s" "handles (s\<lparr>io_random := n\<rparr>) = handles s" "handles (s\<lparr>io_open := ds\<rparr>) = handles s"
  by (simp_all add: handles_def)

lemma accounted_more:
  assumes "accounted files s" "handles s' = handles s" "length (io_open s) \<le> length (io_open s')"
  shows "accounted files s'"
proof -
  have "length (io_pipes s') = length (io_pipes s)" using assms(2) handles_length by metis
  with assms reference_ok_mono [of _ s s'] show ?thesis by (auto simp: accounted_def)
qed

text \<open>A new file that is no end of a pipe.\<close>

lemma accounted_add_file:
  assumes "accounted files s" "adds f files files'" "reference_ok (endpoint f) s" "\<forall>p. endpoint f \<noteq> Of_PipeRead p \<and> endpoint f \<noteq> Of_PipeWrite p"
  shows "accounted files' s"
proof (rule accounted_add [OF assms(1,2,3)])
  fix p assume p: "p < length (io_pipes s)"
  have "handles s ! p = (fst (handles s ! p), snd (handles s ! p))" by simp
  with p assms(4) show "handles s ! p =
       (if p < length (io_pipes s) then (fst (handles s ! p) + (if endpoint f = Of_PipeRead p then 1 else 0),
          snd (handles s ! p) + (if endpoint f = Of_PipeWrite p then 1 else 0))
        else (if endpoint f = Of_PipeRead p then 1 else 0, if endpoint f = Of_PipeWrite p then 1 else 0))" by auto
qed simp_all

lemma find_or_create_ok:
  assumes "find_or_create_fd f e = Some (fd, e')" "fd_ok e" "reference_ok (endpoint (pf_file f)) (fe_io e)"
    "\<forall>p. endpoint (pf_file f) \<noteq> Of_PipeRead p \<and> endpoint (pf_file f) \<noteq> Of_PipeWrite p"
  shows "fd_ok e'"
  using accounted_add_file [OF _ find_or_create_adds(1) [OF assms(1)] assms(3,4)] assms(2) find_or_create_adds(2) [OF assms(1)]
  by (simp add: fd_ok_def)

lemma opened_ok:
  assumes "opened W g s = (f, s')"
  shows "handles s' = handles s" "length (io_open s) \<le> length (io_open s')" "reference_ok (endpoint f) s'"
    "\<forall>p. endpoint f \<noteq> Of_PipeRead p \<and> endpoint f \<noteq> Of_PipeWrite p"
  using assms by (auto simp: opened_def reference_ok_def endpoint_def split: guest_file.splits)

lemma open_resolved_ok:
  assumes "open_resolved W path options flags e = Some (fd, e')" "fd_ok e"
  shows "fd_ok e'"
proof -
  obtain x where x: "open_with_options (w_ipa W) (\<lambda>n. w_resource W n \<noteq> None) path options (fe_fs e) (io_host (fe_io e)) = Some x"
  proof (cases "open_with_options (w_ipa W) (\<lambda>n. w_resource W n \<noteq> None) path options (fe_fs e) (io_host (fe_io e))")
    case None
    have "open_resolved W path options flags e = None" unfolding open_resolved_def None by (simp only: bind.bind_lzero)
    with assms(1) show ?thesis by simp
  qed
  obtain g fs1 h1 where "x = (g, fs1, h1)" by (rule prod_cases3)
  with x have o: "open_with_options (w_ipa W) (\<lambda>n. w_resource W n \<noteq> None) path options (fe_fs e) (io_host (fe_io e)) = Some (g, fs1, h1)"
    by simp
  let ?e = "e\<lparr>fe_fs := fs1, fe_io := (fe_io e)\<lparr>io_host := h1\<rparr>\<rparr>"
  have acc: "accounted (fe_files e) ((fe_io e)\<lparr>io_host := h1\<rparr>)"
    using assms(2) by - (rule accounted_more [of _ "fe_io e"], simp_all add: fd_ok_def)
  show ?thesis
  proof (cases g)
    case None
    with assms(1) acc show ?thesis unfolding open_resolved_def o by (auto simp: fd_ok_def)
  next
    case (Some gf)
    obtain f s where f: "opened W gf ((fe_io e)\<lparr>io_host := h1\<rparr>) = (f, s)" by (meson surj_pair)
    note O = opened_ok [OF f]
    have ok: "fd_ok (?e\<lparr>fe_io := s\<rparr>)" using accounted_more [OF acc, of s] O(1,2) by (simp add: fd_ok_def)
    have found: "find_or_create_fd ((new_posix_file f (kept_flags flags))\<lparr>needs_flush := o_write options, pf_path := Some path\<rparr>) (?e\<lparr>fe_io := s\<rparr>) = Some (fd, e')"
      using assms(1) Some f unfolding open_resolved_def o by simp
    show ?thesis by (rule find_or_create_ok [OF found ok]) (use O(3,4) in \<open>simp_all add: new_posix_file_def\<close>)
  qed
qed

lemma open_random_ok:
  assumes "open_random W path flags e = Some (fd, e')" "fd_ok e"
  shows "fd_ok e'"
proof -
  obtain r s where r: "RandomFile_new W (fe_io e) = (r, s)" by (meson surj_pair)
  then have s: "s = (fe_io e)\<lparr>io_random := io_random (fe_io e) + 1\<rparr>" by (simp add: RandomFile_new_def)
  have "accounted (fe_files e) s" using assms(2) unfolding s by - (rule accounted_more [of _ "fe_io e"], simp_all add: fd_ok_def)
  then have "fd_ok (e\<lparr>fe_io := s\<rparr>)" by (simp add: fd_ok_def)
  moreover have "find_or_create_fd ((new_posix_file (Of_Random r) (kept_flags flags))\<lparr>pf_path := Some path\<rparr>) (e\<lparr>fe_io := s\<rparr>) = Some (fd, e')"
    using assms(1) r by (simp add: open_random_def)
  ultimately show ?thesis by - (rule find_or_create_ok [of _ "e\<lparr>fe_io := s\<rparr>"], assumption+, simp_all add: new_posix_file_def endpoint_def reference_ok_def)
qed

definition leaves_ok :: "('a \<times> fd_env) option \<Rightarrow> bool" where
  "leaves_ok m \<longleftrightarrow> (\<forall>r e'. m = Some (r, e') \<longrightarrow> fd_ok e')"

lemma leaves_ok_simps [simp]: "leaves_ok (Some x) = fd_ok (snd x)" "leaves_ok None"
  by (cases x, auto simp: leaves_ok_def)

lemma leaves_ok_bind: "(\<And>x. m = Some x \<Longrightarrow> leaves_ok (g x)) \<Longrightarrow> leaves_ok (m \<bind> g)"
  by (cases m) simp_all

lemma leaves_okD: "leaves_ok m \<Longrightarrow> m = Some (r, e') \<Longrightarrow> fd_ok e'"
  by (simp add: leaves_ok_def)

lemma leaves_ok_keeps: "keeps e m \<Longrightarrow> fd_ok e \<Longrightarrow> leaves_ok m"
  unfolding leaves_ok_def using fd_ok_keeps by metis

lemma leaves_ok_failing: "fd_ok e \<Longrightarrow> leaves_ok (failing k v e)"
  by (rule leaves_ok_keeps [OF keeps_failing [OF same_view_refl]])

lemma open_flock_ok: "fd_ok e \<Longrightarrow> leaves_ok ((if b then map_option snd (flock fd k e) else Some e) \<bind> (\<lambda>e. Some (fd, e)))"
proof (rule leaves_ok_bind)
  fix x assume ok: "fd_ok e" and x: "(if b then map_option snd (flock fd k e) else Some e) = Some x"
  have "fd_ok x"
  proof (cases b)
    case True
    with x obtain r where "flock fd k e = Some (r, x)" by auto
    with ok show ?thesis using fd_ok_keeps [OF keeps_flock] by metis
  qed (use ok x in simp)
  then show "leaves_ok (Some (fd, x))" by simp
qed

lemma leaves_ok_choice:
  "(\<And>r. leaves_ok (G r)) \<Longrightarrow> leaves_ok F \<Longrightarrow> leaves_ok (m \<bind> (\<lambda>r. cl r \<bind> (\<lambda>c. if c then F else G r)))"
  by (rule leaves_ok_bind, rule leaves_ok_bind) simp

lemma open_then_flock_ok:
  assumes "fd_ok e"
  shows "leaves_ok (open_resolved W p opts flags e \<bind> (\<lambda>(fd, e).
      (if fd \<noteq> - 1 \<and> flags AND O_SHLOCK \<noteq> 0 then map_option snd (flock fd LOCK_SH e) else Some e) \<bind> (\<lambda>e. Some (fd, e))))"
proof (rule leaves_ok_bind)
  fix x assume x: "open_resolved W p opts flags e = Some x"
  obtain fd e1 where [simp]: "x = (fd, e1)" by (rule prod.exhaust)
  have "fd_ok e1" using open_resolved_ok [OF _ assms] x by simp
  then show "leaves_ok (case x of (fd, e) \<Rightarrow>
      (if fd \<noteq> - 1 \<and> flags AND O_SHLOCK \<noteq> 0 then map_option snd (flock fd LOCK_SH e) else Some e) \<bind> (\<lambda>e. Some (fd, e)))"
    unfolding \<open>x = (fd, e1)\<close> prod.case by (rule open_flock_ok)
qed

lemma open_random_leaves: "fd_ok e \<Longrightarrow> leaves_ok (open_random W p flags e)"
  by (simp add: leaves_ok_def open_random_ok)

lemma open_direct_ok:
  assumes ok: "fd_ok e"
  shows "leaves_ok (open_direct W path flags e)"
proof (cases "path = 0")
  case True
  show ?thesis unfolding open_direct_def if_P [OF True] using ok by simp
next
  case path: False
  show ?thesis
  proof (cases "access_options flags")
    case None
    show ?thesis unfolding open_direct_def if_not_P [OF path] None option.case by (rule leaves_ok_failing [OF ok])
  next
    case opts: (Some options)
    show ?thesis
    proof (cases "cstr_at_utf8 (fe_mem e) path")
      case None
      show ?thesis unfolding open_direct_def if_not_P [OF path] None opts option.case Let_def using ok by simp
    next
      case (Some bs)
      show ?thesis
      proof (cases "utf8_string bs = ''/dev/urandom'' \<or> utf8_string bs = ''/dev/random''")
        case True
        show ?thesis
          unfolding open_direct_def if_not_P [OF path] opts Some option.case Let_def if_P [OF True]
          by (rule open_random_leaves [OF ok])
      next
        case False
        show ?thesis
          unfolding open_direct_def if_not_P [OF path] opts Some option.case Let_def if_not_P [OF False]
          by (rule leaves_ok_choice) (rule open_then_flock_ok [OF ok], rule leaves_ok_failing [OF ok])
      qed
    qed
  qed
qed

lemma posix_open_ok: "fd_ok e \<Longrightarrow> leaves_ok (posix_open W path flags e)"
  unfolding posix_open_def by (rule leaves_ok_bind) (rule open_direct_ok [OF fd_ok_view [OF fe_errno_view]])

lemma creat_ok: "fd_ok e \<Longrightarrow> leaves_ok (creat W path e)"
  unfolding creat_def by (rule open_direct_ok)

lemma endpoint_pipes [simp]:
  "endpoint f = Of_PipeRead p \<longleftrightarrow> f = Of_PipeRead p" "endpoint f = Of_PipeWrite p \<longleftrightarrow> f = Of_PipeWrite p"
  by (cases f; simp add: endpoint_def)+

lemma handles_with_pipe:
  "q < length (io_pipes s) \<Longrightarrow> handles (with_pipe p g s) ! q =
     (if q = p then (read_handles (g (io_pipes s ! p)), write_handles (g (io_pipes s ! p))) else handles s ! q)"
  by (simp add: handles_def with_pipe_def nth_list_update)

lemma with_pipe_length [simp]: "length (io_pipes (with_pipe p g s)) = length (io_pipes s)"
  by (simp add: with_pipe_def)

lemma handles_nth: "p < length (io_pipes s) \<Longrightarrow> handles s ! p = (read_handles (io_pipes s ! p), write_handles (io_pipes s ! p))"
  by (simp add: handles_def)

text \<open>Closing a descriptor takes one away.\<close>

lemma close_slot_counts:
  assumes "i < length files" "files ! i = Some f"
  shows "open_as x files = open_as x (files[i := None]) + (if x = endpoint (pf_file f) then 1 else 0)"
proof -
  have "endpoints files ! i = Some (endpoint (pf_file f))" using assms by (simp add: endpoints_def)
  with count_list_update [of i "endpoints files" None "Some x"] assms
  show ?thesis by (auto simp: open_as_def endpoints_def map_update)
qed

lemma close_slot_ok:
  assumes ok: "accounted files s" and i: "i < length files" "files ! i = Some f"
  shows "accounted (files[i := None]) (gf_close_pipe_endpoint (pf_file f) s)"
proof -
  let ?s = "gf_close_pipe_endpoint (pf_file f) s"
  note C = close_slot_counts [OF i]
  have len: "length (io_pipes ?s) = length (io_pipes s)" "length (io_open ?s) = length (io_open s)"
    by (simp_all add: gf_close_pipe_endpoint_def split: open_file.splits)
  show ?thesis
    unfolding accounted_def
  proof (intro conjI allI impI)
    fix x assume "0 < open_as x (files[i := None])"
    then have "0 < open_as x files" using C [of x] by simp
    with ok have "reference_ok x s" by (simp add: accounted_def)
    then show "reference_ok x ?s" by (rule reference_ok_mono) (simp_all add: len)
  next
    fix p assume "p < length (io_pipes ?s)"
    then have p: "p < length (io_pipes s)" by (simp add: len)
    then have h: "read_handles (io_pipes s ! p) = open_as (Of_PipeRead p) files" "write_handles (io_pipes s ! p) = open_as (Of_PipeWrite p) files"
      using ok handles_nth [OF p] by (simp_all add: accounted_def)
    have "handles ?s ! p = (read_handles (io_pipes s ! p) - (if pf_file f = Of_PipeRead p then 1 else 0),
        write_handles (io_pipes s ! p) - (if pf_file f = Of_PipeWrite p then 1 else 0))"
      using p by (auto simp: gf_close_pipe_endpoint_def handles_with_pipe handles_nth [OF p] split: open_file.splits)
    then show "handles ?s ! p = (open_as (Of_PipeRead p) (files[i := None]), open_as (Of_PipeWrite p) (files[i := None]))"
      unfolding h using C [of "Of_PipeRead p"] C [of "Of_PipeWrite p"] by (auto simp: eq_commute [of _ "endpoint (pf_file f)"])
  qed
qed

lemma posix_close_ok:
  assumes "fd_ok e"
  shows "leaves_ok (posix_close fd e)"
proof (cases "fd <s 0 \<or> fd <s NORMAL_FILENO_BASE")
  case True
  with assms show ?thesis by (auto simp: posix_close_def leaves_ok_failing)
next
  case fd: False
  show ?thesis
  proof (cases "\<exists>f. slot fd e = Some (Some f)")
    case False
    then have "posix_close fd e = failing EBADF (- 1) e" using fd by (auto simp: posix_close_def split: option.splits)
    then show ?thesis by (simp add: leaves_ok_failing [OF assms])
  next
    case True
    then obtain f where f: "slot fd e = Some (Some f)" by blast
    then have i: "fd_to_file_idx fd < length (fe_files e)" "fe_files e ! fd_to_file_idx fd = Some f"
      by (auto simp: slot_def split: if_splits)
    have "accounted ((fe_files e)[fd_to_file_idx fd := None]) (gf_close_pipe_endpoint (pf_file f) (fe_io e))"
      using assms by (intro close_slot_ok i) (simp add: fd_ok_def)
    then show ?thesis using fd by (cases "pf_file f = Of_Socket") (simp_all add: posix_close_def f Let_def fd_ok_def)
  qed
qed

text \<open>A new pipe with its two descriptors.\<close>

lemma adds_zero: "adds f files files' \<Longrightarrow> x \<noteq> endpoint f \<Longrightarrow> open_as x files' = open_as x files"
  by (simp add: adds_def)

lemma pipe_ok:
  assumes ok: "fd_ok e"
  shows "leaves_ok (pipe fds e)"
proof (cases "fds = 0")
  case True
  then show ?thesis by (simp add: pipe_def leaves_ok_failing [OF ok])
next
  case False
  define n where "n = length (io_pipes (fe_io e))"
  define s where "s = (fe_io e)\<lparr>io_pipes := io_pipes (fe_io e) @ [PipeBuffer_new]\<rparr>"
  let ?e = "e\<lparr>fe_io := s\<rparr>"
  have fresh: "open_as (Of_PipeRead n) (fe_files e) = 0" "open_as (Of_PipeWrite n) (fe_files e) = 0"
    using ok by (auto simp: fd_ok_def accounted_def reference_ok_def n_def)
  have s: "length (io_pipes s) = Suc n" "length (io_open s) = length (io_open (fe_io e))"
    "handles s = handles (fe_io e) @ [(1, 1)]" by (simp_all add: s_def n_def handles_def PipeBuffer_new_def)
  have acc: "fd_ok e2" if 1: "find_or_create_pipe_read_fd n ?e = Some (r, e1)" and 2: "find_or_create_pipe_write_fd n e1 = Some (w, e2)" for r w e1 e2
  proof -
    note A = find_or_create_adds [OF 1 [unfolded find_or_create_pipe_read_fd_def]]
    note B = find_or_create_adds [OF 2 [unfolded find_or_create_pipe_write_fd_def]]
    have count: "open_as x (fe_files e2) = open_as x (fe_files e) + (if x = Of_PipeRead n \<or> x = Of_PipeWrite n then 1 else 0)" for x
      using A(1) B(1) by (auto simp: adds_def new_posix_file_def endpoint_def)
    have io: "fe_io e2 = s" using A(2) B(2) by simp
    show ?thesis
      unfolding fd_ok_def accounted_def io
    proof (intro conjI allI impI)
      fix x assume "0 < open_as x (fe_files e2)"
      then have "0 < open_as x (fe_files e) \<or> x = Of_PipeRead n \<or> x = Of_PipeWrite n" by (auto simp: count split: if_splits)
      then show "reference_ok x s"
      proof
        assume "0 < open_as x (fe_files e)"
        with ok have "reference_ok x (fe_io e)" by (simp add: fd_ok_def accounted_def)
        then show ?thesis by (rule reference_ok_mono) (simp_all add: s n_def)
      qed (auto simp: reference_ok_def s)
    next
      fix p assume p: "p < length (io_pipes s)"
      show "handles s ! p = (open_as (Of_PipeRead p) (fe_files e2), open_as (Of_PipeWrite p) (fe_files e2))"
      proof (cases "p = n")
        case True
        then show ?thesis using fresh by (simp add: s nth_append count) (simp add: n_def)
      next
        case False
        with p have "p < n" by (simp add: s)
        then show ?thesis using ok False by (simp add: s nth_append count) (simp add: n_def fd_ok_def accounted_def)
      qed
    qed
  qed
  have d: "pipe fds e = do {
      (read_fd, e) \<leftarrow> find_or_create_pipe_read_fd n ?e;
      (write_fd, e) \<leftarrow> find_or_create_pipe_write_fd n e;
      m \<leftarrow> write_u32 fds read_fd (fe_mem e);
      m \<leftarrow> write_u32 (fds + 4) write_fd m;
      failing 0 0 (set_fe_mem m e)
    }" using False by (simp add: pipe_def Let_def n_def s_def)
  show ?thesis
    unfolding d
  proof (rule leaves_ok_bind)
    fix x assume x: "find_or_create_pipe_read_fd n ?e = Some x"
    obtain r e1 where [simp]: "x = (r, e1)" by (rule prod.exhaust)
    show "leaves_ok (case x of (read_fd, e) \<Rightarrow> find_or_create_pipe_write_fd n e \<bind> (\<lambda>(write_fd, e).
        write_u32 fds read_fd (fe_mem e) \<bind> (\<lambda>m. write_u32 (fds + 4) write_fd m \<bind> (\<lambda>m. failing 0 0 (set_fe_mem m e)))))"
      unfolding \<open>x = (r, e1)\<close> prod.case
    proof (rule leaves_ok_bind)
      fix y assume y: "find_or_create_pipe_write_fd n e1 = Some y"
      obtain w e2 where [simp]: "y = (w, e2)" by (rule prod.exhaust)
      have "fd_ok e2" using acc x y by simp
      then have "fd_ok (set_fe_mem m e2)" for m by (simp add: fd_ok_def set_fe_mem_def)
      then show "leaves_ok (case y of (write_fd, e) \<Rightarrow>
          write_u32 fds r (fe_mem e) \<bind> (\<lambda>m. write_u32 (fds + 4) write_fd m \<bind> (\<lambda>m. failing 0 0 (set_fe_mem m e))))"
        unfolding \<open>y = (w, e2)\<close> prod.case by (intro leaves_ok_bind leaves_ok_failing)
    qed
  qed
qed

lemma try_clone_same:
  assumes "gf_try_clone W f s = (Inl k, s')"
  shows "s' = s"
  using assms by (auto simp: gf_try_clone_def split: open_file.splits prod.splits)

lemma try_clone_accounted:
  assumes c: "gf_try_clone W f s = (Inr g, s')" and ok: "accounted files s" and a: "adds g files files'" and r: "reference_ok (endpoint f) s"
  shows "accounted files' s'"
proof -
  have len: "length (io_pipes s') = length (io_pipes s)" "length (io_open s') = length (io_open s)" and e: "endpoint g = endpoint f"
    using c by (auto simp: gf_try_clone_def RandomFile_new_def endpoint_def split: open_file.splits)
  have h: "handles s' ! p = (fst (handles s ! p) + (if endpoint g = Of_PipeRead p then 1 else 0),
      snd (handles s ! p) + (if endpoint g = Of_PipeWrite p then 1 else 0))" if p: "p < length (io_pipes s)" for p
  proof (cases f)
    case (Of_PipeRead q)
    with c p show ?thesis by (cases "q = p") (auto simp: gf_try_clone_def handles_with_pipe handles_nth [OF p])
  next
    case (Of_PipeWrite q)
    with c p show ?thesis by (cases "q = p") (auto simp: gf_try_clone_def handles_with_pipe handles_nth [OF p])
  qed (use c in \<open>auto simp: gf_try_clone_def RandomFile_new_def\<close>)
  show ?thesis
  proof (rule accounted_add [OF ok a])
    show "reference_ok (endpoint g) s'" unfolding e by (rule reference_ok_mono [OF r]) (simp_all add: len)
  qed (simp_all add: len h)
qed

lemma open_reference_ok:
  assumes "fd_ok e" "file_for_fd fd e = Some f"
  shows "reference_ok (endpoint (pf_file f)) (fe_io e)"
proof -
  note i = file_for_fd_slot [OF assms(2)]
  have "Some (endpoint (pf_file f)) \<in> set (endpoints (fe_files e))" using i unfolding endpoints_def by (force simp: in_set_conv_nth)
  then have "open_as (endpoint (pf_file f)) (fe_files e) \<noteq> 0" by (simp add: open_as_def count_list_0_iff)
  with assms(1) show ?thesis by (simp add: fd_ok_def accounted_def)
qed

lemma dupfd_ok:
  assumes ok: "fd_ok e"
  shows "leaves_ok (fcntl_dupfd W fd min_fd flags e)"
proof (cases "file_for_fd fd e")
  case None
  then show ?thesis by (simp add: fcntl_dupfd_def leaves_ok_failing [OF ok])
next
  case (Some f)
  obtain c s where c: "gf_try_clone W (pf_file f) (fe_io e) = (c, s)" by (meson surj_pair)
  show ?thesis
  proof (cases c)
    case (Inl k)
    with c have "s = fe_io e" using try_clone_same by blast
    then show ?thesis using ok by (simp add: fcntl_dupfd_def Some c Inl leaves_ok_failing)
  next
    case (Inr g)
    let ?f = "(new_posix_file g (status_flags f))\<lparr>fd_flags := flags, pf_path := pf_path f\<rparr>"
    let ?m = "if \<not> min_fd <s NORMAL_FILENO_BASE then fd_to_file_idx min_fd else 0"
    obtain i files where p: "place_from ?m ?f (fe_files e) = (i, files)" by (meson surj_pair)
    have "accounted files s"
      using try_clone_accounted [OF c [unfolded Inr], of "fe_files e" files] place_from_adds [OF p] ok open_reference_ok [OF ok Some]
      by (simp add: fd_ok_def new_posix_file_def)
    then show ?thesis
      unfolding fcntl_dupfd_def Some option.case c Inr prod.case sum.case Let_def p by (cases "file_idx_to_fd i") (simp_all add: fd_ok_def)
  qed
qed

lemma fcntl_ok:
  assumes ok: "fd_ok e"
  shows "leaves_ok (fcntl W fd cmd arg e)"
proof (cases "cmd = F_DUPFD \<or> cmd = F_DUPFD_CLOEXEC")
  case False
  then show ?thesis using leaves_ok_keeps [OF keeps_fcntl ok] by blast
next
  case cmd: True
  show ?thesis
    unfolding fcntl_def
  proof (rule leaves_ok_bind)
    fix e1 assume "fe_errno 0 e = Some e1"
    then have ok1: "fd_ok e1" using fd_ok_view fe_errno_view ok by blast
    have F: "cmd \<noteq> F_GETFD" "cmd \<noteq> F_SETFD" "cmd \<noteq> F_GETFL" "cmd \<noteq> F_SETFL" "cmd \<noteq> F_GETLK" "cmd \<noteq> F_SETLK" "cmd \<noteq> F_SETLKW"
      using cmd by (auto simp: F_DUPFD_def F_DUPFD_CLOEXEC_def F_GETFD_def F_SETFD_def F_GETFL_def F_SETFL_def F_GETLK_def F_SETLK_def F_SETLKW_def)
    show "leaves_ok (if \<not> fd <s NORMAL_FILENO_BASE \<and> slot fd e1 = None then failing EBADF (- 1) e1
      else if fd \<in> {STDIN_FILENO, STDOUT_FILENO, STDERR_FILENO} then
        Some (if cmd = F_GETFL \<and> fd \<noteq> STDIN_FILENO then O_WRONLY else 0, e1)
      else if cmd = F_GETFD then
        (case file_for_fd fd e1 of None \<Rightarrow> failing EBADF (- 1) e1 | Some fo \<Rightarrow> Some (fd_flags fo, e1))
      else if cmd = F_SETFD then
        Some (0, case file_for_fd fd e1 of None \<Rightarrow> e1 | Some fo \<Rightarrow> put_file fd (fo\<lparr>fd_flags := arg\<rparr>) e1)
      else if cmd = F_GETFL then
        (case file_for_fd fd e1 of None \<Rightarrow> failing EBADF (- 1) e1 | Some fo \<Rightarrow> Some (status_flags fo, e1))
      else if cmd = F_SETFL then
        Some (0, case file_for_fd fd e1 of None \<Rightarrow> e1
          | Some fo \<Rightarrow> put_file fd (fo\<lparr>status_flags := (status_flags fo AND O_ACCMODE) OR (arg AND NOT O_ACCMODE)\<rparr>) e1)
      else if cmd = F_GETLK then fcntl_getlk fd arg e1
      else if cmd = F_SETLK \<or> cmd = F_SETLKW then fcntl_setlk fd arg e1
      else if cmd = F_DUPFD then fcntl_dupfd W fd arg 0 e1
      else if cmd = F_DUPFD_CLOEXEC then fcntl_dupfd W fd arg FD_CLOEXEC e1
      else if cmd = F_GETPATH then fcntl_getpath fd arg e1
      else if cmd \<in> set ignored_commands then Some (0, e1)
      else failing EINVAL (- 1) e1)"
      using cmd ok1 F by (auto simp: leaves_ok_failing dupfd_ok simp del: set_simps)
  qed
qed

lemma keeps_getcwd: "keeps e (getcwd buf n e)"
  unfolding getcwd_def
proof (cases "is_dir (working_directory (fe_fs e)) (fe_fs e)")
  case (Some d)
  show "keeps e (is_dir (working_directory (fe_fs e)) (fe_fs e) \<bind> (\<lambda>d.
      if \<not> d then Some (0, e)
      else let bytes = string_bytes (working_directory (fe_fs e)) in
        if buf = 0 then alloc_and_write_cstr bytes (fe_mem e) \<bind> (\<lambda>(p, m). Some (p, set_fe_mem m e))
        else let res_size = (if length bytes < 2 ^ 32 then of_nat (length bytes) else 0) + 1 in
          if n < res_size then Some (0, e)
          else let b = bytes_at_mut (fe_mem e) buf res_size in
            expect (length bytes = unat (res_size - 1)) \<bind> (\<lambda>_. expect (length bytes < slice_len b) \<bind>
              (\<lambda>_. Some (buf, set_fe_mem (slice_put b 0 (bytes @ [0]) (fe_mem e)) e)))))"
    unfolding Some by (cases "alloc_and_write_cstr (string_bytes (working_directory (fe_fs e))) (fe_mem e)")
      (auto simp: Let_def bind_expect_if split: prod.split)
qed simp

lemma keeps_chdir: "keeps e (chdir W p e)"
  unfolding chdir_def
proof (rule keeps_errno)
  fix e1 assume v: "same_view e e1"
  define s where "s = (case cstr_at_utf8 (fe_mem e1) p of Some bs \<Rightarrow> utf8_string bs | None \<Rightarrow> [])"
  have "keeps e (resolve_existing_guest_path W e1 s \<bind> (\<lambda>r.
      change_working_directory (w_lower W) (case r of Some p \<Rightarrow> p | None \<Rightarrow> s) (fe_fs e1) \<bind> (\<lambda>(new, fs1).
        Some (case new of Some _ \<Rightarrow> 0 | None \<Rightarrow> (- 1 :: i32), e1\<lparr>fe_fs := fs1\<rparr>))))"
    using v by (cases "resolve_existing_guest_path W e1 s") (auto split: bind_split prod.split)
  then show "keeps e (let path_str = case cstr_at_utf8 (fe_mem e1) p of Some bs \<Rightarrow> utf8_string bs | None \<Rightarrow> [] in
      if path_str = [] then failing ENOENT (- 1 :: i32) e1
      else resolve_existing_guest_path W e1 path_str \<bind> (\<lambda>r.
        change_working_directory (w_lower W) (case r of Some p \<Rightarrow> p | None \<Rightarrow> path_str) (fe_fs e1) \<bind> (\<lambda>(new, fs1).
          Some (case new of Some _ \<Rightarrow> 0 | None \<Rightarrow> - 1, e1\<lparr>fe_fs := fs1\<rparr>))))"
    unfolding s_def [symmetric] Let_def using v by (auto simp: keeps_failing)
qed

lemma truncate_ok:
  assumes ok: "fd_ok e"
  shows "leaves_ok (truncate_path W p len e)"
  unfolding truncate_path_def
proof (rule leaves_ok_bind)
  fix e1 assume "fe_errno 0 e = Some e1"
  then have ok1: "fd_ok e1" using fd_ok_view fe_errno_view ok by blast
  have "leaves_ok (open_direct W p O_WRONLY e1 \<bind> (\<lambda>(fd, e). if fd <s 0 then Some (- 1, e)
      else ftruncate fd len e \<bind> (\<lambda>(res, e). posix_close fd e \<bind> (\<lambda>(_, e). Some (res, e)))))"
  proof (rule leaves_ok_bind)
    fix x assume x: "open_direct W p O_WRONLY e1 = Some x"
    obtain fd e2 where [simp]: "x = (fd, e2)" by (rule prod.exhaust)
    have ok2: "fd_ok e2" using leaves_okD [OF open_direct_ok [OF ok1]] x by simp
    have "leaves_ok (ftruncate fd len e2 \<bind> (\<lambda>(res, e). posix_close fd e \<bind> (\<lambda>(_, e). Some (res, e))))"
    proof (rule leaves_ok_bind)
      fix y assume y: "ftruncate fd len e2 = Some y"
      obtain r e3 where [simp]: "y = (r, e3)" by (rule prod.exhaust)
      have ok3: "fd_ok e3" using fd_ok_keeps [OF keeps_ftruncate] y ok2 by simp
      show "leaves_ok (case y of (res, e) \<Rightarrow> posix_close fd e \<bind> (\<lambda>(_, e). Some (res, e)))"
        unfolding \<open>y = (r, e3)\<close> prod.case
      proof (rule leaves_ok_bind)
        fix z assume "posix_close fd e3 = Some z"
        then have "fd_ok (snd z)" using leaves_okD [OF posix_close_ok [OF ok3]] by (metis prod.collapse)
        then show "leaves_ok (case z of (_, e) \<Rightarrow> Some (r, e))" by (cases z) simp
      qed
    qed
    then show "leaves_ok (case x of (fd, e) \<Rightarrow> if fd <s 0 then Some (- 1, e)
      else ftruncate fd len e \<bind> (\<lambda>(res, e). posix_close fd e \<bind> (\<lambda>(_, e). Some (res, e))))"
      using ok2 by simp
  qed
  then show "leaves_ok (case cstr_at_utf8 (fe_mem e1) p of None \<Rightarrow> Some (- 1, e1)
      | Some _ \<Rightarrow> open_direct W p O_WRONLY e1 \<bind> (\<lambda>(fd, e). if fd <s 0 then Some (- 1, e)
        else ftruncate fd len e \<bind> (\<lambda>(res, e). posix_close fd e \<bind> (\<lambda>(_, e). Some (res, e)))))"
    using ok1 by (simp split: option.split)
qed

section \<open>Histories of calls\<close>

datatype fd_call =
    Call_open vaddr i32 | Call_creat vaddr | Call_close i32 | Call_pipe vaddr
  | Call_read i32 vaddr u32 | Call_pread i32 vaddr u32 i64 | Call_write i32 vaddr u32 | Call_pwrite i32 vaddr u32 i64
  | Call_writev i32 vaddr i32 | Call_lseek i32 i64 i32 | Call_fcntl i32 i32 u32 | Call_flock i32 i32 | Call_fsync i32
  | Call_fflush i32 | Call_ftruncate i32 i64 | Call_truncate vaddr i64 | Call_getcwd vaddr u32 | Call_chdir vaddr

fun fd_exec :: "world \<Rightarrow> fd_call \<Rightarrow> fd_env \<Rightarrow> fd_env option" where
  "fd_exec W (Call_open path flags) e = map_option snd (posix_open W path flags e)"
| "fd_exec W (Call_creat path) e = map_option snd (creat W path e)"
| "fd_exec W (Call_close fd) e = map_option snd (posix_close fd e)"
| "fd_exec W (Call_pipe fds) e = map_option snd (pipe fds e)"
| "fd_exec W (Call_read fd buf n) e = map_option snd (posix_read W fd buf n e)"
| "fd_exec W (Call_pread fd buf n off) e = map_option snd (pread W fd buf n off e)"
| "fd_exec W (Call_write fd buf n) e = map_option snd (posix_write fd buf n e)"
| "fd_exec W (Call_pwrite fd buf n off) e = map_option snd (pwrite fd buf n off e)"
| "fd_exec W (Call_writev fd iov n) e = map_option snd (writev fd iov n e)"
| "fd_exec W (Call_lseek fd off wh) e = map_option snd (lseek fd off wh e)"
| "fd_exec W (Call_fcntl fd cmd arg) e = map_option snd (fcntl W fd cmd arg e)"
| "fd_exec W (Call_flock fd op) e = map_option snd (flock fd op e)"
| "fd_exec W (Call_fsync fd) e = map_option snd (fsync fd e)"
| "fd_exec W (Call_fflush fd) e = map_option snd (fflush fd e)"
| "fd_exec W (Call_ftruncate fd len) e = map_option snd (ftruncate fd len e)"
| "fd_exec W (Call_truncate path len) e = map_option snd (truncate_path W path len e)"
| "fd_exec W (Call_getcwd buf n) e = map_option snd (getcwd buf n e)"
| "fd_exec W (Call_chdir path) e = map_option snd (chdir W path e)"

fun fd_run :: "world \<Rightarrow> fd_call list \<Rightarrow> fd_env \<Rightarrow> fd_env option" where
  "fd_run W [] e = Some e"
| "fd_run W (c # rest) e = Option.bind (fd_exec W c e) (fd_run W rest)"

lemma keeps_fsync: "keeps e (fsync fd e)"
  by (auto simp: fsync_def keeps_failing split: option.splits sum.splits error_kind.splits)

lemma keeps_fflush: "keeps e (fflush fd e)"
  unfolding fflush_def by (rule keeps_errno) simp

lemma leaves_ok_snd: "leaves_ok m \<Longrightarrow> map_option snd m = Some e' \<Longrightarrow> fd_ok e'"
  using leaves_okD by fastforce

lemma keeps_snd: "keeps e m \<Longrightarrow> fd_ok e \<Longrightarrow> map_option snd m = Some e' \<Longrightarrow> fd_ok e'"
  by (rule leaves_ok_snd [OF leaves_ok_keeps])

lemma fd_exec_ok:
  assumes "fd_exec W c e = Some e'" "fd_ok e"
  shows "fd_ok e'"
  using assms
proof (cases c)
  case Call_open with assms show ?thesis using leaves_ok_snd [OF posix_open_ok] by simp
next
  case Call_creat with assms show ?thesis using leaves_ok_snd [OF creat_ok] by simp
next
  case Call_close with assms show ?thesis using leaves_ok_snd [OF posix_close_ok] by simp
next
  case Call_pipe with assms show ?thesis using leaves_ok_snd [OF pipe_ok] by simp
next
  case Call_read with assms show ?thesis using keeps_snd [OF keeps_read] by simp
next
  case Call_pread with assms show ?thesis using keeps_snd [OF keeps_at_offset [OF keeps_read]] by (simp add: pread_def)
next
  case Call_write with assms show ?thesis using keeps_snd [OF keeps_write] by simp
next
  case Call_pwrite with assms show ?thesis using keeps_snd [OF keeps_at_offset [OF keeps_write]] by (simp add: pwrite_def)
next
  case Call_writev with assms show ?thesis using keeps_snd [OF keeps_writev_from] by (simp add: writev_def)
next
  case Call_lseek with assms show ?thesis using keeps_snd [OF keeps_lseek] by simp
next
  case Call_fcntl with assms show ?thesis using leaves_ok_snd [OF fcntl_ok] by simp
next
  case Call_flock with assms show ?thesis using keeps_snd [OF keeps_flock] by simp
next
  case Call_fsync with assms show ?thesis using keeps_snd [OF keeps_fsync] by simp
next
  case Call_fflush with assms show ?thesis using keeps_snd [OF keeps_fflush] by simp
next
  case Call_ftruncate with assms show ?thesis using keeps_snd [OF keeps_ftruncate] by simp
next
  case Call_truncate with assms show ?thesis using leaves_ok_snd [OF truncate_ok] by simp
next
  case Call_getcwd with assms show ?thesis using keeps_snd [OF keeps_getcwd] by simp
next
  case Call_chdir with assms show ?thesis using keeps_snd [OF keeps_chdir] by simp
qed

lemma fd_run_ok: "fd_run W calls e = Some e' \<Longrightarrow> fd_ok e \<Longrightarrow> fd_ok e'"
proof (induction calls arbitrary: e)
  case (Cons c calls)
  then obtain e1 where "fd_exec W c e = Some e1" "fd_run W calls e1 = Some e'" by (cases "fd_exec W c e") simp_all
  with Cons fd_exec_ok show ?case by blast
qed simp

text \<open>The descriptors that are open on an end, as the program sees them.\<close>

definition fds_open_on :: "open_file \<Rightarrow> fd_env \<Rightarrow> nat list" where
  "fds_open_on x e = filter (\<lambda>i. \<exists>f. fe_files e ! i = Some f \<and> pf_file f = x) [0..<length (fe_files e)]"

lemma open_as_filter:
  assumes "\<And>f. endpoint f = x \<longleftrightarrow> f = x"
  shows "open_as x files = length (filter (\<lambda>i. \<exists>f. files ! i = Some f \<and> pf_file f = x) [0..<length files])"
proof (induction files rule: rev_induct)
  case (snoc a files)
  have "filter (\<lambda>i. \<exists>f. (files @ [a]) ! i = Some f \<and> pf_file f = x) [0..<length files] =
      filter (\<lambda>i. \<exists>f. files ! i = Some f \<and> pf_file f = x) [0..<length files]"
    by (rule filter_cong) (simp_all add: nth_append)
  moreover have "open_as x (files @ [a]) = open_as x files + (if \<exists>f. a = Some f \<and> pf_file f = x then 1 else 0)"
    using assms by (cases a) (auto simp: open_as_def endpoints_def)
  ultimately show ?case using snoc by auto
qed (simp add: open_as_def endpoints_def)

text \<open>
  C10: The ends of every pipe are counted exactly.  Starting from a table without descriptors and without pipes, let a program make any
  of the calls of \<open>fd_call\<close> (opening, closing, pipes, transfers, seeking, \<open>fcntl\<close> with its duplicates and locks, resizing, the working
  directory), in any order and with any arguments, as long as no call panics.  Then the buffer of a pipe
  counts as readers and as writers exactly the open descriptors of its two ends, duplicates included; no descriptor refers
  to a pipe or to a description of the host that does not exist; reading from an empty pipe reports the end of the file exactly
  when no descriptor of its writing end is open, and writing fails as broken exactly when none of its reading end is.
\<close>

theorem pipe_ends_counted:
  assumes "fd_run W calls e = Some e'" and "fe_files e = []" and "io_pipes (fe_io e) = []"
  shows "(\<forall>p < length (io_pipes (fe_io e')). read_handles (io_pipes (fe_io e') ! p) = length (fds_open_on (Of_PipeRead p) e') \<and>
      write_handles (io_pipes (fe_io e') ! p) = length (fds_open_on (Of_PipeWrite p) e')) \<and>
    (\<forall>fd f. file_for_fd fd e' = Some f \<longrightarrow> (case pf_file f of Of_PipeRead p \<Rightarrow> p < length (io_pipes (fe_io e'))
      | Of_PipeWrite p \<Rightarrow> p < length (io_pipes (fe_io e')) | Of_File d \<Rightarrow> d < length (io_open (fe_io e')) | _ \<Rightarrow> True)) \<and>
    (\<forall>p n. p < length (io_pipes (fe_io e')) \<and> pipe_bytes (io_pipes (fe_io e') ! p) = [] \<and> 0 < n \<longrightarrow>
      (fst (pipe_read n (io_pipes (fe_io e') ! p)) = Inr [] \<longleftrightarrow> fds_open_on (Of_PipeWrite p) e' = [])) \<and>
    (\<forall>p bs. p < length (io_pipes (fe_io e')) \<longrightarrow>
      (fst (pipe_write bs (io_pipes (fe_io e') ! p)) = Inl BrokenPipe \<longleftrightarrow> fds_open_on (Of_PipeRead p) e' = []))"
proof -
  have "fd_ok e" using assms(2,3) by (simp add: fd_ok_def accounted_def open_as_def endpoints_def)
  with assms(1) have ok: "fd_ok e'" by (rule fd_run_ok)
  have R: "open_as (Of_PipeRead p) (fe_files e') = length (fds_open_on (Of_PipeRead p) e')"
    and W: "open_as (Of_PipeWrite p) (fe_files e') = length (fds_open_on (Of_PipeWrite p) e')" for p
    unfolding fds_open_on_def by (rule open_as_filter, simp)+
  have counts: "read_handles (io_pipes (fe_io e') ! p) = length (fds_open_on (Of_PipeRead p) e')"
    "write_handles (io_pipes (fe_io e') ! p) = length (fds_open_on (Of_PipeWrite p) e')" if p: "p < length (io_pipes (fe_io e'))" for p
    using ok p R W handles_nth [OF p] by (simp_all add: fd_ok_def accounted_def)
  have refs: "case pf_file f of Of_PipeRead p \<Rightarrow> p < length (io_pipes (fe_io e'))
      | Of_PipeWrite p \<Rightarrow> p < length (io_pipes (fe_io e')) | Of_File d \<Rightarrow> d < length (io_open (fe_io e')) | _ \<Rightarrow> True"
    if "file_for_fd fd e' = Some f" for fd f
    using open_reference_ok [OF ok that] by (simp add: reference_ok_def endpoint_def split: open_file.splits)
  show ?thesis
    using counts refs by (auto simp: pipe_read_def pipe_write_def)
qed

text \<open>A state for the witnesses: one thread with its \<open>errno\<close> at a fixed place, and nothing open.\<close>

definition plain_env :: "fd_env \<Rightarrow> bool" where
  "plain_env e \<longleftrightarrow> null_segment_size (fe_mem e) = 4096 \<and> errnos (fe_env e) = (\<lambda>_. Some 0x8000)"

lemma write_u32_plain:
  assumes "null_segment_size m = 4096" "4096 \<le> p" "unat p + 4 \<le> BYTES_LEN"
  obtains m1 where "write_u32 p v m = Some m1" "null_segment_size m1 = 4096" "mem_bytes m1 = poke (unat p) (le_bytes 4 v) (mem_bytes m)"
proof -
  have "le_bytes 4 v \<noteq> []" using length_le_bytes [of 4 v] by fastforce
  with assms have "write_u32 p v m = Some (m\<lparr>mem_bytes := poke (unat p) (le_bytes 4 v) (mem_bytes m)\<rparr>)"
    unfolding write_u32_def by (subst write_raw_array) (auto simp: not_less)
  with assms(1) that show thesis by simp
qed

lemma plain_errno:
  assumes "plain_env e"
  obtains e1 where "fe_errno v e = Some e1" "plain_env e1" "mem_bytes (fe_mem e1) = poke 0x8000 (le_bytes 4 v) (mem_bytes (fe_mem e))"
proof -
  have b: "unat (0x8000 :: u32) + 4 \<le> BYTES_LEN" by (rule BYTES_LEN_ge) simp
  obtain m1 where m: "write_u32 0x8000 v (fe_mem e) = Some m1" "null_segment_size m1 = 4096"
      "mem_bytes m1 = poke 0x8000 (le_bytes 4 v) (mem_bytes (fe_mem e))"
    by (rule write_u32_plain [where m = "fe_mem e" and p = "0x8000" and v = v]) (use assms b in \<open>simp_all add: plain_env_def\<close>)
  then have "fe_errno v e = Some (e\<lparr>fe_env := (fe_env e)\<lparr>env_mem := m1\<rparr>\<rparr>)"
    using assms by (simp add: fe_errno_def set_errno_def errno_ptr_for_thread_def plain_env_def fe_mem_def)
  with m assms that show thesis by (simp add: plain_env_def fe_mem_def)
qed

lemma plain_update [simp]: "plain_env (e\<lparr>fe_io := s\<rparr>) = plain_env e" "plain_env (e\<lparr>fe_files := fs\<rparr>) = plain_env e" "plain_env (put_file fd f e) = plain_env e"
  by (simp_all add: plain_env_def fe_mem_def put_file_def)

definition empty_fd_env :: fd_env where
  "empty_fd_env = \<lparr>fe_env = \<lparr>env_mem = the (load_mem 4096), mutex_st = \<lparr>mutexes = (\<lambda>_. None), mutex_count = 0\<rparr>, semaphores = (\<lambda>_. None),
       semaphore_next = 0, named_semaphores = (\<lambda>_. None), open_semaphores = (\<lambda>_. None), condition_variables = (\<lambda>_. None),
       threads = [], current_thread = 0, errnos = (\<lambda>_. Some 0x8000)\<rparr>,
     fe_fs = new_fake_fs, fe_io = \<lparr>io_host = [], io_open = [], io_pipes = [], io_random = 0\<rparr>, fe_files = [], fe_bundle_path = [], fe_sockets = []\<rparr>"

text \<open>A host with an empty archive, no resources, and no source of random bytes.\<close>

definition quiet_world :: world where
  "quiet_world = \<lparr>w_ipa = (\<lambda>_. []), w_resource = (\<lambda>_. None), w_lower = (\<lambda>s. s), w_urandom = (\<lambda>_ _. None), w_seed = (\<lambda>_. 1), w_has_urandom = False\<rparr>"

lemma plain_empty: "plain_env empty_fd_env"
  by (simp add: plain_env_def empty_fd_env_def fe_mem_def loaded(4))

lemma pipe_plain:
  assumes "plain_env e" "fe_files e = []" "io_pipes (fe_io e) = []" "4096 \<le> fds" "unat fds + 8 \<le> 2 ^ 32"
  obtains e1 where "pipe fds e = Some (0, e1)" "plain_env e1" "fe_files e1 = [Some (new_posix_file (Of_PipeRead 0) O_RDONLY), Some (new_posix_file (Of_PipeWrite 0) O_WRONLY)]"
    "io_pipes (fe_io e1) = [PipeBuffer_new]"
proof -
  let ?e = "e\<lparr>fe_io := (fe_io e)\<lparr>io_pipes := [PipeBuffer_new]\<rparr>, fe_files := [Some (new_posix_file (Of_PipeRead 0) O_RDONLY), Some (new_posix_file (Of_PipeWrite 0) O_WRONLY)]\<rparr>"
  have u: "unat (fds + 4) = unat fds + 4" using assms(5) by (subst unat_plus_u32) simp_all
  have b: "unat fds + 4 \<le> BYTES_LEN" "unat (fds + 4) + 4 \<le> BYTES_LEN" "4096 \<le> fds + 4" "fds \<noteq> 0"
    using assms(4,5) u by (auto simp: BYTES_LEN_def word_le_nat_alt)
  have n: "null_segment_size (fe_mem e) = 4096" using assms(1) by (simp add: plain_env_def)
  obtain m1 where m1: "write_u32 fds 3 (fe_mem e) = Some m1" "null_segment_size m1 = 4096"
    by (rule write_u32_plain [where m = "fe_mem e" and p = fds and v = 3]) (use n assms(4) b in auto)
  obtain m2 where m2: "write_u32 (fds + 4) 4 m1 = Some m2" "null_segment_size m2 = 4096"
    by (rule write_u32_plain [where m = m1 and p = "fds + 4" and v = 4]) (use m1 b in auto)
  have p: "plain_env (set_fe_mem m2 ?e)" using m2 assms(1) by (simp add: plain_env_def set_fe_mem_def fe_mem_def)
  obtain e1 where e1: "fe_errno 0 (set_fe_mem m2 ?e) = Some e1" "plain_env e1" by (rule plain_errno [OF p])
  have "pipe fds e = map_option (Pair 0) (fe_errno 0 (set_fe_mem m2 ?e))"
    using b m1 m2 assms(2,3) by (simp add: pipe_def find_or_create_pipe_read_fd_def find_or_create_pipe_write_fd_def find_or_create_fd_def
        file_idx_to_fd_def NORMAL_FILENO_BASE_def Let_def failing_def fe_mem_def)
  with e1 fe_errno_fields [OF e1(1)] that [of e1] show thesis by (simp add: set_fe_mem_def)
qed

theorem pipe_ends_counted_witness:
  "\<exists>e'. fd_run quiet_world [Call_pipe 0x9000, Call_close 4] empty_fd_env = Some e' \<and>
     fst (pipe_read 5 (io_pipes (fe_io e') ! 0)) = Inr []"
proof -
  obtain e1 where e1: "pipe 0x9000 empty_fd_env = Some (0, e1)" "plain_env e1"
      "fe_files e1 = [Some (new_posix_file (Of_PipeRead 0) O_RDONLY), Some (new_posix_file (Of_PipeWrite 0) O_WRONLY)]"
      "io_pipes (fe_io e1) = [PipeBuffer_new]"
    by (rule pipe_plain [where fds = "0x9000", OF plain_empty]) (simp_all add: empty_fd_env_def)
  define e2 where "e2 = e1\<lparr>fe_files := [Some (new_posix_file (Of_PipeRead 0) O_RDONLY), None],
    fe_io := gf_close_pipe_endpoint (Of_PipeWrite 0) (fe_io e1)\<rparr>"
  have "posix_close 4 e1 = Some (0, e2)"
    by (simp add: posix_close_def slot_def fd_to_file_idx_def NORMAL_FILENO_BASE_def word_sless_alt e1(3) e2_def new_posix_file_def Let_def)
  then have run: "fd_run quiet_world [Call_pipe 0x9000, Call_close 4] empty_fd_env = Some e2" by (simp add: e1(1))
  have io: "io_pipes (fe_io e2) = [PipeBuffer_new\<lparr>write_handles := 0\<rparr>]"
    by (simp add: e2_def gf_close_pipe_endpoint_def with_pipe_def e1(4) PipeBuffer_new_def)
  have "fds_open_on (Of_PipeWrite 0) e2 = []" by (simp add: fds_open_on_def e2_def new_posix_file_def)
  then have "fst (pipe_read 5 (io_pipes (fe_io e2) ! 0)) = Inr []"
    using pipe_ends_counted [OF run, THEN conjunct2, THEN conjunct2, THEN conjunct1, rule_format, of 0 5] io
    by (simp add: empty_fd_env_def PipeBuffer_new_def)
  with run show ?thesis by blast
qed

section \<open>Transfers at an offset\<close>

definition errno_at :: "vaddr \<Rightarrow> fd_env \<Rightarrow> bool" where
  "errno_at q e \<longleftrightarrow> errnos (fe_env e) (current_thread (fe_env e)) = Some q \<and> null_segment_size (fe_mem e) \<le> q \<and> unat q + 4 \<le> BYTES_LEN"

definition errno_word :: "vaddr \<Rightarrow> nat set" where
  "errno_word q = {unat q..<unat q + 4}"

lemma errno_set:
  assumes "errno_at q e"
  obtains e1 where "fe_errno v e = Some e1" "errno_at q e1" "\<forall>i. i \<notin> errno_word q \<longrightarrow> mem_bytes (fe_mem e1) i = mem_bytes (fe_mem e) i"
    "null_segment_size (fe_mem e1) = null_segment_size (fe_mem e)"
proof -
  let ?m = "(fe_mem e)\<lparr>mem_bytes := poke (unat q) (le_bytes 4 v) (mem_bytes (fe_mem e))\<rparr>"
  have "le_bytes 4 v \<noteq> []" using length_le_bytes [of 4 v] by fastforce
  with assms have "write_u32 q v (fe_mem e) = Some ?m"
    unfolding write_u32_def errno_at_def by (subst write_raw_array) (auto simp: not_less)
  then have e1: "fe_errno v e = Some (e\<lparr>fe_env := (fe_env e)\<lparr>env_mem := ?m\<rparr>\<rparr>)"
    using assms by (simp add: fe_errno_def set_errno_def errno_ptr_for_thread_def errno_at_def fe_mem_def)
  show thesis
  proof (rule that [OF e1])
    show "\<forall>i. i \<notin> errno_word q \<longrightarrow> mem_bytes (fe_mem (e\<lparr>fe_env := (fe_env e)\<lparr>env_mem := ?m\<rparr>\<rparr>)) i = mem_bytes (fe_mem e) i"
      by (auto simp: fe_mem_def poke_def errno_word_def)
  qed (use assms in \<open>simp_all add: errno_at_def fe_mem_def\<close>)
qed

lemma errno_at_update [simp]: "errno_at q (e\<lparr>fe_io := s\<rparr>) = errno_at q e" "errno_at q (put_file fd f e) = errno_at q e"
  by (simp_all add: errno_at_def fe_mem_def put_file_def)

lemma fe_mem_update [simp]: "fe_mem (e\<lparr>fe_io := s\<rparr>) = fe_mem e" "fe_mem (put_file fd f e) = fe_mem e"
  by (simp_all add: fe_mem_def put_file_def)

lemma file_for_fd_cong: "fe_files e' = fe_files e \<Longrightarrow> file_for_fd fd e' = file_for_fd fd e"
  by (simp add: file_for_fd_def slot_def)

lemma file_for_fd_put:
  "file_for_fd fd e = Some f \<Longrightarrow> file_for_fd fd (put_file fd g e) = Some g"
  by (auto simp: file_for_fd_def slot_def put_file_def split: if_splits option.splits)

lemma put_file_io [simp]: "fe_io (put_file fd f e) = fe_io e"
  by (simp add: put_file_def)

text \<open>A file of the host, open for reading and writing.\<close>

definition regular :: "nat \<Rightarrow> io \<Rightarrow> bool" where
  "regular d s \<longleftrightarrow> d < length (io_open s) \<and> od_pos (io_open s ! d) < 2 ^ 63 \<and>
     (\<exists>bs. node_at (io_host s) (od_path (io_open s ! d)) = Some (Host_file bs)) \<and> od_path (io_open s ! d) \<noteq> [] \<and>
     opt_read (od_options (io_open s ! d)) \<and> opt_write (od_options (io_open s ! d)) \<and> \<not> opt_append (od_options (io_open s ! d))"

definition pos_of :: "nat \<Rightarrow> io \<Rightarrow> nat" where
  "pos_of d s = od_pos (io_open s ! d)"

lemma pos_simps [simp]:
  "d < length (io_open s) \<Longrightarrow> pos_of d (set_pos d n s) = n" "pos_of d (set_contents d bs s) = pos_of d s"
  "io_host (set_pos d n s) = io_host s"
  "d < length (io_open s) \<Longrightarrow> host_contents d (set_pos d n s) = host_contents d s"
  "d < length (io_open s) \<Longrightarrow> set_pos d n (set_pos d k s) = set_pos d n s"
  by (simp_all add: pos_of_def set_pos_def set_contents_def host_contents_def)

lemma regular_set_pos: "regular d s \<Longrightarrow> n < 2 ^ 63 \<Longrightarrow> regular d (set_pos d n s)"
  by (simp add: regular_def set_pos_def)

lemma regular_set_contents: "regular d s \<Longrightarrow> regular d (set_contents d bs s) \<and> host_contents d (set_contents d bs s) = bs"
  by (auto simp: regular_def set_contents_def host_contents_def contents_at_def node_at_update)

lemma start_position_simps:
  "start_position SEEK_SET f s = (Inr 0, f, s)"
  "regular d s \<Longrightarrow> start_position SEEK_CUR (Of_File d) s = (Inr (pos_of d s), Of_File d, s)"
proof -
  show "start_position SEEK_SET f s = (Inr 0, f, s)" by (simp add: start_position_def Let_def)
  assume r: "regular d s"
  then have "set_pos d (od_pos (io_open s ! d)) s = s" by (simp add: set_pos_def regular_def)
  with r show "start_position SEEK_CUR (Of_File d) s = (Inr (pos_of d s), Of_File d, s)"
    by (simp add: start_position_def Let_def SEEK_CUR_def SEEK_SET_def gf_stream_position_def gf_seek_def File_seek_def seek_target_def
        regular_def pos_of_def)
qed

lemma lseek_regular:
  assumes f: "file_for_fd fd e = Some f" "pf_file f = Of_File d" and r: "regular d (fe_io e)"
    and w: "start_position whence (Of_File d) (fe_io e) = (Inr start, Of_File d, fe_io e)"
    and t: "0 \<le> int start + sint offset" "int start + sint offset < 2 ^ 63"
  defines "p \<equiv> nat (int start + sint offset)"
  shows "lseek fd offset whence e = Some (of_nat p, put_file fd (f\<lparr>reached_eof := False\<rparr>) (e\<lparr>fe_io := set_pos d p (fe_io e)\<rparr>))"
proof -
  have p: "p < 2 ^ 63" "int p = int start + sint offset" using t by (simp_all add: p_def nat_less_iff)
  have seek: "gf_seek (Seek_Start p) (Of_File d) (fe_io e) = (Inr p, Of_File d, set_pos d p (fe_io e))"
    using p(1) by (simp add: gf_seek_def File_seek_def seek_target_def)
  have "\<not> (int start + sint offset < 0 \<or> 2 ^ 64 \<le> int start + sint offset)" "fits_i64 (int start + sint offset)"
    using t by (simp_all add: fits_i64_def I64_MAX_INT_def)
  moreover have "f\<lparr>pf_file := Of_File d, reached_eof := False\<rparr> = f\<lparr>reached_eof := False\<rparr>"
    "f\<lparr>pf_file := Of_File d\<rparr> = f" using f(2) by (cases f, simp)+
  moreover have "offset_result p = of_nat p" using p(1) by (simp add: offset_result_def)
  ultimately show ?thesis
    unfolding lseek_def f option.case w prod.case sum.case Let_def p_def [symmetric] seek put_put
    by (simp add: is_seekable_def put_put)
qed

lemma offset_of_nat:
  assumes "n < 2 ^ 63"
  shows "sint (of_nat n :: i64) = int n" "(of_nat n :: i64) \<noteq> - 1"
proof -
  have "sint (of_nat n :: i64) = signed_take_bit 63 (int n)" by (simp add: signed_of_nat)
  also have "\<dots> = int n" using assms by (intro signed_take_bit_int_eq_self) simp_all
  finally show s: "sint (of_nat n :: i64) = int n" .
  then show "(of_nat n :: i64) \<noteq> - 1" by (metis of_nat_0_le_iff sint_n1 neg_0_le_iff_le not_one_le_zero)
qed

lemma set_pos_id: "d < length (io_open s) \<Longrightarrow> set_pos d (pos_of d s) s = s"
  by (simp add: set_pos_def pos_of_def)

lemma at_offset_regular:
  assumes f: "file_for_fd fd e = Some f" "pf_file f = Of_File d" and r: "regular d (fe_io e)"
    and off: "0 \<le> sint offset" "sint offset < 2 ^ 63"
  defines "e2 \<equiv> put_file fd (f\<lparr>reached_eof := False\<rparr>) (e\<lparr>fe_io := set_pos d (nat (sint offset)) (fe_io e)\<rparr>)"
  assumes t: "transfer e2 = Some (n, e3)" "file_for_fd fd e3 = Some g" "pf_file g = Of_File d" "regular d (fe_io e3)"
  shows "at_offset fd offset transfer e =
    Some (n, put_file fd (g\<lparr>reached_eof := False\<rparr>) (e3\<lparr>fe_io := set_pos d (pos_of d (fe_io e)) (fe_io e3)\<rparr>))"
proof -
  let ?p = "pos_of d (fe_io e)"
  let ?f = "f\<lparr>reached_eof := False\<rparr>"
  let ?e1 = "put_file fd ?f e"
  have d: "d < length (io_open (fe_io e))" and p: "?p < 2 ^ 63" using r by (simp_all add: regular_def pos_of_def)
  have e1: "e\<lparr>fe_io := fe_io e\<rparr> = e" by simp
  have 1: "lseek fd 0 SEEK_CUR e = Some (of_nat ?p, ?e1)"
    using lseek_regular [OF f r start_position_simps(2) [OF r], of 0] p by (simp add: set_pos_id [OF d] e1)
  have f1: "file_for_fd fd ?e1 = Some ?f" by (rule file_for_fd_put [OF f(1)])
  have 2: "lseek fd offset SEEK_SET ?e1 = Some (of_nat (nat (sint offset)), e2)"
    using lseek_regular [OF f1 _ _ start_position_simps(1), of d offset] f(2) r off
    by (simp add: e2_def put_file_def)
  have 3: "lseek fd (of_nat ?p) SEEK_SET e3 = Some (of_nat ?p, put_file fd (g\<lparr>reached_eof := False\<rparr>) (e3\<lparr>fe_io := set_pos d ?p (fe_io e3)\<rparr>))"
    using lseek_regular [OF t(2,3,4) start_position_simps(1), of "of_nat ?p"] p by (simp add: offset_of_nat [OF p])
  have ne: "(of_nat ?p :: i64) \<noteq> - 1" "(of_nat (nat (sint offset)) :: i64) \<noteq> - 1"
    using offset_of_nat(2) [OF p] offset_of_nat(2) [of "nat (sint offset)"] off by (simp_all add: nat_less_iff)
  show ?thesis
    unfolding at_offset_def 1 bind.bind_lunit prod.case if_not_P [OF ne(1)] 2 if_not_P [OF ne(2)] t(1) 3
    using ne(1) by simp
qed

text \<open>A buffer in the array, away from the \<open>errno\<close> of the thread.\<close>

definition buffer_ok :: "vaddr \<Rightarrow> u32 \<Rightarrow> vaddr \<Rightarrow> fd_env \<Rightarrow> bool" where
  "buffer_ok buf n q e \<longleftrightarrow> null_segment_size (fe_mem e) \<le> buf \<and> buf \<noteq> 0 \<and> unat buf + unat n \<le> BYTES_LEN \<and>
     {unat buf..<unat buf + unat n} \<inter> errno_word q = {}"

definition buffer_bytes :: "vaddr \<Rightarrow> u32 \<Rightarrow> fd_env \<Rightarrow> u8 list" where
  "buffer_bytes buf n e = map (mem_bytes (fe_mem e)) [unat buf..<unat buf + unat n]"

lemma write_regular:
  assumes f: "file_for_fd fd e = Some f" "pf_file f = Of_File d" and r: "regular d (fe_io e)" and q: "errno_at q e"
    and b: "buffer_ok buf n q e" and n: "0 < unat n" "unat n < 2 ^ 31" and p: "pos_of d (fe_io e) + unat n < 2 ^ 63"
  obtains e1 where "posix_write fd buf n e = Some (n, e1)" "errno_at q e1" "null_segment_size (fe_mem e1) = null_segment_size (fe_mem e)"
    "\<forall>i. i \<notin> errno_word q \<longrightarrow> mem_bytes (fe_mem e1) i = mem_bytes (fe_mem e) i" "fe_files e1 = fe_files e"
    "fe_io e1 = set_pos d (pos_of d (fe_io e) + unat n)
       (set_contents d (put_bytes (host_contents d (fe_io e)) (pos_of d (fe_io e)) (buffer_bytes buf n e)) (fe_io e))"
proof -
  obtain e1 where e1: "fe_errno 0 e = Some e1" "errno_at q e1" "\<forall>i. i \<notin> errno_word q \<longrightarrow> mem_bytes (fe_mem e1) i = mem_bytes (fe_mem e) i"
    "null_segment_size (fe_mem e1) = null_segment_size (fe_mem e)" by (rule errno_set [where v = 0, OF q])
  note F = fe_errno_fields [OF e1(1)]
  have f1: "file_for_fd fd e1 = Some f" using f(1) file_for_fd_cong [OF F(1)] by simp
  have std: "\<not> (fd = STDOUT_FILENO \<or> fd = STDERR_FILENO)" using f(1) by (auto simp: file_for_fd_def fileno_defs word_sless_alt split: if_splits)
  have slice: "slice_list (fe_mem e1) (bytes_at (fe_mem e1) buf n) = buffer_bytes buf n e"
  proof -
    have "bytes_at (fe_mem e1) buf n = In_bytes (unat buf) (unat n)" using b e1(4) bytes_at_array [of "fe_mem e1" buf n] by (simp add: buffer_ok_def)
    moreover have "mem_bytes (fe_mem e1) i = mem_bytes (fe_mem e) i" if "unat buf \<le> i" "i < unat buf + unat n" for i
      using that b e1(3) by (auto simp: buffer_ok_def)
    ultimately show ?thesis by (auto simp: slice_list_def buffer_bytes_def map_offset slice_get_array)
  qed
  have len: "length (buffer_bytes buf n e) = unat n" by (simp add: buffer_bytes_def)
  then have ne: "buffer_bytes buf n e \<noteq> []" using n(1) by auto
  have w: "gf_write (buffer_bytes buf n e) (Of_File d) (fe_io e) = (Inr (unat n), set_pos d (pos_of d (fe_io e) + unat n)
       (set_contents d (put_bytes (host_contents d (fe_io e)) (pos_of d (fe_io e)) (buffer_bytes buf n e)) (fe_io e)))"
    using r ne len by (simp add: gf_write_def File_write_def regular_def Let_def pos_of_def)
  have "posix_write fd buf n e = Some (count_result (unat n), e1\<lparr>fe_io := set_pos d (pos_of d (fe_io e) + unat n)
       (set_contents d (put_bytes (host_contents d (fe_io e)) (pos_of d (fe_io e)) (buffer_bytes buf n e)) (fe_io e))\<rparr>)"
    unfolding posix_write_def e1(1) bind.bind_lunit if_not_P [OF std] f1 option.case f(2) slice F(2) w by simp
  moreover have "count_result (unat n) = n" using n(2) by (simp add: count_result_def)
  ultimately show thesis using that e1 F by simp
qed

lemma read_regular:
  assumes f: "file_for_fd fd e = Some f" "pf_file f = Of_File d" and r: "regular d (fe_io e)" and q: "errno_at q e"
    and b: "buffer_ok buf n q e" and n: "unat n < 2 ^ 31"
    and bs: "bytes_from (host_contents d (fe_io e)) (pos_of d (fe_io e)) (unat n) = bs" "length bs = unat n" "0 < unat n"
    and p: "pos_of d (fe_io e) + unat n < 2 ^ 63"
  obtains e1 where "posix_read W fd buf n e = Some (n, e1)" "errno_at q e1" "buffer_bytes buf n e1 = bs"
    "fe_io e1 = set_pos d (pos_of d (fe_io e) + unat n) (fe_io e)"
    "fe_files e1 = (fe_files e)[fd_to_file_idx fd := Some f]"
proof -
  obtain e1 where e1: "fe_errno 0 e = Some e1" "errno_at q e1" "\<forall>i. i \<notin> errno_word q \<longrightarrow> mem_bytes (fe_mem e1) i = mem_bytes (fe_mem e) i"
    "null_segment_size (fe_mem e1) = null_segment_size (fe_mem e)" by (rule errno_set [where v = 0, OF q])
  note F = fe_errno_fields [OF e1(1)]
  have f1: "file_for_fd fd e1 = Some f" using f(1) file_for_fd_cong [OF F(1)] by simp
  have slice: "bytes_at_mut (fe_mem e1) buf n = In_bytes (unat buf) (unat n)"
    using b e1(4) bytes_at_array [of "fe_mem e1" buf n] by (simp add: buffer_ok_def)
  have dir: "node_at (io_host (fe_io e)) (od_path (io_open (fe_io e) ! d)) \<noteq> Some Host_dir" using r by (auto simp: regular_def)
  have w: "gf_read W (unat n) (Of_File d) (fe_io e) = (Inr bs, Of_File d, set_pos d (pos_of d (fe_io e) + unat n) (fe_io e))"
    using r bs dir by (simp add: gf_read_def File_read_def regular_def Let_def pos_of_def)
  let ?f = "f\<lparr>pf_file := Of_File d, reached_eof := (reached_eof f \<or> bs = [] \<and> n \<noteq> 0)\<rparr>"
  have same: "?f = f" using f(2) bs(2,3) by (cases f) auto
  let ?e = "put_file fd f (e1\<lparr>fe_io := set_pos d (pos_of d (fe_io e) + unat n) (fe_io e)\<rparr>)"
  have buf: "buf \<noteq> 0" using b by (simp add: buffer_ok_def)
  have "posix_read W fd buf n e = Some (count_result (length bs), set_fe_mem (slice_put (In_bytes (unat buf) (unat n)) 0 bs (fe_mem e1)) ?e)"
    unfolding posix_read_def e1(1) bind.bind_lunit if_not_P [OF buf] f1 option.case Let_def slice slice_len.simps f(2) F(2) w prod.case sum.case same
    by simp
  moreover have "count_result (length bs) = n" using bs(2) n by (simp add: count_result_def)
  moreover have "buffer_bytes buf n (set_fe_mem (slice_put (In_bytes (unat buf) (unat n)) 0 bs (fe_mem e1)) ?e) = bs"
    using map_poke [of "unat buf" bs] bs(2) by (simp add: buffer_bytes_def fe_mem_def set_fe_mem_def)
  moreover have "errno_at q (set_fe_mem (slice_put (In_bytes (unat buf) (unat n)) 0 bs (fe_mem e1)) ?e)"
    using e1(2) by (simp add: errno_at_def fe_mem_def set_fe_mem_def put_file_def)
  ultimately show thesis using that [of "set_fe_mem (slice_put (In_bytes (unat buf) (unat n)) 0 bs (fe_mem e1)) ?e"] F
    by (simp add: set_fe_mem_def put_file_def)
qed

lemma put_then_get:
  "length bs = n \<Longrightarrow> bytes_from (put_bytes old p bs) p n = bs"
  by (simp add: bytes_from_def put_bytes_def)

lemma fe_files_io [simp]: "fe_files (e\<lparr>fe_io := s\<rparr>) = fe_files e" by simp

lemma put_file_files [simp]: "fe_files (put_file fd f e) = (fe_files e)[fd_to_file_idx fd := Some f]"
  by (simp add: put_file_def)


lemma set_contents_pos:
  "d < length (io_open s) \<Longrightarrow> set_contents d bs (set_pos d n s) = set_pos d n (set_contents d bs s)"
  by (simp add: set_contents_def set_pos_def)

lemma io_update_same: "fe_io e = s \<Longrightarrow> e\<lparr>fe_io := s\<rparr> = e"
  by simp

text \<open>A positional write: the file changes at the offset, the position of the descriptor stays.\<close>

lemma pwrite_regular:
  assumes f: "file_for_fd fd e = Some f" "pf_file f = Of_File d" and r: "regular d (fe_io e)" and q: "errno_at q e"
    and b: "buffer_ok buf n q e" and n: "0 < unat n" "unat n < 2 ^ 31"
    and off: "0 \<le> sint offset" "nat (sint offset) + unat n < 2 ^ 63"
  obtains e1 where "pwrite fd buf n offset e = Some (n, e1)" "errno_at q e1"
    "null_segment_size (fe_mem e1) = null_segment_size (fe_mem e)"
    "file_for_fd fd e1 = Some (f\<lparr>reached_eof := False\<rparr>)"
    "fe_files e1 = (fe_files e)[fd_to_file_idx fd := Some (f\<lparr>reached_eof := False\<rparr>)]"
    "fe_io e1 = set_pos d (pos_of d (fe_io e))
       (set_contents d (put_bytes (host_contents d (fe_io e)) (nat (sint offset)) (buffer_bytes buf n e)) (fe_io e))"
proof -
  let ?o = "nat (sint offset)" and ?s = "fe_io e" and ?f = "f\<lparr>reached_eof := False\<rparr>"
  let ?p = "pos_of d ?s" and ?new = "put_bytes (host_contents d (fe_io e)) (nat (sint offset)) (buffer_bytes buf n e)"
  have o: "sint offset < 2 ^ 63" "?o < 2 ^ 63" using off by (simp_all add: nat_less_iff)
  have d: "d < length (io_open ?s)" using r by (simp add: regular_def)
  have ff: "?f\<lparr>reached_eof := False\<rparr> = ?f" "pf_file ?f = Of_File d" using f by simp_all
  define e2 where "e2 = put_file fd ?f (e\<lparr>fe_io := set_pos d ?o ?s\<rparr>)"
  have f2: "file_for_fd fd e2 = Some ?f" unfolding e2_def
    by (rule file_for_fd_put [of fd _ f]) (use f file_for_fd_cong [of "e\<lparr>fe_io := set_pos d ?o ?s\<rparr>" e] in simp)
  have r2: "regular d (fe_io e2)" unfolding e2_def using regular_set_pos [OF r o(2)] by simp
  have io2: "fe_io e2 = set_pos d ?o ?s" "pos_of d (fe_io e2) = ?o" "host_contents d (fe_io e2) = host_contents d ?s"
    using d by (simp_all add: e2_def)
  have b2: "buffer_ok buf n q e2" using b by (simp add: buffer_ok_def e2_def)
  have by2: "buffer_bytes buf n e2 = buffer_bytes buf n e" by (simp add: buffer_bytes_def e2_def)
  have q2: "errno_at q e2" using q by (simp add: e2_def)
  have p2: "pos_of d (fe_io e2) + unat n < 2 ^ 63" using off(2) io2(2) by simp
  obtain e3 where w: "posix_write fd buf n e2 = Some (n, e3)" "errno_at q e3" "null_segment_size (fe_mem e3) = null_segment_size (fe_mem e2)"
    "fe_files e3 = fe_files e2" "fe_io e3 = set_pos d (?o + unat n) (set_contents d ?new (fe_io e2))"
    by (rule write_regular [OF f2 ff(2) r2 q2 b2 n p2]) (simp only: io2(2,3) by2)
  have io3: "fe_io e3 = set_pos d (?o + unat n) (set_contents d ?new ?s)"
    using d unfolding w(5) io2(1) by (simp add: set_contents_pos)
  note C = regular_set_contents [OF r, of ?new, THEN conjunct1]
  have r3: "regular d (fe_io e3)" unfolding io3 by (rule regular_set_pos [OF C off(2)])
  have f3: "file_for_fd fd e3 = Some ?f" using f2 file_for_fd_cong [OF w(4)] by simp
  have dc: "d < length (io_open (set_contents d ?new ?s))" using d by (simp add: set_contents_def)
  let ?e4 = "put_file fd ?f (e3\<lparr>fe_io := set_pos d ?p (fe_io e3)\<rparr>)"
  have pw: "pwrite fd buf n offset e = Some (n, ?e4)"
    using at_offset_regular [where transfer = "posix_write fd buf n", OF f r off(1) o(1) w(1) [unfolded e2_def] f3 ff(2) r3]
    unfolding pwrite_def ff(1) .
  show thesis
  proof (rule that [OF pw])
    show "file_for_fd fd ?e4 = Some ?f"
      by (rule file_for_fd_put [of fd _ ?f]) (use f3 file_for_fd_cong [of "e3\<lparr>fe_io := set_pos d ?p (fe_io e3)\<rparr>" e3] in simp)
    show "fe_io ?e4 = set_pos d ?p (set_contents d ?new ?s)" using dc by (simp add: io3)
  qed (simp_all add: w(2,3,4) e2_def)
qed

text \<open>A positional read: only the buffer changes.\<close>

lemma pread_regular:
  assumes f: "file_for_fd fd e = Some f" "pf_file f = Of_File d" and r: "regular d (fe_io e)" and q: "errno_at q e"
    and b: "buffer_ok buf n q e" and n: "0 < unat n" "unat n < 2 ^ 31"
    and off: "0 \<le> sint offset" "nat (sint offset) + unat n < 2 ^ 63"
    and bs: "bytes_from (host_contents d (fe_io e)) (nat (sint offset)) (unat n) = bs" "length bs = unat n"
  obtains e1 where "pread W fd buf n offset e = Some (n, e1)" "buffer_bytes buf n e1 = bs" "fe_io e1 = fe_io e"
    "fe_files e1 = (fe_files e)[fd_to_file_idx fd := Some (f\<lparr>reached_eof := False\<rparr>)]"
proof -
  let ?o = "nat (sint offset)" and ?s = "fe_io e" and ?f = "f\<lparr>reached_eof := False\<rparr>"
  let ?p = "pos_of d ?s"
  have o: "sint offset < 2 ^ 63" "?o < 2 ^ 63" using off by (simp_all add: nat_less_iff)
  have d: "d < length (io_open ?s)" using r by (simp add: regular_def)
  have ff: "?f\<lparr>reached_eof := False\<rparr> = ?f" "pf_file ?f = Of_File d" using f by simp_all
  define e2 where "e2 = put_file fd ?f (e\<lparr>fe_io := set_pos d ?o ?s\<rparr>)"
  have f2: "file_for_fd fd e2 = Some ?f" unfolding e2_def
    by (rule file_for_fd_put [of fd _ f]) (use f file_for_fd_cong [of "e\<lparr>fe_io := set_pos d ?o ?s\<rparr>" e] in simp)
  have r2: "regular d (fe_io e2)" unfolding e2_def using regular_set_pos [OF r o(2)] by simp
  have io2: "fe_io e2 = set_pos d ?o ?s" "pos_of d (fe_io e2) = ?o" "host_contents d (fe_io e2) = host_contents d ?s"
    using d by (simp_all add: e2_def)
  have b2: "buffer_ok buf n q e2" using b by (simp add: buffer_ok_def e2_def)
  have q2: "errno_at q e2" using q by (simp add: e2_def)
  have p2: "pos_of d (fe_io e2) + unat n < 2 ^ 63" using off(2) io2(2) by simp
  have bs2: "bytes_from (host_contents d (fe_io e2)) (pos_of d (fe_io e2)) (unat n) = bs" using bs(1) io2(2,3) by simp
  obtain e3 where w: "posix_read W fd buf n e2 = Some (n, e3)" "errno_at q e3" "buffer_bytes buf n e3 = bs"
    "fe_io e3 = set_pos d (?o + unat n) (fe_io e2)" "fe_files e3 = (fe_files e2)[fd_to_file_idx fd := Some ?f]"
    by (rule read_regular [where W = W, OF f2 ff(2) r2 q2 b2 n(2) bs2 bs(2) n(1) p2]) (simp only: io2(2))
  have io3: "fe_io e3 = set_pos d (?o + unat n) ?s" using d unfolding w(4) io2(1) by simp
  have r3: "regular d (fe_io e3)" unfolding io3 by (rule regular_set_pos [OF r off(2)])
  have same: "fe_files e3 = fe_files e2"
    using f2 unfolding w(5) by (auto simp: file_for_fd_def slot_def list_update_same_conv split: if_splits option.splits)
  have f3: "file_for_fd fd e3 = Some ?f" using f2 file_for_fd_cong [OF same] by simp
  let ?e4 = "put_file fd ?f (e3\<lparr>fe_io := set_pos d ?p (fe_io e3)\<rparr>)"
  have pr: "pread W fd buf n offset e = Some (n, ?e4)"
    using at_offset_regular [where transfer = "posix_read W fd buf n", OF f r off(1) o(1) w(1) [unfolded e2_def] f3 ff(2) r3]
    unfolding pread_def ff(1) .
  have b4: "buffer_bytes buf n ?e4 = bs" using w(3) by (simp add: buffer_bytes_def)
  have i4: "fe_io ?e4 = fe_io e" using d by (simp add: io3 set_pos_id)
  show thesis by (rule that [OF pr b4 i4]) (simp add: same e2_def)
qed

lemma regular_bounds: "regular d s \<Longrightarrow> d < length (io_open s) \<and> pos_of d s < 2 ^ 63"
  by (simp add: regular_def pos_of_def)

lemma length_put_bytes: "length (put_bytes old p bs) = max (length old) (p + length bs)"
  by (auto simp: put_bytes_def)

lemma nth_put_bytes:
  assumes "i < length (put_bytes old p bs)"
  shows "put_bytes old p bs ! i = (if p \<le> i \<and> i < p + length bs then bs ! (i - p) else if i < length old then old ! i else 0)"
  using assms by (auto simp: put_bytes_def nth_append min_def)

lemma node_at_set_contents:
  "od_path (io_open s ! d) \<noteq> [] \<Longrightarrow>
    node_at (io_host (set_contents d bs s)) p = (if p = od_path (io_open s ! d) then Some (Host_file bs) else node_at (io_host s) p)"
  by (simp add: set_contents_def node_at_update)

text \<open>
  C11: What is written at an offset is read back from it.  On a regular file of the host, open for reading and writing and not for
  appending, \<open>pwrite\<close> returns the full count; the file then holds the bytes of the buffer at the offset, its old bytes
  elsewhere and zeros in a gap, and no other file or pipe has changed; \<open>pread\<close> at the same offset puts the same bytes into another buffer and returns the
  full count.  Neither moves the position of the descriptor nor touches another descriptor.  Buffers lie in
  memory away from the thread's \<open>errno\<close>, the count is positive and fits in an \<open>i32\<close>, and the end of the transfer fits in an
  \<open>i64\<close>.
\<close>

theorem positional_roundtrip:
  assumes f: "file_for_fd fd e = Some f" "pf_file f = Of_File d" and r: "regular d (fe_io e)" and q: "errno_at q e"
    and b: "buffer_ok buf n q e" "buffer_ok buf' n q e" and n: "0 < unat n" "unat n < 2 ^ 31"
    and off: "0 \<le> sint offset" "nat (sint offset) + unat n < 2 ^ 63"
  shows "\<exists>e1 e2. pwrite fd buf n offset e = Some (n, e1) \<and> pread W fd buf' n offset e1 = Some (n, e2) \<and>
    buffer_bytes buf' n e2 = buffer_bytes buf n e \<and> fe_io e2 = fe_io e1 \<and>
    (let old = host_contents d (fe_io e); new = host_contents d (fe_io e1); o' = nat (sint offset) in
      length new = max (length old) (o' + unat n) \<and>
      (\<forall>i < length new. new ! i = (if o' \<le> i \<and> i < o' + unat n then mem_bytes (fe_mem e) (unat buf + (i - o'))
         else if i < length old then old ! i else 0))) \<and>
    (\<forall>p. p \<noteq> od_path (io_open (fe_io e) ! d) \<longrightarrow> node_at (io_host (fe_io e1)) p = node_at (io_host (fe_io e)) p) \<and>
    io_open (fe_io e1) = io_open (fe_io e) \<and> io_pipes (fe_io e1) = io_pipes (fe_io e) \<and>
    fe_files e2 = (fe_files e)[fd_to_file_idx fd := Some (f\<lparr>reached_eof := False\<rparr>)]"
proof -
  let ?s = "fe_io e" and ?f = "f\<lparr>reached_eof := False\<rparr>" and ?o = "nat (sint offset)"
  let ?new = "put_bytes (host_contents d ?s) ?o (buffer_bytes buf n e)"
  note C = regular_set_contents [OF r, of ?new]
  have p: "pos_of d ?s < 2 ^ 63" using regular_bounds [OF r] by simp
  have d: "d < length (io_open (set_contents d ?new ?s))" using regular_bounds [OF conjunct1 [OF C]] by simp
  have len: "length (buffer_bytes buf n e) = unat n" by (simp add: buffer_bytes_def)
  obtain e1 where w: "pwrite fd buf n offset e = Some (n, e1)" "errno_at q e1"
      "null_segment_size (fe_mem e1) = null_segment_size (fe_mem e)" "file_for_fd fd e1 = Some ?f"
      "fe_files e1 = (fe_files e)[fd_to_file_idx fd := Some ?f]" "fe_io e1 = set_pos d (pos_of d ?s) (set_contents d ?new ?s)"
    by (rule pwrite_regular [OF f r q b(1) n off])
  have "pos_of d (set_contents d ?new ?s) = pos_of d ?s" by simp
  with set_pos_id [OF d] w(6) have i1: "fe_io e1 = set_contents d ?new ?s" by simp
  have r1: "regular d (fe_io e1)" and c1: "host_contents d (fe_io e1) = ?new" using C by (simp_all add: i1)
  have f1: "pf_file ?f = Of_File d" using f(2) by simp
  have b1: "buffer_ok buf' n q e1" using b(2) w(3) by (simp add: buffer_ok_def)
  have bs: "bytes_from (host_contents d (fe_io e1)) ?o (unat n) = buffer_bytes buf n e"
    unfolding c1 by (rule put_then_get [OF len])
  obtain e2 where rd: "pread W fd buf' n offset e1 = Some (n, e2)" "buffer_bytes buf' n e2 = buffer_bytes buf n e" "fe_io e2 = fe_io e1"
      "fe_files e2 = (fe_files e1)[fd_to_file_idx fd := Some (?f\<lparr>reached_eof := False\<rparr>)]"
    by (rule pread_regular [where W = W, OF w(4) f1 r1 w(2) b1 n off bs len])
  have files: "fe_files e2 = (fe_files e)[fd_to_file_idx fd := Some ?f]" by (simp add: rd(4) w(5))
  have path: "od_path (io_open ?s ! d) \<noteq> []" using r by (simp add: regular_def)
  have others: "\<forall>p. p \<noteq> od_path (io_open ?s ! d) \<longrightarrow> node_at (io_host (fe_io e1)) p = node_at (io_host ?s) p"
    by (simp add: i1 node_at_set_contents [OF path])
  have same: "io_open (fe_io e1) = io_open ?s" "io_pipes (fe_io e1) = io_pipes ?s" by (simp_all add: i1 set_contents_def)
  have nth: "buffer_bytes buf n e ! k = mem_bytes (fe_mem e) (unat buf + k)" if "k < unat n" for k using that by (simp add: buffer_bytes_def)
  have "?new ! i = (if ?o \<le> i \<and> i < ?o + unat n then mem_bytes (fe_mem e) (unat buf + (i - ?o))
      else if i < length (host_contents d ?s) then host_contents d ?s ! i else 0)" if "i < length ?new" for i
    using nth_put_bytes [OF that] nth [of "i - ?o"] by (auto simp: len)
  moreover have "length ?new = max (length (host_contents d ?s)) (?o + unat n)" by (simp add: length_put_bytes len)
  ultimately have bytes: "let old = host_contents d ?s; new = host_contents d (fe_io e1); o' = ?o in
      length new = max (length old) (o' + unat n) \<and>
      (\<forall>i < length new. new ! i = (if o' \<le> i \<and> i < o' + unat n then mem_bytes (fe_mem e) (unat buf + (i - o'))
         else if i < length old then old ! i else 0))"
    unfolding Let_def c1 by blast
  show ?thesis
    by (rule exI [of _ e1], rule exI [of _ e2]) (intro conjI w(1) rd(1,2,3) bytes others same files)
qed

text \<open>A descriptor on a file of three bytes, and four bytes in memory.\<close>

definition one_file_env :: fd_env where
  "one_file_env = empty_fd_env
     \<lparr>fe_io := \<lparr>io_host = [([''notes''], Host_file [1, 2, 3])],
        io_open = [\<lparr>od_path = [''notes''], od_options = \<lparr>opt_read = True, opt_write = True, opt_append = False, opt_create = False,
          opt_truncate = False\<rparr>, od_pos = 1\<rparr>], io_pipes = [], io_random = 0\<rparr>,
      fe_files := [Some (new_posix_file (Of_File 0) O_RDWR)],
      fe_env := (fe_env empty_fd_env)\<lparr>env_mem := (the (load_mem 4096))\<lparr>mem_bytes := poke 0x9000 [7, 8] (\<lambda>_. 0)\<rparr>\<rparr>\<rparr>"

lemma one_file:
  "file_for_fd 3 one_file_env = Some (new_posix_file (Of_File 0) O_RDWR)" "regular 0 (fe_io one_file_env)"
  "errno_at 0x8000 one_file_env" "host_contents 0 (fe_io one_file_env) = [1, 2, 3]"
proof -
  have b: "unat (0x8000 :: u32) + 4 \<le> BYTES_LEN" by (rule BYTES_LEN_ge) simp
  then show "errno_at 0x8000 one_file_env"
    using loaded(4) by (simp add: errno_at_def one_file_env_def empty_fd_env_def fe_mem_def)
qed (simp_all add: one_file_env_def file_for_fd_def slot_def fd_to_file_idx_def NORMAL_FILENO_BASE_def word_sless_alt regular_def
  node_at_def host_contents_def contents_at_def)

lemma one_file_buffer: "unat p + 2 \<le> 2 ^ 32 \<Longrightarrow> 0x8004 \<le> unat p \<Longrightarrow> buffer_ok p 2 0x8000 one_file_env"
  using loaded(4) by (auto simp: buffer_ok_def one_file_env_def empty_fd_env_def fe_mem_def errno_word_def word_le_nat_alt BYTES_LEN_def)

theorem positional_roundtrip_witness:
  "\<exists>e1 e2. pwrite 3 0x9000 2 5 one_file_env = Some (2, e1) \<and> pread quiet_world 3 0xA000 2 5 e1 = Some (2, e2) \<and>
     buffer_bytes 0xA000 2 e2 = [7, 8] \<and> length (host_contents 0 (fe_io e2)) = 7 \<and> host_contents 0 (fe_io e2) ! 4 = 0"
proof -
  obtain e1 e2 where e: "pwrite 3 0x9000 2 5 one_file_env = Some (2, e1)" "pread quiet_world 3 0xA000 2 5 e1 = Some (2, e2)"
      "buffer_bytes 0xA000 2 e2 = buffer_bytes 0x9000 2 one_file_env" "fe_io e2 = fe_io e1"
      "length (host_contents 0 (fe_io e1)) = 7" "\<forall>i < 7. host_contents 0 (fe_io e1) ! i =
        (if 5 \<le> i \<and> i < 7 then mem_bytes (fe_mem one_file_env) (0x9000 + (i - 5)) else if i < 3 then [1, 2, 3] ! i else 0)"
    using positional_roundtrip [where W = quiet_world and fd = 3 and offset = 5 and n = 2 and buf = "0x9000" and buf' = "0xA000", OF one_file(1) _ one_file(2,3)]
      one_file_buffer [of "0x9000"] one_file_buffer [of "0xA000"]
    by (auto simp: new_posix_file_def Let_def one_file(4))
  have "buffer_bytes 0x9000 2 one_file_env = [7, 8]"
    by (simp add: buffer_bytes_def one_file_env_def fe_mem_def poke_def upt_rec)
  with e show ?thesis by auto
qed

section \<open>Record locks\<close>

text \<open>
  C12: The list of record locks of a descriptor implements a map from bytes to locks.  After any history of requests that \<open>fcntl\<close> accepted
  (whatever their type, origin and length), the lock on a byte is the one that the last request covering the byte asked
  for, however the requests overlap, split or replace each other, and no byte is in two ranges of the list.
\<close>

theorem record_locks_refine:
  assumes "\<forall>r \<in> set requests. \<exists>fd lock e e'. resolve_lock_range fd lock e = (Inr r, e')"
  shows "lock_at (locks_after requests) b = granted_at requests b \<and>
    (\<forall>k \<in> set (locks_after requests). \<forall>l \<in> set (locks_after requests). covers k b \<and> covers l b \<longrightarrow> k = l)"
proof -
  have ok: "\<forall>r \<in> set requests. range_ok r" using assms resolve_lock_range_ok by blast
  show ?thesis using locks_after_lookup [OF ok] disjoint_no_two [OF locks_after_disjoint [OF ok]] by blast
qed

text \<open>A shared lock on the bytes from 0 on, of which 40 to 59 are released, counted backwards from 60.\<close>

definition shared_lock :: flock_request where
  "shared_lock = \<lparr>fl_start = 0, fl_len = 0, fl_type = F_RDLCK, fl_whence = 0\<rparr>"

definition partial_unlock :: flock_request where
  "partial_unlock = \<lparr>fl_start = 60, fl_len = - 20, fl_type = F_UNLCK, fl_whence = 0\<rparr>"

theorem record_locks_refine_witness:
  "\<exists>r k. fst (resolve_lock_range 3 shared_lock empty_fd_env) = Inr r \<and> fst (resolve_lock_range 3 partial_unlock empty_fd_env) = Inr k \<and>
     lock_at (locks_after [r, k]) 39 = Some F_RDLCK \<and> lock_at (locks_after [r, k]) 50 = None \<and> lock_at (locks_after [r, k]) 60 = Some F_RDLCK"
proof -
  let ?r = "\<lparr>lr_start = 0, lr_end = I64_MAX_INT, lr_type = F_RDLCK\<rparr>" and ?k = "\<lparr>lr_start = 40, lr_end = 60, lr_type = F_UNLCK\<rparr>"
  have 1: "resolve_lock_range 3 shared_lock empty_fd_env = (Inr ?r, empty_fd_env)" "resolve_lock_range 3 partial_unlock empty_fd_env = (Inr ?k, empty_fd_env)"
    by (simp_all add: resolve_lock_range_def shared_lock_def partial_unlock_def lock_start_def lock_extent_def SEEK_SET_def
        F_RDLCK_def F_UNLCK_def F_WRLCK_def)
  then have "\<forall>r \<in> set [?r, ?k]. \<exists>fd lock e e'. resolve_lock_range fd lock e = (Inr r, e')" by auto
  note R = record_locks_refine [OF this, THEN conjunct1]
  have "lock_at (locks_after [?r, ?k]) 39 = Some F_RDLCK" "lock_at (locks_after [?r, ?k]) 50 = None" "lock_at (locks_after [?r, ?k]) 60 = Some F_RDLCK"
    unfolding R by (simp_all add: granted_at_def covers_def F_UNLCK_def F_RDLCK_def I64_MAX_INT_def)
  with 1 show ?thesis by simp
qed

end
