(* ===== verification/Abi.thy ===== *)
theory Abi
  imports GuestMem
begin

text \<open>
  The calling convention, after \<open>src/abi.rs\<close> and the register access of \<open>src/cpu.rs\<close>: how arguments travel
  through four registers and the guest stack, how values are returned, and the two kinds of call from
  host code: of a host function in the way of a guest, and of a guest function.  The emulated execution of guest
  code (\<open>Environment::run_call\<close>) and the bodies of host functions are parameters.
\<close>

unbundle bit_operations_syntax

section \<open>The processor\<close>

text \<open>\<open>regs\<close> is the array of 16 registers.  \<open>dynarmic\<close> keeps it and the status register.\<close>

record cpu =
  regs :: "u32 list"
  cpsr :: u32

abbreviation SP :: nat where "SP \<equiv> 13"

abbreviation LR :: nat where "LR \<equiv> 14"

abbreviation PC :: nat where "PC \<equiv> 15"

abbreviation FRAME_POINTER :: nat where "FRAME_POINTER \<equiv> 7"

definition CPSR_THUMB :: u32 where "CPSR_THUMB = 0x20"

type_synonym guest_function = u32

definition THUMB_BIT :: u32 where "THUMB_BIT = 1"

definition from_addr_and_thumb_flag :: "u32 \<Rightarrow> bool \<Rightarrow> guest_function" where
  "from_addr_and_thumb_flag pc thumb = pc OR (of_bool thumb * THUMB_BIT)"

definition is_thumb :: "guest_function \<Rightarrow> bool" where
  "is_thumb f \<longleftrightarrow> f AND THUMB_BIT = THUMB_BIT"

definition addr_without_thumb_bit :: "guest_function \<Rightarrow> u32" where
  "addr_without_thumb_bit f = f AND NOT THUMB_BIT"

definition pc_with_thumb_bit :: "cpu \<Rightarrow> guest_function" where
  "pc_with_thumb_bit c = from_addr_and_thumb_flag (regs c ! PC) (cpsr c AND CPSR_THUMB = CPSR_THUMB)"

definition branch :: "guest_function \<Rightarrow> cpu \<Rightarrow> cpu" where
  "branch new_pc c =
     (let cpsr_without_thumb = cpsr c AND NOT CPSR_THUMB in
      c\<lparr>regs := (regs c)[PC := addr_without_thumb_bit new_pc],
        cpsr := cpsr_without_thumb OR (of_bool (is_thumb new_pc) * CPSR_THUMB)\<rparr>)"

definition branch_with_link :: "guest_function \<Rightarrow> guest_function \<Rightarrow> cpu \<Rightarrow> guest_function \<times> guest_function \<times> cpu" where
  "branch_with_link new_pc new_lr c =
     (let old_pc = pc_with_thumb_bit c; old_lr = regs c ! LR; c1 = branch new_pc c in
      (old_pc, old_lr, c1\<lparr>regs := (regs c1)[LR := new_lr]\<rparr>))"

section \<open>Values\<close>

text \<open>
  The types that implement \<open>GuestArg\<close>, and their values.  A signed integer is given by its two's complement, a float by
  its bits, \<open>usize\<close> is that of a 64-bit host.
\<close>

datatype guest_ty = Ty_u32 | Ty_i32 | Ty_u16 | Ty_i16 | Ty_u8 | Ty_i8 | Ty_usize | Ty_bool | Ty_f32 | Ty_ptr
  | Ty_function | Ty_va_list | Ty_u64 | Ty_i64 | Ty_f64

datatype guest_val = V_u32 u32 | V_i32 u32 | V_u16 u16 | V_i16 u16 | V_u8 u8 | V_i8 u8 | V_usize u64 | V_bool bool
  | V_f32 u32 | V_ptr vaddr | V_function guest_function | V_va_list nat vaddr | V_u64 u64 | V_i64 u64 | V_f64 u64

fun ty_of :: "guest_val \<Rightarrow> guest_ty" where
  "ty_of (V_u32 _) = Ty_u32"
| "ty_of (V_i32 _) = Ty_i32"
| "ty_of (V_u16 _) = Ty_u16"
| "ty_of (V_i16 _) = Ty_i16"
| "ty_of (V_u8 _) = Ty_u8"
| "ty_of (V_i8 _) = Ty_i8"
| "ty_of (V_usize _) = Ty_usize"
| "ty_of (V_bool _) = Ty_bool"
| "ty_of (V_f32 _) = Ty_f32"
| "ty_of (V_ptr _) = Ty_ptr"
| "ty_of (V_function _) = Ty_function"
| "ty_of (V_va_list _ _) = Ty_va_list"
| "ty_of (V_u64 _) = Ty_u64"
| "ty_of (V_i64 _) = Ty_i64"
| "ty_of (V_f64 _) = Ty_f64"

definition REG_COUNT :: "guest_ty \<Rightarrow> nat" where
  "REG_COUNT t = (if t = Ty_u64 \<or> t = Ty_i64 \<or> t = Ty_f64 then 2 else 1)"

definition u64_from_regs :: "u32 list \<Rightarrow> u64" where
  "u64_from_regs rs = of_le (le_bytes 4 (rs ! 0) @ le_bytes 4 (rs ! 1))"

definition u64_to_regs :: "u64 \<Rightarrow> u32 list \<Rightarrow> u32 list" where
  "u64_to_regs v rs =
     (let bytes = le_bytes 8 v in rs[0 := of_le (take 4 bytes), 1 := of_le (take 4 (drop 4 bytes))])"

fun from_regs :: "guest_ty \<Rightarrow> u32 list \<Rightarrow> guest_val" where
  "from_regs Ty_u32 rs = V_u32 (rs ! 0)"
| "from_regs Ty_i32 rs = V_i32 (rs ! 0)"
| "from_regs Ty_u16 rs = V_u16 (ucast (rs ! 0))"
| "from_regs Ty_i16 rs = V_i16 (ucast (rs ! 0))"
| "from_regs Ty_u8 rs = V_u8 (ucast (rs ! 0))"
| "from_regs Ty_i8 rs = V_i8 (ucast (rs ! 0))"
| "from_regs Ty_usize rs = V_usize (ucast (rs ! 0))"
| "from_regs Ty_bool rs = V_bool (rs ! 0 \<noteq> 0)"
| "from_regs Ty_f32 rs = V_f32 (rs ! 0)"
| "from_regs Ty_ptr rs = V_ptr (rs ! 0)"
| "from_regs Ty_function rs = V_function (rs ! 0)"
| "from_regs Ty_va_list rs = V_va_list 4 (rs ! 0)"
| "from_regs Ty_u64 rs = V_u64 (u64_from_regs rs)"
| "from_regs Ty_i64 rs = V_i64 (u64_from_regs rs)"
| "from_regs Ty_f64 rs = V_f64 (u64_from_regs rs)"

text \<open>A \<open>va_list\<close> is never written: the registers stay as they are.\<close>

fun to_regs :: "guest_val \<Rightarrow> u32 list \<Rightarrow> u32 list" where
  "to_regs (V_u32 v) rs = rs[0 := v]"
| "to_regs (V_i32 v) rs = rs[0 := v]"
| "to_regs (V_u16 v) rs = rs[0 := ucast v]"
| "to_regs (V_i16 v) rs = rs[0 := scast v]"
| "to_regs (V_u8 v) rs = rs[0 := ucast v]"
| "to_regs (V_i8 v) rs = rs[0 := scast v]"
| "to_regs (V_usize v) rs = rs[0 := ucast v]"
| "to_regs (V_bool v) rs = rs[0 := of_bool v]"
| "to_regs (V_f32 v) rs = rs[0 := v]"
| "to_regs (V_ptr v) rs = rs[0 := v]"
| "to_regs (V_function v) rs = rs[0 := v]"
| "to_regs (V_va_list _ _) rs = rs"
| "to_regs (V_u64 v) rs = u64_to_regs v rs"
| "to_regs (V_i64 v) rs = u64_to_regs v rs"
| "to_regs (V_f64 v) rs = u64_to_regs v rs"

section \<open>Arguments\<close>

text \<open>One word of an argument: in a register up to the fourth, then on the stack.\<close>

definition read_arg_reg :: "u32 list \<Rightarrow> vaddr \<Rightarrow> mem \<Rightarrow> nat \<Rightarrow> u32 option" where
  "read_arg_reg rs stack_ptr m reg_offset =
     (if reg_offset < 4 then Some (rs ! reg_offset)
      else do {
        expect (reg_offset - 4 < 2 ^ 32);
        p \<leftarrow> Ptr_add 4 stack_ptr (of_nat (reg_offset - 4));
        read_u32 m p
      })"

fun read_arg_regs :: "nat \<Rightarrow> u32 list \<Rightarrow> vaddr \<Rightarrow> mem \<Rightarrow> nat \<Rightarrow> (u32 list \<times> nat) option" where
  "read_arg_regs 0 rs stack_ptr m reg_offset = Some ([], reg_offset)"
| "read_arg_regs (Suc k) rs stack_ptr m reg_offset = do {
     fake_reg \<leftarrow> read_arg_reg rs stack_ptr m reg_offset;
     (fake_regs, reg_offset) \<leftarrow> read_arg_regs k rs stack_ptr m (reg_offset + 1);
     Some (fake_reg # fake_regs, reg_offset)
   }"

definition read_next_arg :: "guest_ty \<Rightarrow> u32 list \<Rightarrow> vaddr \<Rightarrow> mem \<Rightarrow> nat \<Rightarrow> (guest_val \<times> nat) option" where
  "read_next_arg t rs stack_ptr m reg_offset = do {
     (fake_regs, reg_offset) \<leftarrow> read_arg_regs (REG_COUNT t) rs stack_ptr m reg_offset;
     Some (from_regs t fake_regs, reg_offset)
   }"

fun read_args :: "guest_ty list \<Rightarrow> u32 list \<Rightarrow> vaddr \<Rightarrow> mem \<Rightarrow> nat \<Rightarrow> (guest_val list \<times> nat) option" where
  "read_args [] rs stack_ptr m reg_offset = Some ([], reg_offset)"
| "read_args (t # ts) rs stack_ptr m reg_offset = do {
     (v, reg_offset) \<leftarrow> read_next_arg t rs stack_ptr m reg_offset;
     (vs, reg_offset) \<leftarrow> read_args ts rs stack_ptr m reg_offset;
     Some (v # vs, reg_offset)
   }"

definition extend_stack_for_args :: "nat \<Rightarrow> u32 list \<Rightarrow> (u32 \<times> u32 list) option" where
  "extend_stack_for_args reg_count_sum rs =
     (let old = rs ! SP in
      if reg_count_sum > 4 then do {
        expect (reg_count_sum - 4 < 2 ^ 32);
        p \<leftarrow> Ptr_sub 4 old (of_nat (reg_count_sum - 4));
        Some (old, rs[SP := p])
      } else Some (old, rs))"

definition write_arg_reg :: "u32 \<Rightarrow> nat \<times> u32 list \<times> mem \<Rightarrow> (nat \<times> u32 list \<times> mem) option" where
  "write_arg_reg fake_reg s =
     (case s of (reg_offset, rs, m) \<Rightarrow>
        if reg_offset < 4 then Some (reg_offset + 1, rs[reg_offset := fake_reg], m)
        else do {
          expect (reg_offset - 4 < 2 ^ 32);
          p \<leftarrow> Ptr_add 4 (rs ! SP) (of_nat (reg_offset - 4));
          m \<leftarrow> write_u32 p fake_reg m;
          Some (reg_offset + 1, rs, m)
        })"

fun write_arg_regs :: "u32 list \<Rightarrow> nat \<times> u32 list \<times> mem \<Rightarrow> (nat \<times> u32 list \<times> mem) option" where
  "write_arg_regs [] s = Some s"
| "write_arg_regs (r # rs) s = Option.bind (write_arg_reg r s) (write_arg_regs rs)"

definition fake_regs :: "guest_val \<Rightarrow> u32 list" where
  "fake_regs v = to_regs v (replicate (REG_COUNT (ty_of v)) 0)"

definition write_next_arg :: "guest_val \<Rightarrow> nat \<times> u32 list \<times> mem \<Rightarrow> (nat \<times> u32 list \<times> mem) option" where
  "write_next_arg v = write_arg_regs (fake_regs v)"

fun write_args :: "guest_val list \<Rightarrow> nat \<times> u32 list \<times> mem \<Rightarrow> (nat \<times> u32 list \<times> mem) option" where
  "write_args [] s = Some s"
| "write_args (v # vs) s = Option.bind (write_next_arg v s) (write_args vs)"

text \<open>\<open>VaList::next\<close>, and the list a variadic function starts with.\<close>

definition VaList_next :: "guest_ty \<Rightarrow> nat \<times> vaddr \<Rightarrow> u32 list \<Rightarrow> mem \<Rightarrow> (guest_val \<times> nat \<times> vaddr) option" where
  "VaList_next t va rs m = do {
     (v, reg_offset) \<leftarrow> read_next_arg t rs (snd va) m (fst va);
     Some (v, reg_offset, snd va)
   }"

section \<open>Return values\<close>

text \<open>The types that implement \<open>GuestRet\<close>; a large structure is given by its bytes.\<close>

datatype ret_ty = Ret_unit | Ret_reg guest_ty | Ret_struct u32

datatype ret_val = R_unit | R_reg guest_val | R_struct "u8 list"

definition SIZE_IN_MEM :: "ret_ty \<Rightarrow> u32 option" where
  "SIZE_IN_MEM r = (case r of Ret_struct sz \<Rightarrow> Some sz | _ \<Rightarrow> None)"

fun ret_from_regs :: "ret_ty \<Rightarrow> u32 list \<Rightarrow> ret_val option" where
  "ret_from_regs Ret_unit rs = Some R_unit"
| "ret_from_regs (Ret_reg t) rs = Some (R_reg (from_regs t rs))"
| "ret_from_regs (Ret_struct sz) rs = None"

fun ret_to_regs :: "ret_val \<Rightarrow> u32 list \<Rightarrow> u32 list" where
  "ret_to_regs R_unit rs = rs"
| "ret_to_regs (R_reg v) rs = to_regs v rs"
| "ret_to_regs (R_struct bs) rs = rs"

fun ret_from_mem :: "ret_ty \<Rightarrow> vaddr \<Rightarrow> mem \<Rightarrow> ret_val option" where
  "ret_from_mem (Ret_struct sz) p m = map_option R_struct (read_raw m sz p)"
| "ret_from_mem r p m = None"

fun ret_to_mem :: "ret_val \<Rightarrow> vaddr \<Rightarrow> mem \<Rightarrow> mem option" where
  "ret_to_mem (R_struct bs) p m = write_raw p bs m"
| "ret_to_mem r p m = Some m"


section \<open>Calls\<close>

text \<open>
  A host function takes its arguments and its variable arguments (a function without them ignores the
  list) and may use processor and memory as it likes.
\<close>

type_synonym host_function = "guest_val list \<Rightarrow> nat \<times> vaddr \<Rightarrow> cpu \<times> mem \<Rightarrow> (ret_val \<times> cpu \<times> mem) option"

definition call_from_guest :: "host_function \<Rightarrow> ret_ty \<Rightarrow> guest_ty list \<Rightarrow> cpu \<times> mem \<Rightarrow> (cpu \<times> mem) option" where
  "call_from_guest f r ts s = (case s of (c, m) \<Rightarrow> do {
     let rs = regs c;
     (retval_ptr, reg_offset) \<leftarrow> (case SIZE_IN_MEM r of
        None \<Rightarrow> Some (None, 0)
      | Some _ \<Rightarrow> do {
          (p, reg_offset) \<leftarrow> read_next_arg Ty_ptr rs (rs ! SP) m 0;
          Some (case p of V_ptr p \<Rightarrow> Some p | _ \<Rightarrow> None, reg_offset)
        });
     (args, reg_offset) \<leftarrow> read_args ts rs (rs ! SP) m reg_offset;
     (retval, c, m) \<leftarrow> f args (reg_offset, rs ! SP) (c, m);
     (case retval_ptr of
        Some retval_ptr \<Rightarrow> do {
          m \<leftarrow> ret_to_mem retval retval_ptr m;
          Some (c, m)
        }
      | None \<Rightarrow> Some (c\<lparr>regs := ret_to_regs retval (regs c)\<rparr>, m))
   })"

definition reg_count_sum :: "guest_val list \<Rightarrow> nat" where
  "reg_count_sum args = sum_list (map (REG_COUNT \<circ> ty_of) args)"

text \<open>A call of a host function in the way of a guest.\<close>

definition call_host_function ::
    "host_function \<Rightarrow> ret_ty \<Rightarrow> guest_val list \<Rightarrow> cpu \<times> mem \<Rightarrow> (ret_val \<times> cpu \<times> mem) option" where
  "call_host_function f r args s = (case s of (c, m) \<Rightarrow> do {
     (retval_ptr, reg_offset, rs, m) \<leftarrow> (case SIZE_IN_MEM r of
        None \<Rightarrow> Some (None, 0, regs c, m)
      | Some sz \<Rightarrow> do {
          let rs = (regs c)[SP := regs c ! SP - sz];
          let ptr = rs ! SP;
          (reg_offset, rs, m) \<leftarrow> write_next_arg (V_ptr ptr) (0, rs, m);
          Some (Some ptr, reg_offset, rs, m)
        });
     (old_sp, rs) \<leftarrow> extend_stack_for_args (reg_count_sum args) rs;
     (reg_offset, rs, m) \<leftarrow> write_args args (reg_offset, rs, m);
     (c, m) \<leftarrow> call_from_guest f r (map ty_of args) (c\<lparr>regs := rs\<rparr>, m);
     let rs = (regs c)[SP := old_sp];
     (case retval_ptr of
        Some retval_ptr \<Rightarrow> do {
          sz \<leftarrow> SIZE_IN_MEM r;
          let rs = rs[SP := rs ! SP + sz];
          v \<leftarrow> ret_from_mem r retval_ptr m;
          Some (v, c\<lparr>regs := rs\<rparr>, m)
        }
      | None \<Rightarrow> do {
          v \<leftarrow> ret_from_regs r rs;
          Some (v, c\<lparr>regs := rs\<rparr>, m)
        })
   })"

text \<open>A call of a guest function; \<open>run_call\<close> is the emulated execution until it returns to the host.\<close>

definition call_guest_function ::
    "guest_function \<Rightarrow> (cpu \<times> mem \<Rightarrow> (cpu \<times> mem) option) \<Rightarrow> guest_function \<Rightarrow> ret_ty \<Rightarrow> guest_val list \<Rightarrow>
      cpu \<times> mem \<Rightarrow> (ret_val \<times> cpu \<times> mem) option" where
  "call_guest_function f run_call return_to_host r args s = (case s of (c, m) \<Rightarrow> do {
     let (old_pc, old_lr, c) = branch_with_link f return_to_host c;
     let old_sp = regs c ! SP;
     let old_fp = regs c ! FRAME_POINTER;
     let rs = (regs c)[SP := old_sp - 8];
     let rs = rs[FRAME_POINTER := rs ! SP];
     m \<leftarrow> write_u32 (rs ! SP) old_fp m;
     m \<leftarrow> write_u32 (rs ! SP + 4) old_lr m;
     expect (SIZE_IN_MEM r = None);
     (_, rs) \<leftarrow> extend_stack_for_args (reg_count_sum args) rs;
     (_, rs, m) \<leftarrow> write_args args (0, rs, m);
     (c, m) \<leftarrow> run_call (c\<lparr>regs := rs\<rparr>, m);
     let c = branch old_pc c;
     let rs = (regs c)[LR := old_lr, SP := old_sp, FRAME_POINTER := old_fp];
     v \<leftarrow> ret_from_regs r rs;
     Some (v, c\<lparr>regs := rs\<rparr>, m)
   })"

definition call_without_pushing_stack_frame ::
    "guest_function \<Rightarrow> (cpu \<times> mem \<Rightarrow> (cpu \<times> mem) option) \<Rightarrow> guest_function \<Rightarrow> cpu \<times> mem \<Rightarrow> (cpu \<times> mem) option" where
  "call_without_pushing_stack_frame f run_call return_to_host s = (case s of (c, m) \<Rightarrow> do {
     let (old_pc, old_lr, c) = branch_with_link f return_to_host c;
     (c, m) \<leftarrow> run_call (c, m);
     let c = branch old_pc c;
     Some (c\<lparr>regs := (regs c)[LR := old_lr]\<rparr>, m)
   })"

section \<open>Words of memory\<close>

definition changed_within :: "nat \<Rightarrow> nat \<Rightarrow> mem \<Rightarrow> mem \<Rightarrow> bool" where
  "changed_within lo hi m m' \<longleftrightarrow>
     (\<exists>f. m' = m\<lparr>mem_bytes := f\<rparr> \<and> (\<forall>i. i < lo \<or> hi \<le> i \<longrightarrow> f i = mem_bytes m i))"

lemma changed_refl [simp]: "changed_within lo hi m m"
  by (auto simp: changed_within_def intro: exI [of _ "mem_bytes m"])

lemma changed_trans:
  assumes "changed_within lo hi m m1" "changed_within lo' hi' m1 m2" "min lo lo' \<ge> l" "max hi hi' \<le> h"
  shows "changed_within l h m m2"
  using assms by (auto simp: changed_within_def)

lemma changed_null [simp]: "changed_within lo hi m m' \<Longrightarrow> null_segment_size m' = null_segment_size m"
  by (auto simp: changed_within_def)

lemma store_u32:
  assumes "null_segment_size m \<le> p"
  shows "\<exists>m'. write_u32 p v m = Some m' \<and> read_u32 m' p = Some v \<and> changed_within (unat p) (unat p + 4) m m'"
proof -
  let ?m = "m\<lparr>mem_bytes := poke (unat p) (le_bytes 4 v) (mem_bytes m)\<rparr>"
  have b: "unat p + 4 \<le> BYTES_LEN" by (rule BYTES_LEN_ge) simp
  have "le_bytes 4 v \<noteq> []" using length_le_bytes [of 4 v] by fastforce
  then have "write_u32 p v m = Some ?m"
    unfolding write_u32_def using assms b by (subst write_raw_array) auto
  moreover have "read_raw ?m 4 p = Some (le_bytes 4 v)"
    using assms b map_poke [of "unat p" "le_bytes 4 v" "mem_bytes m"] by (simp add: read_raw_array)
  then have "read_u32 ?m p = Some v" by (simp add: read_u32_def of_le_whole)
  moreover have "changed_within (unat p) (unat p + 4) m ?m" by (auto simp: changed_within_def poke_out)
  ultimately show ?thesis by blast
qed

lemma read_u32_unchanged:
  assumes "changed_within lo hi m m'" "null_segment_size m \<le> p" "unat p + 4 \<le> lo \<or> hi \<le> unat p"
  shows "read_u32 m' p = read_u32 m p"
proof -
  have "unat p + 4 \<le> BYTES_LEN" by (rule BYTES_LEN_ge) simp
  moreover have "map (mem_bytes m') [unat p..<unat p + 4] = map (mem_bytes m) [unat p..<unat p + 4]"
    using assms(1,3) by (auto simp: changed_within_def)
  ultimately show ?thesis using assms by (simp add: read_u32_def read_raw_array del: map_eq_conv)
qed


section \<open>Where the words of the arguments are\<close>

text \<open>
  The place of a word of the arguments: the first four in registers, the others upwards from the stack
  pointer.  The stack must not reach into the null segment or wrap around.
\<close>

definition arg_addr :: "vaddr \<Rightarrow> nat \<Rightarrow> vaddr" where
  "arg_addr sp i = sp + of_nat (i - 4) * 4"

definition arg_slot :: "u32 list \<Rightarrow> mem \<Rightarrow> nat \<Rightarrow> u32 option" where
  "arg_slot rs m i = (if i < 4 then Some (rs ! i) else read_u32 m (arg_addr (rs ! SP) i))"

definition arg_window :: "vaddr \<Rightarrow> nat \<Rightarrow> mem \<Rightarrow> bool" where
  "arg_window sp n m \<longleftrightarrow> n \<le> 4 \<or> null_segment_size m \<le> sp \<and> unat sp + 4 * (n - 4) \<le> 2 ^ 32"

lemma window_slot:
  assumes "arg_window sp n m" "4 \<le> i" "i < n"
  shows "unat (arg_addr sp i) = unat sp + 4 * (i - 4)" and "null_segment_size m \<le> arg_addr sp i"
    and "i - 4 < 2 ^ 32"
proof -
  from assms have b: "unat sp + 4 * (i - 4) < 2 ^ 32" "null_segment_size m \<le> sp" by (auto simp: arg_window_def)
  moreover have "unat (of_nat ((i - 4) * 4) :: u32) = (i - 4) * 4"
    unfolding unat_of_nat using b(1) by (intro mod_less) simp
  ultimately have "unat (of_nat (i - 4) * 4 :: u32) = 4 * (i - 4)" by simp
  with b show *: "unat (arg_addr sp i) = unat sp + 4 * (i - 4)"
    unfolding arg_addr_def by (subst unat_plus_u32) auto
  from b show "null_segment_size m \<le> arg_addr sp i" by (simp only: word_le_nat_alt *)
  show "i - 4 < 2 ^ 32" using b by linarith
qed

lemma read_arg_slot:
  assumes "arg_window (rs ! SP) n m" "i < n"
  shows "read_arg_reg rs (rs ! SP) m i = arg_slot rs m i"
  using window_slot(3) [OF assms(1) _ assms(2)]
  by (auto simp: read_arg_reg_def arg_slot_def arg_addr_def Ptr_add_def panic_simps)

lemma write_arg_reg_eq:
  assumes "arg_window (rs ! SP) n m" "i < n" "4 \<le> i"
  shows "write_arg_reg w (i, rs, m) = map_option (\<lambda>m'. (i + 1, rs, m')) (write_u32 (arg_addr (rs ! SP) i) w m)"
  using window_slot(3) [OF assms(1) assms(3) assms(2)] assms(3)
  by (simp add: write_arg_reg_def arg_addr_def Ptr_add_def panic_simps map_option_case Option.bind_def split: option.splits)

definition slot_written :: "u32 list \<Rightarrow> mem \<Rightarrow> nat \<Rightarrow> u32 list \<Rightarrow> u32 list \<Rightarrow> mem \<Rightarrow> bool" where
  "slot_written rs m i ws rs' m' \<longleftrightarrow> length rs' = 16 \<and>
    (\<forall>j. 4 \<le> j \<or> j < i \<longrightarrow> rs' ! j = rs ! j) \<and>
    (\<forall>j < length ws. arg_slot rs' m' (i + j) = Some (ws ! j)) \<and>
    (\<forall>j < i. arg_slot rs' m' j = arg_slot rs m j) \<and>
    changed_within (unat (rs ! SP) + 4 * (i - 4)) (unat (rs ! SP) + 4 * (i + length ws - 4)) m m'"

lemma write_arg_reg_ok:
  assumes "length rs = 16" "arg_window (rs ! SP) n m" "i < n"
  shows "\<exists>rs' m'. write_arg_reg w (i, rs, m) = Some (i + 1, rs', m') \<and> slot_written rs m i [w] rs' m'"
proof (cases "i < 4")
  case True
  then show ?thesis using assms(1)
    by (intro exI [of _ "rs[i := w]"] exI [of _ m]) (auto simp: write_arg_reg_def arg_slot_def slot_written_def)
next
  case False
  then have i: "4 \<le> i" by simp
  note a = window_slot [OF assms(2) i assms(3)]
  define p where "p = arg_addr (rs ! SP) i"
  obtain m' where m': "write_u32 p w m = Some m'" "read_u32 m' p = Some w" "changed_within (unat p) (unat p + 4) m m'"
    using store_u32 [OF a(2), of w] by (auto simp: p_def)
  have "arg_slot rs m' j = arg_slot rs m j" if "j < i" for j
  proof (cases "j < 4")
    case j: False
    have *: "unat (arg_addr (rs ! SP) j) = unat (rs ! SP) + 4 * (j - 4)" "null_segment_size m \<le> arg_addr (rs ! SP) j"
      using window_slot [OF assms(2), of j] that assms(3) j by auto
    have "4 * (j - 4) + 4 \<le> 4 * (i - 4)" using j that by arith
    then have "read_u32 m' (arg_addr (rs ! SP) j) = read_u32 m (arg_addr (rs ! SP) j)"
      by (intro read_u32_unchanged [OF m'(3) *(2)]) (simp add: * p_def a(1))
    with j show ?thesis by (simp add: arg_slot_def)
  qed (simp add: arg_slot_def)
  moreover have "changed_within (unat (rs ! SP) + 4 * (i - 4)) (unat (rs ! SP) + 4 * (i + length [w] - 4)) m m'"
  proof -
    have "4 * (i + length [w] - 4) = 4 * (i - 4) + 4" using i by simp
    with m'(3) a(1) show ?thesis by (simp add: p_def add.assoc)
  qed
  ultimately have "slot_written rs m i [w] rs m'"
    using m'(2) i assms(1) by (simp add: slot_written_def arg_slot_def p_def)
  with m'(1) write_arg_reg_eq [OF assms(2,3) i] show ?thesis by (auto simp: p_def)
qed

lemma arg_window_cong:
  "arg_window sp n m \<Longrightarrow> null_segment_size m' = null_segment_size m \<Longrightarrow> arg_window sp n m'"
  by (simp add: arg_window_def)

lemma slot_written_append:
  assumes "slot_written rs m i ws rs1 m1" "slot_written rs1 m1 (i + length ws) ws' rs2 m2"
  shows "slot_written rs m i (ws @ ws') rs2 m2"
  unfolding slot_written_def
proof (intro conjI allI impI)
  have sp: "rs1 ! SP = rs ! SP" using assms(1) by (simp add: slot_written_def)
  show "length rs2 = 16" using assms(2) by (simp add: slot_written_def)
  show "rs2 ! j = rs ! j" if "4 \<le> j \<or> j < i" for j using assms that by (auto simp: slot_written_def)
  show "arg_slot rs2 m2 (i + j) = Some ((ws @ ws') ! j)" if "j < length (ws @ ws')" for j
  proof (cases "j < length ws")
    case True
    then show ?thesis using assms by (simp add: slot_written_def nth_append)
  next
    case False
    then obtain k where k: "j = length ws + k" using le_Suc_ex not_less by blast
    with that have "arg_slot rs2 m2 (i + length ws + k) = Some (ws' ! k)"
      using assms(2) unfolding slot_written_def by simp
    with k show ?thesis by (simp add: add.assoc)
  qed
  show "arg_slot rs2 m2 j = arg_slot rs m j" if "j < i" for j using assms that by (simp add: slot_written_def)
  show "changed_within (unat (rs ! SP) + 4 * (i - 4)) (unat (rs ! SP) + 4 * (i + length (ws @ ws') - 4)) m m2"
  proof (rule changed_trans)
    show "changed_within (unat (rs ! SP) + 4 * (i - 4)) (unat (rs ! SP) + 4 * (i + length ws - 4)) m m1"
      using assms(1) by (simp add: slot_written_def)
    show "changed_within (unat (rs ! SP) + 4 * (i + length ws - 4)) (unat (rs ! SP) + 4 * (i + length ws + length ws' - 4)) m1 m2"
      using assms(2) by (simp add: slot_written_def sp)
  qed simp_all
qed

lemma slot_written_Nil: "length rs = 16 \<Longrightarrow> slot_written rs m i [] rs m"
  by (simp add: slot_written_def)

lemma write_arg_regs_ok:
  assumes "length rs = 16" "arg_window (rs ! SP) (i + length ws) m"
  shows "\<exists>rs' m'. write_arg_regs ws (i, rs, m) = Some (i + length ws, rs', m') \<and> slot_written rs m i ws rs' m'"
  using assms
proof (induction ws arbitrary: i rs m)
  case Nil
  then show ?case by (simp add: slot_written_Nil)
next
  case (Cons w ws)
  then obtain rs1 m1 where 1: "write_arg_reg w (i, rs, m) = Some (i + 1, rs1, m1)" "slot_written rs m i [w] rs1 m1"
    using write_arg_reg_ok [of rs "i + length (w # ws)" m i w] by auto
  have "null_segment_size m1 = null_segment_size m" "rs1 ! SP = rs ! SP" "length rs1 = 16"
    using 1(2) by (auto simp: slot_written_def)
  then obtain rs2 m2 where 2: "write_arg_regs ws (i + 1, rs1, m1) = Some (i + 1 + length ws, rs2, m2)"
    "slot_written rs1 m1 (i + 1) ws rs2 m2"
    using Cons.IH [of rs1 "i + 1" m1] Cons.prems(2) arg_window_cong [of "rs ! SP" "i + length (w # ws)" m m1] by auto
  from slot_written_append [OF 1(2), of ws rs2 m2] 2 1(1) show ?case by auto
qed


section \<open>Round trips\<close>

text \<open>What can be passed as an argument: all values but a \<open>va_list\<close>, and \<open>usize\<close> below 4 GiB.\<close>

definition passable :: "guest_val \<Rightarrow> bool" where
  "passable v = (case v of V_va_list _ _ \<Rightarrow> False | V_usize n \<Rightarrow> n < 2 ^ 32 | _ \<Rightarrow> True)"

definition arg_words :: "guest_val list \<Rightarrow> u32 list" where
  "arg_words args = concat (map fake_regs args)"

lemma le_bytes_ucast: "le_bytes 4 (ucast v :: u32) = le_bytes 4 v" for v :: u64
  by (auto simp: le_bytes_def intro!: bit_eqI simp: bit_simps)

lemma of_le_32: "(of_le (le_bytes 4 v) :: u32) = ucast v" for v :: u64
  unfolding le_bytes_ucast [symmetric] by (rule of_le_whole) simp

lemma take_le_bytes: "take 4 (le_bytes 8 v) = le_bytes 4 v" "take 4 (drop 4 (le_bytes 8 v)) = le_bytes 4 (drop_bit 32 v)"
  "le_bytes 8 v = le_bytes 4 v @ le_bytes 4 (drop_bit 32 v)" for v :: u64
  by (simp_all add: le_bytes_def upt_rec numeral_eq_Suc)

lemma u64_round_trip:
  assumes "2 \<le> length rs"
  shows "u64_from_regs (u64_to_regs v rs) = v"
proof -
  have "0 < length rs" using assms by linarith
  with assms show ?thesis using of_le_whole [of 8 v]
    by (simp add: u64_from_regs_def u64_to_regs_def take_le_bytes(1,2) of_le_32 le_bytes_ucast flip: take_le_bytes(3))
qed

lemma ucast_narrow:
  "ucast (ucast v :: u32) = v" "ucast (scast v :: u32) = v" "ucast (ucast w :: u32) = w" "ucast (scast w :: u32) = w"
  for v :: u16 and w :: u8
  by (auto intro!: bit_eqI simp: bit_simps)

lemma ucast_usize: "n < 2 ^ 32 \<Longrightarrow> ucast (ucast n :: u32) = n" for n :: u64
  unfolding word_unat_eq_iff unsigned_ucast_eq by (simp add: word_less_nat_alt unsigned_take_bit_eq take_bit_nat_eq_self)

lemma from_to_regs:
  assumes "passable v" "REG_COUNT (ty_of v) \<le> length rs"
  shows "from_regs (ty_of v) (to_regs v rs) = v"
proof -
  have "rs \<noteq> []" using assms(2) by (auto simp: REG_COUNT_def split: if_splits)
  with assms show ?thesis
    by (cases v) (simp_all add: passable_def REG_COUNT_def u64_round_trip ucast_narrow ucast_usize)
qed


lemma length_to_regs [simp]: "length (to_regs v rs) = length rs"
  by (cases v) (simp_all add: u64_to_regs_def Let_def)

lemma length_fake_regs [simp]: "length (fake_regs v) = REG_COUNT (ty_of v)"
  by (simp add: fake_regs_def)

lemma length_arg_words: "length (arg_words args) = reg_count_sum args"
  by (induction args) (simp_all add: arg_words_def reg_count_sum_def)

lemma write_arg_regs_append: "write_arg_regs (xs @ ys) s = Option.bind (write_arg_regs xs s) (write_arg_regs ys)"
proof (induction xs arbitrary: s)
  case (Cons x xs)
  then show ?case by (cases "write_arg_reg x s") simp_all
qed simp

lemma write_args_words: "write_args vs s = write_arg_regs (arg_words vs) s"
proof (induction vs arbitrary: s)
  case (Cons v vs)
  then show ?case
    by (cases "write_arg_regs (fake_regs v) s") (simp_all add: arg_words_def write_next_arg_def write_arg_regs_append)
qed (simp add: arg_words_def)

lemma read_arg_regs_ok:
  assumes "arg_window (rs ! SP) (i + length ws) m" "\<And>j. j < length ws \<Longrightarrow> arg_slot rs m (i + j) = Some (ws ! j)"
  shows "read_arg_regs (length ws) rs (rs ! SP) m i = Some (ws, i + length ws)"
  using assms
proof (induction ws arbitrary: i)
  case (Cons w ws)
  have "read_arg_reg rs (rs ! SP) m i = Some w"
    using read_arg_slot [OF Cons.prems(1), of i] Cons.prems(2) [of 0] by simp
  moreover have "read_arg_regs (length ws) rs (rs ! SP) m (i + 1) = Some (ws, i + 1 + length ws)"
    using Cons.prems(1) Cons.prems(2) [of "Suc _"] by (intro Cons.IH) auto
  ultimately show ?case by simp
qed simp

lemma read_args_ok:
  assumes "arg_window (rs ! SP) (i + length (arg_words vs)) m" "\<forall>v\<in>set vs. passable v"
    and "\<And>j. j < length (arg_words vs) \<Longrightarrow> arg_slot rs m (i + j) = Some (arg_words vs ! j)"
  shows "read_args (map ty_of vs) rs (rs ! SP) m i = Some (vs, i + length (arg_words vs))"
  using assms
proof (induction vs arbitrary: i)
  case Nil
  then show ?case by (simp add: arg_words_def)
next
  case (Cons v vs)
  let ?k = "length (fake_regs v)"
  have w: "arg_words (v # vs) = fake_regs v @ arg_words vs" by (simp add: arg_words_def)
  have win: "arg_window (rs ! SP) (i + ?k) m" "arg_window (rs ! SP) (i + ?k + length (arg_words vs)) m"
    using Cons.prems(1) by (auto simp: arg_window_def w)
  have "arg_slot rs m (i + j) = Some (fake_regs v ! j)" if "j < ?k" for j
    using Cons.prems(3) [of j] that by (simp add: w nth_append)
  then have "read_arg_regs ?k rs (rs ! SP) m i = Some (fake_regs v, i + ?k)" by (rule read_arg_regs_ok [OF win(1)])
  moreover have "from_regs (ty_of v) (fake_regs v) = v"
    using Cons.prems(2) by (simp add: fake_regs_def from_to_regs)
  ultimately have "read_next_arg (ty_of v) rs (rs ! SP) m i = Some (v, i + ?k)" by (simp add: read_next_arg_def)
  moreover have "arg_slot rs m (i + ?k + j) = Some (arg_words vs ! j)" if "j < length (arg_words vs)" for j
    using Cons.prems(3) [of "?k + j"] that by (simp add: w nth_append add.assoc)
  then have "read_args (map ty_of vs) rs (rs ! SP) m (i + ?k) = Some (vs, i + ?k + length (arg_words vs))"
    using Cons.prems(2) by (intro Cons.IH [OF win(2)]) auto
  ultimately show ?case by (simp add: w add.assoc)
qed


section \<open>Calls of host functions\<close>

text \<open>The stack has room for the arguments and for a structure that is returned, above the null segment.\<close>

definition ret_bytes :: "ret_ty \<Rightarrow> nat" where
  "ret_bytes r = (case SIZE_IN_MEM r of Some sz \<Rightarrow> unat sz | None \<Rightarrow> 0)"

definition stack_bytes :: "ret_ty \<Rightarrow> guest_val list \<Rightarrow> nat" where
  "stack_bytes r args = ret_bytes r + 4 * (reg_count_sum args - 4)"

definition stack_room :: "ret_ty \<Rightarrow> guest_val list \<Rightarrow> vaddr \<Rightarrow> mem \<Rightarrow> bool" where
  "stack_room r args sp m \<longleftrightarrow> unat (null_segment_size m) + stack_bytes r args \<le> unat sp"

definition ret_fits :: "ret_ty \<Rightarrow> ret_val \<Rightarrow> bool" where
  "ret_fits r v \<longleftrightarrow> (case (r, v) of
     (Ret_unit, R_unit) \<Rightarrow> True
   | (Ret_reg t, R_reg w) \<Rightarrow> ty_of w = t \<and> passable w
   | (Ret_struct sz, R_struct bs) \<Rightarrow> 4 \<le> sz \<and> length bs = unat sz
   | _ \<Rightarrow> False)"

lemma extend_stack_ok:
  assumes "length rs = 16" "unat null + 4 * (n - 4) \<le> unat (rs ! SP)"
  shows "\<exists>sp. extend_stack_for_args n rs = Some (rs ! SP, rs[SP := sp]) \<and> unat sp = unat (rs ! SP) - 4 * (n - 4)"
proof (cases "4 < n")
  case True
  have b: "unat (rs ! SP) < 2 ^ 32" using unat_lt_u32 [of "rs ! SP"] by simp
  have "(n - 4) * 4 < 2 ^ 32" using assms(2) b by linarith
  then have "unat (of_nat ((n - 4) * 4) :: u32) = (n - 4) * 4" unfolding unat_of_nat by (intro mod_less) simp
  then have m: "unat (of_nat (n - 4) * 4 :: u32) = (n - 4) * 4" by simp
  then have "unat (rs ! SP - of_nat (n - 4) * 4) = unat (rs ! SP) - 4 * (n - 4)"
    using assms(2) by (subst unat_minus_u32) (simp_all add: word_le_nat_alt)
  moreover have "n - 4 < 2 ^ 32" using assms(2) b by linarith
  ultimately show ?thesis using True
    by (intro exI [of _ "rs ! SP - of_nat (n - 4) * 4"])
      (simp add: extend_stack_for_args_def Ptr_sub_def panic_simps Let_def)
next
  case False
  then show ?thesis using assms(1) by (intro exI [of _ "rs ! SP"]) (simp add: extend_stack_for_args_def)
qed

text \<open>The structure that is returned through memory comes back.\<close>

lemma struct_round_trip:
  assumes "null_segment_size m \<le> p" "unat p + length bs \<le> 2 ^ 32" "bs \<noteq> []" "length bs < 2 ^ 32"
  shows "\<exists>m'. write_raw p bs m = Some m' \<and> read_raw m' (of_nat (length bs)) p = Some bs \<and>
    changed_within (unat p) (unat p + length bs) m m'"
proof -
  let ?m = "m\<lparr>mem_bytes := poke (unat p) bs (mem_bytes m)\<rparr>"
  have l: "unat (of_nat (length bs) :: u32) = length bs" using assms(4) by (simp add: unat_of_nat)
  have "write_raw p bs m = Some ?m" using assms by (intro write_raw_array) (simp_all add: BYTES_LEN_def)
  moreover have "read_raw ?m (of_nat (length bs)) p = Some bs"
    using read_raw_array [of ?m p "of_nat (length bs)"] assms l by (simp add: BYTES_LEN_def map_poke)
  moreover have "changed_within (unat p) (unat p + length bs) m ?m" by (auto simp: changed_within_def poke_out)
  ultimately show ?thesis by blast
qed

lemma SIZE_IN_MEM_cases:
  obtains (Reg) "SIZE_IN_MEM r = None" "ret_bytes r = 0"
  | (Struct) sz where "r = Ret_struct sz" "SIZE_IN_MEM r = Some sz" "ret_bytes r = unat sz"
  by (cases r) (auto simp: SIZE_IN_MEM_def ret_bytes_def)

definition hidden_words :: "ret_ty \<Rightarrow> vaddr \<Rightarrow> u32 list" where
  "hidden_words r sp = (case SIZE_IN_MEM r of Some sz \<Rightarrow> [sp - sz] | None \<Rightarrow> [])"

text \<open>What the host function sees: the hidden pointer to the result and the arguments, word by word.\<close>

definition entered :: "ret_ty \<Rightarrow> guest_val list \<Rightarrow> cpu \<Rightarrow> mem \<Rightarrow> cpu \<Rightarrow> mem \<Rightarrow> bool" where
  "entered r args c m c1 m1 \<longleftrightarrow> length (regs c1) = 16 \<and>
     (\<forall>i. 4 \<le> i \<and> i \<noteq> SP \<longrightarrow> regs c1 ! i = regs c ! i) \<and> cpsr c1 = cpsr c \<and>
     unat (regs c1 ! SP) = unat (regs c ! SP) - stack_bytes r args \<and>
     (let ws = hidden_words r (regs c ! SP) @ arg_words args in
      \<forall>i < length ws. arg_slot (regs c1) m1 i = Some (ws ! i)) \<and>
     changed_within (unat (regs c ! SP) - stack_bytes r args) (unat (regs c ! SP)) m m1"

definition returned :: "ret_ty \<Rightarrow> cpu \<Rightarrow> mem \<Rightarrow> cpu \<Rightarrow> mem \<Rightarrow> cpu \<Rightarrow> mem \<Rightarrow> bool" where
  "returned r c m c2 m2 c3 m3 \<longleftrightarrow>
     regs c3 ! SP = regs c ! SP \<and> (\<forall>i. 4 \<le> i \<and> i \<noteq> SP \<longrightarrow> regs c3 ! i = regs c2 ! i) \<and> cpsr c3 = cpsr c2 \<and>
     changed_within (unat (regs c ! SP) - ret_bytes r) (unat (regs c ! SP)) m2 m3"

lemma to_regs_high: "4 \<le> i \<Longrightarrow> to_regs v rs ! i = rs ! i"
  by (cases v) (simp_all add: u64_to_regs_def Let_def)

lemma regs_eta: "c\<lparr>regs := regs c\<rparr> = c" by simp

lemma call_from_guest_ok:
  assumes "length rs = 16" "arg_window (rs ! SP) (length hw + length (arg_words args)) m" "\<forall>a\<in>set args. passable a"
    and "\<And>i. i < length (hw @ arg_words args) \<Longrightarrow> arg_slot rs m i = Some ((hw @ arg_words args) ! i)"
    and "hw = (case SIZE_IN_MEM r of Some sz \<Rightarrow> [p] | None \<Rightarrow> [])"
  shows "call_from_guest f r (map ty_of args) (c\<lparr>regs := rs\<rparr>, m) = do {
     (retval, c2, m2) \<leftarrow> f args (length hw + length (arg_words args), rs ! SP) (c\<lparr>regs := rs\<rparr>, m);
     (case SIZE_IN_MEM r of
        Some _ \<Rightarrow> do { m3 \<leftarrow> ret_to_mem retval p m2; Some (c2, m3) }
      | None \<Rightarrow> Some (c2\<lparr>regs := ret_to_regs retval (regs c2)\<rparr>, m2))
   }"
proof -
  have "read_args (map ty_of args) rs (rs ! SP) m (length hw) = Some (args, length hw + length (arg_words args))"
    using assms(4) [of "length hw + _"] by (intro read_args_ok [OF assms(2,3)]) simp
  moreover have "read_next_arg Ty_ptr rs (rs ! SP) m 0 = Some (V_ptr p, 1)" if "hw = [p]"
  proof -
    have "arg_slot rs m 0 = Some p" using assms(4) [of 0] that by simp
    then show ?thesis by (simp add: read_next_arg_def REG_COUNT_def read_arg_reg_def arg_slot_def)
  qed
  ultimately show ?thesis using assms(5)
    by (cases "SIZE_IN_MEM r") (simp_all add: call_from_guest_def Let_def)
qed


lemma host_call_enter:
  assumes "length rs0 = 16" "unat (null_segment_size m) + 4 * (reg_count_sum args - 4) \<le> unat (rs0 ! SP)"
    and "length hw \<le> 1" "hw \<noteq> [] \<longrightarrow> unat (rs0 ! SP) + 4 \<le> 2 ^ 32" "\<forall>i < length hw. rs0 ! i = hw ! i"
  shows "\<exists>rs1 rs m1. extend_stack_for_args (reg_count_sum args) rs0 = Some (rs0 ! SP, rs1) \<and>
    write_args args (length hw, rs1, m) = Some (length hw + length (arg_words args), rs, m1) \<and> length rs = 16 \<and>
    (\<forall>i. 4 \<le> i \<and> i \<noteq> SP \<longrightarrow> rs ! i = rs0 ! i) \<and>
    unat (rs ! SP) = unat (rs0 ! SP) - 4 * (reg_count_sum args - 4) \<and>
    (\<forall>i < length (hw @ arg_words args). arg_slot rs m1 i = Some ((hw @ arg_words args) ! i)) \<and>
    changed_within (unat (rs0 ! SP) - 4 * (reg_count_sum args - 4)) (unat (rs0 ! SP) + 4 * length hw) m m1 \<and>
    arg_window (rs ! SP) (length hw + length (arg_words args)) m1"
proof -
  let ?n = "reg_count_sum args"
  have b: "unat (rs0 ! SP) < 2 ^ 32" using unat_lt_u32 [of "rs0 ! SP"] by simp
  obtain sp where ext: "extend_stack_for_args ?n rs0 = Some (rs0 ! SP, rs0[SP := sp])"
    "unat sp = unat (rs0 ! SP) - 4 * (?n - 4)" using extend_stack_ok [OF assms(1,2)] by blast
  let ?rs1 = "rs0[SP := sp]"
  have sp: "?rs1 ! SP = sp" using assms(1) by simp
  have win: "arg_window sp (length hw + ?n) m"
  proof (cases "length hw + ?n \<le> 4")
    case False
    have "unat sp + 4 * (length hw + ?n - 4) \<le> 2 ^ 32"
    proof (cases hw)
      case Nil
      have "4 * (length hw + ?n - 4) = 4 * (?n - 4)" by (simp add: Nil)
      then show ?thesis using ext(2) assms(2) b by linarith
    next
      case (Cons p ps)
      with False assms(3) have "4 * (length hw + ?n - 4) = 4 * (?n - 4) + 4 \<or> ?n = 4" by auto
      then show ?thesis using Cons ext(2) assms(2,3,4) by auto
    qed
    moreover have "unat (null_segment_size m) \<le> unat sp" using ext(2) assms(2) by linarith
    ultimately show ?thesis by (simp add: arg_window_def word_le_nat_alt)
  qed (simp add: arg_window_def)
  obtain rs m1 where w: "write_args args (length hw, ?rs1, m) = Some (length hw + ?n, rs, m1)"
    "slot_written ?rs1 m (length hw) (arg_words args) rs m1"
    using write_arg_regs_ok [of ?rs1 "length hw" "arg_words args" m] win assms(1) sp
    by (auto simp: write_args_words length_arg_words)
  have rsp: "rs ! SP = sp" using w(2) sp by (simp add: slot_written_def)
  have "arg_slot rs m1 i = Some ((hw @ arg_words args) ! i)" if "i < length (hw @ arg_words args)" for i
  proof (cases "i < length hw")
    case True
    then have "i = 0" "arg_slot rs m1 i = arg_slot ?rs1 m i"
      using w(2) assms(3) by (auto simp: slot_written_def)
    with True assms(5) show ?thesis by (auto simp: arg_slot_def nth_append)
  next
    case False
    then obtain k where "i = length hw + k" using le_Suc_ex not_less by blast
    with that w(2) show ?thesis by (simp add: slot_written_def nth_append)
  qed
  moreover have "changed_within (unat (rs0 ! SP) - 4 * (?n - 4)) (unat (rs0 ! SP) + 4 * length hw) m m1"
  proof (rule changed_trans [OF changed_refl])
    show "changed_within (unat sp + 4 * (length hw - 4)) (unat sp + 4 * (length hw + ?n - 4)) m m1"
      using w(2) sp by (simp add: slot_written_def length_arg_words)
    show "unat (rs0 ! SP) - 4 * (?n - 4) \<le> min (unat (rs0 ! SP)) (unat sp + 4 * (length hw - 4))" using ext(2) by simp
    show "max (unat (rs0 ! SP)) (unat sp + 4 * (length hw + ?n - 4)) \<le> unat (rs0 ! SP) + 4 * length hw"
      using ext(2) assms(2) by (cases "?n \<le> 4") auto
  qed
  moreover have "arg_window (rs ! SP) (length hw + ?n) m1"
    using win rsp arg_window_cong w(2) changed_null by (auto simp: slot_written_def)
  moreover have "rs ! i = rs0 ! i" if "4 \<le> i" "i \<noteq> SP" for i
    using w(2) that by (simp add: slot_written_def)
  moreover have "length rs = 16" using w(2) by (simp add: slot_written_def)
  ultimately show ?thesis using ext w(1) rsp by (auto simp: length_arg_words)
qed


lemma ret_regs_round_trip:
  assumes "ret_fits r v" "SIZE_IN_MEM r = None" "length rs = 16"
  shows "ret_from_regs r ((ret_to_regs v rs)[SP := sp]) = Some v" and "length (ret_to_regs v rs) = 16"
    and "\<forall>i \<ge> 4. ret_to_regs v rs ! i = rs ! i"
proof -
  have sp: "from_regs t (rs'[SP := sp]) = from_regs t rs'" for t rs'
    by (cases t) (simp_all add: u64_from_regs_def)
  from assms show "ret_from_regs r ((ret_to_regs v rs)[SP := sp]) = Some v"
    by (cases r; cases v) (auto simp: ret_fits_def SIZE_IN_MEM_def sp from_to_regs REG_COUNT_def)
  from assms(3) show "length (ret_to_regs v rs) = 16" by (cases v) simp_all
  show "\<forall>i \<ge> 4. ret_to_regs v rs ! i = rs ! i" by (cases v) (simp_all add: to_regs_high)
qed

text \<open>
  C6: calling a host function the way a guest calls it is transparent.  With room on the stack the
  function receives exactly the arguments (in registers, split between the fourth register and the stack, or on the stack;
  also behind the hidden pointer to a structure) and nothing but the first four registers, the stack pointer and memory
  below it has changed; variable arguments start behind them.  What it returns, in registers or as a structure in memory, is what the
  call returns; the stack pointer is back, the other registers are as the function left them, and memory
  changes only where the structure was returned.  When the function panics, so does the call.
\<close>

theorem host_call_transparent:
  assumes "length (regs c) = 16" "\<forall>a\<in>set args. passable a" "stack_room r args (regs c ! SP) m"
    and "\<forall>sz. SIZE_IN_MEM r = Some sz \<longrightarrow> 4 \<le> sz"
  shows "\<exists>c1 m1. entered r args c m c1 m1 \<and>
    (let result = f args (length (hidden_words r (regs c ! SP)) + reg_count_sum args, regs c1 ! SP) (c1, m1) in
      (result = None \<longrightarrow> call_host_function f r args (c, m) = None) \<and>
      (\<forall>v c2 m2. result = Some (v, c2, m2) \<and> ret_fits r v \<and> length (regs c2) = 16 \<and>
         null_segment_size m2 = null_segment_size m \<longrightarrow>
           (\<exists>c3 m3. call_host_function f r args (c, m) = Some (v, c3, m3) \<and> returned r c m c2 m2 c3 m3)))"
proof (cases rule: SIZE_IN_MEM_cases [of r])
  case Reg
  let ?n = "reg_count_sum args"
  from assms(3) Reg have room: "unat (null_segment_size m) + 4 * (?n - 4) \<le> unat (regs c ! SP)"
    by (simp add: stack_room_def stack_bytes_def)
  obtain rs1 rs m1 where E: "extend_stack_for_args ?n (regs c) = Some (regs c ! SP, rs1)"
    "write_args args (0, rs1, m) = Some (length (arg_words args), rs, m1)" "length rs = 16"
    "\<forall>i. 4 \<le> i \<and> i \<noteq> SP \<longrightarrow> rs ! i = regs c ! i" "unat (rs ! SP) = unat (regs c ! SP) - 4 * (?n - 4)"
    "\<forall>i < length (arg_words args). arg_slot rs m1 i = Some (arg_words args ! i)"
    "changed_within (unat (regs c ! SP) - 4 * (?n - 4)) (unat (regs c ! SP)) m m1"
    "arg_window (rs ! SP) (length (arg_words args)) m1"
    using host_call_enter [OF assms(1) room, of "[]"] by auto
  let ?c1 = "c\<lparr>regs := rs\<rparr>"
  have ent: "entered r args c m ?c1 m1" using E Reg
    by (simp add: entered_def hidden_words_def stack_bytes_def)
  have "call_from_guest f r (map ty_of args) (?c1, m1) = do {
      (retval, c2, m2) \<leftarrow> f args (length (arg_words args), rs ! SP) (?c1, m1);
      Some (c2\<lparr>regs := ret_to_regs retval (regs c2)\<rparr>, m2) }"
    using call_from_guest_ok [where rs = rs and hw = "[]" and args = args and m = m1 and r = r and f = f and c = c] E assms(2) Reg by simp
  with E Reg have call: "call_host_function f r args (c, m) = do {
      (retval, c2, m2) \<leftarrow> f args (?n, rs ! SP) (?c1, m1);
      v \<leftarrow> ret_from_regs r ((ret_to_regs retval (regs c2))[SP := regs c ! SP]);
      Some (v, c2\<lparr>regs := (ret_to_regs retval (regs c2))[SP := regs c ! SP]\<rparr>, m2) }"
    by (cases "f args (?n, rs ! SP) (?c1, m1)") (auto simp: call_host_function_def Let_def length_arg_words)
  show ?thesis
  proof (intro exI conjI, rule ent, unfold Let_def, intro conjI impI allI, goal_cases)
    case 1
    with Reg show ?case by (simp add: call hidden_words_def)
  next
    case (2 v c2 m2)
    with Reg have f: "f args (?n, rs ! SP) (?c1, m1) = Some (v, c2, m2)" by (simp add: hidden_words_def)
    from 2 ret_regs_round_trip [of r v "regs c2"] Reg f show ?case
      by (auto simp: call returned_def)
  qed
next
  case (Struct sz)
  let ?n = "reg_count_sum args" and ?sp = "regs c ! SP"
  define p where "p = ?sp - sz"
  define rs0 where "rs0 = (regs c)[SP := p, 0 := p]"
  have sz: "4 \<le> unat sz" using assms(4) Struct by (simp add: word_le_nat_alt)
  have b: "unat ?sp < 2 ^ 32" using unat_lt_u32 [of ?sp] by simp
  from assms(3) Struct have room: "unat (null_segment_size m) + (unat sz + 4 * (?n - 4)) \<le> unat ?sp"
    by (simp add: stack_room_def stack_bytes_def)
  then have p: "unat p = unat ?sp - unat sz" unfolding p_def by (intro unat_minus_u32) (simp add: word_le_nat_alt)
  have rs0: "length rs0 = 16" "rs0 ! SP = p" "rs0 ! 0 = p" using assms(1) by (simp_all add: rs0_def)
  have room0: "unat (null_segment_size m) + 4 * (?n - 4) \<le> unat (rs0 ! SP)" "unat (rs0 ! SP) + 4 \<le> 2 ^ 32"
    unfolding rs0(2) using room p sz b by linarith+
  obtain rs1 rs m1 where E: "extend_stack_for_args ?n rs0 = Some (p, rs1)"
    "write_args args (1, rs1, m) = Some (1 + length (arg_words args), rs, m1)" "length rs = 16"
    "\<forall>i. 4 \<le> i \<and> i \<noteq> SP \<longrightarrow> rs ! i = rs0 ! i" "unat (rs ! SP) = unat p - 4 * (?n - 4)"
    "\<forall>i < length ([p] @ arg_words args). arg_slot rs m1 i = Some (([p] @ arg_words args) ! i)"
    "changed_within (unat p - 4 * (?n - 4)) (unat p + 4) m m1"
    "arg_window (rs ! SP) (1 + length (arg_words args)) m1"
    using host_call_enter [OF rs0(1) room0(1), of "[p]"] room0(2) rs0(2,3) by auto
  let ?c1 = "c\<lparr>regs := rs\<rparr>"
  have "changed_within (unat ?sp - (unat sz + 4 * (?n - 4))) (unat ?sp) m m1"
    by (rule changed_trans [OF changed_refl E(7)]) (use p sz room in auto)
  then have ent: "entered r args c m ?c1 m1" using E Struct rs0 p
    by (simp add: entered_def hidden_words_def stack_bytes_def rs0_def p_def)
  have hp: "write_next_arg (V_ptr p) (0, (regs c)[SP := p], m) = Some (1, rs0, m)"
    by (simp add: write_next_arg_def fake_regs_def REG_COUNT_def write_arg_reg_def rs0_def)
  have "call_from_guest f r (map ty_of args) (?c1, m1) = do {
      (retval, c2, m2) \<leftarrow> f args (1 + ?n, rs ! SP) (?c1, m1);
      m3 \<leftarrow> ret_to_mem retval p m2;
      Some (c2, m3) }"
    using call_from_guest_ok [where rs = rs and hw = "[p]" and args = args and m = m1 and r = r and f = f and c = c and p = p]
      E assms(2) Struct by (simp add: length_arg_words)
  with E Struct have call: "call_host_function f r args (c, m) = do {
      (retval, c2, m2) \<leftarrow> f args (1 + ?n, rs ! SP) (?c1, m1);
      m3 \<leftarrow> ret_to_mem retval p m2;
      v \<leftarrow> ret_from_mem r p m3;
      Some (v, c2\<lparr>regs := (regs c2)[SP := p, SP := (regs c2)[SP := p] ! SP + sz]\<rparr>, m3) }"
    using hp assms(1)
    by (cases "f args (1 + ?n, rs ! SP) (?c1, m1)")
      (auto simp: call_host_function_def Let_def length_arg_words p_def split: bind_splits)
  show ?thesis
  proof (intro exI conjI, rule ent, unfold Let_def, intro conjI impI allI, goal_cases)
    case 1
    with Struct(2) show ?case by (simp add: call hidden_words_def)
  next
    case (2 v c2 m2)
    with Struct(2) have f: "f args (1 + ?n, rs ! SP) (?c1, m1) = Some (v, c2, m2)" by (simp add: hidden_words_def)
    from 2 Struct obtain bs where v: "v = R_struct bs" "length bs = unat sz"
      by (cases v) (auto simp: ret_fits_def)
    have "null_segment_size m2 \<le> p" using 2 room p by (simp add: word_le_nat_alt)
    moreover have "unat p + length bs \<le> 2 ^ 32" "length bs < 2 ^ 32" using p v(2) room b by linarith+
    moreover have "bs \<noteq> []" using v(2) sz by auto
    ultimately obtain m3 where m3: "write_raw p bs m2 = Some m3" "read_raw m3 sz p = Some bs"
      "changed_within (unat p) (unat p + unat sz) m2 m3"
      using struct_round_trip [of m2 p bs] v(2) by auto
    have "p + sz = ?sp" by (simp add: p_def)
    moreover have "unat p + unat sz = unat ?sp" "unat p = unat ?sp - unat sz" using p room by linarith+
    ultimately show ?case using m3 2 Struct f v(1)
      by (auto simp: call [unfolded Struct(1)] returned_def)
  qed
qed


section \<open>Calls of guest functions\<close>

lemma thumb_bits: "x AND NOT CPSR_THUMB OR CPSR_THUMB = y \<Longrightarrow> y AND CPSR_THUMB = CPSR_THUMB"
  "(x AND NOT CPSR_THUMB) AND CPSR_THUMB = 0" "CPSR_THUMB \<noteq> 0" "THUMB_BIT \<noteq> 0"
  by (auto intro!: bit_eqI simp: bit_simps CPSR_THUMB_def THUMB_BIT_def)

lemma thumb_address: "x AND THUMB_BIT = THUMB_BIT \<Longrightarrow> (x AND NOT THUMB_BIT) OR THUMB_BIT = x"
  "x AND THUMB_BIT \<noteq> THUMB_BIT \<Longrightarrow> x AND NOT THUMB_BIT = x"
proof -
  show "x AND THUMB_BIT = THUMB_BIT \<Longrightarrow> (x AND NOT THUMB_BIT) OR THUMB_BIT = x"
    by (auto simp: THUMB_BIT_def bit_eq_iff bit_simps)
  assume "x AND THUMB_BIT \<noteq> THUMB_BIT"
  then have "x AND THUMB_BIT = 0" by (auto simp: THUMB_BIT_def and_one_eq)
  moreover have "(x AND NOT THUMB_BIT) OR (x AND THUMB_BIT) = x" by (rule bit_eqI) (auto simp: bit_simps)
  ultimately show "x AND NOT THUMB_BIT = x" by simp
qed

lemma pc_after_branch:
  assumes "length (regs c) = 16"
  shows "pc_with_thumb_bit (branch new_pc c) = new_pc"
  using assms thumb_bits(1) [OF refl, of "cpsr c"] thumb_bits(2,3) thumb_address [of new_pc]
  by (auto simp: pc_with_thumb_bit_def branch_def from_addr_and_thumb_flag_def addr_without_thumb_bit_def is_thumb_def Let_def)

lemma pc_cong: "regs c' ! PC = regs c ! PC \<Longrightarrow> cpsr c' = cpsr c \<Longrightarrow> pc_with_thumb_bit c' = pc_with_thumb_bit c"
  by (simp add: pc_with_thumb_bit_def)

lemma branch_regs: "i \<noteq> PC \<Longrightarrow> regs (branch new_pc c) ! i = regs c ! i" "length (regs (branch new_pc c)) = length (regs c)"
  by (simp_all add: branch_def Let_def)

text \<open>The state a guest function starts in.\<close>

definition guest_entered :: "guest_function \<Rightarrow> guest_function \<Rightarrow> guest_val list \<Rightarrow> cpu \<Rightarrow> mem \<Rightarrow> cpu \<Rightarrow> mem \<Rightarrow> bool" where
  "guest_entered f return_to_host args c m c1 m1 \<longleftrightarrow>
     length (regs c1) = 16 \<and> pc_with_thumb_bit c1 = f \<and> regs c1 ! LR = return_to_host \<and>
     regs c1 ! FRAME_POINTER = regs c ! SP - 8 \<and>
     read_u32 m1 (regs c1 ! FRAME_POINTER) = Some (regs c ! FRAME_POINTER) \<and>
     read_u32 m1 (regs c1 ! FRAME_POINTER + 4) = Some (regs c ! LR) \<and>
     unat (regs c1 ! SP) = unat (regs c ! SP) - 8 - 4 * (reg_count_sum args - 4) \<and>
     (\<forall>i < length (arg_words args). arg_slot (regs c1) m1 i = Some (arg_words args ! i)) \<and>
     (\<forall>i. 4 \<le> i \<and> i \<notin> {FRAME_POINTER, SP, LR, PC} \<longrightarrow> regs c1 ! i = regs c ! i) \<and>
     changed_within (unat (regs c1 ! SP)) (unat (regs c ! SP)) m m1"

lemma ret_from_regs_cong:
  "(\<And>i. i < 2 \<Longrightarrow> rs ! i = rs' ! i) \<Longrightarrow> ret_from_regs r rs = ret_from_regs r rs'"
proof -
  assume *: "\<And>i. i < 2 \<Longrightarrow> rs ! i = rs' ! i"
  have "from_regs t rs = from_regs t rs'" for t by (cases t) (simp_all add: * u64_from_regs_def)
  then show ?thesis by (cases r) simp_all
qed

lemma push_frame:
  assumes "unat (null_segment_size m) + 8 \<le> unat sp" "fp = sp - 8"
  shows "\<exists>m1 m2. write_u32 fp a m = Some m1 \<and> write_u32 (fp + 4) b m1 = Some m2 \<and>
    read_u32 m2 fp = Some a \<and> read_u32 m2 (fp + 4) = Some b \<and> unat fp = unat sp - 8 \<and>
    unat (fp + 4) = unat sp - 4 \<and> changed_within (unat sp - 8) (unat sp) m m2"
proof -
  have b: "unat sp < 2 ^ 32" using unat_lt_u32 [of sp] by simp
  have u: "unat fp = unat sp - 8" unfolding assms(2) using assms(1) by (subst unat_minus_u32) (simp_all add: word_le_nat_alt)
  have "unat sp - 4 < 2 ^ 32" "unat sp - 8 + 4 = unat sp - 4" using assms(1) b by linarith+
  then have v: "unat (fp + 4) = unat sp - 4" by (subst unat_plus_u32) (simp_all add: u)
  have n1: "null_segment_size m \<le> fp" unfolding word_le_nat_alt u using assms(1) by linarith
  have n2: "null_segment_size m \<le> fp + 4" unfolding word_le_nat_alt v using assms(1) by linarith
  obtain m1 where 1: "write_u32 fp a m = Some m1" "read_u32 m1 fp = Some a" "changed_within (unat fp) (unat fp + 4) m m1"
    using store_u32 [OF n1, of a] by blast
  obtain m2 where 2: "write_u32 (fp + 4) b m1 = Some m2" "read_u32 m2 (fp + 4) = Some b"
    "changed_within (unat (fp + 4)) (unat (fp + 4) + 4) m1 m2"
    using store_u32 [of m1 "fp + 4" b] n2 changed_null [OF 1(3)] by auto
  have "read_u32 m2 fp = read_u32 m1 fp"
    by (rule read_u32_unchanged [OF 2(3)]) (use n1 assms(1) changed_null [OF 1(3)] in \<open>auto simp: u v\<close>)
  moreover have "changed_within (unat sp - 8) (unat sp) m m2"
    by (rule changed_trans [OF 1(3) 2(3)]) (use assms(1) in \<open>auto simp: u v\<close>)
  ultimately show ?thesis using 1 2 u v by auto
qed

text \<open>
  C7: calling a guest function keeps to the calling convention and is undone completely.  The function starts at its
  address in the instruction set its Thumb bit asks for, returns to the host, finds a stack frame that
  links the caller's frame pointer and return address, and the words of its arguments in the first four registers and then
  upwards from the stack pointer; nothing above the old stack pointer has changed.  Whatever it then does, after the call program counter and
  instruction set, link register, stack pointer and frame pointer are those from before; the other
  registers and memory are as the guest left them, and the result is read from the first two registers.
\<close>

theorem guest_call_restores:
  assumes "length (regs c) = 16" "SIZE_IN_MEM r = None"
    and "unat (null_segment_size m) + 8 + 4 * (reg_count_sum args - 4) \<le> unat (regs c ! SP)"
  shows "\<exists>c1 m1. guest_entered f return_to_host args c m c1 m1 \<and>
    (\<forall>c2 m2. run_call (c1, m1) = Some (c2, m2) \<and> length (regs c2) = 16 \<longrightarrow>
      (\<exists>v c3. call_guest_function f run_call return_to_host r args (c, m) = Some (v, c3, m2) \<and>
         ret_from_regs r (regs c2) = Some v \<and> pc_with_thumb_bit c3 = pc_with_thumb_bit c \<and>
         (\<forall>i\<in>{FRAME_POINTER, SP, LR}. regs c3 ! i = regs c ! i) \<and>
         (\<forall>i. i \<notin> {FRAME_POINTER, SP, LR, PC} \<longrightarrow> regs c3 ! i = regs c2 ! i)))"
proof -
  let ?n = "reg_count_sum args" and ?sp = "regs c ! SP"
  define cb where "cb = snd (snd (branch_with_link f return_to_host c))"
  have link: "branch_with_link f return_to_host c = (pc_with_thumb_bit c, regs c ! LR, cb)"
    by (simp add: branch_with_link_def cb_def Let_def)
  have cb: "length (regs cb) = 16" "pc_with_thumb_bit cb = f" "regs cb ! LR = return_to_host"
    "\<And>i. i \<noteq> PC \<Longrightarrow> i \<noteq> LR \<Longrightarrow> regs cb ! i = regs c ! i" 
  proof -
    have r: "regs cb = (regs (branch f c))[LR := return_to_host]" "cpsr cb = cpsr (branch f c)"
      by (simp_all add: cb_def branch_with_link_def Let_def)
    show "length (regs cb) = 16" "regs cb ! LR = return_to_host" using assms(1) by (simp_all add: r branch_regs)
    have "regs cb ! PC = regs (branch f c) ! PC" unfolding r(1) by (rule nth_list_update_neq) simp
    then have "pc_with_thumb_bit cb = pc_with_thumb_bit (branch f c)" using r(2) by (rule pc_cong)
    then show "pc_with_thumb_bit cb = f" using pc_after_branch [OF assms(1), of f] by (rule trans)
    show "regs cb ! i = regs c ! i" if "i \<noteq> PC" "i \<noteq> LR" for i using that by (simp add: r branch_regs)
  qed
  define fp where "fp = ?sp - 8"
  define rs0 where "rs0 = (regs cb)[SP := fp, FRAME_POINTER := fp]"
  have r8: "unat (null_segment_size m) + 8 \<le> unat ?sp" using assms(3) by linarith
  obtain m1 m2 where
    fr: "write_u32 fp (regs c ! FRAME_POINTER) m = Some m1" "write_u32 (fp + 4) (regs c ! LR) m1 = Some m2"
    "read_u32 m2 fp = Some (regs c ! FRAME_POINTER)" "read_u32 m2 (fp + 4) = Some (regs c ! LR)"
    "unat fp = unat ?sp - 8" "unat (fp + 4) = unat ?sp - 4" "changed_within (unat ?sp - 8) (unat ?sp) m m2"
    using push_frame [OF r8 fp_def, of "regs c ! FRAME_POINTER" "regs c ! LR"] by blast
  have rs0: "length rs0 = 16" "rs0 ! SP = fp" using cb(1) by (simp_all add: rs0_def)
  have room: "unat (null_segment_size m2) + 4 * (?n - 4) \<le> unat (rs0 ! SP)"
    using assms(3) changed_null [OF fr(7)] fr(5) rs0(2) by simp
  obtain rs1 rs m3 where E: "extend_stack_for_args ?n rs0 = Some (fp, rs1)"
    "write_args args (0, rs1, m2) = Some (length (arg_words args), rs, m3)" "length rs = 16"
    "\<forall>i. 4 \<le> i \<and> i \<noteq> SP \<longrightarrow> rs ! i = rs0 ! i" "unat (rs ! SP) = unat fp - 4 * (?n - 4)"
    "\<forall>i < length (arg_words args). arg_slot rs m3 i = Some (arg_words args ! i)"
    "changed_within (unat fp - 4 * (?n - 4)) (unat fp) m2 m3"
    using host_call_enter [OF rs0(1) room, of "[]"] unfolding rs0(2) by auto
  let ?c1 = "cb\<lparr>regs := rs\<rparr>"
  have rd: "read_u32 m3 fp = read_u32 m2 fp" "read_u32 m3 (fp + 4) = read_u32 m2 (fp + 4)"
  proof -
    have n: "null_segment_size m2 \<le> fp" "null_segment_size m2 \<le> fp + 4"
      unfolding word_le_nat_alt fr(5,6) changed_null [OF fr(7)] using assms(3) by linarith+
    have "unat fp \<le> unat (fp + 4)" unfolding fr(5,6) by linarith
    then show "read_u32 m3 fp = read_u32 m2 fp" "read_u32 m3 (fp + 4) = read_u32 m2 (fp + 4)"
      using read_u32_unchanged [OF E(7) n(1)] read_u32_unchanged [OF E(7) n(2)] by blast+
  qed
  have ch: "changed_within (unat (rs ! SP)) (unat ?sp) m m3"
    by (rule changed_trans [OF fr(7) E(7)]) (use E(5) fr(5) in auto)
  have pcf: "pc_with_thumb_bit ?c1 = f"
    by (rule trans [OF pc_cong cb(2)]) (use E(4) in \<open>simp_all add: rs0_def\<close>)
  have ent: "guest_entered f return_to_host args c m ?c1 m3"
    unfolding guest_entered_def fp_def [symmetric]
  proof (intro conjI)
    have fp: "rs ! FRAME_POINTER = fp" using E(4) cb(1) by (simp add: rs0_def)
    show "regs ?c1 ! FRAME_POINTER = fp" using fp by simp
    show "read_u32 m3 (regs ?c1 ! FRAME_POINTER) = Some (regs c ! FRAME_POINTER)"
      "read_u32 m3 (regs ?c1 ! FRAME_POINTER + 4) = Some (regs c ! LR)" using fp fr(3,4) rd by simp_all
    show "regs ?c1 ! LR = return_to_host" using E(4) cb(3) by (simp add: rs0_def)
    show "unat (regs ?c1 ! SP) = unat (regs c ! SP) - 8 - 4 * (reg_count_sum args - 4)" using E(5) fr(5) by simp
    show "\<forall>i < length (arg_words args). arg_slot (regs ?c1) m3 i = Some (arg_words args ! i)" using E(6) by simp
    show "\<forall>i. 4 \<le> i \<and> i \<notin> {FRAME_POINTER, SP, LR, PC} \<longrightarrow> regs ?c1 ! i = regs c ! i"
      using E(4) cb(4) by (auto simp: rs0_def)
  qed (use ch pcf E(3) in simp_all)
  show ?thesis
  proof (intro exI conjI, rule ent, intro allI impI)
    fix c2 m4 assume run: "run_call (?c1, m3) = Some (c2, m4) \<and> length (regs c2) = 16"
    then have run': "run_call (?c1, m3) = Some (c2, m4)" ..
    let ?cr = "branch (pc_with_thumb_bit c) c2"
    let ?rs = "(regs ?cr)[LR := regs c ! LR, SP := ?sp, FRAME_POINTER := regs c ! FRAME_POINTER]"
    have low: "ret_from_regs r ?rs = ret_from_regs r (regs c2)"
      by (rule ret_from_regs_cong) (simp add: branch_regs)
    obtain v where v: "ret_from_regs r (regs c2) = Some v"
      using assms(2) by (cases r) (auto simp: SIZE_IN_MEM_def)
    have sp: "regs cb ! SP = ?sp" "regs cb ! FRAME_POINTER = regs c ! FRAME_POINTER" using cb(4) by simp_all
    have r0: "(regs cb)[SP := fp, FRAME_POINTER := (regs cb)[SP := fp] ! SP] = rs0"
      using cb(1) by (simp add: rs0_def)
    have "call_guest_function f run_call return_to_host r args (c, m) = Some (v, ?cr\<lparr>regs := ?rs\<rparr>, m4)"
      unfolding call_guest_function_def prod.case link Let_def sp fp_def [symmetric] r0 rs0(2) fr(1,2) bind.bind_lunit
        assms(2) simp_thms expect_simps E(1,2) run' low v by (rule TrueI)
    moreover have "pc_with_thumb_bit (?cr\<lparr>regs := ?rs\<rparr>) = pc_with_thumb_bit c"
      using pc_after_branch [of c2 "pc_with_thumb_bit c"] run pc_cong [of "?cr\<lparr>regs := ?rs\<rparr>" ?cr] by simp
    moreover have "\<forall>i\<in>{FRAME_POINTER, SP, LR}. ?rs ! i = regs c ! i"
      "\<forall>i. i \<notin> {FRAME_POINTER, SP, LR, PC} \<longrightarrow> ?rs ! i = regs c2 ! i"
      using run by (simp_all add: branch_regs)
    ultimately show "\<exists>v c3. call_guest_function f run_call return_to_host r args (c, m) = Some (v, c3, m4) \<and>
         ret_from_regs r (regs c2) = Some v \<and> pc_with_thumb_bit c3 = pc_with_thumb_bit c \<and>
         (\<forall>i\<in>{FRAME_POINTER, SP, LR}. regs c3 ! i = regs c ! i) \<and>
         (\<forall>i. i \<notin> {FRAME_POINTER, SP, LR, PC} \<longrightarrow> regs c3 ! i = regs c2 ! i)"
      using v by (intro exI [of _ v] exI [of _ "?cr\<lparr>regs := ?rs\<rparr>"]) simp
  qed
qed


section \<open>Examples\<close>

definition demo_cpu :: cpu where
  "demo_cpu = \<lparr>regs = (replicate 16 0)[SP := 0x100000, LR := 0x2001, FRAME_POINTER := 0x100010, PC := 0x3000], cpsr = 0x10\<rparr>"

definition demo_args :: "guest_val list" where
  "demo_args = [V_i16 (- 2), V_u64 0x1122334455667788, V_ptr 0x1234, V_bool True, V_u8 200]"

definition demo_function :: host_function where
  "demo_function args va s =
     (case s of (c, m) \<Rightarrow> if args = demo_args \<and> fst va = 7 then Some (R_struct (replicate 12 7), c, m) else None)"

lemma demo_cpu_simps: "length (regs demo_cpu) = 16" "regs demo_cpu ! SP = 0x100000"
  by (simp_all add: demo_cpu_def)

lemma demo_args_ok: "\<forall>a\<in>set demo_args. passable a" "reg_count_sum demo_args = 6"
  by (simp_all add: demo_args_def passable_def reg_count_sum_def REG_COUNT_def)

theorem host_call_transparent_witness:
  "\<exists>c3 m3. call_host_function demo_function (Ret_struct 12) demo_args (demo_cpu, the (load_mem 4096)) =
     Some (R_struct (replicate 12 7), c3, m3) \<and> regs c3 ! SP = 0x100000"
proof -
  let ?m = "the (load_mem 4096)"
  have room: "stack_room (Ret_struct 12) demo_args (regs demo_cpu ! SP) ?m"
    by (simp add: stack_room_def stack_bytes_def ret_bytes_def SIZE_IN_MEM_def demo_args_ok demo_cpu_simps loaded(4))
  have sz: "\<forall>sz. SIZE_IN_MEM (Ret_struct 12) = Some sz \<longrightarrow> 4 \<le> sz" by (simp add: SIZE_IN_MEM_def)
  have n: "length (hidden_words (Ret_struct 12) sp) + reg_count_sum demo_args = 7" for sp
    by (simp add: hidden_words_def SIZE_IN_MEM_def demo_args_ok(2))
  from host_call_transparent [OF demo_cpu_simps(1) demo_args_ok(1) room sz, of demo_function]
  obtain c1 m1 where e: "entered (Ret_struct 12) demo_args demo_cpu ?m c1 m1"
    and t: "\<And>v c2 m2. demo_function demo_args (7, regs c1 ! SP) (c1, m1) = Some (v, c2, m2) \<Longrightarrow>
         ret_fits (Ret_struct 12) v \<Longrightarrow> length (regs c2) = 16 \<Longrightarrow> null_segment_size m2 = null_segment_size ?m \<Longrightarrow>
         \<exists>c3 m3. call_host_function demo_function (Ret_struct 12) demo_args (demo_cpu, ?m) = Some (v, c3, m3) \<and>
           returned (Ret_struct 12) demo_cpu ?m c2 m2 c3 m3"
    unfolding Let_def n by blast
  have "demo_function demo_args (7, regs c1 ! SP) (c1, m1) = Some (R_struct (replicate 12 7), c1, m1)"
    by (simp add: demo_function_def)
  moreover have "ret_fits (Ret_struct 12) (R_struct (replicate 12 7))" by (simp add: ret_fits_def)
  moreover have "length (regs c1) = 16" "null_segment_size m1 = null_segment_size ?m"
    using e by (auto simp: entered_def)
  ultimately show ?thesis using t by (auto simp: returned_def demo_cpu_simps)
qed

definition demo_run :: "cpu \<times> mem \<Rightarrow> (cpu \<times> mem) option" where
  "demo_run s = (case s of (c, m) \<Rightarrow> Some (c\<lparr>regs := (regs c)[0 := 7, SP := 4]\<rparr>, m))"

lemma demo_pc: "pc_with_thumb_bit demo_cpu = 0x3000" "regs demo_cpu ! LR = 0x2001"
  by (simp_all add: demo_cpu_def pc_with_thumb_bit_def CPSR_THUMB_def from_addr_and_thumb_flag_def)

theorem guest_call_restores_witness:
  "\<exists>v c3 m3. call_guest_function 0x5001 demo_run 0x6000 (Ret_reg Ty_u32) demo_args (demo_cpu, the (load_mem 4096)) =
       Some (v, c3, m3) \<and> pc_with_thumb_bit c3 = 0x3000 \<and> regs c3 ! SP = 0x100000 \<and> regs c3 ! LR = 0x2001"
proof -
  let ?m = "the (load_mem 4096)"
  have room: "unat (null_segment_size ?m) + 8 + 4 * (reg_count_sum demo_args - 4) \<le> unat (regs demo_cpu ! SP)"
    by (simp add: demo_args_ok demo_cpu_simps loaded(4))
  have reg: "SIZE_IN_MEM (Ret_reg Ty_u32) = None" by (simp add: SIZE_IN_MEM_def)
  obtain c1 m1 where e: "guest_entered 0x5001 0x6000 demo_args demo_cpu ?m c1 m1"
    and t: "\<forall>c2 m2. demo_run (c1, m1) = Some (c2, m2) \<and> length (regs c2) = 16 \<longrightarrow>
      (\<exists>v c3. call_guest_function 0x5001 demo_run 0x6000 (Ret_reg Ty_u32) demo_args (demo_cpu, ?m) = Some (v, c3, m2) \<and>
         ret_from_regs (Ret_reg Ty_u32) (regs c2) = Some v \<and> pc_with_thumb_bit c3 = pc_with_thumb_bit demo_cpu \<and>
         (\<forall>i\<in>{FRAME_POINTER, SP, LR}. regs c3 ! i = regs demo_cpu ! i) \<and>
         (\<forall>i. i \<notin> {FRAME_POINTER, SP, LR, PC} \<longrightarrow> regs c3 ! i = regs c2 ! i))"
    using guest_call_restores [OF demo_cpu_simps(1) reg room, of "0x5001" "0x6000" demo_run] by (elim exE conjE) (rule that)
  let ?c2 = "c1\<lparr>regs := (regs c1)[0 := 7, SP := 4]\<rparr>"
  have "demo_run (c1, m1) = Some (?c2, m1) \<and> length (regs ?c2) = 16"
    using e by (simp add: demo_run_def guest_entered_def)
  from t [rule_format, OF this] show ?thesis unfolding demo_pc(1) by (elim exE conjE) (intro exI conjI, assumption+, simp_all add: demo_pc(2) demo_cpu_simps(2))
qed

end
