(* ===== verification/ObjcRefs.thy ===== *)
theory ObjcRefs
  imports Abi "HOL-Library.AList"
begin

text \<open>
  The lifetime of Objective-C objects: the object table and reference counts of \<open>src/objc/objects.rs\<close>, zeroing
  weak references (\<open>src/objc/weak.rs\<close>), associated objects (\<open>src/objc.rs\<close>), and the memory management methods
  of \<open>NSObject\<close> and \<open>NSAutoreleasePool\<close> (\<open>src/frameworks/foundation/\<close>).

  Messages go to the methods of \<open>NSObject\<close> or of \<open>NSAutoreleasePool\<close>, whichever the class of the receiver leads to:
  classes that override \<open>retain\<close>, \<open>release\<close> or \<open>dealloc\<close> are not modelled.  A message to a place whose \<open>isa\<close> is not a class
  is ignored, as the dispatcher does.  The dispatcher gives up at a depth of 256 nested messages and
  returns: the number argument below is the depth that is left.
\<close>

section \<open>State\<close>

type_synonym objc_id = u32

abbreviation nil :: objc_id where "nil \<equiv> 0"

text \<open>
  The kinds of host object that matter here: classes with their instance size and the memory management
  methods that their chain of superclasses leads to, pools, all others.
\<close>

datatype methods = NSObject_methods | Pool_methods

datatype host_object = Host_class u32 methods | Host_pool nat "objc_id list" | Host_other

record host_object_entry =
  host_object :: host_object
  refcount :: "u32 option"

record objc =
  objects :: "(objc_id \<times> host_object_entry) list"
  weak_refs :: "(objc_id \<times> vaddr list) list"
  associated_objects :: "((objc_id \<times> u32) \<times> objc_id \<times> bool) list"

record objc_env =
  objc :: objc
  omem :: mem
  kvc_storage :: "(objc_id \<times> string \<times> objc_id) list"
  phantom_pools :: "(objc_id \<times> nat \<times> objc_id list) list"
  pool_stacks :: "(nat \<times> objc_id list) list"
  current_thread :: nat

abbreviation entry_at :: "objc_env \<Rightarrow> objc_id \<Rightarrow> host_object_entry option" where
  "entry_at e obj \<equiv> map_of (objects (objc e)) obj"

definition set_entry :: "objc_id \<Rightarrow> host_object_entry \<Rightarrow> objc_env \<Rightarrow> objc_env" where
  "set_entry obj ent e = e\<lparr>objc := (objc e)\<lparr>objects := AList.update obj ent (objects (objc e))\<rparr>\<rparr>"

section \<open>Objects\<close>

definition read_isa :: "objc_id \<Rightarrow> mem \<Rightarrow> u32 option" where
  "read_isa obj m = (if obj = nil then Some 0 else read_u32 m obj)"

definition alloc_object_inner :: "u32 \<Rightarrow> u32 \<Rightarrow> host_object \<Rightarrow> u32 option \<Rightarrow> objc_env \<Rightarrow> (objc_id \<times> objc_env) option" where
  "alloc_object_inner isa instance_size host rc e = do {
     (ptr, m) \<leftarrow> Mem_alloc instance_size (omem e);
     m \<leftarrow> write_u32 ptr isa m;
     Some (ptr, set_entry ptr \<lparr>host_object = host, refcount = rc\<rparr> (e\<lparr>omem := m\<rparr>))
   }"

definition get_host_object :: "objc_id \<Rightarrow> objc_env \<Rightarrow> host_object option" where
  "get_host_object obj e = (if obj = nil then None else map_option host_object (entry_at e obj))"

definition class_instance_size :: "objc_id \<Rightarrow> objc_env \<Rightarrow> u32" where
  "class_instance_size isa e = (case get_host_object isa e of Some (Host_class sz _) \<Rightarrow> sz | _ \<Rightarrow> 4)"

definition alloc_object_with_extra_bytes :: "u32 \<Rightarrow> u32 \<Rightarrow> host_object \<Rightarrow> objc_env \<Rightarrow> (objc_id \<times> objc_env) option" where
  "alloc_object_with_extra_bytes isa extra_bytes host e = do {
     sz \<leftarrow> checked_add_u32 (class_instance_size isa e) extra_bytes;
     alloc_object_inner isa sz host (Some 1) e
   }"

definition alloc_object :: "u32 \<Rightarrow> host_object \<Rightarrow> objc_env \<Rightarrow> (objc_id \<times> objc_env) option" where
  "alloc_object isa host = alloc_object_with_extra_bytes isa 0 host"

definition alloc_object_sized :: "u32 \<Rightarrow> u32 \<Rightarrow> host_object \<Rightarrow> objc_env \<Rightarrow> (objc_id \<times> objc_env) option" where
  "alloc_object_sized isa instance_size host = alloc_object_inner isa instance_size host (Some 1)"

definition alloc_static_object :: "u32 \<Rightarrow> host_object \<Rightarrow> objc_env \<Rightarrow> (objc_id \<times> objc_env) option" where
  "alloc_static_object isa host = alloc_object_inner isa 4 host None"

definition register_static_object :: "objc_id \<Rightarrow> host_object \<Rightarrow> objc_env \<Rightarrow> objc_env" where
  "register_static_object guest_object host e =
     (if guest_object = nil then e else set_entry guest_object \<lparr>host_object = host, refcount = None\<rparr> e)"

definition get_refcount :: "objc_id \<Rightarrow> objc_env \<Rightarrow> u32" where
  "get_refcount obj e =
     (if obj = nil then 1 else case Option.bind (entry_at e obj) refcount of Some rc \<Rightarrow> rc | None \<Rightarrow> 1)"

definition increment_refcount :: "objc_id \<Rightarrow> objc_env \<Rightarrow> objc_env" where
  "increment_refcount obj e =
     (if obj = nil then e
      else case entry_at e obj of
        None \<Rightarrow> e
      | Some ent \<Rightarrow> (case refcount ent of
            None \<Rightarrow> e
          | Some rc \<Rightarrow> (case checked_add_u32 rc 1 of
                Some new_rc \<Rightarrow> set_entry obj (ent\<lparr>refcount := Some new_rc\<rparr>) e
              | None \<Rightarrow> e)))"

definition decrement_refcount :: "objc_id \<Rightarrow> objc_env \<Rightarrow> bool \<times> objc_env" where
  "decrement_refcount obj e =
     (if obj = nil then (False, e)
      else case entry_at e obj of
        None \<Rightarrow> (False, e)
      | Some ent \<Rightarrow> (case refcount ent of
            None \<Rightarrow> (False, e)
          | Some rc \<Rightarrow>
              if rc = 1 then (True, set_entry obj (ent\<lparr>refcount := None\<rparr>) e)
              else (False, set_entry obj (ent\<lparr>refcount := Some (rc - 1)\<rparr>) e)))"

text \<open>\<open>NSCopyObject\<close>.\<close>

definition saturating_add_u32 :: "u32 \<Rightarrow> u32 \<Rightarrow> u32" where
  "saturating_add_u32 a b = (if unat a + unat b < 2 ^ 32 then a + b else - 1)"

definition object_copy :: "objc_id \<Rightarrow> u32 \<Rightarrow> objc_env \<Rightarrow> (objc_id \<times> objc_env) option" where
  "object_copy obj extra_bytes e =
     (if obj = nil then Some (nil, e)
      else do {
        isa \<leftarrow> read_isa obj (omem e);
        let instance_size = class_instance_size isa e;
        (new_object, m) \<leftarrow> Mem_alloc (saturating_add_u32 instance_size extra_bytes) (omem e);
        let src = slice_list m (bytes_at m obj instance_size);
        let dst = bytes_at_mut m new_object instance_size;
        expect (slice_len dst = length src);
        Some (new_object, set_entry new_object \<lparr>host_object = Host_other, refcount = Some 1\<rparr> (e\<lparr>omem := slice_put dst 0 src m\<rparr>))
      })"

section \<open>Weak references\<close>

abbreviation weak_list :: "objc_env \<Rightarrow> objc_id \<Rightarrow> vaddr list option" where
  "weak_list e t \<equiv> map_of (weak_refs (objc e)) t"

definition register_weak :: "objc_id \<Rightarrow> vaddr \<Rightarrow> objc \<Rightarrow> objc" where
  "register_weak target location ob =
     (if target = nil then ob
      else ob\<lparr>weak_refs := AList.update target
        ((case map_of (weak_refs ob) target of Some ls \<Rightarrow> ls | None \<Rightarrow> []) @ [location]) (weak_refs ob)\<rparr>)"

definition unregister_weak :: "objc_id \<Rightarrow> vaddr \<Rightarrow> objc \<Rightarrow> objc" where
  "unregister_weak target location ob =
     (if target = nil then ob
      else case map_of (weak_refs ob) target of
        None \<Rightarrow> ob
      | Some ls \<Rightarrow> (let ls = filter (\<lambda>l. l \<noteq> location) ls in
          if ls = [] then ob\<lparr>weak_refs := AList.delete target (weak_refs ob)\<rparr>
          else ob\<lparr>weak_refs := AList.update target ls (weak_refs ob)\<rparr>))"

fun zero_slots :: "objc_id \<Rightarrow> vaddr list \<Rightarrow> mem \<Rightarrow> mem option" where
  "zero_slots obj [] m = Some m"
| "zero_slots obj (slot # slots) m = do {
     v \<leftarrow> read_u32 m slot;
     m \<leftarrow> (if v = obj then write_u32 slot nil m else Some m);
     zero_slots obj slots m
   }"

definition zero_weak_references_for :: "objc_id \<Rightarrow> objc_env \<Rightarrow> objc_env option" where
  "zero_weak_references_for obj e =
     (case weak_list e obj of
        None \<Rightarrow> Some e
      | Some ls \<Rightarrow> do {
          m \<leftarrow> zero_slots obj ls (omem e);
          Some (e\<lparr>objc := (objc e)\<lparr>weak_refs := AList.delete obj (weak_refs (objc e))\<rparr>, omem := m\<rparr>)
        })"

definition dealloc_object :: "objc_id \<Rightarrow> objc_env \<Rightarrow> objc_env option" where
  "dealloc_object obj e =
     (if obj = nil then Some e
      else do {
        e \<leftarrow> zero_weak_references_for obj e;
        (case entry_at e obj of
           None \<Rightarrow> Some e
         | Some _ \<Rightarrow> do {
             let e = e\<lparr>objc := (objc e)\<lparr>objects := AList.delete obj (objects (objc e))\<rparr>\<rparr>;
             m \<leftarrow> Mem_free obj (omem e);
             Some (e\<lparr>omem := m\<rparr>)
           })
      })"

definition store_weak_value :: "vaddr \<Rightarrow> objc_id \<Rightarrow> objc_env \<Rightarrow> objc_env option" where
  "store_weak_value location new_obj e = do {
     m \<leftarrow> write_u32 location new_obj (omem e);
     let e = e\<lparr>omem := m\<rparr>;
     Some (if new_obj \<noteq> nil then e\<lparr>objc := register_weak new_obj location (objc e)\<rparr> else e)
   }"

definition objc_storeWeak :: "vaddr \<Rightarrow> objc_id \<Rightarrow> objc_env \<Rightarrow> (objc_id \<times> objc_env) option" where
  "objc_storeWeak location new_obj e =
     (if location = 0 then Some (new_obj, e)
      else do {
        old \<leftarrow> read_u32 (omem e) location;
        let e = (if old \<noteq> nil then e\<lparr>objc := unregister_weak old location (objc e)\<rparr> else e);
        e \<leftarrow> store_weak_value location new_obj e;
        Some (new_obj, e)
      })"

definition objc_initWeak :: "vaddr \<Rightarrow> objc_id \<Rightarrow> objc_env \<Rightarrow> (objc_id \<times> objc_env) option" where
  "objc_initWeak location new_obj e =
     (if location = 0 then Some (new_obj, e)
      else do {
        e \<leftarrow> store_weak_value location new_obj e;
        Some (new_obj, e)
      })"

definition objc_destroyWeak :: "vaddr \<Rightarrow> objc_env \<Rightarrow> objc_env option" where
  "objc_destroyWeak location e =
     (if location = 0 then Some e
      else do {
        old \<leftarrow> read_u32 (omem e) location;
        (if old \<noteq> nil then do {
           let e = e\<lparr>objc := unregister_weak old location (objc e)\<rparr>;
           m \<leftarrow> write_u32 location nil (omem e);
           Some (e\<lparr>omem := m\<rparr>)
         } else Some e)
      })"

definition objc_copyWeak :: "vaddr \<Rightarrow> vaddr \<Rightarrow> objc_env \<Rightarrow> objc_env option" where
  "objc_copyWeak to_loc from_loc e =
     (if to_loc = 0 \<or> from_loc = 0 then Some e
      else do {
        v \<leftarrow> read_u32 (omem e) from_loc;
        map_option snd (objc_initWeak to_loc v e)
      })"

definition objc_moveWeak :: "vaddr \<Rightarrow> vaddr \<Rightarrow> objc_env \<Rightarrow> objc_env option" where
  "objc_moveWeak to_loc from_loc e =
     (if to_loc = 0 \<or> from_loc = 0 then Some e
      else do {
        v \<leftarrow> read_u32 (omem e) from_loc;
        let e = (if v \<noteq> nil then e\<lparr>objc := register_weak v to_loc (unregister_weak v from_loc (objc e))\<rparr> else e);
        m \<leftarrow> write_u32 to_loc v (omem e);
        m \<leftarrow> write_u32 from_loc nil m;
        Some (e\<lparr>omem := m\<rparr>)
      })"


section \<open>Memory management methods\<close>

text \<open>
  Where a message goes: an inner \<open>None\<close> is a message that is ignored.  A class entry carries the methods that the walk
  up its superclasses ends with, so that the walk is one look at the class.  The interpositions for single
  applications and the lazy \<open>+initialize\<close> before the walk are not modelled.
\<close>

definition methods_of :: "objc_id \<Rightarrow> objc_env \<Rightarrow> methods option" where
  "methods_of class e = (case get_host_object class e of Some (Host_class _ ms) \<Rightarrow> Some ms | _ \<Rightarrow> None)"

definition receiver_of :: "objc_id \<Rightarrow> objc_env \<Rightarrow> methods option option" where
  "receiver_of obj e =
     (if obj = nil then Some None
      else do {
        orig_class \<leftarrow> read_isa obj (omem e);
        Some (if orig_class = nil then None else methods_of orig_class e)
      })"

definition MAX_DEPTH :: nat where "MAX_DEPTH = 256"

text \<open>The values that \<open>dealloc\<close> takes out of the storage for dynamic properties.\<close>

definition take_kvc :: "objc_id \<Rightarrow> objc_env \<Rightarrow> objc_id list \<times> objc_env" where
  "take_kvc obj e =
     (filter (\<lambda>v. v \<noteq> 0) (map (snd \<circ> snd) (filter (\<lambda>(p, _, _). p = obj) (kvc_storage e))),
      e\<lparr>kvc_storage := filter (\<lambda>(p, _, _). p \<noteq> obj) (kvc_storage e)\<rparr>)"

text \<open>
  \<open>borrow_mut\<close> at the type of pools: an object that is no pool has a phantom, made at the first use
  and kept for ever.
\<close>

definition borrow_pool :: "objc_id \<Rightarrow> objc_env \<Rightarrow> nat \<times> objc_id list" where
  "borrow_pool pool e =
     (case map_option host_object (entry_at e pool) of
        Some (Host_pool t os) \<Rightarrow> (t, os)
      | _ \<Rightarrow> (case map_of (phantom_pools e) pool of Some p \<Rightarrow> p | None \<Rightarrow> (0, [])))"

definition put_pool_objects :: "objc_id \<Rightarrow> objc_id list \<Rightarrow> objc_env \<Rightarrow> objc_env" where
  "put_pool_objects pool os e =
     (let t = fst (borrow_pool pool e) in
      case entry_at e pool of
        Some ent \<Rightarrow> (case host_object ent of
            Host_pool _ _ \<Rightarrow> set_entry pool (ent\<lparr>host_object := Host_pool t os\<rparr>) e
          | _ \<Rightarrow> e\<lparr>phantom_pools := AList.update pool (t, os) (phantom_pools e)\<rparr>)
      | None \<Rightarrow> e\<lparr>phantom_pools := AList.update pool (t, os) (phantom_pools e)\<rparr>)"

text \<open>The last place of a pool in a stack.\<close>

fun last_index :: "objc_id \<Rightarrow> objc_id list \<Rightarrow> nat option" where
  "last_index p [] = None"
| "last_index p (x # xs) = (case last_index p xs of Some i \<Rightarrow> Some (Suc i) | None \<Rightarrow> if x = p then Some 0 else None)"

text \<open>
  The start of \<open>dealloc\<close> of a pool: the pools to drop, the newest first, and the state in which they are off the
  stack.  Without a stack, or when the pool is not on it, only the pool itself is dropped.
\<close>

definition pools_to_drop :: "objc_id \<Rightarrow> objc_env \<Rightarrow> objc_id list \<times> objc_env" where
  "pools_to_drop this_pool e =
     (let original_thread = fst (borrow_pool this_pool e);
          lookup_thread = (if map_of (pool_stacks e) original_thread \<noteq> None then original_thread else current_thread e) in
      case map_of (pool_stacks e) lookup_thread of
        None \<Rightarrow> ([this_pool], e)
      | Some pool_stack \<Rightarrow> (case last_index this_pool pool_stack of
            None \<Rightarrow> ([this_pool], e)
          | Some index \<Rightarrow> (rev (drop index pool_stack),
              e\<lparr>pool_stacks := AList.update lookup_thread (take index pool_stack) (pool_stacks e)\<rparr>)))"

function (sequential) msg_release :: "nat \<Rightarrow> objc_id \<Rightarrow> objc_env \<Rightarrow> objc_env option"
  and msg_dealloc :: "nat \<Rightarrow> objc_id \<Rightarrow> objc_env \<Rightarrow> objc_env option"
  and release_all :: "nat \<Rightarrow> objc_id list \<Rightarrow> objc_env \<Rightarrow> objc_env option"
  and drop_pools :: "nat \<Rightarrow> objc_id \<Rightarrow> objc_id list \<Rightarrow> objc_env \<Rightarrow> objc_env option" where
  "msg_release 0 obj e = Some e"
| "msg_release (Suc n) obj e = do {
     k \<leftarrow> receiver_of obj e;
     (if k = None then Some e
      else (case decrement_refcount obj e of (dead, e) \<Rightarrow> if dead then msg_dealloc n obj e else Some e))
   }"
| "msg_dealloc 0 obj e = Some e"
| "msg_dealloc (Suc n) obj e = do {
     k \<leftarrow> receiver_of obj e;
     (case k of
        None \<Rightarrow> Some e
      | Some NSObject_methods \<Rightarrow> (case take_kvc obj e of (to_release, e) \<Rightarrow> do {
          e \<leftarrow> release_all n to_release e;
          dealloc_object obj e
        })
      | Some Pool_methods \<Rightarrow> (case pools_to_drop obj e of (to_drop, e) \<Rightarrow> drop_pools n obj to_drop e))
   }"
| "release_all n [] e = Some e"
| "release_all n (obj # os) e = do {
     e \<leftarrow> (if obj = nil then Some e else msg_release n obj e);
     release_all n os e
   }"
| "drop_pools n this_pool [] e = Some e"
| "drop_pools n this_pool (pool # pools) e = do {
     let e = (if pool \<noteq> this_pool then snd (decrement_refcount pool e) else e);
     let os = snd (borrow_pool pool e);
     e \<leftarrow> dealloc_object pool (put_pool_objects pool [] e);
     e \<leftarrow> release_all n os e;
     drop_pools n this_pool pools e
   }"
  by pat_completeness auto
termination
  by (relation "measures
      [\<lambda>x. case x of Inl (Inl (n, _)) \<Rightarrow> n | Inl (Inr (n, _)) \<Rightarrow> n | Inr (Inl (n, _)) \<Rightarrow> n | Inr (Inr (n, _)) \<Rightarrow> n,
       \<lambda>x. case x of Inl _ \<Rightarrow> 0 | Inr (Inl _) \<Rightarrow> 1 | Inr (Inr _) \<Rightarrow> 2,
       \<lambda>x. case x of Inl _ \<Rightarrow> 0 | Inr (Inl (n, os, _)) \<Rightarrow> length os | Inr (Inr (n, t, ps, e)) \<Rightarrow> length ps]") auto


definition objc_release :: "nat \<Rightarrow> objc_id \<Rightarrow> objc_env \<Rightarrow> objc_env option" where
  "objc_release n obj e = (if obj = nil then Some e else msg_release n obj e)"

definition objc_retain :: "nat \<Rightarrow> objc_id \<Rightarrow> objc_env \<Rightarrow> (objc_id \<times> objc_env) option" where
  "objc_retain n obj e =
     (if obj = nil then Some (nil, e)
      else (case n of
          0 \<Rightarrow> Some (nil, e)
        | Suc _ \<Rightarrow> do {
            k \<leftarrow> receiver_of obj e;
            Some (case k of
                None \<Rightarrow> (nil, e)
              | Some NSObject_methods \<Rightarrow> (obj, increment_refcount obj e)
              | Some Pool_methods \<Rightarrow> (obj, e))
          }))"

text \<open>\<open>NSAutoreleasePool\<close>: \<open>init\<close>, \<open>addObject:\<close> on a pool and on the class, \<open>drain\<close>.\<close>

definition pool_add :: "nat \<Rightarrow> objc_id \<Rightarrow> objc_id \<Rightarrow> objc_env \<Rightarrow> objc_env option" where
  "pool_add n pool obj e =
     (case n of
        0 \<Rightarrow> Some e
      | Suc _ \<Rightarrow> do {
          k \<leftarrow> receiver_of pool e;
          Some (if k = Some Pool_methods then put_pool_objects pool (snd (borrow_pool pool e) @ [obj]) e else e)
        })"

definition pool_class_add :: "nat \<Rightarrow> objc_id \<Rightarrow> objc_env \<Rightarrow> objc_env option" where
  "pool_class_add n obj e =
     (case n of
        0 \<Rightarrow> Some e
      | Suc n \<Rightarrow> (case map_of (pool_stacks e) (current_thread e) of
            None \<Rightarrow> Some e
          | Some pool_stack \<Rightarrow> if pool_stack = [] then Some e else pool_add n (last pool_stack) obj e))"

definition objc_autorelease :: "nat \<Rightarrow> objc_id \<Rightarrow> objc_env \<Rightarrow> (objc_id \<times> objc_env) option" where
  "objc_autorelease n obj e =
     (if obj = nil then Some (nil, e)
      else (case n of
          0 \<Rightarrow> Some (nil, e)
        | Suc n \<Rightarrow> do {
            k \<leftarrow> receiver_of obj e;
            (case k of
               None \<Rightarrow> Some (nil, e)
             | Some Pool_methods \<Rightarrow> Some (obj, e)
             | Some NSObject_methods \<Rightarrow> do {
                 e \<leftarrow> pool_class_add n obj e;
                 Some (obj, e)
               })
          }))"

definition pool_new :: "u32 \<Rightarrow> objc_env \<Rightarrow> (objc_id \<times> objc_env) option" where
  "pool_new isa e = do {
     (pool, e) \<leftarrow> alloc_object isa (Host_pool (current_thread e) []) e;
     let stack = (case map_of (pool_stacks e) (current_thread e) of Some ps \<Rightarrow> ps | None \<Rightarrow> []);
     Some (pool, e\<lparr>pool_stacks := AList.update (current_thread e) (stack @ [pool]) (pool_stacks e)\<rparr>)
   }"

definition pool_drain :: "nat \<Rightarrow> objc_id \<Rightarrow> objc_env \<Rightarrow> objc_env option" where
  "pool_drain n pool e =
     (case n of
        0 \<Rightarrow> Some e
      | Suc n \<Rightarrow> do {
          k \<leftarrow> receiver_of pool e;
          (if k = Some Pool_methods then msg_release n pool e else Some e)
        })"

definition objc_loadWeakRetained :: "nat \<Rightarrow> vaddr \<Rightarrow> objc_env \<Rightarrow> (objc_id \<times> objc_env) option" where
  "objc_loadWeakRetained n location e =
     (if location = 0 then Some (nil, e)
      else do {
        v \<leftarrow> read_u32 (omem e) location;
        (if v = nil then Some (nil, e)
         else do {
           (_, e) \<leftarrow> objc_retain n v e;
           Some (v, e)
         })
      })"

definition objc_loadWeak :: "nat \<Rightarrow> vaddr \<Rightarrow> objc_env \<Rightarrow> (objc_id \<times> objc_env) option" where
  "objc_loadWeak n location e = do {
     (v, e) \<leftarrow> objc_loadWeakRetained n location e;
     (if v = nil then Some (nil, e) else objc_autorelease n v e)
   }"

section \<open>Associated objects\<close>

definition OBJC_ASSOCIATION_RETAIN_NONATOMIC :: u32 where "OBJC_ASSOCIATION_RETAIN_NONATOMIC = 1"

definition OBJC_ASSOCIATION_COPY_NONATOMIC :: u32 where "OBJC_ASSOCIATION_COPY_NONATOMIC = 3"

definition OBJC_ASSOCIATION_RETAIN :: u32 where "OBJC_ASSOCIATION_RETAIN = 769"

definition OBJC_ASSOCIATION_COPY :: u32 where "OBJC_ASSOCIATION_COPY = 771"

definition set_association :: "objc_id \<times> u32 \<Rightarrow> objc_id \<times> bool \<Rightarrow> objc_env \<Rightarrow> objc_env" where
  "set_association k v e = e\<lparr>objc := (objc e)\<lparr>associated_objects := AList.update k v (associated_objects (objc e))\<rparr>\<rparr>"

definition drop_association :: "objc_id \<times> u32 \<Rightarrow> objc_env \<Rightarrow> objc_env" where
  "drop_association k e = e\<lparr>objc := (objc e)\<lparr>associated_objects := AList.delete k (associated_objects (objc e))\<rparr>\<rparr>"

text \<open>\<open>copy_msg\<close> is the message \<open>copy\<close> to the value.\<close>

definition objc_setAssociatedObject ::
    "(objc_id \<Rightarrow> objc_env \<Rightarrow> (objc_id \<times> objc_env) option) \<Rightarrow> nat \<Rightarrow> objc_id \<Rightarrow> u32 \<Rightarrow> objc_id \<Rightarrow> u32 \<Rightarrow> objc_env \<Rightarrow>
      objc_env option" where
  "objc_setAssociatedObject copy_msg n object key val policy e =
     (if object = nil then Some e
      else do {
        let map_key = (object, key);
        e \<leftarrow> (case map_of (associated_objects (objc e)) map_key of
           Some (old_val, was_retained) \<Rightarrow>
             (let e = drop_association map_key e in
              if was_retained \<and> old_val \<noteq> nil then objc_release n old_val e else Some e)
         | None \<Rightarrow> Some e);
        (if val = nil then Some e
         else if policy = OBJC_ASSOCIATION_RETAIN_NONATOMIC \<or> policy = OBJC_ASSOCIATION_RETAIN then do {
           (_, e) \<leftarrow> objc_retain n val e;
           Some (set_association map_key (val, True) e)
         }
         else if policy = OBJC_ASSOCIATION_COPY_NONATOMIC \<or> policy = OBJC_ASSOCIATION_COPY then do {
           (copied, e) \<leftarrow> copy_msg val e;
           Some (set_association map_key (copied, True) e)
         }
         else Some (set_association map_key (val, False) e))
      })"

definition objc_getAssociatedObject :: "objc_id \<Rightarrow> u32 \<Rightarrow> objc_env \<Rightarrow> objc_id" where
  "objc_getAssociatedObject object key e =
     (if object = nil then nil
      else case map_of (associated_objects (objc e)) (object, key) of Some (v, _) \<Rightarrow> v | None \<Rightarrow> nil)"

fun remove_associations :: "nat \<Rightarrow> ((objc_id \<times> u32) \<times> objc_id \<times> bool) list \<Rightarrow> objc_env \<Rightarrow> objc_env option" where
  "remove_associations n [] e = Some e"
| "remove_associations n ((k, v, was_retained) # to_remove) e = do {
     let e = drop_association k e;
     e \<leftarrow> (if was_retained \<and> v \<noteq> nil then objc_release n v e else Some e);
     remove_associations n to_remove e
   }"

definition objc_removeAssociatedObjects :: "nat \<Rightarrow> objc_id \<Rightarrow> objc_env \<Rightarrow> objc_env option" where
  "objc_removeAssociatedObjects n object e =
     (if object = nil then Some e
      else remove_associations n (filter (\<lambda>((obj, _), _). obj = object) (associated_objects (objc e))) e)"

end
