(* ===== verification/ObjcWeak.thy ===== *)
theory ObjcWeak
  imports ObjcRefs
begin

text \<open>
  Properties of the lifetime of Objective-C objects: weak references never dangle, whatever sequence of calls
  of the runtime a guest program makes, and no such sequence panics; references are counted exactly; and what the
  code does with associated objects that its comments do not say.
\<close>

section \<open>Agreement of the tables with memory\<close>

definition window :: "vaddr \<Rightarrow> nat set" where
  "window l = {unat l ..< unat l + 4}"

definition addressable :: "mem \<Rightarrow> vaddr \<Rightarrow> bool" where
  "addressable m p \<longleftrightarrow> null_segment_size m \<le> p \<or> unat p mod 4096 \<le> 4092"

fun host_ids :: "host_object \<Rightarrow> objc_id set" where
  "host_ids (Host_pool t os) = set os"
| "host_ids _ = {}"

definition object_ids :: "(objc_id \<times> host_object_entry) list \<Rightarrow> objc_id set" where
  "object_ids xs = fst ` set xs \<union> (\<Union>x \<in> set xs. host_ids (host_object (snd x)))"

definition pool_ids :: "(objc_id \<times> nat \<times> objc_id list) list \<Rightarrow> objc_id set" where
  "pool_ids xs = (\<Union>x \<in> set xs. set (snd (snd x)))"

definition stack_ids :: "(nat \<times> objc_id list) list \<Rightarrow> objc_id set" where
  "stack_ids xs = (\<Union>x \<in> set xs. set (snd x))"

definition assoc_ids :: "((objc_id \<times> u32) \<times> objc_id \<times> bool) list \<Rightarrow> objc_id set" where
  "assoc_ids xs = (\<lambda>x. fst (snd x)) ` set xs"

definition kvc_ids :: "(objc_id \<times> string \<times> objc_id) list \<Rightarrow> objc_id set" where
  "kvc_ids xs = (\<lambda>x. snd (snd x)) ` set xs"

definition stored_ids :: "objc_env \<Rightarrow> objc_id set" where
  "stored_ids e = object_ids (objects (objc e)) \<union> kvc_ids (kvc_storage e) \<union> pool_ids (phantom_pools e) \<union>
     stack_ids (pool_stacks e) \<union> assoc_ids (associated_objects (objc e))"

definition slots_ok :: "vaddr set \<Rightarrow> objc_env \<Rightarrow> bool" where
  "slots_ok W e \<longleftrightarrow>
     (\<forall>l \<in> W. null_segment_size (omem e) \<le> l \<and>
       (\<exists>B \<in> blocks (omem e). c_base B \<noteq> 0 \<and> window l \<subseteq> extent B \<and> entry_at e (c_base B) = None)) \<and>
     (\<forall>l \<in> W. \<forall>l' \<in> W. l \<noteq> l' \<longrightarrow> window l \<inter> window l' = {})"

text \<open>Which slots the side table has for which objects.\<close>

definition registered :: "objc \<Rightarrow> (objc_id \<times> vaddr) set" where
  "registered ob = {(t, l). \<exists>ls. map_of (weak_refs ob) t = Some ls \<and> l \<in> set ls}"

definition weak_ok :: "vaddr set \<Rightarrow> objc_env \<Rightarrow> bool" where
  "weak_ok W e \<longleftrightarrow>
     (\<forall>(t, l) \<in> registered (objc e). t \<noteq> nil \<and> entry_at e t \<noteq> None \<and> l \<in> W \<and> read_u32 (omem e) l = Some t) \<and>
     (\<forall>l \<in> W. \<exists>v. read_u32 (omem e) l = Some v \<and> (v = nil \<or> (v, l) \<in> registered (objc e)))"

definition objc_inv :: "vaddr set \<Rightarrow> objc_env \<Rightarrow> bool" where
  "objc_inv W e \<longleftrightarrow> mem_ok (omem e) \<and> slots_ok W e \<and> weak_ok W e \<and> (\<forall>p \<in> stored_ids e. addressable (omem e) p)"

text \<open>A step that panics nowhere and ends in a good state with the same null segment.\<close>

definition good_to :: "vaddr set \<Rightarrow> objc_env \<Rightarrow> objc_env \<Rightarrow> bool" where
  "good_to W e e' \<longleftrightarrow> objc_inv W e' \<and> null_segment_size (omem e') = null_segment_size (omem e)"

lemma good_toI: "objc_inv W e' \<Longrightarrow> null_segment_size (omem e') = null_segment_size (omem e) \<Longrightarrow> good_to W e e'"
  by (simp add: good_to_def)

lemma good_toD: "good_to W e e' \<Longrightarrow> objc_inv W e'" "good_to W e e' \<Longrightarrow> addressable (omem e') p = addressable (omem e) p"
  by (simp_all add: good_to_def addressable_def)

lemma good_trans: "good_to W e e1 \<Longrightarrow> good_to W e1 e2 \<Longrightarrow> good_to W e e2"
  by (simp add: good_to_def)

lemma good_refl: "objc_inv W e \<Longrightarrow> good_to W e e"
  by (simp add: good_to_def)

section \<open>Reading and writing\<close>

lemma read_addressable: "addressable m p \<Longrightarrow> \<exists>v. read_u32 m p = Some v"
proof (cases "null_segment_size m \<le> p")
  case True
  have "unat p + 4 \<le> BYTES_LEN" by (rule BYTES_LEN_ge) simp
  with True show ?thesis by (simp add: read_u32_def read_raw_array)
next
  case False
  assume "addressable m p"
  with False have "unat p mod 4096 + unat (4 :: u32) \<le> 4096" by (simp add: addressable_def)
  moreover from False have "p < null_segment_size m" by simp
  ultimately show ?thesis by (simp add: read_u32_def read_raw_null)
qed

lemma receiver_total: "addressable (omem e) obj \<Longrightarrow> \<exists>k. receiver_of obj e = Some k"
  using read_addressable [of "omem e" obj] by (auto simp: receiver_of_def read_isa_def)

lemma update_fst: "fst ` set (AList.update k v xs) = insert k (fst ` set xs)"
  using dom_update [of k v xs] by simp

lemma update_set: "set (AList.update k v xs) \<subseteq> insert (k, v) (set xs)"
  by (induction xs) auto

lemma delete_set: "set (AList.delete k xs) \<subseteq> set xs"
  by (auto simp: AList.delete_eq)

lemma objects_map: "entry_at e obj = Some ent \<Longrightarrow> (obj, ent) \<in> set (objects (objc e))"
  by (rule map_of_SomeD)

lemma inv_cong:
  assumes "objc_inv W e" "omem e' = omem e" "weak_refs (objc e') = weak_refs (objc e)"
    "\<And>obj. entry_at e' obj = None \<longleftrightarrow> entry_at e obj = None"
    "\<And>p. p \<in> stored_ids e' \<Longrightarrow> p \<in> stored_ids e \<or> addressable (omem e) p"
  shows "good_to W e e'"
proof -
  have "slots_ok W e' = slots_ok W e" unfolding slots_ok_def assms(2,4) ..
  moreover have "weak_ok W e' = weak_ok W e" unfolding weak_ok_def registered_def assms(2,3,4) ..
  ultimately show ?thesis using assms(1,2,5) by (auto simp: good_to_def objc_inv_def)
qed


lemma ids_update:
  "object_ids (AList.update k ent xs) \<subseteq> insert k (object_ids xs \<union> host_ids (host_object ent))"
  "pool_ids (AList.update k tp ps) \<subseteq> pool_ids ps \<union> set (snd tp)"
  "stack_ids (AList.update t st ss) \<subseteq> stack_ids ss \<union> set st"
  "assoc_ids (AList.update ak av as) \<subseteq> insert (fst av) (assoc_ids as)"
proof -
  show "object_ids (AList.update k ent xs) \<subseteq> insert k (object_ids xs \<union> host_ids (host_object ent))"
    using update_set [of k ent xs] by (fastforce simp: object_ids_def)
  show "pool_ids (AList.update k tp ps) \<subseteq> pool_ids ps \<union> set (snd tp)"
    using update_set [of k tp ps] by (fastforce simp: pool_ids_def)
  show "stack_ids (AList.update t st ss) \<subseteq> stack_ids ss \<union> set st"
    using update_set [of t st ss] by (fastforce simp: stack_ids_def)
  show "assoc_ids (AList.update ak av as) \<subseteq> insert (fst av) (assoc_ids as)"
    using update_set [of ak av as] by (fastforce simp: assoc_ids_def)
qed

lemma ids_delete: "object_ids (AList.delete k xs) \<subseteq> object_ids xs" "assoc_ids (AList.delete ak as) \<subseteq> assoc_ids as"
  using delete_set [of k xs] delete_set [of ak as] by (auto simp: object_ids_def assoc_ids_def)

lemma ids_map_of:
  "map_of xs obj = Some ent \<Longrightarrow> insert obj (host_ids (host_object ent)) \<subseteq> object_ids xs"
  "map_of ps p = Some (t, os) \<Longrightarrow> set os \<subseteq> pool_ids ps"
  "map_of ss u = Some st \<Longrightarrow> set st \<subseteq> stack_ids ss"
  "map_of as k = Some (v, b) \<Longrightarrow> v \<in> assoc_ids as"
  by (drule map_of_SomeD, force simp: object_ids_def pool_ids_def stack_ids_def assoc_ids_def)+

lemma stored_set_entry:
  "stored_ids (set_entry obj ent e) \<subseteq> insert obj (stored_ids e \<union> host_ids (host_object ent))"
  using ids_update(1) [of obj ent "objects (objc e)"] unfolding stored_ids_def set_entry_def by simp blast

lemma set_entry_simps [simp]:
  "omem (set_entry obj ent e) = omem e" "weak_refs (objc (set_entry obj ent e)) = weak_refs (objc e)"
  "entry_at (set_entry obj ent e) p = (if p = obj then Some ent else entry_at e p)"
  "kvc_storage (set_entry obj ent e) = kvc_storage e" "pool_stacks (set_entry obj ent e) = pool_stacks e"
  "current_thread (set_entry obj ent e) = current_thread e" "associated_objects (objc (set_entry obj ent e)) = associated_objects (objc e)"
  by (simp_all add: set_entry_def update_conv')

lemma set_entry_good:
  assumes "objc_inv W e" "entry_at e obj = Some ent0" "\<And>p. p \<in> host_ids (host_object ent) \<Longrightarrow> p \<in> stored_ids e \<or> addressable (omem e) p"
  shows "good_to W e (set_entry obj ent e)"
proof (rule inv_cong [OF assms(1)])
  fix p assume "p \<in> stored_ids (set_entry obj ent e)"
  moreover have "obj \<in> stored_ids e" using ids_map_of(1) [OF assms(2)] unfolding stored_ids_def by blast
  ultimately show "p \<in> stored_ids e \<or> addressable (omem e) p" using stored_set_entry [of obj ent e] assms(3) by blast
qed (use assms(2) in auto)

lemma ent_ids: "entry_at e obj = Some ent \<Longrightarrow> host_ids (host_object ent) \<subseteq> stored_ids e"
  using ids_map_of(1) [of "objects (objc e)" obj ent] unfolding stored_ids_def by blast

lemma increment_good: "objc_inv W e \<Longrightarrow> good_to W e (increment_refcount obj e)"
  using ent_ids [of e obj]
  by (auto simp: increment_refcount_def good_refl split: option.splits intro!: set_entry_good)

lemma decrement_good: "objc_inv W e \<Longrightarrow> good_to W e (snd (decrement_refcount obj e))"
  using ent_ids [of e obj]
  by (auto simp: decrement_refcount_def good_refl split: option.splits intro!: set_entry_good)

lemma take_kvc_good:
  assumes "objc_inv W e"
  shows "good_to W e (snd (take_kvc obj e))" "v \<in> set (fst (take_kvc obj e)) \<Longrightarrow> addressable (omem e) v"
proof -
  show "good_to W e (snd (take_kvc obj e))"
    by (rule inv_cong [OF assms]) (auto simp: take_kvc_def stored_ids_def kvc_ids_def)
  assume "v \<in> set (fst (take_kvc obj e))"
  then have "v \<in> stored_ids e" by (force simp: take_kvc_def stored_ids_def kvc_ids_def)
  with assms show "addressable (omem e) v" by (simp add: objc_inv_def)
qed

lemma borrow_pool_ids: "set (snd (borrow_pool pool e)) \<subseteq> stored_ids e"
proof -
  have "set os \<subseteq> stored_ids e" if "map_of (phantom_pools e) pool = Some (t, os)" for t os
    using ids_map_of(2) [OF that] unfolding stored_ids_def by blast
  moreover have "set os \<subseteq> stored_ids e" if "entry_at e pool = Some ent" "host_object ent = Host_pool t os" for ent t os
    using ent_ids [OF that(1)] that(2) by simp
  ultimately show ?thesis by (auto simp: borrow_pool_def split: option.splits host_object.splits)
qed

lemma put_pool_good:
  assumes "objc_inv W e" "\<And>p. p \<in> set os \<Longrightarrow> p \<in> stored_ids e \<or> addressable (omem e) p"
  shows "good_to W e (put_pool_objects pool os e)"
proof -
  let ?p = "e\<lparr>phantom_pools := AList.update pool (fst (borrow_pool pool e), os) (phantom_pools e)\<rparr>"
  have "good_to W e ?p"
  proof (rule inv_cong [OF assms(1)])
    fix p assume "p \<in> stored_ids ?p"
    then show "p \<in> stored_ids e \<or> addressable (omem e) p"
      using ids_update(2) [of pool "(fst (borrow_pool pool e), os)" "phantom_pools e"] assms(2) [of p]
      unfolding stored_ids_def by simp blast
  qed auto
  moreover have "good_to W e (set_entry pool (ent\<lparr>host_object := Host_pool t os\<rparr>) e)" if "entry_at e pool = Some ent" for ent t
    using assms that by (intro set_entry_good) auto
  ultimately show ?thesis by (auto simp: put_pool_objects_def Let_def split: option.splits host_object.splits)
qed

lemma pools_to_drop_good:
  assumes "objc_inv W e" "addressable (omem e) pool"
  shows "good_to W e (snd (pools_to_drop pool e))" "p \<in> set (fst (pools_to_drop pool e)) \<Longrightarrow> addressable (omem e) p"
proof -
  have st: "set ps \<subseteq> stored_ids e" if "map_of (pool_stacks e) t = Some ps" for t ps
    using ids_map_of(3) [OF that] unfolding stored_ids_def by blast
  let ?u = "\<lambda>t ps. e\<lparr>pool_stacks := AList.update t ps (pool_stacks e)\<rparr>"
  have "good_to W e (?u t (take i ps))" if "map_of (pool_stacks e) t = Some ps" for t i ps
  proof (rule inv_cong [OF assms(1)])
    fix p assume "p \<in> stored_ids (?u t (take i ps))"
    then show "p \<in> stored_ids e \<or> addressable (omem e) p"
      using ids_update(3) [of t "take i ps" "pool_stacks e"] ids_map_of(3) [OF that] set_take_subset [of i ps]
      unfolding stored_ids_def by simp blast
  qed auto
  then show "good_to W e (snd (pools_to_drop pool e))"
    using good_refl [OF assms(1)] by (auto simp: pools_to_drop_def Let_def split: option.splits)
  assume "p \<in> set (fst (pools_to_drop pool e))"
  then have "p = pool \<or> p \<in> stored_ids e"
    using st by (auto simp: pools_to_drop_def Let_def split: option.splits if_splits dest!: in_set_dropD)
  with assms show "addressable (omem e) p" by (auto simp: objc_inv_def)
qed


section \<open>Memory under the slots\<close>

definition same_frame :: "mem \<Rightarrow> mem \<Rightarrow> bool" where
  "same_frame m m' \<longleftrightarrow> mem_allocator m' = mem_allocator m \<and> null_segment_size m' = null_segment_size m"

lemma same_frame_refl [simp]: "same_frame m m" by (simp add: same_frame_def)

lemma same_frame_trans: "same_frame m m1 \<Longrightarrow> same_frame m1 m2 \<Longrightarrow> same_frame m m2" by (simp add: same_frame_def)

lemma same_frameD:
  "same_frame m m' \<Longrightarrow> mem_ok m' = mem_ok m" "same_frame m m' \<Longrightarrow> blocks m' = blocks m"
  "same_frame m m' \<Longrightarrow> null_segment_size m' = null_segment_size m"
  "same_frame m m' \<Longrightarrow> addressable m' p = addressable m p"
  by (simp_all add: same_frame_def mem_ok_def addressable_def)

lemma read_u32_bytes:
  assumes "null_segment_size m' = null_segment_size m" "null_segment_size m \<le> l" "\<forall>i \<in> window l. mem_bytes m' i = mem_bytes m i"
  shows "read_u32 m' l = read_u32 m l"
proof -
  have "unat l + 4 \<le> BYTES_LEN" by (rule BYTES_LEN_ge) simp
  moreover have "map (mem_bytes m') [unat l..<unat l + 4] = map (mem_bytes m) [unat l..<unat l + 4]"
    using assms(3) by (auto simp: window_def)
  ultimately show ?thesis using assms(1,2) by (simp add: read_u32_def read_raw_array del: map_eq_conv)
qed

lemma write_slot:
  assumes "null_segment_size m \<le> p"
  obtains m' where "write_u32 p v m = Some m'" "same_frame m m'" "read_u32 m' p = Some v"
    "\<And>l. null_segment_size m \<le> l \<Longrightarrow> window p \<inter> window l = {} \<Longrightarrow> read_u32 m' l = read_u32 m l"
proof -
  from store_u32 [OF assms, of v] obtain m' where m': "write_u32 p v m = Some m'" "read_u32 m' p = Some v"
    "changed_within (unat p) (unat p + 4) m m'" by blast
  have "read_u32 m' l = read_u32 m l" if "null_segment_size m \<le> l" "window p \<inter> window l = {}" for l
    using m'(3) that(2) by (intro read_u32_bytes [OF _ that(1)]) (auto simp: changed_within_def window_def)
  with m' that show thesis by (auto simp: same_frame_def changed_within_def)
qed

lemma write_null_slot:
  assumes "addressable m p" "p < null_segment_size m"
  obtains m' where "write_u32 p v m = Some m'" "same_frame m m'" "mem_bytes m' = mem_bytes m"
proof -
  have "le_bytes 4 v \<noteq> []" using length_le_bytes [of 4 v] by fastforce
  moreover have "unat p mod 4096 + 4 \<le> 4096" using assms by (auto simp: addressable_def)
  ultimately show thesis using that write_raw_null [OF assms(2), of "le_bytes 4 v"]
    by (simp add: write_u32_def same_frame_def)
qed

lemma zero_slots_ok:
  assumes "obj \<noteq> nil" "set ls \<subseteq> W" "\<And>l. l \<in> W \<Longrightarrow> null_segment_size m \<le> l"
    "\<And>l l'. l \<in> W \<Longrightarrow> l' \<in> W \<Longrightarrow> l \<noteq> l' \<Longrightarrow> window l \<inter> window l' = {}"
  shows "\<exists>m'. zero_slots obj ls m = Some m' \<and> same_frame m m' \<and>
    (\<forall>l \<in> W. read_u32 m' l = (if l \<in> set ls \<and> read_u32 m l = Some obj then Some nil else read_u32 m l))"
  using assms(2,3)
proof (induction ls arbitrary: m)
  case (Cons s ls)
  have s: "s \<in> W" "null_segment_size m \<le> s" using Cons.prems by auto
  then obtain v where v: "read_u32 m s = Some v" using read_addressable [of m s] by (auto simp: addressable_def)
  obtain m1 where m1: "write_u32 s nil m = Some m1" "same_frame m m1" "read_u32 m1 s = Some nil"
    "\<And>l. null_segment_size m \<le> l \<Longrightarrow> window s \<inter> window l = {} \<Longrightarrow> read_u32 m1 l = read_u32 m l"
    by (rule write_slot [OF s(2), of nil]) blast
  have ls: "set ls \<subseteq> W" using Cons.prems(1) by simp
  show ?case
  proof (cases "v = obj")
    case True
    have o1: "read_u32 m1 l = read_u32 m l" if "l \<in> W" "l \<noteq> s" for l
      by (rule m1(4) [OF Cons.prems(2) [OF that(1)] assms(4) [OF s(1) that(1)]]) (use that(2) in simp)
    have n1: "null_segment_size m1 \<le> l" if "l \<in> W" for l using Cons.prems(2) [OF that] same_frameD(3) [OF m1(2)] by simp
    from Cons.IH [OF ls n1] obtain m2 where m2: "zero_slots obj ls m1 = Some m2" "same_frame m1 m2"
      "\<forall>l \<in> W. read_u32 m2 l = (if l \<in> set ls \<and> read_u32 m1 l = Some obj then Some nil else read_u32 m1 l)" by blast
    have all: "read_u32 m2 l = (if l \<in> set (s # ls) \<and> read_u32 m l = Some obj then Some nil else read_u32 m l)" if "l \<in> W" for l
    proof (cases "l = s")
      case True
      then show ?thesis using bspec [OF m2(3) that] m1(3) v \<open>v = obj\<close> assms(1) by simp
    next
      case False
      then show ?thesis using bspec [OF m2(3) that] o1 [OF that] by simp
    qed
    have "zero_slots obj (s # ls) m = Some m2" using m2(1) m1(1) v True by simp
    with all same_frame_trans [OF m1(2) m2(2)] show ?thesis by blast
  next
    case False
    from Cons.IH [OF ls Cons.prems(2)] obtain m2 where m2: "zero_slots obj ls m = Some m2" "same_frame m m2"
      "\<forall>l \<in> W. read_u32 m2 l = (if l \<in> set ls \<and> read_u32 m l = Some obj then Some nil else read_u32 m l)" by blast
    have "zero_slots obj (s # ls) m = Some m2" using m2(1) v False by simp
    moreover have "read_u32 m2 l = (if l \<in> set (s # ls) \<and> read_u32 m l = Some obj then Some nil else read_u32 m l)" if "l \<in> W" for l
      using bspec [OF m2(3) that] v False by auto
    ultimately show ?thesis using m2(2) by blast
  qed
qed simp

lemma free_slots:
  assumes m: "mem_ok m"
  obtains m' where "Mem_free p m = Some m'" "mem_ok m'" "null_segment_size m' = null_segment_size m"
    "\<And>B. B \<in> blocks m \<Longrightarrow> c_base B \<noteq> p \<Longrightarrow> B \<in> blocks m' \<and> (\<forall>i \<in> extent B. mem_bytes m' i = mem_bytes m i)"
  using m
proof (rule Mem_free_cases [where p = p])
  fix F m' assume F: "F \<in> blocks m" "c_base F = p" "Mem_free p m = Some m'" "mem_ok m'" "blocks m' = blocks m - {F}"
    "null_segment_size m' = null_segment_size m"
    "mem_bytes m' = (if zero_memory_on_free m then poke (cb F) (replicate (cs F) 0) (mem_bytes m) else mem_bytes m)"
  have keep: "B \<in> blocks m' \<and> (\<forall>i \<in> extent B. mem_bytes m' i = mem_bytes m i)" if B: "B \<in> blocks m" "c_base B \<noteq> p" for B
  proof -
    have "B \<noteq> F" using B F(2) by auto
    with heap.live_disjoint [OF mem_okD [OF m] B(1) F(1)] have d: "extent B \<inter> extent F = {}" by blast
    have "poke (cb F) (replicate (cs F) 0) (mem_bytes m) i = mem_bytes m i" if "i \<in> extent B" for i
      using that d by (intro poke_out) (auto simp: extent_def)
    with B \<open>B \<noteq> F\<close> F show ?thesis by simp
  qed
  show thesis by (rule that [OF F(3,4,6) keep])
qed (use that m in auto)

lemma base_in_extent: "mem_ok m \<Longrightarrow> B \<in> blocks m \<Longrightarrow> cb B \<in> extent B"
  using heap.live_wf [OF mem_okD] cb_in_extent by blast

lemma alloc_slots:
  assumes m: "mem_ok m"
  obtains p m' where "Mem_alloc sz m = Some (p, m')" "mem_ok m'" "null_segment_size m' = null_segment_size m"
    "\<And>B. B \<in> blocks m \<Longrightarrow> B \<in> blocks m' \<and> (\<forall>i \<in> extent B. mem_bytes m' i = mem_bytes m i)"
    "p = 0 \<or> (\<exists>c \<in> blocks m'. c_base c = p \<and> sz \<le> c_size c \<and> (\<forall>B \<in> blocks m. extent c \<inter> extent B = {} \<and> c_base B \<noteq> p))"
  using m
proof (rule Mem_alloc_cases [where sz = sz])
  fix c m' assume c: "Mem_alloc sz m = Some (c_base c, m')" "mem_ok m'" "c \<notin> blocks m" "blocks m' = insert c (blocks m)" "sz \<le> c_size c"
    "null_segment_size m' = null_segment_size m"
    "mem_bytes m' = (if zero_memory_on_free m then mem_bytes m else poke (cb c) (replicate (unat sz) 0) (mem_bytes m))"
  have d: "extent c \<inter> extent B = {}" if "B \<in> blocks m" for B
    using heap.live_disjoint [OF mem_okD [OF c(2)], of c B] that c(3,4) by auto
  have "c_base B \<noteq> c_base c" if "B \<in> blocks m" for B
    using d [OF that] base_in_extent [OF m that] base_in_extent [OF c(2), of c] c(4) by auto
  moreover have "B \<in> blocks m' \<and> (\<forall>i \<in> extent B. mem_bytes m' i = mem_bytes m i)" if "B \<in> blocks m" for B
  proof -
    have "i < cb c \<or> cb c + unat sz \<le> i" if "i \<in> extent B" for i
      using d [OF \<open>B \<in> blocks m\<close>] that c(5) by (auto simp: extent_def word_le_nat_alt)
    then have "poke (cb c) (replicate (unat sz) 0) (mem_bytes m) i = mem_bytes m i" if "i \<in> extent B" for i
      using that by (intro poke_out) simp
    with that c(4,7) show ?thesis by simp
  qed
  ultimately show thesis using that [of "c_base c" m'] c d by blast
qed (use that m in auto)


section \<open>Deallocation\<close>

lemma objc_invD:
  assumes "objc_inv W e"
  shows "mem_ok (omem e)" "slots_ok W e" "weak_ok W e" "p \<in> stored_ids e \<Longrightarrow> addressable (omem e) p"
  using assms by (auto simp: objc_inv_def)

lemma slots_okD:
  assumes "slots_ok W e"
  shows "l \<in> W \<Longrightarrow> null_segment_size (omem e) \<le> l"
    "l \<in> W \<Longrightarrow> l' \<in> W \<Longrightarrow> l \<noteq> l' \<Longrightarrow> window l \<inter> window l' = {}"
    "l \<in> W \<Longrightarrow> \<exists>B \<in> blocks (omem e). c_base B \<noteq> 0 \<and> window l \<subseteq> extent B \<and> entry_at e (c_base B) = None"
  using assms unfolding slots_ok_def by blast+

lemma weak_okD:
  assumes "weak_ok W e"
  shows "(t, l) \<in> registered (objc e) \<Longrightarrow> t \<noteq> nil" "(t, l) \<in> registered (objc e) \<Longrightarrow> entry_at e t \<noteq> None"
    "(t, l) \<in> registered (objc e) \<Longrightarrow> l \<in> W" "(t, l) \<in> registered (objc e) \<Longrightarrow> read_u32 (omem e) l = Some t"
    "l \<in> W \<Longrightarrow> \<exists>v. read_u32 (omem e) l = Some v \<and> (v = nil \<or> (v, l) \<in> registered (objc e))"
  using assms unfolding weak_ok_def by blast+

lemma weak_okI:
  assumes "\<And>t l. (t, l) \<in> registered (objc e) \<Longrightarrow> t \<noteq> nil \<and> entry_at e t \<noteq> None \<and> l \<in> W \<and> read_u32 (omem e) l = Some t"
    "\<And>l. l \<in> W \<Longrightarrow> \<exists>v. read_u32 (omem e) l = Some v \<and> (v = nil \<or> (v, l) \<in> registered (objc e))"
  shows "weak_ok W e"
  using assms unfolding weak_ok_def by blast

lemma registered_register: "registered (register_weak t l ob) = (if t = nil then registered ob else insert (t, l) (registered ob))"
  by (auto simp: registered_def register_weak_def update_conv' split: option.splits if_splits)

lemma registered_delete: "registered (ob\<lparr>weak_refs := AList.delete t (weak_refs ob)\<rparr>) = {(u, l) \<in> registered ob. u \<noteq> t}"
  by (auto simp: registered_def delete_conv' split: if_splits)

lemma registered_unregister: "registered (unregister_weak t l ob) = (if t = nil then registered ob else registered ob - {(t, l)})"
proof (cases "t = nil \<or> map_of (weak_refs ob) t = None")
  case True
  then show ?thesis by (auto simp: unregister_weak_def registered_def)
next
  case False
  then obtain ls where ls: "map_of (weak_refs ob) t = Some ls" "t \<noteq> nil" by auto
  show ?thesis
  proof (cases "filter (\<lambda>k. k \<noteq> l) ls = []")
    case True
    then have "set ls \<subseteq> {l}" by (auto simp: filter_empty_conv)
    moreover have "registered (unregister_weak t l ob) = {(u, l) \<in> registered ob. u \<noteq> t}"
      using ls True by (simp add: unregister_weak_def registered_delete)
    ultimately show ?thesis using ls by (auto simp: registered_def)
  next
    case False
    then show ?thesis using ls
      by (auto simp: unregister_weak_def registered_def update_conv' Let_def split: if_splits)
  qed
qed

lemma slots_ok_frame:
  assumes "slots_ok W e" "same_frame (omem e) (omem e')" "\<And>p. entry_at e p = None \<Longrightarrow> entry_at e' p = None"
  shows "slots_ok W e'"
  using assms(1,3) unfolding slots_ok_def same_frameD(2,3) [OF assms(2)] by blast

lemma zero_weak_good:
  assumes inv: "objc_inv W e" and "obj \<noteq> nil"
  obtains e1 where "zero_weak_references_for obj e = Some e1" "good_to W e e1" "weak_list e1 obj = None"
    "objects (objc e1) = objects (objc e)" "blocks (omem e1) = blocks (omem e)" "associated_objects (objc e1) = associated_objects (objc e)"
proof (cases "weak_list e obj")
  case None
  then show ?thesis using that [of e] good_refl [OF inv] by (simp add: zero_weak_references_for_def)
next
  case (Some ls)
  note W = weak_okD [OF objc_invD(3) [OF inv]] and S = slots_okD [OF objc_invD(2) [OF inv]]
  have "set ls \<subseteq> W" using W(3) Some by (fastforce simp: registered_def)
  from zero_slots_ok [OF assms(2) this S(1,2)] obtain m' where m': "zero_slots obj ls (omem e) = Some m'" "same_frame (omem e) m'"
    "\<And>l. l \<in> W \<Longrightarrow> read_u32 m' l = (if l \<in> set ls \<and> read_u32 (omem e) l = Some obj then Some nil else read_u32 (omem e) l)" by blast
  let ?e = "e\<lparr>objc := (objc e)\<lparr>weak_refs := AList.delete obj (weak_refs (objc e))\<rparr>, omem := m'\<rparr>"
  have wl: "weak_list ?e t = (if t = obj then None else weak_list e t)" for t by (simp add: delete_conv')
  have "weak_ok W ?e"
  proof (rule weak_okI)
    fix t l assume "(t, l) \<in> registered (objc ?e)"
    then have t: "t \<noteq> obj" "(t, l) \<in> registered (objc e)" by (auto simp: registered_delete)
    show "t \<noteq> nil \<and> entry_at ?e t \<noteq> None \<and> l \<in> W \<and> read_u32 (omem ?e) l = Some t"
      using W(1-4) [OF t(2)] m'(3) [OF W(3) [OF t(2)]] t(1) by simp
  next
    fix l assume l: "l \<in> W"
    from W(5) [OF l] obtain v where v: "read_u32 (omem e) l = Some v" "v = nil \<or> (v, l) \<in> registered (objc e)" by blast
    have "l \<in> set ls" if "v = obj" using v(2) that Some assms(2) by (auto simp: registered_def)
    with v m'(3) [OF l] assms(2) show "\<exists>v. read_u32 (omem ?e) l = Some v \<and> (v = nil \<or> (v, l) \<in> registered (objc ?e))"
      by (cases "v = obj") (auto simp: registered_delete)
  qed
  moreover have "slots_ok W ?e" by (rule slots_ok_frame [OF objc_invD(2) [OF inv]]) (use m'(2) in auto)
  moreover have "stored_ids ?e = stored_ids e" by (simp add: stored_ids_def)
  ultimately have "good_to W e ?e"
    using same_frameD [OF m'(2)] inv by (simp add: good_to_def objc_inv_def)
  with m'(1) wl same_frameD(2) [OF m'(2)] show ?thesis
    using Some by (intro that [of ?e]) (simp_all add: zero_weak_references_for_def)
qed

lemma dealloc_good:
  assumes inv: "objc_inv W e"
  obtains e' where "dealloc_object obj e = Some e'" "good_to W e e'" "obj \<noteq> nil \<Longrightarrow> entry_at e' obj = None"
    "associated_objects (objc e') = associated_objects (objc e)"
proof (cases "obj = nil")
  case True
  then show ?thesis using that [of e] good_refl [OF inv] by (simp add: dealloc_object_def)
next
  case False
  obtain e1 where e1: "zero_weak_references_for obj e = Some e1" "good_to W e e1" "weak_list e1 obj = None"
    "objects (objc e1) = objects (objc e)" "associated_objects (objc e1) = associated_objects (objc e)" by (rule zero_weak_good [OF inv False]) blast
  note inv1 = good_toD(1) [OF e1(2)]
  show ?thesis
  proof (cases "entry_at e1 obj")
    case None
    with False e1 show ?thesis by (intro that [of e1]) (auto simp: dealloc_object_def)
  next
    case (Some ent)
    obtain m' where m': "Mem_free obj (omem e1) = Some m'" "mem_ok m'" "null_segment_size m' = null_segment_size (omem e1)"
      "\<And>B. B \<in> blocks (omem e1) \<Longrightarrow> c_base B \<noteq> obj \<Longrightarrow> B \<in> blocks m' \<and> (\<forall>i \<in> extent B. mem_bytes m' i = mem_bytes (omem e1) i)"
      by (rule free_slots [OF objc_invD(1) [OF inv1], of obj]) blast
    let ?e = "e1\<lparr>objc := (objc e1)\<lparr>objects := AList.delete obj (objects (objc e1))\<rparr>, omem := m'\<rparr>"
    note W = weak_okD [OF objc_invD(3) [OF inv1]] and S = slots_okD [OF objc_invD(2) [OF inv1]]
    have ent: "entry_at ?e p = (if p = obj then None else entry_at e1 p)" for p by (simp add: delete_conv')
    have home: "\<exists>B \<in> blocks m'. c_base B \<noteq> 0 \<and> window l \<subseteq> extent B \<and> entry_at e1 (c_base B) = None \<and>
        (\<forall>i \<in> window l. mem_bytes m' i = mem_bytes (omem e1) i)" if l: "l \<in> W" for l
    proof -
      from S(3) [OF l] obtain B where B: "B \<in> blocks (omem e1)" "c_base B \<noteq> 0" "window l \<subseteq> extent B" "entry_at e1 (c_base B) = None" by blast
      then have "c_base B \<noteq> obj" using Some by auto
      from m'(4) [OF B(1) this] B show ?thesis by blast
    qed
    have rd: "read_u32 m' l = read_u32 (omem e1) l" if "l \<in> W" for l
      using home [OF that] by (intro read_u32_bytes m'(3) S(1) that) blast
    have "slots_ok W ?e" unfolding slots_ok_def
    proof (intro conjI ballI impI)
      fix l assume l: "l \<in> W"
      show "null_segment_size (omem ?e) \<le> l" using S(1) [OF l] m'(3) by simp
      show "\<exists>B \<in> blocks (omem ?e). c_base B \<noteq> 0 \<and> window l \<subseteq> extent B \<and> entry_at ?e (c_base B) = None"
        using home [OF l] unfolding ent by auto
    qed (use S(2) in blast)
    moreover have "weak_ok W ?e"
    proof (rule weak_okI)
      fix t l assume "(t, l) \<in> registered (objc ?e)"
      then have t: "(t, l) \<in> registered (objc e1)" by (simp add: registered_def)
      then have "t \<noteq> obj" using e1(3) by (auto simp: registered_def)
      then show "t \<noteq> nil \<and> entry_at ?e t \<noteq> None \<and> l \<in> W \<and> read_u32 (omem ?e) l = Some t"
        using W(1-4) [OF t] ent [of t] rd [OF W(3) [OF t]] by simp
    next
      fix l assume l: "l \<in> W"
      show "\<exists>v. read_u32 (omem ?e) l = Some v \<and> (v = nil \<or> (v, l) \<in> registered (objc ?e))"
        using W(5) [OF l] rd [OF l] by (simp add: registered_def)
    qed
    moreover have "p \<in> stored_ids e1" if "p \<in> stored_ids ?e" for p
      using that ids_delete(1) [of obj "objects (objc e1)"] unfolding stored_ids_def by simp blast
    ultimately have "good_to W e1 ?e" using m'(2,3) objc_invD(4) [OF inv1] by (simp add: good_to_def objc_inv_def addressable_def)
    then have "good_to W e ?e" by (rule good_trans [OF e1(2)])
    moreover have "dealloc_object obj e = Some ?e" using False e1(1) Some m'(1) by (simp add: dealloc_object_def)
    ultimately show ?thesis using ent e1(5) by (intro that [of ?e]) simp_all
  qed
qed


section \<open>Messages\<close>

lemma messages_good:
  "objc_inv W e \<Longrightarrow> addressable (omem e) obj \<Longrightarrow> \<exists>e'. msg_release n obj e = Some e' \<and> good_to W e e'"
  "objc_inv W e \<Longrightarrow> addressable (omem e) obj \<Longrightarrow> \<exists>e'. msg_dealloc n obj e = Some e' \<and> good_to W e e'"
  "objc_inv W e \<Longrightarrow> \<forall>p \<in> set os. addressable (omem e) p \<Longrightarrow> \<exists>e'. release_all n os e = Some e' \<and> good_to W e e'"
  "objc_inv W e \<Longrightarrow> \<exists>e'. drop_pools n this_pool pools e = Some e' \<and> good_to W e e'"
proof (induction n obj e and n obj e and n os e and n this_pool pools e
    rule: msg_release_msg_dealloc_release_all_drop_pools.induct)
  case (2 n obj e)
  from receiver_total [OF 2(3)] obtain k where k: "receiver_of obj e = Some k" by blast
  obtain dead e1 where d: "decrement_refcount obj e = (dead, e1)" by (cases "decrement_refcount obj e")
  have g1: "good_to W e e1" using decrement_good [OF 2(2), of obj] d by simp
  show ?case
  proof (cases "k = None \<or> \<not> dead")
    case True
    with k d g1 good_refl [OF 2(2)] show ?thesis by (auto simp del: not_None_eq)
  next
    case False
    with 2(1) [OF k _ d [symmetric]] good_toD [OF g1] 2(3) obtain e2 where "msg_dealloc n obj e1 = Some e2" "good_to W e1 e2" by auto
    with k d False good_trans [OF g1] show ?thesis by auto
  qed
next
  case (4 n obj e)
  from receiver_total [OF 4(4)] obtain k where k: "receiver_of obj e = Some k" by blast
  show ?case
  proof (cases k)
    case None
    with k good_refl [OF 4(3)] show ?thesis by simp
  next
    case (Some ms)
    show ?thesis
    proof (cases ms)
      case NSObject_methods
      obtain vs e1 where kv: "take_kvc obj e = (vs, e1)" by (cases "take_kvc obj e")
      with take_kvc_good(1) [OF 4(3), of obj] have g1: "good_to W e e1" by simp
      have vs: "\<forall>v \<in> set vs. addressable (omem e1) v"
        using take_kvc_good(2) [OF 4(3), of _ obj] kv good_toD(2) [OF g1] by simp
      from 4(1) [OF k Some NSObject_methods kv [symmetric] good_toD(1) [OF g1] vs] obtain e2 where
        e2: "release_all n vs e1 = Some e2" "good_to W e1 e2" by blast
      obtain e3 where "dealloc_object obj e2 = Some e3" "good_to W e2 e3" by (rule dealloc_good [OF good_toD(1) [OF e2(2)]])
      with k Some NSObject_methods kv e2(1) good_trans [OF good_trans [OF g1 e2(2)]] show ?thesis by simp
    next
      case Pool_methods
      obtain ps e1 where ps: "pools_to_drop obj e = (ps, e1)" by (cases "pools_to_drop obj e")
      with pools_to_drop_good(1) [OF 4(3,4)] have g1: "good_to W e e1" by simp
      from 4(2) [OF k Some Pool_methods ps [symmetric] good_toD(1) [OF g1]] obtain e2 where
        "drop_pools n obj ps e1 = Some e2" "good_to W e1 e2" by blast
      with k Some Pool_methods ps good_trans [OF g1] show ?thesis by simp
    qed
  qed
next
  case (6 n obj os e)
  obtain e1 where e1: "(if obj = nil then Some e else msg_release n obj e) = Some e1" "good_to W e e1"
    using 6(1) [OF _ 6(3)] 6(4) good_refl [OF 6(3)] by (cases "obj = nil") auto
  have "\<forall>p \<in> set os. addressable (omem e1) p" using 6(4) good_toD(2) [OF e1(2)] by simp
  from 6(2) [OF e1(1) good_toD(1) [OF e1(2)] this] obtain e2 where "release_all n os e1 = Some e2" "good_to W e1 e2" by blast
  with e1 good_trans [OF e1(2)] show ?case by auto
next
  case (8 n this_pool pool pools e)
  let ?e0 = "if pool \<noteq> this_pool then snd (decrement_refcount pool e) else e"
  let ?os = "snd (borrow_pool pool ?e0)"
  have g0: "good_to W e ?e0" using decrement_good [OF 8(3), of pool] good_refl [OF 8(3)] by simp
  have g1: "good_to W ?e0 (put_pool_objects pool [] ?e0)" by (rule put_pool_good [OF good_toD(1) [OF g0]]) simp
  obtain e2 where e2: "dealloc_object pool (put_pool_objects pool [] ?e0) = Some e2" "good_to W (put_pool_objects pool [] ?e0) e2"
    by (rule dealloc_good [OF good_toD(1) [OF g1]])
  have g2: "good_to W e e2" by (rule good_trans [OF g0 good_trans [OF g1 e2(2)]])
  have "\<forall>p \<in> set ?os. addressable (omem e2) p"
    using borrow_pool_ids [of pool ?e0] objc_invD(4) [OF good_toD(1) [OF g0]] good_toD(2) [OF g1] good_toD(2) [OF e2(2)] by blast
  from 8(1) [OF refl refl e2(1) good_toD(1) [OF g2] this] obtain e3 where e3: "release_all n ?os e2 = Some e3" "good_to W e2 e3" by blast
  from 8(2) [OF refl refl e2(1) e3(1) good_toD(1) [OF e3(2)]] obtain e4 where "drop_pools n this_pool pools e3 = Some e4" "good_to W e3 e4" by blast
  with e2(1) e3(1) good_trans [OF good_trans [OF g2 e3(2)]] show ?case by (auto simp: Let_def)
qed (auto intro: good_refl)


lemmas release_good = messages_good(1)

lemma objc_release_good: "objc_inv W e \<Longrightarrow> addressable (omem e) obj \<Longrightarrow> \<exists>e'. objc_release n obj e = Some e' \<and> good_to W e e'"
  using release_good [of W e obj n] good_refl [of W e] by (auto simp: objc_release_def)

lemma objc_retain_good:
  assumes "objc_inv W e" "addressable (omem e) obj"
  shows "\<exists>v e'. objc_retain n obj e = Some (v, e') \<and> good_to W e e'"
proof -
  from receiver_total [OF assms(2)] obtain k where "receiver_of obj e = Some k" by blast
  with good_refl [OF assms(1)] increment_good [OF assms(1)] show ?thesis
    by (auto simp: objc_retain_def split: nat.splits option.splits methods.splits)
qed

lemma pool_add_good:
  assumes "objc_inv W e" "addressable (omem e) pool" "addressable (omem e) obj"
  shows "\<exists>e'. pool_add n pool obj e = Some e' \<and> good_to W e e'"
proof -
  from receiver_total [OF assms(2)] obtain k where "receiver_of pool e = Some k" by blast
  moreover have "good_to W e (put_pool_objects pool (snd (borrow_pool pool e) @ [obj]) e)"
    using borrow_pool_ids [of pool e] assms(3) by (intro put_pool_good [OF assms(1)]) auto
  ultimately show ?thesis using good_refl [OF assms(1)] by (auto simp: pool_add_def split: nat.splits)
qed

lemma objc_autorelease_good:
  assumes "objc_inv W e" "addressable (omem e) obj"
  shows "\<exists>v e'. objc_autorelease n obj e = Some (v, e') \<and> good_to W e e'"
proof -
  from receiver_total [OF assms(2)] obtain k where k: "receiver_of obj e = Some k" by blast
  have add: "\<exists>e'. pool_class_add n obj e = Some e' \<and> good_to W e e'" for n
  proof (cases "n = 0 \<or> map_of (pool_stacks e) (current_thread e) = None \<or> map_of (pool_stacks e) (current_thread e) = Some []")
    case True
    then show ?thesis using good_refl [OF assms(1)] by (auto simp: pool_class_add_def split: nat.splits)
  next
    case False
    then obtain n' ps where n: "n = Suc n'" "map_of (pool_stacks e) (current_thread e) = Some ps" "ps \<noteq> []"
      by (cases n) auto
    then have "last ps \<in> stored_ids e" using ids_map_of(3) [OF n(2)] last_in_set [OF n(3)] unfolding stored_ids_def by blast
    from pool_add_good [OF assms(1) objc_invD(4) [OF assms(1) this] assms(2), of n'] n show ?thesis by (simp add: pool_class_add_def)
  qed
  show ?thesis
  proof (cases "obj = nil \<or> n = 0 \<or> k \<noteq> Some NSObject_methods")
    case True
    then show ?thesis using k good_refl [OF assms(1)]
      by (auto simp: objc_autorelease_def split: nat.splits option.splits methods.splits)
  next
    case False
    then obtain n' where "n = Suc n'" "obj \<noteq> nil" "k = Some NSObject_methods" by (cases n) auto
    with k add [of n'] show ?thesis by (auto simp: objc_autorelease_def)
  qed
qed

lemma pool_drain_good:
  assumes "objc_inv W e" "addressable (omem e) pool"
  shows "\<exists>e'. pool_drain n pool e = Some e' \<and> good_to W e e'"
proof -
  from receiver_total [OF assms(2)] obtain k where "receiver_of pool e = Some k" by blast
  with release_good [OF assms] good_refl [OF assms(1)] show ?thesis by (auto simp: pool_drain_def split: nat.splits)
qed


section \<open>Weak variables\<close>

text \<open>A place for a weak variable: inside a live block that is no object, apart from the other variables.\<close>

definition slot_place :: "vaddr set \<Rightarrow> vaddr \<Rightarrow> objc_env \<Rightarrow> bool" where
  "slot_place W l e \<longleftrightarrow>
     null_segment_size (omem e) \<le> l \<and>
     (\<exists>B \<in> blocks (omem e). c_base B \<noteq> 0 \<and> window l \<subseteq> extent B \<and> entry_at e (c_base B) = None) \<and>
     (\<forall>l' \<in> W. l' \<noteq> l \<longrightarrow> window l' \<inter> window l = {})"

lemma slot_place_old: "slots_ok W e \<Longrightarrow> l \<in> W \<Longrightarrow> slot_place W l e"
  unfolding slots_ok_def slot_place_def by blast

lemma slots_ok_insert: "slots_ok W e \<Longrightarrow> slot_place W l e \<Longrightarrow> slots_ok (insert l W) e"
proof -
  assume a: "slots_ok W e" "slot_place W l e"
  from a(2) have apart: "window l' \<inter> window l = {}" "window l \<inter> window l' = {}" if "l' \<in> W" "l' \<noteq> l" for l'
    using that by (auto simp: slot_place_def Int_commute)
  show ?thesis
    unfolding slots_ok_def
  proof (intro conjI ballI impI)
    fix x y assume "x \<in> insert l W" "y \<in> insert l W" "x \<noteq> y"
    then show "window x \<inter> window y = {}" using apart slots_okD(2) [OF a(1)] by fast
  next
    fix x assume "x \<in> insert l W"
    then show "null_segment_size (omem e) \<le> x"
      "\<exists>B \<in> blocks (omem e). c_base B \<noteq> 0 \<and> window x \<subseteq> extent B \<and> entry_at e (c_base B) = None"
      using a slots_okD(1,3) [OF a(1)] by (auto simp: slot_place_def)
  qed
qed

lemma slots_ok_subset: "slots_ok W e \<Longrightarrow> V \<subseteq> W \<Longrightarrow> slots_ok V e"
  unfolding slots_ok_def by blast

definition assigned :: "vaddr \<Rightarrow> objc_id \<Rightarrow> objc \<Rightarrow> objc \<Rightarrow> bool" where
  "assigned l v ob ob' \<longleftrightarrow> objects ob' = objects ob \<and> associated_objects ob' = associated_objects ob \<and>
     registered ob' = {(t, l') \<in> registered ob. l' \<noteq> l} \<union> (if v = nil then {} else {(v, l)})"

lemma slot_assign:
  assumes inv: "objc_inv W e" and place: "slot_place W l e" and m': "write_u32 l v (omem e) = Some m'"
    and v: "v = nil \<or> entry_at e v \<noteq> None" and ob: "assigned l v (objc e) ob'"
    and V: "V \<subseteq> insert l W" "W - {l} \<subseteq> V" "l \<in> V \<or> v = nil"
  shows "good_to V e (e\<lparr>objc := ob', omem := m'\<rparr>)"
proof -
  let ?e = "e\<lparr>objc := ob', omem := m'\<rparr>"
  from place have nl: "null_segment_size (omem e) \<le> l" by (simp add: slot_place_def)
  have apart: "window l \<inter> window l' = {}" if "l' \<in> W" "l' \<noteq> l" for l'
    using place that unfolding slot_place_def by (metis Int_commute)
  obtain m1 where m1: "write_u32 l v (omem e) = Some m1" "same_frame (omem e) m1" "read_u32 m1 l = Some v"
    "\<And>l'. null_segment_size (omem e) \<le> l' \<Longrightarrow> window l \<inter> window l' = {} \<Longrightarrow> read_u32 m1 l' = read_u32 (omem e) l'"
    by (rule write_slot [OF nl, of v]) blast
  then have [simp]: "m1 = m'" using m' by simp
  note W = weak_okD [OF objc_invD(3) [OF inv]] and S = slots_okD [OF objc_invD(2) [OF inv]]
  have rd: "read_u32 m' l' = read_u32 (omem e) l'" if "l' \<in> W" "l' \<noteq> l" for l'
    using m1(4) [OF S(1) [OF that(1)] apart [OF that]] by simp
  have ents: "entry_at ?e p = entry_at e p" for p using ob by (simp add: assigned_def)
  have reg: "(t, l') \<in> registered ob' \<longleftrightarrow> (t, l') \<in> registered (objc e) \<and> l' \<noteq> l \<or> v \<noteq> nil \<and> t = v \<and> l' = l" for t l'
    using ob by (auto simp: assigned_def)
  have "slots_ok V ?e"
  proof (rule slots_ok_frame)
    show "slots_ok V e" by (rule slots_ok_subset [OF slots_ok_insert [OF objc_invD(2) [OF inv] place] V(1)])
  qed (use m1(2) ents in auto)
  moreover have "weak_ok V ?e"
  proof (rule weak_okI)
    fix t l' assume "(t, l') \<in> registered (objc ?e)"
    then consider "(t, l') \<in> registered (objc e)" "l' \<noteq> l" | "v \<noteq> nil" "t = v" "l' = l" using reg by auto
    then show "t \<noteq> nil \<and> entry_at ?e t \<noteq> None \<and> l' \<in> V \<and> read_u32 (omem ?e) l' = Some t"
    proof cases
      case 1
      then show ?thesis using W(1-4) [OF 1(1)] rd [OF W(3) [OF 1(1)] 1(2)] V(2) unfolding ents by auto
    next
      case 2
      then show ?thesis using v V(3) m1(3) unfolding ents by auto
    qed
  next
    fix l' assume l': "l' \<in> V"
    show "\<exists>w. read_u32 (omem ?e) l' = Some w \<and> (w = nil \<or> (w, l') \<in> registered (objc ?e))"
    proof (cases "l' = l")
      case True
      then show ?thesis using m1(3) reg [of v l] by auto
    next
      case False
      then have w: "l' \<in> W" using l' V(1) by auto
      from W(5) [OF w] rd [OF w False] reg False show ?thesis by auto
    qed
  qed
  moreover have "stored_ids ?e = stored_ids e" using ob by (simp add: stored_ids_def assigned_def)
  ultimately show ?thesis using same_frameD [OF m1(2)] inv by (simp add: good_to_def objc_inv_def)
qed

lemma assigned_unregister:
  assumes "objc_inv W e" "l \<in> W" "read_u32 (omem e) l = Some old"
  shows "assigned l nil (objc e) (unregister_weak old l (objc e))"
    "v \<noteq> nil \<Longrightarrow> assigned l v (objc e) (register_weak v l (unregister_weak old l (objc e)))"
proof -
  have same: "t = old" if "(t, l) \<in> registered (objc e)" for t
    using weak_okD(4) [OF objc_invD(3) [OF assms(1)] that] assms(3) by simp
  have z: "(nil, l) \<notin> registered (objc e)" using weak_okD(1) [OF objc_invD(3) [OF assms(1)], of nil l] by blast
  have "objects (unregister_weak old l (objc e)) = objects (objc e)"
    "associated_objects (unregister_weak old l (objc e)) = associated_objects (objc e)"
    by (auto simp: unregister_weak_def Let_def split: option.splits)
  moreover have "objects (register_weak v l (unregister_weak old l (objc e))) = objects (unregister_weak old l (objc e))"
    "associated_objects (register_weak v l (unregister_weak old l (objc e))) = associated_objects (unregister_weak old l (objc e))"
    by (auto simp: register_weak_def)
  moreover have "registered (unregister_weak old l (objc e)) = {(t, l') \<in> registered (objc e). l' \<noteq> l}"
    using same z by (auto simp: registered_unregister)
  ultimately show "assigned l nil (objc e) (unregister_weak old l (objc e))"
    "v \<noteq> nil \<Longrightarrow> assigned l v (objc e) (register_weak v l (unregister_weak old l (objc e)))"
    by (simp_all add: assigned_def registered_register)
qed

lemma assigned_fresh:
  assumes "objc_inv W e" "l \<notin> W"
  shows "assigned l nil (objc e) (objc e)" "v \<noteq> nil \<Longrightarrow> assigned l v (objc e) (register_weak v l (objc e))"
proof -
  have "(t, l) \<notin> registered (objc e)" for t using weak_okD(3) [OF objc_invD(3) [OF assms(1)]] assms(2) by blast
  then have "{(t, l') \<in> registered (objc e). l' \<noteq> l} = registered (objc e)" by auto
  then show "assigned l nil (objc e) (objc e)" "v \<noteq> nil \<Longrightarrow> assigned l v (objc e) (register_weak v l (objc e))"
    by (simp_all add: assigned_def registered_register, simp_all add: register_weak_def)
qed

lemma store_weak_value_eq:
  "store_weak_value l v e = map_option (\<lambda>m. e\<lparr>objc := (if v = nil then objc e else register_weak v l (objc e)), omem := m\<rparr>) (write_u32 l v (omem e))"
  by (cases "write_u32 l v (omem e)") (simp_all add: store_weak_value_def)

lemma place_write: "slot_place W l e \<Longrightarrow> \<exists>m'. write_u32 l v (omem e) = Some m'"
  using store_u32 [of "omem e" l v] by (auto simp: slot_place_def)

lemma null_pos: "mem_ok m \<Longrightarrow> 0 < null_segment_size m"
  using heap.live_wf [OF mem_okD] by (fastforce simp: mem_ok_def wf_chunk_def unat_gt_0 word_greater_zero_iff)

lemma place_nonzero: "objc_inv W e \<Longrightarrow> slot_place W l e \<Longrightarrow> l \<noteq> 0"
  using null_pos [OF objc_invD(1)] unfolding slot_place_def by (metis leD)

lemma storeWeak_good:
  assumes inv: "objc_inv W e" and l: "l \<in> W" and v: "v = nil \<or> entry_at e v \<noteq> None"
  shows "\<exists>e'. objc_storeWeak l v e = Some (v, e') \<and> good_to W e e'"
proof -
  note place = slot_place_old [OF objc_invD(2) [OF inv] l]
  from place_write [OF place] obtain m' where m': "write_u32 l v (omem e) = Some m'" by blast
  from weak_okD(5) [OF objc_invD(3) [OF inv] l] obtain old where old: "read_u32 (omem e) l = Some old" by blast
  let ?u = "unregister_weak old l (objc e)"
  let ?ob = "if v = nil then ?u else register_weak v l ?u"
  have "assigned l v (objc e) ?ob" using assigned_unregister [OF inv l old] by simp
  from slot_assign [OF inv place m' v this] l have "good_to W e (e\<lparr>objc := ?ob, omem := m'\<rparr>)" by blast
  moreover have "objc_storeWeak l v e = Some (v, e\<lparr>objc := ?ob, omem := m'\<rparr>)"
    using old m' place_nonzero [OF inv place]
    by (auto simp: objc_storeWeak_def store_weak_value_eq unregister_weak_def)
  ultimately show ?thesis by blast
qed

lemma initWeak_good:
  assumes inv: "objc_inv W e" and l: "l \<notin> W" "slot_place W l e" and v: "v = nil \<or> entry_at e v \<noteq> None"
  shows "\<exists>e'. objc_initWeak l v e = Some (v, e') \<and> good_to (insert l W) e e'"
proof -
  from place_write [OF l(2)] obtain m' where m': "write_u32 l v (omem e) = Some m'" by blast
  let ?ob = "if v = nil then objc e else register_weak v l (objc e)"
  have "assigned l v (objc e) ?ob" using assigned_fresh [OF inv l(1)] by simp
  from slot_assign [OF inv l(2) m' v this] have "good_to (insert l W) e (e\<lparr>objc := ?ob, omem := m'\<rparr>)" by blast
  moreover have "objc_initWeak l v e = Some (v, e\<lparr>objc := ?ob, omem := m'\<rparr>)"
    using m' place_nonzero [OF inv l(2)] by (simp add: objc_initWeak_def store_weak_value_eq)
  ultimately show ?thesis by blast
qed

lemma destroyWeak_good:
  assumes inv: "objc_inv W e" and l: "l \<in> W"
  shows "\<exists>e'. objc_destroyWeak l e = Some e' \<and> good_to (W - {l}) e e'"
proof -
  note place = slot_place_old [OF objc_invD(2) [OF inv] l]
  from place_write [OF place] obtain m' where m': "write_u32 l nil (omem e) = Some m'" by blast
  from weak_okD(5) [OF objc_invD(3) [OF inv] l] obtain old where old: "read_u32 (omem e) l = Some old" by blast
  let ?u = "unregister_weak old l (objc e)"
  show ?thesis
  proof (cases "old = nil")
    case True
    have "(t, l) \<notin> registered (objc e)" for t
      using weak_okD(1,4) [OF objc_invD(3) [OF inv], of t l] old True by auto
    then have "objc_inv (W - {l}) e"
      using inv slots_ok_subset [OF objc_invD(2) [OF inv], of "W - {l}"] unfolding objc_inv_def weak_ok_def by fast
    moreover have "objc_destroyWeak l e = Some e" using old True by (simp add: objc_destroyWeak_def)
    ultimately show ?thesis using good_refl by blast
  next
    case False
    from slot_assign [OF inv place m' _ assigned_unregister(1) [OF inv l old], of "W - {l}"]
    have "good_to (W - {l}) e (e\<lparr>objc := ?u, omem := m'\<rparr>)" by blast
    moreover have "objc_destroyWeak l e = Some (e\<lparr>objc := ?u, omem := m'\<rparr>)"
      using old m' False place_nonzero [OF inv place] by (simp add: objc_destroyWeak_def)
    ultimately show ?thesis by blast
  qed
qed

lemma slot_value:
  assumes "objc_inv W e" "l \<in> W"
  obtains v where "read_u32 (omem e) l = Some v" "v = nil \<or> entry_at e v \<noteq> None" "addressable (omem e) v"
proof -
  from weak_okD(5) [OF objc_invD(3) [OF assms(1)] assms(2)] obtain v where
    v: "read_u32 (omem e) l = Some v" "v = nil \<or> (v, l) \<in> registered (objc e)" by blast
  then have e: "v = nil \<or> entry_at e v \<noteq> None" using weak_okD(2) [OF objc_invD(3) [OF assms(1)]] by blast
  have "addressable (omem e) v" if "entry_at e v = Some ent" for ent
    using ids_map_of(1) [OF that] objc_invD(4) [OF assms(1), of v] unfolding stored_ids_def by blast
  with e have "addressable (omem e) v" by (auto simp: addressable_def)
  with v(1) e that show thesis by blast
qed

lemma copyWeak_good:
  assumes inv: "objc_inv W e" and l: "to_loc \<notin> W" "slot_place W to_loc e" "from_loc \<in> W"
  shows "\<exists>e'. objc_copyWeak to_loc from_loc e = Some e' \<and> good_to (insert to_loc W) e e'"
proof -
  obtain v where v: "read_u32 (omem e) from_loc = Some v" "v = nil \<or> entry_at e v \<noteq> None" by (rule slot_value [OF inv l(3)])
  from initWeak_good [OF inv l(1,2) v(2)] v(1) place_nonzero [OF inv l(2)] place_nonzero [OF inv slot_place_old [OF objc_invD(2) [OF inv] l(3)]]
  show ?thesis by (auto simp: objc_copyWeak_def)
qed

lemma moveWeak_good:
  assumes inv: "objc_inv W e" and l: "to_loc \<notin> W" "slot_place W to_loc e" "from_loc \<in> W"
  shows "\<exists>e'. objc_moveWeak to_loc from_loc e = Some e' \<and> good_to (insert to_loc W - {from_loc}) e e'"
proof -
  obtain v where v: "read_u32 (omem e) from_loc = Some v" "v = nil \<or> entry_at e v \<noteq> None" by (rule slot_value [OF inv l(3)])
  from place_write [OF l(2)] obtain m1 where m1: "write_u32 to_loc v (omem e) = Some m1" by blast
  let ?r = "if v = nil then objc e else register_weak v to_loc (objc e)"
  let ?e1 = "e\<lparr>objc := ?r, omem := m1\<rparr>"
  have r: "assigned to_loc v (objc e) ?r" using assigned_fresh [OF inv l(1)] by simp
  from slot_assign [OF inv l(2) m1 v(2) this] have g1: "good_to (insert to_loc W) e ?e1" by blast
  note inv1 = good_toD(1) [OF g1]
  have ne: "to_loc \<noteq> from_loc" using l by blast
  have f1: "from_loc \<in> insert to_loc W" using l(3) by blast
  note place1 = slot_place_old [OF objc_invD(2) [OF inv1] f1]
  from place_write [OF place1] obtain m2 where m2: "write_u32 from_loc nil m1 = Some m2" by auto
  let ?ob = "if v = nil then objc e else register_weak v to_loc (unregister_weak v from_loc (objc e))"
  have same: "t = v" if "(t, from_loc) \<in> registered (objc e)" for t
    using weak_okD(4) [OF objc_invD(3) [OF inv] that] v(1) by simp
  have z: "(nil, from_loc) \<notin> registered (objc e)" using weak_okD(1) [OF objc_invD(3) [OF inv], of nil from_loc] by blast
  have none: "v = nil \<Longrightarrow> (t, from_loc) \<notin> registered (objc e)" for t using same [of t] z by blast
  have "assigned from_loc nil (objc ?e1) ?ob"
  proof -
    have "objects (register_weak v l ob) = objects ob" "associated_objects (register_weak v l ob) = associated_objects ob"
      "objects (unregister_weak v l ob) = objects ob" "associated_objects (unregister_weak v l ob) = associated_objects ob" for l ob
      by (auto simp: register_weak_def unregister_weak_def Let_def split: option.splits)
    then show ?thesis using same z none ne
      by (auto simp: assigned_def registered_register registered_unregister)
  qed
  from slot_assign [OF inv1 place1 _ _ this, of m2 "insert to_loc W - {from_loc}"] m2
  have "good_to (insert to_loc W - {from_loc}) ?e1 (?e1\<lparr>objc := ?ob, omem := m2\<rparr>)" by fastforce
  moreover have "?e1\<lparr>objc := ?ob, omem := m2\<rparr> = e\<lparr>objc := ?ob, omem := m2\<rparr>" by simp
  ultimately have "good_to (insert to_loc W - {from_loc}) e (e\<lparr>objc := ?ob, omem := m2\<rparr>)"
    using g1 by (simp add: good_to_def)
  moreover have "objc_moveWeak to_loc from_loc e = Some (e\<lparr>objc := ?ob, omem := m2\<rparr>)"
    using v(1) m1 m2 place_nonzero [OF inv l(2)] place_nonzero [OF inv slot_place_old [OF objc_invD(2) [OF inv] l(3)]]
    by (auto simp: objc_moveWeak_def)
  ultimately show ?thesis by blast
qed

lemma loadWeakRetained_good:
  assumes inv: "objc_inv W e" and l: "l \<in> W"
  obtains v e' where "objc_loadWeakRetained n l e = Some (v, e')" "good_to W e e'" "v = nil \<or> entry_at e v \<noteq> None" "addressable (omem e') v"
proof -
  obtain v where v: "read_u32 (omem e) l = Some v" "v = nil \<or> entry_at e v \<noteq> None" "addressable (omem e) v" by (rule slot_value [OF inv l])
  from objc_retain_good [OF inv v(3), of n] obtain w e1 where e1: "objc_retain n v e = Some (w, e1)" "good_to W e e1" by blast
  show thesis
  proof (cases "v = nil")
    case True
    have "addressable (omem e) 0" by (simp add: addressable_def)
    with True v(1) that [of nil e] good_refl [OF inv] show ?thesis by (simp add: objc_loadWeakRetained_def)
  next
    case False
    with v e1 good_toD(2) [OF e1(2)] place_nonzero [OF inv slot_place_old [OF objc_invD(2) [OF inv] l]]
    show ?thesis by (intro that [of v e1]) (simp_all add: objc_loadWeakRetained_def)
  qed
qed

lemma loadWeak_good:
  assumes inv: "objc_inv W e" and l: "l \<in> W"
  shows "\<exists>v e'. objc_loadWeak n l e = Some (v, e') \<and> good_to W e e'"
proof -
  obtain v e1 where e1: "objc_loadWeakRetained n l e = Some (v, e1)" "good_to W e e1" "addressable (omem e1) v"
    by (rule loadWeakRetained_good [OF inv l, of n])
  from objc_autorelease_good [OF good_toD(1) [OF e1(2)] e1(3), of n] e1(1) e1(2) good_trans [OF e1(2)]
  show ?thesis by (auto simp: objc_loadWeak_def)
qed


section \<open>Making objects\<close>

lemma new_object_good:
  assumes inv: "objc_inv W e" and frame: "mem_ok m" "null_segment_size m = null_segment_size (omem e)"
    and rd: "\<And>l. l \<in> W \<Longrightarrow> read_u32 m l = read_u32 (omem e) l"
    and home: "\<And>l. l \<in> W \<Longrightarrow> \<exists>B \<in> blocks m. c_base B \<noteq> 0 \<and> window l \<subseteq> extent B \<and> entry_at e (c_base B) = None \<and> c_base B \<noteq> obj"
    and ids: "addressable m obj" "\<And>p. p \<in> host_ids (host_object ent) \<Longrightarrow> addressable m p"
  shows "good_to W e (set_entry obj ent (e\<lparr>omem := m\<rparr>))"
proof -
  let ?e = "set_entry obj ent (e\<lparr>omem := m\<rparr>)"
  note W = weak_okD [OF objc_invD(3) [OF inv]] and S = slots_okD [OF objc_invD(2) [OF inv]]
  have reg: "registered (objc ?e) = registered (objc e)" by (simp add: registered_def)
  have "slots_ok W ?e"
    unfolding slots_ok_def
  proof (intro conjI ballI impI)
    fix l assume l: "l \<in> W"
    show "null_segment_size (omem ?e) \<le> l" using S(1) [OF l] frame(2) by simp
    show "\<exists>B \<in> blocks (omem ?e). c_base B \<noteq> 0 \<and> window l \<subseteq> extent B \<and> entry_at ?e (c_base B) = None"
      using home [OF l] by auto
  qed (rule S(2))
  moreover have "weak_ok W ?e"
  proof (rule weak_okI)
    fix t l assume "(t, l) \<in> registered (objc ?e)"
    then have t: "(t, l) \<in> registered (objc e)" by (simp only: reg)
    show "t \<noteq> nil \<and> entry_at ?e t \<noteq> None \<and> l \<in> W \<and> read_u32 (omem ?e) l = Some t"
      using W(1-4) [OF t] rd [OF W(3) [OF t]] by auto
  next
    fix l assume l: "l \<in> W"
    show "\<exists>v. read_u32 (omem ?e) l = Some v \<and> (v = nil \<or> (v, l) \<in> registered (objc ?e))"
      using W(5) [OF l] rd [OF l] unfolding reg by simp
  qed
  moreover have "addressable (omem ?e) p" if "p \<in> stored_ids ?e" for p
  proof -
    have "p \<in> insert obj (stored_ids e \<union> host_ids (host_object ent))"
      using that stored_set_entry [of obj ent "e\<lparr>omem := m\<rparr>"] by (auto simp: stored_ids_def)
    then show ?thesis using ids objc_invD(4) [OF inv, of p] frame(2) by (auto simp: addressable_def)
  qed
  ultimately show ?thesis using frame by (simp add: good_to_def objc_inv_def)
qed

lemma home_here:
  assumes "objc_inv W e" "l \<in> W"
  obtains B where "B \<in> blocks (omem e)" "c_base B \<noteq> 0" "window l \<subseteq> extent B" "entry_at e (c_base B) = None" "l \<noteq> 0" "null_segment_size (omem e) \<le> l"
  using slots_okD(1,3) [OF objc_invD(2) [OF assms(1)] assms(2)] place_nonzero [OF assms(1) slot_place_old [OF objc_invD(2) [OF assms(1)] assms(2)]] by blast

lemma alloc_object_inner_good:
  assumes inv: "objc_inv W e" and sz: "4 \<le> sz" and ids: "\<And>p. p \<in> host_ids host \<Longrightarrow> addressable (omem e) p"
  obtains p e' where "alloc_object_inner isa sz host rc e = Some (p, e')" "good_to W e e'" "entry_at e' p = Some \<lparr>host_object = host, refcount = rc\<rparr>" "addressable (omem e') p"
    "kvc_storage e' = kvc_storage e" "pool_stacks e' = pool_stacks e" "current_thread e' = current_thread e"
proof -
  obtain p m where m: "Mem_alloc sz (omem e) = Some (p, m)" "mem_ok m" "null_segment_size m = null_segment_size (omem e)"
    "\<And>B. B \<in> blocks (omem e) \<Longrightarrow> B \<in> blocks m \<and> (\<forall>i \<in> extent B. mem_bytes m i = mem_bytes (omem e) i)"
    "p = 0 \<or> (\<exists>c \<in> blocks m. c_base c = p \<and> sz \<le> c_size c \<and> (\<forall>B \<in> blocks (omem e). extent c \<inter> extent B = {} \<and> c_base B \<noteq> p))"
    by (rule alloc_slots [OF objc_invD(1) [OF inv], of sz]) blast
  have rd0: "read_u32 m l = read_u32 (omem e) l" if l: "l \<in> W" for l
  proof -
    obtain B where "B \<in> blocks (omem e)" "window l \<subseteq> extent B" "null_segment_size (omem e) \<le> l" by (rule home_here [OF inv l])
    with m(4) show ?thesis by (intro read_u32_bytes m(3)) auto
  qed
  have ad: "addressable m p"
  proof (cases "p = 0")
    case False
    then obtain c where "c \<in> blocks m" "c_base c = p" using m(5) by blast
    with block_above [OF m(2)] False show ?thesis by (auto simp: addressable_def)
  qed (simp add: addressable_def)
  have "\<exists>m'. write_u32 p isa m = Some m' \<and> same_frame m m' \<and> (\<forall>l \<in> W. read_u32 m' l = read_u32 m l)"
  proof (cases "p = 0")
    case True
    obtain m' where w: "write_u32 p isa m = Some m'" "same_frame m m'" "mem_bytes m' = mem_bytes m"
      by (rule write_null_slot [OF ad, of isa]) (use True null_pos [OF m(2)] in auto)
    have "read_u32 m' l = read_u32 m l" if l: "l \<in> W" for l
    proof -
      obtain B where "null_segment_size (omem e) \<le> l" by (rule home_here [OF inv l])
      with m(3) w show ?thesis by (intro read_u32_bytes same_frameD(3) [OF w(2)]) auto
    qed
    with w show ?thesis by blast
  next
    case False
    then obtain c where c: "c \<in> blocks m" "c_base c = p" "sz \<le> c_size c" "\<forall>B \<in> blocks (omem e). extent c \<inter> extent B = {}"
      using m(5) by blast
    have np: "null_segment_size m \<le> p" using block_above [OF m(2) c(1)] c(2) False by simp
    have "4 \<le> cs c" using sz c(3) by (auto simp: word_le_nat_alt)
    then have wp: "window p \<subseteq> extent c" using c(2) by (auto simp: window_def extent_def)
    obtain m' where w: "write_u32 p isa m = Some m'" "same_frame m m'"
      "\<And>l. null_segment_size m \<le> l \<Longrightarrow> window p \<inter> window l = {} \<Longrightarrow> read_u32 m' l = read_u32 m l"
      by (rule write_slot [OF np, of isa]) blast
    have "read_u32 m' l = read_u32 m l" if l: "l \<in> W" for l
    proof -
      obtain B where "B \<in> blocks (omem e)" "window l \<subseteq> extent B" "null_segment_size (omem e) \<le> l" by (rule home_here [OF inv l])
      with c(4) wp m(3) show ?thesis by (intro w(3)) auto
    qed
    with w show ?thesis by blast
  qed
  then obtain m' where w: "write_u32 p isa m = Some m'" "same_frame m m'" "\<And>l. l \<in> W \<Longrightarrow> read_u32 m' l = read_u32 m l" by blast
  let ?ent = "\<lparr>host_object = host, refcount = rc\<rparr>"
  have "good_to W e (set_entry p ?ent (e\<lparr>omem := m'\<rparr>))"
  proof (rule new_object_good [OF inv])
    fix l assume l: "l \<in> W"
    show "read_u32 m' l = read_u32 (omem e) l" using w(3) [OF l] rd0 [OF l] by simp
    obtain B where B: "B \<in> blocks (omem e)" "c_base B \<noteq> 0" "window l \<subseteq> extent B" "entry_at e (c_base B) = None" by (rule home_here [OF inv l])
    have "c_base B \<noteq> p" using m(5) B(1,2) by auto
    with B m(4) [OF B(1)] same_frameD(2) [OF w(2)]
    show "\<exists>B \<in> blocks m'. c_base B \<noteq> 0 \<and> window l \<subseteq> extent B \<and> entry_at e (c_base B) = None \<and> c_base B \<noteq> p" by auto
  qed (use m(2,3) same_frameD [OF w(2)] ad ids in \<open>auto simp: addressable_def\<close>)
  moreover have "alloc_object_inner isa sz host rc e = Some (p, set_entry p ?ent (e\<lparr>omem := m'\<rparr>))"
    using m(1) w(1) by (simp add: alloc_object_inner_def)
  ultimately show thesis using ad same_frameD(4) [OF w(2)]
    by (intro that [of p "set_entry p ?ent (e\<lparr>omem := m'\<rparr>)"]) auto
qed


lemma alloc_object_good:
  assumes inv: "objc_inv W e" and sz: "4 \<le> class_instance_size isa e" and ids: "\<And>p. p \<in> host_ids host \<Longrightarrow> addressable (omem e) p"
  obtains p e' where "alloc_object isa host e = Some (p, e')" "good_to W e e'"
    "entry_at e' p = Some \<lparr>host_object = host, refcount = Some 1\<rparr>" "addressable (omem e') p"
    "pool_stacks e' = pool_stacks e" "current_thread e' = current_thread e"
proof -
  obtain p e' where "alloc_object_inner isa (class_instance_size isa e) host (Some 1) e = Some (p, e')" "good_to W e e'"
    "entry_at e' p = Some \<lparr>host_object = host, refcount = Some 1\<rparr>" "addressable (omem e') p"
    "pool_stacks e' = pool_stacks e" "current_thread e' = current_thread e"
    by (rule alloc_object_inner_good [OF inv sz ids])
  moreover have "checked_add_u32 (class_instance_size isa e) 0 = Some (class_instance_size isa e)"
    using unat_lt_u32 [of "class_instance_size isa e"] by (simp add: checked_add_u32_def)
  ultimately show thesis by (intro that [of p e']) (auto simp: alloc_object_def alloc_object_with_extra_bytes_def)
qed

lemma pool_new_good:
  assumes inv: "objc_inv W e" and sz: "4 \<le> class_instance_size isa e"
  shows "\<exists>p e'. pool_new isa e = Some (p, e') \<and> good_to W e e'"
proof -
  obtain p e1 where e1: "alloc_object isa (Host_pool (current_thread e) []) e = Some (p, e1)" "good_to W e e1" "addressable (omem e1) p"
    by (rule alloc_object_good [OF inv sz, of "Host_pool (current_thread e) []"]) auto
  let ?st = "case map_of (pool_stacks e1) (current_thread e1) of Some ps \<Rightarrow> ps | None \<Rightarrow> []"
  let ?e = "e1\<lparr>pool_stacks := AList.update (current_thread e1) (?st @ [p]) (pool_stacks e1)\<rparr>"
  have "set ?st \<subseteq> stored_ids e1"
    using ids_map_of(3) [of "pool_stacks e1" "current_thread e1"] unfolding stored_ids_def by (cases "map_of (pool_stacks e1) (current_thread e1)") fastforce+
  then have "q \<in> stored_ids e1 \<or> addressable (omem e1) q" if "q \<in> stored_ids ?e" for q
    using that ids_update(3) [of "current_thread e1" "?st @ [p]" "pool_stacks e1"] e1(3)
    unfolding stored_ids_def by (simp del: Un_iff) blast
  then have "good_to W e1 ?e" by (intro inv_cong [OF good_toD(1) [OF e1(2)]]) auto
  with e1 good_trans [OF e1(2)] show ?thesis by (simp add: pool_new_def)
qed

lemma drop_association_good: "objc_inv W e \<Longrightarrow> good_to W e (drop_association k e)"
proof (rule inv_cong)
  fix p assume "p \<in> stored_ids (drop_association k e)"
  then show "p \<in> stored_ids e \<or> addressable (omem e) p"
    using ids_delete(2) [of k "associated_objects (objc e)"] unfolding stored_ids_def drop_association_def by simp blast
qed (auto simp: drop_association_def)

lemma set_association_good: "objc_inv W e \<Longrightarrow> addressable (omem e) (fst v) \<Longrightarrow> good_to W e (set_association k v e)"
proof (rule inv_cong)
  fix p assume "addressable (omem e) (fst v)" "p \<in> stored_ids (set_association k v e)"
  then show "p \<in> stored_ids e \<or> addressable (omem e) p"
    using ids_update(4) [of k v "associated_objects (objc e)"] unfolding stored_ids_def set_association_def by simp blast
qed (auto simp: set_association_def)

text \<open>What is asked of the message \<open>copy\<close>: it answers with an object, and it keeps the tables in order.\<close>

definition copy_message_ok :: "(objc_id \<Rightarrow> objc_env \<Rightarrow> (objc_id \<times> objc_env) option) \<Rightarrow> bool" where
  "copy_message_ok copy_msg \<longleftrightarrow>
     (\<forall>W e v. objc_inv W e \<and> addressable (omem e) v \<longrightarrow>
       (\<exists>w e'. copy_msg v e = Some (w, e') \<and> good_to W e e' \<and> addressable (omem e) w))"

lemma setAssociated_good:
  assumes c: "copy_message_ok copy_msg" and inv: "objc_inv W e" and val: "addressable (omem e) val"
  shows "\<exists>e'. objc_setAssociatedObject copy_msg n obj key val policy e = Some e' \<and> good_to W e e'"
proof (cases "obj = nil")
  case True
  then show ?thesis using good_refl [OF inv] by (simp add: objc_setAssociatedObject_def)
next
  case False
  let ?k = "(obj, key)"
  let ?first = "case map_of (associated_objects (objc e)) ?k of
       Some (old_val, was_retained) \<Rightarrow>
         (let e = drop_association ?k e in if was_retained \<and> old_val \<noteq> nil then objc_release n old_val e else Some e)
     | None \<Rightarrow> Some e"
  have "\<exists>e1. ?first = Some e1 \<and> good_to W e e1"
  proof (cases "map_of (associated_objects (objc e)) ?k")
    case None
    then show ?thesis using good_refl [OF inv] by simp
  next
    case (Some vb)
    obtain old b where vb: "vb = (old, b)" by (cases vb)
    note d = drop_association_good [OF inv, of ?k]
    have "old \<in> stored_ids e" using ids_map_of(4) [of "associated_objects (objc e)" ?k old b] Some vb unfolding stored_ids_def by blast
    then have "addressable (omem (drop_association ?k e)) old" using objc_invD(4) [OF inv] good_toD(2) [OF d] by blast
    from objc_release_good [OF good_toD(1) [OF d] this, of n] obtain e1 where
      "objc_release n old (drop_association ?k e) = Some e1" "good_to W (drop_association ?k e) e1" by blast
    with good_trans [OF d] d show ?thesis by (auto simp: Some vb Let_def)
  qed
  then obtain e1 where e1: "?first = Some e1" "good_to W e e1" by blast
  note inv1 = good_toD(1) [OF e1(2)]
  have val1: "addressable (omem e1) val" using val good_toD(2) [OF e1(2)] by simp
  let ?second = "if val = nil then Some e1
       else if policy = OBJC_ASSOCIATION_RETAIN_NONATOMIC \<or> policy = OBJC_ASSOCIATION_RETAIN then do {
         (_, e) \<leftarrow> objc_retain n val e1;
         Some (set_association ?k (val, True) e)
       }
       else if policy = OBJC_ASSOCIATION_COPY_NONATOMIC \<or> policy = OBJC_ASSOCIATION_COPY then do {
         (copied, e) \<leftarrow> copy_msg val e1;
         Some (set_association ?k (copied, True) e)
       }
       else Some (set_association ?k (val, False) e1)"
  from objc_retain_good [OF inv1 val1, of n] obtain w e2 where e2: "objc_retain n val e1 = Some (w, e2)" "good_to W e1 e2" by blast
  from c inv1 val1 obtain w' e3 where e3: "copy_msg val e1 = Some (w', e3)" "good_to W e1 e3" "addressable (omem e1) w'"
    unfolding copy_message_ok_def by blast
  have s2: "good_to W e1 (set_association ?k (val, True) e2)"
    using good_trans [OF e2(2) set_association_good [OF good_toD(1) [OF e2(2)]]] val1 good_toD(2) [OF e2(2)] by simp
  have s3: "good_to W e1 (set_association ?k (w', True) e3)"
    using good_trans [OF e3(2) set_association_good [OF good_toD(1) [OF e3(2)]]] e3(3) good_toD(2) [OF e3(2)] by simp
  have s4: "good_to W e1 (set_association ?k (val, False) e1)" using set_association_good [OF inv1] val1 by simp
  have "\<exists>e'. ?second = Some e' \<and> good_to W e1 e'"
    using e2(1) e3(1) s2 s3 s4 good_refl [OF inv1] by simp
  then obtain e' where e': "?second = Some e'" "good_to W e1 e'" by blast
  have "objc_setAssociatedObject copy_msg n obj key val policy e = Option.bind ?first (\<lambda>e1. ?second)"
    using False e1(1) by (simp add: objc_setAssociatedObject_def Let_def)
  then have "objc_setAssociatedObject copy_msg n obj key val policy e = Some e'" using e1(1) e'(1) by simp
  with good_trans [OF e1(2) e'(2)] show ?thesis by blast
qed

lemma remove_associations_good:
  assumes "objc_inv W e" "\<forall>x \<in> set xs. addressable (omem e) (fst (snd x))"
  shows "\<exists>e'. remove_associations n xs e = Some e' \<and> good_to W e e'"
  using assms
proof (induction xs arbitrary: e)
  case Nil
  then show ?case using good_refl by simp
next
  case (Cons x xs)
  obtain k v b where x: "x = (k, v, b)" by (cases x)
  note d = drop_association_good [OF Cons.prems(1), of k]
  have "addressable (omem (drop_association k e)) v" using Cons.prems(2) good_toD(2) [OF d] by (simp add: x)
  from objc_release_good [OF good_toD(1) [OF d] this, of n] obtain e1 where
    "objc_release n v (drop_association k e) = Some e1" "good_to W (drop_association k e) e1" by blast
  then obtain e2 where
    e2: "(if b \<and> v \<noteq> nil then objc_release n v (drop_association k e) else Some (drop_association k e)) = Some e2" "good_to W e e2"
    using good_trans [OF d] d by (cases "b \<and> v \<noteq> nil") auto
  have "\<forall>x \<in> set xs. addressable (omem e2) (fst (snd x))" using Cons.prems(2) good_toD(2) [OF e2(2)] by simp
  from Cons.IH [OF good_toD(1) [OF e2(2)] this] obtain e3 where "remove_associations n xs e2 = Some e3" "good_to W e2 e3" by blast
  with e2 good_trans [OF e2(2)] show ?case by (auto simp: x Let_def)
qed

lemma removeAssociated_good:
  assumes inv: "objc_inv W e"
  shows "\<exists>e'. objc_removeAssociatedObjects n obj e = Some e' \<and> good_to W e e'"
proof -
  have "addressable (omem e) (fst (snd x))" if "x \<in> set (associated_objects (objc e))" for x
    using that objc_invD(4) [OF inv, of "fst (snd x)"] by (auto simp: stored_ids_def assoc_ids_def)
  then show ?thesis
    using remove_associations_good [OF inv] good_refl [OF inv] by (auto simp: objc_removeAssociatedObjects_def)
qed


section \<open>Histories\<close>

text \<open>
  The calls of a guest program.  A depth is the number of messages that may still be nested when the call is made.
  \<open>Guest_write\<close>, \<open>Guest_malloc\<close> and \<open>Guest_free\<close> are what the program does to memory by itself.
\<close>

datatype objc_call =
    Alloc_object u32 | Register_static objc_id host_object
  | Retain nat objc_id | Release nat objc_id | Autorelease nat objc_id | Pool_new u32 | Pool_drain nat objc_id
  | Store_weak vaddr objc_id | Init_weak vaddr objc_id | Destroy_weak vaddr | Copy_weak vaddr vaddr | Move_weak vaddr vaddr
  | Load_weak nat vaddr | Load_weak_retained nat vaddr
  | Set_associated nat objc_id u32 objc_id u32 | Remove_associated nat objc_id
  | Guest_write vaddr u32 | Guest_malloc u32 | Guest_free vaddr | Switch_thread nat

fun objc_exec :: "(objc_id \<Rightarrow> objc_env \<Rightarrow> (objc_id \<times> objc_env) option) \<Rightarrow> objc_call \<Rightarrow> objc_env \<Rightarrow> objc_env option" where
  "objc_exec copy_msg (Alloc_object isa) e = map_option snd (alloc_object isa Host_other e)"
| "objc_exec copy_msg (Register_static obj host) e = Some (register_static_object obj host e)"
| "objc_exec copy_msg (Retain n obj) e = map_option snd (objc_retain n obj e)"
| "objc_exec copy_msg (Release n obj) e = objc_release n obj e"
| "objc_exec copy_msg (Autorelease n obj) e = map_option snd (objc_autorelease n obj e)"
| "objc_exec copy_msg (Pool_new isa) e = map_option snd (pool_new isa e)"
| "objc_exec copy_msg (Pool_drain n pool) e = pool_drain n pool e"
| "objc_exec copy_msg (Store_weak l v) e = map_option snd (objc_storeWeak l v e)"
| "objc_exec copy_msg (Init_weak l v) e = map_option snd (objc_initWeak l v e)"
| "objc_exec copy_msg (Destroy_weak l) e = objc_destroyWeak l e"
| "objc_exec copy_msg (Copy_weak l k) e = objc_copyWeak l k e"
| "objc_exec copy_msg (Move_weak l k) e = objc_moveWeak l k e"
| "objc_exec copy_msg (Load_weak n l) e = map_option snd (objc_loadWeak n l e)"
| "objc_exec copy_msg (Load_weak_retained n l) e = map_option snd (objc_loadWeakRetained n l e)"
| "objc_exec copy_msg (Set_associated n obj key val policy) e = objc_setAssociatedObject copy_msg n obj key val policy e"
| "objc_exec copy_msg (Remove_associated n obj) e = objc_removeAssociatedObjects n obj e"
| "objc_exec copy_msg (Guest_write p v) e = map_option (\<lambda>m. e\<lparr>omem := m\<rparr>) (write_u32 p v (omem e))"
| "objc_exec copy_msg (Guest_malloc sz) e = map_option (\<lambda>(p, m). e\<lparr>omem := m\<rparr>) (Mem_alloc sz (omem e))"
| "objc_exec copy_msg (Guest_free p) e = map_option (\<lambda>m. e\<lparr>omem := m\<rparr>) (Mem_free p (omem e))"
| "objc_exec copy_msg (Switch_thread t) e = Some (e\<lparr>current_thread := t\<rparr>)"

text \<open>The live weak variables after a call.\<close>

fun slots_after :: "objc_call \<Rightarrow> vaddr set \<Rightarrow> vaddr set" where
  "slots_after (Init_weak l v) W = insert l W"
| "slots_after (Destroy_weak l) W = W - {l}"
| "slots_after (Copy_weak l k) W = insert l W"
| "slots_after (Move_weak l k) W = insert l W - {k}"
| "slots_after _ W = W"

text \<open>
  The rules a program follows: it passes readable addresses, it initialises a weak variable before it uses it and destroys it
  before it frees the memory, it makes weak references only to objects that exist, it does not write into weak variables
  itself, and it does not free memory that holds weak variables.
\<close>

fun follows_rules :: "objc_call \<Rightarrow> vaddr set \<Rightarrow> objc_env \<Rightarrow> bool" where
  "follows_rules (Alloc_object isa) W e \<longleftrightarrow> 4 \<le> class_instance_size isa e"
| "follows_rules (Pool_new isa) W e \<longleftrightarrow> 4 \<le> class_instance_size isa e"
| "follows_rules (Register_static obj host) W e \<longleftrightarrow>
     addressable (omem e) obj \<and> (\<forall>p \<in> host_ids host. addressable (omem e) p) \<and>
     (\<forall>B \<in> blocks (omem e). c_base B = obj \<longrightarrow> (\<forall>l \<in> W. window l \<inter> extent B = {}))"
| "follows_rules (Retain n obj) W e \<longleftrightarrow> addressable (omem e) obj"
| "follows_rules (Release n obj) W e \<longleftrightarrow> addressable (omem e) obj"
| "follows_rules (Autorelease n obj) W e \<longleftrightarrow> addressable (omem e) obj"
| "follows_rules (Pool_drain n pool) W e \<longleftrightarrow> addressable (omem e) pool"
| "follows_rules (Store_weak l v) W e \<longleftrightarrow> l \<in> W \<and> (v = nil \<or> entry_at e v \<noteq> None)"
| "follows_rules (Init_weak l v) W e \<longleftrightarrow> l \<notin> W \<and> slot_place W l e \<and> (v = nil \<or> entry_at e v \<noteq> None)"
| "follows_rules (Destroy_weak l) W e \<longleftrightarrow> l \<in> W"
| "follows_rules (Copy_weak l k) W e \<longleftrightarrow> l \<notin> W \<and> slot_place W l e \<and> k \<in> W"
| "follows_rules (Move_weak l k) W e \<longleftrightarrow> l \<notin> W \<and> slot_place W l e \<and> k \<in> W"
| "follows_rules (Load_weak n l) W e \<longleftrightarrow> l \<in> W"
| "follows_rules (Load_weak_retained n l) W e \<longleftrightarrow> l \<in> W"
| "follows_rules (Set_associated n obj key val policy) W e \<longleftrightarrow> addressable (omem e) val"
| "follows_rules (Guest_write p v) W e \<longleftrightarrow> addressable (omem e) p \<and> (\<forall>l \<in> W. window p \<inter> window l = {})"
| "follows_rules (Guest_free p) W e \<longleftrightarrow> (\<forall>B \<in> blocks (omem e). c_base B = p \<longrightarrow> (\<forall>l \<in> W. window l \<inter> extent B = {}))"
| "follows_rules _ W e \<longleftrightarrow> True"

fun objc_run :: "(objc_id \<Rightarrow> objc_env \<Rightarrow> (objc_id \<times> objc_env) option) \<Rightarrow> objc_call list \<Rightarrow> vaddr set \<Rightarrow> objc_env \<Rightarrow> (vaddr set \<times> objc_env) option" where
  "objc_run copy_msg [] W e = Some (W, e)"
| "objc_run copy_msg (c # calls) W e = do { e \<leftarrow> objc_exec copy_msg c e; objc_run copy_msg calls (slots_after c W) e }"

fun all_follow_rules :: "(objc_id \<Rightarrow> objc_env \<Rightarrow> (objc_id \<times> objc_env) option) \<Rightarrow> objc_call list \<Rightarrow> vaddr set \<Rightarrow> objc_env \<Rightarrow> bool" where
  "all_follow_rules copy_msg [] W e \<longleftrightarrow> True"
| "all_follow_rules copy_msg (c # calls) W e \<longleftrightarrow> follows_rules c W e \<and>
     (case objc_exec copy_msg c e of None \<Rightarrow> True | Some e' \<Rightarrow> all_follow_rules copy_msg calls (slots_after c W) e')"

definition objc_start :: "mem \<Rightarrow> (objc_id \<times> string \<times> objc_id) list \<Rightarrow> objc_env" where
  "objc_start m kvc = \<lparr>objc = \<lparr>objects = [], weak_refs = [], associated_objects = []\<rparr>, omem = m, kvc_storage = kvc,
     phantom_pools = [], pool_stacks = [], current_thread = 0\<rparr>"

lemma start_inv: "mem_ok m \<Longrightarrow> \<forall>x \<in> set kvc. addressable m (snd (snd x)) \<Longrightarrow> objc_inv {} (objc_start m kvc)"
  by (auto simp: objc_inv_def objc_start_def slots_ok_def weak_ok_def registered_def stored_ids_def object_ids_def kvc_ids_def
    pool_ids_def stack_ids_def assoc_ids_def)

lemma window_meets: "window l \<subseteq> A \<Longrightarrow> window l \<inter> A \<noteq> {}"
proof -
  assume "window l \<subseteq> A"
  moreover have "unat l \<in> window l" by (simp add: window_def)
  ultimately show ?thesis by blast
qed

lemma mem_change_good:
  assumes inv: "objc_inv W e" and m: "mem_ok m" "null_segment_size m = null_segment_size (omem e)"
    and home: "\<And>l B. l \<in> W \<Longrightarrow> B \<in> blocks (omem e) \<Longrightarrow> window l \<subseteq> extent B \<Longrightarrow> B \<in> blocks m"
    and rd: "\<And>l. l \<in> W \<Longrightarrow> read_u32 m l = read_u32 (omem e) l"
  shows "good_to W e (e\<lparr>omem := m\<rparr>)"
proof -
  let ?e = "e\<lparr>omem := m\<rparr>"
  have "slots_ok W ?e"
    unfolding slots_ok_def
  proof (intro conjI ballI impI)
    fix l assume l: "l \<in> W"
    obtain B where "B \<in> blocks (omem e)" "c_base B \<noteq> 0" "window l \<subseteq> extent B" "entry_at e (c_base B) = None" "null_segment_size (omem e) \<le> l"
      by (rule home_here [OF inv l])
    with home [OF l] m(2) show "null_segment_size (omem ?e) \<le> l"
      "\<exists>B \<in> blocks (omem ?e). c_base B \<noteq> 0 \<and> window l \<subseteq> extent B \<and> entry_at ?e (c_base B) = None" by auto
  qed (rule slots_okD(2) [OF objc_invD(2) [OF inv]])
  moreover have "weak_ok W ?e"
  proof (rule weak_okI)
    fix t l assume "(t, l) \<in> registered (objc ?e)"
    then have t: "(t, l) \<in> registered (objc e)" by simp
    show "t \<noteq> nil \<and> entry_at ?e t \<noteq> None \<and> l \<in> W \<and> read_u32 (omem ?e) l = Some t"
      using weak_okD(1-4) [OF objc_invD(3) [OF inv] t] rd by simp
  next
    fix l assume l: "l \<in> W"
    show "\<exists>v. read_u32 (omem ?e) l = Some v \<and> (v = nil \<or> (v, l) \<in> registered (objc ?e))"
      using weak_okD(5) [OF objc_invD(3) [OF inv] l] rd [OF l] by simp
  qed
  moreover have "stored_ids ?e = stored_ids e" by (simp add: stored_ids_def)
  ultimately show ?thesis using inv m by (simp add: good_to_def objc_inv_def addressable_def)
qed

lemma exec_good:
  assumes c: "copy_message_ok copy_msg" and inv: "objc_inv W e" and ok: "follows_rules call W e"
  shows "\<exists>e'. objc_exec copy_msg call e = Some e' \<and> good_to (slots_after call W) e e'"
proof (cases call)
  case (Alloc_object isa)
  obtain p e' where "alloc_object isa Host_other e = Some (p, e')" "good_to W e e'"
    by (rule alloc_object_good [OF inv, of isa Host_other]) (use ok Alloc_object in auto)
  with Alloc_object show ?thesis by simp
next
  case (Register_static obj host)
  show ?thesis
  proof (cases "obj = nil")
    case True
    with Register_static good_refl [OF inv] show ?thesis by (simp add: register_static_object_def)
  next
    case False
    let ?ent = "\<lparr>host_object = host, refcount = None\<rparr>"
    have "good_to W e (set_entry obj ?ent (e\<lparr>omem := omem e\<rparr>))"
    proof (rule new_object_good [OF inv objc_invD(1) [OF inv]])
      fix l assume l: "l \<in> W"
      obtain B where B: "B \<in> blocks (omem e)" "c_base B \<noteq> 0" "window l \<subseteq> extent B" "entry_at e (c_base B) = None" by (rule home_here [OF inv l])
      moreover have "\<forall>B \<in> blocks (omem e). c_base B = obj \<longrightarrow> (\<forall>l \<in> W. window l \<inter> extent B = {})" using ok Register_static by simp
      then have "c_base B \<noteq> obj" using B(1) l window_meets [OF B(3)] by blast
      ultimately show "\<exists>B \<in> blocks (omem e). c_base B \<noteq> 0 \<and> window l \<subseteq> extent B \<and> entry_at e (c_base B) = None \<and> c_base B \<noteq> obj" by blast
    qed (use ok Register_static in auto)
    with Register_static False show ?thesis by (simp add: register_static_object_def)
  qed
next
  case (Retain n obj)
  with ok objc_retain_good [OF inv, of obj n] show ?thesis by auto
next
  case (Release n obj)
  with ok objc_release_good [OF inv, of obj n] show ?thesis by auto
next
  case (Autorelease n obj)
  with ok objc_autorelease_good [OF inv, of obj n] show ?thesis by auto
next
  case (Pool_new isa)
  with ok pool_new_good [OF inv, of isa] show ?thesis by auto
next
  case (Pool_drain n pool)
  with ok pool_drain_good [OF inv, of pool n] show ?thesis by auto
next
  case (Store_weak l v)
  with ok storeWeak_good [OF inv, of l v] show ?thesis by fastforce
next
  case (Init_weak l v)
  with ok initWeak_good [OF inv, of l v] show ?thesis by fastforce
next
  case (Destroy_weak l)
  with ok destroyWeak_good [OF inv, of l] show ?thesis by auto
next
  case (Copy_weak l k)
  with ok copyWeak_good [OF inv, of l k] show ?thesis by auto
next
  case (Move_weak l k)
  with ok moveWeak_good [OF inv, of l k] show ?thesis by auto
next
  case (Load_weak n l)
  with ok loadWeak_good [OF inv, of l n] show ?thesis by auto
next
  case (Load_weak_retained n l)
  with ok have l: "l \<in> W" by simp
  obtain v e' where "objc_loadWeakRetained n l e = Some (v, e')" "good_to W e e'" by (rule loadWeakRetained_good [OF inv l])
  with Load_weak_retained show ?thesis by auto
next
  case (Set_associated n obj key val policy)
  with ok setAssociated_good [OF c inv, of val n obj key policy] show ?thesis by auto
next
  case (Remove_associated n obj)
  with removeAssociated_good [OF inv, of n obj] show ?thesis by auto
next
  case (Guest_write p v)
  then have p: "addressable (omem e) p" "\<forall>l \<in> W. window p \<inter> window l = {}" using ok by auto
  have "\<exists>m'. write_u32 p v (omem e) = Some m' \<and> same_frame (omem e) m' \<and> (\<forall>l \<in> W. read_u32 m' l = read_u32 (omem e) l)"
  proof (cases "p < null_segment_size (omem e)")
    case True
    obtain m' where w: "write_u32 p v (omem e) = Some m'" "same_frame (omem e) m'" "mem_bytes m' = mem_bytes (omem e)"
      by (rule write_null_slot [OF p(1) True])
    with slots_okD(1) [OF objc_invD(2) [OF inv]] same_frameD(3) [OF w(2)] show ?thesis by (auto intro!: read_u32_bytes)
  next
    case False
    then have np: "null_segment_size (omem e) \<le> p" by simp
    obtain m' where w: "write_u32 p v (omem e) = Some m'" "same_frame (omem e) m'"
      "\<And>l. null_segment_size (omem e) \<le> l \<Longrightarrow> window p \<inter> window l = {} \<Longrightarrow> read_u32 m' l = read_u32 (omem e) l"
      by (rule write_slot [OF np, of v]) blast
    with slots_okD(1) [OF objc_invD(2) [OF inv]] p(2) show ?thesis by blast
  qed
  then obtain m' where w: "write_u32 p v (omem e) = Some m'" "same_frame (omem e) m'" "\<And>l. l \<in> W \<Longrightarrow> read_u32 m' l = read_u32 (omem e) l" by blast
  have "good_to W e (e\<lparr>omem := m'\<rparr>)"
    using w(3) same_frameD [OF w(2)] objc_invD(1) [OF inv] by (intro mem_change_good [OF inv]) auto
  with w(1) Guest_write show ?thesis by simp
next
  case (Guest_malloc sz)
  obtain p m where m: "Mem_alloc sz (omem e) = Some (p, m)" "mem_ok m" "null_segment_size m = null_segment_size (omem e)"
    "\<And>B. B \<in> blocks (omem e) \<Longrightarrow> B \<in> blocks m \<and> (\<forall>i \<in> extent B. mem_bytes m i = mem_bytes (omem e) i)"
    by (rule alloc_slots [OF objc_invD(1) [OF inv], of sz]) blast
  have "read_u32 m l = read_u32 (omem e) l" if l: "l \<in> W" for l
  proof -
    obtain B where "B \<in> blocks (omem e)" "window l \<subseteq> extent B" "null_segment_size (omem e) \<le> l" by (rule home_here [OF inv l])
    with m(4) show ?thesis by (intro read_u32_bytes m(3)) auto
  qed
  then have "good_to W e (e\<lparr>omem := m\<rparr>)" using m by (intro mem_change_good [OF inv]) auto
  with m(1) Guest_malloc show ?thesis by simp
next
  case (Guest_free p)
  obtain m where m: "Mem_free p (omem e) = Some m" "mem_ok m" "null_segment_size m = null_segment_size (omem e)"
    "\<And>B. B \<in> blocks (omem e) \<Longrightarrow> c_base B \<noteq> p \<Longrightarrow> B \<in> blocks m \<and> (\<forall>i \<in> extent B. mem_bytes m i = mem_bytes (omem e) i)"
    by (rule free_slots [OF objc_invD(1) [OF inv], of p]) blast
  have other: "c_base B \<noteq> p" if "l \<in> W" "B \<in> blocks (omem e)" "window l \<subseteq> extent B" for l B
  proof -
    have "\<forall>B \<in> blocks (omem e). c_base B = p \<longrightarrow> (\<forall>l \<in> W. window l \<inter> extent B = {})" using ok Guest_free by simp
    then show ?thesis using that(1,2) window_meets [OF that(3)] by blast
  qed
  have "read_u32 m l = read_u32 (omem e) l" if l: "l \<in> W" for l
  proof -
    obtain B where "B \<in> blocks (omem e)" "window l \<subseteq> extent B" "null_segment_size (omem e) \<le> l" by (rule home_here [OF inv l])
    with m(4) other [OF l] show ?thesis by (intro read_u32_bytes m(3)) auto
  qed
  then have "good_to W e (e\<lparr>omem := m\<rparr>)" using m other by (intro mem_change_good [OF inv]) auto
  with m(1) Guest_free show ?thesis by simp
next
  case (Switch_thread t)
  have "good_to W e (e\<lparr>current_thread := t\<rparr>)" by (rule inv_cong [OF inv]) (auto simp: stored_ids_def)
  with Switch_thread show ?thesis by simp
qed

lemma run_good:
  assumes "copy_message_ok copy_msg" "objc_inv W e" "all_follow_rules copy_msg calls W e"
  shows "\<exists>W' e'. objc_run copy_msg calls W e = Some (W', e') \<and> objc_inv W' e'"
  using assms(2,3)
proof (induction calls arbitrary: W e)
  case (Cons c calls)
  from exec_good [OF assms(1) Cons.prems(1)] Cons.prems(2) obtain e' where
    "objc_exec copy_msg c e = Some e'" "good_to (slots_after c W) e e'" by auto
  with Cons.IH [OF good_toD(1)] Cons.prems(2) show ?case by auto
qed simp


section \<open>Weak references\<close>

text \<open>
  C8: Weak variables outside of objects never dangle.  Whatever sequence of calls a program makes from its start, in any
  order and at any depth of messages, as long as it follows the rules of \<open>follows_rules\<close>, no call panics, the
  heap stays in order, and every weak variable holds \<open>nil\<close> or an object that still exists.  The rules: weak variables
  are local or global ones or lie in plain memory (\<open>slot_place\<close>: inside a live block that is no object and apart
  from each other), are initialised before use and destroyed before their memory is freed, refer to objects
  that exist when they are set, and are not written directly; addresses passed are readable.  Of the message
  \<open>copy\<close>, which the program defines, \<open>copy_message_ok\<close> is assumed: it returns and keeps the tables in order.
  Weak instance variables are not covered: the property after this one shows what becomes of them.
\<close>

theorem weak_references_never_dangle:
  assumes "mem_ok m" and "\<forall>x \<in> set kvc. addressable m (snd (snd x))" and "copy_message_ok copy_msg"
    and "all_follow_rules copy_msg calls {} (objc_start m kvc)"
  shows "\<exists>W e. objc_run copy_msg calls {} (objc_start m kvc) = Some (W, e) \<and> mem_ok (omem e) \<and>
    (\<forall>l \<in> W. \<exists>v. read_u32 (omem e) l = Some v \<and> (v = nil \<or> entry_at e v \<noteq> None))"
proof -
  from run_good [OF assms(3) start_inv [OF assms(1,2)] assms(4)] obtain W e where
    r: "objc_run copy_msg calls {} (objc_start m kvc) = Some (W, e)" "objc_inv W e" by blast
  have "\<exists>v. read_u32 (omem e) l = Some v \<and> (v = nil \<or> entry_at e v \<noteq> None)" if "l \<in> W" for l
    using weak_okD(2,5) [OF objc_invD(3) [OF r(2)]] that by metis
  with r objc_invD(1) show ?thesis by blast
qed

definition copy_by_retain :: "objc_id \<Rightarrow> objc_env \<Rightarrow> (objc_id \<times> objc_env) option" where
  "copy_by_retain v e = map_option (\<lambda>(_, e). (v, e)) (objc_retain MAX_DEPTH v e)"

lemma copy_by_retain_ok: "copy_message_ok copy_by_retain"
  unfolding copy_message_ok_def
proof (intro allI impI, elim conjE)
  fix W e v assume a: "objc_inv W e" "addressable (omem e) v"
  from objc_retain_good [OF this, of MAX_DEPTH] obtain w e' where "objc_retain MAX_DEPTH v e = Some (w, e')" "good_to W e e'" by blast
  with a show "\<exists>w e'. copy_by_retain v e = Some (w, e') \<and> good_to W e e' \<and> addressable (omem e) w"
    by (simp add: copy_by_retain_def)
qed

theorem weak_references_never_dangle_witness:
  "\<exists>W e. objc_run copy_by_retain [Register_static 0x5000 Host_other, Init_weak MAIN_THREAD_STACK_LOW_END 0x5000,
      Destroy_weak MAIN_THREAD_STACK_LOW_END] {} (objc_start (the (load_mem 4096)) []) = Some (W, e)"
proof -
  let ?m = "the (load_mem 4096)" and ?s = "MAIN_THREAD_STACK_LOW_END"
  let ?B = "\<lparr>c_base = MAIN_THREAD_STACK_LOW_END, c_size = MAIN_THREAD_STACK_SIZE\<rparr>"
  let ?e = "register_static_object 0x5000 Host_other (objc_start ?m [])"
  have e: "omem ?e = ?m" "entry_at ?e p = (if p = 0x5000 then Some \<lparr>host_object = Host_other, refcount = None\<rparr> else None)" for p
    by (auto simp: register_static_object_def objc_start_def)
  have "?B \<in> blocks ?m" by (simp add: loaded(3) fresh_ok(3))
  moreover have "window ?s \<subseteq> extent ?B" "c_base ?B \<noteq> 0" "entry_at ?e (c_base ?B) = None" "null_segment_size ?m \<le> ?s"
    by (auto simp: window_def extent_def alloc_consts e loaded(4) word_le_nat_alt)
  ultimately have "slot_place {} ?s ?e" unfolding slot_place_def e(1) by blast
  then have "all_follow_rules copy_by_retain [Register_static 0x5000 Host_other, Init_weak ?s 0x5000, Destroy_weak ?s] {} (objc_start ?m [])"
    using e by (simp add: addressable_def objc_start_def split: option.split)
  from weak_references_never_dangle [OF loaded(1) _ copy_by_retain_ok this] show ?thesis by auto
qed

text \<open>
  C24: Weak instance variables outlive their object.  Nothing destroys the weak variables inside an object when it is
  deallocated (\<open>.cxx_destruct\<close> is never called): a weak variable \<open>l\<close> that lies in the memory of \<open>a\<close> and refers to \<open>b\<close> stays
  registered although the memory is given back.  Whoever owns that memory later, if a strong reference to \<open>b\<close> is stored at
  the same place, the deallocation of \<open>b\<close> overwrites it with \<open>nil\<close>.
\<close>

theorem weak_ivar_outlives_object:
  assumes "mem_ok (omem e)" and "a \<noteq> nil" and "a \<noteq> 0x7461736b" and "entry_at e a = Some ent" and "weak_list e a = None"
    and "B \<in> blocks (omem e)" and "c_base B = a" and "window l \<subseteq> extent B"
    and "a \<noteq> b" and "b \<noteq> nil" and "weak_list e b = Some [l]"
  shows "\<exists>e1. dealloc_object a e = Some e1 \<and> entry_at e1 a = None \<and> B \<notin> blocks (omem e1) \<and> weak_list e1 b = Some [l] \<and>
    (\<forall>m. null_segment_size m \<le> l \<and> read_u32 m l = Some b \<longrightarrow>
      (\<exists>e2. zero_weak_references_for b (e1\<lparr>omem := m\<rparr>) = Some e2 \<and> read_u32 (omem e2) l = Some nil))"
proof -
  have known: "is_known_allocation (mem_allocator (omem e)) a" using heap.known_iff [OF mem_okD [OF assms(1)]] assms(6,7) by blast
  obtain m1 where m1: "Mem_free a (omem e) = Some m1" "B \<notin> blocks m1"
    using assms(1)
  proof (rule Mem_free_cases [where p = a])
    fix F m' assume F: "F \<in> blocks (omem e)" "c_base F = a" "Mem_free a (omem e) = Some m'" "blocks m' = blocks (omem e) - {F}"
    have "0 < cs F" "0 < cs B" using heap.live_wf [OF mem_okD [OF assms(1)]] F(1) assms(6) by (auto simp: wf_chunk_def)
    then have "cb B \<in> extent F \<inter> extent B" using F(2) assms(7) by (simp add: extent_def)
    then have "F = B" using heap.live_disjoint [OF mem_okD [OF assms(1)] F(1) assms(6)] by blast
    with that F show thesis by blast
  qed (use assms(2,3) known in auto)
  let ?e1 = "e\<lparr>objc := (objc e)\<lparr>objects := AList.delete a (objects (objc e))\<rparr>, omem := m1\<rparr>"
  have "dealloc_object a e = Some ?e1"
    using assms(2,4,5) m1(1) by (simp add: dealloc_object_def zero_weak_references_for_def Let_def)
  moreover have "\<exists>e2. zero_weak_references_for b (?e1\<lparr>omem := m\<rparr>) = Some e2 \<and> read_u32 (omem e2) l = Some nil"
    if m: "null_segment_size m \<le> l" "read_u32 m l = Some b" for m
  proof -
    obtain m' where "write_u32 l nil m = Some m'" "read_u32 m' l = Some nil" by (rule write_slot [OF m(1), of nil]) blast
    then show ?thesis using m assms(11) by (simp add: zero_weak_references_for_def)
  qed
  ultimately show ?thesis using m1(2) assms(11) by (auto simp: delete_conv')
qed

text \<open>An object in a block of its own, with a weak variable behind its class pointer.\<close>

definition demo_ivar :: objc_env where
  "demo_ivar = (objc_start (the (load_mem 4096)) [])\<lparr>objc := \<lparr>objects =
     [(MAIN_THREAD_STACK_LOW_END, \<lparr>host_object = Host_other, refcount = Some 1\<rparr>),
      (0x5000, \<lparr>host_object = Host_other, refcount = Some 1\<rparr>)],
     weak_refs = [(0x5000, [MAIN_THREAD_STACK_LOW_END + 4])], associated_objects = []\<rparr>\<rparr>"

theorem weak_ivar_outlives_object_witness:
  "\<exists>e1. dealloc_object MAIN_THREAD_STACK_LOW_END demo_ivar = Some e1 \<and> entry_at e1 MAIN_THREAD_STACK_LOW_END = None \<and>
     weak_list e1 0x5000 = Some [MAIN_THREAD_STACK_LOW_END + 4] \<and>
     (\<exists>m e2. read_u32 m (MAIN_THREAD_STACK_LOW_END + 4) = Some 0x5000 \<and>
       zero_weak_references_for 0x5000 (e1\<lparr>omem := m\<rparr>) = Some e2 \<and>
       read_u32 (omem e2) (MAIN_THREAD_STACK_LOW_END + 4) = Some nil)"
proof -
  let ?B = "\<lparr>c_base = MAIN_THREAD_STACK_LOW_END, c_size = MAIN_THREAD_STACK_SIZE\<rparr>" and ?e = demo_ivar
  have e: "omem ?e = the (load_mem 4096)" by (simp add: demo_ivar_def objc_start_def)
  have 1: "mem_ok (omem ?e)" "?B \<in> blocks (omem ?e)" by (simp_all add: e loaded(1,3) fresh_ok(3))
  have 2: "MAIN_THREAD_STACK_LOW_END \<noteq> nil" "MAIN_THREAD_STACK_LOW_END \<noteq> 0x7461736b" "MAIN_THREAD_STACK_LOW_END \<noteq> 0x5000"
    by (simp_all add: alloc_consts)
  have 3: "entry_at ?e MAIN_THREAD_STACK_LOW_END = Some \<lparr>host_object = Host_other, refcount = Some 1\<rparr>"
    "weak_list ?e MAIN_THREAD_STACK_LOW_END = None" "weak_list ?e 0x5000 = Some [MAIN_THREAD_STACK_LOW_END + 4]"
    using 2 by (simp_all add: demo_ivar_def objc_start_def)
  have 4: "window (MAIN_THREAD_STACK_LOW_END + 4) \<subseteq> extent ?B"
    by (auto simp: window_def extent_def alloc_consts)
  have n: "null_segment_size (the (load_mem 4096)) \<le> MAIN_THREAD_STACK_LOW_END + 4"
    by (simp add: loaded(4) alloc_consts word_le_nat_alt)
  obtain m where m: "same_frame (the (load_mem 4096)) m" "read_u32 m (MAIN_THREAD_STACK_LOW_END + 4) = Some 0x5000"
    by (rule write_slot [OF n]) blast
  then have "null_segment_size m \<le> MAIN_THREAD_STACK_LOW_END + 4" using same_frameD(3) n by metis
  with m(2) weak_ivar_outlives_object [OF 1(1) 2(1,2) 3(1,2) 1(2) _ 4 2(3) _ 3(3)] show ?thesis by simp blast
qed

section \<open>Reference counts\<close>

text \<open>\<open>True\<close> is a \<open>retain\<close>, \<open>False\<close> a \<open>release\<close>; the count is defined as long as it stays in \<open>1 ..< 2 ^ 32\<close>.\<close>

fun ref_messages :: "nat \<Rightarrow> bool list \<Rightarrow> objc_id \<Rightarrow> objc_env \<Rightarrow> objc_env option" where
  "ref_messages n [] obj e = Some e"
| "ref_messages n (retain # ms) obj e = do {
     e \<leftarrow> (if retain then map_option snd (objc_retain n obj e) else objc_release n obj e);
     ref_messages n ms obj e
   }"

fun ref_count :: "nat \<Rightarrow> bool list \<Rightarrow> nat option" where
  "ref_count c [] = Some c"
| "ref_count c (retain # ms) =
     (if retain then (if Suc c < 2 ^ 32 then ref_count (Suc c) ms else None)
      else (if 1 < c then ref_count (c - 1) ms else None))"

lemma set_entry_twice: "set_entry obj a (set_entry obj b e) = set_entry obj a e"
  by (simp add: set_entry_def)

lemma set_entry_same: "entry_at e obj = Some ent \<Longrightarrow> set_entry obj ent e = e"
  by (simp add: set_entry_def update_triv)

lemma receiver_cong:
  assumes "omem e' = omem e" "\<And>p. map_option host_object (entry_at e' p) = map_option host_object (entry_at e p)"
  shows "receiver_of obj e' = receiver_of obj e"
proof -
  have "get_host_object p e' = get_host_object p e" for p by (simp add: get_host_object_def assms(2))
  then show ?thesis unfolding receiver_of_def methods_of_def assms(1) by presburger
qed

lemma receiver_recount:
  assumes "entry_at e obj = Some ent"
  shows "receiver_of p (set_entry obj (ent\<lparr>refcount := rc\<rparr>) e) = receiver_of p e"
  by (rule receiver_cong) (use assms in auto)

lemma counted:
  assumes "ref_count c ms = Some d" "obj \<noteq> nil" "entry_at e obj = Some ent" "refcount ent = Some (of_nat c)" "0 < c" "c < 2 ^ 32"
    "receiver_of obj e = Some (Some NSObject_methods)"
  shows "ref_messages (Suc n) ms obj e = Some (set_entry obj (ent\<lparr>refcount := Some (of_nat d)\<rparr>) e) \<and> 0 < d \<and> d < 2 ^ 32"
  using assms
proof (induction ms arbitrary: c e ent)
  case Nil
  then have "ent\<lparr>refcount := Some (of_nat d)\<rparr> = ent" by (cases ent) simp
  with Nil show ?case by (simp add: set_entry_same)
next
  case (Cons r ms)
  let ?c = "if r then Suc c else c - 1"
  let ?ent = "ent\<lparr>refcount := Some (of_nat ?c)\<rparr>"
  let ?e = "set_entry obj ?ent e"
  have c: "ref_count ?c ms = Some d" "0 < ?c" "?c < 2 ^ 32" using Cons.prems(1,5,6) by (auto split: if_splits)
  have u: "unat (of_nat c :: u32) = c" using Cons.prems(6) by (simp add: unat_of_nat)
  have step: "(if r then map_option snd (objc_retain (Suc n) obj e) else objc_release (Suc n) obj e) = Some ?e"
  proof (cases r)
    case True
    with Cons.prems c u show ?thesis
      by (simp add: objc_retain_def increment_refcount_def checked_add_u32_def add.commute)
  next
    case False
    with Cons.prems(1) have "1 < c" by (auto split: if_splits)
    then have "(of_nat c :: u32) \<noteq> 1" "(of_nat (c - 1) :: u32) = of_nat c - 1"
      using u by (metis less_irrefl unat_1, simp add: of_nat_diff)
    with False Cons.prems show ?thesis by (simp add: objc_release_def decrement_refcount_def)
  qed
  have "receiver_of obj ?e = Some (Some NSObject_methods)" using receiver_recount [OF Cons.prems(3)] Cons.prems(7) by simp
  with Cons.IH [OF c(1) Cons.prems(2), of ?e ?ent] c(2,3) have
    "ref_messages (Suc n) ms obj ?e = Some (set_entry obj (?ent\<lparr>refcount := Some (of_nat d)\<rparr>) ?e) \<and> 0 < d \<and> d < 2 ^ 32" by simp
  with step show ?case by (simp add: set_entry_twice)
qed

lemma last_release:
  assumes inv: "objc_inv W e" and obj: "obj \<noteq> nil" "entry_at e obj = Some ent" "refcount ent = Some 1" "receiver_of obj e = Some (Some NSObject_methods)"
  obtains e' where "objc_release (Suc (Suc n)) obj e = Some e'" "good_to W e e'" "entry_at e' obj = None"
    "\<And>l. l \<in> W \<Longrightarrow> read_u32 (omem e') l \<noteq> Some obj"
proof -
  let ?e0 = "set_entry obj (ent\<lparr>refcount := None\<rparr>) e"
  have g0: "good_to W e ?e0" using decrement_good [OF inv, of obj] obj by (simp add: decrement_refcount_def)
  obtain vs e1 where kv: "take_kvc obj ?e0 = (vs, e1)" by (cases "take_kvc obj ?e0")
  with take_kvc_good(1) [OF good_toD(1) [OF g0], of obj] have g1: "good_to W ?e0 e1" by simp
  have "\<forall>v \<in> set vs. addressable (omem e1) v"
    using take_kvc_good(2) [OF good_toD(1) [OF g0], of _ obj] kv good_toD(2) [OF g1] by simp
  from messages_good(3) [OF good_toD(1) [OF g1] this, of n] obtain e2 where
    e2: "release_all n vs e1 = Some e2" "good_to W e1 e2" by blast
  obtain e3 where e3: "dealloc_object obj e2 = Some e3" "good_to W e2 e3" "obj \<noteq> nil \<Longrightarrow> entry_at e3 obj = None"
    by (rule dealloc_good [OF good_toD(1) [OF e2(2)], of obj]) blast
  have g: "good_to W e e3" by (rule good_trans [OF good_trans [OF good_trans [OF g0 g1] e2(2)] e3(2)])
  have "receiver_of obj ?e0 = Some (Some NSObject_methods)" using receiver_recount [OF obj(2)] obj(4) by simp
  then have r: "objc_release (Suc (Suc n)) obj e = Some e3"
    using obj kv e2(1) e3(1) by (simp add: objc_release_def decrement_refcount_def)
  have "read_u32 (omem e3) l \<noteq> Some obj" if "l \<in> W" for l
    using weak_okD(5) [OF objc_invD(3) [OF good_toD(1) [OF g]] that] weak_okD(2) [OF objc_invD(3) [OF good_toD(1) [OF g]]] e3(3) obj(1)
    by (metis option.inject)
  with r g e3(3) obj(1) that show thesis by blast
qed

text \<open>
  C9: References are counted exactly.  Any mix of \<open>retain\<close> and \<open>release\<close> messages that keeps the count positive and in range
  changes nothing but the count, which is the initial one plus the retains minus the releases; the release that takes
  it from one to zero removes the object, and no weak variable holds it any more.
\<close>

theorem references_counted:
  assumes "objc_inv W e" and "obj \<noteq> nil" and "entry_at e obj = Some ent" and "refcount ent = Some (of_nat c)" and "0 < c" and "c < 2 ^ 32"
    and "receiver_of obj e = Some (Some NSObject_methods)" and "ref_count c ms = Some d"
  shows "ref_messages (Suc (Suc n)) ms obj e = Some (set_entry obj (ent\<lparr>refcount := Some (of_nat d)\<rparr>) e) \<and>
    (d = 1 \<longrightarrow> (\<exists>e'. ref_messages (Suc (Suc n)) (ms @ [False]) obj e = Some e' \<and> entry_at e' obj = None \<and>
      (\<forall>l \<in> W. read_u32 (omem e') l \<noteq> Some obj)))"
proof -
  let ?ent = "ent\<lparr>refcount := Some (of_nat d)\<rparr>"
  let ?e = "set_entry obj ?ent e"
  have app: "ref_messages k (xs @ ys) obj e = Option.bind (ref_messages k xs obj e) (ref_messages k ys obj)" for k xs ys e
    by (induction xs arbitrary: e) (auto split: bind_splits)
  from counted [OF assms(8,2,3,4,5,6,7), of "Suc n"] have run: "ref_messages (Suc (Suc n)) ms obj e = Some ?e" by blast
  have "good_to W e ?e" using ent_ids [OF assms(3)] by (intro set_entry_good [OF assms(1,3)]) auto
  then have inv: "objc_inv W ?e" by (rule good_toD)
  have r: "receiver_of obj ?e = Some (Some NSObject_methods)" using receiver_recount [OF assms(3)] assms(7) by simp
  have "\<exists>e'. ref_messages (Suc (Suc n)) (ms @ [False]) obj e = Some e' \<and> entry_at e' obj = None \<and>
      (\<forall>l \<in> W. read_u32 (omem e') l \<noteq> Some obj)" if d: "d = 1"
  proof -
    obtain e' where "objc_release (Suc (Suc n)) obj ?e = Some e'" "entry_at e' obj = None" "\<And>l. l \<in> W \<Longrightarrow> read_u32 (omem e') l \<noteq> Some obj"
      by (rule last_release [OF inv assms(2) _ _ r, of ?ent n]) (use d in simp_all)
    with run show ?thesis by (simp add: app)
  qed
  with run show ?thesis by blast
qed

section \<open>Associated objects\<close>

text \<open>
  C25: Setting an associated value that is already set can lose it.  The old value is released before the new one is
  retained: when the association held the only reference to an object, setting the same object again under a retaining
  policy deallocates it, and the association then holds the address of an object that does not exist.
\<close>

theorem reassociation_dangles:
  assumes "objc_inv W e" and "obj \<noteq> nil" and "map_of (associated_objects (objc e)) (obj, key) = Some (val, True)"
    and "val \<noteq> nil" and "entry_at e val = Some ent" and "refcount ent = Some 1" and "receiver_of val e = Some (Some NSObject_methods)"
    and "policy = OBJC_ASSOCIATION_RETAIN \<or> policy = OBJC_ASSOCIATION_RETAIN_NONATOMIC"
  shows "\<exists>e'. objc_setAssociatedObject copy_msg (Suc (Suc n)) obj key val policy e = Some e' \<and>
    objc_getAssociatedObject obj key e' = val \<and> entry_at e' val = None"
proof -
  let ?d = "drop_association (obj, key) e"
  have same: "objects (objc ?d) = objects (objc e)" "omem ?d = omem e" by (simp_all add: drop_association_def)
  have r: "receiver_of val ?d = Some (Some NSObject_methods)"
    using receiver_cong [of ?d e val] assms(7) same by simp
  obtain e1 where e1: "objc_release (Suc (Suc n)) val ?d = Some e1" "good_to W ?d e1" "entry_at e1 val = None"
    by (rule last_release [OF good_toD(1) [OF drop_association_good [OF assms(1)]] assms(4) _ assms(6) r, of n])
      (use assms(5) same in auto)
  have "val \<in> stored_ids e" using ids_map_of(1) [OF assms(5)] unfolding stored_ids_def by blast
  then have "addressable (omem e1) val"
    using objc_invD(4) [OF assms(1)] good_toD(2) [OF e1(2)] same by simp
  from receiver_total [OF this] obtain k where "receiver_of val e1 = Some k" by blast
  then have "\<exists>w. objc_retain (Suc (Suc n)) val e1 = Some (w, e1)"
    using assms(4) e1(3) by (cases k) (auto simp: objc_retain_def increment_refcount_def split: methods.splits)
  then obtain w where w: "objc_retain (Suc (Suc n)) val e1 = Some (w, e1)" by blast
  let ?e = "set_association (obj, key) (val, True) e1"
  have "objc_setAssociatedObject copy_msg (Suc (Suc n)) obj key val policy e = Some ?e"
    using assms(8,2,3,4) e1(1) w by (elim disjE) (simp_all add: objc_setAssociatedObject_def Let_def)
  moreover have "objc_getAssociatedObject obj key ?e = val" "entry_at ?e val = None"
    using assms(2) e1(3) by (simp_all add: objc_getAssociatedObject_def set_association_def update_conv')
  ultimately show ?thesis by blast
qed

text \<open>
  C26: Associations outlive their object.  Deallocation leaves them in the table, so that an object that is later made at the
  same address has them from the start.
\<close>

theorem associations_outlive_object:
  assumes "objc_inv W e" and "obj \<noteq> nil"
  shows "\<exists>e'. dealloc_object obj e = Some e' \<and> entry_at e' obj = None \<and>
    objc_getAssociatedObject obj key e' = objc_getAssociatedObject obj key e \<and>
    (\<forall>isa host e''. alloc_object isa host e' = Some (obj, e'') \<longrightarrow>
      objc_getAssociatedObject obj key e'' = objc_getAssociatedObject obj key e)"
proof -
  obtain e' where e': "dealloc_object obj e = Some e'" "obj \<noteq> nil \<Longrightarrow> entry_at e' obj = None"
    "associated_objects (objc e') = associated_objects (objc e)" by (rule dealloc_good [OF assms(1), of obj]) blast
  have "associated_objects (objc e'') = associated_objects (objc e')" if "alloc_object isa host e' = Some (obj, e'')" for isa host e''
    using that by (auto simp: alloc_object_def alloc_object_with_extra_bytes_def alloc_object_inner_def split: bind_splits)
  with e' assms(2) show ?thesis by (auto simp: objc_getAssociatedObject_def)
qed

section \<open>Witnesses\<close>

text \<open>A class at \<open>0x5000\<close>, an object of it at \<open>0x6000\<close> and one at \<open>0x7000\<close> that is associated with it.\<close>

definition demo_objects :: "u32 \<Rightarrow> objc_env" where
  "demo_objects c =
     (let m = the (write_u32 0x6000 0x5000 (the (load_mem 4096))) in
      (objc_start (the (write_u32 0x7000 0x5000 m)) [])\<lparr>objc := \<lparr>objects =
         [(0x5000, \<lparr>host_object = Host_class 4 NSObject_methods, refcount = None\<rparr>),
          (0x6000, \<lparr>host_object = Host_other, refcount = Some c\<rparr>), (0x7000, \<lparr>host_object = Host_other, refcount = Some 1\<rparr>)],
       weak_refs = [], associated_objects = [((0x6000, 9), 0x7000, True)]\<rparr>\<rparr>)"

lemma demo_ok:
  shows "objc_inv {} (demo_objects c)" "receiver_of 0x6000 (demo_objects c) = Some (Some NSObject_methods)"
    "receiver_of 0x7000 (demo_objects c) = Some (Some NSObject_methods)"
proof -
  let ?m = "the (load_mem 4096)"
  have n: "null_segment_size ?m \<le> 0x6000" by (simp add: loaded(4))
  obtain m1 where m1: "write_u32 0x6000 0x5000 ?m = Some m1" "same_frame ?m m1" "read_u32 m1 0x6000 = Some 0x5000"
    by (rule write_slot [OF n]) blast
  have n1: "null_segment_size m1 \<le> 0x7000" using same_frameD(3) [OF m1(2)] by (simp add: loaded(4))
  obtain m2 where m2: "write_u32 0x7000 0x5000 m1 = Some m2" "same_frame m1 m2" "read_u32 m2 0x7000 = Some 0x5000"
    "\<And>l. null_segment_size m1 \<le> l \<Longrightarrow> window 0x7000 \<inter> window l = {} \<Longrightarrow> read_u32 m2 l = read_u32 m1 l"
    by (rule write_slot [OF n1]) blast
  have r1: "read_u32 m2 0x6000 = Some 0x5000"
    using m2(4) [of "0x6000"] same_frameD(3) [OF m1(2)] m1(3) by (simp add: loaded(4) window_def)
  have e: "omem (demo_objects c) = m2" using m1(1) m2(1) by (simp add: demo_objects_def objc_start_def)
  have f: "same_frame ?m m2" by (rule same_frame_trans [OF m1(2) m2(2)])
  have "addressable m2 p" if "p \<in> {0x5000, 0x6000, 0x7000}" for p
    using that same_frameD(3) [OF f] by (auto simp: addressable_def loaded(4))
  moreover have "stored_ids (demo_objects c) = {0x5000, 0x6000, 0x7000}"
    by (auto simp: demo_objects_def objc_start_def stored_ids_def object_ids_def kvc_ids_def pool_ids_def stack_ids_def assoc_ids_def Let_def)
  moreover have "slots_ok {} (demo_objects c)" "weak_ok {} (demo_objects c)"
    by (auto simp: slots_ok_def weak_ok_def registered_def demo_objects_def objc_start_def Let_def)
  ultimately show "objc_inv {} (demo_objects c)"
    using same_frameD(1) [OF f] loaded(1) e by (simp add: objc_inv_def)
  have "get_host_object 0x5000 (demo_objects c) = Some (Host_class 4 NSObject_methods)"
    by (simp add: get_host_object_def demo_objects_def Let_def)
  then show "receiver_of 0x6000 (demo_objects c) = Some (Some NSObject_methods)"
    "receiver_of 0x7000 (demo_objects c) = Some (Some NSObject_methods)"
    using e r1 m2(3) by (simp_all add: receiver_of_def methods_of_def read_isa_def)
qed

theorem references_counted_witness:
  "\<exists>e'. ref_messages (Suc (Suc 5)) ([True, False, False] @ [False]) 0x6000 (demo_objects 2) = Some e' \<and> entry_at e' 0x6000 = None"
proof -
  have "entry_at (demo_objects 2) 0x6000 = Some \<lparr>host_object = Host_other, refcount = Some 2\<rparr>"
    by (simp add: demo_objects_def Let_def)
  from references_counted [OF demo_ok(1) _ this _ _ _ demo_ok(2), of 2 "[True, False, False]" 1 5] show ?thesis by auto
qed

theorem reassociation_dangles_witness:
  "\<exists>e'. objc_setAssociatedObject copy_by_retain (Suc (Suc 5)) 0x6000 9 0x7000 OBJC_ASSOCIATION_RETAIN (demo_objects 2) = Some e' \<and>
    entry_at e' 0x7000 = None"
proof -
  have "entry_at (demo_objects 2) 0x7000 = Some \<lparr>host_object = Host_other, refcount = Some 1\<rparr>"
    "map_of (associated_objects (objc (demo_objects 2))) (0x6000, 9) = Some (0x7000, True)"
    by (simp_all add: demo_objects_def Let_def)
  from reassociation_dangles [OF demo_ok(1) _ this(2) _ this(1) _ demo_ok(3), of OBJC_ASSOCIATION_RETAIN copy_by_retain 5]
  show ?thesis by auto
qed

theorem associations_outlive_object_witness:
  "\<exists>e'. dealloc_object 0x6000 (demo_objects 2) = Some e' \<and> entry_at e' 0x6000 = None \<and> objc_getAssociatedObject 0x6000 9 e' = 0x7000"
proof -
  have "objc_getAssociatedObject 0x6000 9 (demo_objects 2) = 0x7000"
    by (simp add: demo_objects_def objc_getAssociatedObject_def Let_def)
  with associations_outlive_object [OF demo_ok(1) [of 2], where obj = "0x6000" and key = "9"] show ?thesis by auto
qed

end
