(* ===== verification/Fnmatch.thy ===== *)
theory Fnmatch
  imports CString
begin

text \<open>
  Pattern matching of file names, after \<open>src/libc/fnmatch.rs\<close>: a loop that remembers only the last star, against a
  reference that tries every length for every star.
\<close>

section \<open>The loop\<close>

definition FNM_NOMATCH :: i32 where "FNM_NOMATCH = 1"

definition FNM_CASEFOLD :: i32 where "FNM_CASEFOLD = 16"

definition norm_byte :: "bool \<Rightarrow> u8 \<Rightarrow> u8" where
  "norm_byte casefold b = (if casefold then to_ascii_lowercase b else b)"

function skip_stars :: "u8 list \<Rightarrow> nat \<Rightarrow> nat" where
  "skip_stars pattern i = (if i < length pattern \<and> pattern ! i = 42 then skip_stars pattern (Suc i) else i)"
  by pat_completeness auto
termination by (relation "measure (\<lambda>(p, i). length p - i)") auto

declare skip_stars.simps [simp del]

text \<open>The inside of a bracket expression, up to its end: where it ends, and whether it has the byte.\<close>

function scan_set :: "bool \<Rightarrow> u8 list \<Rightarrow> u8 \<Rightarrow> nat \<Rightarrow> bool \<Rightarrow> nat \<times> bool" where
  "scan_set cf pattern sc i matched =
     (if i < length pattern \<and> pattern ! i \<noteq> 93 then
        if i + 2 < length pattern \<and> pattern ! (i + 1) = 45 \<and> pattern ! (i + 2) \<noteq> 93 then
          scan_set cf pattern sc (i + 3)
            (matched \<or> norm_byte cf (pattern ! i) \<le> sc \<and> sc \<le> norm_byte cf (pattern ! (i + 2)))
        else scan_set cf pattern sc (i + 1) (matched \<or> norm_byte cf (pattern ! i) = sc)
      else (i, matched))"
  by pat_completeness auto
termination by (relation "measure (\<lambda>(f, p, c, i, b). length p - i)") auto

declare scan_set.simps [simp del]

definition scan_bracket :: "bool \<Rightarrow> u8 list \<Rightarrow> u8 \<Rightarrow> nat \<Rightarrow> nat \<times> bool" where
  "scan_bracket cf pattern c i =
     (let negate = (i < length pattern \<and> pattern ! i = 33);
          i = (if negate then i + 1 else i) in
      case scan_set cf pattern (norm_byte cf c) i False of (i, matched) \<Rightarrow>
        (if i < length pattern then i + 1 else i, matched \<noteq> negate))"

partial_function (option) fnmatch_loop :: "bool \<Rightarrow> u8 list \<Rightarrow> u8 list \<Rightarrow> nat \<Rightarrow> nat \<Rightarrow> (nat \<times> nat) option \<Rightarrow> bool option" where
  "fnmatch_loop cf pattern string pi si star =
     (if pi < length pattern then
        if pattern ! pi = 42 then
          let pi = skip_stars pattern (pi + 1) in
          if pi = length pattern then Some True
          else fnmatch_loop cf pattern string pi si (Some (pi, si))
        else if pattern ! pi = 63 then
          if si \<ge> length string then Some False
          else fnmatch_loop cf pattern string (pi + 1) (si + 1) star
        else if pattern ! pi = 91 then
          if si \<ge> length string then Some False
          else case scan_bracket cf pattern (string ! si) (pi + 1) of (pi, ok) \<Rightarrow>
            if \<not> ok then Some False
            else fnmatch_loop cf pattern string pi (si + 1) star
        else if si \<ge> length string \<or> norm_byte cf (pattern ! pi) \<noteq> norm_byte cf (string ! si) then
          (case star of
             None \<Rightarrow> Some False
           | Some (spi, ssi) \<Rightarrow>
               if ssi + 1 > length string then Some False
               else fnmatch_loop cf pattern string spi (ssi + 1) (Some (spi, ssi + 1)))
        else fnmatch_loop cf pattern string (pi + 1) (si + 1) star
      else if si = length string then Some True
      else
          (case star of
             None \<Rightarrow> Some False
           | Some (spi, ssi) \<Rightarrow>
               if ssi + 1 > length string then Some False
               else fnmatch_loop cf pattern string spi (ssi + 1) (Some (spi, ssi + 1))))"

definition fnmatch_impl :: "u8 list \<Rightarrow> u8 list \<Rightarrow> i32 \<Rightarrow> bool option" where
  "fnmatch_impl pattern string flags = fnmatch_loop (flags AND FNM_CASEFOLD \<noteq> 0) pattern string 0 0 None"

definition fnmatch :: "mem \<Rightarrow> vaddr \<Rightarrow> vaddr \<Rightarrow> i32 \<Rightarrow> i32 option" where
  "fnmatch m pattern string flags = do {
     matched \<leftarrow> fnmatch_impl (cstr_at m pattern) (cstr_at m string) flags;
     Some (if matched then 0 else FNM_NOMATCH)
   }"

section \<open>The reference\<close>

text \<open>The ranges of a bracket expression and the pattern after it.\<close>

function set_items :: "u8 list \<Rightarrow> (u8 \<times> u8) list \<times> u8 list" where
  "set_items [] = ([], [])"
| "set_items (a # p) =
     (if a = 93 then ([], p)
      else if 2 \<le> length p \<and> p ! 0 = 45 \<and> p ! 1 \<noteq> 93
      then (case set_items (drop 2 p) of (is, r) \<Rightarrow> ((a, p ! 1) # is, r))
      else (case set_items p of (is, r) \<Rightarrow> ((a, a) # is, r)))"
  by pat_completeness auto
termination by (relation "measure length") auto

declare set_items.simps [simp del]

definition bracket_items :: "u8 list \<Rightarrow> bool \<times> (u8 \<times> u8) list \<times> u8 list" where
  "bracket_items p = (if p \<noteq> [] \<and> hd p = 33 then (True, set_items (tl p)) else (False, set_items p))"

definition in_items :: "bool \<Rightarrow> (u8 \<times> u8) list \<Rightarrow> u8 \<Rightarrow> bool" where
  "in_items cf is c \<longleftrightarrow> (\<exists>(a, b) \<in> set is. norm_byte cf a \<le> norm_byte cf c \<and> norm_byte cf c \<le> norm_byte cf b)"

lemma set_items_shorter: "length (snd (set_items p)) \<le> length p"
proof (induction p rule: set_items.induct)
  case (2 a p)
  then show ?case by (subst set_items.simps) (auto split: prod.split)
qed (simp add: set_items.simps)

lemma bracket_items_shorter: "length (snd (snd (bracket_items p))) \<le> length p"
  using set_items_shorter [of p] set_items_shorter [of "tl p"] by (auto simp: bracket_items_def)

function glob :: "bool \<Rightarrow> u8 list \<Rightarrow> u8 list \<Rightarrow> bool" where
  "glob cf [] s = (s = [])"
| "glob cf (x # p) s =
     (if x = 42 then glob cf p s \<or> (case s of [] \<Rightarrow> False | c # t \<Rightarrow> glob cf (x # p) t)
      else (case s of
        [] \<Rightarrow> False
      | c # t \<Rightarrow>
          if x = 63 then glob cf p t
          else if x = 91 then
            in_items cf (fst (snd (bracket_items p))) c \<noteq> fst (bracket_items p) \<and> glob cf (snd (snd (bracket_items p))) t
          else norm_byte cf x = norm_byte cf c \<and> glob cf p t))"
  by pat_completeness auto
termination
  by (relation "measure (\<lambda>(f, p, s). length p + length s)") (auto simp: less_Suc_eq_le bracket_items_shorter le_SucI intro: add_mono)


declare glob.simps [simp del]

lemma glob_Nil [simp]: "glob cf [] s \<longleftrightarrow> s = []"
  by (simp add: glob.simps)

lemma glob_star: "glob cf (42 # p) s \<longleftrightarrow> (\<exists>k \<le> length s. glob cf p (drop k s))"
proof (induction s)
  case Nil
  then show ?case by (subst glob.simps) simp
next
  case (Cons c s)
  have "glob cf (42 # p) (c # s) \<longleftrightarrow> glob cf p (c # s) \<or> glob cf (42 # p) s" by (subst glob.simps) simp
  also have "\<dots> \<longleftrightarrow> (\<exists>k \<le> length (c # s). glob cf p (drop k (c # s)))"
    unfolding Cons by (auto simp: Suc_le_length_iff intro: exI [of _ 0]) (metis drop0 drop_Suc_Cons not0_implies_Suc Suc_le_mono)
  finally show ?case .
qed

lemma glob_one:
  assumes "x \<noteq> 42" "x \<noteq> 91"
  shows "glob cf (x # p) s \<longleftrightarrow> (\<exists>c t. s = c # t \<and> (x = 63 \<or> norm_byte cf x = norm_byte cf c) \<and> glob cf p t)"
  using assms by (subst glob.simps) (auto split: list.split)

lemma glob_bracket:
  "glob cf (91 # p) s \<longleftrightarrow> (\<exists>c t. s = c # t \<and> in_items cf (fst (snd (bracket_items p))) c \<noteq> fst (bracket_items p) \<and>
     glob cf (snd (snd (bracket_items p))) t)"
  by (subst glob.simps) (auto split: list.split)

section \<open>Scanning\<close>

lemma skip_stars_ok:
  assumes "i \<le> length p"
  shows "i \<le> skip_stars p i \<and> skip_stars p i \<le> length p \<and> (\<forall>k. i \<le> k \<and> k < skip_stars p i \<longrightarrow> p ! k = 42)"
  using assms
proof (induction p i rule: skip_stars.induct)
  case (1 p i)
  show ?case
  proof (cases "i < length p \<and> p ! i = 42")
    case True
    with 1 have "Suc i \<le> skip_stars p (Suc i) \<and> skip_stars p (Suc i) \<le> length p \<and>
      (\<forall>k. Suc i \<le> k \<and> k < skip_stars p (Suc i) \<longrightarrow> p ! k = 42)" by simp
    moreover have "skip_stars p i = skip_stars p (Suc i)" using True by (subst skip_stars.simps) simp
    moreover have "p ! k = 42" if "i \<le> k" "k < skip_stars p (Suc i)" for k
      using calculation(1) that True by (cases "k = i") auto
    ultimately show ?thesis by auto
  next
    case False
    then have "skip_stars p i = i" by (subst skip_stars.simps) auto
    with 1(2) show ?thesis by auto
  qed
qed

lemma glob_star_twice: "glob cf (42 # 42 # p) s \<longleftrightarrow> glob cf (42 # p) s"
proof
  assume "glob cf (42 # 42 # p) s"
  then obtain k l where k: "k \<le> length s" "l \<le> length (drop k s)" "glob cf p (drop l (drop k s))"
    unfolding glob_star [of cf "42 # p"] unfolding glob_star by blast
  then have "l + k \<le> length s" "glob cf p (drop (l + k) s)" by simp_all
  then show "glob cf (42 # p) s" unfolding glob_star by blast
next
  assume "glob cf (42 # p) s"
  then have "glob cf (42 # p) (drop 0 s)" by simp
  then show "glob cf (42 # 42 # p) s" unfolding glob_star [of cf "42 # p"] by blast
qed

text \<open>A run of stars is one star.\<close>

lemma glob_stars:
  assumes "i \<le> j" "j \<le> length p" "\<forall>k. i \<le> k \<and> k < j \<longrightarrow> p ! k = 42"
  shows "glob cf (42 # drop i p) s \<longleftrightarrow> glob cf (42 # drop j p) s"
  using assms
proof (induction "j - i" arbitrary: i)
  case (Suc n)
  then have i: "i < j" "p ! i = 42" by auto
  then have "drop i p = 42 # drop (Suc i) p" using Suc.prems(2) by (metis Cons_nth_drop_Suc less_le_trans)
  then have "glob cf (42 # drop i p) s \<longleftrightarrow> glob cf (42 # drop (Suc i) p) s" by (simp add: glob_star_twice)
  also have "\<dots> \<longleftrightarrow> glob cf (42 # drop j p) s" using Suc i by (intro Suc.hyps(1)) auto
  finally show ?case .
qed simp


lemma scan_set_ok:
  assumes "i \<le> length p"
  shows "\<exists>j b. scan_set cf p sc i m = (j, b) \<and> i \<le> j \<and> j \<le> length p \<and>
    snd (set_items (drop i p)) = drop (if j < length p then j + 1 else j) p \<and>
    (b \<longleftrightarrow> m \<or> (\<exists>(x, y) \<in> set (fst (set_items (drop i p))). norm_byte cf x \<le> sc \<and> sc \<le> norm_byte cf y))"
  using assms
proof (induction cf p sc i m rule: scan_set.induct)
  case (1 cf p sc i m)
  show ?case
  proof (cases "i < length p \<and> p ! i \<noteq> 93")
    case False
    then have "scan_set cf p sc i m = (i, m)" by (subst scan_set.simps) auto
    moreover have "set_items (drop i p) = ([], drop (if i < length p then i + 1 else i) p)"
    proof (cases "i < length p")
      case True
      with False have "drop i p = 93 # drop (i + 1) p" by (metis Cons_nth_drop_Suc Suc_eq_plus1)
      with True show ?thesis by (simp add: set_items.simps)
    qed (use 1(3) in \<open>simp add: set_items.simps\<close>)
    ultimately show ?thesis using 1(3) by simp
  next
    case True
    then have d: "drop i p = p ! i # drop (i + 1) p" by (metis Cons_nth_drop_Suc Suc_eq_plus1)
    let ?range = "i + 2 < length p \<and> p ! (i + 1) = 45 \<and> p ! (i + 2) \<noteq> 93"
    have range: "2 \<le> length (drop (i + 1) p) \<and> drop (i + 1) p ! 0 = 45 \<and> drop (i + 1) p ! 1 \<noteq> 93 \<longleftrightarrow> ?range" by auto
    show ?thesis
    proof (cases ?range)
      case r: True
      let ?m = "m \<or> norm_byte cf (p ! i) \<le> sc \<and> sc \<le> norm_byte cf (p ! (i + 2))"
      have s: "scan_set cf p sc i m = scan_set cf p sc (i + 3) ?m" using True r by (subst scan_set.simps) simp
      have "2 + (i + 1) = i + 3" by simp
      then have "drop 2 (drop (i + 1) p) = drop (i + 3) p" by (simp only: drop_drop)
      then have t: "set_items (drop i p) = ((p ! i, p ! (i + 2)) # fst (set_items (drop (i + 3) p)), snd (set_items (drop (i + 3) p)))"
        unfolding d by (subst set_items.simps) (use True r range in \<open>simp add: prod.case_eq_if add.commute\<close>)
      from 1(1) [OF True r] r obtain j b where "scan_set cf p sc (i + 3) ?m = (j, b)" "i + 3 \<le> j" "j \<le> length p"
        "snd (set_items (drop (i + 3) p)) = drop (if j < length p then j + 1 else j) p"
        "b \<longleftrightarrow> ?m \<or> (\<exists>(x, y) \<in> set (fst (set_items (drop (i + 3) p))). norm_byte cf x \<le> sc \<and> sc \<le> norm_byte cf y)" by fastforce
      with s t show ?thesis by (intro exI [of _ j] exI [of _ b]) auto
    next
      case r: False
      let ?m = "m \<or> norm_byte cf (p ! i) = sc"
      have s: "scan_set cf p sc i m = scan_set cf p sc (i + 1) ?m" using True r by (subst scan_set.simps) auto
      have t: "set_items (drop i p) = ((p ! i, p ! i) # fst (set_items (drop (i + 1) p)), snd (set_items (drop (i + 1) p)))"
        unfolding d by (subst set_items.simps) (use True r range in \<open>simp add: prod.case_eq_if\<close>)
      from 1(2) [OF True r] True obtain j b where "scan_set cf p sc (i + 1) ?m = (j, b)" "i + 1 \<le> j" "j \<le> length p"
        "snd (set_items (drop (i + 1) p)) = drop (if j < length p then j + 1 else j) p"
        "b \<longleftrightarrow> ?m \<or> (\<exists>(x, y) \<in> set (fst (set_items (drop (i + 1) p))). norm_byte cf x \<le> sc \<and> sc \<le> norm_byte cf y)" by fastforce
      with s t show ?thesis by (intro exI [of _ j] exI [of _ b]) auto
    qed
  qed
qed

lemma scan_bracket_ok:
  assumes "i \<le> length p"
  shows "\<exists>j. scan_bracket cf p c i = (j, in_items cf (fst (snd (bracket_items (drop i p)))) c \<noteq> fst (bracket_items (drop i p))) \<and>
    i \<le> j \<and> j \<le> length p \<and> drop j p = snd (snd (bracket_items (drop i p)))"
proof -
  let ?neg = "i < length p \<and> p ! i = 33"
  let ?i = "if ?neg then i + 1 else i"
  have neg: "drop i p \<noteq> [] \<and> hd (drop i p) = 33 \<longleftrightarrow> ?neg" using hd_drop_conv_nth [of i p] by auto
  have b: "bracket_items (drop i p) = (?neg, set_items (drop ?i p))"
    unfolding bracket_items_def neg by (auto simp: drop_Suc tl_drop)
  have "?i \<le> length p" using assms by auto
  from scan_set_ok [OF this, of cf "norm_byte cf c" False] obtain j b where j: "scan_set cf p (norm_byte cf c) ?i False = (j, b)"
    "?i \<le> j" "j \<le> length p" "snd (set_items (drop ?i p)) = drop (if j < length p then j + 1 else j) p"
    "b \<longleftrightarrow> in_items cf (fst (set_items (drop ?i p))) c" unfolding in_items_def by blast
  show ?thesis
  proof (intro exI [of _ "if j < length p then j + 1 else j"] conjI)
    show "scan_bracket cf p c i = (if j < length p then j + 1 else j,
        in_items cf (fst (snd (bracket_items (drop i p)))) c \<noteq> fst (bracket_items (drop i p)))"
      unfolding scan_bracket_def Let_def j(1) b using j(5) by simp
  qed (use j(2-4) b in \<open>auto split: if_splits\<close>)
qed


section \<open>The loop returns\<close>

lemma bracket_forward:
  assumes "pi < length p" "scan_bracket cf p c (pi + 1) = (j, ok)"
  shows "pi < j"
  using scan_bracket_ok [of "pi + 1" p cf c] assms by auto

lemma skip_forward: "pi < length p \<Longrightarrow> pi < skip_stars p (pi + 1)"
  using skip_stars_ok [of "pi + 1" p] by simp

lemma loop_returns:
  assumes "case star of None \<Rightarrow> True | Some (spi, ssi) \<Rightarrow> ssi \<le> si"
  shows "\<exists>b. fnmatch_loop cf p s pi si star = Some b"
  using assms
proof (induction "(case star of None \<Rightarrow> length s + 1 | Some (spi, ssi) \<Rightarrow> length s - ssi, length p - pi)"
    arbitrary: pi si star rule: wf_induct_rule [OF wf_lex_prod [OF wf_less_than wf_less_than]])
  case 1
  have retry: "\<exists>b. fnmatch_loop cf p s spi (ssi + 1) (Some (spi, ssi + 1)) = Some b"
    if "star = Some (spi, ssi)" "ssi + 1 \<le> length s" for spi ssi
    by (rule 1(1)) (use that in auto)
  have fwd: "\<exists>b. fnmatch_loop cf p s pi' (si + 1) star = Some b" if "pi < pi'" "pi < length p" for pi'
    by (rule 1(1)) (use that 1(2) in \<open>auto split: option.splits\<close>)
  have new: "\<exists>b. fnmatch_loop cf p s pi' si (Some (pi', si)) = Some b" if "pi < pi'" "pi < length p" for pi'
    by (rule 1(1)) (use that 1(2) in \<open>auto split: option.splits\<close>)
  show ?case
    using skip_forward [of pi p] bracket_forward [of pi p cf "s ! si"] new [of "skip_stars p (pi + 1)"] fwd [of "pi + 1"]
      fwd [of "fst (scan_bracket cf p (s ! si) (pi + 1))"] retry
    by (subst fnmatch_loop.simps) (auto simp: Let_def split: option.split prod.split)
qed

section \<open>What it returns\<close>

text \<open>Between the last star and the current position there are only patterns of one byte.\<close>

definition plain :: "u8 list \<Rightarrow> nat \<Rightarrow> nat \<Rightarrow> bool" where
  "plain p i j \<longleftrightarrow> (\<forall>k. i \<le> k \<and> k < j \<longrightarrow> p ! k \<noteq> 42 \<and> p ! k \<noteq> 91)"

lemma plain_segment:
  assumes "i \<le> j" "j \<le> length p" "plain p i j" "glob cf (drop i p) s"
  shows "j - i \<le> length s \<and> glob cf (drop j p) (drop (j - i) s)"
  using assms
proof (induction "j - i" arbitrary: i s)
  case (Suc n)
  then have i: "i < j" "p ! i \<noteq> 42" "p ! i \<noteq> 91" by (auto simp: plain_def)
  have d: "drop i p = p ! i # drop (Suc i) p" using i(1) Suc.prems(2) by (simp add: Cons_nth_drop_Suc)
  from Suc.prems(4) obtain c t where s: "s = c # t" "glob cf (drop (Suc i) p) t"
    unfolding d glob_one [OF i(2,3)] by blast
  have "j - Suc i \<le> length t \<and> glob cf (drop j p) (drop (j - Suc i) t)"
    by (rule Suc.hyps(1)) (use Suc i s in \<open>auto simp: plain_def\<close>)
  moreover have "j - i = Suc (j - Suc i)" using i(1) by simp
  ultimately show ?case by (simp add: s(1))
qed simp

definition later :: "bool \<Rightarrow> u8 list \<Rightarrow> u8 list \<Rightarrow> nat \<Rightarrow> nat \<Rightarrow> bool" where
  "later cf p s spi ssi \<longleftrightarrow> (\<exists>j. ssi < j \<and> j \<le> length s \<and> glob cf (drop spi p) (drop j s))"

lemma later_Suc:
  "ssi + 1 \<le> length s \<Longrightarrow> later cf p s spi ssi \<longleftrightarrow> glob cf (drop spi p) (drop (ssi + 1) s) \<or> later cf p s spi (ssi + 1)"
  unfolding later_def by (metis Suc_eq_plus1 Suc_leI Suc_lessD le_neq_implies_less lessI)

lemma loop_after_star:
  assumes "spi \<le> pi" "pi \<le> length p" "ssi \<le> si" "si \<le> length s" "si = ssi + (pi - spi)"
    "\<forall>k. spi \<le> k \<and> k < length p \<longrightarrow> p ! k \<noteq> 91" "plain p spi pi"
  shows "fnmatch_loop cf p s pi si (Some (spi, ssi)) = Some (glob cf (drop pi p) (drop si s) \<or> later cf p s spi ssi)"
  using assms
proof (induction "(length s - ssi, length p - pi)" arbitrary: pi si spi ssi rule: wf_induct_rule [OF wf_lex_prod [OF wf_less_than wf_less_than]])
  case 1
  note inv = 1(2-8)
  have none: "\<not> later cf p s spi ssi" if "length s < ssi + 1" using that by (auto simp: later_def)
  have retry: "(if ssi + 1 > length s then Some False else fnmatch_loop cf p s spi (ssi + 1) (Some (spi, ssi + 1))) = Some (later cf p s spi ssi)"
  proof (cases "ssi + 1 > length s")
    case False
    then have "fnmatch_loop cf p s spi (ssi + 1) (Some (spi, ssi + 1)) =
      Some (glob cf (drop spi p) (drop (ssi + 1) s) \<or> later cf p s spi (ssi + 1))"
      by (intro 1(1)) (use inv False in \<open>auto simp: plain_def\<close>)
    with False later_Suc [of ssi s cf p spi] show ?thesis by simp
  qed (use none in simp)
  show ?case
  proof (cases "pi < length p")
    case False
    then have pi: "pi = length p" using inv by simp
    show ?thesis
    proof (cases "si = length s")
      case True
      with pi show ?thesis by (subst fnmatch_loop.simps) simp
    next
      case False
      then have "\<not> glob cf (drop pi p) (drop si s)" using pi inv(4) by simp
      with False pi retry show ?thesis by (subst fnmatch_loop.simps) simp
    qed
  next
    case pl: True
    have d: "drop pi p = p ! pi # drop (Suc pi) p" using pl by (simp add: Cons_nth_drop_Suc)
    have nb: "p ! pi \<noteq> 91" using inv(6) pl inv(1) by blast
    show ?thesis
    proof (cases "p ! pi = 42")
      case star: True
      let ?q = "skip_stars p (pi + 1)"
      have q: "pi + 1 \<le> ?q" "?q \<le> length p" "\<forall>k. pi + 1 \<le> k \<and> k < ?q \<longrightarrow> p ! k = 42"
        using skip_stars_ok [of "pi + 1" p] pl by auto
      have g: "glob cf (drop pi p) t \<longleftrightarrow> glob cf (42 # drop ?q p) t" for t
        using glob_stars [OF q] star by (simp add: d)
      have absorbed: "glob cf (drop pi p) (drop si s)" if l: "later cf p s spi ssi"
      proof -
        from l obtain j where j: "ssi < j" "j \<le> length s" "glob cf (drop spi p) (drop j s)" unfolding later_def by blast
        from plain_segment [OF inv(1,2,7) j(3)] have m: "pi - spi \<le> length s - j" "glob cf (drop pi p) (drop (j + (pi - spi)) s)"
          by (simp_all add: add.commute)
        from m(2) obtain k where k: "k \<le> length s - (j + (pi - spi))" "glob cf (drop ?q p) (drop (k + (j + (pi - spi))) s)"
          unfolding g glob_star by auto
        let ?k = "k + (j - ssi)"
        have e: "?k + si = k + (j + (pi - spi))" using j(1) inv(5) by simp
        have "?k \<le> length (drop si s)" using k(1) m(1) j inv(5) by simp
        moreover have "drop ?k (drop si s) = drop (k + (j + (pi - spi))) s" unfolding drop_drop e ..
        ultimately show ?thesis using k(2) unfolding g glob_star by metis
      qed
      show ?thesis
      proof (cases "?q = length p")
        case True
        then have "glob cf (drop pi p) (drop si s)" unfolding g glob_star by auto
        with True star pl show ?thesis by (subst fnmatch_loop.simps) (simp add: Let_def)
      next
        case False
        then have "fnmatch_loop cf p s ?q si (Some (?q, si)) = Some (glob cf (drop ?q p) (drop si s) \<or> later cf p s ?q si)"
          by (intro 1(1)) (use inv q pl in \<open>auto simp: plain_def\<close>)
        moreover have "glob cf (drop ?q p) (drop si s) \<or> later cf p s ?q si \<longleftrightarrow> glob cf (drop pi p) (drop si s)"
        proof
          assume a: "glob cf (drop ?q p) (drop si s) \<or> later cf p s ?q si"
          then obtain j where "si \<le> j" "j \<le> length s" "glob cf (drop ?q p) (drop j s)"
            unfolding later_def using inv(4) by (meson less_imp_le order_refl)
          then have "j - si \<le> length (drop si s)" "glob cf (drop ?q p) (drop (j - si) (drop si s))" by simp_all
          then show "glob cf (drop pi p) (drop si s)" unfolding g glob_star by blast
        next
          assume "glob cf (drop pi p) (drop si s)"
          then obtain k where "k \<le> length s - si" "glob cf (drop ?q p) (drop (k + si) s)" unfolding g glob_star by auto
          then show "glob cf (drop ?q p) (drop si s) \<or> later cf p s ?q si"
            unfolding later_def using inv(4) by (cases k) (auto intro: exI [of _ "k + si"])
        qed
        ultimately show ?thesis using False star pl absorbed by (subst fnmatch_loop.simps) (auto simp: Let_def)
      qed
    next
      case nostar: False
      note one = glob_one [OF nostar nb, of cf "drop (Suc pi) p"]
      have fwd: "fnmatch_loop cf p s (pi + 1) (si + 1) (Some (spi, ssi)) =
        Some (glob cf (drop (pi + 1) p) (drop (si + 1) s) \<or> later cf p s spi ssi)" if "si < length s"
        by (rule 1(1)) (use inv pl that nostar nb in \<open>auto simp: plain_def less_Suc_eq\<close>)
      have gs: "glob cf (drop pi p) (drop si s) \<longleftrightarrow>
        (p ! pi = 63 \<or> norm_byte cf (p ! pi) = norm_byte cf (s ! si)) \<and> glob cf (drop (pi + 1) p) (drop (si + 1) s)" if "si < length s"
        unfolding d one using that by (subst Cons_nth_drop_Suc [symmetric]) auto
      show ?thesis
      proof (cases "si < length s")
        case False
        then have ge: "\<not> glob cf (drop pi p) (drop si s)" unfolding d one by simp
        have nl: "\<not> later cf p s spi ssi"
        proof
          assume "later cf p s spi ssi"
          then obtain j where j: "ssi < j" "j \<le> length s" "glob cf (drop spi p) (drop j s)" unfolding later_def by blast
          have "plain p spi (pi + 1)" using inv(7) nostar nb by (auto simp: plain_def less_Suc_eq)
          from plain_segment [OF _ _ this j(3)] inv(1) pl have "pi + 1 - spi \<le> length s - j" by simp
          with j inv False show False by simp
        qed
        show ?thesis using False pl nostar nb ge nl retry
          by (subst fnmatch_loop.simps) (auto simp: Let_def)
      next
        case True
        with fwd [OF True] gs [OF True] retry pl nostar nb show ?thesis
          by (subst fnmatch_loop.simps) (auto simp: Let_def)
      qed
    qed
  qed
qed


definition brackets_before_stars :: "u8 list \<Rightarrow> bool" where
  "brackets_before_stars p \<longleftrightarrow> 91 \<notin> set (dropWhile (\<lambda>x. x \<noteq> 42) p)"

lemma after_star:
  "brackets_before_stars p \<Longrightarrow> i < length p \<Longrightarrow> p ! i = 42 \<Longrightarrow> i < k \<Longrightarrow> k < length p \<Longrightarrow> p ! k \<noteq> 91"
proof (induction p arbitrary: i k)
  case (Cons x p)
  obtain k' where k: "k = Suc k'" "k' < length p" using Cons.prems(4,5) by (cases k) auto
  show ?case
  proof (cases "x = 42")
    case True
    with Cons.prems(1) have "91 \<notin> set p" by (simp add: brackets_before_stars_def)
    then have "p ! k' \<noteq> 91" using nth_mem [OF k(2)] by metis
    with k show ?thesis by simp
  next
    case False
    then obtain i' where "i = Suc i'" using Cons.prems(3) by (cases i) auto
    with False Cons.IH [of i' k'] Cons.prems k show ?thesis by (simp add: brackets_before_stars_def)
  qed
qed simp

lemma loop_before_star:
  assumes "brackets_before_stars p" "pi \<le> length p" "si \<le> length s"
  shows "fnmatch_loop cf p s pi si None = Some (glob cf (drop pi p) (drop si s))"
  using assms(2,3)
proof (induction "length p - pi" arbitrary: pi si rule: less_induct)
  case less
  show ?case
  proof (cases "pi < length p")
    case False
    with less.prems show ?thesis by (subst fnmatch_loop.simps) simp
  next
    case pl: True
    have d: "drop pi p = p ! pi # drop (pi + 1) p" using pl by (simp add: Cons_nth_drop_Suc)
    have sd: "drop si s = s ! si # drop (si + 1) s" if "si < length s" using that by (simp add: Cons_nth_drop_Suc)
    consider (star) "p ! pi = 42" | (bracket) "p ! pi = 91" | (other) "p ! pi \<noteq> 42" "p ! pi \<noteq> 91" by blast
    then show ?thesis
    proof cases
      case star
      let ?q = "skip_stars p (pi + 1)"
      have q: "pi + 1 \<le> ?q" "?q \<le> length p" "\<forall>k. pi + 1 \<le> k \<and> k < ?q \<longrightarrow> p ! k = 42"
        using skip_stars_ok [of "pi + 1" p] pl by auto
      have g: "glob cf (drop pi p) t \<longleftrightarrow> glob cf (42 # drop ?q p) t" for t
        using glob_stars [OF q] star by (simp add: d)
      show ?thesis
      proof (cases "?q = length p")
        case True
        then have "glob cf (drop pi p) (drop si s)" unfolding g glob_star by auto
        with True star pl show ?thesis by (subst fnmatch_loop.simps) (simp add: Let_def)
      next
        case False
        have "fnmatch_loop cf p s ?q si (Some (?q, si)) = Some (glob cf (drop ?q p) (drop si s) \<or> later cf p s ?q si)"
          by (rule loop_after_star) (use q less.prems after_star [OF assms(1) pl star] in \<open>auto simp: plain_def\<close>)
        moreover have "glob cf (drop ?q p) (drop si s) \<or> later cf p s ?q si \<longleftrightarrow> glob cf (drop pi p) (drop si s)"
        proof
          assume a: "glob cf (drop ?q p) (drop si s) \<or> later cf p s ?q si"
          then obtain j where "si \<le> j" "j \<le> length s" "glob cf (drop ?q p) (drop j s)"
            unfolding later_def using less.prems(2) by (meson less_imp_le order_refl)
          then have "j - si \<le> length (drop si s)" "glob cf (drop ?q p) (drop (j - si) (drop si s))" by simp_all
          then show "glob cf (drop pi p) (drop si s)" unfolding g glob_star by blast
        next
          assume "glob cf (drop pi p) (drop si s)"
          then obtain k where "k \<le> length s - si" "glob cf (drop ?q p) (drop (k + si) s)" unfolding g glob_star by auto
          then show "glob cf (drop ?q p) (drop si s) \<or> later cf p s ?q si"
            unfolding later_def using less.prems(2) by (cases k) (auto intro: exI [of _ "k + si"])
        qed
        ultimately show ?thesis using False star pl by (subst fnmatch_loop.simps) (simp add: Let_def)
      qed
    next
      case bracket
      show ?thesis
      proof (cases "si < length s")
        case False
        then have "\<not> glob cf (drop pi p) (drop si s)" unfolding d bracket glob_bracket by simp
        with False bracket pl show ?thesis by (subst fnmatch_loop.simps) simp
      next
        case True
        from scan_bracket_ok [of "pi + 1" p cf "s ! si"] pl obtain j where
          j: "scan_bracket cf p (s ! si) (pi + 1) = (j, in_items cf (fst (snd (bracket_items (drop (pi + 1) p)))) (s ! si) \<noteq> fst (bracket_items (drop (pi + 1) p)))"
            "pi + 1 \<le> j" "j \<le> length p" "drop j p = snd (snd (bracket_items (drop (pi + 1) p)))" by auto
        have "fnmatch_loop cf p s j (si + 1) None = Some (glob cf (drop j p) (drop (si + 1) s))"
          by (rule less.hyps) (use j True pl in auto)
        moreover have "glob cf (drop pi p) (drop si s) \<longleftrightarrow> snd (scan_bracket cf p (s ! si) (pi + 1)) \<and> glob cf (drop j p) (drop (si + 1) s)"
          unfolding d bracket glob_bracket sd [OF True] j(1,4) by simp
        ultimately show ?thesis using True bracket pl j(1) by (subst fnmatch_loop.simps) simp
      qed
    next
      case other
      have "fnmatch_loop cf p s (pi + 1) (si + 1) None = Some (glob cf (drop (pi + 1) p) (drop (si + 1) s))" if "si < length s"
        by (rule less.hyps) (use that pl in auto)
      with other pl sd show ?thesis unfolding d glob_one [OF other]
        by (subst fnmatch_loop.simps) (auto simp: Let_def)
    qed
  qed
qed

text \<open>
  C13: The loop that remembers only the last star is equivalent to the reference, which tries every length for every star,
  on all patterns in which no bracket expression follows a star: stars, question marks, ranges and negated ranges before
  the first star, with and without folding of case.  And on any pattern and any string it returns.
\<close>

theorem fnmatch_equivalent:
  shows "(\<exists>b. fnmatch_impl p s flags = Some b) \<and>
    (brackets_before_stars p \<longrightarrow> fnmatch_impl p s flags = Some (glob (flags AND FNM_CASEFOLD \<noteq> 0) p s))"
  using loop_returns [where star = None] loop_before_star [of p 0 0 s] by (simp add: fnmatch_impl_def)

theorem fnmatch_equivalent_witness:
  "fnmatch_impl [91, 97, 45, 99, 93, 42, 46, 63] [98, 120, 46, 116] 0 = Some (glob False [91, 97, 45, 99, 93, 42, 46, 63] [98, 120, 46, 116])"
proof -
  have "brackets_before_stars [91, 97, 45, 99, 93, 42, 46, 63]"
    by (simp add: brackets_before_stars_def)
  with fnmatch_equivalent [of "[91, 97, 45, 99, 93, 42, 46, 63]" "[98, 120, 46, 116]" 0] show ?thesis by simp
qed

text \<open>
  C28: A bracket expression after a star is not retried: a pattern that begins with a star and a bracket expression is
  refused as soon as the first byte is not in the set, although the reference finds the match further on.
\<close>

theorem bracket_after_star:
  assumes "c \<noteq> 98"
  shows "fnmatch_impl [42, 91, 98, 93] (c # s @ [98]) 0 = Some False \<and> glob False [42, 91, 98, 93] (c # s @ [98])"
proof
  let ?p = "[42, 91, 98, 93] :: u8 list"
  have k: "skip_stars ?p 1 = 1" by (subst skip_stars.simps) simp
  have "scan_set False ?p c 2 False = scan_set False ?p c 3 False"
    using assms by (subst scan_set.simps) (simp add: norm_byte_def)
  also have "\<dots> = (3, False)" by (subst scan_set.simps) simp
  finally have "scan_set False ?p c 2 False = (3, False)" .
  then have b: "scan_bracket False ?p c 2 = (4, False)" by (simp add: scan_bracket_def norm_byte_def)
  show "fnmatch_impl ?p (c # s @ [98]) 0 = Some False"
  proof -
    have "fnmatch_loop False ?p (c # s @ [98]) 0 0 None = fnmatch_loop False ?p (c # s @ [98]) 1 0 (Some (1, 0))"
      using k by (subst fnmatch_loop.simps) (simp add: Let_def)
    also have "\<dots> = Some False" using b [unfolded numeral_2_eq_2] by (subst fnmatch_loop.simps) simp
    finally show ?thesis by (simp add: fnmatch_impl_def)
  qed
  have "set_items [98, 93] = ([(98, 98)], [])" by (simp add: set_items.simps)
  then have "bracket_items [98, 93] = (False, [(98, 98)], [])" by (simp add: bracket_items_def)
  then have "glob False [91, 98, 93] [98]" by (subst glob_bracket) (simp add: in_items_def)
  then show "glob False ?p (c # s @ [98])" unfolding glob_star by (intro exI [of _ "Suc (length s)"]) simp
qed

theorem bracket_after_star_witness: "fnmatch_impl [42, 91, 98, 93] [97, 98] 0 = Some False"
  using bracket_after_star [of 97 "[]"] by simp

end
