(* ===== verification/Strtol.thy ===== *)
theory Strtol
  imports Semaphore
begin

text \<open>
  Numbers in strings (\<open>src/libc/stdlib.rs\<close>): the scanner \<open>str_to_int_inner_generic\<close> that \<open>scanf\<close> shares, and \<open>strtol\<close>,
  \<open>strtoul\<close>, \<open>strtoll\<close>, \<open>strtoull\<close>, \<open>atoi\<close> and \<open>atol\<close> over it.  A source of bytes is a function from positions, \<open>None\<close> where
  \<open>getc_fn\<close> fails; what is put back with \<open>ungetc_fn\<close> is read again from the same position.  A scan that finds
  no end does not return.
\<close>

section \<open>The scanner\<close>

definition is_space :: "u8 \<Rightarrow> bool" where
  "is_space c \<longleftrightarrow> c = 32 \<or> c = 9 \<or> c = 10 \<or> c = 12 \<or> c = 13 \<or> c = 11"

text \<open>The positions before the first byte that is no white space; \<open>Inl\<close> when the source fails first.\<close>

partial_function (option) count_whitespace :: "(u32 \<Rightarrow> u8 option) \<Rightarrow> u32 \<Rightarrow> u32 \<Rightarrow> (u32 + u32) option" where
  "count_whitespace getc offset pos =
     (case getc pos of
        None \<Rightarrow> Some (Inl (pos - offset))
      | Some c \<Rightarrow> if is_space c then count_whitespace getc offset (pos + 1) else Some (Inr (pos - offset)))"

text \<open>\<open>char::to_digit\<close>; \<open>is_digit\<close> panics for a base above 36.\<close>

definition to_digit :: "u8 \<Rightarrow> nat option" where
  "to_digit c =
     (if 48 \<le> c \<and> c \<le> 57 then Some (unat c - 48)
      else if 97 \<le> c \<and> c \<le> 122 then Some (unat c - 87)
      else if 65 \<le> c \<and> c \<le> 90 then Some (unat c - 55)
      else None)"

definition is_digit :: "u32 \<Rightarrow> u8 \<Rightarrow> bool option" where
  "is_digit base c = do {
     expect (base \<le> 36);
     Some (case to_digit c of Some d \<Rightarrow> d < unat base | None \<Rightarrow> False)
   }"

text \<open>\<open>from_str_radix\<close> on a string of digits, for a type with the given largest value.\<close>

definition digits_value :: "nat \<Rightarrow> u8 list \<Rightarrow> nat" where
  "digits_value base chars = foldl (\<lambda>v c. v * base + the (to_digit c)) 0 chars"

definition from_str_radix :: "nat \<Rightarrow> u8 list \<Rightarrow> u32 \<Rightarrow> nat option" where
  "from_str_radix largest chars base = (let v = digits_value (unat base) chars in if v \<le> largest then Some v else None)"

record num_scan =
  whitespace_len :: u32
  num_len :: u32
  num_sign :: "u8 option"
  prefix_length :: u32
  num_chars :: "u8 list"
  num_base :: u32

text \<open>The steps of the closure in \<open>str_to_int_inner_generic\<close>: \<open>Inl\<close> is an early return with what was scanned so far.\<close>

definition scan_sign :: "(u32 \<Rightarrow> u8 option) \<Rightarrow> u32 \<Rightarrow> u32 \<Rightarrow> num_scan \<Rightarrow> num_scan + num_scan" where
  "scan_sign getc offset max_length st =
     (case getc (offset + whitespace_len st + num_len st) of
        None \<Rightarrow> Inl st
      | Some maybe_sign \<Rightarrow>
          if maybe_sign = 43 \<or> maybe_sign = 45 then
            let st = st\<lparr>num_sign := Some maybe_sign, prefix_length := prefix_length st + 1, num_len := num_len st + 1\<rparr> in
            (if num_len st = max_length then Inl st else Inr st)
          else Inr st)"

definition scan_base :: "(u32 \<Rightarrow> u8 option) \<Rightarrow> u32 \<Rightarrow> num_scan \<Rightarrow> num_scan + num_scan" where
  "scan_base getc offset st =
     (if num_base st = 0 then
        (case getc (offset + whitespace_len st + num_len st) of
           None \<Rightarrow> Inl st
         | Some cur \<Rightarrow>
             if cur = 48 then
               (case getc (offset + whitespace_len st + num_len st + 1) of
                  None \<Rightarrow> Inl st
                | Some nxt \<Rightarrow> Inr (st\<lparr>num_base := (if nxt = 120 \<or> nxt = 88 then 16 else 8)\<rparr>))
             else Inr (st\<lparr>num_base := 10\<rparr>))
      else Inr st)"

definition scan_prefix :: "(u32 \<Rightarrow> u8 option) \<Rightarrow> u32 \<Rightarrow> u32 \<Rightarrow> num_scan \<Rightarrow> num_scan + num_scan" where
  "scan_prefix getc offset max_length st =
     (if num_base st = 8 \<or> num_base st = 16 then
        (case getc (offset + whitespace_len st + num_len st) of
           None \<Rightarrow> Inl st
         | Some cur \<Rightarrow>
             if cur = 48 then
               let st = st\<lparr>num_len := num_len st + 1\<rparr> in
               if num_len st = max_length then Inl st
               else let st = st\<lparr>prefix_length := prefix_length st + 1\<rparr> in
                 if num_base st = 16 then
                   (case getc (offset + whitespace_len st + num_len st) of
                      None \<Rightarrow> Inl st
                    | Some nxt \<Rightarrow>
                        if nxt = 120 \<or> nxt = 88 then
                          let st = st\<lparr>num_len := num_len st + 1\<rparr> in
                          if num_len st = max_length then Inl st
                          else Inr (st\<lparr>prefix_length := prefix_length st + 1\<rparr>)
                        else Inr st)
                 else Inr st
             else Inr st)
      else Inr st)"

partial_function (option) scan_digits :: "(u32 \<Rightarrow> u8 option) \<Rightarrow> u32 \<Rightarrow> u32 \<Rightarrow> num_scan \<Rightarrow> num_scan option" where
  "scan_digits getc offset max_length st =
     (case getc (offset + whitespace_len st + num_len st) of
        None \<Rightarrow> Some st
      | Some cur \<Rightarrow> do {
          digit \<leftarrow> is_digit (num_base st) cur;
          if digit then
            let st = st\<lparr>num_chars := num_chars st @ [cur], num_len := num_len st + 1\<rparr> in
            if num_len st = max_length then Some st else scan_digits getc offset max_length st
          else do {
            expect (of_nat (length (num_chars st)) = num_len st - prefix_length st);
            Some st
          }
        })"

definition scan_number :: "(u32 \<Rightarrow> u8 option) \<Rightarrow> u32 \<Rightarrow> u32 \<Rightarrow> u32 \<Rightarrow> num_scan option" where
  "scan_number getc offset base max_length = do {
     ws \<leftarrow> count_whitespace getc offset offset;
     let st = \<lparr>whitespace_len = (case ws of Inl n \<Rightarrow> n | Inr n \<Rightarrow> n), num_len = 0, num_sign = None, prefix_length = 0,
               num_chars = [], num_base = base\<rparr>;
     case ws of
       Inl _ \<Rightarrow> Some st
     | Inr _ \<Rightarrow>
         (case scan_sign getc offset max_length st of
            Inl st \<Rightarrow> Some st
          | Inr st \<Rightarrow>
              (case scan_base getc offset st of
                 Inl st \<Rightarrow> Some st
               | Inr st \<Rightarrow>
                   (case scan_prefix getc offset max_length st of
                      Inl st \<Rightarrow> Some st
                    | Inr st \<Rightarrow> scan_digits getc offset max_length st)))
   }"

text \<open>An inner \<open>None\<close> is \<open>Err(())\<close>: no number.\<close>

definition str_to_int_inner_generic ::
    "(u32 \<Rightarrow> u8 option) \<Rightarrow> u32 \<Rightarrow> u32 \<Rightarrow> u32 \<Rightarrow> (u8 list \<Rightarrow> u32 \<Rightarrow> 'q) \<Rightarrow> ('q \<Rightarrow> 'q) \<Rightarrow> ('q :: zero \<times> u32) option option" where
  "str_to_int_inner_generic getc offset base max_length from_radix negation = do {
     st \<leftarrow> scan_number getc offset base max_length;
     expect (2 \<le> num_base st \<and> num_base st \<le> 36);
     Some (if 0 < num_len st - prefix_length st then
             let res = from_radix (num_chars st) (num_base st);
                 res = (if num_sign st = Some 45 then negation res else res) in
             Some (res, whitespace_len st + num_len st)
           else if num_base st = 8 \<and> 0 < prefix_length st then Some (0, whitespace_len st + prefix_length st)
           else None)
   }"

section \<open>The functions of the C library\<close>

definition mem_getc :: "mem \<Rightarrow> vaddr \<Rightarrow> u32 \<Rightarrow> u8 option" where
  "mem_getc m s i = read_u8 m (s + i)"

definition I32_MAX :: nat where "I32_MAX = 2 ^ 31 - 1"
definition U32_MAX :: nat where "U32_MAX = 2 ^ 32 - 1"
definition I64_MAX :: nat where "I64_MAX = 2 ^ 63 - 1"
definition U64_MAX :: nat where "U64_MAX = 2 ^ 64 - 1"

text \<open>\<open>from_str_radix(..).unwrap_or(MAX)\<close>.\<close>

definition radix_or_max :: "nat \<Rightarrow> u8 list \<Rightarrow> u32 \<Rightarrow> 'a::len word" where
  "radix_or_max largest chars base = of_nat (case from_str_radix largest chars base of Some v \<Rightarrow> v | None \<Rightarrow> largest)"

text \<open>\<open>checked_mul(-1).unwrap_or(MIN)\<close>: only the smallest number has no negation, and it is its own.\<close>

definition negate_or_min :: "'a::len word \<Rightarrow> 'a word" where
  "negate_or_min v = - v"

definition strtol_inner :: "mem \<Rightarrow> vaddr \<Rightarrow> u32 \<Rightarrow> (i32 \<times> u32) option option" where
  "strtol_inner m s base = str_to_int_inner_generic (mem_getc m s) 0 base (- 1) (radix_or_max I32_MAX) negate_or_min"

definition write_endptr :: "vaddr \<Rightarrow> vaddr \<Rightarrow> env \<Rightarrow> env option" where
  "write_endptr endptr v e =
     (if endptr \<noteq> 0 then map_option (\<lambda>m. e\<lparr>env_mem := m\<rparr>) (write_u32 endptr v (env_mem e)) else Some e)"

definition finish_parse :: "vaddr \<Rightarrow> vaddr \<Rightarrow> ('q::zero \<times> u32) option \<Rightarrow> env \<Rightarrow> ('q \<times> env) option" where
  "finish_parse s endptr parse_res e =
     (case parse_res of
        Some (res, len) \<Rightarrow> map_option (Pair res) (write_endptr endptr (s + len) e)
      | None \<Rightarrow> map_option (Pair 0) (write_endptr endptr s e))"

definition strtol :: "vaddr \<Rightarrow> vaddr \<Rightarrow> i32 \<Rightarrow> env \<Rightarrow> (i32 \<times> env) option" where
  "strtol s endptr base e = do {
     e \<leftarrow> set_errno 0 e;
     parse_res \<leftarrow> strtol_inner (env_mem e) s base;
     finish_parse s endptr parse_res e
   }"

definition atoi :: "vaddr \<Rightarrow> env \<Rightarrow> (i32 \<times> env) option" where
  "atoi s e = do {
     e \<leftarrow> set_errno 0 e;
     parse_res \<leftarrow> strtol_inner (env_mem e) s 10;
     Some (case parse_res of Some (res, _) \<Rightarrow> res | None \<Rightarrow> 0, e)
   }"

definition atol :: "vaddr \<Rightarrow> env \<Rightarrow> (i32 \<times> env) option" where
  "atol s e = atoi s e"

text \<open>The other three check the base first.\<close>

definition checked_parse ::
    "(u8 list \<Rightarrow> u32 \<Rightarrow> 'q) \<Rightarrow> ('q \<Rightarrow> 'q) \<Rightarrow> vaddr \<Rightarrow> vaddr \<Rightarrow> u32 \<Rightarrow> env \<Rightarrow> ('q :: zero \<times> env) option" where
  "checked_parse from_radix negation s endptr base e = do {
     e \<leftarrow> set_errno 0 e;
     (if base \<noteq> 0 \<and> \<not> (2 \<le> base \<and> base \<le> 36) then do {
        e \<leftarrow> write_endptr endptr s e;
        e \<leftarrow> set_errno EINVAL e;
        Some (0, e)
      } else do {
        parse_res \<leftarrow> str_to_int_inner_generic (mem_getc (env_mem e) s) 0 base (- 1) from_radix negation;
        finish_parse s endptr parse_res e
      })
   }"

definition strtoul :: "vaddr \<Rightarrow> vaddr \<Rightarrow> i32 \<Rightarrow> env \<Rightarrow> (u32 \<times> env) option" where
  "strtoul s endptr base e = checked_parse (radix_or_max U32_MAX) uminus s endptr base e"

definition strtoull :: "vaddr \<Rightarrow> vaddr \<Rightarrow> i32 \<Rightarrow> env \<Rightarrow> (u64 \<times> env) option" where
  "strtoull s endptr base e = checked_parse (radix_or_max U64_MAX) uminus s endptr base e"

definition strtoull_l :: "vaddr \<Rightarrow> vaddr \<Rightarrow> i32 \<Rightarrow> vaddr \<Rightarrow> env \<Rightarrow> (u64 \<times> env) option" where
  "strtoull_l s endptr base locale_ptr e = strtoull s endptr base e"

definition strtoll :: "vaddr \<Rightarrow> vaddr \<Rightarrow> i32 \<Rightarrow> env \<Rightarrow> (i64 \<times> env) option" where
  "strtoll s endptr base e = checked_parse (radix_or_max I64_MAX) negate_or_min s endptr base e"


section \<open>Scanning a number\<close>

definition holds :: "(u32 \<Rightarrow> u8 option) \<Rightarrow> u32 \<Rightarrow> u8 list \<Rightarrow> bool" where
  "holds getc p xs \<longleftrightarrow> (\<forall>i < length xs. getc (p + of_nat i) = Some (xs ! i))"

lemma holds_Cons: "holds getc p (x # xs) \<longleftrightarrow> getc p = Some x \<and> holds getc (p + 1) xs"
proof
  assume h: "holds getc p (x # xs)"
  have "getc (p + 1 + of_nat i) = Some (xs ! i)" if "i < length xs" for i
    using h [unfolded holds_def, rule_format, of "Suc i"] that by (simp add: add.assoc)
  moreover have "getc p = Some x" using h [unfolded holds_def, rule_format, of 0] by simp
  ultimately show "getc p = Some x \<and> holds getc (p + 1) xs" by (simp add: holds_def)
next
  assume a: "getc p = Some x \<and> holds getc (p + 1) xs"
  show "holds getc p (x # xs)"
    unfolding holds_def
  proof (intro allI impI)
    fix i assume "i < length (x # xs)"
    with a show "getc (p + of_nat i) = Some ((x # xs) ! i)"
      by (cases i) (auto simp: holds_def add.assoc)
  qed
qed

lemma holds_Nil [simp]: "holds getc p []" by (simp add: holds_def)

lemma holds_append: "holds getc p (xs @ ys) \<longleftrightarrow> holds getc p xs \<and> holds getc (p + of_nat (length xs)) ys"
  by (induction xs arbitrary: p) (simp_all add: holds_Cons add.assoc)

lemma whitespace_counted:
  assumes "holds getc p (ws @ [c])" "\<forall>w \<in> set ws. is_space w" "\<not> is_space c"
  shows "count_whitespace getc 0 p = Some (Inr (p + of_nat (length ws)))"
  using assms
proof (induction ws arbitrary: p)
  case Nil
  then show ?case by (subst count_whitespace.simps) (simp add: holds_Cons)
next
  case (Cons w ws)
  then have "count_whitespace getc 0 (p + 1) = Some (Inr (p + 1 + of_nat (length ws)))" by (simp add: holds_Cons)
  with Cons.prems show ?case by (subst count_whitespace.simps) (simp add: holds_Cons add.assoc)
qed

definition digit_of :: "u32 \<Rightarrow> u8 \<Rightarrow> bool" where
  "digit_of base c \<longleftrightarrow> (case to_digit c of Some d \<Rightarrow> d < unat base | None \<Rightarrow> False)"

lemma is_digit_eq: "base \<le> 36 \<Longrightarrow> is_digit base c = Some (digit_of base c)"
  by (simp add: is_digit_def digit_of_def)

lemma digits_scanned:
  assumes "holds getc (offset + whitespace_len st + num_len st) (ds @ [c])" "\<forall>d \<in> set ds. digit_of (num_base st) d"
    "\<not> digit_of (num_base st) c" "num_base st \<le> 36" "unat (num_len st) + length ds < 2 ^ 32 - 1"
    "of_nat (length (num_chars st)) = num_len st - prefix_length st"
  shows "scan_digits getc offset (- 1) st =
    Some (st\<lparr>num_chars := num_chars st @ ds, num_len := num_len st + of_nat (length ds)\<rparr>)"
  using assms
proof (induction ds arbitrary: st)
  case Nil
  then show ?case by (subst scan_digits.simps) (simp add: holds_Cons is_digit_eq)
next
  case (Cons d ds)
  let ?st = "st\<lparr>num_chars := num_chars st @ [d], num_len := num_len st + 1\<rparr>"
  have u: "unat (num_len st + 1) = unat (num_len st) + 1" using Cons.prems(5) by (subst unat_plus_u32) auto
  have "unat (num_len st + 1) < 2 ^ 32 - 1" using u Cons.prems(5) by simp
  moreover have "unat (- 1 :: u32) = 2 ^ 32 - 1" by (simp add: unsigned_minus_1_eq_mask mask_eq_exp_minus_1)
  ultimately have ne: "num_len st + 1 \<noteq> - 1" by (metis less_irrefl)
  have "scan_digits getc offset (- 1) ?st = Some (?st\<lparr>num_chars := num_chars ?st @ ds, num_len := num_len ?st + of_nat (length ds)\<rparr>)"
  proof (rule Cons.IH)
    show "holds getc (offset + whitespace_len ?st + num_len ?st) (ds @ [c])"
      using Cons.prems(1) by (simp add: holds_Cons add.assoc)
    show "unat (num_len ?st) + length ds < 2 ^ 32 - 1" using Cons.prems(5) u by simp
    show "of_nat (length (num_chars ?st)) = num_len ?st - prefix_length ?st" using Cons.prems(6) by (simp add: algebra_simps)
  qed (use Cons.prems in auto)
  with Cons.prems ne show ?case
    by (subst scan_digits.simps) (simp add: holds_Cons is_digit_eq Let_def add.assoc)
qed

text \<open>A sign, if there is one.\<close>

definition sign_text :: "u8 list \<Rightarrow> bool" where
  "sign_text sg \<longleftrightarrow> sg = [] \<or> sg = [43] \<or> sg = [45]"

lemma digit_facts:
  assumes "digit_of base d"
  shows "d \<noteq> 43" "d \<noteq> 45" "\<not> is_space d"
  using assms by (auto simp: digit_of_def to_digit_def is_space_def)

lemma number_scanned:
  assumes str: "holds getc 0 (ws @ sg @ ds @ [c])" and ws: "\<forall>w \<in> set ws. is_space w" and sg: "sign_text sg"
    and ds: "ds \<noteq> []" "\<forall>d \<in> set ds. digit_of base d" and c: "\<not> digit_of base c" and base: "2 \<le> base" "base \<le> 36"
    and plain: "base \<noteq> 8 \<and> base \<noteq> 16 \<or> hd ds \<noteq> 48" and short: "length (ws @ sg @ ds) < 2 ^ 32 - 1"
  shows "scan_number getc 0 base (- 1) = Some \<lparr>whitespace_len = of_nat (length ws), num_len = of_nat (length sg + length ds),
    num_sign = (if sg = [] then None else Some (hd sg)), prefix_length = of_nat (length sg), num_chars = ds, num_base = base\<rparr>"
proof -
  obtain d ds' where d: "ds = d # ds'" "digit_of base d" using ds by (cases ds) auto
  have h: "holds getc 0 (ws @ [hd (sg @ ds)])" "\<not> is_space (hd (sg @ ds))"
    using str sg digit_facts [OF d(2)] d(1) by (auto simp: sign_text_def holds_append holds_Cons is_space_def)
  note W = whitespace_counted [OF h(1) ws h(2), simplified]
  let ?init = "\<lparr>whitespace_len = of_nat (length ws), num_len = 0, num_sign = None, prefix_length = 0, num_chars = [], num_base = base\<rparr>"
  let ?st = "\<lparr>whitespace_len = of_nat (length ws), num_len = of_nat (length sg), num_sign = (if sg = [] then None else Some (hd sg)),
    prefix_length = of_nat (length sg), num_chars = [], num_base = base\<rparr>"
  have pos: "getc (of_nat (length ws)) = Some (hd (sg @ ds))" "holds getc (of_nat (length ws) + of_nat (length sg)) (ds @ [c])"
    using str d(1) sg by (auto simp: holds_append holds_Cons sign_text_def)
  have S: "scan_sign getc 0 (- 1) ?init = Inr ?st"
    using pos(1) sg digit_facts [OF d(2)] d(1) by (auto simp: scan_sign_def sign_text_def Let_def)
  have b0: "base \<noteq> 0" using base(1) by auto
  have B: "scan_base getc 0 ?st = Inr ?st" using b0 by (simp add: scan_base_def)
  have P: "scan_prefix getc 0 (- 1) ?st = Inr ?st"
    using plain pos(2) d(1) by (auto simp: scan_prefix_def holds_Cons)
  have D: "scan_digits getc 0 (- 1) ?st = Some (?st\<lparr>num_chars := num_chars ?st @ ds, num_len := num_len ?st + of_nat (length ds)\<rparr>)"
  proof (rule digits_scanned)
    have "unat (of_nat (length sg) :: u32) = length sg" using sg by (auto simp: sign_text_def)
    with short show "unat (num_len ?st) + length ds < 2 ^ 32 - 1" by simp
  qed (use pos(2) ds c base in auto)
  show ?thesis unfolding scan_number_def W using S B P D by simp
qed

lemma holds_mem: "holds (mem_getc m s) 0 xs \<longleftrightarrow> (\<forall>i < length xs. byte_at m (s + of_nat i) = xs ! i)"
  by (simp add: holds_def mem_getc_def read_u8_Some)

text \<open>What the string of a number stands for, up to the largest value of the type.\<close>

lemma str_to_int_scanned:
  assumes "holds getc 0 (ws @ sg @ ds @ [c])" "\<forall>w \<in> set ws. is_space w" "sign_text sg"
    "ds \<noteq> []" "\<forall>d \<in> set ds. digit_of base d" "\<not> digit_of base c" "2 \<le> base" "base \<le> 36"
    "base \<noteq> 8 \<and> base \<noteq> 16 \<or> hd ds \<noteq> 48" "length (ws @ sg @ ds) < 2 ^ 32 - 1"
  shows "str_to_int_inner_generic getc 0 base (- 1) from_radix neg =
    Some (Some (if sg = [45] then neg (from_radix ds base) else from_radix ds base, of_nat (length (ws @ sg @ ds))))"
proof -
  have "unat (of_nat (length ds) :: u32) = length ds" using assms(10) by (simp add: unat_of_nat)
  then have "(of_nat (length ds) :: u32) \<noteq> 0" using assms(4) by (metis length_0_conv unat_0)
  then have pos: "0 < (of_nat (length ds) :: u32)" by (simp add: word_neq_0_conv)
  have "(if sg = [] then None else Some (hd sg)) = Some 45 \<longleftrightarrow> sg = [45]" using assms(3) by (auto simp: sign_text_def)
  with number_scanned [OF assms] assms(7,8) pos show ?thesis
    by (simp add: str_to_int_inner_generic_def add.assoc)
qed


section \<open>Properties\<close>

definition decimal_text :: "u32 \<Rightarrow> u8 list \<Rightarrow> u8 list \<Rightarrow> u8 list \<Rightarrow> u8 \<Rightarrow> bool" where
  "decimal_text base ws sg ds c \<longleftrightarrow>
     (\<forall>w \<in> set ws. is_space w) \<and> sign_text sg \<and> ds \<noteq> [] \<and> (\<forall>d \<in> set ds. digit_of base d) \<and> \<not> digit_of base c \<and>
     2 \<le> base \<and> base \<le> 36 \<and> (base \<noteq> 8 \<and> base \<noteq> 16 \<or> hd ds \<noteq> 48) \<and> length (ws @ sg @ ds) < 2 ^ 32 - 1"

lemma radix_or_max_eq: "radix_or_max largest ds base = of_nat (min (digits_value (unat base) ds) largest)"
  by (simp add: radix_or_max_def from_str_radix_def Let_def min_def)

lemma parsed:
  assumes "decimal_text base ws sg ds c" "\<forall>i < length (ws @ sg @ ds @ [c]). byte_at m (s + of_nat i) = (ws @ sg @ ds @ [c]) ! i"
  shows "str_to_int_inner_generic (mem_getc m s) 0 base (- 1) (radix_or_max largest) neg =
    Some (Some (if sg = [45] then neg (of_nat (min (digits_value (unat base) ds) largest))
                else of_nat (min (digits_value (unat base) ds) largest), of_nat (length (ws @ sg @ ds))))"
proof -
  have "holds (mem_getc m s) 0 (ws @ sg @ ds @ [c])" using assms(2) unfolding holds_mem .
  from str_to_int_scanned [OF this, of base "radix_or_max largest" neg] assms(1) show ?thesis
    unfolding decimal_text_def radix_or_max_eq by blast
qed

text \<open>
  C30: \<open>strtol\<close> and its relatives read a number.  The text is white space, an optional sign and a non-empty run of digits of
  a given base from 2 to 36, ended by any other byte; in bases 8 and 16 the digits do not begin with a zero, and the
  base 0, which lets the text choose, is left out.  On such input \<open>strtol\<close>, \<open>strtoul\<close>, \<open>strtoll\<close> and \<open>strtoull\<close>
  return the value of the digits with its sign, cut off at the largest value of the type, and store
  the position after the last digit; the unsigned functions negate by wrapping.  \<open>atoi\<close> and \<open>atol\<close> return
  what \<open>strtol\<close> does in base 10.
\<close>

theorem strtol_reads_number:
  assumes "decimal_text base ws sg ds c" and "set_errno 0 e = Some e1"
    and "\<forall>i < length (ws @ sg @ ds @ [c]). byte_at (env_mem e1) (s + of_nat i) = (ws @ sg @ ds @ [c]) ! i"
  shows "strtol s endptr base e = map_option (Pair
      (let v = of_nat (min (digits_value (unat base) ds) (2 ^ 31 - 1)) in if sg = [45] then - v else v))
      (write_endptr endptr (s + of_nat (length (ws @ sg @ ds))) e1) \<and>
    strtoul s endptr base e = map_option (Pair
      (let v = of_nat (min (digits_value (unat base) ds) (2 ^ 32 - 1)) in if sg = [45] then - v else v))
      (write_endptr endptr (s + of_nat (length (ws @ sg @ ds))) e1) \<and>
    strtoll s endptr base e = map_option (Pair
      (let v = of_nat (min (digits_value (unat base) ds) (2 ^ 63 - 1)) in if sg = [45] then - v else v))
      (write_endptr endptr (s + of_nat (length (ws @ sg @ ds))) e1) \<and>
    strtoull s endptr base e = map_option (Pair
      (let v = of_nat (min (digits_value (unat base) ds) (2 ^ 64 - 1)) in if sg = [45] then - v else v))
      (write_endptr endptr (s + of_nat (length (ws @ sg @ ds))) e1) \<and>
    (base = 10 \<longrightarrow>
      atoi s e = Some (let v = of_nat (min (digits_value 10 ds) (2 ^ 31 - 1)) in if sg = [45] then - v else v, e1) \<and>
      atol s e = Some (let v = of_nat (min (digits_value 10 ds) (2 ^ 31 - 1)) in if sg = [45] then - v else v, e1))"
proof -
  note P = parsed [OF assms(1,3)]
  have b: "2 \<le> base" "base \<le> 36" using assms(1) by (simp_all add: decimal_text_def)
  note defs = finish_parse_def Let_def assms(2) I32_MAX_def U32_MAX_def I64_MAX_def U64_MAX_def
  have "strtol s endptr base e = map_option (Pair
      (let v = of_nat (min (digits_value (unat base) ds) (2 ^ 31 - 1)) in if sg = [45] then - v else v))
      (write_endptr endptr (s + of_nat (length (ws @ sg @ ds))) e1)"
    unfolding strtol_def strtol_inner_def assms(2) by (simp add: P defs negate_or_min_def del: of_nat_add length_append)
  moreover have "strtoul s endptr base e = map_option (Pair
      (let v = of_nat (min (digits_value (unat base) ds) (2 ^ 32 - 1)) in if sg = [45] then - v else v))
      (write_endptr endptr (s + of_nat (length (ws @ sg @ ds))) e1)"
    unfolding strtoul_def checked_parse_def assms(2) using b by (simp add: P defs del: of_nat_add length_append)
  moreover have "strtoll s endptr base e = map_option (Pair
      (let v = of_nat (min (digits_value (unat base) ds) (2 ^ 63 - 1)) in if sg = [45] then - v else v))
      (write_endptr endptr (s + of_nat (length (ws @ sg @ ds))) e1)"
    unfolding strtoll_def checked_parse_def assms(2) using b by (simp add: P defs negate_or_min_def del: of_nat_add length_append)
  moreover have "strtoull s endptr base e = map_option (Pair
      (let v = of_nat (min (digits_value (unat base) ds) (2 ^ 64 - 1)) in if sg = [45] then - v else v))
      (write_endptr endptr (s + of_nat (length (ws @ sg @ ds))) e1)"
    unfolding strtoull_def checked_parse_def assms(2) using b by (simp add: P defs del: of_nat_add length_append)
  moreover have "atoi s e = Some (let v = of_nat (min (digits_value 10 ds) (2 ^ 31 - 1)) in if sg = [45] then - v else v, e1)"
    if "base = 10"
    unfolding atoi_def strtol_inner_def assms(2)
    using that by (simp add: P [unfolded that] defs negate_or_min_def del: of_nat_add length_append)
  ultimately show ?thesis by (simp add: atol_def)
qed


text \<open>The environment of the witnesses: one thread, and a string in an otherwise empty memory.\<close>

definition text_env :: "u8 list \<Rightarrow> env" where
  "text_env xs = \<lparr>env_mem = (the (load_mem 4096))\<lparr>mem_bytes := poke 0x9000 xs (mem_bytes (the (load_mem 4096)))\<rparr>,
     mutex_st = \<lparr>mutexes = (\<lambda>_. None), mutex_count = 0\<rparr>, semaphores = (\<lambda>_. None), semaphore_next = 0,
     named_semaphores = (\<lambda>_. None), open_semaphores = (\<lambda>_. None), condition_variables = (\<lambda>_. None), threads = [],
     current_thread = 0, errnos = (\<lambda>_. Some 0x8000)\<rparr>"


lemma text_env_ok:
  assumes "length xs \<le> 4096"
  obtains e1 where "set_errno 0 (text_env xs) = Some e1" "\<forall>i < length xs. byte_at (env_mem e1) (0x9000 + of_nat i) = xs ! i"
proof -
  let ?m = "env_mem (text_env xs)"
  let ?m1 = "?m\<lparr>mem_bytes := poke 0x8000 (le_bytes 4 (0 :: i32)) (mem_bytes ?m)\<rparr>"
  have n: "null_segment_size ?m = 4096" by (simp add: text_env_def loaded(4))
  have b: "unat (0x8000 :: u32) + 4 \<le> BYTES_LEN" by (rule BYTES_LEN_ge) simp
  have "le_bytes 4 (0 :: i32) \<noteq> []" using length_le_bytes [of 4 "0 :: i32"] by fastforce
  then have "write_u32 0x8000 0 ?m = Some ?m1"
    unfolding write_u32_def using n b by (subst write_raw_array) auto
  then have "set_errno 0 (text_env xs) = Some ((text_env xs)\<lparr>env_mem := ?m1\<rparr>)"
    by (simp add: set_errno_def errno_ptr_for_thread_def text_env_def)
  moreover have "byte_at ?m1 (0x9000 + of_nat i) = xs ! i" if i: "i < length xs" for i
  proof -
    have u: "unat (0x9000 + of_nat i :: u32) = 0x9000 + i" using i assms by (subst unat_plus_u32) (simp_all add: unat_of_nat)
    then have "\<not> 0x9000 + of_nat i < null_segment_size ?m1" using n by (simp add: word_less_nat_alt)
    then have "byte_at ?m1 (0x9000 + of_nat i) = mem_bytes ?m1 (0x9000 + i)" by (simp add: byte_at_eq u)
    also have "\<dots> = mem_bytes ?m (0x9000 + i)" by (simp add: poke_out)
    also have "\<dots> = xs ! i" using i by (simp add: text_env_def)
    finally show ?thesis .
  qed
  ultimately show thesis using that [of "(text_env xs)\<lparr>env_mem := ?m1\<rparr>"] by simp
qed

theorem strtol_reads_number_witness:
  "\<exists>e1. strtol 0x9000 0 10 (text_env ([32] @ [45] @ [52, 50] @ [0])) = Some (- 42, e1) \<and>
     atoi 0x9000 (text_env ([32] @ [45] @ [52, 50] @ [0])) = Some (- 42, e1)"
proof -
  obtain e1 where e: "set_errno 0 (text_env ([32] @ [45] @ [52, 50] @ [0])) = Some e1"
    "\<forall>i < length ([32] @ [45] @ [52, 50] @ [0 :: u8]). byte_at (env_mem e1) (0x9000 + of_nat i) = ([32] @ [45] @ [52, 50] @ [0]) ! i"
    by (rule text_env_ok [of "[32] @ [45] @ [52, 50] @ [0]"]) simp_all
  have "decimal_text 10 [32] [45] [52, 50] 0"
    by (simp add: decimal_text_def is_space_def sign_text_def digit_of_def to_digit_def)
  from strtol_reads_number [OF this e, of 0] show ?thesis
    by (simp add: write_endptr_def digits_value_def to_digit_def Let_def)
qed

text \<open>
  C27: Where \<open>strtol\<close> errs.  The smallest number is read as its neighbour, because the digits are cut off at the largest
  number before they are negated; a zero is no number in base sixteen, and the position stays at the
  start; and a base above thirty-six, which the other functions refuse, panics.
\<close>

theorem strtol_errs:
  assumes "set_errno 0 e = Some e1"
  shows "(\<forall>ws ds c. decimal_text base ws [45] ds c \<and> digits_value (unat base) ds = 2 ^ 31 \<and>
      (\<forall>i < length (ws @ [45] @ ds @ [c]). byte_at (env_mem e1) (s + of_nat i) = (ws @ [45] @ ds @ [c]) ! i) \<longrightarrow>
      strtol s 0 base e = Some (- (2 ^ 31) + 1, e1)) \<and>
    (byte_at (env_mem e1) s = 48 \<and> byte_at (env_mem e1) (s + 1) \<notin> {120, 88} \<and> \<not> digit_of 16 (byte_at (env_mem e1) (s + 1)) \<longrightarrow>
      strtol s endptr 16 e = map_option (Pair 0) (write_endptr endptr s e1)) \<and>
    (36 < base \<and> \<not> is_space (byte_at (env_mem e1) s) \<longrightarrow> strtol s endptr base e = None)"
proof (intro conjI impI allI, goal_cases)
  case (1 ws ds c)
  have "min (digits_value (unat base) ds) I32_MAX = 2 ^ 31 - 1" using 1 by (simp add: I32_MAX_def)
  moreover have "str_to_int_inner_generic (mem_getc (env_mem e1) s) 0 base (- 1) (radix_or_max I32_MAX) negate_or_min =
    Some (Some (if [45 :: u8] = [45] then negate_or_min (of_nat (min (digits_value (unat base) ds) I32_MAX))
                else of_nat (min (digits_value (unat base) ds) I32_MAX) :: i32, of_nat (length (ws @ [45] @ ds))))"
    by (rule parsed) (use 1 in auto)
  ultimately have "str_to_int_inner_generic (mem_getc (env_mem e1) s) 0 base (- 1) (radix_or_max I32_MAX) negate_or_min =
    Some (Some (- (2 ^ 31) + 1 :: i32, of_nat (length (ws @ [45] @ ds))))"
    by (simp add: negate_or_min_def del: of_nat_add length_append)
  then show ?case by (simp add: strtol_def strtol_inner_def assms finish_parse_def write_endptr_def)
next
  case 2
  let ?g = "mem_getc (env_mem e1) s"
  have g: "?g 0 = Some 48" "?g 1 = Some (byte_at (env_mem e1) (s + 1))" using 2 by (simp_all add: mem_getc_def read_u8_Some)
  have W: "count_whitespace ?g 0 0 = Some (Inr 0)" using g by (subst count_whitespace.simps) (simp add: is_space_def)
  let ?st = "\<lparr>whitespace_len = 0, num_len = 1, num_sign = None, prefix_length = 1, num_chars = [], num_base = 16\<rparr>"
  have "scan_digits ?g 0 (- 1) ?st = Some (?st\<lparr>num_chars := num_chars ?st @ [], num_len := num_len ?st + of_nat (length ([] :: u8 list))\<rparr>)"
    by (rule digits_scanned [where c = "byte_at (env_mem e1) (s + 1)"]) (use g 2 in \<open>auto simp: holds_def\<close>)
  then have "scan_number ?g 0 16 (- 1) = Some ?st"
    using g 2 W by (simp add: scan_number_def scan_sign_def scan_base_def scan_prefix_def Let_def)
  then have "strtol_inner (env_mem e1) s 16 = Some None" by (simp add: strtol_inner_def str_to_int_inner_generic_def)
  then show ?case by (simp add: strtol_def assms finish_parse_def)
next
  case 3
  let ?g = "mem_getc (env_mem e1) s"
  have W: "count_whitespace ?g 0 0 = Some (Inr 0)"
    using 3 by (subst count_whitespace.simps) (simp add: mem_getc_def read_u8_Some)
  have b: "base \<noteq> 0" "base \<noteq> 8" "base \<noteq> 16" "\<not> base \<le> 36" using 3 by auto
  have d: "scan_digits ?g 0 (- 1) st = None" if "num_base st = base" for st
    using that b by (subst scan_digits.simps) (simp add: mem_getc_def read_u8_Some is_digit_def)
  have "scan_number ?g 0 base (- 1) = None"
    using b d W by (auto simp: scan_number_def scan_sign_def scan_base_def scan_prefix_def Let_def mem_getc_def read_u8_Some)
  then show ?case by (simp add: strtol_def strtol_inner_def str_to_int_inner_generic_def assms)
qed

theorem strtol_errs_witness: "strtol 0x9000 0 37 (text_env [48, 0]) = None"
proof -
  obtain e1 where e: "set_errno 0 (text_env [48, 0]) = Some e1"
    "\<forall>i < length [48, 0 :: u8]. byte_at (env_mem e1) (0x9000 + of_nat i) = [48, 0] ! i"
    by (rule text_env_ok [of "[48, 0]"]) simp_all
  then have "byte_at (env_mem e1) 0x9000 = 48" by force
  with strtol_errs [OF e(1), of 37 "0x9000" 0] show ?thesis by (simp add: is_space_def)
qed

end
