(* ===== verification/Calendar.thy ===== *)
theory Calendar
  imports GuestMem
begin

text \<open>
  Calendar time (\<open>src/libc/time.rs\<close>): conversion between seconds since 1970 and dates, in both directions, and the functions
  \<open>gmtime\<close> and \<open>localtime\<close> over them.  Numbers are integers: within the range of \<open>time_t\<close> nothing overflows,
  and the casts that can cut a number are written out.  The tables that the source fills in loops at compile
  time are lists.
\<close>

section \<open>Tables\<close>

definition is_leap_year :: "int \<Rightarrow> bool" where
  "is_leap_year year \<longleftrightarrow> year mod 4 = 0 \<and> (year mod 100 \<noteq> 0 \<or> year mod 400 = 0)"

definition days_in_year :: "int \<Rightarrow> int" where
  "days_in_year year = (if is_leap_year year then 366 else 365)"

text \<open>The loop of \<open>calc_year_to_day\<close>: the day after \<open>n\<close> years of a cycle.\<close>

fun year_start :: "nat \<Rightarrow> int" where
  "year_start 0 = 0"
| "year_start (Suc n) = year_start n + days_in_year (int n)"

definition CYCLE_YEARS :: int where "CYCLE_YEARS = 400"

definition YEAR_TO_DAY :: "int list" where "YEAR_TO_DAY = map year_start [0..<400]"

definition CYCLE_DAYS :: int where "CYCLE_DAYS = year_start 400"

definition DAYS_IN_MONTH :: "int list" where
  "DAYS_IN_MONTH = [31, 28, 31, 30, 31, 30, 31, 31, 30, 31, 30, 31]"

fun month_start :: "bool \<Rightarrow> nat \<Rightarrow> int" where
  "month_start leap_year 0 = 0"
| "month_start leap_year (Suc n) = month_start leap_year n + (DAYS_IN_MONTH ! n + (if leap_year \<and> n = 1 then 1 else 0))"

definition MONTH_TO_DAY :: "bool \<Rightarrow> int list" where
  "MONTH_TO_DAY leap_year = map (month_start leap_year) [0..<12]"

text \<open>\<open>partition_point\<close> on a list that the predicate splits.\<close>

definition partition_point :: "('a \<Rightarrow> bool) \<Rightarrow> 'a list \<Rightarrow> nat" where
  "partition_point p xs = length (takeWhile p xs)"

section \<open>Dates\<close>

record tm =
  tm_sec :: int
  tm_min :: int
  tm_hour :: int
  tm_mday :: int
  tm_mon :: int
  tm_year :: int
  tm_wday :: int
  tm_yday :: int
  tm_isdst :: int
  tm_gmtoff :: int
  tm_zone :: vaddr

definition tm_from :: "nat \<Rightarrow> nat \<Rightarrow> nat \<Rightarrow> nat \<Rightarrow> nat \<Rightarrow> nat \<Rightarrow> tm" where
  "tm_from year month day hour minute second =
     \<lparr>tm_sec = int (min second 60), tm_min = int (min minute 59), tm_hour = int (min hour 23),
      tm_mday = int (max 1 (min day 31)), tm_mon = int (max 1 (min month 12)) - 1, tm_year = int (max year 1970) - 1900,
      tm_wday = 0, tm_yday = 0, tm_isdst = 0, tm_gmtoff = 0, tm_zone = 0\<rparr>"

definition timestamp_to_calendar_date :: "int \<Rightarrow> tm option" where
  "timestamp_to_calendar_date timestamp = do {
     let days_since_unix_epoch = timestamp div 86400;
     let second_in_day = timestamp mod 86400;
     let days_since_y2k = days_since_unix_epoch - 10957;
     let cycles_since_y2k = days_since_y2k div CYCLE_DAYS;
     let day_in_cycle = days_since_y2k mod CYCLE_DAYS;
     let year_in_cycle = partition_point (\<lambda>day. day \<le> day_in_cycle) YEAR_TO_DAY - 1;
     let year = 2000 + cycles_since_y2k * CYCLE_YEARS + int year_in_cycle;
     let day_in_year = day_in_cycle - YEAR_TO_DAY ! year_in_cycle;
     let leap = is_leap_year (int year_in_cycle);
     expect (day_in_year < 365 + (if leap then 1 else 0));
     let month_to_day = MONTH_TO_DAY leap;
     let month_in_year = partition_point (\<lambda>day. day \<le> day_in_year) month_to_day - 1;
     let day_in_month = day_in_year - month_to_day ! month_in_year;
     expect (day_in_month < DAYS_IN_MONTH ! month_in_year + (if leap then 1 else 0));
     let day_of_the_week = (4 + days_since_unix_epoch) mod 7;
     Some \<lparr>tm_sec = second_in_day mod 60, tm_min = (second_in_day mod 3600) div 60, tm_hour = second_in_day div 3600,
           tm_mday = day_in_month + 1, tm_mon = int month_in_year, tm_year = year - 1900, tm_wday = day_of_the_week,
           tm_yday = day_in_year, tm_isdst = 0, tm_gmtoff = 0, tm_zone = 0\<rparr>
   }"

text \<open>\<open>as i32\<close> of a wider number.\<close>

definition as_i32 :: "int \<Rightarrow> int" where
  "as_i32 x = (x + 2 ^ 31) mod 2 ^ 32 - 2 ^ 31"

definition I32_MIN :: int where "I32_MIN = - (2 ^ 31)"

definition TIME_MAX :: int where "TIME_MAX = 2 ^ 31 - 1"

text \<open>\<open>for y in a..b\<close>, adding days.\<close>

definition sum_years :: "int \<Rightarrow> int \<Rightarrow> int" where
  "sum_years a b = (\<Sum>y \<leftarrow> [a..b - 1]. days_in_year y)"

definition calendar_date_to_timestamp :: "tm \<Rightarrow> int" where
  "calendar_date_to_timestamp tm =
     (let y = tm_year tm + 1900;
          m = tm_mon tm;
          y = y + m div 12;
          m = m mod 12;
          year = as_i32 y;
          month = nat m;
          seconds = sum_years 1970 year * 86400;
          days_in_months_cumul = MONTH_TO_DAY (is_leap_year year) ! month;
          seconds = seconds + days_in_months_cumul * 86400;
          seconds = seconds + (tm_mday tm - 1) * 86400;
          seconds = seconds + tm_hour tm * 3600;
          seconds = seconds + tm_min tm * 60;
          seconds = seconds + tm_sec tm;
          seconds = (if year < 1970 then seconds - sum_years year 1970 * 86400 else seconds) in
      if I32_MIN \<le> seconds \<and> seconds \<le> TIME_MAX then seconds
      else if 0 < seconds then TIME_MAX else I32_MIN)"

section \<open>The functions of the C library\<close>

definition i32_bytes :: "int \<Rightarrow> u8 list" where
  "i32_bytes v = le_bytes 4 (word_of_int v :: i32)"

definition tm_bytes :: "tm \<Rightarrow> u8 list" where
  "tm_bytes t = concat (map i32_bytes [tm_sec t, tm_min t, tm_hour t, tm_mday t, tm_mon t, tm_year t, tm_wday t, tm_yday t,
     tm_isdst t, tm_gmtoff t]) @ le_bytes 4 (tm_zone t)"

text \<open>What \<open>tzset\<close> found out about the time zone, and the shared buffer of \<open>gmtime\<close>.\<close>

record time_state =
  gmtime_tmp :: "vaddr option"
  timezone_offset_seconds :: int
  tzname_std_ptr :: "vaddr option"
  tzname_dst_ptr :: "vaddr option"

definition saturate_i32 :: "int \<Rightarrow> int" where
  "saturate_i32 v = max I32_MIN (min TIME_MAX v)"

definition gmtime_r :: "vaddr \<Rightarrow> vaddr \<Rightarrow> mem \<Rightarrow> (vaddr \<times> mem) option" where
  "gmtime_r timestamp res m = do {
     t \<leftarrow> read_u32 m timestamp;
     calendar_date \<leftarrow> timestamp_to_calendar_date (sint t);
     m \<leftarrow> write_raw res (tm_bytes calendar_date) m;
     Some (res, m)
   }"

definition gmtime_buffer :: "time_state \<times> mem \<Rightarrow> (vaddr \<times> time_state \<times> mem) option" where
  "gmtime_buffer s = (case s of (ts, m) \<Rightarrow>
     (case gmtime_tmp ts of
        Some p \<Rightarrow> Some (p, ts, m)
      | None \<Rightarrow> do {
          (p, m) \<leftarrow> Mem_alloc 44 m;
          Some (p, ts\<lparr>gmtime_tmp := Some p\<rparr>, m)
        }))"

definition gmtime :: "vaddr \<Rightarrow> time_state \<times> mem \<Rightarrow> (vaddr \<times> time_state \<times> mem) option" where
  "gmtime timestamp s = do {
     (tmp, ts, m) \<leftarrow> gmtime_buffer s;
     (p, m) \<leftarrow> gmtime_r timestamp tmp m;
     Some (p, ts, m)
   }"

text \<open>\<open>host_isdst\<close> is the flag for summer time that the host has for a time.\<close>

definition zone_name :: "int \<Rightarrow> time_state \<Rightarrow> vaddr" where
  "zone_name isdst ts =
     (if 0 < isdst then (case tzname_dst_ptr ts of Some p \<Rightarrow> p | None \<Rightarrow> 0)
      else (case tzname_std_ptr ts of Some p \<Rightarrow> p | None \<Rightarrow> 0))"

definition localtime_r :: "(int \<Rightarrow> int) \<Rightarrow> vaddr \<Rightarrow> vaddr \<Rightarrow> time_state \<times> mem \<Rightarrow> (vaddr \<times> time_state \<times> mem) option" where
  "localtime_r host_isdst timestamp res s = (case s of (ts, m) \<Rightarrow> do {
     t \<leftarrow> read_u32 m timestamp;
     let offset = timezone_offset_seconds ts;
     calendar_date \<leftarrow> timestamp_to_calendar_date (saturate_i32 (sint t - offset));
     let isdst = host_isdst (sint t);
     let calendar_date = calendar_date\<lparr>tm_isdst := isdst, tm_gmtoff := - offset, tm_zone := zone_name isdst ts\<rparr>;
     m \<leftarrow> write_raw res (tm_bytes calendar_date) m;
     Some (res, ts, m)
   })"

definition localtime :: "(int \<Rightarrow> int) \<Rightarrow> vaddr \<Rightarrow> time_state \<times> mem \<Rightarrow> (vaddr \<times> time_state \<times> mem) option" where
  "localtime host_isdst timestamp s = do {
     (tmp, ts, m) \<leftarrow> gmtime_buffer s;
     localtime_r host_isdst timestamp tmp (ts, m)
   }"

section \<open>Days and years\<close>

text \<open>Days from the year 0 of the calendar, in the proleptic Gregorian reckoning.\<close>

definition day_number :: "int \<Rightarrow> int" where
  "day_number y = 365 * y + (y + 3) div 4 - (y + 99) div 100 + (y + 399) div 400"

lemma div_step:
  assumes k: "0 < k" and j: "j = k - 1"
  shows "(y + 1 + j) div k = (y + j) div k + (if y mod k = 0 then 1 else (0 :: int))"
proof -
  define q r where "q = y div k" and "r = y mod k"
  then have y: "y = k * q + r" and r: "0 \<le> r" "r < k" using k by simp_all
  have 1: "(y + 1 + j) div k = q + 1"
    by (rule int_div_pos_eq [where r = r]) (use y r j in \<open>auto simp: algebra_simps\<close>)
  show ?thesis
  proof (cases "r = 0")
    case True
    then have "(y + j) div k = q"
      by (intro int_div_pos_eq [where r = "k - 1"]) (use y k j in auto)
    with 1 True r_def show ?thesis by simp
  next
    case False
    then have "(y + j) div k = q + 1"
      by (intro int_div_pos_eq [where r = "r - 1"]) (use y r j in \<open>auto simp: algebra_simps\<close>)
    with 1 False r_def show ?thesis by simp
  qed
qed

lemma mod_divisors: "y mod 400 = 0 \<Longrightarrow> y mod 100 = 0" "y mod 100 = 0 \<Longrightarrow> y mod 4 = 0" for y :: int
proof -
  have "(400 :: int) dvd y \<Longrightarrow> 100 dvd y" "(100 :: int) dvd y \<Longrightarrow> 4 dvd y"
    by (rule dvd_trans [of 100 400], simp, assumption) (rule dvd_trans [of 4 100], simp, assumption)
  then show "y mod 400 = 0 \<Longrightarrow> y mod 100 = 0" "y mod 100 = 0 \<Longrightarrow> y mod 4 = 0" by (simp_all only: mod_eq_0_iff_dvd)
qed

lemma day_number_step: "day_number (y + 1) = day_number y + days_in_year y"
proof -
  define a b c where "a = (y mod 4 = 0)" and "b = (y mod 100 = 0)" and "c = (y mod 400 = 0)"
  have imp: "c \<Longrightarrow> b" "b \<Longrightarrow> a" using mod_divisors [of y] by (simp_all only: a_def b_def c_def)
  have 4: "(y + 1 + 3) div 4 = (y + 3) div 4 + (if a then 1 else 0)" unfolding a_def by (rule div_step) (simp, simp)
  have 100: "(y + 1 + 99) div 100 = (y + 99) div 100 + (if b then 1 else 0)" unfolding b_def by (rule div_step) (simp, simp)
  have 400: "(y + 1 + 399) div 400 = (y + 399) div 400 + (if c then 1 else 0)" unfolding c_def by (rule div_step) (simp, simp)
  have days: "days_in_year y = (if a \<and> (\<not> b \<or> c) then 366 else 365)"
    unfolding days_in_year_def is_leap_year_def a_def b_def c_def by (rule refl)
  define u v w where "u = (y + 3) div 4" and "v = (y + 99) div 100" and "w = (y + 399) div 400"
  have "day_number (y + 1) = 365 * (y + 1) + (u + (if a then 1 else 0)) - (v + (if b then 1 else 0)) + (w + (if c then 1 else 0))"
    unfolding day_number_def 4 100 400 u_def v_def w_def by (rule refl)
  moreover have "day_number y = 365 * y + u - v + w" unfolding day_number_def u_def v_def w_def by (rule refl)
  ultimately show ?thesis unfolding days using imp by (cases a; cases b; cases c) simp_all
qed

lemma year_start_number: "year_start n = day_number (int n)"
proof (induction n)
  case (Suc n)
  then show ?case using day_number_step [of "int n"] by (simp add: add.commute)
qed (simp add: day_number_def)

lemma day_number_cycle: "day_number (400 * c + y) = 146097 * c + day_number y"
proof -
  have "(k * b + (y + j)) div k = b + (y + j) div k" if "k \<noteq> 0" for b k j :: int using that by simp
  from this [of 4 "100 * c" 3] this [of 100 "4 * c" 99] this [of 400 c 399]
  show ?thesis by (simp add: day_number_def algebra_simps)
qed

lemma cycle_days: "CYCLE_DAYS = 146097"
  by (simp add: CYCLE_DAYS_def year_start_number day_number_def)

lemma sum_years_number: "a \<le> b \<Longrightarrow> sum_years a b = day_number b - day_number a"
proof (induction "nat (b - a)" arbitrary: b)
  case 0
  then show ?case by (simp add: sum_years_def)
next
  case (Suc n)
  then have "a \<le> b - 1" by simp
  with Suc have "sum_years a (b - 1) = day_number (b - 1) - day_number a" by simp
  moreover have "[a..b - 1] = [a..b - 1 - 1] @ [b - 1]" using upto_rec2 [OF \<open>a \<le> b - 1\<close>] by simp
  then have "sum_years a b = sum_years a (b - 1) + days_in_year (b - 1)" unfolding sum_years_def by simp
  ultimately show ?case using day_number_step [of "b - 1"] by simp
qed

lemma leap_cycle: "is_leap_year (400 * c + y) = is_leap_year y"
proof -
  have "(k * b + y) mod k = y mod k" for b k :: int by simp
  from this [of 4 "100 * c"] this [of 100 "4 * c"] this [of 400 c] show ?thesis by (simp add: is_leap_year_def)
qed

section \<open>Searching the tables\<close>

lemma partition_point_table:
  assumes "f 0 \<le> (x :: int)" "x < f n"
  defines "k \<equiv> partition_point (\<lambda>d. d \<le> x) (map f [0..<n]) - 1"
  shows "k < n" "f k \<le> x" "x < f (Suc k)"
proof -
  define xs where "xs = map f [0..<n]"
  define ys where "ys = takeWhile (\<lambda>d. d \<le> x) xs"
  have len: "length xs = n" by (simp add: xs_def)
  have nth: "i < n \<Longrightarrow> xs ! i = f i" for i by (simp add: xs_def)
  have n: "0 < n" using assms(1,2) by (cases n) auto
  have le: "length ys \<le> n" unfolding ys_def len [symmetric] by (rule length_takeWhile_le)
  have "xs \<noteq> []" "hd xs \<le> x" using n assms(1) len nth [of 0] by (auto simp: hd_conv_nth)
  then have "ys \<noteq> []" unfolding ys_def by (cases xs) simp_all
  then have pos: "0 < length ys" by simp
  have k: "k = length ys - 1" by (simp only: k_def partition_point_def ys_def xs_def)
  with pos have Sk: "length ys = Suc k" by simp
  then show kn: "k < n" using le by simp
  have "ys ! k = xs ! k" unfolding ys_def by (rule takeWhile_nth) (simp add: Sk [unfolded ys_def])
  moreover have "ys ! k \<in> set ys" using Sk by simp
  then have "ys ! k \<le> x" unfolding ys_def by (rule set_takeWhileD [THEN conjunct2])
  ultimately show "f k \<le> x" using nth [OF kn] by simp
  show "x < f (Suc k)"
  proof (cases "Suc k < n")
    case True
    then have "\<not> xs ! length ys \<le> x" using Sk len unfolding ys_def by (intro nth_length_takeWhile) simp
    with True Sk nth show ?thesis by simp
  next
    case False
    with kn have "Suc k = n" by simp
    with assms(2) show ?thesis by simp
  qed
qed

lemma year_found:
  assumes "0 \<le> d" "d < 146097"
  defines "k \<equiv> partition_point (\<lambda>day. day \<le> d) YEAR_TO_DAY - 1"
  shows "k < 400" "day_number (int k) \<le> d" "d < day_number (int k) + days_in_year (int k)" "YEAR_TO_DAY ! k = day_number (int k)"
proof -
  have b: "year_start 0 \<le> d" "d < year_start 400" using assms(1,2) cycle_days by (simp_all add: CYCLE_DAYS_def del: year_start.simps(2))
  note P = partition_point_table [where f = year_start and n = 400 and x = d, OF b, folded YEAR_TO_DAY_def, folded k_def]
  from P(1) show "k < 400" .
  from P(2) show "day_number (int k) \<le> d" by (simp only: year_start_number)
  have "year_start (Suc k) = day_number (int k) + days_in_year (int k)" by (simp only: year_start.simps) (simp only: year_start_number)
  with P(3) show "d < day_number (int k) + days_in_year (int k)" by linarith
  show "YEAR_TO_DAY ! k = day_number (int k)" using P(1)
    by (simp only: YEAR_TO_DAY_def year_start_number [symmetric]) (rule nth_map_upt [where m = 0, simplified])
qed

section \<open>Dates and seconds\<close>

lemma month_start_values:
  "month_start b 0 = 0" "month_start b 12 = (if b then 366 else 365)"
  by (simp_all add: eval_nat_numeral DAYS_IN_MONTH_def)

lemma month_found:
  assumes "0 \<le> d" "d < 365 + (if b then 1 else 0)"
  defines "k \<equiv> partition_point (\<lambda>day. day \<le> d) (MONTH_TO_DAY b) - 1"
  shows "k < 12" "MONTH_TO_DAY b ! k \<le> d" "d - MONTH_TO_DAY b ! k < DAYS_IN_MONTH ! k + (if b \<and> k = 1 then 1 else 0)"
    "MONTH_TO_DAY b ! k = month_start b k"
proof -
  have lim: "month_start b 0 \<le> d" "d < month_start b 12" using assms(1,2) by (auto simp only: month_start_values split: if_splits)
  note P = partition_point_table [where f = "month_start b" and n = 12 and x = d, OF lim, folded MONTH_TO_DAY_def, folded k_def]
  from P(1) show k: "k < 12" .
  then show n: "MONTH_TO_DAY b ! k = month_start b k"
    by (simp only: MONTH_TO_DAY_def) (rule nth_map_upt [where m = 0, simplified])
  show "MONTH_TO_DAY b ! k \<le> d" unfolding n by (rule P(2))
  have "month_start b (Suc k) = month_start b k + (DAYS_IN_MONTH ! k + (if b \<and> k = 1 then 1 else 0))" by (simp only: month_start.simps)
  with P(3) show "d - MONTH_TO_DAY b ! k < DAYS_IN_MONTH ! k + (if b \<and> k = 1 then 1 else 0)" unfolding n by linarith
qed

text \<open>The second of a date, by the closed formula for the days of the years.\<close>

definition gregorian_seconds :: "tm \<Rightarrow> int" where
  "gregorian_seconds d =
     (day_number (1900 + tm_year d) - day_number 1970 + month_start (is_leap_year (1900 + tm_year d)) (nat (tm_mon d)) + (tm_mday d - 1)) * 86400 +
     tm_hour d * 3600 + tm_min d * 60 + tm_sec d"

definition valid_date :: "tm \<Rightarrow> bool" where
  "valid_date d \<longleftrightarrow> 0 \<le> tm_sec d \<and> tm_sec d < 60 \<and> 0 \<le> tm_min d \<and> tm_min d < 60 \<and> 0 \<le> tm_hour d \<and> tm_hour d < 24 \<and>
     0 \<le> tm_mon d \<and> tm_mon d < 12 \<and> 1 \<le> tm_mday d \<and>
     tm_mday d \<le> DAYS_IN_MONTH ! nat (tm_mon d) + (if is_leap_year (1900 + tm_year d) \<and> tm_mon d = 1 then 1 else 0)"

lemma day_number_1970: "day_number 1970 = 719528" by (simp add: day_number_def)

lemma timestamp_of_date:
  assumes "0 \<le> tm_mon d" "tm_mon d < 12" "- (2 ^ 31) \<le> 1900 + tm_year d" "1900 + tm_year d < 2 ^ 31"
    "- (2 ^ 31) \<le> gregorian_seconds d" "gregorian_seconds d < 2 ^ 31"
  shows "calendar_date_to_timestamp d = gregorian_seconds d"
proof -
  define y where "y = tm_year d + 1900"
  have m: "tm_mon d div 12 = 0" "tm_mon d mod 12 = tm_mon d" using assms(1,2) by simp_all
  have y: "as_i32 y = y" using assms(3,4) by (simp add: as_i32_def y_def)
  have k: "nat (tm_mon d) < 12" using assms(2) by simp
  have n: "MONTH_TO_DAY b ! nat (tm_mon d) = month_start b (nat (tm_mon d))" for b
    using k by (simp only: MONTH_TO_DAY_def) (rule nth_map_upt [where m = 0, simplified])
  have s: "sum_years 1970 y = (if y < 1970 then 0 else day_number y - day_number 1970)"
    using sum_years_number [of 1970 y] by (simp add: sum_years_def)
  have s2: "y < 1970 \<Longrightarrow> sum_years y 1970 = day_number 1970 - day_number y"
    using sum_years_number [of y 1970] by simp
  have z: "(let r = sum_years 1970 y * 86400 + month_start (is_leap_year y) (nat (tm_mon d)) * 86400 + (tm_mday d - 1) * 86400 +
      tm_hour d * 3600 + tm_min d * 60 + tm_sec d in if y < 1970 then r - sum_years y 1970 * 86400 else r) = gregorian_seconds d"
    unfolding gregorian_seconds_def add.commute [of 1900] y_def [symmetric]
  proof (cases "y < 1970")
    case True
    note e = s2 [OF True]
    from s have "sum_years 1970 y = 0" using True by simp
    with e True show "(let r = sum_years 1970 y * 86400 + month_start (is_leap_year y) (nat (tm_mon d)) * 86400 + (tm_mday d - 1) * 86400 +
        tm_hour d * 3600 + tm_min d * 60 + tm_sec d in if y < 1970 then r - sum_years y 1970 * 86400 else r) =
      (day_number y - day_number 1970 + month_start (is_leap_year y) (nat (tm_mon d)) + (tm_mday d - 1)) * 86400 +
        tm_hour d * 3600 + tm_min d * 60 + tm_sec d" by (simp add: Let_def)
  next
    case False
    with s have "sum_years 1970 y = day_number y - day_number 1970" by simp
    with False show "(let r = sum_years 1970 y * 86400 + month_start (is_leap_year y) (nat (tm_mon d)) * 86400 + (tm_mday d - 1) * 86400 +
        tm_hour d * 3600 + tm_min d * 60 + tm_sec d in if y < 1970 then r - sum_years y 1970 * 86400 else r) =
      (day_number y - day_number 1970 + month_start (is_leap_year y) (nat (tm_mon d)) + (tm_mday d - 1)) * 86400 +
        tm_hour d * 3600 + tm_min d * 60 + tm_sec d" by (simp add: Let_def)
  qed
  have "calendar_date_to_timestamp d = (if I32_MIN \<le> gregorian_seconds d \<and> gregorian_seconds d \<le> TIME_MAX then gregorian_seconds d
      else if 0 < gregorian_seconds d then TIME_MAX else I32_MIN)"
    unfolding calendar_date_to_timestamp_def m y_def [symmetric] add_0_right y n Let_def using z [unfolded Let_def] by presburger
  then show ?thesis using assms(5,6) by (simp add: I32_MIN_def TIME_MAX_def)
qed
lemma days_split:
  fixes t :: int
  obtains c k w where "t div 86400 = 146097 * c + k + 10957" "0 \<le> k" "k < 146097"
    "c = (t div 86400 - 10957) div CYCLE_DAYS" "k = (t div 86400 - 10957) mod CYCLE_DAYS"
proof
  let ?n = "t div 86400 - 10957"
  show "t div 86400 = 146097 * (?n div CYCLE_DAYS) + ?n mod CYCLE_DAYS + 10957" unfolding cycle_days using mult_div_mod_eq [of 146097 ?n] by linarith
  show "0 \<le> ?n mod CYCLE_DAYS" "?n mod CYCLE_DAYS < 146097" unfolding cycle_days by simp_all
qed (rule refl)+

lemma seconds_split:
  fixes s :: int
  assumes "0 \<le> s" "s < 86400"
  shows "s = s div 3600 * 3600 + (s mod 3600) div 60 * 60 + s mod 60" "0 \<le> s div 3600" "s div 3600 < 24"
    "0 \<le> (s mod 3600) div 60" "(s mod 3600) div 60 < 60"
proof -
  have "s mod 3600 mod 60 = s mod 60" by (rule mod_mod_cancel) simp
  then show "s = s div 3600 * 3600 + (s mod 3600) div 60 * 60 + s mod 60"
    using mult_div_mod_eq [of 3600 s] mult_div_mod_eq [of 60 "s mod 3600"] by linarith
  show "0 \<le> s div 3600" "s div 3600 < 24" using assms by simp_all
  have "0 \<le> s mod 3600" "s mod 3600 < 3600" by simp_all
  then show "0 \<le> (s mod 3600) div 60" "(s mod 3600) div 60 < 60" by simp_all
qed

lemma date_of_timestamp:
  obtains d where "timestamp_to_calendar_date t = Some d" "valid_date d" "gregorian_seconds d = t"
    "tm_yday d = month_start (is_leap_year (1900 + tm_year d)) (nat (tm_mon d)) + tm_mday d - 1" "tm_wday d = (4 + t div 86400) mod 7"
    "1900 + tm_year d = 2000 + (t div 86400 - 10957) div CYCLE_DAYS * 400 + int (partition_point (\<lambda>day. day \<le> (t div 86400 - 10957) mod CYCLE_DAYS) YEAR_TO_DAY - 1)"
proof -
  obtain c k where n: "t div 86400 = 146097 * c + k + 10957" and k: "0 \<le> k" "k < 146097"
    and c: "c = (t div 86400 - 10957) div CYCLE_DAYS" and kd: "k = (t div 86400 - 10957) mod CYCLE_DAYS"
    by (rule days_split)
  define yc where "yc = partition_point (\<lambda>day. day \<le> k) YEAR_TO_DAY - 1"
  note Y = year_found [OF k, folded yc_def]
  define y where "y = 2000 + c * 400 + int yc"
  define diy where "diy = k - day_number (int yc)"
  define leap where "leap = is_leap_year (int yc)"
  have leap: "is_leap_year y = leap" using leap_cycle [of "5 + c" "int yc"] by (simp add: y_def leap_def algebra_simps)
  have diy: "0 \<le> diy" "diy < 365 + (if leap then 1 else 0)"
    using Y(2,3) by (auto simp: diy_def leap_def days_in_year_def split: if_splits)
  define mc where "mc = partition_point (\<lambda>day. day \<le> diy) (MONTH_TO_DAY leap) - 1"
  note M = month_found [OF diy, folded mc_def]
  define dim where "dim = diy - month_start leap mc"
  have dim: "0 \<le> dim" "dim < DAYS_IN_MONTH ! mc + (if leap \<and> mc = 1 then 1 else 0)" using M(2,3) by (simp_all add: M(4) dim_def)
  have dim2: "dim < DAYS_IN_MONTH ! mc + (if leap then 1 else 0)" using dim by (auto split: if_splits)
  define s where "s = t mod 86400"
  define d where "d = \<lparr>tm_sec = s mod 60, tm_min = (s mod 3600) div 60, tm_hour = s div 3600, tm_mday = dim + 1, tm_mon = int mc,
      tm_year = y - 1900, tm_wday = (4 + t div 86400) mod 7, tm_yday = diy, tm_isdst = 0, tm_gmtoff = 0, tm_zone = 0\<rparr>"
  have e: "timestamp_to_calendar_date t = Some d"
    unfolding timestamp_to_calendar_date_def Let_def c [symmetric] kd [symmetric] yc_def [symmetric] Y(4) diy_def [symmetric]
      leap_def [symmetric] mc_def [symmetric] M(4) dim_def [symmetric] s_def [symmetric] CYCLE_YEARS_def y_def [symmetric] d_def
    using diy dim2 by (simp only: expect_simps if_True simp_thms bind.bind_lunit)
  have s: "0 \<le> s" "s < 86400" "t = t div 86400 * 86400 + s" by (simp_all add: s_def)
  note S = seconds_split [OF s(1,2)]
  have dn: "day_number y = 146097 * (5 + c) + day_number (int yc)"
    using day_number_cycle [of "5 + c" "int yc"] by (simp add: y_def algebra_simps)
  have f: "1900 + tm_year d = y" "nat (tm_mon d) = mc" "tm_mon d = int mc" "tm_mday d = dim + 1" "tm_hour d = s div 3600"
    "tm_min d = (s mod 3600) div 60" "tm_sec d = s mod 60" by (simp_all add: d_def)
  have "valid_date d" unfolding valid_date_def f leap using S dim M(1) by (auto split: if_splits)
  moreover have "day_number y - day_number 1970 + month_start leap mc + dim = t div 86400"
    unfolding dn day_number_1970 n using dim_def diy_def by simp
  then have "gregorian_seconds d = t" unfolding gregorian_seconds_def f leap using s(3) S(1) by simp
  moreover have "tm_yday d = month_start (is_leap_year (1900 + tm_year d)) (nat (tm_mon d)) + tm_mday d - 1"
    unfolding f leap by (simp add: d_def dim_def)
  moreover have "tm_wday d = (4 + t div 86400) mod 7" by (simp add: d_def)
  moreover have "1900 + tm_year d = 2000 + c * 400 + int yc" unfolding f y_def by (rule refl)
  ultimately show ?thesis using e that unfolding c yc_def kd by blast
qed

lemma year_range:
  assumes "- (2 ^ 31) \<le> t" "t < 2 ^ 31"
  shows "- 1 \<le> (t div 86400 - 10957) div CYCLE_DAYS" "(t div 86400 - 10957) div CYCLE_DAYS \<le> 0"
proof -
  have "- 24856 \<le> t div 86400" "t div 86400 \<le> 24855" using assms by simp_all
  then show "- 1 \<le> (t div 86400 - 10957) div CYCLE_DAYS" "(t div 86400 - 10957) div CYCLE_DAYS \<le> 0"
    unfolding cycle_days by simp_all
qed

lemma yc_bound: "int (partition_point (\<lambda>day. day \<le> x) YEAR_TO_DAY - 1) \<le> 399"
proof -
  have "length (takeWhile (\<lambda>day. day \<le> x) YEAR_TO_DAY) \<le> length YEAR_TO_DAY" by (rule length_takeWhile_le)
  then show ?thesis unfolding partition_point_def by (simp add: YEAR_TO_DAY_def)
qed

text \<open>
  C15: Every second of the 32-bit clock is a date and comes back.  The conversion to a date does not panic, the date is a day
  that exists in the Gregorian calendar, whose closed formula gives the second back, with the right day of the
  year and of the week (1 January 1970 was a Thursday); and the conversion of that date to seconds is exact.
\<close>

theorem calendar_roundtrip:
  assumes "- (2 ^ 31) \<le> t" "t < 2 ^ 31"
  shows "\<exists>d. timestamp_to_calendar_date t = Some d \<and> valid_date d \<and> gregorian_seconds d = t \<and>
    tm_yday d = month_start (is_leap_year (1900 + tm_year d)) (nat (tm_mon d)) + tm_mday d - 1 \<and> tm_wday d = (4 + t div 86400) mod 7 \<and>
    calendar_date_to_timestamp d = t"
proof -
  obtain d where d: "timestamp_to_calendar_date t = Some d" "valid_date d" "gregorian_seconds d = t"
    "tm_yday d = month_start (is_leap_year (1900 + tm_year d)) (nat (tm_mon d)) + tm_mday d - 1" "tm_wday d = (4 + t div 86400) mod 7"
    "1900 + tm_year d = 2000 + (t div 86400 - 10957) div CYCLE_DAYS * 400 + int (partition_point (\<lambda>day. day \<le> (t div 86400 - 10957) mod CYCLE_DAYS) YEAR_TO_DAY - 1)"
    by (rule date_of_timestamp)
  have "1600 \<le> 1900 + tm_year d" "1900 + tm_year d \<le> 2399"
    using year_range [OF assms] yc_bound [of "(t div 86400 - 10957) mod CYCLE_DAYS"] unfolding d(6) by linarith+
  moreover have "0 \<le> tm_mon d" "tm_mon d < 12" using d(2) by (simp_all add: valid_date_def)
  ultimately have "calendar_date_to_timestamp d = t"
    using timestamp_of_date [of d] assms unfolding d(3) by simp
  with d show ?thesis by blast
qed

theorem calendar_roundtrip_witness:
  "\<exists>d. timestamp_to_calendar_date (- (2 ^ 31)) = Some d \<and> calendar_date_to_timestamp d = - (2 ^ 31)"
  using calendar_roundtrip [of "- (2 ^ 31)"] by auto

text \<open>
  C35: The result is cut off at the ends of the clock, whatever the fields hold.  But the year is cut to 32 bits before that: a date in
  the last year that \<open>tm_year\<close> can name, far behind the end of the clock, gives its first second and not its last.
\<close>

theorem calendar_limits:
  shows "- (2 ^ 31) \<le> calendar_date_to_timestamp d \<and> calendar_date_to_timestamp d < 2 ^ 31 \<and>
    (tm_year e = 2 ^ 31 - 1 \<and> 0 \<le> tm_mon e \<and> tm_mon e < 12 \<and> tm_mday e \<le> 31 \<and> tm_hour e < 24 \<and> tm_min e < 60 \<and> tm_sec e < 60 \<longrightarrow>
      calendar_date_to_timestamp e = - (2 ^ 31))"
proof (intro conjI impI)
  show "- (2 ^ 31) \<le> calendar_date_to_timestamp d" "calendar_date_to_timestamp d < 2 ^ 31"
    by (simp_all add: calendar_date_to_timestamp_def Let_def I32_MIN_def TIME_MAX_def)
  assume a: "tm_year e = 2 ^ 31 - 1 \<and> 0 \<le> tm_mon e \<and> tm_mon e < 12 \<and> tm_mday e \<le> 31 \<and> tm_hour e < 24 \<and> tm_min e < 60 \<and> tm_sec e < 60"
  have m: "tm_mon e div 12 = 0" "tm_mon e mod 12 = tm_mon e" using a by simp_all
  have y: "as_i32 (tm_year e + 1900) = - 2147481749" using a by (simp add: as_i32_def)
  have k: "nat (tm_mon e) < 12" using a by (simp add: nat_less_iff)
  have n: "MONTH_TO_DAY b ! nat (tm_mon e) = month_start b (nat (tm_mon e))" for b
    using k by (simp only: MONTH_TO_DAY_def) (rule nth_map_upt [where m = 0, simplified])
  have "month_start b i \<le> 32 * int i" if "i < 12" for b i
    using that
  proof (induction i)
    case (Suc i)
    then have "DAYS_IN_MONTH ! i \<le> 31" unfolding DAYS_IN_MONTH_def by (auto simp: less_Suc_eq eval_nat_numeral)
    with Suc show ?case by auto
  qed simp
  from this [OF k] have ms: "month_start b (nat (tm_mon e)) \<le> 400" for b using a by (smt (verit) nat_0_le)
  have s: "sum_years 1970 (- 2147481749) = 0" by (simp add: sum_years_def)
  have s2: "sum_years (- 2147481749) 1970 = 784352322237"
    using sum_years_number [of "- 2147481749" 1970] by (simp add: day_number_def)
  show "calendar_date_to_timestamp e = - (2 ^ 31)"
    unfolding calendar_date_to_timestamp_def m add_0_right y n Let_def s s2
    using a ms [of "is_leap_year (- 2147481749)"] by (simp add: I32_MIN_def TIME_MAX_def)
qed
theorem calendar_limits_witness:
  "calendar_date_to_timestamp \<lparr>tm_sec = 0, tm_min = 0, tm_hour = 0, tm_mday = 1, tm_mon = 0, tm_year = 2 ^ 31 - 1, tm_wday = 0,
     tm_yday = 0, tm_isdst = 0, tm_gmtoff = 0, tm_zone = 0\<rparr> = - (2 ^ 31)"
  using calendar_limits [of _ "\<lparr>tm_sec = 0, tm_min = 0, tm_hour = 0, tm_mday = 1, tm_mon = 0, tm_year = 2 ^ 31 - 1, tm_wday = 0,
     tm_yday = 0, tm_isdst = 0, tm_gmtoff = 0, tm_zone = 0\<rparr>"] by simp

end
