(* ===== verification/Spec2Isabelle.thy ===== *)
theory Spec2Isabelle
  imports CString SyncProps FsProps FsBundle FdProps Abi ObjcWeak Fnmatch Strtol Calendar
begin

text \<open>
  A verification development for the core of the emulator: the parts of \<open>src/src\<close> on which every emulated
  program depends, however little of the frameworks it uses.  They are the guest memory and its heap, the
  C library's functions on strings, numbers, patterns and dates, threads with everything they can block on, the calling
  convention, the lifetime of Objective-C objects, the filesystem, and the file descriptors over it.  The definitions are
  translated from the Rust source, operation by operation; the theorems say what each component promises to the others
  and to guest programs, and, where the code does something else than its comments or the C standard say, what it does.

  How the source is read.  A machine integer is a word of its width and arithmetic wraps as it does in the
  release profile; checked and saturating arithmetic is written out.  Dates and offsets in files, which stay far from the
  limits of \<open>i64\<close> except where a cast is written out, are integers.  An operation that can panic the
  host returns \<open>option\<close>, \<open>None\<close> being the panic; a failure that the source returns as a value (\<open>Result\<close>, an
  errno, a null pointer) is a value of the model too, a sum or an inner \<open>option\<close>.  Mutable state is passed
  explicitly as a record with the fields of the struct; what the source shares behind an \<open>Rc\<close> is kept in a list and
  named by its index.  A \<open>BTreeMap\<close> is a sorted association list
  (theory \<open>BTree\<close>), a \<open>HashMap\<close> an association list whose order stands for the order of iteration.  Logging is left
  out throughout.

  Components and their theories, each over the ones before it:

  \<^item> \<open>Prelude\<close>: names of the machine integers, pieces of the Rust standard library, shared lemmas.
  \<^item> \<open>BTree\<close>, \<open>Allocator\<close> (\<open>mem/allocator.rs\<close>): the chunk maps and the first-fit heap.  The invariant says that
    the live and the free chunks tile the heap; \<open>alloc\<close>, \<open>free\<close>, \<open>reserve\<close> and \<open>grow_in_place\<close> keep it and are described on every
    branch.  The interface of the ordered map is the locale \<open>ordered_map\<close>.
  \<^item> \<open>GuestMem\<close> (\<open>mem.rs\<close>): bytes, null segment, stub page and write sink, typed access, \<open>memmove\<close>, \<open>malloc\<close>, \<open>calloc\<close>,
    \<open>realloc\<close>, \<open>free\<close>, and the memory of a freshly loaded program (\<open>load_program\<close>: the null segment and the segments of the
    image, from \<open>mach_o.rs\<close> and \<open>environment.rs\<close>).  Blocks handed out by any history of heap calls are disjoint and keep their contents.
  \<^item> \<open>CString\<close> (\<open>libc/generic_char.rs\<close>, \<open>libc/string.rs\<close>): loops over guest memory as partial functions, with
    their correctness on terminated strings and, for \<open>strlen\<close>, their termination.
  \<^item> \<open>Strtol\<close> (\<open>libc/stdlib.rs\<close>): the scanner of integers and the functions of the \<open>strtol\<close> family over it.
    \<open>Fnmatch\<close> (\<open>libc/fnmatch.rs\<close>): the pattern matcher against a recursive reference.  \<open>Calendar\<close> (\<open>libc/time.rs\<close>): seconds and
    dates in both directions against the Gregorian calendar.
  \<^item> \<open>Mutex\<close> (\<open>environment/mutex.rs\<close>), \<open>Threads\<close> (\<open>environment.rs\<close>), \<open>PthreadLocks\<close>, \<open>Cond\<close>, \<open>Semaphore\<close> (\<open>libc/pthread\<close>,
    \<open>libc/semaphore.rs\<close>): the round-robin scheduler, what blocks a thread, and the guest's synchronisation
    functions.  \<open>Sync\<close> puts the calls of the running thread and the passes of the scheduler into one step relation
    and proves the invariant of reachable states; its condition \<open>call_guard\<close> keeps out the two uses that POSIX leaves undefined (destroying
    a mutex that a thread waits for, initialising a condition variable in use).  \<open>SyncProps\<close> draws the conclusions: no panic, ledgers,
    wake-up order, termination of the scheduler's loop; and it shows what happens without the guard.
  \<^item> \<open>GuestPath\<close>, \<open>HostFs\<close>, \<open>GuestFs\<close>, \<open>FsOps\<close> (\<open>fs.rs\<close>) and \<open>FsBundle\<close> (\<open>fs/bundle.rs\<close>): paths, the host's tree, the tree of guest
    nodes and every operation on both.  \<open>FsView\<close> is the abstract filesystem, a partial map from paths, which the
    tree refines; \<open>FsInv\<close> and \<open>FsSafety\<close> keep tree and host in agreement over sequences of calls.  The sequences are those of
    \<open>call_allowed\<close>: no directory is opened for writing with creation, no bundled file for writing while there is a copy-on-write
    directory, no directory is renamed that holds entries located elsewhere on the host, no resource is missing, and modes are ones the
    host accepts.  \<open>FsProps\<close> states the results, and shows the runs that break them when a directory is opened for writing, when a
    bundled file is copied, and when mounted entries are moved.
  \<^item> \<open>OpenFile\<close> (\<open>GuestFile\<close>, \<open>PipeBuffer\<close>, \<open>RandomFile\<close> of \<open>fs.rs\<close>), \<open>RecordLocks\<close>, \<open>Fd\<close>, \<open>FdIo\<close> (\<open>libc/posix_io.rs\<close>, \<open>pipe\<close> of \<open>libc/unistd.rs\<close>):
    open files, the table of descriptors, and the POSIX functions over it.  \<open>FdProps\<close> shows that pipes count their ends exactly over any
    sequence of calls, that positional transfers round-trip, and that the list of record locks implements a map from bytes to locks.
  \<^item> \<open>Abi\<close> (\<open>abi.rs\<close>, \<open>cpu.rs\<close>): arguments and results in registers and on the guest stack, and calls between host
    and guest in both directions.
  \<^item> \<open>ObjcRefs\<close>, \<open>ObjcWeak\<close> (\<open>objc/objects.rs\<close>, \<open>objc/weak.rs\<close>, \<open>objc.rs\<close>, \<open>frameworks/foundation\<close>): the object table with
    reference counts, zeroing weak references, associated objects, autorelease pools.  Weak references outside of objects
    never dangle over any sequence of calls that follows the rules of memory management; those inside an object outlive it,
    because the runtime never runs the destructors of instance variables.

  Bounds and fuel.  The scheduler loop has fuel in rounds, and \<open>SyncProps\<close> proves how many rounds are enough.  Messages
  between objects nest at most \<open>MAX_DEPTH\<close> = 256 deep, the limit of the dispatcher itself.  String
  loops have no bound: they are partial functions, and their theorems say where they return; for the pattern matcher and the scanner of
  numbers the theorems include that they do.  All other recursion ends by construction.

  Parameters.  Code that is not in the repository is an argument of the model: the processor's execution of
  guest code (\<open>run_call\<close>), the guest's \<open>copy\<close> methods, the entries of a \<open>zip\<close> archive, the clocks and the host's flag for summer time,
  the contents of bundled resources, the host's random numbers, and lower case.  The host's files follow \<open>std::fs\<close> with its Unix behaviour,
  without symbolic links, permissions and failing devices.

  Not modelled: the emulated processor, parsing and linking of executables, the construction of the initial filesystem (\<open>Fs::new\<close>), dispatch of
  Objective-C messages beyond the choice of the memory management methods, the framework classes, OpenGL, audio,
  networking, buffered streams, floating point, window and input.  They are
  bindings to host libraries, or reimplementations of Apple classes whose contract is not in the repository.
\<close>

end
